(* ===== verification/Prelude.thy ===== *)
theory Prelude
  imports Main "HOL-Library.Word"
begin

section \<open>Prelude: machine types and the facts the components share\<close>

text \<open>
  The type synonyms of the development (C's fixed-width integers), the collections its
  lemmas are declared into, and generic facts on lists and words that more than one
  component uses.
\<close>

unbundle bit_operations_syntax

type_synonym u8 = "8 word"
type_synonym u16 = "16 word"
type_synonym u32 = "32 word"
type_synonym u64 = "64 word"

named_theorems mem_laws \<open>read-after-write laws of the memories\<close>
named_theorems step_inv \<open>invariants kept by the operations of a component\<close>

subsection \<open>Iteration\<close>

lemma funpow_invariant:
  assumes "P s" and "\<And>t. P t \<Longrightarrow> P (f t)"
  shows "P ((f ^^ n) s)"
  using assms by (induction n) auto

lemma foldl_invariant:
  assumes "P s" and "\<And>t x. P t \<Longrightarrow> x \<in> set xs \<Longrightarrow> P (f t x)"
  shows "P (foldl f s xs)"
  using assms by (induction xs arbitrary: s) auto

subsection \<open>Words\<close>

lemma and_mask_split:
  fixes a b c :: "'w::len word"
  assumes "a AND b = c AND b" and "a AND NOT b = c AND NOT b"
  shows "a = c"
proof (rule bit_word_eqI)
  fix n assume "n < LENGTH('w)"
  moreover from assms have "bit (a AND b) n = bit (c AND b) n"
      and "bit (a AND NOT b) n = bit (c AND NOT b) n"
    by simp_all
  ultimately show "bit a n = bit c n"
    by (auto simp: bit_simps)
qed

lemma and_low_mask:
  fixes w :: "'w::len word"
  assumes "m = mask k" shows "unat (w AND m) = unat w mod 2 ^ k"
  unfolding assms take_bit_eq_mask [symmetric] unsigned_take_bit_eq by (rule take_bit_eq_mod)

lemma unat_drop: "unat (drop_bit k (c :: 'w::len word)) = unat c div 2 ^ k"
  unfolding unsigned_drop_bit_eq by (simp add: drop_bit_eq_div take_bit_nat_eq_self)

lemma unat_push:
  fixes c :: "'w::len word"
  assumes "unat c * 2 ^ k < 2 ^ LENGTH('w)"
  shows "unat (push_bit k c) = unat c * 2 ^ k"
  unfolding unsigned_push_bit_eq unfolding push_bit_eq_mult using assms by (rule take_bit_nat_eq_self)

lemma low_masks: 
  shows "(0x3F :: 'w::len word) = mask 6" "(0x1F:: 'w::len word) = mask 5" "(0x0F:: 'w::len word) = mask 4" "(0x07:: 'w::len word) = mask 3"
    "(0x03:: 'w::len word) = mask 2" "(0xFF:: 'w::len word) = mask 8" "(0x3FF:: 'w::len word) = mask 10"
  by (simp_all add: mask_eq_exp_minus_1)

lemma unat_and_shifted:
  fixes w :: "'w::len word"
  assumes "k + m \<le> LENGTH('w)"
  shows "unat (w AND push_bit k (mask m)) = unat w div 2 ^ k mod 2 ^ m * 2 ^ k"
proof -
  have "w AND push_bit k (mask m) = push_bit k (take_bit m (drop_bit k w))"
    by (rule bit_word_eqI) (auto simp: bit_simps)
  moreover have n: "unat (take_bit m (drop_bit k w)) = unat w div 2 ^ k mod 2 ^ m"
    unfolding unsigned_take_bit_eq unat_drop by (simp only: take_bit_eq_mod)
  moreover have "(2::nat) ^ m * 2 ^ k \<le> 2 ^ LENGTH('w)"
    using assms by (metis add.commute one_le_numeral power_add power_increasing)
  then have "unat w div 2 ^ k mod 2 ^ m * 2 ^ k < 2 ^ LENGTH('w)"
    by (meson less_le_trans mult_less_mono1 pos_mod_bound mod_less_divisor zero_less_numeral zero_less_power)
  ultimately show ?thesis
    by (simp only: ) (subst unat_push, simp_all add: n)
qed

lemma byte_less [simp]: "unat (b :: u8) < 256"
  using unsigned_less [of b, where 'a=nat] by simp

lemma word_nat_back: "word_of_nat (unat w) = w"
  by (simp add: ucast_id)

lemma unat_ucast8: "unat (ucast (c::u32) :: u8) = unat c mod 256" "unat (ucast (b::u8) :: u32) = unat b"
  unfolding unsigned_ucast_eq using byte_less [of b] by (simp_all add: take_bit_eq_mod del: byte_less)

lemma radix: "s < k \<Longrightarrow> (s + k * x) mod k = s" "s < k \<Longrightarrow> (s + k * x) div k = x" for k :: nat
  by auto

text \<open>Equality of words bit by bit, for identities of shifts and masks.\<close>

lemma upt_start: "[0..<numeral (num.Bit0 k)] = 0 # 1 # [2..<numeral (num.Bit0 k)]"
proof -
  have "2 \<le> (numeral (num.Bit0 k) :: nat)" by simp
  then show ?thesis by (simp add: upt_conv_Cons numeral_2_eq_2 del: One_nat_def)
qed

lemma word_eq_bits: "(x::'w::len word) = y \<longleftrightarrow> list_all (\<lambda>n. bit x n = bit y n) [0..<LENGTH('w)]"
  by (auto simp: list_all_iff intro: bit_word_eqI)

subsection \<open>Bytes of a word, least significant first\<close>

primrec le_bytes_n :: "nat \<Rightarrow> 'w::len word \<Rightarrow> u8 list" where
  "le_bytes_n 0 w = []"
| "le_bytes_n (Suc n) w = ucast w # le_bytes_n n (drop_bit 8 w)"

fun of_le_bytes :: "u8 list \<Rightarrow> 'w::len word" where
  "of_le_bytes [] = 0"
| "of_le_bytes (b # bs) = ucast b OR push_bit 8 (of_le_bytes bs)"

lemma length_le_bytes_n [simp]: "length (le_bytes_n n w) = n"
  by (induction n arbitrary: w) auto

lemma split_low_byte:
  fixes w :: "'w::len word"
  shows "ucast (ucast w :: u8) OR push_bit 8 (take_bit n (drop_bit 8 w)) = take_bit (n + 8) w"
  by (rule bit_word_eqI) (auto simp: bit_simps)

lemma of_le_bytes_le_bytes_n: "of_le_bytes (le_bytes_n n w) = take_bit (8 * n) w"
  by (induction n arbitrary: w) (simp_all add: split_low_byte add.commute)

definition le_bytes :: "u64 \<Rightarrow> u8 list" where
  "le_bytes w = le_bytes_n 8 w"

lemma length_le_bytes [simp]: "length (le_bytes w) = 8"
  by (simp add: le_bytes_def)

lemma of_le_bytes_le_bytes: "of_le_bytes (le_bytes w) = w"
  by (simp add: le_bytes_def of_le_bytes_le_bytes_n take_bit_word_eq_self)

end
