(* ===== verification/HostMemory.thy ===== *)
theory HostMemory
  imports Prelude
begin

section \<open>The host memory of the test driver (testmain.c)\<close>

text \<open>
  \<open>src/testmain.c\<close> gives the simulated CPU a sparse memory: a linked list of blocks of
  \<open>2 ^ 24\<close> cells, found by the upper 40 bits of the address and allocated on the first
  write. The model keeps the list (\<open>struct mem\<close>, \<open>struct block\<close>), the walk over
  it and the two callbacks \<open>write_mem\<close> and \<open>read_mem\<close> that the CPU calls. The
  block's \<open>calloc\<close>ed array is a total function that is 0 at first; the offset that
  indexes it is always below its length (\<open>block_offset_in_bounds\<close>). The C code does not
  check the result of \<open>malloc\<close> and \<open>calloc\<close>: the argument \<open>heap_ok\<close> says
  whether they succeed, and \<open>None\<close> is the null-pointer write that follows when they do
  not. The interface the callbacks offer is the locale \<open>ram_callbacks\<close>.
\<close>

subsection \<open>Data and operations\<close>

record block =
  block_id :: u64
  block_mem :: "u64 \<Rightarrow> u64"

record host_mem =
  first_block :: "block list"

definition BLOCK_MASK :: u64 where
  "BLOCK_MASK = 0xFFFFFF"

definition block_of :: "u64 \<Rightarrow> u64" where
  "block_of address = address AND NOT BLOCK_MASK"

definition offset_of :: "u64 \<Rightarrow> u64" where
  "offset_of address = address AND BLOCK_MASK"

text \<open>The \<open>while (current != NULL)\<close> loop of \<open>write_mem\<close>: \<open>None\<close> when it runs off the list.\<close>

fun write_walk :: "u64 \<Rightarrow> u64 \<Rightarrow> u64 \<Rightarrow> block list \<Rightarrow> block list option" where
  "write_walk key offset value [] = None"
| "write_walk key offset value (current # next) =
     (if block_id current = key
      then Some (current\<lparr>block_mem := (block_mem current)(offset := value)\<rparr> # next)
      else map_option (\<lambda>rest. current # rest) (write_walk key offset value next))"

definition write_mem :: "bool \<Rightarrow> host_mem \<Rightarrow> u64 \<Rightarrow> int \<Rightarrow> u64 \<Rightarrow> (int \<times> host_mem) option" where
  "write_mem heap_ok mem address sz value =
     (let key = block_of address; offset = offset_of address in
      case write_walk key offset value (first_block mem) of
        Some blocks \<Rightarrow> Some (0, mem\<lparr>first_block := blocks\<rparr>)
      | None \<Rightarrow>
          if heap_ok then
            let new_block = \<lparr>block_id = key, block_mem = (\<lambda>_. 0)(offset := value)\<rparr>
            in Some (0, mem\<lparr>first_block := new_block # first_block mem\<rparr>)
          else None)"

text \<open>The loop of \<open>read_mem\<close>, which leaves the destination alone until a block is found.\<close>

fun read_walk :: "u64 \<Rightarrow> u64 \<Rightarrow> block list \<Rightarrow> u64 option" where
  "read_walk key offset [] = None"
| "read_walk key offset (current # next) =
     (if block_id current = key then Some (block_mem current offset)
      else read_walk key offset next)"

definition read_mem :: "host_mem \<Rightarrow> u64 \<Rightarrow> int \<Rightarrow> u64 \<Rightarrow> int \<times> u64" where
  "read_mem mem address sz destination =
     (case read_walk (block_of address) (offset_of address) (first_block mem) of
        Some v \<Rightarrow> (0, v)
      | None \<Rightarrow> (0, 0))"

definition empty_mem :: host_mem where
  "empty_mem = \<lparr>first_block = []\<rparr>"

subsection \<open>The interface: callbacks over a flat memory\<close>

text \<open>A sequence of calls of a write callback.\<close>

fun write_all ::
  "('m \<Rightarrow> u64 \<Rightarrow> int \<Rightarrow> u64 \<Rightarrow> (int \<times> 'm) option) \<Rightarrow> 'm \<Rightarrow> (u64 \<times> int \<times> u64) list \<Rightarrow> 'm option"
where
  "write_all wcb m [] = Some m"
| "write_all wcb m ((a, n, v) # ws) =
     (case wcb m a n v of None \<Rightarrow> None | Some (_, m') \<Rightarrow> write_all wcb m' ws)"

text \<open>
  What a memory behind the CPU's callbacks promises, whatever its representation:
  \<open>view\<close> reads it as one flat array of 64-bit cells, one per address.
\<close>

locale ram_callbacks =
  fixes inv :: "'m \<Rightarrow> bool"
    and init :: "'m"
    and rcb :: "'m \<Rightarrow> u64 \<Rightarrow> int \<Rightarrow> u64 \<Rightarrow> int \<times> u64"
    and wcb :: "'m \<Rightarrow> u64 \<Rightarrow> int \<Rightarrow> u64 \<Rightarrow> (int \<times> 'm) option"
    and view :: "'m \<Rightarrow> u64 \<Rightarrow> u64"
  assumes inv_init: "inv init"
    and view_init: "view init = (\<lambda>_. 0)"
    and rcb_view: "inv m \<Longrightarrow> rcb m a n d = (0, view m a)"
    and wcb_total: "inv m \<Longrightarrow> \<exists>m'. wcb m a n v = Some (0, m')"
    and wcb_inv: "inv m \<Longrightarrow> wcb m a n v = Some (rc, m') \<Longrightarrow> inv m'"
    and wcb_view: "inv m \<Longrightarrow> wcb m a n v = Some (rc, m') \<Longrightarrow> view m' = (view m)(a := v)"
begin

lemma wcb_cases:
  assumes "inv m"
  obtains m' where "wcb m a n v = Some (0, m')" "inv m'" "view m' = (view m)(a := v)"
  using assms wcb_total wcb_inv wcb_view by blast

lemma write_all_view:
  "inv m \<Longrightarrow> \<exists>m'. write_all wcb m ws = Some m' \<and> inv m' \<and>
     view m' = foldl (\<lambda>f (a, n, v). f(a := v)) (view m) ws"
proof (induction ws arbitrary: m)
  case (Cons w ws)
  obtain a n v where w: "w = (a, n, v)" by (cases w)
  obtain m' where "wcb m a n v = Some (0, m')" "inv m'" "view m' = (view m)(a := v)"
    using wcb_cases [OF Cons.prems] .
  then show ?case using Cons.IH [of m'] by (simp add: w)
qed simp

end

subsection \<open>Lemmas on the block list\<close>

lemma block_offset_in_bounds: "unat (offset_of a) < 2 ^ 24"
proof -
  have "offset_of a = take_bit 24 a"
    by (simp add: offset_of_def BLOCK_MASK_def take_bit_eq_mask mask_numeral mask_eq_exp_minus_1)
  then show ?thesis
    using take_bit_nat_less_exp [of 24 "unat a"] by (simp add: unsigned_take_bit_eq)
qed

lemma address_split: "block_of a = block_of b \<and> offset_of a = offset_of b \<longleftrightarrow> a = b"
  using and_mask_split [of a BLOCK_MASK b] by (auto simp: block_of_def offset_of_def)

lemma write_walk_None: "write_walk k off v bs = None \<longleftrightarrow> k \<notin> block_id ` set bs"
  by (induction bs) auto

lemma write_walk_ids:
  "write_walk k off v bs = Some bs' \<Longrightarrow> map block_id bs' = map block_id bs"
  by (induction bs arbitrary: bs') (auto split: if_splits)

lemma read_walk_None: "read_walk k off bs = None \<longleftrightarrow> k \<notin> block_id ` set bs"
  by (induction bs) auto

lemma read_after_write_walk:
  "write_walk k off v bs = Some bs' \<Longrightarrow>
   read_walk k' off' bs' = (if k' = k \<and> off' = off then Some v else read_walk k' off' bs)"
  by (induction bs arbitrary: bs') (auto split: if_splits)

definition host_inv :: "host_mem \<Rightarrow> bool" where
  "host_inv m \<longleftrightarrow>
     (let ids = map block_id (first_block m) in
      distinct ids \<and> list_all (\<lambda>k. k AND BLOCK_MASK = 0) ids)"

definition host_view :: "host_mem \<Rightarrow> u64 \<Rightarrow> u64" where
  "host_view m a = snd (read_mem m a 8 0)"

lemma host_view_eq:
  "host_view m a =
     (case read_walk (block_of a) (offset_of a) (first_block m) of Some v \<Rightarrow> v | None \<Rightarrow> 0)"
  by (simp add: read_mem_def host_view_def split: option.split)

lemma read_mem_view: "read_mem m a n d = (0, host_view m a)"
  by (simp add: read_mem_def host_view_def split: option.split)

lemma write_mem_view:
  assumes "write_mem ok m a n v = Some (rc, m')"
  shows "host_view m' = (host_view m)(a := v)"
proof
  fix b
  show "host_view m' b = ((host_view m)(a := v)) b"
  proof (cases "write_walk (block_of a) (offset_of a) v (first_block m)")
    case None
    then have m': "first_block m' =
        \<lparr>block_id = block_of a, block_mem = (\<lambda>_. 0)(offset_of a := v)\<rparr> # first_block m"
      using assms by (auto simp: write_mem_def Let_def split: if_splits)
    from None have "read_walk (block_of a) off (first_block m) = None" for off
      by (simp add: write_walk_None read_walk_None)
    then show ?thesis
      using address_split [of b a] by (auto simp: host_view_eq m')
  next
    case (Some bs)
    then have "first_block m' = bs"
      using assms by (auto simp: write_mem_def Let_def)
    then show ?thesis
      using address_split [of b a] by (simp add: host_view_eq read_after_write_walk [OF Some])
  qed
qed

lemma block_of_aligned: "block_of a AND BLOCK_MASK = 0"
  by (simp add: block_of_def and.assoc)

lemma write_mem_inv [step_inv]:
  assumes "host_inv m" and "write_mem ok m a n v = Some (rc, m')"
  shows "host_inv m'"
proof (cases "write_walk (block_of a) (offset_of a) v (first_block m)")
  case None
  with assms have "first_block m' =
      \<lparr>block_id = block_of a, block_mem = (\<lambda>_. 0)(offset_of a := v)\<rparr> # first_block m"
    by (auto simp: write_mem_def Let_def split: if_splits)
  moreover from None have "block_of a \<notin> set (map block_id (first_block m))"
    by (simp add: write_walk_None)
  ultimately show ?thesis using assms(1)
    by (simp add: host_inv_def Let_def block_of_aligned)
next
  case (Some bs)
  with assms show ?thesis
    by (auto simp: write_mem_def Let_def host_inv_def write_walk_ids [OF Some])
qed

interpretation host: ram_callbacks host_inv empty_mem read_mem "write_mem True" host_view
proof
  fix m a n d v rc m'
  show "host_inv empty_mem" by (simp add: host_inv_def empty_mem_def)
  show "host_view empty_mem = (\<lambda>_. 0)"
    by (simp add: host_view_def read_mem_def empty_mem_def fun_eq_iff)
  show "read_mem m a n d = (0, host_view m a)" by (rule read_mem_view)
  show "\<exists>m'. write_mem True m a n v = Some (0, m')"
    by (simp add: write_mem_def Let_def split: option.split)
  assume "write_mem True m a n v = Some (rc, m')"
  then show "host_view m' = (host_view m)(a := v)" by (rule write_mem_view)
  assume "host_inv m"
  then show "host_inv m'" using \<open>write_mem True m a n v = _\<close> by (rule write_mem_inv)
qed

subsection \<open>Properties\<close>

lemma foldl_writes:
  "foldl (\<lambda>f (a, n, v). f(a := v)) f ws a =
     (case map_of (rev (map (\<lambda>(a, n, v). (a, v)) ws)) a of Some v \<Rightarrow> v | None \<Rightarrow> f a)"
  by (induction ws rule: rev_induct) (auto split: option.split)

text \<open>
  C1. The sparse memory of the test driver is a flat memory of 64-bit cells: after any sequence
  of successful writes, every read returns the value last written to its address, and 0 where
  nothing was written.
\<close>

theorem host_memory_flat:
  "\<exists>m. write_all (write_mem True) empty_mem ws = Some m \<and>
     (\<forall>a n d. read_mem m a n d =
       (0, case map_of (rev (map (\<lambda>(a, n, v). (a, v)) ws)) a of Some v \<Rightarrow> v | None \<Rightarrow> 0))"
  using host.write_all_view [OF host.inv_init, of ws]
  by (auto simp: host.rcb_view host.view_init foldl_writes split: option.split)

lemma write_mem_ids:
  "write_mem ok m a n v = Some (rc, m') \<Longrightarrow>
   block_id ` set (first_block m') = insert (block_of a) (block_id ` set (first_block m))"
proof (cases "write_walk (block_of a) (offset_of a) v (first_block m)")
  case None
  assume "write_mem ok m a n v = Some (rc, m')"
  with None show ?thesis by (auto simp: write_mem_def Let_def split: if_splits)
next
  case (Some bs)
  then have "block_of a \<in> block_id ` set (first_block m)"
    using write_walk_None [of "block_of a" "offset_of a" v "first_block m"] by simp
  moreover have "block_id ` set bs = block_id ` set (first_block m)"
    using write_walk_ids [OF Some] by (metis list.set_map)
  moreover assume "write_mem ok m a n v = Some (rc, m')"
  ultimately show ?thesis using Some by (auto simp: write_mem_def Let_def)
qed

lemma write_all_ids:
  "write_all (write_mem ok) m ws = Some m' \<Longrightarrow> host_inv m \<Longrightarrow>
   host_inv m' \<and> block_id ` set (first_block m') =
     block_id ` set (first_block m) \<union> block_of ` fst ` set ws"
proof (induction ws arbitrary: m)
  case (Cons w ws)
  obtain a n v where w: "w = (a, n, v)" by (cases w)
  from Cons.prems(1) w obtain rc m1 where
    m1: "write_mem ok m a n v = Some (rc, m1)" "write_all (write_mem ok) m1 ws = Some m'"
    by (auto split: option.splits)
  then show ?case
    using Cons.IH [OF m1(2) write_mem_inv [OF Cons.prems(2) m1(1)]] w
    by (simp add: write_mem_ids [OF m1(1)])
qed simp

lemma write_mem_crash:
  "write_mem False m a n v = None \<longleftrightarrow> block_of a \<notin> block_id ` set (first_block m)"
  using write_walk_None [of "block_of a" "offset_of a" v "first_block m"]
  by (auto simp: write_mem_def Let_def split: option.split)

text \<open>
  The driver allocates exactly one block for each 16 MiB frame that was written, never two for
  one frame; and a write crashes on a failed allocation precisely when its frame was never written
  before.
\<close>

theorem host_memory_blocks:
  assumes "write_all (write_mem True) empty_mem ws = Some m"
  shows "distinct (map block_id (first_block m)) \<and>
    block_id ` set (first_block m) = block_of ` fst ` set ws \<and>
    (write_mem False m a n v = None \<longleftrightarrow> block_of a \<notin> block_of ` fst ` set ws)"
  using write_all_ids [OF assms host.inv_init]
  by (simp add: write_mem_crash host_inv_def empty_mem_def Let_def)

theorem host_memory_blocks_witness:
  "\<exists>m. write_all (write_mem True) empty_mem [(0x80000008, 8, 5)] = Some m \<and>
     write_mem False m 0x90000000 8 1 = None"
proof -
  obtain m where m: "write_all (write_mem True) empty_mem [(0x80000008, 8, 5)] = Some m"
    using host_memory_flat by blast
  show ?thesis
    using m host_memory_blocks [OF m, of "0x90000000" 8 1]
    by (simp add: block_of_def BLOCK_MASK_def)
qed

end
