(* ===== verification/PyGlue.thy ===== *)
theory PyGlue
  imports HostMemory
begin

section \<open>The embedding glue (gluecode.py, pydrofoilcapi.h)\<close>

text \<open>
  \<open>src/gluecode.py\<close> is the Python code that the embedded interpreter runs behind the C
  functions of \<open>src/pydrofoilcapi.h\<close>: the list of live handles, the class \<open>C\<close> that
  counts steps around one CPU object, and the two closures \<open>pyread\<close> and \<open>pywrite\<close>
  that turn the engine's word addresses into byte addresses for the C callbacks.

  The RISC-V engine (\<open>_pydrofoil\<close>) is not in the repository: it is a parameter, the
  record \<open>engine\<close>. One engine step is an interaction tree (\<open>cpu_act\<close>): it ends with a
  new CPU or an exception, or it asks for one memory access and goes on with the answer. The C
  callbacks are parameters too, since the platform and the test driver supply different ones; a
  callback result \<open>None\<close> is a crash of the process.

  cffi converts at the boundary: an argument outside the C type raises \<open>OverflowError\<close>
  inside Python, and a Python exception that leaves an exported function makes it return 0.
\<close>

subsection \<open>Engine and exceptions\<close>

datatype py_error = OverflowError | AssertionError | EngineError string

datatype 'cpu cpu_act =
    CpuDone 'cpu
  | CpuRaise string
  | CpuRead int "u64 \<Rightarrow> 'cpu cpu_act"
  | CpuWrite int int "'cpu cpu_act"

record 'cpu engine =
  new_cpu :: "bool \<Rightarrow> string option \<Rightarrow> bool \<Rightarrow> string + 'cpu"
  step_plain :: "'cpu \<Rightarrow> string + 'cpu"
  step_cpu :: "'cpu \<Rightarrow> 'cpu cpu_act"
  get_pc :: "'cpu \<Rightarrow> int"
  put_pc :: "'cpu \<Rightarrow> int \<Rightarrow> 'cpu"
  put_verbosity :: "'cpu \<Rightarrow> bool \<Rightarrow> 'cpu"

text \<open>The C callbacks, over the memory behind the payload pointer.\<close>

record 'm callbacks =
  read_cb :: "'m \<Rightarrow> u64 \<Rightarrow> int \<Rightarrow> u64 \<Rightarrow> (int \<times> u64) option"
  write_cb :: "'m \<Rightarrow> u64 \<Rightarrow> int \<Rightarrow> u64 \<Rightarrow> (int \<times> 'm) option"

definition fits_u64 :: "int \<Rightarrow> bool" where
  "fits_u64 x \<longleftrightarrow> 0 \<le> x \<and> x < 2 ^ 64"

subsection \<open>The closures of _set_callbacks\<close>

text \<open>
  \<open>self.mem\<close> is one cell that all reads share: a callback that does not write its
  destination hands the previous value to the engine. The cell is part of the state.
\<close>

definition pyread ::
  "'m callbacks \<Rightarrow> u64 \<Rightarrow> 'm \<Rightarrow> int \<Rightarrow> ((py_error + u64) \<times> u64) option" where
  "pyread cb cell payload addr =
     (let addr = push_bit 3 addr in
      if \<not> fits_u64 addr then Some (Inl OverflowError, cell)
      else case read_cb cb payload (word_of_int addr) 8 cell of
        None \<Rightarrow> None
      | Some (res, cell') \<Rightarrow>
          Some (if res = 0 then Inr cell' else Inl AssertionError, cell'))"

definition pywrite ::
  "'m callbacks \<Rightarrow> 'm \<Rightarrow> int \<Rightarrow> int \<Rightarrow> ((py_error + unit) \<times> 'm) option" where
  "pywrite cb payload addr value =
     (let addr = push_bit 3 addr in
      if \<not> fits_u64 addr \<or> \<not> fits_u64 value then Some (Inl OverflowError, payload)
      else case write_cb cb payload (word_of_int addr) 8 (word_of_int value) of
        None \<Rightarrow> None
      | Some (res, payload') \<Rightarrow>
          Some (if res = 0 then Inr () else Inl AssertionError, payload'))"

text \<open>One engine step against the callbacks: the outcome, the cell and the memory.\<close>

primrec run_act ::
  "'m callbacks \<Rightarrow> 'cpu cpu_act \<Rightarrow> u64 \<Rightarrow> 'm \<Rightarrow> ((py_error + 'cpu) \<times> u64 \<times> 'm) option" where
  "run_act cb (CpuDone cpu) cell payload = Some (Inr cpu, cell, payload)"
| "run_act cb (CpuRaise e) cell payload = Some (Inl (EngineError e), cell, payload)"
| "run_act cb (CpuRead addr k) cell payload =
     (case pyread cb cell payload addr of
        None \<Rightarrow> None
      | Some (Inl e, cell') \<Rightarrow> Some (Inl e, cell', payload)
      | Some (Inr v, cell') \<Rightarrow> run_act cb (k v) cell' payload)"
| "run_act cb (CpuWrite addr value k) cell payload =
     (case pywrite cb payload addr value of
        None \<Rightarrow> None
      | Some (Inl e, payload') \<Rightarrow> Some (Inl e, cell, payload')
      | Some (Inr _, payload') \<Rightarrow> run_act cb k cell payload')"

subsection \<open>The class C\<close>

record ('cpu, 'm) pyc =
  rv64 :: bool
  arg :: "string option"
  cbs :: "'m callbacks option"
  mem_cell :: u64
  cpu :: 'cpu
  steps :: nat

text \<open>\<open>reset\<close> builds a new CPU object; when its constructor raises, nothing is assigned.\<close>

definition C_reset ::
  "'cpu engine \<Rightarrow> ('cpu, 'm) pyc \<Rightarrow> (py_error + unit) \<times> ('cpu, 'm) pyc" where
  "C_reset eng self =
     (case new_cpu eng (rv64 self) (arg self) (cbs self \<noteq> None) of
        Inl e \<Rightarrow> (Inl (EngineError e), self)
      | Inr c \<Rightarrow> (Inr (), self\<lparr>cpu := c, steps := 0\<rparr>))"

definition C_init :: "'cpu engine \<Rightarrow> bool \<Rightarrow> string option \<Rightarrow> py_error + ('cpu, 'm) pyc" where
  "C_init eng is64 n =
     (case new_cpu eng is64 n False of
        Inl e \<Rightarrow> Inl (EngineError e)
      | Inr c \<Rightarrow> Inr \<lparr>rv64 = is64, arg = n, cbs = None, mem_cell = 0, cpu = c, steps = 0\<rparr>)"

definition C_set_callbacks ::
  "'m callbacks \<Rightarrow> ('cpu, 'm) pyc \<Rightarrow> ('cpu, 'm) pyc" where
  "C_set_callbacks cb self = self\<lparr>cbs := Some cb, mem_cell := 0\<rparr>"

text \<open>\<open>step\<close> counts first and steps the CPU then, so a step that raises is counted.\<close>

definition C_step ::
  "'cpu engine \<Rightarrow> ('cpu, 'm) pyc \<Rightarrow> 'm \<Rightarrow> ((py_error + unit) \<times> ('cpu, 'm) pyc \<times> 'm) option" where
  "C_step eng self payload =
     (let self = self\<lparr>steps := steps self + 1\<rparr> in
      case cbs self of
        None \<Rightarrow>
          (case step_plain eng (cpu self) of
             Inl e \<Rightarrow> Some (Inl (EngineError e), self, payload)
           | Inr c \<Rightarrow> Some (Inr (), self\<lparr>cpu := c\<rparr>, payload))
      | Some cb \<Rightarrow>
          (case run_act cb (step_cpu eng (cpu self)) (mem_cell self) payload of
             None \<Rightarrow> None
           | Some (Inl e, cell, payload') \<Rightarrow>
               Some (Inl e, self\<lparr>mem_cell := cell\<rparr>, payload')
           | Some (Inr c, cell, payload') \<Rightarrow>
               Some (Inr (), self\<lparr>mem_cell := cell, cpu := c\<rparr>, payload')))"

text \<open>The loop \<open>for i in range(steps): cpu.step()\<close>; an exception leaves it.\<close>

primrec C_steps ::
  "'cpu engine \<Rightarrow> nat \<Rightarrow> ('cpu, 'm) pyc \<Rightarrow> 'm \<Rightarrow>
   ((py_error + unit) \<times> ('cpu, 'm) pyc \<times> 'm) option" where
  "C_steps eng 0 self payload = Some (Inr (), self, payload)"
| "C_steps eng (Suc n) self payload =
     (case C_step eng self payload of
        None \<Rightarrow> None
      | Some (Inl e, self', payload') \<Rightarrow> Some (Inl e, self', payload')
      | Some (Inr _, self', payload') \<Rightarrow> C_steps eng n self' payload')"

subsection \<open>The exported functions\<close>

text \<open>
  The interpreter's state: the list \<open>all_cpu_handles\<close> and the object each live handle
  stands for. \<open>ffi.new_handle\<close> returns a fresh non-null pointer, here a counter. Passing a
  handle that is not live to \<open>ffi.from_handle\<close> is undefined: \<open>None\<close>.
\<close>

record ('cpu, 'm) glue =
  all_cpu_handles :: "nat list"
  objects :: "nat \<Rightarrow> ('cpu, 'm) pyc option"
  fresh_handle :: nat

definition glue_init :: "('cpu, 'm) glue" where
  "glue_init = \<lparr>all_cpu_handles = [], objects = (\<lambda>_. None), fresh_handle = 1\<rparr>"

definition from_handle :: "('cpu, 'm) glue \<Rightarrow> nat \<Rightarrow> ('cpu, 'm) pyc option" where
  "from_handle g i = (if i \<in> set (all_cpu_handles g) then objects g i else None)"

definition put_object :: "nat \<Rightarrow> ('cpu, 'm) pyc \<Rightarrow> ('cpu, 'm) glue \<Rightarrow> ('cpu, 'm) glue" where
  "put_object i c g = g\<lparr>objects := (objects g)(i \<mapsto> c)\<rparr>"

fun contains_64 :: "string \<Rightarrow> bool" where
  "contains_64 (a # b # s) = (a = CHR ''6'' \<and> b = CHR ''4'' \<or> contains_64 (b # s))"
| "contains_64 _ = False"

definition pydrofoil_allocate_cpu ::
  "'cpu engine \<Rightarrow> ('cpu, 'm) glue \<Rightarrow> string option \<Rightarrow> string option \<Rightarrow>
   nat \<times> ('cpu, 'm) glue" where
  "pydrofoil_allocate_cpu eng g spec fn =
     (let is64 = (case spec of Some s \<Rightarrow> contains_64 s | None \<Rightarrow> True) in
      case C_init eng is64 fn of
        Inl e \<Rightarrow> (0, g)
      | Inr c \<Rightarrow>
          let res = fresh_handle g in
          (res, g\<lparr>all_cpu_handles := all_cpu_handles g @ [res],
                  objects := (objects g)(res \<mapsto> c),
                  fresh_handle := res + 1\<rparr>))"

definition pydrofoil_free_cpu :: "('cpu, 'm) glue \<Rightarrow> nat \<Rightarrow> int \<times> ('cpu, 'm) glue" where
  "pydrofoil_free_cpu g i =
     (if i \<in> set (all_cpu_handles g)
      then (0, g\<lparr>all_cpu_handles := remove1 i (all_cpu_handles g)\<rparr>)
      else (- 1, g))"

definition pydrofoil_cpu_set_ram_read_write_callback ::
  "'cpu engine \<Rightarrow> ('cpu, 'm) glue \<Rightarrow> nat \<Rightarrow> 'm callbacks \<Rightarrow> (int \<times> ('cpu, 'm) glue) option" where
  "pydrofoil_cpu_set_ram_read_write_callback eng g i cb =
     map_option
       (\<lambda>c. (0, put_object i (snd (C_reset eng (C_set_callbacks cb c))) g))
       (from_handle g i)"

definition INT_MAX :: int where
  "INT_MAX = 2 ^ 31 - 1"

text \<open>The C \<open>int\<close> that comes back: 0 after an exception or when \<open>steps\<close> does not fit.\<close>

definition simulate_result :: "py_error + unit \<Rightarrow> nat \<Rightarrow> int" where
  "simulate_result r n = (case r of Inl _ \<Rightarrow> 0 | Inr _ \<Rightarrow> if int n \<le> INT_MAX then int n else 0)"

definition pydrofoil_cpu_simulate ::
  "'cpu engine \<Rightarrow> ('cpu, 'm) glue \<Rightarrow> 'm \<Rightarrow> nat \<Rightarrow> u64 \<Rightarrow>
   (int \<times> ('cpu, 'm) glue \<times> 'm) option" where
  "pydrofoil_cpu_simulate eng g payload i n =
     (case from_handle g i of
        None \<Rightarrow> None
      | Some c \<Rightarrow>
          (case C_steps eng (unat n) c payload of
             None \<Rightarrow> None
           | Some (r, c', payload') \<Rightarrow>
               Some (simulate_result r (unat n), put_object i c' g, payload')))"

text \<open>A Python int returned as \<open>uint64_t\<close>.\<close>

definition ret_u64 :: "int \<Rightarrow> u64" where
  "ret_u64 x = (if fits_u64 x then word_of_int x else 0)"

definition pydrofoil_cpu_cycles :: "('cpu, 'm) glue \<Rightarrow> nat \<Rightarrow> u64 option" where
  "pydrofoil_cpu_cycles g i = map_option (\<lambda>c. ret_u64 (int (steps c))) (from_handle g i)"

definition pydrofoil_cpu_pc :: "'cpu engine \<Rightarrow> ('cpu, 'm) glue \<Rightarrow> nat \<Rightarrow> u64 option" where
  "pydrofoil_cpu_pc eng g i = map_option (\<lambda>c. ret_u64 (get_pc eng (cpu c))) (from_handle g i)"

definition pydrofoil_cpu_reset ::
  "'cpu engine \<Rightarrow> ('cpu, 'm) glue \<Rightarrow> nat \<Rightarrow> (int \<times> ('cpu, 'm) glue) option" where
  "pydrofoil_cpu_reset eng g i =
     map_option (\<lambda>c. (0, put_object i (snd (C_reset eng c)) g)) (from_handle g i)"

definition pydrofoil_cpu_set_verbosity ::
  "'cpu engine \<Rightarrow> ('cpu, 'm) glue \<Rightarrow> nat \<Rightarrow> int \<Rightarrow> (int \<times> ('cpu, 'm) glue) option" where
  "pydrofoil_cpu_set_verbosity eng g i v =
     map_option (\<lambda>c. (0, put_object i (c\<lparr>cpu := put_verbosity eng (cpu c) (v \<noteq> 0)\<rparr>) g))
       (from_handle g i)"

definition pydrofoil_cpu_set_pc ::
  "'cpu engine \<Rightarrow> ('cpu, 'm) glue \<Rightarrow> nat \<Rightarrow> u64 \<Rightarrow> (int \<times> ('cpu, 'm) glue) option" where
  "pydrofoil_cpu_set_pc eng g i val =
     map_option (\<lambda>c. (0, put_object i (c\<lparr>cpu := put_pc eng (cpu c) (uint val)\<rparr>) g))
       (from_handle g i)"

subsection \<open>Handles\<close>

definition glue_wf :: "('cpu, 'm) glue \<Rightarrow> bool" where
  "glue_wf g \<longleftrightarrow> distinct (all_cpu_handles g) \<and> fresh_handle g > 0 \<and>
     (\<forall>h \<in> set (all_cpu_handles g). 0 < h \<and> h < fresh_handle g \<and> objects g h \<noteq> None)"

lemma glue_wf_init [step_inv]: "glue_wf glue_init"
  by (simp add: glue_wf_def glue_init_def)

lemma glue_wf_put_object [step_inv]: "glue_wf g \<Longrightarrow> glue_wf (put_object i c g)"
  by (simp add: glue_wf_def put_object_def)

lemma glue_wf_allocate [step_inv]:
  "glue_wf g \<Longrightarrow> pydrofoil_allocate_cpu eng g spec fn = (h, g') \<Longrightarrow> glue_wf g'"
  by (fastforce simp: pydrofoil_allocate_cpu_def glue_wf_def Let_def split: sum.splits)

lemma glue_wf_free [step_inv]:
  "glue_wf g \<Longrightarrow> pydrofoil_free_cpu g h = (rc, g') \<Longrightarrow> glue_wf g'"
  by (auto simp: pydrofoil_free_cpu_def glue_wf_def split: if_splits dest: notin_set_remove1)

lemma all_cpu_handles_put_object [simp]: "all_cpu_handles (put_object i c g) = all_cpu_handles g"
  by (simp add: put_object_def)

lemma from_handle_put_object:
  "from_handle (put_object i c g) j =
     (if j = i \<and> i \<in> set (all_cpu_handles g) then Some c else from_handle g j)"
  by (simp add: from_handle_def put_object_def)

lemma from_handle_free:
  "glue_wf g \<Longrightarrow> pydrofoil_free_cpu g h = (rc, g') \<Longrightarrow>
   from_handle g' j = (if j = h then None else from_handle g j)"
  by (auto simp: pydrofoil_free_cpu_def glue_wf_def from_handle_def split: if_splits)

subsection \<open>Stepping\<close>

lemma C_step_steps: "C_step eng c m = Some (r, c', m') \<Longrightarrow> steps c' = steps c + 1"
  by (auto simp: C_step_def Let_def split: option.splits sum.splits)

lemma C_step_cbs: "C_step eng c m = Some (r, c', m') \<Longrightarrow> cbs c' = cbs c"
  by (auto simp: C_step_def Let_def split: option.splits sum.splits)

lemma C_steps_cbs: "C_steps eng n c m = Some (r, c', m') \<Longrightarrow> cbs c' = cbs c"
  by (induction n arbitrary: c m) (auto split: option.splits sum.splits dest: C_step_cbs)

lemma C_steps_add:
  "C_steps eng (j + n) c m =
     (case C_steps eng j c m of
        Some (Inr _, c', m') \<Rightarrow> C_steps eng n c' m'
      | other \<Rightarrow> other)"
  by (induction j arbitrary: c m) (auto split: option.splits sum.splits)

lemma C_steps_Inr_count:
  "C_steps eng n c m = Some (Inr u, c', m') \<Longrightarrow> steps c' = steps c + n"
  by (induction n arbitrary: c m)
     (auto split: option.splits sum.splits dest: C_step_steps)

lemma C_steps_Inl_count:
  "C_steps eng n c m = Some (Inl e, c', m') \<Longrightarrow>
   \<exists>k < n. steps c' = steps c + k + 1 \<and> (\<exists>d p. C_steps eng k c m = Some (Inr (), d, p) \<and>
     C_step eng d p = Some (Inl e, c', m'))"
proof (induction n arbitrary: c m)
  case (Suc n)
  obtain r d p where st: "C_step eng c m = Some (r, d, p)"
    using Suc.prems by (auto split: option.splits)
  show ?case
  proof (cases r)
    case (Inl e')
    with Suc.prems st show ?thesis
      by (intro exI [of _ 0]) (auto dest: C_step_steps)
  next
    case (Inr u)
    with Suc.prems st have "C_steps eng n d p = Some (Inl e, c', m')" by simp
    from Suc.IH [OF this] obtain k d' p' where "k < n" "steps c' = steps d + k + 1"
        "C_steps eng k d p = Some (Inr (), d', p')" "C_step eng d' p' = Some (Inl e, c', m')"
      by blast
    with Inr st show ?thesis
      by (intro exI [of _ "Suc k"]) (auto dest: C_step_steps)
  qed
qed simp

subsection \<open>Any memory that keeps the contract looks flat to the engine\<close>

definition cbs_of ::
  "('m \<Rightarrow> u64 \<Rightarrow> int \<Rightarrow> u64 \<Rightarrow> int \<times> u64) \<Rightarrow>
   ('m \<Rightarrow> u64 \<Rightarrow> int \<Rightarrow> u64 \<Rightarrow> (int \<times> 'm) option) \<Rightarrow> 'm callbacks" where
  "cbs_of r w = \<lparr>read_cb = (\<lambda>m a n d. Some (r m a n d)), write_cb = w\<rparr>"

definition flat_cbs :: "(u64 \<Rightarrow> u64) callbacks" where
  "flat_cbs =
     \<lparr>read_cb = (\<lambda>f a n d. Some (0, f a)), write_cb = (\<lambda>f a n v. Some (0, f(a := v)))\<rparr>"

definition on_flat :: "('cpu, 'm) pyc \<Rightarrow> ('cpu, u64 \<Rightarrow> u64) pyc" where
  "on_flat c = \<lparr>rv64 = rv64 c, arg = arg c, cbs = map_option (\<lambda>_. flat_cbs) (cbs c),
     mem_cell = mem_cell c, cpu = cpu c, steps = steps c\<rparr>"

lemma pyread_flat_total: "pyread flat_cbs cell f a \<noteq> None"
  by (simp add: pyread_def flat_cbs_def Let_def)

context ram_callbacks begin

lemma pyread_flat:
  "inv m \<Longrightarrow> pyread (cbs_of rcb wcb) cell m a = pyread flat_cbs cell (view m) a"
  by (simp add: pyread_def cbs_of_def flat_cbs_def Let_def rcb_view)

lemma pywrite_flat:
  assumes "inv m"
  obtains r m' where "pywrite (cbs_of rcb wcb) m a v = Some (r, m')" "inv m'"
    "pywrite flat_cbs (view m) a v = Some (r, view m')"
proof -
  obtain m' where "wcb m (word_of_int (push_bit 3 a)) 8 (word_of_int v) = Some (0, m')" "inv m'"
      "view m' = (view m)(word_of_int (push_bit 3 a) := word_of_int v)"
    using wcb_cases [OF assms] .
  then show ?thesis
    using that assms
    by (cases "\<not> fits_u64 (push_bit 3 a) \<or> \<not> fits_u64 v")
       (auto simp: pywrite_def cbs_of_def flat_cbs_def Let_def)
qed

lemma run_act_flat:
  "inv m \<Longrightarrow> \<exists>r cell' m'. run_act (cbs_of rcb wcb) t cell m = Some (r, cell', m') \<and> inv m' \<and>
     run_act flat_cbs t cell (view m) = Some (r, cell', view m')"
proof (induction t arbitrary: cell m)
  case (CpuRead a k)
  obtain r c' where "pyread flat_cbs cell (view m) a = Some (r, c')"
    using pyread_flat_total by fastforce
  then show ?case
    using CpuRead.prems CpuRead.IH [OF rangeI]
    by (cases r) (auto simp: pyread_flat)
next
  case (CpuWrite a v k)
  obtain r m' where "pywrite (cbs_of rcb wcb) m a v = Some (r, m')" "inv m'"
      "pywrite flat_cbs (view m) a v = Some (r, view m')"
    using pywrite_flat [OF CpuWrite.prems] .
  then show ?case
    using CpuWrite.IH by (cases r) auto
qed auto

lemma C_step_flat:
  assumes "inv m" and "cbs c \<noteq> None \<Longrightarrow> cbs c = Some (cbs_of rcb wcb)"
  shows "\<exists>r c' m'. C_step eng c m = Some (r, c', m') \<and> inv m' \<and>
    C_step eng (on_flat c) (view m) = Some (r, on_flat c', view m')"
proof (cases "cbs c")
  case None
  then show ?thesis using assms(1)
    by (auto simp: C_step_def on_flat_def Let_def split: sum.split)
next
  case (Some cb)
  then have cb: "cbs c = Some (cbs_of rcb wcb)" using assms(2) by simp
  obtain r cell' m' where
    "run_act (cbs_of rcb wcb) (step_cpu eng (cpu c)) (mem_cell c) m = Some (r, cell', m')" "inv m'"
    "run_act flat_cbs (step_cpu eng (cpu c)) (mem_cell c) (view m) = Some (r, cell', view m')"
    using run_act_flat [OF assms(1)] by blast
  then show ?thesis
    by (cases r) (auto simp: C_step_def on_flat_def Let_def cb)
qed

lemma C_steps_flat:
  assumes "inv m" and "cbs c \<noteq> None \<Longrightarrow> cbs c = Some (cbs_of rcb wcb)"
  shows "\<exists>r c' m'. C_steps eng n c m = Some (r, c', m') \<and> inv m' \<and>
    C_steps eng n (on_flat c) (view m) = Some (r, on_flat c', view m')"
  using assms
proof (induction n arbitrary: c m)
  case (Suc n)
  obtain r c' m' where st: "C_step eng c m = Some (r, c', m')" "inv m'"
      "C_step eng (on_flat c) (view m) = Some (r, on_flat c', view m')"
    using C_step_flat [OF Suc.prems] by blast
  then have "cbs c' \<noteq> None \<Longrightarrow> cbs c' = Some (cbs_of rcb wcb)"
    using Suc.prems(2) C_step_cbs by metis
  from Suc.IH [OF st(2) this] st show ?case by (cases r) auto
qed auto

end

subsection \<open>Properties\<close>

text \<open>
  C9. A CPU handle is live exactly once: what \<open>pydrofoil_allocate_cpu\<close> returned can be freed
  with result 0, a second free returns -1 and changes nothing, the handle is dead from then on,
  and every other handle still stands for its object.
\<close>

theorem free_cpu_once:
  assumes "glue_wf g" and "pydrofoil_allocate_cpu eng g spec fn = (h, g1)" and "h \<noteq> 0"
  shows "\<exists>g2. pydrofoil_free_cpu g1 h = (0, g2) \<and> pydrofoil_free_cpu g2 h = (- 1, g2) \<and>
    from_handle g2 h = None \<and> (\<forall>j. j \<noteq> h \<longrightarrow> from_handle g2 j = from_handle g j)"
proof -
  have h: "h = fresh_handle g" "all_cpu_handles g1 = all_cpu_handles g @ [h]"
      "\<And>j. j \<noteq> h \<Longrightarrow> objects g1 j = objects g j"
    using assms(2,3) by (auto simp: pydrofoil_allocate_cpu_def Let_def split: sum.splits)
  then have "h \<notin> set (all_cpu_handles g)"
    using assms(1) by (auto simp: glue_wf_def)
  with h show ?thesis
    by (auto simp: pydrofoil_free_cpu_def from_handle_def remove1_append)
qed

definition toy_engine :: "nat engine" where
  "toy_engine = \<lparr>new_cpu = (\<lambda>b f cb. Inr 0), step_plain = (\<lambda>k. Inr (k + 4)),
     step_cpu = (\<lambda>k. CpuWrite (int k) 7 (CpuRead (int k) (\<lambda>v. CpuDone (k + unat v)))),
     get_pc = int, put_pc = (\<lambda>k v. nat v), put_verbosity = (\<lambda>k b. k)\<rparr>"

theorem free_cpu_once_witness:
  "\<exists>g2. pydrofoil_free_cpu (snd (pydrofoil_allocate_cpu toy_engine
      (glue_init :: (nat, host_mem) glue) None None)) 1 = (0, g2)"
proof -
  have "pydrofoil_allocate_cpu toy_engine (glue_init :: (nat, host_mem) glue) None None =
      (1, snd (pydrofoil_allocate_cpu toy_engine glue_init None None))"
    by (simp add: pydrofoil_allocate_cpu_def C_init_def toy_engine_def glue_init_def Let_def)
  from free_cpu_once [OF glue_wf_init this] show ?thesis by auto
qed

lemma C_steps_count:
  assumes "C_steps eng n c m = Some (r, c', m')"
  shows "steps c \<le> steps c' \<and> steps c' \<le> steps c + n \<and> (r = Inr () \<longrightarrow> steps c' = steps c + n)"
proof (cases r)
  case (Inl e)
  with C_steps_Inl_count assms show ?thesis by fastforce
next
  case (Inr u)
  with C_steps_Inr_count assms show ?thesis by fastforce
qed

text \<open>
  C10. \<open>pydrofoil_cpu_simulate\<close> never counts more than the steps asked for, and counts exactly
  those when it reports success (a nonzero result, which is then the requested number); a step
  that raises ends the loop and is reported as 0. Other CPUs are not touched.
\<close>

theorem simulate_counts:
  assumes "from_handle g i = Some c"
    and "pydrofoil_cpu_simulate eng g p i n = Some (ret, g', p')"
  shows "\<exists>c'. from_handle g' i = Some c' \<and> steps c \<le> steps c' \<and> steps c' \<le> steps c + unat n \<and>
    (ret \<noteq> 0 \<longrightarrow> ret = int (unat n) \<and> steps c' = steps c + unat n) \<and>
    (\<forall>j. j \<noteq> i \<longrightarrow> from_handle g' j = from_handle g j)"
proof -
  have i: "i \<in> set (all_cpu_handles g)"
    using assms(1) by (auto simp: from_handle_def split: if_splits)
  from assms obtain r c' where
    st: "C_steps eng (unat n) c p = Some (r, c', p')" and g': "g' = put_object i c' g"
      and ret: "ret = simulate_result r (unat n)"
    by (auto simp: pydrofoil_cpu_simulate_def split: option.splits)
  have "ret \<noteq> 0 \<longrightarrow> ret = int (unat n) \<and> r = Inr ()"
    by (simp add: ret simulate_result_def split: sum.splits if_splits)
  then show ?thesis
    using C_steps_count [OF st] i by (auto simp: g' from_handle_put_object)
qed

theorem simulate_counts_witness:
  "\<exists>g' p'. pydrofoil_cpu_simulate toy_engine
      \<lparr>all_cpu_handles = [1], objects = [1 \<mapsto> \<lparr>rv64 = True, arg = None, cbs = None, mem_cell = 0,
         cpu = 0, steps = 5\<rparr>], fresh_handle = 2\<rparr> empty_mem 1 1 = Some (1, g', p') \<and>
      (\<exists>c'. from_handle g' 1 = Some c' \<and> steps c' \<le> 6)"
  (is "\<exists>g' p'. ?sim = _ \<and> _")
proof -
  let ?c = "\<lparr>rv64 = True, arg = None, cbs = None :: host_mem callbacks option, mem_cell = 0,
         cpu = 0 :: nat, steps = 5\<rparr>"
  let ?g = "\<lparr>all_cpu_handles = [1], objects = [1 \<mapsto> ?c], fresh_handle = 2\<rparr>"
  have g: "from_handle ?g 1 = Some ?c" by (simp add: from_handle_def)
  have "\<exists>g' p'. ?sim = Some (1, g', p')"
    by (simp add: pydrofoil_cpu_simulate_def from_handle_def C_step_def toy_engine_def Let_def
        simulate_result_def INT_MAX_def)
  then obtain g' p' where s: "?sim = Some (1, g', p')" by blast
  from simulate_counts [OF g s] s show ?thesis by auto
qed

text \<open>
  The scheduler may cut a simulation anywhere: \<open>a + b\<close> steps in one call leave the same
  interpreter state and the same memory as \<open>a\<close> steps and then \<open>b\<close> steps, as long as no step
  of the first part raises.
\<close>

theorem simulate_split:
  assumes "from_handle g i = Some c"
    and "C_steps eng (unat a) c p = Some (Inr (), c1, p1)"
    and "unat a + unat b < 2 ^ 64"
  shows "map_option snd (pydrofoil_cpu_simulate eng g p i (a + b)) =
    map_option snd (pydrofoil_cpu_simulate eng (put_object i c1 g) p1 i b)"
proof -
  have i: "i \<in> set (all_cpu_handles g)"
    using assms(1) by (auto simp: from_handle_def split: if_splits)
  have "unat (a + b) = unat a + unat b"
    using assms(3) by (simp add: unat_word_ariths)
  then have "C_steps eng (unat (a + b)) c p = C_steps eng (unat b) c1 p1"
    by (simp add: C_steps_add assms(2))
  moreover have "put_object i d (put_object i c1 g) = put_object i d g" for d
    by (simp add: put_object_def)
  ultimately show ?thesis
    using assms(1) i
    by (auto simp: pydrofoil_cpu_simulate_def from_handle_put_object split: option.splits)
qed

definition toy_object :: "(nat, host_mem) pyc" where
  "toy_object = \<lparr>rv64 = True, arg = None, cbs = None, mem_cell = 0, cpu = 0, steps = 0\<rparr>"

definition toy_glue :: "(nat, host_mem) glue" where
  "toy_glue = \<lparr>all_cpu_handles = [1], objects = [1 \<mapsto> toy_object], fresh_handle = 2\<rparr>"

theorem simulate_split_witness:
  "map_option snd (pydrofoil_cpu_simulate toy_engine toy_glue empty_mem 1 (1 + 2)) =
   map_option snd (pydrofoil_cpu_simulate toy_engine
     (put_object 1 (toy_object\<lparr>steps := 1, cpu := 4\<rparr>) toy_glue) empty_mem 1 2)"
proof (rule simulate_split)
  show "from_handle toy_glue 1 = Some toy_object"
    by (simp add: from_handle_def toy_glue_def)
  show "C_steps toy_engine (unat 1) toy_object empty_mem =
      Some (Inr (), toy_object\<lparr>steps := 1, cpu := 4\<rparr>, empty_mem)"
    by (simp add: C_step_def toy_object_def toy_engine_def)
  show "unat (1 :: u64) + unat (2 :: u64) < 2 ^ 64" by simp
qed

end
