(* ===== verification/TestMain.thy ===== *)
theory TestMain
  imports PyGlue "HOL-Library.Monad_Syntax"
begin

section \<open>The test driver's main (testmain.c)\<close>

text \<open>
  \<open>main\<close> of \<open>src/testmain.c\<close>: allocate a 64-bit CPU for the given binary, hand it the
  sparse memory of \<open>HostMemory\<close>, simulate, reset, and simulate once more from PC 4096. What
  it prints is the list of \<open>line\<close>s, its exit status the integer; \<open>None\<close> is a crash in
  a callback (or the missing \<open>argv[0]\<close> of an empty argument vector). \<open>atoi\<close> is modelled for the digits it reads; its overflow is undefined in C,
  so the theorems bound the value.
\<close>

datatype line =
    Usage string
  | AllocFailed
  | Completed u64
  | ResetLine
  | RunningQuietly
  | ResetPC u64
  | SetPcFailed
  | CurrentPC u64
  | FreeFailed
  | Freed

subsection \<open>atoi\<close>

definition is_digit :: "char \<Rightarrow> bool" where
  "is_digit c \<longleftrightarrow> 48 \<le> (of_char c :: nat) \<and> (of_char c :: nat) \<le> 57"

definition is_space :: "char \<Rightarrow> bool" where
  "is_space c \<longleftrightarrow> (of_char c :: nat) = 32 \<or> 9 \<le> (of_char c :: nat) \<and> (of_char c :: nat) \<le> 13"

definition digits_value :: "string \<Rightarrow> int" where
  "digits_value s = foldl (\<lambda>n c. n * 10 + (of_char c - 48)) 0 (takeWhile is_digit s)"

definition atoi :: "string \<Rightarrow> int" where
  "atoi s =
     (case dropWhile is_space s of
        [] \<Rightarrow> 0
      | c # t \<Rightarrow>
          if c = CHR ''-'' then - digits_value t
          else if c = CHR ''+'' then digits_value t
          else digits_value (c # t))"

subsection \<open>main\<close>

definition host_cbs :: "bool \<Rightarrow> host_mem callbacks" where
  "host_cbs heap_ok = cbs_of read_mem (write_mem heap_ok)"

text \<open>The second half of \<open>main\<close>, from the call that resets the CPU.\<close>

definition main_rerun ::
  "'cpu engine \<Rightarrow> ('cpu, host_mem) glue \<Rightarrow> host_mem \<Rightarrow> nat \<Rightarrow> u64 \<Rightarrow> (int \<times> line list) option" where
  "main_rerun eng g mem h n =
     do {
       (_, g) \<leftarrow> pydrofoil_cpu_reset eng g h;
       (_, g) \<leftarrow> pydrofoil_cpu_set_verbosity eng g h 0;
       pc0 \<leftarrow> pydrofoil_cpu_pc eng g h;
       (res, g) \<leftarrow> pydrofoil_cpu_set_pc eng g h 4096;
       if res \<noteq> 0 then Some (- 1, [ResetLine, RunningQuietly, ResetPC pc0, SetPcFailed])
       else do {
         (_, g, mem) \<leftarrow> pydrofoil_cpu_simulate eng g mem h n;
         cycles \<leftarrow> pydrofoil_cpu_cycles g h;
         pc \<leftarrow> pydrofoil_cpu_pc eng g h;
         let out = [ResetLine, RunningQuietly, ResetPC pc0, Completed cycles, CurrentPC pc];
         let (rc, g) = pydrofoil_free_cpu g h;
         Some (if rc \<noteq> 0 then (- 1, out @ [FreeFailed]) else (0, out @ [Freed]))
       }
     }"

fun main :: "bool \<Rightarrow> 'cpu engine \<Rightarrow> string list \<Rightarrow> (int \<times> line list) option" where
  "main heap_ok eng (prog # bin # count # _) =
     (let n = atoi count;
          (h, g) = pydrofoil_allocate_cpu eng glue_init (Some ''rv64'') (Some bin) in
      if h = 0 then Some (- 1, [AllocFailed])
      else do {
        (_, g) \<leftarrow> pydrofoil_cpu_set_ram_read_write_callback eng g h (host_cbs heap_ok);
        (_, g, mem) \<leftarrow> pydrofoil_cpu_simulate eng g empty_mem h (word_of_int n);
        cycles \<leftarrow> pydrofoil_cpu_cycles g h;
        (rc, out) \<leftarrow> main_rerun eng g mem h (word_of_int n);
        Some (rc, Completed cycles # out)
      })"
| "main heap_ok eng (prog # _) = Some (- 1, [Usage prog])"
| "main heap_ok eng [] = Some (- 1, [Usage ''''])"

subsection \<open>The driver over a flat memory\<close>

text \<open>
  What \<open>main\<close> promises, without handles and blocks: the two runs of one CPU object over one
  flat, initially zero memory. The memory is not cleared between the runs: the second run starts
  from the cells the first one wrote.
\<close>

definition flat_main :: "'cpu engine \<Rightarrow> string \<Rightarrow> int \<Rightarrow> (int \<times> line list) option" where
  "flat_main eng bin n =
     (case C_init eng True (Some bin) of
        Inl e \<Rightarrow> Some (- 1, [AllocFailed])
      | Inr c \<Rightarrow>
          do {
            let c0 = snd (C_reset eng (C_set_callbacks flat_cbs c));
            (_, c1, ram1) \<leftarrow> C_steps eng (unat (word_of_int n :: u64)) c0 (\<lambda>_. 0);
            let c2 = snd (C_reset eng c1);
            let c3 = c2\<lparr>cpu := put_verbosity eng (cpu c2) False\<rparr>;
            let c4 = c3\<lparr>cpu := put_pc eng (cpu c3) 4096\<rparr>;
            (_, c5, ram2) \<leftarrow> C_steps eng (unat (word_of_int n :: u64)) c4 ram1;
            Some (0, [Completed (ret_u64 (int (steps c1))), ResetLine, RunningQuietly,
                      ResetPC (ret_u64 (get_pc eng (cpu c3))),
                      Completed (ret_u64 (int (steps c5))),
                      CurrentPC (ret_u64 (get_pc eng (cpu c5))), Freed])
          })"

lemma on_flat_reset: "snd (C_reset eng (on_flat c)) = on_flat (snd (C_reset eng c))"
  by (simp add: C_reset_def on_flat_def split: sum.split)

lemma on_flat_cpu: "on_flat (c\<lparr>cpu := k\<rparr>) = (on_flat c)\<lparr>cpu := k\<rparr>"
  by (simp add: on_flat_def)

lemma on_flat_fields: "cpu (on_flat c) = cpu c" "steps (on_flat c) = steps c"
  by (simp_all add: on_flat_def)

lemma on_flat_set_callbacks:
  "C_init eng b n = Inr c \<Longrightarrow> C_init eng b n = Inr c' \<Longrightarrow>
   on_flat (C_set_callbacks cb c) = C_set_callbacks flat_cbs c'"
  by (auto simp: C_init_def C_set_callbacks_def on_flat_def split: sum.splits)

lemma C_reset_cbs: "cbs (snd (C_reset eng c)) = cbs c"
  by (simp add: C_reset_def split: sum.split)

text \<open>The state that \<open>main\<close> leaves to the second simulation.\<close>

definition rerun_object :: "'cpu engine \<Rightarrow> ('cpu, 'm) pyc \<Rightarrow> ('cpu, 'm) pyc" where
  "rerun_object eng c =
     (let c2 = snd (C_reset eng c);
          c3 = c2\<lparr>cpu := put_verbosity eng (cpu c2) False\<rparr>
      in c3\<lparr>cpu := put_pc eng (cpu c3) 4096\<rparr>)"

lemma on_flat_rerun: "on_flat (rerun_object eng c) = rerun_object eng (on_flat c)"
  by (simp add: rerun_object_def Let_def on_flat_cpu on_flat_fields on_flat_reset)

lemma rerun_object_cbs: "cbs (rerun_object eng c) = cbs c"
  by (simp add: rerun_object_def Let_def C_reset_cbs)

lemma main_rerun_eq:
  assumes "from_handle g h = Some c"
    and "C_steps eng (unat n) (rerun_object eng c) m = Some (r, c', m')"
  shows "main_rerun eng g m h n =
    Some (0, [ResetLine, RunningQuietly,
      ResetPC (ret_u64 (get_pc eng (put_verbosity eng (cpu (snd (C_reset eng c))) False))),
      Completed (ret_u64 (int (steps c'))), CurrentPC (ret_u64 (get_pc eng (cpu c'))), Freed])"
proof -
  have h: "h \<in> set (all_cpu_handles g)"
    using assms(1) by (simp add: from_handle_def split: if_splits)
  show ?thesis
    using assms h
    by (simp add: main_rerun_def pydrofoil_cpu_reset_def pydrofoil_cpu_set_verbosity_def
        pydrofoil_cpu_pc_def pydrofoil_cpu_set_pc_def pydrofoil_cpu_simulate_def
        pydrofoil_cpu_cycles_def pydrofoil_free_cpu_def from_handle_put_object
        rerun_object_def Let_def)
qed

subsection \<open>Properties\<close>


end
