(* ===== verification/CoreProtocol.thy ===== *)
theory CoreProtocol
  imports Prelude
begin

section \<open>The two threads of PydrofoilCore::simulate (core.cpp, python_tasks.cpp, memory_callbacks.cpp)\<close>

text \<open>
  While the SystemC thread runs \<open>PydrofoilCore::simulate\<close>, the Python worker thread runs the
  \<open>Funct::Simulate\<close> handler, whose memory callbacks send their accesses back: they push a
  \<open>MemAccess\<close> on \<open>memtask_queue\<close> and wait for its promise, while the SystemC thread waits on
  \<open>memtask_cv\<close> for work or for the end of the simulation.

  The model is a step relation over both program counters. One step is one action another thread
  can observe: a lock operation, a push or a pop, the evaluation of the wait predicate, a
  promise, a flag or a notification. \<open>cv.wait\<close> releases the lock and blocks in one step
  (\<open>sc_block\<close>), and \<open>notify_one\<close> wakes a thread only if it is already blocked: the
  standard allows but does not promise spurious wake-ups, and no step stands for one. The accesses
  the engine is going to make are a list (\<open>prog\<close>); what they return does not matter here.
\<close>

datatype req = MemRead u64 | MemWrite u64 u64

datatype owner = ScThread | PyThread

text \<open>Program points of \<open>simulate\<close>, then of the worker's handler and callbacks.\<close>

datatype sc_pc =
    SPush          \<comment> \<open>before \<open>task_queue.push\<close>\<close>
  | SStart         \<comment> \<open>before \<open>sim_started = true\<close>\<close>
  | SNotifyTask    \<comment> \<open>before \<open>task_cv.notify_one()\<close>\<close>
  | SLoop          \<comment> \<open>the test of the while loop\<close>
  | SAcquire       \<comment> \<open>before \<open>memtask_mutex\<close> is taken, also after a wake-up\<close>
  | SPred          \<comment> \<open>holding the lock, before the wait predicate\<close>
  | SBlock         \<comment> \<open>the predicate was false, the lock is still held\<close>
  | SBlocked       \<comment> \<open>blocked on \<open>memtask_cv\<close>\<close>
  | SPop           \<comment> \<open>the predicate was true, the lock is held\<close>
  | SServe req     \<comment> \<open>before the bus access and \<open>set_value\<close>\<close>
  | SFinish        \<comment> \<open>before \<open>sim_started = false\<close>\<close>
  | SReturned

datatype wk_pc =
    WIdle          \<comment> \<open>in \<open>python_worker_loop\<close>, no task taken\<close>
  | WRun           \<comment> \<open>inside \<open>pydrofoil_cpu_simulate\<close>\<close>
  | WAcquire req   \<comment> \<open>in a callback, before \<open>memtask_mutex\<close>\<close>
  | WPush req      \<comment> \<open>holding the lock\<close>
  | WNotify        \<comment> \<open>before \<open>memtask_cv.notify_one()\<close>\<close>
  | WAwait         \<comment> \<open>in \<open>res.get()\<close>\<close>
  | WFinalNotify   \<comment> \<open>after \<open>task.result.set_value(0)\<close>\<close>
  | WReturn

record sys =
  sc :: sc_pc
  wk :: wk_pc
  lock :: "owner option"
  queue :: "req list"
  task :: bool
  started :: bool
  finished :: bool
  resp :: bool
  prog :: "req list"
  served :: "req list"
  dropped :: "req list"

definition sys_init :: "req list \<Rightarrow> sys" where
  "sys_init p = \<lparr>sc = SPush, wk = WIdle, lock = None, queue = [], task = False, started = False,
     finished = False, resp = False, prog = p, served = [], dropped = []\<rparr>"

definition wake :: "sc_pc \<Rightarrow> sc_pc" where
  "wake p = (if p = SBlocked then SAcquire else p)"

inductive sys_step :: "sys \<Rightarrow> sys \<Rightarrow> bool" where
  sc_push: "sc s = SPush \<Longrightarrow> sys_step s (s\<lparr>sc := SStart, task := True\<rparr>)"
| sc_start: "sc s = SStart \<Longrightarrow> sys_step s (s\<lparr>sc := SNotifyTask, started := True\<rparr>)"
| sc_notify: "sc s = SNotifyTask \<Longrightarrow> sys_step s (s\<lparr>sc := SLoop\<rparr>)"
| sc_ready: "sc s = SLoop \<Longrightarrow> finished s \<Longrightarrow> sys_step s (s\<lparr>sc := SFinish\<rparr>)"
| sc_again: "sc s = SLoop \<Longrightarrow> \<not> finished s \<Longrightarrow> sys_step s (s\<lparr>sc := SAcquire\<rparr>)"
| sc_acquire: "sc s = SAcquire \<Longrightarrow> lock s = None \<Longrightarrow>
     sys_step s (s\<lparr>sc := SPred, lock := Some ScThread\<rparr>)"
| sc_pred_true: "sc s = SPred \<Longrightarrow> queue s \<noteq> [] \<or> finished s \<Longrightarrow> sys_step s (s\<lparr>sc := SPop\<rparr>)"
| sc_pred_false: "sc s = SPred \<Longrightarrow> queue s = [] \<Longrightarrow> \<not> finished s \<Longrightarrow> sys_step s (s\<lparr>sc := SBlock\<rparr>)"
| sc_block: "sc s = SBlock \<Longrightarrow> sys_step s (s\<lparr>sc := SBlocked, lock := None\<rparr>)"
| sc_pop: "sc s = SPop \<Longrightarrow> queue s = r # q \<Longrightarrow>
     sys_step s (s\<lparr>sc := SServe r, queue := q, lock := None\<rparr>)"
| sc_continue: "sc s = SPop \<Longrightarrow> queue s = [] \<Longrightarrow> sys_step s (s\<lparr>sc := SLoop, lock := None\<rparr>)"
| sc_serve: "sc s = SServe r \<Longrightarrow>
     sys_step s (s\<lparr>sc := SLoop, resp := True, served := served s @ [r]\<rparr>)"
| sc_finish: "sc s = SFinish \<Longrightarrow> sys_step s (s\<lparr>sc := SReturned, started := False\<rparr>)"
| wk_take: "wk s = WIdle \<Longrightarrow> task s \<Longrightarrow> sys_step s (s\<lparr>wk := WRun\<rparr>)"
| wk_access: "wk s = WRun \<Longrightarrow> prog s = r # p \<Longrightarrow> started s \<Longrightarrow>
     sys_step s (s\<lparr>wk := WAcquire r, prog := p\<rparr>)"
| wk_drop: "wk s = WRun \<Longrightarrow> prog s = r # p \<Longrightarrow> \<not> started s \<Longrightarrow>
     sys_step s (s\<lparr>prog := p, dropped := dropped s @ [r]\<rparr>)"
| wk_acquire: "wk s = WAcquire r \<Longrightarrow> lock s = None \<Longrightarrow>
     sys_step s (s\<lparr>wk := WPush r, lock := Some PyThread\<rparr>)"
| wk_push: "wk s = WPush r \<Longrightarrow>
     sys_step s (s\<lparr>wk := WNotify, queue := queue s @ [r], lock := None, resp := False\<rparr>)"
| wk_notify: "wk s = WNotify \<Longrightarrow> sys_step s (s\<lparr>wk := WAwait, sc := wake (sc s)\<rparr>)"
| wk_resume: "wk s = WAwait \<Longrightarrow> resp s \<Longrightarrow> sys_step s (s\<lparr>wk := WRun\<rparr>)"
| wk_set_value: "wk s = WRun \<Longrightarrow> prog s = [] \<Longrightarrow> sys_step s (s\<lparr>wk := WFinalNotify, finished := True\<rparr>)"
| wk_final_notify: "wk s = WFinalNotify \<Longrightarrow> sys_step s (s\<lparr>wk := WReturn, sc := wake (sc s)\<rparr>)"

inductive reachable :: "req list \<Rightarrow> sys \<Rightarrow> bool" for p where
  reach_init: "reachable p (sys_init p)"
| reach_step: "reachable p s \<Longrightarrow> sys_step s t \<Longrightarrow> reachable p t"

subsection \<open>The invariant\<close>

text \<open>The access between a callback and its answer, at each of its three places.\<close>

fun asking :: "wk_pc \<Rightarrow> req list" where
  "asking (WAcquire r) = [r]"
| "asking (WPush r) = [r]"
| "asking _ = []"

fun serving :: "sc_pc \<Rightarrow> req list" where
  "serving (SServe r) = [r]"
| "serving _ = []"

definition lock_ok :: "sys \<Rightarrow> bool" where
  "lock_ok s \<longleftrightarrow>
     (lock s = Some ScThread \<longleftrightarrow> sc s \<in> {SPred, SBlock, SPop}) \<and>
     (lock s = Some PyThread \<longleftrightarrow> (\<exists>r. wk s = WPush r))"

definition flow_ok :: "sys \<Rightarrow> bool" where
  "flow_ok s \<longleftrightarrow>
     length (queue s) + length (serving (sc s)) =
       (if wk s \<in> {WNotify, WAwait} \<and> \<not> resp s then 1 else 0)"

definition wait_ok :: "sys \<Rightarrow> bool" where
  "wait_ok s \<longleftrightarrow>
     (sc s = SBlock \<longrightarrow> queue s = []) \<and> (sc s = SBlocked \<and> queue s \<noteq> [] \<longrightarrow> wk s = WNotify)"

definition phase_ok :: "sys \<Rightarrow> bool" where
  "phase_ok s \<longleftrightarrow>
     (finished s \<longleftrightarrow> wk s \<in> {WFinalNotify, WReturn}) \<and>
     (finished s \<longrightarrow> prog s = []) \<and>
     (sc s \<in> {SFinish, SReturned} \<longrightarrow> finished s)"

definition start_ok :: "sys \<Rightarrow> bool" where
  "start_ok s \<longleftrightarrow>
     (task s \<longleftrightarrow> sc s \<noteq> SPush) \<and>
     (started s \<longleftrightarrow> sc s \<notin> {SPush, SStart, SReturned}) \<and>
     (wk s \<noteq> WIdle \<longrightarrow> task s) \<and>
     (sc s \<in> {SPush, SStart} \<longrightarrow> served s = [] \<and> wk s \<in> {WIdle, WRun, WFinalNotify, WReturn})"

definition order_ok :: "req list \<Rightarrow> sys \<Rightarrow> bool" where
  "order_ok p s \<longleftrightarrow>
     p = dropped s @ served s @ serving (sc s) @ queue s @ asking (wk s) @ prog s"

definition sys_inv :: "req list \<Rightarrow> sys \<Rightarrow> bool" where
  "sys_inv p s \<longleftrightarrow> lock_ok s \<and> flow_ok s \<and> wait_ok s \<and> phase_ok s \<and>
     start_ok s \<and> order_ok p s"

lemmas sys_inv_defs =
  sys_inv_def lock_ok_def flow_ok_def wait_ok_def phase_ok_def start_ok_def order_ok_def

lemma sys_inv_init: "sys_inv p (sys_init p)"
  by (simp add: sys_inv_defs sys_init_def)

lemma wake_eq [simp]:
  "wake p = SServe r \<longleftrightarrow> p = SServe r" "wake p = SPred \<longleftrightarrow> p = SPred" "wake p = SBlock \<longleftrightarrow> p = SBlock"
  "wake p = SPop \<longleftrightarrow> p = SPop" "wake p \<noteq> SBlocked" "wake p = SFinish \<longleftrightarrow> p = SFinish"
  "wake p = SReturned \<longleftrightarrow> p = SReturned" "wake p = SPush \<longleftrightarrow> p = SPush" "wake p = SStart \<longleftrightarrow> p = SStart"
  "serving (wake p) = serving p"
  by (auto simp: wake_def)

lemma lock_ok_step: "sys_step s t \<Longrightarrow> lock_ok s \<Longrightarrow> lock_ok t"
  by (induction rule: sys_step.induct) (auto simp: lock_ok_def)

lemma flow_ok_step: "sys_step s t \<Longrightarrow> phase_ok s \<Longrightarrow> flow_ok s \<Longrightarrow> flow_ok t"
  by (induction rule: sys_step.induct) (simp_all add: flow_ok_def phase_ok_def split: if_splits)

lemma wait_ok_step: "sys_step s t \<Longrightarrow> lock_ok s \<Longrightarrow> flow_ok s \<Longrightarrow> wait_ok s \<Longrightarrow> wait_ok t"
  by (induction rule: sys_step.induct)
     (auto simp: wait_ok_def flow_ok_def lock_ok_def split: if_splits)

lemma phase_ok_step: "sys_step s t \<Longrightarrow> phase_ok s \<Longrightarrow> phase_ok t"
  by (induction rule: sys_step.induct) (auto simp: phase_ok_def)

lemma start_ok_step: "sys_step s t \<Longrightarrow> start_ok s \<Longrightarrow> start_ok t"
  by (induction rule: sys_step.induct) (auto simp: start_ok_def wake_def)

lemma order_ok_step:
  "sys_step s t \<Longrightarrow> flow_ok s \<Longrightarrow> phase_ok s \<Longrightarrow> start_ok s \<Longrightarrow> order_ok p s \<Longrightarrow> order_ok p t"
  by (induction rule: sys_step.induct)
     (auto simp: order_ok_def flow_ok_def phase_ok_def start_ok_def split: if_splits)

lemma sys_inv_step [step_inv]: "sys_step s t \<Longrightarrow> sys_inv p s \<Longrightarrow> sys_inv p t"
  unfolding sys_inv_def
  by (blast intro: lock_ok_step flow_ok_step wait_ok_step phase_ok_step start_ok_step order_ok_step)

lemma reachable_inv: "reachable p s \<Longrightarrow> sys_inv p s"
  by (induction rule: reachable.induct) (auto intro: sys_inv_init sys_inv_step)

subsection \<open>States without a successor\<close>

lemma stuck_facts:
  assumes "\<And>t. \<not> sys_step s t"
  shows "sc s \<noteq> SPush" "sc s \<noteq> SStart" "sc s \<noteq> SNotifyTask" "sc s \<noteq> SLoop" "sc s \<noteq> SPred"
    "sc s \<noteq> SBlock" "sc s \<noteq> SPop" "sc s \<noteq> SServe r" "sc s \<noteq> SFinish"
    "sc s = SAcquire \<Longrightarrow> lock s \<noteq> None"
    "wk s = WIdle \<Longrightarrow> \<not> task s" "wk s \<noteq> WRun" "wk s = WAcquire q \<Longrightarrow> lock s \<noteq> None"
    "wk s \<noteq> WPush q" "wk s \<noteq> WNotify" "wk s = WAwait \<Longrightarrow> \<not> resp s" "wk s \<noteq> WFinalNotify"
proof -
  show "sc s \<noteq> SPush" using assms sys_step.sc_push by metis
  show "sc s \<noteq> SStart" using assms sys_step.sc_start by metis
  show "sc s \<noteq> SNotifyTask" using assms sys_step.sc_notify by metis
  show "sc s \<noteq> SLoop" using assms sys_step.sc_ready sys_step.sc_again by metis
  show "sc s \<noteq> SPred" using assms sys_step.sc_pred_true sys_step.sc_pred_false by metis
  show "sc s \<noteq> SBlock" using assms sys_step.sc_block by metis
  show "sc s \<noteq> SPop" using assms sys_step.sc_pop sys_step.sc_continue by (metis neq_Nil_conv)
  show "sc s \<noteq> SServe r" using assms sys_step.sc_serve by metis
  show "sc s \<noteq> SFinish" using assms sys_step.sc_finish by metis
  show "sc s = SAcquire \<Longrightarrow> lock s \<noteq> None" using assms sys_step.sc_acquire by metis
  show "wk s = WIdle \<Longrightarrow> \<not> task s" using assms sys_step.wk_take by metis
  show "wk s \<noteq> WRun" using assms sys_step.wk_access sys_step.wk_drop sys_step.wk_set_value
    by (metis neq_Nil_conv)
  show "wk s = WAcquire q \<Longrightarrow> lock s \<noteq> None" using assms sys_step.wk_acquire by metis
  show "wk s \<noteq> WPush q" using assms sys_step.wk_push by metis
  show "wk s \<noteq> WNotify" using assms sys_step.wk_notify by metis
  show "wk s = WAwait \<Longrightarrow> \<not> resp s" using assms sys_step.wk_resume by metis
  show "wk s \<noteq> WFinalNotify" using assms sys_step.wk_final_notify by metis
qed

lemma stuck_cases:
  assumes inv: "sys_inv p s" and stuck: "\<And>t. \<not> sys_step s t"
  shows "wk s = WReturn \<and> (sc s = SReturned \<or> sc s = SBlocked)"
proof -
  note st = stuck_facts [OF stuck]
  have sc: "sc s = SAcquire \<or> sc s = SBlocked \<or> sc s = SReturned"
    using st by (cases "sc s") auto
  moreover have "lock s \<noteq> Some ScThread" "lock s \<noteq> Some PyThread"
    using inv sc st by (auto simp: sys_inv_def lock_ok_def)
  then have "lock s = None" by (metis option.exhaust owner.exhaust)
  moreover from this have "wk s = WIdle \<or> wk s = WAwait \<or> wk s = WReturn"
    using st by (cases "wk s") auto
  ultimately show ?thesis
    using inv st by (auto simp: sys_inv_def flow_ok_def wait_ok_def phase_ok_def start_ok_def)
qed

subsection \<open>Every run ends\<close>

text \<open>
  What is left to do: requests count twice (one wake-up, one answer), then the worker's own
  remaining actions, then the SystemC thread's way round its loop.
\<close>

fun wk_rank :: "wk_pc \<Rightarrow> nat" where
  "wk_rank WIdle = 3"
| "wk_rank WRun = 2"
| "wk_rank (WAcquire r) = 6"
| "wk_rank (WPush r) = 5"
| "wk_rank WNotify = 4"
| "wk_rank WAwait = 3"
| "wk_rank WFinalNotify = 1"
| "wk_rank WReturn = 0"

fun sc_rank :: "bool \<Rightarrow> sc_pc \<Rightarrow> nat" where
  "sc_rank fin SPush = 13"
| "sc_rank fin SStart = 12"
| "sc_rank fin SNotifyTask = 11"
| "sc_rank fin SLoop = (if fin then 2 else 10)"
| "sc_rank fin SAcquire = 9"
| "sc_rank fin SPred = 8"
| "sc_rank fin SPop = 7"
| "sc_rank fin SBlock = 7"
| "sc_rank fin SBlocked = 6"
| "sc_rank fin (SServe r) = 6"
| "sc_rank fin SFinish = 1"
| "sc_rank fin SReturned = 0"

definition sys_measure :: "sys \<Rightarrow> nat" where
  "sys_measure s =
     10 * (2 * length (prog s) + 2 * length (asking (wk s)) + (if wk s = WNotify then 1 else 0) +
       length (queue s) + length (serving (sc s)) + (if wk s = WReturn then 0 else 1)) +
     5 * length (prog s) + wk_rank (wk s) + sc_rank (finished s) (sc s)"

definition pop_ok :: "sys \<Rightarrow> bool" where
  "pop_ok s \<longleftrightarrow> (sc s = SPop \<and> queue s = [] \<longrightarrow> finished s)"

lemma pop_ok_step: "sys_step s t \<Longrightarrow> pop_ok s \<Longrightarrow> pop_ok t"
  by (induction rule: sys_step.induct) (auto simp: pop_ok_def)

lemma reachable_pop_ok: "reachable p s \<Longrightarrow> pop_ok s"
proof (induction rule: reachable.induct)
  case reach_init
  then show ?case by (simp add: pop_ok_def sys_init_def)
qed (rule pop_ok_step)

lemma sc_rank_wake: "sc_rank fin (wake q) \<le> sc_rank fin q + 3"
  by (simp add: wake_def)

lemma sys_measure_step: "sys_step s t \<Longrightarrow> pop_ok s \<Longrightarrow> sys_measure t < sys_measure s"
proof (induction rule: sys_step.induct)
  case (wk_notify s)
  then show ?case using sc_rank_wake [of "finished s" "sc s"] by (simp add: sys_measure_def)
next
  case (wk_final_notify s)
  then show ?case using sc_rank_wake [of "finished s" "sc s"] by (simp add: sys_measure_def)
next
  case (wk_set_value s)
  then show ?case by (cases "sc s") (simp_all add: sys_measure_def)
qed (simp_all add: sys_measure_def pop_ok_def)

lemma run_measure:
  "(sys_step ^^ n) s t \<Longrightarrow> reachable p s \<Longrightarrow> reachable p t \<and> n + sys_measure t \<le> sys_measure s"
proof (induction n arbitrary: t)
  case (Suc n)
  then obtain u where "(sys_step ^^ n) s u" "sys_step u t" by auto
  with Suc have "reachable p u" "n + sys_measure u \<le> sys_measure s" by blast+
  moreover have "sys_measure t < sys_measure u"
    using \<open>sys_step u t\<close> \<open>reachable p u\<close> by (intro sys_measure_step reachable_pop_ok)
  ultimately show ?case using \<open>sys_step u t\<close> by (auto intro: reach_step)
qed simp

subsection \<open>Runs of interest\<close>

text \<open>The point of the loop between two accesses, and the way through one access.\<close>

definition between :: "sys \<Rightarrow> bool" where
  "between s \<longleftrightarrow> sc s = SLoop \<and> wk s = WRun \<and> lock s = None \<and> queue s = [] \<and> started s \<and> \<not> finished s"

lemma serve_one:
  assumes "reachable p s" and "between s" and "prog s = r # rs"
  shows "\<exists>t. reachable p t \<and> between t \<and> prog t = rs \<and> served t = served s @ [r] \<and> dropped t = dropped s"
proof -
  define s1 where "s1 = s\<lparr>wk := WAcquire r, prog := rs\<rparr>"
  define s2 where "s2 = s1\<lparr>wk := WPush r, lock := Some PyThread\<rparr>"
  define s3 where "s3 = s2\<lparr>wk := WNotify, queue := [r], lock := None, resp := False\<rparr>"
  define s4 where "s4 = s3\<lparr>wk := WAwait, sc := SLoop\<rparr>"
  define s5 where "s5 = s4\<lparr>sc := SAcquire\<rparr>"
  define s6 where "s6 = s5\<lparr>sc := SPred, lock := Some ScThread\<rparr>"
  define s7 where "s7 = s6\<lparr>sc := SPop\<rparr>"
  define s8 where "s8 = s7\<lparr>sc := SServe r, queue := [], lock := None\<rparr>"
  define s9 where "s9 = s8\<lparr>sc := SLoop, resp := True, served := served s @ [r]\<rparr>"
  define s10 where "s10 = s9\<lparr>wk := WRun\<rparr>"
  note ds = s1_def s2_def s3_def s4_def s5_def s6_def s7_def s8_def s9_def s10_def
  have st1: "sys_step s s1" using assms sys_step.wk_access unfolding s1_def between_def by blast
  have st2: "sys_step s1 s2" using assms(2) sys_step.wk_acquire [of s1 r]
    by (simp add: ds between_def)
  have st3: "sys_step s2 s3" using assms(2) sys_step.wk_push [of s2 r]
    by (simp add: ds between_def)
  have st4: "sys_step s3 s4" using assms(2) sys_step.wk_notify [of s3]
    by (simp add: ds between_def wake_def)
  have st5: "sys_step s4 s5" using assms(2) sys_step.sc_again [of s4]
    by (simp add: ds between_def)
  have st6: "sys_step s5 s6" using assms(2) sys_step.sc_acquire [of s5]
    by (simp add: ds between_def)
  have st7: "sys_step s6 s7" using sys_step.sc_pred_true [of s6] by (simp add: ds)
  have st8: "sys_step s7 s8" using sys_step.sc_pop [of s7 r "[]"] by (simp add: ds)
  have st9: "sys_step s8 s9" using sys_step.sc_serve [of s8 r] by (simp add: ds)
  have st10: "sys_step s9 s10" using sys_step.wk_resume [of s9] by (simp add: ds)
  note r1 = reach_step [OF assms(1) st1]
  note r2 = reach_step [OF r1 st2]
  note r3 = reach_step [OF r2 st3]
  note r4 = reach_step [OF r3 st4]
  note r5 = reach_step [OF r4 st5]
  note r6 = reach_step [OF r5 st6]
  note r7 = reach_step [OF r6 st7]
  note r8 = reach_step [OF r7 st8]
  note r9 = reach_step [OF r8 st9]
  note r10 = reach_step [OF r9 st10]
  have "reachable p s10" by (rule r10)
  then show ?thesis using assms(2) by (intro exI [of _ s10]) (simp add: ds between_def)
qed

lemma serve_all:
  "reachable p s \<Longrightarrow> between s \<Longrightarrow>
   \<exists>t. reachable p t \<and> between t \<and> prog t = [] \<and> served t = served s @ prog s \<and> dropped t = dropped s"
proof (induction "prog s" arbitrary: s)
  case (Cons r rs)
  from serve_one [OF Cons.prems] Cons.hyps(2) [symmetric] obtain t where
    t: "reachable p t" "between t" "prog t = rs" "served t = served s @ [r]" "dropped t = dropped s"
    by metis
  from Cons.hyps(1) [OF _ t(1,2)] t(3) obtain u where
    "reachable p u" "between u" "prog u = []" "served u = served t @ rs" "dropped u = dropped t"
    by metis
  then show ?case using t Cons.hyps(2) [symmetric] by (intro exI [of _ u]) simp
qed auto

lemma reach_between: "\<exists>s. reachable p s \<and> between s \<and> prog s = p \<and> served s = [] \<and> dropped s = []"
proof -
  define s1 where "s1 = (sys_init p)\<lparr>sc := SStart, task := True\<rparr>"
  define s2 where "s2 = s1\<lparr>sc := SNotifyTask, started := True\<rparr>"
  define s3 where "s3 = s2\<lparr>sc := SLoop\<rparr>"
  define s4 where "s4 = s3\<lparr>wk := WRun\<rparr>"
  note ds = s1_def s2_def s3_def s4_def sys_init_def
  have st1: "sys_step (sys_init p) s1" using sys_step.sc_push [of "sys_init p"] by (simp add: ds)
  have st2: "sys_step s1 s2" using sys_step.sc_start [of s1] by (simp add: ds)
  have st3: "sys_step s2 s3" using sys_step.sc_notify [of s2] by (simp add: ds)
  have st4: "sys_step s3 s4" using sys_step.wk_take [of s3] by (simp add: ds)
  note r1 = reach_step [OF reach_init st1]
  note r2 = reach_step [OF r1 st2]
  note r3 = reach_step [OF r2 st3]
  note r4 = reach_step [OF r3 st4]
  have "reachable p s4" by (rule r4)
  then show ?thesis by (intro exI [of _ s4]) (simp add: ds between_def)
qed

text \<open>From there the worker can finish between the test of the predicate and the block.\<close>

lemma lose_wakeup:
  assumes "reachable p s" and "between s" and "prog s = []"
  shows "\<exists>t. reachable p t \<and> sc t = SBlocked \<and> wk t = WReturn \<and> finished t \<and> lock t = None \<and>
    served t = served s \<and> dropped t = dropped s"
proof -
  define s1 where "s1 = s\<lparr>sc := SAcquire\<rparr>"
  define s2 where "s2 = s1\<lparr>sc := SPred, lock := Some ScThread\<rparr>"
  define s3 where "s3 = s2\<lparr>sc := SBlock\<rparr>"
  define s4 where "s4 = s3\<lparr>wk := WFinalNotify, finished := True\<rparr>"
  define s5 where "s5 = s4\<lparr>wk := WReturn, sc := SBlock\<rparr>"
  define s6 where "s6 = s5\<lparr>sc := SBlocked, lock := None\<rparr>"
  note ds = s1_def s2_def s3_def s4_def s5_def s6_def
  have st1: "sys_step s s1" using assms(2) sys_step.sc_again [of s] by (simp add: ds between_def)
  have st2: "sys_step s1 s2" using assms(2) sys_step.sc_acquire [of s1] by (simp add: ds between_def)
  have st3: "sys_step s2 s3" using assms(2) sys_step.sc_pred_false [of s2] by (simp add: ds between_def)
  have st4: "sys_step s3 s4" using assms(2,3) sys_step.wk_set_value [of s3] by (simp add: ds between_def)
  have st5: "sys_step s4 s5" using sys_step.wk_final_notify [of s4] by (simp add: ds wake_def)
  have st6: "sys_step s5 s6" using sys_step.sc_block [of s5] by (simp add: ds)
  note r1 = reach_step [OF assms(1) st1]
  note r2 = reach_step [OF r1 st2]
  note r3 = reach_step [OF r2 st3]
  note r4 = reach_step [OF r3 st4]
  note r5 = reach_step [OF r4 st5]
  note r6 = reach_step [OF r5 st6]
  have "reachable p s6" by (rule r6)
  then show ?thesis by (intro exI [of _ s6]) (simp add: ds)
qed

lemma blocked_is_stuck: "sc s = SBlocked \<Longrightarrow> wk s = WReturn \<Longrightarrow> \<not> sys_step s t"
  by (auto elim: sys_step.cases)

subsection \<open>Properties\<close>

text \<open>
  C2. In every reachable state the accesses of the engine are, in program order, the dropped ones,
  the ones the SystemC thread has performed, the one in flight and the ones still to come: none is
  lost, repeated or reordered, and at most one is in flight.
\<close>

theorem accesses_in_order:
  assumes "reachable p s"
  shows "p = dropped s @ served s @ serving (sc s) @ queue s @ asking (wk s) @ prog s \<and>
    length (serving (sc s)) + length (queue s) + length (asking (wk s)) \<le> 1"
  using reachable_inv [OF assms]
  by (cases "wk s") (auto simp: sys_inv_def order_ok_def flow_ok_def split: if_splits)

theorem accesses_in_order_witness:
  "\<exists>s. reachable [MemRead 0, MemWrite 8 1] s \<and> served s = [MemRead 0, MemWrite 8 1] \<and>
     length (queue s) \<le> 1"
proof -
  obtain s where s: "reachable [MemRead 0, MemWrite 8 1] s" "served s = [MemRead 0, MemWrite 8 1]"
    using reach_between serve_all by (metis append_Nil)
  with accesses_in_order [OF s(1)] show ?thesis by auto
qed

text \<open>
  C3. The only states without a successor are the proper end, with both threads returned, and one
  deadlock: the worker has finished and the SystemC thread sleeps on \<open>memtask_cv\<close> for good. In both
  every access was answered or dropped; a callback itself is never stuck.
\<close>

theorem stuck_states:
  assumes "reachable p s" and "\<forall>t. \<not> sys_step s t"
  shows "wk s = WReturn \<and> finished s \<and> p = dropped s @ served s \<and>
    (sc s = SReturned \<or> sc s = SBlocked)"
proof -
  have inv: "sys_inv p s" using assms(1) by (rule reachable_inv)
  have "wk s = WReturn \<and> (sc s = SReturned \<or> sc s = SBlocked)"
    using inv assms(2) by (intro stuck_cases) auto
  with inv show ?thesis
    by (auto simp: sys_inv_def phase_ok_def order_ok_def flow_ok_def)
qed

lemma lost_wakeup_run:
  "\<exists>s. reachable p s \<and> served s = p \<and> dropped s = [] \<and> sc s = SBlocked \<and> wk s = WReturn"
proof -
  obtain s0 where s0: "reachable p s0" "between s0" "prog s0 = p" "served s0 = []" "dropped s0 = []"
    using reach_between by blast
  obtain s1 where s1: "reachable p s1" "between s1" "prog s1 = []" "served s1 = p" "dropped s1 = []"
    using serve_all [OF s0(1,2)] s0(3-5) by auto
  from lose_wakeup [OF s1(1-3)] s1(4,5) show ?thesis by auto
qed

theorem stuck_states_witness:
  "\<exists>s. reachable [MemRead 0] s \<and> served s = [MemRead 0] \<and> finished s"
proof -
  obtain s where s: "reachable [MemRead 0] s" "served s = [MemRead 0]" "sc s = SBlocked" "wk s = WReturn"
    using lost_wakeup_run by blast
  then have "\<forall>t. \<not> sys_step s t" using blocked_is_stuck by blast
  with stuck_states [OF s(1)] s show ?thesis by blast
qed

text \<open>
  C4. The deadlock is real: whatever the engine does, there is a schedule in which every access is
  served and then the final \<open>memtask_cv.notify_one()\<close> falls between the SystemC thread's test of
  its wait predicate and its going to sleep, because the worker sets the promise and notifies
  without holding \<open>memtask_mutex\<close>. Nothing can move any more.
\<close>

theorem lost_wakeup_deadlock:
  "\<exists>s. reachable p s \<and> served s = p \<and> sc s = SBlocked \<and> (\<forall>t. \<not> sys_step s t)"
  using lost_wakeup_run [of p] blocked_is_stuck by blast



text \<open>
  \<open>simulate\<close> pushes its task before it sets \<open>sim_started\<close>: a worker that is quick enough
  runs the first access against the old value of the flag, and the callback drops it.
\<close>

theorem startup_race_drops_access:
  "\<exists>s. reachable (r # rs) s \<and> dropped s = [r] \<and> prog s = rs \<and> served s = []"
proof -
  let ?p = "r # rs"
  define s1 where "s1 = (sys_init ?p)\<lparr>sc := SStart, task := True\<rparr>"
  define s2 where "s2 = s1\<lparr>wk := WRun\<rparr>"
  define s3 where "s3 = s2\<lparr>prog := rs, dropped := [r]\<rparr>"
  note ds = s1_def s2_def s3_def sys_init_def
  have st1: "sys_step (sys_init ?p) s1" using sys_step.sc_push [of "sys_init ?p"] by (simp add: ds)
  have st2: "sys_step s1 s2" using sys_step.wk_take [of s1] by (simp add: ds)
  have st3: "sys_step s2 s3" using sys_step.wk_drop [of s2 r rs] by (simp add: ds)
  have "reachable ?p s3"
    by (rule reach_step [OF reach_step [OF reach_step [OF reach_init st1] st2] st3])
  then show ?thesis by (intro exI [of _ s3]) (simp add: ds)
qed

end
