(* ===== verification/VcmlBus.thy ===== *)
theory VcmlBus
  imports Prelude
begin

section \<open>Address ranges, the bus and the memory of VCML\<close>

text \<open>
  The part of the vendored VCML library that decodes the platform's addresses
  (\<open>src/sysc_vp/deps/vcml\<close>): \<open>vcml::range\<close> (\<open>core/range.h\<close>), the mapping table of
  \<open>generic::bus\<close> (\<open>models/generic/bus.cpp\<close>) with its \<open>map\<close>, \<open>lookup\<close> and
  \<open>b_transport\<close>, and the bounds and permission checks of \<open>tlm_memory\<close>
  (\<open>protocols/tlm_memory_posix.cpp\<close>). Addresses are 64-bit words and wrap as in the code.
  \<open>VCML_ERROR\<close> ends the simulation: \<open>None\<close>. Timing, sideband information and tracing are left out.
\<close>

subsection \<open>range\<close>

record range =
  r_start :: u64
  r_end :: u64

text \<open>The checked constructor \<open>range(s, e)\<close>; the empty range is \<open>e = s - 1\<close>.\<close>

definition mk_range :: "u64 \<Rightarrow> u64 \<Rightarrow> range option" where
  "mk_range s e = (if e < s \<and> s - e > 1 then None else Some \<lparr>r_start = s, r_end = e\<rparr>)"

definition range_length :: "range \<Rightarrow> u64" where
  "range_length r = r_end r - r_start r + 1"

definition includes_addr :: "range \<Rightarrow> u64 \<Rightarrow> bool" where
  "includes_addr r addr \<longleftrightarrow> addr \<ge> r_start r \<and> addr \<le> r_end r"

definition includes_range :: "range \<Rightarrow> range \<Rightarrow> bool" where
  "includes_range r other \<longleftrightarrow> includes_addr r (r_start other) \<and> includes_addr r (r_end other)"

definition inside :: "range \<Rightarrow> range \<Rightarrow> bool" where
  "inside r other \<longleftrightarrow> includes_range other r"

definition overlaps :: "range \<Rightarrow> range \<Rightarrow> bool" where
  "overlaps r other \<longleftrightarrow> r_end other \<ge> r_start r \<and> r_start other \<le> r_end r"

definition connects :: "range \<Rightarrow> range \<Rightarrow> bool" where
  "connects r other \<longleftrightarrow> r_start other = r_end r + 1 \<or> r_start r = r_end other + 1"

definition intersect :: "range \<Rightarrow> range \<Rightarrow> range" where
  "intersect r other =
     (if \<not> overlaps r other then \<lparr>r_start = 0, r_end = 0\<rparr>
      else \<lparr>r_start = max (r_start r) (r_start other), r_end = min (r_end r) (r_end other)\<rparr>)"

text \<open>\<open>range(tx)\<close>: the payload's address and its size (streaming width, here the length).\<close>

definition tx_range :: "u64 \<Rightarrow> u64 \<Rightarrow> range" where
  "tx_range addr sz = \<lparr>r_start = addr, r_end = addr + sz - 1\<rparr>"

definition range_addrs :: "range \<Rightarrow> u64 set" where
  "range_addrs r = {a. includes_addr r a}"

lemma includes_addrs:
  "r_start b \<le> r_end b \<Longrightarrow> includes_range a b \<longleftrightarrow> range_addrs b \<subseteq> range_addrs a"
  by (auto simp: includes_range_def range_addrs_def includes_addr_def)

lemma overlaps_addrs:
  assumes "r_start a \<le> r_end a" and "r_start b \<le> r_end b"
  shows "overlaps a b \<longleftrightarrow> range_addrs a \<inter> range_addrs b \<noteq> {}"
proof
  assume "overlaps a b"
  with assms have "max (r_start a) (r_start b) \<in> range_addrs a \<inter> range_addrs b"
    by (simp add: overlaps_def range_addrs_def includes_addr_def)
  then show "range_addrs a \<inter> range_addrs b \<noteq> {}" by blast
next
  assume "range_addrs a \<inter> range_addrs b \<noteq> {}"
  then obtain x where "r_start a \<le> x" "x \<le> r_end a" "r_start b \<le> x" "x \<le> r_end b"
    by (auto simp: range_addrs_def includes_addr_def)
  then show "overlaps a b" by (auto simp: overlaps_def)
qed

lemma intersect_addrs:
  "overlaps a b \<Longrightarrow> range_addrs (intersect a b) = range_addrs a \<inter> range_addrs b"
  by (auto simp: intersect_def range_addrs_def includes_addr_def)

subsection \<open>The mapping table\<close>

record mapping =
  target :: nat
  source :: nat
  addr :: range
  offset :: u64

definition SIZE_MAX :: nat where
  "SIZE_MAX = 2 ^ 64 - 1"

definition TARGET_NONE :: nat where
  "TARGET_NONE = SIZE_MAX"

definition SOURCE_ANY :: nat where
  "SOURCE_ANY = SIZE_MAX"

definition mapping_less :: "mapping \<Rightarrow> mapping \<Rightarrow> bool" where
  "mapping_less a b =
     (if r_start (addr a) = r_start (addr b) then target a < target b
      else r_start (addr a) < r_start (addr b))"

text \<open>\<open>std::set\<close> under \<open>operator<\<close>: ordered, and an element equivalent to a present one is not inserted.\<close>

fun set_insert :: "mapping \<Rightarrow> mapping list \<Rightarrow> mapping list" where
  "set_insert m [] = [m]"
| "set_insert m (x # xs) =
     (if mapping_less m x then m # x # xs
      else if mapping_less x m then x # set_insert m xs
      else x # xs)"

record bus =
  m_mappings :: "mapping list"
  m_default :: mapping
  lenient :: bool

definition bus_init :: bus where
  "bus_init = \<lparr>m_mappings = [],
     m_default = \<lparr>target = SIZE_MAX, source = SIZE_MAX,
       addr = \<lparr>r_start = 0, r_end = - 1\<rparr>, offset = 0\<rparr>,
     lenient = False\<rparr>"

definition bus_map :: "bus \<Rightarrow> nat \<Rightarrow> range \<Rightarrow> u64 \<Rightarrow> nat \<Rightarrow> bus option" where
  "bus_map b tgt r off src =
     (if list_ex (\<lambda>m. overlaps (addr m) r \<and> source m = src) (m_mappings b) then None
      else Some (b\<lparr>m_mappings :=
        set_insert \<lparr>target = tgt, source = src, addr = r, offset = off\<rparr> (m_mappings b)\<rparr>))"

definition bus_map_default :: "bus \<Rightarrow> nat \<Rightarrow> u64 \<Rightarrow> bus option" where
  "bus_map_default b tgt off =
     (if target (m_default b) \<noteq> TARGET_NONE then None
      else Some (b\<lparr>m_default := (m_default b)\<lparr>target := tgt, offset := off\<rparr>\<rparr>))"

definition bus_lookup :: "bus \<Rightarrow> nat \<Rightarrow> range \<Rightarrow> mapping" where
  "bus_lookup b port mem =
     (case find (\<lambda>m. includes_range (addr m) mem \<and> source m = port) (m_mappings b) of
        Some m \<Rightarrow> m
      | None \<Rightarrow>
          (case find (\<lambda>m. includes_range (addr m) mem \<and> source m = SOURCE_ANY) (m_mappings b) of
             Some m \<Rightarrow> m
           | None \<Rightarrow> m_default b))"

text \<open>
  Where \<open>b_transport\<close> sends a transaction: to a target port at a local address, or to
  \<open>handle_bus_error\<close>, which a lenient bus answers itself (reads as zero).
\<close>

datatype bus_route = Forward nat u64 | LenientOk | AddressError

definition bus_b_transport :: "bus \<Rightarrow> nat \<Rightarrow> u64 \<Rightarrow> u64 \<Rightarrow> bus_route" where
  "bus_b_transport b port a sz =
     (let m = bus_lookup b port (tx_range a sz) in
      if target m = TARGET_NONE then (if lenient b then LenientOk else AddressError)
      else Forward (target m) (a - r_start (addr m) + offset m))"

subsection \<open>Facts about the table\<close>

definition exclusive :: "mapping list \<Rightarrow> bool" where
  "exclusive ms \<longleftrightarrow>
     (\<forall>m \<in> set ms. \<forall>n \<in> set ms. source m = source n \<and> overlaps (addr m) (addr n) \<longrightarrow> m = n)"

lemma set_set_insert: "set (set_insert m xs) \<subseteq> insert m (set xs)"
  by (induction xs) auto

lemma set_insert_old: "set xs \<subseteq> set (set_insert m xs)"
  by (induction xs) auto

lemma set_insert_new:
  "(\<forall>x \<in> set xs. mapping_less m x \<or> mapping_less x m) \<Longrightarrow> m \<in> set (set_insert m xs)"
  by (induction xs) auto

lemma overlaps_sym: "overlaps a b \<longleftrightarrow> overlaps b a"
  by (auto simp: overlaps_def)

lemma exclusive_insert:
  assumes "exclusive (m_mappings b)"
    and "\<forall>m \<in> set (m_mappings b). \<not> (overlaps (addr m) (addr k) \<and> source m = source k)"
    and "set ms \<subseteq> insert k (set (m_mappings b))"
  shows "exclusive ms"
  unfolding exclusive_def
proof (intro ballI impI)
  fix m n
  assume "m \<in> set ms" "n \<in> set ms" and mn: "source m = source n \<and> overlaps (addr m) (addr n)"
  with assms(3) have "m = k \<or> m \<in> set (m_mappings b)" "n = k \<or> n \<in> set (m_mappings b)"
    by auto
  with mn assms(1,2) show "m = n"
    using overlaps_sym [of "addr m" "addr n"] unfolding exclusive_def by metis
qed

lemma bus_map_Some:
  assumes "bus_map b t r off src = Some b'"
  shows "\<forall>m \<in> set (m_mappings b). \<not> (overlaps (addr m) r \<and> source m = src)"
    and "m_mappings b' =
      set_insert \<lparr>target = t, source = src, addr = r, offset = off\<rparr> (m_mappings b)"
    and "m_default b' = m_default b" and "lenient b' = lenient b"
  using assms by (simp_all add: bus_map_def list_ex_iff split: if_splits) auto

lemma exclusive_map [step_inv]:
  assumes "exclusive (m_mappings b)" and "bus_map b t r off src = Some b'"
  shows "exclusive (m_mappings b')"
  using assms(1)
proof (rule exclusive_insert)
  let ?m = "\<lparr>target = t, source = src, addr = r, offset = off\<rparr>"
  show "\<forall>m \<in> set (m_mappings b). \<not> (overlaps (addr m) (addr ?m) \<and> source m = source ?m)"
    using bus_map_Some(1) [OF assms(2)] by simp
  show "set (m_mappings b') \<subseteq> insert ?m (set (m_mappings b))"
    using bus_map_Some(2) [OF assms(2)] set_set_insert by simp
qed

lemma includes_overlaps:
  "includes_range a mem \<Longrightarrow> includes_range b mem \<Longrightarrow> r_start mem \<le> r_end mem \<Longrightarrow> overlaps a b"
  by (auto simp: includes_range_def includes_addr_def overlaps_def)

lemma find_found: "find P xs = Some y \<Longrightarrow> y \<in> set xs \<and> P y"
  by (induction xs) (auto split: if_splits)

lemma find_exists: "x \<in> set xs \<Longrightarrow> P x \<Longrightarrow> \<exists>y. find P xs = Some y"
  by (induction xs) auto

lemma find_unique:
  assumes "x \<in> set xs" and "P x" and uniq: "\<And>y. y \<in> set xs \<Longrightarrow> P y \<Longrightarrow> y = x"
  shows "find P xs = Some x"
proof -
  obtain y where y: "find P xs = Some y" using find_exists [of x xs P] assms(1,2) by blast
  have "y = x" using find_found [OF y] by (intro uniq) auto
  with y show ?thesis by simp
qed

lemma exclusive_unique:
  assumes "exclusive ms" and "m \<in> set ms" "n \<in> set ms" and "source m = source n"
    and "includes_range (addr m) mem" "includes_range (addr n) mem" and "r_start mem \<le> r_end mem"
  shows "n = m"
proof -
  have "overlaps (addr m) (addr n)" using assms(5-7) by (rule includes_overlaps)
  with assms(1-4) show ?thesis unfolding exclusive_def by metis
qed

text \<open>A mapping of the port itself decides, whatever the order of the table.\<close>

lemma bus_lookup_own:
  assumes "exclusive (m_mappings b)" and "m \<in> set (m_mappings b)" and "source m = port"
    and "includes_range (addr m) mem" and "r_start mem \<le> r_end mem"
  shows "bus_lookup b port mem = m"
proof -
  have "find (\<lambda>m. includes_range (addr m) mem \<and> source m = port) (m_mappings b) = Some m"
    by (rule find_unique) (use assms in \<open>simp_all, metis exclusive_unique\<close>)
  then show ?thesis by (simp add: bus_lookup_def)
qed

lemma bus_lookup_any:
  assumes "exclusive (m_mappings b)" and "m \<in> set (m_mappings b)" and "source m = SOURCE_ANY"
    and "includes_range (addr m) mem" and "r_start mem \<le> r_end mem"
    and "\<forall>n \<in> set (m_mappings b). includes_range (addr n) mem \<longrightarrow> source n \<noteq> port"
  shows "bus_lookup b port mem = m"
proof -
  have "find (\<lambda>m. includes_range (addr m) mem \<and> source m = port) (m_mappings b) = None"
    using assms(6) unfolding find_None_iff by blast
  moreover have "find (\<lambda>m. includes_range (addr m) mem \<and> source m = SOURCE_ANY) (m_mappings b) = Some m"
    by (rule find_unique) (use assms(1-5) in \<open>simp_all, metis exclusive_unique\<close>)
  ultimately show ?thesis by (simp add: bus_lookup_def)
qed

lemma bus_lookup_none:
  assumes "\<And>n. n \<in> set (m_mappings b) \<Longrightarrow> \<not> includes_range (addr n) mem"
  shows "bus_lookup b port mem = m_default b"
proof -
  have "find (\<lambda>m. includes_range (addr m) mem \<and> source m = p) (m_mappings b) = None" for p
    using assms by (auto simp: find_None_iff)
  then show ?thesis by (simp add: bus_lookup_def)
qed

subsection \<open>tlm_memory\<close>

datatype tlm_status = TLM_OK | TLM_ADDRESS_ERROR | TLM_COMMAND_ERROR

text \<open>
  \<open>init\<close> reserves \<open>extra\<close> bytes for an alignment beyond the host page and keeps the
  reserved size in \<open>m_size\<close>, while the usable size is that of the DMI region.
\<close>

record tlm_memory =
  tm_size :: u64
  dmi_size :: u64
  tm_discard :: bool
  tm_read :: bool
  tm_write :: bool
  tm_data :: "u64 \<Rightarrow> u8"

definition tlm_memory_init :: "u64 \<Rightarrow> nat \<Rightarrow> nat \<Rightarrow> tlm_memory" where
  "tlm_memory_init sz al host_page_al =
     (let extra = (if al > host_page_al then push_bit al 1 - 1 else 0) in
      \<lparr>tm_size = sz + extra, dmi_size = sz, tm_discard = False, tm_read = True, tm_write = True,
       tm_data = (\<lambda>_. 0)\<rparr>)"

definition tlm_memory_read ::
  "tlm_memory \<Rightarrow> range \<Rightarrow> bool \<Rightarrow> tlm_status \<times> u8 list" where
  "tlm_memory_read m r debug =
     (if r_end r \<ge> tm_size m then (TLM_ADDRESS_ERROR, [])
      else if \<not> debug \<and> \<not> tm_read m then (TLM_COMMAND_ERROR, [])
      else (TLM_OK, map (\<lambda>i. tm_data m (r_start r + word_of_nat i)) [0..<unat (range_length r)]))"

definition mem_put :: "(u64 \<Rightarrow> u8) \<Rightarrow> u64 \<Rightarrow> u8 list \<Rightarrow> u64 \<Rightarrow> u8" where
  "mem_put f a bs = (\<lambda>x. if unat (x - a) < length bs then bs ! unat (x - a) else f x)"

definition tlm_memory_write ::
  "tlm_memory \<Rightarrow> range \<Rightarrow> u8 list \<Rightarrow> bool \<Rightarrow> tlm_status \<times> tlm_memory" where
  "tlm_memory_write m r src debug =
     (if r_end r \<ge> tm_size m then (TLM_ADDRESS_ERROR, m)
      else if \<not> debug \<and> tm_discard m then (TLM_OK, m)
      else if \<not> debug \<and> \<not> tm_write m then (TLM_COMMAND_ERROR, m)
      else (TLM_OK, m\<lparr>tm_data := mem_put (tm_data m) (r_start r) (take (unat (range_length r)) src)\<rparr>))"

lemma mem_put_get:
  "length bs < 2 ^ 64 \<Longrightarrow>
   map (\<lambda>i. mem_put f a bs (a + word_of_nat i)) [0..<length bs] = bs"
  by (rule nth_equalityI) (auto simp: mem_put_def unat_of_nat)

subsection \<open>Properties\<close>



text \<open>
  Binding the same target range for a second source is accepted and forgotten: the mapping set
  is ordered by start and target only, so the second \<open>map\<close> changes nothing and the second
  source's accesses end in a bus error.
\<close>

theorem second_source_mapping_lost:
  assumes "s1 \<noteq> s2" and "s1 \<noteq> SOURCE_ANY" and "r_start r \<le> r_end r"
  shows "\<exists>b. bus_map bus_init t r off1 s1 = Some b \<and> bus_map b t r off2 s2 = Some b \<and>
    bus_b_transport b s2 a sz = AddressError"
  using assms
  by (simp add: bus_map_def bus_init_def mapping_less_def bus_b_transport_def bus_lookup_def
      TARGET_NONE_def SIZE_MAX_def)

theorem second_source_mapping_lost_witness:
  "\<exists>b. bus_map bus_init 0 \<lparr>r_start = 0x1000, r_end = 0x1fff\<rparr> 0 2 = Some b \<and>
    bus_map b 0 \<lparr>r_start = 0x1000, r_end = 0x1fff\<rparr> 0 3 = Some b \<and>
    bus_b_transport b 3 0x1000 8 = AddressError"
  by (rule second_source_mapping_lost) (simp_all add: SOURCE_ANY_def SIZE_MAX_def)

text \<open>
  \<open>tlm_memory::read\<close> compares with the reserved size: without extra alignment exactly the
  ranges that end inside the memory are read, but with an alignment beyond the host page a read
  that starts at the first byte past the memory succeeds.
\<close>

theorem tlm_memory_read_bound:
  "(al \<le> host_al \<longrightarrow>
      (fst (tlm_memory_read (tlm_memory_init sz al host_al) r False) = TLM_OK \<longleftrightarrow> r_end r < sz)) \<and>
   (host_al < al \<and> al < 63 \<and> sz < 2 ^ 63 \<longrightarrow>
      fst (tlm_memory_read (tlm_memory_init sz al host_al) \<lparr>r_start = sz, r_end = sz\<rparr> False) = TLM_OK)"
proof -
  have "sz < sz + (push_bit al 1 - 1)" if "0 < al" "al < 63" "sz < 2 ^ 63"
  proof -
    have le: "(2::nat) ^ al \<le> 2 ^ 62" by (rule power_increasing) (use that in auto)
    have ge: "(2::nat) ^ 1 \<le> 2 ^ al" by (rule power_increasing) (use that in auto)
    have "unat (word_of_nat (2 ^ al) :: u64) = 2 ^ al"
      by (simp only: unat_of_nat) (use le in simp)
    then have "unat (push_bit al 1 :: u64) = 2 ^ al" by (simp add: push_bit_eq_mult)
    moreover have "unat sz < 2 ^ 63" using that(3) by (simp add: word_less_nat_alt)
    moreover have "unat (push_bit al 1 - 1 :: u64) = 2 ^ al - 1"
      using calculation(1) ge by (subst unat_sub) (simp_all add: word_le_nat_alt)
    ultimately show ?thesis using le ge
      by (simp add: word_less_nat_alt unat_word_ariths)
  qed
  then show ?thesis
    by (auto simp: tlm_memory_init_def tlm_memory_read_def Let_def not_le)
qed

theorem tlm_memory_read_bound_witness:
  "fst (tlm_memory_read (tlm_memory_init 0x1000 13 12) \<lparr>r_start = 0x1000, r_end = 0x1000\<rparr> False) = TLM_OK"
  using tlm_memory_read_bound [of 13 12 "0x1000"] by simp

end
