(* ===== verification/Platform.thy ===== *)
theory Platform
  imports PyGlue VcmlBus "HOL-Library.Monad_Syntax"
begin

section \<open>The virtual platform: memory map, memory callbacks and core (sysc_vp)\<close>

text \<open>
  \<open>src/sysc_vp/include/system.h\<close> and \<open>src/sysc_vp/src/system.cpp\<close> place two memories on the
  VCML bus; \<open>memory_callbacks.cpp\<close> filters the CPU's accesses and hands them to
  \<open>PydrofoilCore::simulate\<close> (\<open>core.cpp\<close>), which performs them on the bus;
  \<open>python_tasks.cpp\<close> turns the core's requests into calls of the glue. Here a request is
  served as soon as it is made; how the two threads really meet is the theory
  \<open>CoreProtocol\<close>. The flag \<open>sim_started\<close> is taken to be set before the first access, as in
  the schedule the code aims at.
\<close>

subsection \<open>Memory map and bus access\<close>

definition SRAM_SZ :: u64 where "SRAM_SZ = 256 * 1024"
definition SRAM_LO :: u64 where "SRAM_LO = 0x80000000"
definition SRAM_HI :: u64 where "SRAM_HI = SRAM_LO + SRAM_SZ - 1"
definition BOOT_SZ :: u64 where "BOOT_SZ = 4 * 1024"
definition BOOT_LO :: u64 where "BOOT_LO = 0x1000"
definition BOOT_HI :: u64 where "BOOT_HI = BOOT_LO + BOOT_SZ - 1"

lemmas memory_map = SRAM_SZ_def SRAM_LO_def SRAM_HI_def BOOT_SZ_def BOOT_LO_def BOOT_HI_def

definition ram_range :: range where "ram_range = \<lparr>r_start = SRAM_LO, r_end = SRAM_HI\<rparr>"
definition bram_range :: range where "bram_range = \<lparr>r_start = BOOT_LO, r_end = BOOT_HI\<rparr>"

text \<open>
  Target ports are numbered as they are bound (SRAM 0, boot RAM 1), source ports likewise
  (loader insn and data, then core insn and data).
\<close>

definition system_bus :: "bus option" where
  "system_bus =
     do { b \<leftarrow> bus_map bus_init 0 ram_range 0 SOURCE_ANY;
          bus_map b 1 bram_range 0 SOURCE_ANY }"

definition CORE_DATA :: nat where "CORE_DATA = 3"

record platform =
  p_bus :: bus
  p_sram :: tlm_memory
  p_bram :: tlm_memory
  sim_started :: bool

definition platform_init :: "platform option" where
  "platform_init =
     do { b \<leftarrow> system_bus;
          Some \<lparr>p_bus = b,
            p_sram = tlm_memory_init (range_length ram_range) 0 12,
            p_bram = tlm_memory_init (range_length bram_range) 0 12, sim_started = False\<rparr> }"

definition data_read :: "platform \<Rightarrow> u64 \<Rightarrow> u64 \<Rightarrow> tlm_status \<times> u8 list" where
  "data_read p a sz =
     (case bus_b_transport (p_bus p) CORE_DATA a sz of
        Forward t l \<Rightarrow>
          if t = 0 then tlm_memory_read (p_sram p) (tx_range l sz) False
          else if t = 1 then tlm_memory_read (p_bram p) (tx_range l sz) False
          else (TLM_ADDRESS_ERROR, [])
      | LenientOk \<Rightarrow> (TLM_OK, replicate (unat sz) 0)
      | AddressError \<Rightarrow> (TLM_ADDRESS_ERROR, []))"

definition data_write :: "platform \<Rightarrow> u64 \<Rightarrow> u64 \<Rightarrow> u8 list \<Rightarrow> tlm_status \<times> platform" where
  "data_write p a sz bs =
     (case bus_b_transport (p_bus p) CORE_DATA a sz of
        Forward t l \<Rightarrow>
          if t = 0 then
            (let (st, m) = tlm_memory_write (p_sram p) (tx_range l sz) bs False
             in (st, p\<lparr>p_sram := m\<rparr>))
          else if t = 1 then
            (let (st, m) = tlm_memory_write (p_bram p) (tx_range l sz) bs False
             in (st, p\<lparr>p_bram := m\<rparr>))
          else (TLM_ADDRESS_ERROR, p)
      | LenientOk \<Rightarrow> (TLM_OK, p)
      | AddressError \<Rightarrow> (TLM_ADDRESS_ERROR, p))"

subsection \<open>The SystemC side of one access\<close>

text \<open>
  The body of the loop of \<open>simulate\<close>. After the bus access of a read,
  \<open>memset(memtask.dest, 0x297, 8)\<close> fills the destination with the low byte of \<open>0x297\<close>.
\<close>

definition memset_word :: "int \<Rightarrow> u64" where
  "memset_word c = of_le_bytes (replicate 8 (word_of_int c))"

definition serve_read :: "platform \<Rightarrow> u64 \<Rightarrow> u64 \<Rightarrow> bool \<times> u64" where
  "serve_read p a sz = (fst (data_read p a sz) = TLM_OK, memset_word 0x297)"

definition serve_write :: "platform \<Rightarrow> u64 \<Rightarrow> u64 \<Rightarrow> u64 \<Rightarrow> bool \<times> platform" where
  "serve_write p a sz v =
     (let (st, p') = data_write p a sz (take (unat sz) (le_bytes v)) in (st = TLM_OK, p'))"

subsection \<open>The callbacks\<close>

definition outside_window :: "u64 \<Rightarrow> bool" where
  "outside_window address \<longleftrightarrow>
     (address < 0x80000000 \<and> address > 0x1fff) \<or> (address > 0x8fffffff \<or> address < 0x1000)"

definition vp_write_mem :: "platform \<Rightarrow> u64 \<Rightarrow> int \<Rightarrow> u64 \<Rightarrow> (int \<times> platform) option" where
  "vp_write_mem core address sz val =
     (if outside_window address then Some (0, core)
      else if \<not> sim_started core then Some (0, core)
      else let (res, core') = serve_write core address (word_of_int sz) val
           in Some (if res then 0 else 1, core'))"

definition vp_read_mem :: "platform \<Rightarrow> u64 \<Rightarrow> int \<Rightarrow> u64 \<Rightarrow> (int \<times> u64) option" where
  "vp_read_mem core address sz dest =
     (if outside_window address then Some (0, 0)
      else if \<not> sim_started core then Some (0, dest)
      else let (res, dest') = serve_read core address (word_of_int sz)
           in Some (if res then 0 else 1, dest'))"

definition vp_cbs :: "platform callbacks" where
  "vp_cbs = \<lparr>read_cb = vp_read_mem, write_cb = vp_write_mem\<rparr>"

subsection \<open>Tasks of the Python worker\<close>

datatype funct = Init | SetCb | Simulate | GetCycles | SetPc | ReadPc | FreeCpu

datatype task_arg = Monostate | SizeT u64 | CoreType "string option"

record 'cpu core =
  glue :: "('cpu, platform) glue"
  plat :: platform
  cpu_handle :: nat
  n_cycles :: u32
  stop_worker :: bool

text \<open>A C \<open>int\<close> converted to \<open>uint64_t\<close>.\<close>

definition int_to_u64 :: "u32 \<Rightarrow> u64" where
  "int_to_u64 x = word_of_int (sint x)"

definition put_int :: "int \<Rightarrow> u64" where
  "put_int x = word_of_int x"

text \<open>
  The table of \<open>create_handlers\<close>. \<open>std::get\<close> on the wrong alternative throws inside the
  worker thread, which terminates the process: \<open>None\<close>. The value is what the promise gets.
\<close>

fun handler :: "'cpu engine \<Rightarrow> funct \<Rightarrow> task_arg \<Rightarrow> 'cpu core \<Rightarrow> (u64 \<times> 'cpu core) option" where
  "handler eng Init targ c =
     (case targ of
        CoreType ct \<Rightarrow>
          (let (h, g) = pydrofoil_allocate_cpu eng (glue c) ct None
           in Some (0, c\<lparr>cpu_handle := h, glue := g\<rparr>))
      | _ \<Rightarrow> None)"
| "handler eng SetCb targ c =
     do { (res, g) \<leftarrow> pydrofoil_cpu_set_ram_read_write_callback eng (glue c) (cpu_handle c) vp_cbs;
          Some (put_int res, c\<lparr>glue := g\<rparr>) }"
| "handler eng GetCycles targ c =
     do { n \<leftarrow> pydrofoil_cpu_cycles (glue c) (cpu_handle c);
          let c = c\<lparr>n_cycles := ucast n\<rparr>;
          Some (int_to_u64 (n_cycles c), c) }"
| "handler eng Simulate targ c =
     (case targ of
        SizeT cycles \<Rightarrow>
          do { (_, g, p) \<leftarrow> pydrofoil_cpu_simulate eng (glue c) (plat c) (cpu_handle c) cycles;
               n \<leftarrow> pydrofoil_cpu_cycles g (cpu_handle c);
               Some (0, c\<lparr>glue := g, plat := p, n_cycles := ucast n\<rparr>) }
      | _ \<Rightarrow> None)"
| "handler eng SetPc targ c =
     (case targ of
        SizeT pc_value \<Rightarrow>
          do { (res, g) \<leftarrow> pydrofoil_cpu_set_pc eng (glue c) (cpu_handle c) pc_value;
               Some (if res = 0 then 1 else 0, c\<lparr>glue := g\<rparr>) }
      | _ \<Rightarrow> None)"
| "handler eng ReadPc targ c =
     do { pc_value \<leftarrow> pydrofoil_cpu_pc eng (glue c) (cpu_handle c);
          Some (pc_value, c) }"
| "handler eng FreeCpu targ c =
     (let (_, g) = pydrofoil_free_cpu (glue c) (cpu_handle c) in Some (0, c\<lparr>glue := g\<rparr>))"

subsection \<open>PydrofoilCore\<close>

definition core_construct :: "'cpu engine \<Rightarrow> platform \<Rightarrow> string option \<Rightarrow> 'cpu core option" where
  "core_construct eng p core_type =
     map_option snd (handler eng Init (CoreType core_type)
       \<lparr>glue = glue_init, plat = p, cpu_handle = 0, n_cycles = 0, stop_worker = False\<rparr>)"

text \<open>
  The destructor: with a null CPU pointer nothing stops the worker, and the final \<open>join\<close> does
  not return (\<open>False\<close>).
\<close>

definition core_destruct :: "'cpu engine \<Rightarrow> 'cpu core \<Rightarrow> (bool \<times> 'cpu core) option" where
  "core_destruct eng c =
     (if cpu_handle c \<noteq> 0
      then do { (_, c) \<leftarrow> handler eng FreeCpu Monostate c; Some (True, c\<lparr>stop_worker := True\<rparr>) }
      else Some (stop_worker c, c))"

definition core_end_of_elaboration :: "'cpu engine \<Rightarrow> 'cpu core \<Rightarrow> 'cpu core option" where
  "core_end_of_elaboration eng c = map_option snd (handler eng SetCb Monostate c)"

definition core_simulate :: "'cpu engine \<Rightarrow> u64 \<Rightarrow> 'cpu core \<Rightarrow> 'cpu core option" where
  "core_simulate eng cycles c =
     do { let c = c\<lparr>plat := (plat c)\<lparr>sim_started := True\<rparr>\<rparr>;
          (_, c) \<leftarrow> handler eng Simulate (SizeT cycles) c;
          Some (c\<lparr>plat := (plat c)\<lparr>sim_started := False\<rparr>\<rparr>) }"

definition core_cycle_count :: "'cpu engine \<Rightarrow> 'cpu core \<Rightarrow> (u64 \<times> 'cpu core) option" where
  "core_cycle_count eng c =
     (if sim_started (plat c) then Some (int_to_u64 (n_cycles c), c)
      else handler eng GetCycles Monostate c)"

definition core_write_reg_dbg ::
  "'cpu engine \<Rightarrow> nat \<Rightarrow> u8 list \<Rightarrow> 'cpu core \<Rightarrow> (bool \<times> 'cpu core) option" where
  "core_write_reg_dbg eng reg buf c =
     (if reg = 0 \<and> length buf = 8
      then do { (r, c) \<leftarrow> handler eng SetPc (SizeT (of_le_bytes buf)) c; Some (r \<noteq> 0, c) }
      else Some (False, c))"

definition core_read_reg_dbg ::
  "'cpu engine \<Rightarrow> nat \<Rightarrow> nat \<Rightarrow> 'cpu core \<Rightarrow> (bool \<times> u8 list \<times> 'cpu core) option" where
  "core_read_reg_dbg eng reg len c =
     (if reg = 0 \<and> len = 8
      then do { (r, c) \<leftarrow> handler eng ReadPc Monostate c; Some (True, le_bytes r, c) }
      else Some (False, [], c))"

subsection \<open>The address map in use\<close>

definition sram_mapping :: mapping where
  "sram_mapping = \<lparr>target = 0, source = SOURCE_ANY, addr = ram_range, offset = 0\<rparr>"

definition bram_mapping :: mapping where
  "bram_mapping = \<lparr>target = 1, source = SOURCE_ANY, addr = bram_range, offset = 0\<rparr>"

lemma system_bus_eq: "system_bus = Some (bus_init\<lparr>m_mappings := [bram_mapping, sram_mapping]\<rparr>)"
  by (simp add: system_bus_def bus_map_def bus_init_def mapping_less_def overlaps_def
      sram_mapping_def bram_mapping_def ram_range_def bram_range_def memory_map)

text \<open>Eight bytes that lie in one of the two memories.\<close>

definition in_sram :: "u64 \<Rightarrow> bool" where
  "in_sram a \<longleftrightarrow> SRAM_LO \<le> a \<and> a \<le> SRAM_HI - 7"

definition in_bram :: "u64 \<Rightarrow> bool" where
  "in_bram a \<longleftrightarrow> BOOT_LO \<le> a \<and> a \<le> BOOT_HI - 7"

definition sys_bus :: bus where
  "sys_bus = bus_init\<lparr>m_mappings := [bram_mapping, sram_mapping]\<rparr>"

lemma includes_sram: "includes_range ram_range (tx_range a 8) \<longleftrightarrow> in_sram a"
  by (simp add: includes_range_def includes_addr_def ram_range_def tx_range_def in_sram_def memory_map)
     (uint_arith, auto)

lemma includes_bram: "includes_range bram_range (tx_range a 8) \<longleftrightarrow> in_bram a"
  by (simp add: includes_range_def includes_addr_def bram_range_def tx_range_def in_bram_def memory_map)
     (uint_arith, auto)

lemma route_data:
  "bus_b_transport sys_bus CORE_DATA a 8 =
     (if in_bram a then Forward 1 (a - BOOT_LO)
      else if in_sram a then Forward 0 (a - SRAM_LO) else AddressError)"
  by (simp add: bus_b_transport_def bus_lookup_def sys_bus_def bus_init_def CORE_DATA_def
      SOURCE_ANY_def SIZE_MAX_def TARGET_NONE_def includes_bram includes_sram
      sram_mapping_def bram_mapping_def ram_range_def [symmetric] bram_range_def [symmetric])
     (simp add: ram_range_def bram_range_def)

subsection \<open>Reads and writes over the map\<close>

definition mapped :: "u64 \<Rightarrow> bool" where
  "mapped a \<longleftrightarrow> in_sram a \<or> in_bram a"

definition plain_memory :: "u64 \<Rightarrow> tlm_memory \<Rightarrow> bool" where
  "plain_memory sz m \<longleftrightarrow> tm_size m = sz \<and> tm_read m \<and> tm_write m \<and> \<not> tm_discard m"

definition plat_ok :: "platform \<Rightarrow> bool" where
  "plat_ok p \<longleftrightarrow> p_bus p = sys_bus \<and> plain_memory SRAM_SZ (p_sram p) \<and> plain_memory BOOT_SZ (p_bram p)"

lemma plat_ok_init: "platform_init = Some p \<Longrightarrow> plat_ok p"
  by (auto simp: platform_init_def system_bus_eq sys_bus_def plat_ok_def plain_memory_def
      tlm_memory_init_def range_length_def ram_range_def bram_range_def memory_map)

lemma plain_memory_write:
  "plain_memory sz m \<Longrightarrow> plain_memory sz (snd (tlm_memory_write m r bs dbg))"
  by (auto simp: plain_memory_def tlm_memory_write_def)

lemma plat_ok_write [step_inv]: "plat_ok p \<Longrightarrow> plat_ok (snd (data_write p a sz bs))"
  using plain_memory_write
  by (auto simp: plat_ok_def data_write_def split: bus_route.split prod.split)
     (metis snd_conv)+

lemma range_length_tx: "range_length (tx_range l 8) = 8"
  by (simp add: range_length_def tx_range_def)

lemma sram_local: "in_sram a \<Longrightarrow> (a - SRAM_LO) + 8 - 1 < SRAM_SZ"
  by (simp add: in_sram_def memory_map) uint_arith

lemma bram_local: "in_bram a \<Longrightarrow> (a - BOOT_LO) + 8 - 1 < BOOT_SZ"
  by (simp add: in_bram_def memory_map) uint_arith

lemma in_one: "in_bram a \<Longrightarrow> \<not> in_sram a"
  by (simp add: in_sram_def in_bram_def memory_map) uint_arith

lemma data_read_ok:
  assumes "plat_ok p"
  shows "data_read p a 8 =
    (if in_bram a then (TLM_OK, map (\<lambda>i. tm_data (p_bram p) (a - BOOT_LO + word_of_nat i)) [0..<8])
     else if in_sram a then (TLM_OK, map (\<lambda>i. tm_data (p_sram p) (a - SRAM_LO + word_of_nat i)) [0..<8])
     else (TLM_ADDRESS_ERROR, []))"
  using assms sram_local [of a] bram_local [of a]
  by (auto simp: data_read_def plat_ok_def route_data plain_memory_def tlm_memory_read_def
      range_length_tx) (simp_all add: tx_range_def not_le)

lemma data_write_ok:
  assumes "plat_ok p" and "length bs = 8"
  shows "data_write p a 8 bs =
    (if in_bram a then
       (TLM_OK, p\<lparr>p_bram := (p_bram p)\<lparr>tm_data := mem_put (tm_data (p_bram p)) (a - BOOT_LO) bs\<rparr>\<rparr>)
     else if in_sram a then
       (TLM_OK, p\<lparr>p_sram := (p_sram p)\<lparr>tm_data := mem_put (tm_data (p_sram p)) (a - SRAM_LO) bs\<rparr>\<rparr>)
     else (TLM_ADDRESS_ERROR, p))"
  using assms sram_local [of a] bram_local [of a]
  by (auto simp: data_write_def plat_ok_def route_data plain_memory_def tlm_memory_write_def
      range_length_tx) (simp_all add: tx_range_def not_le)

subsection \<open>Properties\<close>

lemma mapped_in_window: "mapped a \<Longrightarrow> \<not> outside_window a"
  by (simp add: mapped_def in_sram_def in_bram_def outside_window_def memory_map) uint_arith

lemma memset_0x297: "memset_word 0x297 = 0x9797979797979797"
proof -
  have "replicate 8 x = [x, x, x, x, x, x, x, x]" for x :: u8 by (simp add: numeral_eq_Suc)
  then show ?thesis by (simp add: memset_word_def)
qed

text \<open>
  C6. While the simulation runs, a CPU read of mapped memory succeeds and returns
  \<open>0x9797979797979797\<close>, whatever the memory holds: the \<open>memset\<close> after the bus access
  overwrites all eight bytes that were read.
\<close>

theorem vp_read_constant:
  assumes "plat_ok p" and "sim_started p" and "mapped a"
  shows "vp_read_mem p a 8 d = Some (0, 0x9797979797979797)"
  using assms mapped_in_window [OF assms(3)]
  by (auto simp: vp_read_mem_def serve_read_def data_read_ok mapped_def memset_0x297)

lemma platform_init_Some: "\<exists>p. platform_init = Some p"
  by (simp add: platform_init_def system_bus_eq)

theorem vp_read_constant_witness:
  "\<exists>p. plat_ok p \<and> vp_read_mem p 0x80000000 8 5 = Some (0, 0x9797979797979797)"
proof -
  obtain p where p: "platform_init = Some p" using platform_init_Some by blast
  let ?p = "p\<lparr>sim_started := True\<rparr>"
  have "plat_ok ?p" using plat_ok_init [OF p] by (simp add: plat_ok_def)
  moreover have "mapped 0x80000000" by (simp add: mapped_def in_sram_def memory_map)
  ultimately show ?thesis using vp_read_constant [of ?p "0x80000000" 5] by auto
qed

lemma mem_put_other:
  assumes "length bs = 8" and "\<forall>i < (8::nat). \<forall>j < (8::nat). b + word_of_nat i \<noteq> a + (word_of_nat j :: u64)"
  shows "map (\<lambda>i. mem_put f a bs (b + word_of_nat i)) [0..<8] = map (\<lambda>i. f (b + word_of_nat i)) [0..<8]"
proof (rule map_cong [OF refl])
  fix i assume "i \<in> set [0..<(8::nat)]"
  then have i: "i < 8" by simp
  have "\<not> unat (b + word_of_nat i - a) < 8"
  proof
    assume u: "unat (b + word_of_nat i - a) < 8"
    have "b + word_of_nat i = a + word_of_nat (unat (b + word_of_nat i - a))" by simp
    with assms(2) i u show False by blast
  qed
  with assms(1) show "mem_put f a bs (b + word_of_nat i) = f (b + word_of_nat i)"
    by (simp add: mem_put_def)
qed

text \<open>Byte ranges of two accesses that do not meet.\<close>

definition disjoint8 :: "u64 \<Rightarrow> u64 \<Rightarrow> bool" where
  "disjoint8 a b \<longleftrightarrow> unat a + 8 \<le> unat b \<or> unat b + 8 \<le> unat a"

lemma disjoint8_bytes:
  assumes "disjoint8 a b" and "unat lo \<le> unat a" and "unat lo \<le> unat b"
    and "unat a + 8 < 2 ^ 64" and "unat b + 8 < 2 ^ 64" and "i < (8::nat)" and "j < (8::nat)"
  shows "(b - lo) + word_of_nat i \<noteq> (a - lo) + (word_of_nat j :: u64)"
proof
  assume "(b - lo) + word_of_nat i = (a - lo) + (word_of_nat j :: u64)"
  then have "b + word_of_nat i = a + (word_of_nat j :: u64)" by simp
  then have "unat (b + word_of_nat i) = unat (a + (word_of_nat j :: u64))" by simp
  moreover have "unat (b + word_of_nat i) = unat b + i"
    using assms(5,6) by (simp add: unat_word_ariths unat_of_nat)
  moreover have "unat (a + word_of_nat j) = unat a + j"
    using assms(4,7) by (simp add: unat_word_ariths unat_of_nat)
  ultimately show False using assms(1,6,7) by (auto simp: disjoint8_def)
qed

lemma sram_unat: "in_sram a \<Longrightarrow> unat SRAM_LO \<le> unat a \<and> unat a + 8 < 2 ^ 64"
  by (simp add: in_sram_def memory_map) unat_arith

lemma bram_unat: "in_bram a \<Longrightarrow> unat BOOT_LO \<le> unat a \<and> unat a + 8 < 2 ^ 64"
  by (simp add: in_bram_def memory_map) unat_arith

lemma data_read_after_write:
  assumes "plat_ok p" and "mapped a" and "length bs = 8" and "data_write p a 8 bs = (TLM_OK, p')"
  shows "data_read p' a 8 = (TLM_OK, bs)"
    and "disjoint8 a b \<Longrightarrow> data_read p' b 8 = data_read p b 8"
proof -
  have ok': "plat_ok p'" using plat_ok_write [OF assms(1), of a 8 bs] assms(4) by simp
  note w = data_write_ok [OF assms(1,3), of a]
  show "data_read p' a 8 = (TLM_OK, bs)"
    using w assms(2-4) mem_put_get [of bs] in_one [of a]
    by (auto simp: data_read_ok [OF ok'] mapped_def split: if_splits)
  assume d: "disjoint8 a b"
  show "data_read p' b 8 = data_read p b 8"
  proof (cases "in_bram a")
    case True
    then have p': "p' = p\<lparr>p_bram := (p_bram p)\<lparr>tm_data := mem_put (tm_data (p_bram p)) (a - BOOT_LO) bs\<rparr>\<rparr>"
      using w assms(4) by simp
    have "in_bram b \<Longrightarrow> \<forall>i < (8::nat). \<forall>j < (8::nat).
        (b - BOOT_LO) + word_of_nat i \<noteq> (a - BOOT_LO) + word_of_nat j"
      using disjoint8_bytes [OF d] bram_unat [OF True] bram_unat [of b] by blast
    from mem_put_other [OF assms(3) this] show ?thesis
      unfolding data_read_ok [OF ok'] data_read_ok [OF assms(1)] by (simp add: p')
  next
    case False
    then have a: "in_sram a" using assms(2) by (simp add: mapped_def)
    then have p': "p' = p\<lparr>p_sram := (p_sram p)\<lparr>tm_data := mem_put (tm_data (p_sram p)) (a - SRAM_LO) bs\<rparr>\<rparr>"
      using w assms(4) False by simp
    have "in_sram b \<Longrightarrow> \<forall>i < (8::nat). \<forall>j < (8::nat).
        (b - SRAM_LO) + word_of_nat i \<noteq> (a - SRAM_LO) + word_of_nat j"
      using disjoint8_bytes [OF d] sram_unat [OF a] sram_unat [of b] by blast
    from mem_put_other [OF assms(3) this] show ?thesis
      unfolding data_read_ok [OF ok'] data_read_ok [OF assms(1)] by (simp add: p')
  qed
qed

text \<open>
  C7. While the simulation runs, a CPU write of mapped memory succeeds, and on the bus its eight
  bytes can be read back, least significant first; no access to other bytes changes.
\<close>

theorem vp_write_lands:
  assumes "plat_ok p" and "sim_started p" and "mapped a"
  shows "\<exists>p'. vp_write_mem p a 8 v = Some (0, p') \<and> plat_ok p' \<and>
    data_read p' a 8 = (TLM_OK, le_bytes v) \<and>
    (\<forall>b. disjoint8 a b \<longrightarrow> data_read p' b 8 = data_read p b 8)"
proof -
  have len: "length (le_bytes v) = 8" by simp
  have "\<exists>p'. data_write p a 8 (le_bytes v) = (TLM_OK, p')"
    using assms(3) unfolding data_write_ok [OF assms(1) len] mapped_def by (cases "in_bram a") auto
  then obtain p' where p': "data_write p a 8 (le_bytes v) = (TLM_OK, p')" ..
  have "vp_write_mem p a 8 v = Some (0, p')"
    using assms(2) mapped_in_window [OF assms(3)] p' by (simp add: vp_write_mem_def serve_write_def)
  moreover have "plat_ok p'" using plat_ok_write [OF assms(1), of a 8 "le_bytes v"] p' by simp
  ultimately show ?thesis
    using data_read_after_write [OF assms(1,3) len p'] by blast
qed

theorem vp_write_lands_witness:
  "\<exists>p p'. vp_write_mem p 0x1008 8 3 = Some (0, p') \<and> data_read p' 0x1008 8 = (TLM_OK, le_bytes 3)"
proof -
  obtain p where p: "platform_init = Some p" using platform_init_Some by blast
  let ?p = "p\<lparr>sim_started := True\<rparr>"
  have "plat_ok ?p" using plat_ok_init [OF p] by (simp add: plat_ok_def)
  moreover have "mapped 0x1008" by (simp add: mapped_def in_bram_def memory_map)
  ultimately show ?thesis using vp_write_lands [of ?p "0x1008" 3] by auto
qed

text \<open>
  The address filter of the callbacks lets through addresses up to \<open>0x8fffffff\<close>, but the
  bus only knows 256 KiB of SRAM from \<open>0x80000000\<close>: an access that passes the filter and hits no
  memory fails the glue's assertion, so the step raises, and nothing is written.
\<close>

theorem window_without_memory:
  assumes "plat_ok p" and "sim_started p" and "0 \<le> w" "w < 2 ^ 61"
    and "\<not> outside_window (word_of_int (push_bit 3 w))" and "\<not> mapped (word_of_int (push_bit 3 w))"
    and "fits_u64 v"
  shows "fst (the (pyread vp_cbs cell p w)) = Inl AssertionError \<and>
    pywrite vp_cbs p w v = Some (Inl AssertionError, p)"
proof -
  have "fits_u64 (push_bit 3 w)" using assms(3,4) by (simp add: fits_u64_def push_bit_eq_mult)
  then show ?thesis
    using assms by (simp add: pyread_def pywrite_def vp_cbs_def vp_read_mem_def vp_write_mem_def
        serve_read_def serve_write_def data_read_ok data_write_ok mapped_def)
qed

theorem window_without_memory_witness:
  "\<exists>p. plat_ok p \<and> pywrite vp_cbs p 0x10008000 7 = Some (Inl AssertionError, p)"
proof -
  obtain p where p: "platform_init = Some p" using platform_init_Some by blast
  let ?p = "p\<lparr>sim_started := True\<rparr>"
  have "plat_ok ?p" using plat_ok_init [OF p] by (simp add: plat_ok_def)
  then show ?thesis
    using window_without_memory [of ?p "0x10008000" 7 0]
    by (auto simp: push_bit_eq_mult outside_window_def mapped_def in_sram_def in_bram_def memory_map
        fits_u64_def)
qed

text \<open>
  C8. \<open>cycle_count\<close> keeps the count in a C \<open>int\<close>: between simulations it returns the number of
  steps exactly as long as this is below \<open>2 ^ 31\<close>; at \<open>2 ^ 32\<close> steps it is back at 0.
\<close>

theorem cycle_count_exact_iff:
  assumes "from_handle (glue c) (cpu_handle c) = Some ob" and "\<not> sim_started (plat c)"
    and "steps ob < 2 ^ 63"
  shows "\<exists>n c'. core_cycle_count eng c = Some (n, c') \<and> (unat n = steps ob \<longleftrightarrow> steps ob < 2 ^ 31) \<and>
    (steps ob = 2 ^ 32 \<longrightarrow> n = 0)"
proof -
  let ?s = "int (steps ob)"
  let ?m = "ucast (word_of_int ?s :: u64) :: u32"
  have run: "core_cycle_count eng c = Some (int_to_u64 ?m, c\<lparr>n_cycles := ?m\<rparr>)"
    using assms by (simp add: core_cycle_count_def pydrofoil_cpu_cycles_def ret_u64_def fits_u64_def)
  have u: "uint (word_of_int ?s :: u64) = ?s"
    unfolding uint_word_of_int using assms(3) by simp
  have "uint ?m = ?s mod 2 ^ 32"
    by (simp only: unsigned_ucast_eq u take_bit_eq_mod) simp
  then have "sint ?m = (?s mod 2 ^ 32 + 2 ^ 31) mod 2 ^ 32 - 2 ^ 31"
    by (simp add: sint_uint signed_take_bit_eq_take_bit_shift take_bit_eq_mod)
  then have sext: "uint (int_to_u64 ?m) = ((?s mod 2 ^ 32 + 2 ^ 31) mod 2 ^ 32 - 2 ^ 31) mod 2 ^ 64"
    unfolding int_to_u64_def uint_word_of_int by simp
  have "uint (int_to_u64 ?m) = ?s \<longleftrightarrow> ?s < 2 ^ 31"
  proof (cases "?s < 2 ^ 31")
    case True
    then show ?thesis unfolding sext by simp
  next
    case False
    define r where "r = (?s mod 2 ^ 32 + 2 ^ 31) mod 2 ^ 32 - 2 ^ 31"
    have r: "- (2 ^ 31) \<le> r" "r < 2 ^ 31" by (simp_all add: r_def)
    have "r mod 2 ^ 64 < 2 ^ 31 \<or> r mod 2 ^ 64 \<ge> 2 ^ 63"
    proof (cases "0 \<le> r")
      case True
      then have "r mod 2 ^ 64 = r" using r by (intro mod_pos_pos_trivial) auto
      with r show ?thesis by simp
    next
      case neg: False
      have "r mod 2 ^ 64 = (r + 2 ^ 64) mod 2 ^ 64" by simp
      also have "\<dots> = r + 2 ^ 64" using r neg by (intro mod_pos_pos_trivial) auto
      finally show ?thesis using r by simp
    qed
    then show ?thesis using False assms(3) unfolding sext r_def by auto
  qed
  moreover have "uint (int_to_u64 ?m) = ?s \<longleftrightarrow> unat (int_to_u64 ?m) = steps ob"
    by (metis nat_int uint_nat)
  moreover have "int_to_u64 ?m = 0" if "steps ob = 2 ^ 32"
    using that sext by (simp add: uint_0_iff)
  ultimately show ?thesis using run by auto
qed

theorem cycle_count_exact_iff_witness:
  "\<exists>n c'. core_cycle_count toy_engine \<lparr>glue = \<lparr>all_cpu_handles = [1], objects = [1 \<mapsto> \<lparr>rv64 = True,
      arg = None, cbs = None, mem_cell = 0, cpu = 0, steps = 2 ^ 31\<rparr>], fresh_handle = 2\<rparr>,
      plat = the platform_init, cpu_handle = 1, n_cycles = 0, stop_worker = False\<rparr> = Some (n, c') \<and>
      unat n \<noteq> 2 ^ 31"
  (is "\<exists>n c'. core_cycle_count toy_engine ?c = _ \<and> _")
proof -
  obtain p where p: "platform_init = Some p" using platform_init_Some by blast
  then have "\<not> sim_started (plat ?c)" by (auto simp: platform_init_def system_bus_eq)
  from cycle_count_exact_iff [OF _ this, of _ toy_engine] show ?thesis
    by (auto simp: from_handle_def)
qed

end
