(* ===== verification/SqlUtf.thy ===== *)
theory SqlUtf
  imports Prelude
begin

section \<open>Text encodings of the bundled SQLite (utf.c)\<close>

text \<open>
  UTF-8, UTF-16LE and UTF-16BE as \<open>utf.c\<close> of the SQLite amalgamation under
  \<open>src/sysc_vp/deps/systemc/src/inscight/sqlite\<close> reads and writes them. A buffer is the list of
  its bytes; a read pointer is the list of the bytes from it on, so reading up to \<open>zTerm\<close> stops
  at the end of the list, and a read that relies on a terminating zero is \<open>None\<close> where none comes.
  The macros \<open>READ_UTF8\<close> and \<open>WRITE_UTF*\<close> are functions; \<open>SQLITE_REPLACE_INVALID_UTF\<close> is off, as in
  the build here.
\<close>

subsection \<open>The character macros\<close>

definition sqlite3Utf8Trans1 :: "u8 list" where
  "sqlite3Utf8Trans1 =
    [0x00, 0x01, 0x02, 0x03, 0x04, 0x05, 0x06, 0x07,
     0x08, 0x09, 0x0a, 0x0b, 0x0c, 0x0d, 0x0e, 0x0f,
     0x10, 0x11, 0x12, 0x13, 0x14, 0x15, 0x16, 0x17,
     0x18, 0x19, 0x1a, 0x1b, 0x1c, 0x1d, 0x1e, 0x1f,
     0x00, 0x01, 0x02, 0x03, 0x04, 0x05, 0x06, 0x07,
     0x08, 0x09, 0x0a, 0x0b, 0x0c, 0x0d, 0x0e, 0x0f,
     0x00, 0x01, 0x02, 0x03, 0x04, 0x05, 0x06, 0x07,
     0x00, 0x01, 0x02, 0x03, 0x00, 0x01, 0x00, 0x00]"

definition WRITE_UTF8 :: "u32 \<Rightarrow> u8 list" where
  "WRITE_UTF8 c =
     (if c < 0x80 then [ucast (c AND 0xFF)]
      else if c < 0x800 then
        [0xC0 + ucast (drop_bit 6 c AND 0x1F), 0x80 + ucast (c AND 0x3F)]
      else if c < 0x10000 then
        [0xE0 + ucast (drop_bit 12 c AND 0x0F), 0x80 + ucast (drop_bit 6 c AND 0x3F),
         0x80 + ucast (c AND 0x3F)]
      else
        [0xF0 + ucast (drop_bit 18 c AND 0x07), 0x80 + ucast (drop_bit 12 c AND 0x3F),
         0x80 + ucast (drop_bit 6 c AND 0x3F), 0x80 + ucast (c AND 0x3F)])"

definition WRITE_UTF16LE :: "u32 \<Rightarrow> u8 list" where
  "WRITE_UTF16LE c =
     (if c \<le> 0xFFFF then [ucast (c AND 0xFF), ucast (drop_bit 8 c AND 0xFF)]
      else
        [ucast ((drop_bit 10 c AND 0x3F) + (drop_bit 10 (c - 0x10000) AND 0xC0)),
         ucast (0xD8 + (drop_bit 18 (c - 0x10000) AND 0x03)),
         ucast (c AND 0xFF),
         ucast (0xDC + (drop_bit 8 c AND 0x03))])"

definition WRITE_UTF16BE :: "u32 \<Rightarrow> u8 list" where
  "WRITE_UTF16BE c =
     (if c \<le> 0xFFFF then [ucast (drop_bit 8 c AND 0xFF), ucast (c AND 0xFF)]
      else
        [ucast (0xD8 + (drop_bit 18 (c - 0x10000) AND 0x03)),
         ucast ((drop_bit 10 c AND 0x3F) + (drop_bit 10 (c - 0x10000) AND 0xC0)),
         ucast (0xDC + (drop_bit 8 c AND 0x03)),
         ucast (c AND 0xFF)])"

text \<open>The continuation bytes, and the values that are not let through.\<close>

definition is_cont :: "u8 \<Rightarrow> bool" where
  "is_cont b \<longleftrightarrow> b AND 0xC0 = 0x80"

fun read_conts :: "u32 \<Rightarrow> u8 list \<Rightarrow> u32 \<times> u8 list" where
  "read_conts c [] = (c, [])"
| "read_conts c (b # z) =
     (if is_cont b then read_conts (push_bit 6 c + (0x3F AND ucast b)) z else (c, b # z))"

definition replace_bad :: "u32 \<Rightarrow> u32" where
  "replace_bad c =
     (if c < 0x80 \<or> c AND 0xFFFFF800 = 0xD800 \<or> c AND 0xFFFFFFFE = 0xFFFE then 0xFFFD else c)"

definition utf8_lead :: "u8 \<Rightarrow> u32" where
  "utf8_lead b = ucast (sqlite3Utf8Trans1 ! unat (b - 0xC0))"

fun READ_UTF8 :: "u8 list \<Rightarrow> u32 \<times> u8 list" where
  "READ_UTF8 [] = (0, [])"
| "READ_UTF8 (b # z) =
     (if 0xC0 \<le> b
      then let (c, z) = read_conts (utf8_lead b) z
           in (replace_bad c, z)
      else (ucast b, z))"

text \<open>The same without \<open>zTerm\<close>: the loop has to meet a byte that is no continuation.\<close>

definition sqlite3Utf8Read :: "u8 list \<Rightarrow> (u32 \<times> u8 list) option" where
  "sqlite3Utf8Read z =
     (case z of
        [] \<Rightarrow> None
      | b # z' \<Rightarrow> if 0xC0 \<le> b \<and> (\<forall>x\<in>set z'. is_cont x) then None else Some (READ_UTF8 z))"

subsection \<open>Conversion of a value (sqlite3VdbeMemTranslate)\<close>

datatype enc = SQLITE_UTF8 | SQLITE_UTF16LE | SQLITE_UTF16BE

text \<open>
  The fields of \<open>Mem\<close> the conversion uses: the buffer, of which \<open>n\<close> bytes are the text, and the
  flags. \<open>sqlite3VdbeMemMakeWriteable\<close> and the allocator are code elsewhere; both either work or
  report that there is no memory, which is the parameter \<open>heap_ok\<close>.
\<close>

record smem =
  z_buf :: "u8 list"
  n_bytes :: nat
  enc_of :: enc
  mflags :: u16

datatype sql_rc = SQLITE_OK | SQLITE_NOMEM | SQLITE_ERROR | SQLITE_FULL | SQLITE_IOERR_SHORT_READ

definition MEM_Str :: u16 where "MEM_Str = 0x0002"
definition MEM_AffMask :: u16 where "MEM_AffMask = 0x003f"
definition MEM_Term :: u16 where "MEM_Term = 0x0200"
definition MEM_Subtype :: u16 where "MEM_Subtype = 0x8000"

fun swap_bytes :: "u8 list \<Rightarrow> u8 list" where
  "swap_bytes (a # b # z) = b # a # swap_bytes z"
| "swap_bytes z = z"

lemma read_conts_length: "length (snd (read_conts c z)) \<le> length z"
  by (induction c z rule: read_conts.induct) auto

lemma READ_UTF8_length: "z \<noteq> [] \<Longrightarrow> length (snd (READ_UTF8 z)) < length z"
  using read_conts_length by (cases z) (auto simp: less_Suc_eq_le split: prod.splits intro: order_trans
    dest!: arg_cong [where f = snd])

text \<open>The four loops over the text. The first two differ in the macro that writes.\<close>

function utf8_to_16 :: "(u32 \<Rightarrow> u8 list) \<Rightarrow> u8 list \<Rightarrow> u8 list" where
  "utf8_to_16 write z =
     (if z = [] then []
      else let (c, z') = READ_UTF8 z in write c @ utf8_to_16 write z')"
  by auto
termination
  by (relation "measure (\<lambda>(w, z). length z)") (auto dest!: arg_cong [where f = snd] simp: READ_UTF8_length)

declare utf8_to_16.simps [simp del]

definition join_surrogates :: "u32 \<Rightarrow> u32 \<Rightarrow> u32" where
  "join_surrogates c c2 =
     (c2 AND 0x03FF) + push_bit 10 (c AND 0x003F) + push_bit 10 ((c AND 0x03C0) + 0x0040)"

definition is_surrogate :: "u32 \<Rightarrow> bool" where
  "is_surrogate c \<longleftrightarrow> 0xD800 \<le> c \<and> c < 0xE000"

definition unit_le :: "u8 \<Rightarrow> u8 \<Rightarrow> u32" where
  "unit_le a b = ucast a + push_bit 8 (ucast b)"

definition unit_be :: "u8 \<Rightarrow> u8 \<Rightarrow> u32" where
  "unit_be a b = push_bit 8 (ucast a) + ucast b"

fun utf16_to_8 :: "(u8 \<Rightarrow> u8 \<Rightarrow> u32) \<Rightarrow> u8 list \<Rightarrow> u8 list" where
  "utf16_to_8 unit (a # b # z) =
     (let c = unit a b in
      if is_surrogate c
      then (case z of
              a2 # b2 # z' \<Rightarrow> WRITE_UTF8 (join_surrogates c (unit a2 b2)) @ utf16_to_8 unit z'
            | _ \<Rightarrow> WRITE_UTF8 c)
      else WRITE_UTF8 c @ utf16_to_8 unit z)"
| "utf16_to_8 unit z = []"

text \<open>
  \<open>len\<close> is the size asked of the allocator. The result carries it, so that the final assertion
  of the function can be stated.
\<close>

definition out_len :: "smem \<Rightarrow> enc \<Rightarrow> nat" where
  "out_len m desired =
     (if desired = SQLITE_UTF8 then 2 * (n_bytes m - n_bytes m mod 2) + 1 else 2 * n_bytes m + 2)"

definition sqlite3VdbeMemTranslate :: "bool \<Rightarrow> smem \<Rightarrow> enc \<Rightarrow> sql_rc \<times> smem" where
  "sqlite3VdbeMemTranslate heap_ok m desired =
     (let text = take (n_bytes m) (z_buf m); even = n_bytes m - n_bytes m mod 2 in
      if enc_of m \<noteq> SQLITE_UTF8 \<and> desired \<noteq> SQLITE_UTF8 then
        (if heap_ok
         then (SQLITE_OK, m\<lparr>z_buf := swap_bytes (take even text) @ drop even (z_buf m),
                            enc_of := desired\<rparr>)
         else (SQLITE_NOMEM, m))
      else
        let m = (if desired = SQLITE_UTF8 then m\<lparr>n_bytes := even\<rparr> else m) in
        if \<not> heap_ok then (SQLITE_NOMEM, m)
        else
          let text = take (n_bytes m) (z_buf m);
              out = (if enc_of m = SQLITE_UTF8
                     then utf8_to_16 (if desired = SQLITE_UTF16LE then WRITE_UTF16LE else WRITE_UTF16BE) text
                     else utf16_to_8 (if enc_of m = SQLITE_UTF16LE then unit_le else unit_be) text)
          in (SQLITE_OK,
              \<lparr>z_buf = out @ (if enc_of m = SQLITE_UTF8 then [0, 0] else [0]), n_bytes = length out,
               enc_of = desired,
               mflags = MEM_Str OR MEM_Term OR (mflags m AND (MEM_AffMask OR MEM_Subtype))\<rparr>))"

subsection \<open>The macros over the numbers they encode\<close>

lemma middle_masks: "(0xC0 :: 'w::len word) = push_bit 6 (mask 2)" "(0x3C0 :: 'w::len word) = push_bit 6 (mask 4)"
  by (simp_all add: mask_eq_exp_minus_1 push_bit_eq_mult)

lemma is_cont_iff: "is_cont b \<longleftrightarrow> unat b div 64 = 2"
proof -
  have "unat (b AND 0xC0) = unat b div 64 mod 4 * 64"
    unfolding middle_masks by (subst unat_and_shifted) simp_all
  moreover have "unat b div 64 < 4" using byte_less [of b] by (simp add: div_less_iff_less_mult)
  ultimately show ?thesis
    unfolding is_cont_def word_unat_eq_iff by simp
qed
lemma unat_middle:
  fixes c :: u32
  shows "unat (c AND 0xC0) = unat c div 64 mod 4 * 64" "unat (c AND 0x3C0) = unat c div 64 mod 16 * 64"
  unfolding middle_masks by (subst unat_and_shifted, simp_all)+
lemma unat_low:
  fixes c :: u32
  shows "unat (c AND 0x3F) = unat c mod 64" "unat (c AND 0x1F) = unat c mod 32"
    "unat (c AND 0x0F) = unat c mod 16" "unat (c AND 0x07) = unat c mod 8"
    "unat (c AND 0x03) = unat c mod 4" "unat (c AND 0xFF) = unat c mod 256" "unat (c AND 0x3FF) = unat c mod 1024"
  by (simp_all only: low_masks [THEN and_low_mask]) simp_all

lemma cont_byte: "unat (0x80 + ucast (drop_bit k (c::u32) AND 0x3F) :: u8) = 128 + unat c div 2 ^ k mod 64"
  by (simp add: unat_word_ariths unat_ucast8 unat_low unat_drop)

lemma conts_step:
  assumes "unat (c::u32) < 2 ^ 26"
  shows "unat (push_bit 6 c + (0x3F AND ucast (b::u8))) = unat c * 64 + unat b mod 64"
proof -
  have 1: "unat (push_bit 6 c) = unat c * 64"
    using assms unat_push [of c 6] by simp
  have 2: "unat (0x3F AND (ucast b :: u32)) = unat b mod 64"
    by (subst and.commute, simp add: unat_low unat_ucast8)
  have 3: "unat b mod 64 < 64" by simp
  show ?thesis
    unfolding unat_word_ariths 1 2 using assms 3 by simp
qed
lemma lead_table: "list_all (\<lambda>n. unat (utf8_lead (word_of_nat n)) =
   (if n < 224 then n - 192 else if n < 240 then n - 224 else n - 240)) [192..<248]"
  by code_simp

lemma lead_value:
  assumes "192 \<le> unat b" "unat b < 248"
  shows "unat (utf8_lead b) =
   (if unat b < 224 then unat b - 192 else if unat b < 240 then unat b - 224 else unat b - 240)"
proof -
  have "\<forall>n\<in>{192..<248}. unat (utf8_lead (word_of_nat n)) =
   (if n < 224 then n - 192 else if n < 240 then n - 224 else n - 240)"
    using lead_table by (simp only: list_all_iff set_upt)
  from bspec [OF this, of "unat b"] assms show ?thesis by simp
qed

definition at_char_start :: "u8 list \<Rightarrow> bool" where
  "at_char_start z \<longleftrightarrow> z = [] \<or> \<not> is_cont (hd z)"

lemma read_conts_stop: "at_char_start z \<Longrightarrow> read_conts c z = (c, z)"
  by (cases z) (auto simp: at_char_start_def)

lemma ge_C0: "0xC0 \<le> (b::u8) \<longleftrightarrow> 192 \<le> unat b"
  by (simp add: word_le_nat_alt)

lemma write_bytes:
  fixes c :: u32
  shows "unat (0xC0 + ucast (drop_bit 6 c AND 0x1F) :: u8) = 192 + unat c div 64 mod 32"
    "unat (0xE0 + ucast (drop_bit 12 c AND 0x0F) :: u8) = 224 + unat c div 4096 mod 16"
    "unat (0xF0 + ucast (drop_bit 18 c AND 0x07) :: u8) = 240 + unat c div 262144 mod 8"
  by (simp_all add: unat_word_ariths unat_ucast8 unat_low unat_drop)

lemma cont_mod: "(128 + n mod 64) mod 64 = n mod (64::nat)"
  using mod_mult_self1 [of "n mod 64" 2 64] by (simp add: add.commute)

lemma cont_bytes:
  fixes c :: u32
  shows "unat (0x80 + ucast (c AND 0x3F) :: u8) = 128 + unat c mod 64"
    "unat (0x80 + ucast (drop_bit 6 c AND 0x3F) :: u8) = 128 + unat c div 64 mod 64"
    "unat (0x80 + ucast (drop_bit 12 c AND 0x3F) :: u8) = 128 + unat c div 4096 mod 64"
  using cont_byte [of 0 c] cont_byte [of 6 c] cont_byte [of 12 c] by simp_all

lemma conts_unat:
  assumes "unat c < 2 ^ 26" "unat b = 128 + x" "x < 64"
  shows "read_conts c (b # z) = read_conts (word_of_nat (unat c * 64 + x)) z"
proof -
  have "unat (push_bit 6 c + (0x3F AND ucast b)) = unat c * 64 + x"
    using assms cont_mod [of x] by (subst conts_step) simp_all
  then have "push_bit 6 c + (0x3F AND ucast b) = word_of_nat (unat c * 64 + x)"
    by (metis word_nat_back)
  moreover have "(128 + x) div 64 = 2"
    using div_mult_self1 [of 64 x 2] assms(3) by (simp add: add.commute)
  ultimately show ?thesis
    using assms(2) by (simp only: read_conts.simps is_cont_iff if_True simp_thms)
qed

lemma unat_small: "n < 2 ^ 32 \<Longrightarrow> unat (word_of_nat n :: u32) = n"
  by (simp add: unat_of_nat)

lemma read_2:
  assumes "unat b0 = 192 + a" "a < 32" "unat b1 = 128 + x" "x < 64" "at_char_start z"
  shows "READ_UTF8 (b0 # b1 # z) = (replace_bad (word_of_nat (a * 64 + x)), z)"
proof -
  have "unat (utf8_lead b0) = a" using assms by (subst lead_value) simp_all
  moreover from this have "unat (utf8_lead b0) < 2 ^ 26" using assms by simp
  note c = conts_unat [OF this assms(3,4)]
  ultimately show ?thesis
    using assms by (simp add: ge_C0 c read_conts_stop del: read_conts.simps)
qed

lemma read_3:
  assumes "unat b0 = 224 + a" "a < 16" "unat b1 = 128 + x" "x < 64" "unat b2 = 128 + y" "y < 64"
    "at_char_start z"
  shows "READ_UTF8 (b0 # b1 # b2 # z) = (replace_bad (word_of_nat ((a * 64 + x) * 64 + y)), z)"
proof -
  have a: "unat (utf8_lead b0) = a" using assms by (subst lead_value) simp_all
  have "unat (utf8_lead b0) < 2 ^ 26" using assms a by simp
  note c = conts_unat [OF this assms(3,4)]
  have n: "unat (word_of_nat (a * 64 + x) :: u32) = a * 64 + x" using assms by (intro unat_small) simp
  have "unat (word_of_nat (a * 64 + x) :: u32) < 2 ^ 26" using assms n by simp
  note d = conts_unat [OF this assms(5,6)]
  show ?thesis
    using assms by (simp only: READ_UTF8.simps c a d n) (simp add: ge_C0 read_conts_stop del: read_conts.simps)
qed

lemma read_4:
  assumes "unat b0 = 240 + a" "a < 8" "unat b1 = 128 + x" "x < 64" "unat b2 = 128 + y" "y < 64"
    "unat b3 = 128 + w" "w < 64" "at_char_start z"
  shows "READ_UTF8 (b0 # b1 # b2 # b3 # z) = (replace_bad (word_of_nat (((a * 64 + x) * 64 + y) * 64 + w)), z)"
proof -
  have a: "unat (utf8_lead b0) = a" using assms by (subst lead_value) simp_all
  have "unat (utf8_lead b0) < 2 ^ 26" using assms a by simp
  note c = conts_unat [OF this assms(3,4)]
  have n: "unat (word_of_nat (a * 64 + x) :: u32) = a * 64 + x" using assms by (intro unat_small) simp
  have "unat (word_of_nat (a * 64 + x) :: u32) < 2 ^ 26" using assms n by simp
  note d = conts_unat [OF this assms(5,6)]
  have m: "unat (word_of_nat ((a * 64 + x) * 64 + y) :: u32) = (a * 64 + x) * 64 + y"
    using assms by (intro unat_small) simp
  have "unat (word_of_nat ((a * 64 + x) * 64 + y) :: u32) < 2 ^ 26" using assms m by simp
  note e = conts_unat [OF this assms(7,8)]
  show ?thesis
    using assms by (simp only: READ_UTF8.simps c a d n e m) (simp add: ge_C0 read_conts_stop del: read_conts.simps)
qed

lemma div_mod_back: "n div 64 * 64 + n mod 64 = (n::nat)"
  by (rule div_mult_mod_eq)

lemma READ_WRITE_UTF8:
  assumes "c < 0x110000" and z: "at_char_start z"
  shows "READ_UTF8 (WRITE_UTF8 c @ z) = (if c < 0x80 then c else replace_bad c, z)"
proof -
  let ?v = "unat c"
  from assms(1) have v: "?v < 0x110000" by (simp add: word_less_nat_alt)
  have lt: "c < 0x80 \<longleftrightarrow> ?v < 128" "c < 0x800 \<longleftrightarrow> ?v < 2048" "c < 0x10000 \<longleftrightarrow> ?v < 65536"
    by (simp_all add: word_less_nat_alt)
  have d: "?v div 4096 = ?v div 64 div 64" "?v div 262144 = ?v div 64 div 64 div 64"
    by (simp_all add: div_mult2_eq [symmetric])
  consider "?v < 128" | "128 \<le> ?v" "?v < 2048" | "2048 \<le> ?v" "?v < 65536" | "65536 \<le> ?v"
    by linarith
  then show ?thesis
  proof cases
    case 1
    then have "unat (ucast (c AND 0xFF) :: u8) = ?v"
      by (simp add: unat_ucast8 unat_low)
    with 1 show ?thesis
      by (simp add: WRITE_UTF8_def lt ge_C0) (metis unat_ucast8(2) word_unat_eq_iff)
  next
    case 2
    then have "?v div 64 < 32" by (simp add: div_less_iff_less_mult)
    with 2 show ?thesis
      by (simp add: WRITE_UTF8_def lt z del: READ_UTF8.simps add: read_2 [OF _ _ cont_bytes(1)] write_bytes)
  next
    case 3
    then have a: "?v div 4096 < 16" by (simp add: div_less_iff_less_mult)
    have n: "\<not> ?v < 128" using 3 by linarith
    have e: "word_of_nat ((?v div 4096 mod 16 * 64 + ?v div 64 mod 64) * 64 + ?v mod 64) = c"
      unfolding mod_less [OF a] unfolding d by (simp only: div_mod_back word_nat_back)
    have "READ_UTF8 (WRITE_UTF8 c @ z) = (replace_bad c, z)"
      unfolding WRITE_UTF8_def using 3 n
      by (simp only: lt not_less [symmetric] if_False if_True append_Cons append_Nil
          read_3 [OF write_bytes(2) _ cont_bytes(2) _ cont_bytes(1) _ z] mod_less_divisor e zero_less_numeral)
    with 3 show ?thesis by (simp add: lt)
  next
    case 4
    then have a: "?v div 262144 < 8" using v by (simp add: div_less_iff_less_mult)
    have n: "\<not> ?v < 128" "\<not> ?v < 2048" "\<not> ?v < 65536" using 4 by linarith+
    have e: "word_of_nat (((?v div 262144 mod 8 * 64 + ?v div 4096 mod 64) * 64 + ?v div 64 mod 64) * 64 + ?v mod 64) = c"
      unfolding mod_less [OF a] unfolding d by (simp only: div_mod_back word_nat_back)
    have "READ_UTF8 (WRITE_UTF8 c @ z) = (replace_bad c, z)"
      unfolding WRITE_UTF8_def using 4 n
      by (simp only: lt not_less [symmetric] if_False if_True append_Cons append_Nil
          read_4 [OF write_bytes(3) _ cont_bytes(3) _ cont_bytes(2) _ cont_bytes(1) _ z] mod_less_divisor e zero_less_numeral)
    with 4 show ?thesis by (simp add: lt)
  qed
qed
subsection \<open>Surrogate pairs\<close>

lemma split_pair:
  assumes "65536 \<le> v" "v < (1114112::nat)"
  obtains p q r s where "v = s + 256 * (r + 4 * (q + 64 * (p + 1)))" "p < 16" "q < 64" "r < 4" "s < 256"
proof
  let ?a = "v div 256" let ?b = "?a div 4" let ?c = "?b div 64"
  have c: "?c = v div 65536" by (simp add: div_mult2_eq [symmetric])
  with assms(1) have "1 \<le> ?c" by (simp add: div_le_mono [of 65536 v 65536, simplified])
  then show "v = v mod 256 + 256 * (?a mod 4 + 4 * (?b mod 64 + 64 * ((?c - 1) + 1)))"
    by simp
  show "?c - 1 < 16" using assms c by (simp add: less_diff_conv div_less_iff_less_mult)
qed simp_all

lemma digits:
  fixes p q r s :: nat
  assumes "q < 64" "r < 4" "s < 256"
  defines "v \<equiv> s + 256 * (r + 4 * (q + 64 * p))"
  shows "v mod 256 = s" "v div 256 mod 4 = r" "v div 1024 mod 64 = q" "v div 65536 = p"
   "v div 262144 = p div 4" "v mod 1024 = s + 256 * r"
proof -
  have 1: "v div 256 = r + 4 * (q + 64 * p)" and m: "v mod 256 = s"
    unfolding v_def using assms(3) by (rule radix)+
  have 2: "v div 256 div 4 = q + 64 * p" and n: "v div 256 mod 4 = r"
    unfolding 1 using assms(2) by (rule radix)+
  have 3: "v div 256 div 4 div 64 = p" "v div 256 div 4 mod 64 = q"
    unfolding 2 using assms(1) by (rule radix)+
  show "v mod 256 = s" "v div 256 mod 4 = r" by fact+
  show "v div 1024 mod 64 = q" "v div 65536 = p" "v div 262144 = p div 4"
    using 3 by (simp_all add: div_mult2_eq [symmetric])
  show "v mod 1024 = s + 256 * r"
    using m n mod_mult2_eq [of v 256 4] by simp
qed

lemma unit_nat:
  fixes hi lo :: u32
  assumes "unat hi < 256" "unat lo < 256"
  shows "unat (unit_le (ucast lo) (ucast hi)) = unat hi * 256 + unat lo"
    "unat (unit_be (ucast hi) (ucast lo)) = unat hi * 256 + unat lo"
proof -
  have 1: "unat (ucast (ucast lo :: u8) :: u32) = unat lo" "unat (ucast (ucast hi :: u8) :: u32) = unat hi"
    using assms by (simp_all only: unat_ucast8 mod_less)
  have "unat (push_bit 8 (ucast (ucast hi :: u8) :: u32)) = unat hi * 256"
    using assms 1 by (subst unat_push) simp_all
  with assms 1 show "unat (unit_le (ucast lo) (ucast hi)) = unat hi * 256 + unat lo"
    "unat (unit_be (ucast hi) (ucast lo)) = unat hi * 256 + unat lo"
    by (simp_all add: unit_le_def unit_be_def unat_word_ariths)
qed

lemma unit_low:
  assumes "c \<le> 0xFFFF"
  shows "unit_le (ucast (c AND 0xFF)) (ucast (drop_bit 8 c AND 0xFF)) = c"
   "unit_be (ucast (drop_bit 8 c AND 0xFF)) (ucast (c AND 0xFF)) = c"
proof -
  have v: "unat c < 65536" using assms by (simp add: word_le_nat_alt)
  then have 2: "unat (drop_bit 8 c AND 0xFF) = unat c div 256"
    by (simp add: unat_low unat_drop div_less_iff_less_mult)
  then have "unat (drop_bit 8 c AND 0xFF) < 256" "unat (c AND 0xFF) < 256"
    using v by (simp_all add: unat_low div_less_iff_less_mult)
  note unit_nat [OF this] 
  then show "unit_le (ucast (c AND 0xFF)) (ucast (drop_bit 8 c AND 0xFF)) = c"
   "unit_be (ucast (drop_bit 8 c AND 0xFF)) (ucast (c AND 0xFF)) = c"
    by (simp_all only: word_unat_eq_iff 2) (simp_all add: unat_low)
qed

lemma join_digits:
  fixes c c1 c2 :: u32
  assumes c: "unat c = s + 256 * (r + 4 * (q + 64 * (p + 1)))" and b: "p < 16" "q < 64" "r < 4" "s < 256"
    and c1: "unat c1 = q + 64 * (p + 16 * 54)" and c2: "unat c2 = (s + 256 * r) + 1024 * 55"
  shows "is_surrogate c1" "join_surrogates c1 c2 = c"
proof -
  have "55296 \<le> unat c1" unfolding c1 by simp
  moreover have "unat c1 < 57344" unfolding c1 using b by simp
  ultimately show "is_surrogate c1"
    by (simp add: is_surrogate_def word_le_nat_alt word_less_nat_alt)
  have 1: "unat c1 mod 64 = q" "unat c1 div 64 = p + 16 * 54" unfolding c1 using b(2) by (rule radix)+
  have 2: "unat c1 div 64 mod 16 = p" unfolding 1 using b(1) by (rule radix)
  have "s + 256 * r < 1024" using b by linarith
  then have 3: "unat (c2 AND 0x3FF) = s + 256 * r" unfolding unat_low c2 by (rule radix)
  have 4: "unat (push_bit 10 (c1 AND 0x3F)) = q * 1024"
    using b 1 by (subst unat_push) (simp_all add: unat_low)
  have 5: "unat ((c1 AND 0x3C0) + 0x40) = p * 64 + 64"
    unfolding unat_word_ariths unat_middle 2 using b(1) by simp
  have 6: "unat (push_bit 10 ((c1 AND 0x3C0) + 0x40)) = p * 65536 + 65536"
    by (subst unat_push, unfold 5) (use b in simp_all)
  have "(s + 256 * r + q * 1024) < 2 ^ 32" "s + 256 * r + q * 1024 + (p * 65536 + 65536) < 2 ^ 32"
    using b by simp_all
  then have "unat (join_surrogates c1 c2) = s + 256 * r + q * 1024 + (p * 65536 + 65536)"
    unfolding join_surrogates_def unat_word_ariths 3 4 6 by simp
  then show "join_surrogates c1 c2 = c"
    by (simp add: word_unat_eq_iff c)
qed

text \<open>The two units that \<open>WRITE_UTF16LE\<close> and \<open>WRITE_UTF16BE\<close> write for one character above 0xFFFF.\<close>

lemma pair_bytes:
  fixes c :: u32
  assumes "0x10000 \<le> c" "c < 0x110000"
  defines "h1 \<equiv> 0xD8 + (drop_bit 18 (c - 0x10000) AND 0x03)"
    and "l1 \<equiv> (drop_bit 10 c AND 0x3F) + (drop_bit 10 (c - 0x10000) AND 0xC0)"
    and "h2 \<equiv> 0xDC + (drop_bit 8 c AND 0x03)" and "l2 \<equiv> c AND 0xFF"
  shows "unat h1 < 256" "unat l1 < 256" "unat h2 < 256" "unat l2 < 256"
    and "unat c1 = unat h1 * 256 + unat l1 \<Longrightarrow> is_surrogate c1"
    and "unat c1 = unat h1 * 256 + unat l1 \<Longrightarrow> unat c2 = unat h2 * 256 + unat l2 \<Longrightarrow>
      join_surrogates c1 c2 = c"
proof -
  have "65536 \<le> unat c" "unat c < 1114112"
    using assms(1,2) by (simp_all add: word_le_nat_alt word_less_nat_alt)
  then obtain p q r s where v: "unat c = s + 256 * (r + 4 * (q + 64 * (p + 1)))"
    and b: "p < 16" "q < 64" "r < 4" "s < 256"
    by (rule split_pair)
  have w: "unat (c - 0x10000) = s + 256 * (r + 4 * (q + 64 * p))"
    using assms(1) v by (simp add: unat_sub)
  obtain d e where de: "p div 4 = d" "p mod 4 = e" by simp
  have m4: "d < 4" "e < 4" "d * 4 + e = p" using b de by auto
  note dv = digits [of q r s "p + 1", folded v, OF b(2-4)]
  note dw = digits [of q r s p, folded w, OF b(2-4)]
  have d: "unat (drop_bit 18 (c - 0x10000) AND 0x03) = d"
    unfolding unat_low unat_drop using dw(5) m4(1) de(1) by simp
  have q: "unat (drop_bit 10 c AND 0x3F) = q"
    unfolding unat_low unat_drop using dv(3) by simp
  have e: "unat (drop_bit 10 (c - 0x10000) AND 0xC0) = e * 64"
    unfolding unat_middle unat_drop using dw(4) de(2) by (simp add: div_mult2_eq [symmetric])
  have r: "unat (drop_bit 8 c AND 0x03) = r"
    unfolding unat_low unat_drop using dv(2) by simp
  have 1: "unat h1 = 216 + d"
    unfolding h1_def unat_word_ariths d using m4(1) by simp
  have 4: "unat l1 = q + e * 64"
    unfolding l1_def unat_word_ariths q e using b(2) m4(2) by simp
  have 6: "unat h2 = 220 + r"
    unfolding h2_def unat_word_ariths r using b(3) by simp
  have 7: "unat l2 = s"
    unfolding l2_def unat_low using dv(1) by simp
  show "unat h1 < 256" "unat l1 < 256" "unat h2 < 256" "unat l2 < 256"
    unfolding 1 4 6 7 using b m4 by simp_all
  {
    assume "unat c1 = unat h1 * 256 + unat l1"
    then have "unat c1 = q + 64 * (p + 16 * 54)" unfolding 1 4 m4(3) [symmetric] by (simp only: algebra_simps)
    moreover have "unat (word_of_nat ((s + 256 * r) + 1024 * 55) :: u32) = (s + 256 * r) + 1024 * 55"
      by (rule unat_small) (use b in simp)
    ultimately show "is_surrogate c1" using join_digits(1) [OF v b] by blast
  }
  assume "unat c1 = unat h1 * 256 + unat l1" "unat c2 = unat h2 * 256 + unat l2"
  then have "unat c1 = q + 64 * (p + 16 * 54)" "unat c2 = (s + 256 * r) + 1024 * 55"
    unfolding 1 4 6 7 m4(3) [symmetric] by (simp_all only: algebra_simps)
  then show "join_surrogates c1 c2 = c" by (rule join_digits(2) [OF v b])
qed

subsection \<open>Characters that survive\<close>

definition text_char :: "u32 \<Rightarrow> bool" where
  "text_char c \<longleftrightarrow> c < 0x110000 \<and> \<not> is_surrogate c \<and> c \<noteq> 0xFFFE \<and> c \<noteq> 0xFFFF"

lemma high_masks: "(0xFFFFF800 :: u32) = push_bit 11 (mask 21)" "(0xFFFFFFFE :: u32) = push_bit 1 (mask 31)"
  by (simp_all add: mask_eq_exp_minus_1 push_bit_eq_mult)

lemma bad_values:
  "c AND 0xFFFFF800 = 0xD800 \<longleftrightarrow> is_surrogate c" (is ?A)
  "c AND 0xFFFFFFFE = 0xFFFE \<longleftrightarrow> c = 0xFFFE \<or> c = 0xFFFF" (is ?B)
proof -
  have "unat c div 2048 < 2097152" "unat c div 2 < 2147483648"
    using unsigned_less [of c, where 'a=nat] by (simp_all add: div_less_iff_less_mult)
  then have 1: "unat (c AND 0xFFFFF800) = unat c div 2048 * 2048" "unat (c AND 0xFFFFFFFE) = unat c div 2 * 2"
    unfolding high_masks using unat_and_shifted [of 11 21 c] unat_and_shifted [of 1 31 c] by simp_all
  have "unat c div 2048 * 2048 = 55296 \<longleftrightarrow> unat c div 2048 = 27" by auto
  also have "\<dots> \<longleftrightarrow> 55296 \<le> unat c \<and> unat c < 57344"
    using div_mult_mod_eq [of "unat c" 2048] mod_less_divisor [of 2048 "unat c"] div_nat_eqI [of 2048 27 "unat c"] by auto
  finally show ?A
    by (simp add: word_unat_eq_iff 1 is_surrogate_def word_le_nat_alt word_less_nat_alt)
  have "unat c div 2 * 2 = 65534 \<longleftrightarrow> unat c = 65534 \<or> unat c = 65535" by auto
  then show ?B by (simp add: word_unat_eq_iff 1)
qed

lemma replace_bad_text: "text_char c \<Longrightarrow> 0x80 \<le> c \<Longrightarrow> replace_bad c = c"
  by (auto simp: replace_bad_def text_char_def bad_values dest: leD)

lemma READ_text:
  assumes "text_char c" "at_char_start z"
  shows "READ_UTF8 (WRITE_UTF8 c @ z) = (c, z)"
  using assms READ_WRITE_UTF8 [of c z] replace_bad_text [of c]
  by (auto simp: text_char_def not_less)

lemma WRITE_UTF8_shape: "\<exists>b bs. WRITE_UTF8 c = b # bs \<and> \<not> is_cont b \<and> length bs \<le> 3 \<and> (c < 0x10000 \<longrightarrow> length bs \<le> 2)"
proof -
  have "c < 0x80 \<Longrightarrow> unat c < 128" by (simp add: word_less_nat_alt)
  then show ?thesis
    by (auto simp: WRITE_UTF8_def is_cont_iff write_bytes unat_ucast8 unat_low)
qed

lemma at_char_start_text: "at_char_start (concat (map WRITE_UTF8 cs))"
proof (cases cs)
  case (Cons c cs')
  then show ?thesis using WRITE_UTF8_shape [of c] by (auto simp: at_char_start_def)
qed (simp add: at_char_start_def)

lemma WRITE_UTF8_ne [simp]: "WRITE_UTF8 c \<noteq> []"
  using WRITE_UTF8_shape [of c] by auto

lemma utf8_to_16_text:
  "list_all text_char cs \<Longrightarrow> utf8_to_16 w (concat (map WRITE_UTF8 cs)) = concat (map w cs)"
proof (induction cs)
  case Nil then show ?case by (simp add: utf8_to_16.simps)
next
  case (Cons c cs)
  then show ?case
    by (subst utf8_to_16.simps) (simp add: READ_text at_char_start_text)
qed

lemma utf16le_to_8_step:
  assumes "text_char c"
  shows "utf16_to_8 unit_le (WRITE_UTF16LE c @ z) = WRITE_UTF8 c @ utf16_to_8 unit_le z"
proof (cases "c \<le> 0xFFFF")
  case True
  then show ?thesis using assms by (simp add: WRITE_UTF16LE_def unit_low text_char_def)
next
  case False
  then have c: "0x10000 \<le> c" "c < 0x110000" using assms by (auto simp: text_char_def word_le_nat_alt)
  note p = pair_bytes [OF c]
  show ?thesis using False p(5) [OF unit_nat(1) [OF p(1,2)]]
      p(6) [OF unit_nat(1) [OF p(1,2)] unit_nat(1) [OF p(3,4)]]
    by (simp add: WRITE_UTF16LE_def)
qed

lemma utf16be_to_8_step:
  assumes "text_char c"
  shows "utf16_to_8 unit_be (WRITE_UTF16BE c @ z) = WRITE_UTF8 c @ utf16_to_8 unit_be z"
proof (cases "c \<le> 0xFFFF")
  case True
  then show ?thesis using assms by (simp add: WRITE_UTF16BE_def unit_low text_char_def)
next
  case False
  then have c: "0x10000 \<le> c" "c < 0x110000" using assms by (auto simp: text_char_def word_le_nat_alt)
  note p = pair_bytes [OF c]
  show ?thesis using False p(5) [OF unit_nat(2) [OF p(1,2)]]
      p(6) [OF unit_nat(2) [OF p(1,2)] unit_nat(2) [OF p(3,4)]]
    by (simp add: WRITE_UTF16BE_def)
qed

lemma swap_le: "swap_bytes (WRITE_UTF16LE c @ z) = WRITE_UTF16BE c @ swap_bytes z"
  by (simp add: WRITE_UTF16LE_def WRITE_UTF16BE_def)

lemma swap_be: "swap_bytes (WRITE_UTF16BE c @ z) = WRITE_UTF16LE c @ swap_bytes z"
  by (simp add: WRITE_UTF16LE_def WRITE_UTF16BE_def)

lemma len16: "length (WRITE_UTF16LE c) = (if c \<le> 0xFFFF then 2 else 4)"
   "length (WRITE_UTF16BE c) = (if c \<le> 0xFFFF then 2 else 4)"
  by (simp_all add: WRITE_UTF16LE_def WRITE_UTF16BE_def)

lemma even_len16: "even (length (concat (map WRITE_UTF16LE cs)))" "even (length (concat (map WRITE_UTF16BE cs)))"
  by (induction cs) (simp_all add: len16)

lemma utf16_texts:
  assumes "list_all text_char cs"
  shows "utf16_to_8 unit_le (concat (map WRITE_UTF16LE cs)) = concat (map WRITE_UTF8 cs)"
    "utf16_to_8 unit_be (concat (map WRITE_UTF16BE cs)) = concat (map WRITE_UTF8 cs)"
  using assms by (induction cs) (simp_all add: utf16le_to_8_step utf16be_to_8_step)

lemma swap_texts:
  "swap_bytes (concat (map WRITE_UTF16LE cs)) = concat (map WRITE_UTF16BE cs)"
  "swap_bytes (concat (map WRITE_UTF16BE cs)) = concat (map WRITE_UTF16LE cs)"
  by (induction cs) (simp_all add: swap_le swap_be)

subsection \<open>The output buffer is large enough\<close>

lemma lead_small_table: "list_all (\<lambda>n. utf8_lead (word_of_nat n) < 0x80) [192..<256]"
  by code_simp

lemma lead_small: "0xC0 \<le> b \<Longrightarrow> utf8_lead b < 0x80"
proof -
  assume "0xC0 \<le> b"
  moreover have "\<forall>n\<in>{192..<256}. utf8_lead (word_of_nat n) < 0x80"
    using lead_small_table by (simp only: list_all_iff set_upt)
  from bspec [OF this, of "unat b"] have "192 \<le> unat b \<Longrightarrow> ?thesis" by simp
  ultimately show ?thesis by (simp add: ge_C0)
qed

lemma read_conts_same: "length (snd (read_conts c z)) = length z \<Longrightarrow> fst (read_conts c z) = c"
proof (cases z)
  case (Cons b z')
  then show "length (snd (read_conts c z)) = length z \<Longrightarrow> fst (read_conts c z) = c"
    using read_conts_length [of "push_bit 6 c + (0x3F AND ucast b)" z'] by auto
qed simp

lemma READ_UTF8_wide:
  assumes "0xFFFF < fst (READ_UTF8 z)"
  shows "length (snd (READ_UTF8 z)) + 2 \<le> length z"
proof (cases z)
  case (Cons b z')
  obtain c r where c: "read_conts (utf8_lead b) z' = (c, r)" by fastforce
  show ?thesis
  proof (cases "0xC0 \<le> b")
    case True
    have "c \<noteq> utf8_lead b"
    proof
      assume "c = utf8_lead b"
      then have "replace_bad c = 0xFFFD" using lead_small [OF True] by (simp add: replace_bad_def)
      then show False using assms Cons True c by simp
    qed
    then have "length r \<noteq> length z'" using read_conts_same [of "utf8_lead b" z'] c by auto
    moreover have "length r \<le> length z'" using read_conts_length [of "utf8_lead b" z'] c by simp
    ultimately show ?thesis using Cons True c by simp
  next
    case False
    then have "unat (ucast b :: u32) < 256" by (simp only: unat_ucast8 byte_less)
    then show ?thesis using assms Cons False by (simp add: word_less_nat_alt unat_ucast8 del: byte_less)
  qed
qed (use assms in simp)

lemma utf8_to_16_length:
  assumes "\<And>c. length (w c) = (if c \<le> 0xFFFF then 2 else 4)"
  shows "length (utf8_to_16 w z) \<le> 2 * length z"
proof (induction "length z" arbitrary: z rule: less_induct)
  case less
  obtain c z' where r: "READ_UTF8 z = (c, z')" by fastforce
  show ?case
  proof (cases "z = []")
    case False
    then have "length z' < length z" using READ_UTF8_length [of z] r by simp
    moreover from less [OF this] have "length (utf8_to_16 w z') \<le> 2 * length z'" .
    moreover have "\<not> c \<le> 0xFFFF \<Longrightarrow> length z' + 2 \<le> length z"
      using READ_UTF8_wide [of z] r by simp
    ultimately show ?thesis
      using False by (subst utf8_to_16.simps) (auto simp: r assms)
  qed (simp add: utf8_to_16.simps)
qed

lemma unit_small: "unit_le a b < 0x10000" "unit_be a b < 0x10000"
proof -
  have 1: "unat (ucast x :: u32) = unat x" for x :: u8 by (rule unat_ucast8)
  have 2: "unat (push_bit 8 (ucast x :: u32)) = unat x * 256" for x :: u8
    using byte_less [of x] by (subst unat_push) (simp_all add: 1 del: byte_less)
  show "unit_le a b < 0x10000" "unit_be a b < 0x10000"
    using byte_less [of a] byte_less [of b]
    by (simp_all add: unit_le_def unit_be_def word_less_nat_alt unat_word_ariths 1 2 del: byte_less)
qed

lemma utf16_to_8_length:
  assumes "\<And>a b. unit a b < 0x10000"
  shows "length (utf16_to_8 unit z) \<le> 2 * length z"
  using assms
proof (induction unit z rule: utf16_to_8.induct)
  case (1 unit a b z)
  have narrow: "length (WRITE_UTF8 (unit a b)) \<le> 3"
    using WRITE_UTF8_shape [of "unit a b"] 1(3) by auto
  have wide: "length (WRITE_UTF8 c) \<le> 4" for c
    using WRITE_UTF8_shape [of c] by auto
  show ?case
  proof (cases "is_surrogate (unit a b)")
    case True
    show ?thesis
    proof (cases "\<exists>a2 b2 z'. z = a2 # b2 # z'")
      case pair: True
      then obtain a2 b2 z' where z: "z = a2 # b2 # z'" by blast
      have "length (utf16_to_8 unit z') \<le> 2 * length z'"
        using "1.IH"(1) [OF refl True z refl] 1(3) by simp
      then show ?thesis using True wide [of "join_surrogates (unit a b) (unit a2 b2)"] by (simp add: z)
    next
      case False
      then show ?thesis using True narrow by (auto simp: Let_def split: list.splits)
    qed
  next
    case False
    then show ?thesis using "1.IH"(2) [OF refl False] 1(3) narrow by simp
  qed
qed auto

subsection \<open>Byte-order marks and lengths\<close>

text \<open>\<open>sqlite3VdbeMemHandleBom\<close>: two zero bytes follow the text once the mark is cut off.\<close>

definition bom_of :: "u8 list \<Rightarrow> enc option" where
  "bom_of z =
     (case z of
        b1 # b2 # _ \<Rightarrow>
          if b1 = 0xFF \<and> b2 = 0xFE then Some SQLITE_UTF16LE
          else if b1 = 0xFE \<and> b2 = 0xFF then Some SQLITE_UTF16BE else None
      | _ \<Rightarrow> None)"

definition sqlite3VdbeMemHandleBom :: "bool \<Rightarrow> smem \<Rightarrow> sql_rc \<times> smem" where
  "sqlite3VdbeMemHandleBom heap_ok m =
     (case bom_of (take (n_bytes m) (z_buf m)) of
        None \<Rightarrow> (SQLITE_OK, m)
      | Some bom \<Rightarrow>
          if heap_ok
          then (SQLITE_OK,
                m\<lparr>n_bytes := n_bytes m - 2,
                  z_buf := take (n_bytes m - 2) (drop 2 (z_buf m)) @ [0, 0] @ drop (n_bytes m) (z_buf m),
                  mflags := mflags m OR MEM_Term, enc_of := bom\<rparr>)
          else (SQLITE_NOMEM, m))"

fun skip_utf8 :: "u8 list \<Rightarrow> u8 list" where
  "skip_utf8 [] = []"
| "skip_utf8 (b # z) = (if 0xC0 \<le> b then dropWhile is_cont z else z)"

lemma skip_utf8_length: "z \<noteq> [] \<Longrightarrow> length (skip_utf8 z) < length z"
  by (cases z) (auto simp: less_Suc_eq_le length_dropWhile_le)

text \<open>
  \<open>sqlite3Utf8CharLen\<close> over a zero-terminated buffer; the second argument is \<open>zTerm - z\<close>, or
  \<open>None\<close> for a negative \<open>nByte\<close>.
\<close>

function sqlite3Utf8CharLen :: "u8 list \<Rightarrow> int option \<Rightarrow> nat" where
  "sqlite3Utf8CharLen z left =
     (if z = [] \<or> hd z = 0 \<or> (case left of None \<Rightarrow> False | Some k \<Rightarrow> k \<le> 0) then 0
      else let z' = skip_utf8 z
           in Suc (sqlite3Utf8CharLen z' (map_option (\<lambda>k. k - int (length z - length z')) left)))"
  by auto
termination
  by (relation "measure (\<lambda>(z, left). length z)") (auto simp: skip_utf8_length)

declare sqlite3Utf8CharLen.simps [simp del]

subsection \<open>The conversions as a whole\<close>

definition utf_text :: "enc \<Rightarrow> u32 list \<Rightarrow> u8 list" where
  "utf_text e cs =
     concat (map (case e of SQLITE_UTF8 \<Rightarrow> WRITE_UTF8 | SQLITE_UTF16LE \<Rightarrow> WRITE_UTF16LE
       | SQLITE_UTF16BE \<Rightarrow> WRITE_UTF16BE) cs)"

definition mem_text :: "smem \<Rightarrow> u8 list" where
  "mem_text m = take (n_bytes m) (z_buf m)"

definition holds_text :: "smem \<Rightarrow> enc \<Rightarrow> u32 list \<Rightarrow> bool" where
  "holds_text m e cs \<longleftrightarrow>
     enc_of m = e \<and> mem_text m = utf_text e cs \<and> n_bytes m \<le> length (z_buf m)"

lemma holds_text_bytes: "holds_text m e cs \<Longrightarrow> n_bytes m = length (utf_text e cs)"
  by (auto simp: holds_text_def mem_text_def dest!: arg_cong [where f = length])

lemma even_text16: "e \<noteq> SQLITE_UTF8 \<Longrightarrow> length (utf_text e cs) mod 2 = 0"
  using even_len16 [of cs] by (cases e) (auto simp: utf_text_def even_iff_mod_2_eq_zero)

lemma same_len16: "length (concat (map WRITE_UTF16LE cs)) = length (concat (map WRITE_UTF16BE cs))"
  by (induction cs) (simp_all add: len16)

lemma translate_text:
  assumes m: "holds_text m e cs" and cs: "list_all text_char cs" and d: "d \<noteq> e"
  shows "\<exists>m'. sqlite3VdbeMemTranslate True m d = (SQLITE_OK, m') \<and> holds_text m' d cs"
proof -
  note n = holds_text_bytes [OF m]
  have z: "take (length (utf_text e cs)) (z_buf m) = utf_text e cs" and e: "enc_of m = e"
    and l: "length (utf_text e cs) \<le> length (z_buf m)"
    using m n by (auto simp: holds_text_def mem_text_def)
  show ?thesis
  proof (cases "e = SQLITE_UTF8 \<or> d = SQLITE_UTF8")
    case True
    with d show ?thesis
      using z even_text16 [of e cs] utf8_to_16_text [OF cs] utf16_texts [OF cs]
      by (cases e; cases d)
         (simp_all add: sqlite3VdbeMemTranslate_def holds_text_def mem_text_def e n utf_text_def Let_def)
  next
    case False
    with d show ?thesis
      using z l even_text16 [of e cs] swap_texts [of cs] same_len16 [of cs]
      by (cases e; cases d)
         (simp_all add: sqlite3VdbeMemTranslate_def holds_text_def mem_text_def e n utf_text_def Let_def)
  qed
qed

text \<open>
  C13. The three encodings agree: text of proper characters that \<open>sqlite3VdbeMemTranslate\<close>
  converts from any encoding to any other, and back, is the encoding of the same characters each
  time, and the original bytes at the end.
\<close>

theorem translate_roundtrip:
  assumes "holds_text m e cs" and "list_all text_char cs" and "d \<noteq> e"
  shows "\<exists>m1 m2. sqlite3VdbeMemTranslate True m d = (SQLITE_OK, m1) \<and> holds_text m1 d cs
    \<and> sqlite3VdbeMemTranslate True m1 e = (SQLITE_OK, m2) \<and> holds_text m2 e cs
    \<and> mem_text m2 = mem_text m"
proof -
  from translate_text [OF assms] obtain m1 where
    1: "sqlite3VdbeMemTranslate True m d = (SQLITE_OK, m1)" "holds_text m1 d cs" by blast
  from translate_text [OF this(2) assms(2) assms(3) [symmetric]] obtain m2 where
    "sqlite3VdbeMemTranslate True m1 e = (SQLITE_OK, m2)" "holds_text m2 e cs" by blast
  with 1 assms(1) show ?thesis by (auto simp: holds_text_def)
qed

definition euro_mem :: smem where
  "euro_mem = \<lparr>z_buf = [0x61, 0xE2, 0x82, 0xAC, 0xF0, 0x9D, 0x84, 0x9E, 0], n_bytes = 8,
     enc_of = SQLITE_UTF8, mflags = MEM_Str\<rparr>"

lemma euro_text: "holds_text euro_mem SQLITE_UTF8 [0x61, 0x20AC, 0x1D11E]"
  by code_simp

theorem translate_roundtrip_witness:
  "holds_text euro_mem SQLITE_UTF8 [0x61, 0x20AC, 0x1D11E] \<and>
   (\<exists>m1 m2. sqlite3VdbeMemTranslate True euro_mem SQLITE_UTF16BE = (SQLITE_OK, m1)
    \<and> holds_text m1 SQLITE_UTF16BE [0x61, 0x20AC, 0x1D11E]
    \<and> sqlite3VdbeMemTranslate True m1 SQLITE_UTF8 = (SQLITE_OK, m2)
    \<and> holds_text m2 SQLITE_UTF8 [0x61, 0x20AC, 0x1D11E] \<and> mem_text m2 = mem_text euro_mem)"
  using translate_roundtrip [OF euro_text, of SQLITE_UTF16BE] euro_text
  by (simp add: text_char_def is_surrogate_def)

text \<open>
  C14. The conversion never writes past its buffer: for any bytes at all, well-formed or not, the
  text with its terminator fits into the \<open>len\<close> bytes that were asked of the allocator.
\<close>

theorem translate_fits:
  assumes "sqlite3VdbeMemTranslate heap_ok m d = (SQLITE_OK, m')" and "d \<noteq> enc_of m"
    and "enc_of m = SQLITE_UTF8 \<or> d = SQLITE_UTF8" and "n_bytes m \<le> length (z_buf m)"
  shows "length (z_buf m') \<le> out_len m d \<and>
    n_bytes m' + (if d = SQLITE_UTF8 then 1 else 2) = length (z_buf m')"
proof (cases "d = SQLITE_UTF8")
  case True
  then have e: "enc_of m \<noteq> SQLITE_UTF8" using assms(2) by auto
  show ?thesis
    using assms True e utf16_to_8_length [of unit_le "take (n_bytes m - n_bytes m mod 2) (z_buf m)"]
      utf16_to_8_length [of unit_be "take (n_bytes m - n_bytes m mod 2) (z_buf m)"]
    by (auto simp: sqlite3VdbeMemTranslate_def Let_def out_len_def unit_small split: if_splits)
next
  case False
  with assms show ?thesis
    using utf8_to_16_length [of WRITE_UTF16LE "take (n_bytes m) (z_buf m)"]
      utf8_to_16_length [of WRITE_UTF16BE "take (n_bytes m) (z_buf m)"]
    by (auto simp: sqlite3VdbeMemTranslate_def Let_def out_len_def len16 split: if_splits)
qed

theorem translate_fits_witness:
  "\<exists>m'. sqlite3VdbeMemTranslate True \<lparr>z_buf = [0xFF, 0xD8, 0x41], n_bytes = 3, enc_of = SQLITE_UTF8,
      mflags = MEM_Str\<rparr> SQLITE_UTF16LE = (SQLITE_OK, m') \<and>
    length (z_buf m') \<le> 8 \<and> n_bytes m' + 2 = length (z_buf m')"
proof -
  define m where "m = \<lparr>z_buf = [0xFF, 0xD8, 0x41 :: u8], n_bytes = 3, enc_of = SQLITE_UTF8, mflags = MEM_Str\<rparr>"
  obtain m' where r: "sqlite3VdbeMemTranslate True m SQLITE_UTF16LE = (SQLITE_OK, m')"
    by (simp add: sqlite3VdbeMemTranslate_def m_def Let_def)
  from translate_fits [OF this] show ?thesis
    unfolding m_def [symmetric] by (intro exI [of _ m'] conjI r) (simp_all add: m_def out_len_def)
qed

text \<open>The self test of \<open>utf.c\<close>, one round of its loop.\<close>

definition utf_self_test :: "u32 \<Rightarrow> bool" where
  "utf_self_test i =
     (let z = WRITE_UTF8 i; n = length z;
          t = (if i \<ge> 0xD800 \<and> i \<le> 0xDFFF then 0xFFFD else i);
          t = (if i AND 0xFFFFFFFE = 0xFFFE then 0xFFFD else t)
      in 0 < n \<and> n \<le> 4 \<and> sqlite3Utf8Read (z @ [0]) = Some (t, [0]))"

text \<open>
  \<open>sqlite3UtfSelfTest\<close> never fails: for every code point below 0x110000 the assertions of its
  loop hold, surrogates and the two non-characters read back as U+FFFD.
\<close>

theorem utf_self_test_passes:
  assumes "i < 0x110000"
  shows "utf_self_test i"
proof -
  obtain b bs where w: "WRITE_UTF8 i = b # bs" and l: "length bs \<le> 3"
    using WRITE_UTF8_shape [of i] by blast
  have "READ_UTF8 (WRITE_UTF8 i @ [0]) = (if i < 0x80 then i else replace_bad i, [0])"
    by (rule READ_WRITE_UTF8 [OF assms]) (simp add: at_char_start_def is_cont_iff)
  moreover have "\<not> is_cont 0" by (simp add: is_cont_iff)
  ultimately have r: "sqlite3Utf8Read (WRITE_UTF8 i @ [0]) = Some (if i < 0x80 then i else replace_bad i, [0])"
    unfolding sqlite3Utf8Read_def by (auto simp: w simp del: READ_UTF8.simps)
  have "i \<ge> 0xD800 \<and> i \<le> 0xDFFF \<longleftrightarrow> is_surrogate i"
    by (auto simp: is_surrogate_def word_le_nat_alt word_less_nat_alt)
  moreover have "i < 0x80 \<Longrightarrow> \<not> is_surrogate i \<and> i \<noteq> 0xFFFE \<and> i \<noteq> 0xFFFF"
    by (auto simp: is_surrogate_def word_le_nat_alt word_less_nat_alt)
  ultimately show ?thesis
    unfolding utf_self_test_def Let_def r using l by (auto simp: w replace_bad_def bad_values)
qed

theorem utf_self_test_passes_witness: "(0x1F600 :: u32) < 0x110000 \<and> utf_self_test 0x1F600"
  using utf_self_test_passes [of "0x1F600"] by simp


subsection \<open>Counting characters\<close>

lemma cont_write [simp]: "is_cont (0x80 + ucast (c AND 0x3F))" "is_cont (0x80 + ucast (drop_bit k c AND 0x3F))"
  for c :: u32
proof -
  have "is_cont b" if "unat b = 128 + x mod 64" for b x
  proof -
    have "(128 + x mod 64) div 64 = 2" using radix(2) [of "x mod 64" 64 2] by (simp add: add.commute)
    with that show ?thesis by (simp add: is_cont_iff)
  qed
  then show "is_cont (0x80 + ucast (c AND 0x3F))" "is_cont (0x80 + ucast (drop_bit k c AND 0x3F))"
    using cont_bytes(1) cont_byte by blast+
qed

lemma WRITE_UTF8_conts:
  "\<exists>b bs. WRITE_UTF8 c = b # bs \<and> list_all is_cont bs \<and> (0xC0 \<le> b \<longleftrightarrow> bs \<noteq> []) \<and> (b = 0 \<longleftrightarrow> c = 0)"
proof (cases "c < 0x80")
  case True
  then have "unat (ucast (c AND 0xFF) :: u8) = unat c" "unat c < 128"
    by (simp_all add: unat_ucast8 unat_low word_less_nat_alt)
  then show ?thesis using True
    by (auto simp: WRITE_UTF8_def ge_C0 word_unat_eq_iff [of _ 0] simp del: unat_eq_0)
next
  case False
  have "b \<noteq> 0" if "192 \<le> unat b" for b :: u8 using that by auto
  then show ?thesis using False
    by (auto simp: WRITE_UTF8_def ge_C0 write_bytes)
qed

lemma dropWhile_conts: "list_all is_cont bs \<Longrightarrow> at_char_start z \<Longrightarrow> dropWhile is_cont (bs @ z) = z"
  by (induction bs) (cases z, auto simp: at_char_start_def)

lemma CharLen_step:
  assumes "c \<noteq> 0" "at_char_start z"
  shows "sqlite3Utf8CharLen (WRITE_UTF8 c @ z) None = Suc (sqlite3Utf8CharLen z None)"
proof -
  obtain b bs where w: "WRITE_UTF8 c = b # bs" "list_all is_cont bs" "0xC0 \<le> b \<longleftrightarrow> bs \<noteq> []" "b \<noteq> 0"
    using WRITE_UTF8_conts [of c] assms(1) by auto
  then have "skip_utf8 (WRITE_UTF8 c @ z) = z"
    using dropWhile_conts [OF w(2) assms(2)] by auto
  with w show ?thesis
    by (subst sqlite3Utf8CharLen.simps) simp
qed

text \<open>
  \<open>sqlite3Utf16ByteLen\<close> on the little-endian host: the high byte of a unit is its second byte.
\<close>

fun sqlite3Utf16ByteLen :: "nat \<Rightarrow> u8 list \<Rightarrow> nat option" where
  "sqlite3Utf16ByteLen 0 z = Some 0"
| "sqlite3Utf16ByteLen (Suc n) (_ # c # z) =
     (if 0xD8 \<le> c \<and> c < 0xDC
      then (case z of
              a # b # z' \<Rightarrow>
                if 0xDC \<le> b \<and> b < 0xE0 then map_option (\<lambda>k. k + 4) (sqlite3Utf16ByteLen n z')
                else map_option (\<lambda>k. k + 2) (sqlite3Utf16ByteLen n z)
            | _ \<Rightarrow> None)
      else map_option (\<lambda>k. k + 2) (sqlite3Utf16ByteLen n z))"
| "sqlite3Utf16ByteLen (Suc n) z = None"

lemma ByteLen_step:
  assumes "text_char c"
  shows "sqlite3Utf16ByteLen (Suc n) (WRITE_UTF16LE c @ z) =
    map_option (\<lambda>k. k + length (WRITE_UTF16LE c)) (sqlite3Utf16ByteLen n z)"
proof (cases "c \<le> 0xFFFF")
  case True
  then have v: "unat c < 65536" by (simp add: word_le_nat_alt)
  then have h: "unat (ucast (drop_bit 8 c AND 0xFF) :: u8) = unat c div 256"
    by (simp add: unat_ucast8 unat_low unat_drop div_less_iff_less_mult)
  have "\<not> (216 \<le> unat c div 256 \<and> unat c div 256 < 220)"
  proof
    assume "216 \<le> unat c div 256 \<and> unat c div 256 < 220"
    then have "55296 \<le> unat c \<and> unat c < 57344"
      using div_mult_mod_eq [of "unat c" 256] mod_less_divisor [of 256 "unat c"] by linarith
    then show False using assms
      by (simp add: text_char_def is_surrogate_def word_le_nat_alt word_less_nat_alt)
  qed
  with h have "\<not> (0xD8 \<le> (ucast (drop_bit 8 c AND 0xFF) :: u8) \<and> (ucast (drop_bit 8 c AND 0xFF) :: u8) < 0xDC)"
    by (simp add: word_le_nat_alt word_less_nat_alt)
  with True show ?thesis by (auto simp: WRITE_UTF16LE_def)
next
  case False
  have "unat (0xD8 + (x AND 0x03) :: u32) = 216 + unat x mod 4" "unat (0xDC + (x AND 0x03) :: u32) = 220 + unat x mod 4" for x
    by (simp_all add: unat_word_ariths unat_low)
  then have u: "unat (ucast (0xD8 + (x AND 0x03) :: u32) :: u8) = 216 + unat x mod 4"
      "unat (ucast (0xDC + (x AND 0x03) :: u32) :: u8) = 220 + unat x mod 4" for x
    by (simp_all add: unat_ucast8)
  have h: "0xD8 \<le> (ucast (0xD8 + (x AND 0x03) :: u32) :: u8)" "(ucast (0xD8 + (x AND 0x03) :: u32) :: u8) < 0xDC"
    "0xDC \<le> (ucast (0xDC + (x AND 0x03) :: u32) :: u8)" "(ucast (0xDC + (x AND 0x03) :: u32) :: u8) < 0xE0" for x
    using u [of x] by (simp_all only: word_le_nat_alt word_less_nat_alt) simp_all
  show ?thesis using False h by (simp add: WRITE_UTF16LE_def eval_nat_numeral)
qed

lemma character_counts_parts:
  assumes "list_all (\<lambda>c. text_char c \<and> c \<noteq> 0) cs"
  shows "sqlite3Utf8CharLen (utf_text SQLITE_UTF8 cs @ 0 # rest) None = length cs"
    and "sqlite3Utf16ByteLen (length cs) (utf_text SQLITE_UTF16LE cs @ rest) =
      Some (length (utf_text SQLITE_UTF16LE cs))"
proof -
  have start: "at_char_start (concat (map WRITE_UTF8 cs) @ 0 # rest)" for cs
    using at_char_start_text [of cs]
    by (cases "concat (map WRITE_UTF8 cs)") (auto simp: at_char_start_def is_cont_iff)
  show "sqlite3Utf8CharLen (utf_text SQLITE_UTF8 cs @ 0 # rest) None = length cs"
    using assms unfolding utf_text_def
  proof (induction cs)
    case Nil then show ?case by (simp add: sqlite3Utf8CharLen.simps)
  next
    case (Cons c cs)
    then show ?case using CharLen_step [of c "concat (map WRITE_UTF8 cs) @ 0 # rest"] start [of cs] by simp
  qed
  show "sqlite3Utf16ByteLen (length cs) (utf_text SQLITE_UTF16LE cs @ rest) =
      Some (length (utf_text SQLITE_UTF16LE cs))"
    using assms unfolding utf_text_def
    by (induction cs) (simp_all add: ByteLen_step del: sqlite3Utf16ByteLen.simps(2))
qed

text \<open>
  \<open>sqlite3Utf8CharLen\<close> counts the characters of a zero-terminated text, and
  \<open>sqlite3Utf16ByteLen\<close> finds where the first characters of a UTF-16 text end.
\<close>

theorem character_counts:
  assumes "list_all (\<lambda>c. text_char c \<and> c \<noteq> 0) cs"
  shows "sqlite3Utf8CharLen (utf_text SQLITE_UTF8 cs @ 0 # rest) None = length cs \<and>
    sqlite3Utf16ByteLen (length cs) (utf_text SQLITE_UTF16LE cs @ rest) =
      Some (length (utf_text SQLITE_UTF16LE cs))"
  using character_counts_parts [OF assms] by blast

theorem character_counts_witness:
  "sqlite3Utf8CharLen (utf_text SQLITE_UTF8 [0x61, 0x20AC, 0x1D11E] @ [0]) None = 3 \<and>
   sqlite3Utf16ByteLen 3 (utf_text SQLITE_UTF16LE [0x61, 0x20AC, 0x1D11E] @ [0x42, 0]) = Some 8"
proof -
  have l: "list_all (\<lambda>c. text_char c \<and> c \<noteq> 0) [0x61, 0x20AC, 0x1D11E]"
    by (simp add: text_char_def is_surrogate_def)
  have "length (utf_text SQLITE_UTF16LE [0x61, 0x20AC, 0x1D11E]) = 8"
    by (simp add: utf_text_def len16)
  then show ?thesis
    using character_counts [OF l, of "[]"] character_counts [OF l, of "[0x42, 0]"] by (simp add: numeral_3_eq_3)
qed

end
