(* ===== verification/SqlVarint.thy ===== *)
theory SqlVarint
  imports Prelude "HOL-Library.Monad_Syntax"
begin

section \<open>Variable-length integers of the bundled SQLite (util.c)\<close>

text \<open>
  \<open>putVarint64\<close>, \<open>sqlite3PutVarint\<close>, \<open>sqlite3GetVarint\<close>, \<open>sqlite3GetVarint32\<close> and
  \<open>sqlite3VarintLen\<close>, as the unrolled and masked code has them, and the four-byte big-endian
  integers. A write is the list of the bytes written; a read past the end of the buffer is \<open>None\<close>.
\<close>

definition rd :: "u8 list \<Rightarrow> nat \<Rightarrow> u8 option" where
  "rd p i = (if i < length p then Some (p ! i) else None)"

subsection \<open>Writing\<close>

text \<open>The loops of \<open>putVarint64\<close>: \<open>i\<close> bytes down to \<open>p[0]\<close>, and the digits pushed on \<open>buf\<close>.\<close>

fun put_down :: "nat \<Rightarrow> u64 \<Rightarrow> u8 list" where
  "put_down 0 v = []"
| "put_down (Suc i) v = put_down i (drop_bit 7 v) @ [ucast ((v AND 0x7F) OR 0x80)]"

lemma drop_7_less: "v \<noteq> 0 \<Longrightarrow> unat (drop_bit 7 v) < unat v" for v :: u64
  by (simp add: unat_drop) (metis div_less_dividend one_less_numeral_iff semiring_norm(76) unat_gt_0)

function put_buf :: "u64 \<Rightarrow> u8 list \<Rightarrow> u8 list" where
  "put_buf v buf =
     (let buf = buf @ [ucast ((v AND 0x7F) OR 0x80)]; v' = drop_bit 7 v
      in if v' \<noteq> 0 then put_buf v' buf else buf)"
  by auto
termination
proof (relation "measure (\<lambda>(v, buf). unat v)")
  fix v :: u64 and buf x xa
  assume "x = buf @ [ucast ((v AND 0x7F) OR 0x80)]" and x: "xa = drop_bit 7 v" "xa \<noteq> 0"
  then have "v \<noteq> 0" by auto
  then show "((xa, x), v, buf) \<in> measure (\<lambda>(v, buf). unat v)"
    using drop_7_less x by simp
qed simp

declare put_buf.simps [simp del]

definition putVarint64 :: "u64 \<Rightarrow> u8 list" where
  "putVarint64 v =
     (if v AND push_bit 32 0xFF000000 \<noteq> 0
      then put_down 8 (drop_bit 8 v) @ [ucast v]
      else let buf = put_buf v []; buf = buf[0 := buf ! 0 AND 0x7F] in rev buf)"

definition sqlite3PutVarint :: "u64 \<Rightarrow> u8 list" where
  "sqlite3PutVarint v =
     (if v \<le> 0x7F then [ucast (v AND 0x7F)]
      else if v \<le> 0x3FFF then [ucast ((drop_bit 7 v AND 0x7F) OR 0x80), ucast (v AND 0x7F)]
      else putVarint64 v)"

function varint_len :: "u64 \<Rightarrow> nat \<Rightarrow> nat" where
  "varint_len v i = (let v = drop_bit 7 v in if v \<noteq> 0 then varint_len v (i + 1) else i)"
  by auto
termination
  by (relation "measure (\<lambda>(v, i). unat v)") (auto intro!: drop_7_less)

declare varint_len.simps [simp del]

definition sqlite3VarintLen :: "u64 \<Rightarrow> nat" where
  "sqlite3VarintLen v = varint_len v 1"

subsection \<open>Reading\<close>

definition SLOT_2_0 :: u32 where "SLOT_2_0 = 0x001fc07f"
definition SLOT_4_2_0 :: u32 where "SLOT_4_2_0 = 0xf01fc07f"

definition ones7 :: u32 where "ones7 = 0x7F"

definition high_clear :: "u32 \<Rightarrow> bool" where
  "high_clear a \<longleftrightarrow> a AND 0x80 = 0"

definition join64 :: "u32 \<Rightarrow> u32 \<Rightarrow> u64" where
  "join64 s a = push_bit 32 (ucast s) OR ucast a"

definition sqlite3GetVarint :: "u8 list \<Rightarrow> (u64 \<times> nat) option" where
  "sqlite3GetVarint p = do {
     p0 \<leftarrow> rd p 0;
     if 0 \<le> sint p0 then Some (ucast p0, 1) else do {
     p1 \<leftarrow> rd p 1;
     if 0 \<le> sint p1 then Some (ucast (push_bit 7 (ucast (p0 AND 0x7F)) OR ucast p1 :: u32), 2) else do {
     let a = push_bit 14 (ucast p0); let b = ucast p1;
     p2 \<leftarrow> rd p 2;
     let a = a OR ucast p2;
     if high_clear a
     then let a = a AND SLOT_2_0; b = b AND ones7; b = push_bit 7 b; a = a OR b in Some (ucast a, 3)
     else do {
     let a = a AND SLOT_2_0; let b = push_bit 14 b;
     p3 \<leftarrow> rd p 3;
     let b = b OR ucast p3;
     if high_clear b
     then let b = b AND SLOT_2_0; a = push_bit 7 a; a = a OR b in Some (ucast a, 4)
     else do {
     let b = b AND SLOT_2_0; let s = a; let a = push_bit 14 a;
     p4 \<leftarrow> rd p 4;
     let a = a OR ucast p4;
     if high_clear a
     then let b = push_bit 7 b; a = a OR b; s = drop_bit 18 s in Some (join64 s a, 5)
     else do {
     let s = push_bit 7 s; let s = s OR b; let b = push_bit 14 b;
     p5 \<leftarrow> rd p 5;
     let b = b OR ucast p5;
     if high_clear b
     then let a = a AND SLOT_2_0; a = push_bit 7 a; a = a OR b; s = drop_bit 18 s in Some (join64 s a, 6)
     else do {
     let a = push_bit 14 a;
     p6 \<leftarrow> rd p 6;
     let a = a OR ucast p6;
     if high_clear a
     then let a = a AND SLOT_4_2_0; b = b AND SLOT_2_0; b = push_bit 7 b; a = a OR b; s = drop_bit 11 s
          in Some (join64 s a, 7)
     else do {
     let a = a AND SLOT_2_0; let b = push_bit 14 b;
     p7 \<leftarrow> rd p 7;
     let b = b OR ucast p7;
     if high_clear b
     then let b = b AND SLOT_4_2_0; a = push_bit 7 a; a = a OR b; s = drop_bit 4 s in Some (join64 s a, 8)
     else do {
     let a = push_bit 15 a;
     p8 \<leftarrow> rd p 8;
     let a = a OR ucast p8;
     let b = b AND SLOT_2_0; let b = push_bit 8 b; let a = a OR b;
     let s = push_bit 4 s; let b = ucast p4; let b = b AND ones7; let b = drop_bit 3 b; let s = s OR b;
     Some (join64 s a, 9) }}}}}}}}}"

text \<open>
  \<open>sqlite3GetVarint32\<close> starts at the two-byte case: the macro \<open>getVarint32\<close> has taken the
  one-byte case, and is defined, so the code between \<open>#ifndef getVarint32\<close> is not compiled.
\<close>

definition sqlite3GetVarint32 :: "u8 list \<Rightarrow> (u32 \<times> nat) option" where
  "sqlite3GetVarint32 p = do {
     p0 \<leftarrow> rd p 0;
     let a = ucast p0;
     p1 \<leftarrow> rd p 1;
     let b = ucast p1;
     if high_clear b
     then let a = a AND ones7; a = push_bit 7 a in Some (a OR b, 2)
     else do {
     let a = push_bit 14 a;
     p2 \<leftarrow> rd p 2;
     let a = a OR ucast p2;
     if high_clear a
     then let a = a AND SLOT_2_0; b = b AND ones7; b = push_bit 7 b in Some (a OR b, 3)
     else do {
     (v64, n) \<leftarrow> sqlite3GetVarint p;
     Some (if v64 AND 0xFFFFFFFF \<noteq> v64 then 0xFFFFFFFF else ucast v64, n) }}}"

definition getVarint32 :: "u8 list \<Rightarrow> (u32 \<times> nat) option" where
  "getVarint32 A = do {
     p0 \<leftarrow> rd A 0;
     if p0 < 0x80 then Some (ucast p0, 1) else sqlite3GetVarint32 A }"

subsection \<open>Four-byte integers\<close>

definition sqlite3Get4byte :: "u8 list \<Rightarrow> u32 option" where
  "sqlite3Get4byte p = do {
     p0 \<leftarrow> rd p 0; p1 \<leftarrow> rd p 1; p2 \<leftarrow> rd p 2; p3 \<leftarrow> rd p 3;
     Some (push_bit 24 (ucast p0) OR push_bit 16 (ucast p1) OR push_bit 8 (ucast p2) OR ucast p3) }"

definition sqlite3Put4byte :: "u32 \<Rightarrow> u8 list" where
  "sqlite3Put4byte v = [ucast (drop_bit 24 v), ucast (drop_bit 16 v), ucast (drop_bit 8 v), ucast v]"

lemma Get4byte_Put4byte: "sqlite3Get4byte (sqlite3Put4byte v @ rest) = Some v"
proof -
  have "push_bit 24 (ucast (ucast (drop_bit 24 v) :: u8)) OR push_bit 16 (ucast (ucast (drop_bit 16 v) :: u8)) OR
     push_bit 8 (ucast (ucast (drop_bit 8 v) :: u8)) OR ucast (ucast v :: u8) = v"
    unfolding word_eq_bits by (simp add: upt_start) (simp add: bit_simps)
  then show ?thesis by (simp add: sqlite3Get4byte_def sqlite3Put4byte_def rd_def)
qed

subsection \<open>The unrolled decoder against the format\<close>

text \<open>The format as the comment in \<open>util.c\<close> gives it: seven bits a byte, eight in the ninth.\<close>

fun varint_ref :: "nat \<Rightarrow> u64 \<Rightarrow> u8 list \<Rightarrow> (u64 \<times> nat) option" where
  "varint_ref k acc [] = None"
| "varint_ref k acc (b # p) =
     (if k = 8 then Some (push_bit 8 acc OR ucast b, 9)
      else if \<not> bit b 7 then Some (push_bit 7 acc OR ucast b, Suc k)
      else varint_ref (Suc k) (push_bit 7 acc OR ucast (b AND 0x7F)) p)"

lemma rd_simps [simp]: "rd [] n = None" "rd (b # p) 0 = Some b" "rd (b # p) (Suc n) = rd p n"
  "rd (b # p) (numeral k) = rd p (pred_numeral k)"
  by (auto simp: rd_def numeral_eq_Suc)

lemma bit_byte_high [simp]: "8 \<le> n \<Longrightarrow> \<not> bit (b :: u8) n"
  using bit_imp_le_length [of b n] by auto

lemma signed_char: "0 \<le> sint (b :: u8) \<longleftrightarrow> \<not> bit b 7"
  unfolding not_less [symmetric] bit_last_iff [symmetric] by simp

lemma high_clear_bit: "high_clear a \<longleftrightarrow> \<not> bit a 7"
  unfolding high_clear_def word_eq_bits by (simp add: upt_start) (simp add: bit_simps)

lemmas varint_blast = word_eq_bits upt_start join64_def SLOT_2_0_def SLOT_4_2_0_def ones7_def

lemma get_9:
  assumes "bit p0 7" "bit p1 7" "bit p2 7" "bit p3 7" "bit p4 7" "bit p5 7" "bit p6 7" "bit p7 7"
  shows "sqlite3GetVarint (p0 # p1 # p2 # p3 # p4 # p5 # p6 # p7 # p8 # q) = varint_ref 0 0 (p0 # p1 # p2 # p3 # p4 # p5 # p6 # p7 # p8 # q)"
  using assms
  by (simp add: sqlite3GetVarint_def signed_char high_clear_bit Let_def bit_simps SLOT_2_0_def)
     (simp add: varint_blast, simp add: bit_simps disj_commute)

lemma get_8:
  assumes "bit p0 7" "bit p1 7" "bit p2 7" "bit p3 7" "bit p4 7" "bit p5 7" "bit p6 7" "\<not> bit p7 7"
  shows "sqlite3GetVarint (p0 # p1 # p2 # p3 # p4 # p5 # p6 # p7 # q) = varint_ref 0 0 (p0 # p1 # p2 # p3 # p4 # p5 # p6 # p7 # q)"
  using assms
  by (simp add: sqlite3GetVarint_def signed_char high_clear_bit Let_def bit_simps SLOT_2_0_def)
     (simp add: varint_blast, simp add: bit_simps disj_commute)

lemma get_7:
  assumes "bit p0 7" "bit p1 7" "bit p2 7" "bit p3 7" "bit p4 7" "bit p5 7" "\<not> bit p6 7"
  shows "sqlite3GetVarint (p0 # p1 # p2 # p3 # p4 # p5 # p6 # q) = varint_ref 0 0 (p0 # p1 # p2 # p3 # p4 # p5 # p6 # q)"
  using assms
  by (simp add: sqlite3GetVarint_def signed_char high_clear_bit Let_def bit_simps SLOT_2_0_def)
     (simp add: varint_blast, simp add: bit_simps disj_commute)

lemma get_6:
  assumes "bit p0 7" "bit p1 7" "bit p2 7" "bit p3 7" "bit p4 7" "\<not> bit p5 7"
  shows "sqlite3GetVarint (p0 # p1 # p2 # p3 # p4 # p5 # q) = varint_ref 0 0 (p0 # p1 # p2 # p3 # p4 # p5 # q)"
  using assms
  by (simp add: sqlite3GetVarint_def signed_char high_clear_bit Let_def bit_simps SLOT_2_0_def)
     (simp add: varint_blast, simp add: bit_simps disj_commute)

lemma get_5:
  assumes "bit p0 7" "bit p1 7" "bit p2 7" "bit p3 7" "\<not> bit p4 7"
  shows "sqlite3GetVarint (p0 # p1 # p2 # p3 # p4 # q) = varint_ref 0 0 (p0 # p1 # p2 # p3 # p4 # q)"
  using assms
  by (simp add: sqlite3GetVarint_def signed_char high_clear_bit Let_def bit_simps SLOT_2_0_def)
     (simp add: varint_blast, simp add: bit_simps disj_commute)

lemma get_4:
  assumes "bit p0 7" "bit p1 7" "bit p2 7" "\<not> bit p3 7"
  shows "sqlite3GetVarint (p0 # p1 # p2 # p3 # q) = varint_ref 0 0 (p0 # p1 # p2 # p3 # q)"
  using assms
  by (simp add: sqlite3GetVarint_def signed_char high_clear_bit Let_def bit_simps SLOT_2_0_def)
     (simp add: varint_blast, simp add: bit_simps disj_commute)

lemma get_3:
  assumes "bit p0 7" "bit p1 7" "\<not> bit p2 7"
  shows "sqlite3GetVarint (p0 # p1 # p2 # q) = varint_ref 0 0 (p0 # p1 # p2 # q)"
  using assms
  by (simp add: sqlite3GetVarint_def signed_char high_clear_bit Let_def bit_simps SLOT_2_0_def)
     (simp add: varint_blast, simp add: bit_simps disj_commute)

lemma get_2:
  assumes "bit p0 7" "\<not> bit p1 7"
  shows "sqlite3GetVarint (p0 # p1 # q) = varint_ref 0 0 (p0 # p1 # q)"
  using assms
  by (simp add: sqlite3GetVarint_def signed_char high_clear_bit Let_def bit_simps SLOT_2_0_def)
     (simp add: varint_blast, simp add: bit_simps disj_commute)

lemma get_1:
  assumes "\<not> bit p0 7"
  shows "sqlite3GetVarint (p0 # q) = varint_ref 0 0 (p0 # q)"
  using assms by (simp add: sqlite3GetVarint_def signed_char)

lemma get_short:
  "sqlite3GetVarint ([]) = varint_ref 0 0 ([])"
  "bit p0 7 \<Longrightarrow> sqlite3GetVarint (p0 # []) = varint_ref 0 0 (p0 # [])"
  "bit p0 7 \<Longrightarrow> bit p1 7 \<Longrightarrow> sqlite3GetVarint (p0 # p1 # []) = varint_ref 0 0 (p0 # p1 # [])"
  "bit p0 7 \<Longrightarrow> bit p1 7 \<Longrightarrow> bit p2 7 \<Longrightarrow> sqlite3GetVarint (p0 # p1 # p2 # []) = varint_ref 0 0 (p0 # p1 # p2 # [])"
  "bit p0 7 \<Longrightarrow> bit p1 7 \<Longrightarrow> bit p2 7 \<Longrightarrow> bit p3 7 \<Longrightarrow> sqlite3GetVarint (p0 # p1 # p2 # p3 # []) = varint_ref 0 0 (p0 # p1 # p2 # p3 # [])"
  "bit p0 7 \<Longrightarrow> bit p1 7 \<Longrightarrow> bit p2 7 \<Longrightarrow> bit p3 7 \<Longrightarrow> bit p4 7 \<Longrightarrow> sqlite3GetVarint (p0 # p1 # p2 # p3 # p4 # []) = varint_ref 0 0 (p0 # p1 # p2 # p3 # p4 # [])"
  "bit p0 7 \<Longrightarrow> bit p1 7 \<Longrightarrow> bit p2 7 \<Longrightarrow> bit p3 7 \<Longrightarrow> bit p4 7 \<Longrightarrow> bit p5 7 \<Longrightarrow> sqlite3GetVarint (p0 # p1 # p2 # p3 # p4 # p5 # []) = varint_ref 0 0 (p0 # p1 # p2 # p3 # p4 # p5 # [])"
  "bit p0 7 \<Longrightarrow> bit p1 7 \<Longrightarrow> bit p2 7 \<Longrightarrow> bit p3 7 \<Longrightarrow> bit p4 7 \<Longrightarrow> bit p5 7 \<Longrightarrow> bit p6 7 \<Longrightarrow> sqlite3GetVarint (p0 # p1 # p2 # p3 # p4 # p5 # p6 # []) = varint_ref 0 0 (p0 # p1 # p2 # p3 # p4 # p5 # p6 # [])"
  "bit p0 7 \<Longrightarrow> bit p1 7 \<Longrightarrow> bit p2 7 \<Longrightarrow> bit p3 7 \<Longrightarrow> bit p4 7 \<Longrightarrow> bit p5 7 \<Longrightarrow> bit p6 7 \<Longrightarrow> bit p7 7 \<Longrightarrow> sqlite3GetVarint (p0 # p1 # p2 # p3 # p4 # p5 # p6 # p7 # []) = varint_ref 0 0 (p0 # p1 # p2 # p3 # p4 # p5 # p6 # p7 # [])"
  by (simp_all add: sqlite3GetVarint_def signed_char high_clear_bit Let_def bit_simps SLOT_2_0_def)

lemma get_from_8: "bit p0 7 \<Longrightarrow> bit p1 7 \<Longrightarrow> bit p2 7 \<Longrightarrow> bit p3 7 \<Longrightarrow> bit p4 7 \<Longrightarrow> bit p5 7 \<Longrightarrow> bit p6 7 \<Longrightarrow> bit p7 7 \<Longrightarrow>
    sqlite3GetVarint (p0 # p1 # p2 # p3 # p4 # p5 # p6 # p7 # q) = varint_ref 0 0 (p0 # p1 # p2 # p3 # p4 # p5 # p6 # p7 # q)"
  by (cases q) (simp_all add: get_short get_9)

lemma get_from_7: "bit p0 7 \<Longrightarrow> bit p1 7 \<Longrightarrow> bit p2 7 \<Longrightarrow> bit p3 7 \<Longrightarrow> bit p4 7 \<Longrightarrow> bit p5 7 \<Longrightarrow> bit p6 7 \<Longrightarrow>
    sqlite3GetVarint (p0 # p1 # p2 # p3 # p4 # p5 # p6 # q) = varint_ref 0 0 (p0 # p1 # p2 # p3 # p4 # p5 # p6 # q)"
  by (cases q; cases "bit (hd q) 7") (simp_all add: get_short get_8 get_from_8)

lemma get_from_6: "bit p0 7 \<Longrightarrow> bit p1 7 \<Longrightarrow> bit p2 7 \<Longrightarrow> bit p3 7 \<Longrightarrow> bit p4 7 \<Longrightarrow> bit p5 7 \<Longrightarrow>
    sqlite3GetVarint (p0 # p1 # p2 # p3 # p4 # p5 # q) = varint_ref 0 0 (p0 # p1 # p2 # p3 # p4 # p5 # q)"
  by (cases q; cases "bit (hd q) 7") (simp_all add: get_short get_7 get_from_7)

lemma get_from_5: "bit p0 7 \<Longrightarrow> bit p1 7 \<Longrightarrow> bit p2 7 \<Longrightarrow> bit p3 7 \<Longrightarrow> bit p4 7 \<Longrightarrow>
    sqlite3GetVarint (p0 # p1 # p2 # p3 # p4 # q) = varint_ref 0 0 (p0 # p1 # p2 # p3 # p4 # q)"
  by (cases q; cases "bit (hd q) 7") (simp_all add: get_short get_6 get_from_6)

lemma get_from_4: "bit p0 7 \<Longrightarrow> bit p1 7 \<Longrightarrow> bit p2 7 \<Longrightarrow> bit p3 7 \<Longrightarrow>
    sqlite3GetVarint (p0 # p1 # p2 # p3 # q) = varint_ref 0 0 (p0 # p1 # p2 # p3 # q)"
  by (cases q; cases "bit (hd q) 7") (simp_all add: get_short get_5 get_from_5)

lemma get_from_3: "bit p0 7 \<Longrightarrow> bit p1 7 \<Longrightarrow> bit p2 7 \<Longrightarrow>
    sqlite3GetVarint (p0 # p1 # p2 # q) = varint_ref 0 0 (p0 # p1 # p2 # q)"
  by (cases q; cases "bit (hd q) 7") (simp_all add: get_short get_4 get_from_4)

lemma get_from_2: "bit p0 7 \<Longrightarrow> bit p1 7 \<Longrightarrow>
    sqlite3GetVarint (p0 # p1 # q) = varint_ref 0 0 (p0 # p1 # q)"
  by (cases q; cases "bit (hd q) 7") (simp_all add: get_short get_3 get_from_3)

lemma get_from_1: "bit p0 7 \<Longrightarrow>
    sqlite3GetVarint (p0 # q) = varint_ref 0 0 (p0 # q)"
  by (cases q; cases "bit (hd q) 7") (simp_all add: get_short get_2 get_from_2)

text \<open>
  C15. The unrolled, masked decoder computes the format: on every byte sequence, complete or cut
  short, \<open>sqlite3GetVarint\<close> yields the value and the length that the plain seven-bits-a-byte loop
  yields.
\<close>

theorem GetVarint_is_ref: "sqlite3GetVarint p = varint_ref 0 0 p"
  by (cases p; cases "bit (hd p) 7") (simp_all add: get_short get_1 get_from_1)

subsection \<open>Round trip\<close>

function ndig :: "u64 \<Rightarrow> nat" where
  "ndig v = (if drop_bit 7 v = 0 then 1 else Suc (ndig (drop_bit 7 v)))"
  by auto
termination
  by (relation "measure unat") (auto intro!: drop_7_less)

declare ndig.simps [simp del]

lemma ndig_pos [simp]: "0 < ndig v"
  by (subst ndig.simps) simp

lemma drop_7_zero: "drop_bit 7 v = 0 \<longleftrightarrow> unat v < 128" for v :: u64
  by (simp add: word_unat_eq_iff unat_drop div_eq_0_iff)

lemma ndig_le: "ndig v \<le> Suc n \<longleftrightarrow> unat v < 128 ^ Suc n"
proof (induction v arbitrary: n rule: ndig.induct)
  case (1 v)
  show ?case
  proof (cases "drop_bit 7 v = 0")
    case True
    then have "unat v < 128" by (simp add: drop_7_zero)
    moreover have "(128::nat) \<le> 128 ^ Suc n" by simp
    ultimately have "unat v < 128 ^ Suc n" by (rule less_le_trans)
    then show ?thesis using True by (simp add: ndig.simps)
  next
    case False
    then have v: "\<not> unat v < 128" by (simp add: drop_7_zero)
    have d: "unat (drop_bit 7 v) = unat v div 128" by (simp add: unat_drop)
    show ?thesis
    proof (cases n)
      case 0
      have "0 < ndig (drop_bit 7 v)" by simp
      then show ?thesis using False v 0 by (subst ndig.simps) simp
    next
      case (Suc m)
      have "ndig v \<le> Suc n \<longleftrightarrow> unat v div 128 < 128 ^ Suc m"
        using 1 [OF False, of m] False Suc d by (subst ndig.simps) simp
      also have "\<dots> \<longleftrightarrow> unat v < 128 ^ Suc n"
        using Suc by (simp add: div_less_iff_less_mult mult.commute)
      finally show ?thesis .
    qed
  qed
qed

lemma varint_len_ndig: "varint_len v i = i + ndig v - 1"
proof (induction v i rule: varint_len.induct)
  case (1 v i)
  have "0 < ndig (drop_bit 7 v)" by simp
  then show ?case
    using 1 by (subst varint_len.simps, subst ndig.simps) (auto simp: Let_def)
qed

lemma length_put_down [simp]: "length (put_down n v) = n"
  by (induction n arbitrary: v) auto

lemma put_buf_down: "rev (put_buf v buf) = put_down (ndig v) v @ rev buf"
proof (induction v buf rule: put_buf.induct)
  case (1 v buf)
  then show ?case
    by (subst put_buf.simps, subst ndig.simps) (simp add: Let_def)
qed

lemma low_7_byte: "ucast (ucast (v AND 0x7F OR 0x80) AND 0x7F :: u8) = take_bit 7 (v :: u64)"
  unfolding word_eq_bits by (simp add: upt_start) (simp add: bit_simps)

lemma put_down_bit: "bit (ucast (v AND 0x7F OR 0x80) :: u8) 7" for v :: u64
  by (simp add: bit_simps)

lemma decode_put_down:
  "k + i \<le> 8 \<Longrightarrow> varint_ref k acc (put_down i w @ q) =
     varint_ref (k + i) (push_bit (7 * i) acc OR take_bit (7 * i) w) q"
proof (induction i arbitrary: w q)
  case (Suc i)
  have "push_bit 7 (push_bit (7 * i) acc OR take_bit (7 * i) (drop_bit 7 w)) OR take_bit 7 w =
      push_bit (7 * Suc i) acc OR take_bit (7 * Suc i) w"
    by (rule bit_word_eqI) (auto simp: bit_simps)
  then show ?case
    using Suc by (simp add: put_down_bit low_7_byte)
qed simp
lemma bit_u64_high [simp]: "64 \<le> n \<Longrightarrow> \<not> bit (v :: u64) n"
  using bit_imp_le_length [of v n] by auto

lemma high_byte_zero: "v AND push_bit 32 0xFF000000 = 0 \<longleftrightarrow> unat (v :: u64) < 2 ^ 56"
proof -
  have "v AND push_bit 32 0xFF000000 = 0 \<longleftrightarrow> drop_bit 56 v = 0"
    unfolding word_eq_bits by (simp add: upt_start) (simp add: bit_simps)
  also have "\<dots> \<longleftrightarrow> unat v < 2 ^ 56"
    by (simp add: word_unat_eq_iff unat_drop div_eq_0_iff)
  finally show ?thesis .
qed

lemma putVarint64_cases:
  "putVarint64 v =
     (if unat v < 2 ^ 56 then rev ((put_buf v [])[0 := put_buf v [] ! 0 AND 0x7F])
      else put_down 8 (drop_bit 8 v) @ [ucast v])"
  unfolding putVarint64_def high_byte_zero Let_def by (simp only: not_not if_not_P if_P split: if_split) blast

lemma clear_flag: "ucast (ucast (v AND 0x7F OR 0x80) AND 0x7F :: u8) = take_bit 7 (v :: u64)"
  "\<not> bit (ucast (v AND 0x7F OR 0x80) AND 0x7F :: u8) 7"
  using low_7_byte [of v] by (simp_all add: bit_simps)

lemma putVarint64_shape:
  assumes "unat v < 2 ^ 56"
  shows "putVarint64 v = put_down (ndig v - 1) (drop_bit 7 v) @ [ucast (v AND 0x7F OR 0x80) AND 0x7F]"
proof -
  have r: "rev (put_buf v []) = put_down (ndig v) v" using put_buf_down [of v "[]"] by simp
  obtain n where n: "ndig v = Suc n" using ndig_pos [of v] by (cases "ndig v") auto
  have "put_buf v [] = ucast (v AND 0x7F OR 0x80) # rev (put_down n (drop_bit 7 v))"
    using arg_cong [OF r, of rev] by (simp add: n)
  then show ?thesis using assms by (simp add: putVarint64_cases n)
qed

lemma take_bit_whole: "unat v < 2 ^ n \<Longrightarrow> take_bit n v = (v :: u64)"
  by (simp add: word_unat_eq_iff unsigned_take_bit_eq take_bit_nat_eq_self)

lemma ndig_bound: "unat v < 2 ^ 56 \<Longrightarrow> ndig v \<le> 8"
  using ndig_le [of v 7] by simp

lemma GetVarint_put64: "unat v < 2 ^ 56 \<Longrightarrow> sqlite3GetVarint (putVarint64 v @ rest) = Some (v, ndig v)"
proof -
  assume v: "unat v < 2 ^ 56"
  obtain n where n: "ndig v = Suc n" using ndig_pos [of v] by (cases "ndig v") auto
  have "unat v < 128 ^ Suc n" using ndig_le [of v n] n by simp
  then have "unat (drop_bit 7 v) < 128 ^ n"
    by (simp add: unat_drop div_less_iff_less_mult mult.commute)
  then have "unat (drop_bit 7 v) < 2 ^ (7 * n)" by (simp add: power_mult)
  then have t: "take_bit (7 * n) (drop_bit 7 v) = drop_bit 7 v" by (rule take_bit_whole)
  have "push_bit 7 (drop_bit 7 v) OR take_bit 7 v = v"
    by (rule bit_word_eqI) (auto simp: bit_simps)
  then show ?thesis
    using ndig_bound [OF v] n
    by (simp add: GetVarint_is_ref putVarint64_shape [OF v] decode_put_down t clear_flag)
qed

lemma Get_Put_9: "\<not> unat v < 2 ^ 56 \<Longrightarrow> sqlite3GetVarint (putVarint64 v @ rest) = Some (v, 9)"
proof -
  assume v: "\<not> unat v < 2 ^ 56"
  have "unat v < 2 ^ 64" using unsigned_less [of v, where 'a=nat] by simp
  then have "unat (drop_bit 8 v) < 2 ^ 56" by (simp add: unat_drop div_less_iff_less_mult)
  then have "take_bit 56 (drop_bit 8 v) = drop_bit 8 v" by (rule take_bit_whole)
  moreover have "push_bit 8 (drop_bit 8 v) OR ucast (ucast v :: u8) = v"
    by (rule bit_word_eqI) (auto simp: bit_simps)
  moreover have "putVarint64 v = put_down 8 (drop_bit 8 v) @ [ucast v]"
    using v by (simp only: putVarint64_cases if_False)
  ultimately show ?thesis
    by (simp add: GetVarint_is_ref decode_put_down del: put_down.simps)
qed

lemma length_put64: "length (putVarint64 v) = (if unat v < 2 ^ 56 then ndig v else 9)"
  using putVarint64_shape [of v] by (simp add: putVarint64_cases)

lemma PutVarint_64: "sqlite3PutVarint v = putVarint64 v"
proof -
  consider "unat v < 128" | "128 \<le> unat v" "unat v < 16384" | "16384 \<le> unat v" by linarith
  then show ?thesis
  proof cases
    case 1
    then have "ndig v = 1" using drop_7_zero [of v] by (subst ndig.simps) simp
    moreover have "v \<le> 0x7F" using 1 by (simp add: word_le_nat_alt)
    moreover have "ucast (v AND 0x7F OR 0x80) AND 0x7F = (ucast (v AND 0x7F) :: u8)"
      unfolding word_eq_bits by (simp add: upt_start) (simp add: bit_simps)
    ultimately show ?thesis using 1 by (simp add: sqlite3PutVarint_def putVarint64_shape)
  next
    case 2
    then have n: "ndig v = 2"
      using ndig_le [of v 1] ndig_le [of v 0] by simp
    have "\<not> v \<le> 0x7F" "v \<le> 0x3FFF" using 2 by (simp_all add: word_le_nat_alt)
    moreover have "ucast (v AND 0x7F OR 0x80) AND 0x7F = (ucast (v AND 0x7F) :: u8)"
      unfolding word_eq_bits by (simp add: upt_start) (simp add: bit_simps)
    ultimately show ?thesis using 2 n by (simp add: sqlite3PutVarint_def putVarint64_shape)
  next
    case 3
    then have "\<not> v \<le> 0x7F" "\<not> v \<le> 0x3FFF" by (simp_all add: word_le_nat_alt)
    then show ?thesis by (simp add: sqlite3PutVarint_def)
  qed
qed

text \<open>
  What \<open>sqlite3PutVarint\<close> wrote is read back: for every 64-bit value, whatever bytes follow,
  \<open>sqlite3GetVarint\<close> returns the value and exactly the number of bytes written, at most nine.
\<close>

theorem varint_roundtrip:
  "sqlite3GetVarint (sqlite3PutVarint v @ rest) = Some (v, length (sqlite3PutVarint v)) \<and>
   length (sqlite3PutVarint v) \<in> {1..9}"
proof (cases "unat v < 2 ^ 56")
  case True
  then show ?thesis
    using GetVarint_put64 [OF True] ndig_bound [OF True] ndig_pos [of v]
    by (simp add: PutVarint_64 length_put64 Suc_le_eq)
next
  case False
  then show ?thesis using Get_Put_9 [OF False] by (simp add: PutVarint_64 length_put64)
qed

text \<open>
  \<open>sqlite3VarintLen\<close> is to return the number of bytes needed to store the value. It does so
  below \<open>2 ^ 63\<close> only: with the top bit set it returns ten, and the encoding has nine bytes.
\<close>

theorem VarintLen_exact_iff:
  "(sqlite3VarintLen v = length (sqlite3PutVarint v) \<longleftrightarrow> unat v < 2 ^ 63) \<and>
   (\<not> unat v < 2 ^ 63 \<longrightarrow> sqlite3VarintLen v = 10 \<and> length (sqlite3PutVarint v) = 9)"
proof -
  have len: "sqlite3VarintLen v = ndig v"
    using ndig_pos [of v] by (simp add: sqlite3VarintLen_def varint_len_ndig)
  have "unat v < 2 ^ 64" using unsigned_less [of v, where 'a=nat] by simp
  then have "ndig v \<le> 10" using ndig_le [of v 9] by simp
  moreover have "ndig v \<le> 9 \<longleftrightarrow> unat v < 2 ^ 63" using ndig_le [of v 8] by simp
  moreover have "ndig v \<le> 8 \<longleftrightarrow> unat v < 2 ^ 56" using ndig_le [of v 7] by simp
  moreover have "unat v < 2 ^ 56 \<Longrightarrow> unat v < 2 ^ 63" by simp
  ultimately show ?thesis
    by (cases "unat v < 2 ^ 56") (auto simp: len PutVarint_64 length_put64)
qed

theorem VarintLen_exact_iff_witness:
  "\<not> unat (0x8000000000000000 :: u64) < 2 ^ 63 \<and> sqlite3VarintLen 0x8000000000000000 = 10"
  using VarintLen_exact_iff [of "0x8000000000000000"] by simp

lemma mask32: "(v AND 0xFFFFFFFF \<noteq> v) \<longleftrightarrow> \<not> unat (v :: u64) < 2 ^ 32"
proof -
  have "unat (v AND 0xFFFFFFFF) = unat v mod 2 ^ 32"
    by (rule and_low_mask) (simp add: mask_eq_exp_minus_1)
  then show ?thesis by (simp add: word_unat_eq_iff mod_eq_self_iff_div_eq_0 div_eq_0_iff)
qed

text \<open>The reference value of a 32-bit read: what does not fit is \<open>0xFFFFFFFF\<close>.\<close>

definition saturate32 :: "u64 \<Rightarrow> u32" where
  "saturate32 v = (if unat v < 2 ^ 32 then ucast v else 0xFFFFFFFF)"

lemma byte_lt_80: "(b::u8) < 0x80 \<longleftrightarrow> \<not> bit b 7"
proof -
  have "drop_bit 7 b = 0 \<longleftrightarrow> \<not> bit b 7"
    unfolding word_eq_bits by (simp add: upt_start) (simp add: bit_simps)
  moreover have "drop_bit 7 b = 0 \<longleftrightarrow> unat b < 128"
    by (simp add: word_unat_eq_iff unat_drop div_eq_0_iff)
  ultimately show ?thesis by (simp add: word_less_nat_alt)
qed

lemma saturate_ucast: "saturate32 (ucast w) = w"
proof -
  have "unat (ucast w :: u64) = unat w"
    unfolding unsigned_ucast_eq using unsigned_less [of w, where 'a=nat] by (simp add: take_bit_nat_eq_self)
  moreover have "ucast (ucast w :: u64) = w"
    by (rule bit_word_eqI) (auto simp: bit_simps)
  moreover have "unat w < 2 ^ 32" using unsigned_less [of w, where 'a=nat] by simp
  ultimately show ?thesis by (simp add: saturate32_def)
qed

lemma saturate_1: "saturate32 (ucast (p0 :: u8)) = ucast p0"
proof -
  have "(ucast (ucast p0 :: u32) :: u64) = ucast p0"
    by (rule bit_word_eqI) (auto simp: bit_simps dest: bit_imp_le_length)
  then show ?thesis using saturate_ucast [of "ucast p0"] by simp
qed

lemma saturate_2:
  fixes p0 p1 :: u8
  shows
  "saturate32 (push_bit 7 (ucast (p0 AND 0x7F)) OR ucast p1) = push_bit 7 (ucast p0 AND ones7) OR ucast p1"
proof -
  have "push_bit 7 (ucast (p0 AND 0x7F)) OR ucast p1 = (ucast (push_bit 7 (ucast p0 AND ones7) OR ucast p1 :: u32) :: u64)"
    unfolding varint_blast by (simp add: upt_start) (simp add: bit_simps)
  then show ?thesis by (simp only: saturate_ucast)
qed

lemma saturate_3:
  fixes p0 p1 p2 :: u8
  assumes "\<not> bit p2 7"
  shows "saturate32 (push_bit 7 (push_bit 7 (ucast (p0 AND 0x7F)) OR ucast (p1 AND 0x7F)) OR ucast p2) =
   (push_bit 14 (ucast p0) OR ucast p2) AND SLOT_2_0 OR push_bit 7 (ucast p1 AND ones7)"
proof -
  have "push_bit 7 (push_bit 7 (ucast (p0 AND 0x7F)) OR ucast (p1 AND 0x7F)) OR ucast p2 =
     (ucast ((push_bit 14 (ucast p0) OR ucast p2) AND SLOT_2_0 OR push_bit 7 (ucast p1 AND ones7) :: u32) :: u64)"
    using assms unfolding varint_blast by (simp add: upt_start) (simp add: bit_simps disj_commute)
  then show ?thesis by (simp only: saturate_ucast)
qed

lemma saturate_wide: "(if v AND 0xFFFFFFFF \<noteq> v then 0xFFFFFFFF else ucast v) = saturate32 v"
  unfolding mask32 saturate32_def by simp

lemma bind_saturate: "(x \<bind> (\<lambda>(v, n). Some (f v, n))) = map_option (\<lambda>(v, n). (f v, n)) x"
  by (cases x) auto

text \<open>
  \<open>getVarint32\<close> is \<open>sqlite3GetVarint\<close> saturated at 32 bits, its unrolled one-, two- and
  three-byte cases included.
\<close>

theorem getVarint32_saturates:
  "getVarint32 p = map_option (\<lambda>(v, n). (saturate32 v, n)) (sqlite3GetVarint p)"
proof (cases p)
  case Nil
  then show ?thesis by (simp add: getVarint32_def GetVarint_is_ref)
next
  case (Cons p0 q)
  show ?thesis
  proof (cases "bit p0 7")
    case False
    then show ?thesis by (simp add: Cons getVarint32_def byte_lt_80 GetVarint_is_ref saturate_1)
  next
    case 1: True
    show ?thesis
    proof (cases q)
      case Nil
      then show ?thesis
        using 1 by (simp add: Cons getVarint32_def byte_lt_80 GetVarint_is_ref sqlite3GetVarint32_def)
    next
      case q: (Cons p1 q')
      show ?thesis
      proof (cases "bit p1 7")
        case False
        then show ?thesis using 1
          by (simp add: Cons q getVarint32_def byte_lt_80 GetVarint_is_ref sqlite3GetVarint32_def
              high_clear_bit bit_simps saturate_2 Let_def)
      next
        case 2: True
        show ?thesis
        proof (cases "q' = [] \<or> bit (hd q') 7")
          case True
          then show ?thesis using 1 2
            by (cases q') (auto simp: Cons q getVarint32_def byte_lt_80 sqlite3GetVarint32_def saturate_wide
              high_clear_bit bit_simps Let_def get_short bind_saturate)
        next
          case False
          then show ?thesis using 1 2 saturate_3 [of "hd q'" p0 p1]
            by (cases q') (simp_all add: Cons q getVarint32_def byte_lt_80 GetVarint_is_ref sqlite3GetVarint32_def
              high_clear_bit bit_simps Let_def)
        qed
      qed
    qed
  qed
qed

end
