(* ===== verification/SqlChar.thy ===== *)
theory SqlChar
  imports Prelude
begin

section \<open>Character classes and string comparison of the bundled SQLite\<close>

text \<open>
  The tables of \<open>global.c\<close>, the character macros over them, and the string routines of \<open>util.c\<close>
  that use them. A zero-terminated string is the list of the bytes before its terminator: reading
  at its end yields zero.
\<close>

subsection \<open>The tables\<close>

definition sqlite3UpperToLower :: "u8 list" where
  "sqlite3UpperToLower =
    [0, 1, 2, 3, 4, 5, 6, 7, 8, 9, 10, 11, 12, 13, 14, 15, 16, 17,
     18, 19, 20, 21, 22, 23, 24, 25, 26, 27, 28, 29, 30, 31, 32, 33, 34, 35,
     36, 37, 38, 39, 40, 41, 42, 43, 44, 45, 46, 47, 48, 49, 50, 51, 52, 53,
     54, 55, 56, 57, 58, 59, 60, 61, 62, 63, 64, 97, 98, 99, 100, 101, 102, 103,
     104, 105, 106, 107, 108, 109, 110, 111, 112, 113, 114, 115, 116, 117, 118, 119, 120, 121,
     122, 91, 92, 93, 94, 95, 96, 97, 98, 99, 100, 101, 102, 103, 104, 105, 106, 107,
     108, 109, 110, 111, 112, 113, 114, 115, 116, 117, 118, 119, 120, 121, 122, 123, 124, 125,
     126, 127, 128, 129, 130, 131, 132, 133, 134, 135, 136, 137, 138, 139, 140, 141, 142, 143,
     144, 145, 146, 147, 148, 149, 150, 151, 152, 153, 154, 155, 156, 157, 158, 159, 160, 161,
     162, 163, 164, 165, 166, 167, 168, 169, 170, 171, 172, 173, 174, 175, 176, 177, 178, 179,
     180, 181, 182, 183, 184, 185, 186, 187, 188, 189, 190, 191, 192, 193, 194, 195, 196, 197,
     198, 199, 200, 201, 202, 203, 204, 205, 206, 207, 208, 209, 210, 211, 212, 213, 214, 215,
     216, 217, 218, 219, 220, 221, 222, 223, 224, 225, 226, 227, 228, 229, 230, 231, 232, 233,
     234, 235, 236, 237, 238, 239, 240, 241, 242, 243, 244, 245, 246, 247, 248, 249, 250, 251,
     252, 253, 254, 255, 1, 0, 0, 1, 1, 0, 0, 1, 0, 1, 0, 1, 1, 0,
     1, 0, 0, 1]"

definition sqlite3CtypeMap :: "u8 list" where
  "sqlite3CtypeMap =
    [0x00, 0x00, 0x00, 0x00, 0x00, 0x00, 0x00, 0x00,
     0x00, 0x01, 0x01, 0x01, 0x01, 0x01, 0x00, 0x00,
     0x00, 0x00, 0x00, 0x00, 0x00, 0x00, 0x00, 0x00,
     0x00, 0x00, 0x00, 0x00, 0x00, 0x00, 0x00, 0x00,
     0x01, 0x00, 0x80, 0x00, 0x40, 0x00, 0x00, 0x80,
     0x00, 0x00, 0x00, 0x00, 0x00, 0x00, 0x00, 0x00,
     0x0c, 0x0c, 0x0c, 0x0c, 0x0c, 0x0c, 0x0c, 0x0c,
     0x0c, 0x0c, 0x00, 0x00, 0x00, 0x00, 0x00, 0x00,
     0x00, 0x0a, 0x0a, 0x0a, 0x0a, 0x0a, 0x0a, 0x02,
     0x02, 0x02, 0x02, 0x02, 0x02, 0x02, 0x02, 0x02,
     0x02, 0x02, 0x02, 0x02, 0x02, 0x02, 0x02, 0x02,
     0x02, 0x02, 0x02, 0x80, 0x00, 0x00, 0x00, 0x40,
     0x80, 0x2a, 0x2a, 0x2a, 0x2a, 0x2a, 0x2a, 0x22,
     0x22, 0x22, 0x22, 0x22, 0x22, 0x22, 0x22, 0x22,
     0x22, 0x22, 0x22, 0x22, 0x22, 0x22, 0x22, 0x22,
     0x22, 0x22, 0x22, 0x00, 0x00, 0x00, 0x00, 0x00,
     0x40, 0x40, 0x40, 0x40, 0x40, 0x40, 0x40, 0x40,
     0x40, 0x40, 0x40, 0x40, 0x40, 0x40, 0x40, 0x40,
     0x40, 0x40, 0x40, 0x40, 0x40, 0x40, 0x40, 0x40,
     0x40, 0x40, 0x40, 0x40, 0x40, 0x40, 0x40, 0x40,
     0x40, 0x40, 0x40, 0x40, 0x40, 0x40, 0x40, 0x40,
     0x40, 0x40, 0x40, 0x40, 0x40, 0x40, 0x40, 0x40,
     0x40, 0x40, 0x40, 0x40, 0x40, 0x40, 0x40, 0x40,
     0x40, 0x40, 0x40, 0x40, 0x40, 0x40, 0x40, 0x40,
     0x40, 0x40, 0x40, 0x40, 0x40, 0x40, 0x40, 0x40,
     0x40, 0x40, 0x40, 0x40, 0x40, 0x40, 0x40, 0x40,
     0x40, 0x40, 0x40, 0x40, 0x40, 0x40, 0x40, 0x40,
     0x40, 0x40, 0x40, 0x40, 0x40, 0x40, 0x40, 0x40,
     0x40, 0x40, 0x40, 0x40, 0x40, 0x40, 0x40, 0x40,
     0x40, 0x40, 0x40, 0x40, 0x40, 0x40, 0x40, 0x40,
     0x40, 0x40, 0x40, 0x40, 0x40, 0x40, 0x40, 0x40,
     0x40, 0x40, 0x40, 0x40, 0x40, 0x40, 0x40, 0x40]"

definition ctype :: "u8 \<Rightarrow> u8" where
  "ctype x = sqlite3CtypeMap ! unat x"

definition sqlite3Isspace :: "u8 \<Rightarrow> bool" where "sqlite3Isspace x \<longleftrightarrow> ctype x AND 0x01 \<noteq> 0"
definition sqlite3Isalnum :: "u8 \<Rightarrow> bool" where "sqlite3Isalnum x \<longleftrightarrow> ctype x AND 0x06 \<noteq> 0"
definition sqlite3Isalpha :: "u8 \<Rightarrow> bool" where "sqlite3Isalpha x \<longleftrightarrow> ctype x AND 0x02 \<noteq> 0"
definition sqlite3Isdigit :: "u8 \<Rightarrow> bool" where "sqlite3Isdigit x \<longleftrightarrow> ctype x AND 0x04 \<noteq> 0"
definition sqlite3Isxdigit :: "u8 \<Rightarrow> bool" where "sqlite3Isxdigit x \<longleftrightarrow> ctype x AND 0x08 \<noteq> 0"
definition sqlite3Isquote :: "u8 \<Rightarrow> bool" where "sqlite3Isquote x \<longleftrightarrow> ctype x AND 0x80 \<noteq> 0"
definition IdChar :: "u8 \<Rightarrow> bool" where "IdChar x \<longleftrightarrow> ctype x AND 0x46 \<noteq> 0"
definition sqlite3Toupper :: "u8 \<Rightarrow> u8" where "sqlite3Toupper x = x AND NOT (ctype x AND 0x20)"
definition sqlite3Tolower :: "u8 \<Rightarrow> u8" where "sqlite3Tolower x = sqlite3UpperToLower ! unat x"

subsection \<open>The classes as ranges\<close>

definition lower_nat :: "nat \<Rightarrow> nat" where
  "lower_nat n = (if 65 \<le> n \<and> n \<le> 90 then n + 32 else n)"

definition digit_nat :: "nat \<Rightarrow> bool" where "digit_nat n \<longleftrightarrow> 48 \<le> n \<and> n \<le> 57"
definition alpha_nat :: "nat \<Rightarrow> bool" where "alpha_nat n \<longleftrightarrow> 65 \<le> n \<and> n \<le> 90 \<or> 97 \<le> n \<and> n \<le> 122"
definition space_nat :: "nat \<Rightarrow> bool" where "space_nat n \<longleftrightarrow> 9 \<le> n \<and> n \<le> 13 \<or> n = 32"
definition xdigit_nat :: "nat \<Rightarrow> bool" where
  "xdigit_nat n \<longleftrightarrow> digit_nat n \<or> 65 \<le> n \<and> n \<le> 70 \<or> 97 \<le> n \<and> n \<le> 102"
definition quote_nat :: "nat \<Rightarrow> bool" where "quote_nat n \<longleftrightarrow> n = 34 \<or> n = 39 \<or> n = 91 \<or> n = 96"
definition idchar_nat :: "nat \<Rightarrow> bool" where
  "idchar_nat n \<longleftrightarrow> alpha_nat n \<or> digit_nat n \<or> n = 36 \<or> n = 95 \<or> 128 \<le> n"

lemma lower_table: "take 256 sqlite3UpperToLower = map (\<lambda>n. word_of_nat (lower_nat n)) [0..<256]"
  by code_simp

lemma class_table:
  "list_all (\<lambda>(c, n). ((c AND 0x01 \<noteq> 0) = space_nat n) \<and> ((c AND 0x02 \<noteq> 0) = alpha_nat n) \<and>
     ((c AND 0x04 \<noteq> 0) = digit_nat n) \<and> ((c AND 0x06 \<noteq> 0) = (alpha_nat n \<or> digit_nat n)) \<and>
     ((c AND 0x08 \<noteq> 0) = xdigit_nat n) \<and> ((c AND 0x80 \<noteq> 0) = quote_nat n) \<and>
     ((c AND 0x46 \<noteq> 0) = idchar_nat n)) (zip sqlite3CtypeMap [0..<256])"
  by code_simp

lemma length_ctype: "length sqlite3CtypeMap = 256"
  by (simp add: sqlite3CtypeMap_def)

lemma ctype_row: "(ctype x, unat x) \<in> set (zip sqlite3CtypeMap [0..<256])"
proof -
  have "unat x < 256" by simp
  then show ?thesis
    by (auto simp: in_set_conv_nth length_ctype ctype_def simp del: byte_less intro!: exI [of _ "unat x"])
qed

lemma class_ranges:
  "sqlite3Isspace x \<longleftrightarrow> space_nat (unat x)" "sqlite3Isalpha x \<longleftrightarrow> alpha_nat (unat x)"
  "sqlite3Isdigit x \<longleftrightarrow> digit_nat (unat x)" "sqlite3Isalnum x \<longleftrightarrow> alpha_nat (unat x) \<or> digit_nat (unat x)"
  "sqlite3Isxdigit x \<longleftrightarrow> xdigit_nat (unat x)" "sqlite3Isquote x \<longleftrightarrow> quote_nat (unat x)"
  "IdChar x \<longleftrightarrow> idchar_nat (unat x)"
proof -
  note bspec [OF class_table [unfolded list_all_iff] ctype_row [of x], simplified prod.case]
  then show "sqlite3Isspace x \<longleftrightarrow> space_nat (unat x)" "sqlite3Isalpha x \<longleftrightarrow> alpha_nat (unat x)"
    "sqlite3Isdigit x \<longleftrightarrow> digit_nat (unat x)" "sqlite3Isalnum x \<longleftrightarrow> alpha_nat (unat x) \<or> digit_nat (unat x)"
    "sqlite3Isxdigit x \<longleftrightarrow> xdigit_nat (unat x)" "sqlite3Isquote x \<longleftrightarrow> quote_nat (unat x)"
    "IdChar x \<longleftrightarrow> idchar_nat (unat x)"
    by (simp_all only: sqlite3Isspace_def sqlite3Isalpha_def sqlite3Isdigit_def sqlite3Isalnum_def
        sqlite3Isxdigit_def sqlite3Isquote_def IdChar_def)
qed

lemma Tolower_nat: "unat (sqlite3Tolower x) = lower_nat (unat x)"
proof -
  have x: "unat x < 256" by simp
  then have "sqlite3Tolower x = take 256 sqlite3UpperToLower ! unat x"
    by (simp add: sqlite3Tolower_def del: byte_less)
  also have "\<dots> = word_of_nat (lower_nat (unat x))"
    using x by (simp only: lower_table nth_map length_upt nth_upt) simp
  also have "unat \<dots> = lower_nat (unat x)"
    using x by (simp only: unat_of_nat) (simp add: lower_nat_def)
  finally show ?thesis .
qed

lemma Tolower_0: "sqlite3Tolower x = 0 \<longleftrightarrow> x = 0"
  unfolding word_unat_eq_iff Tolower_nat by (simp add: lower_nat_def)

subsection \<open>Comparison and hashing of strings\<close>

definition cstr_hd :: "u8 list \<Rightarrow> u8" where
  "cstr_hd z = (case z of [] \<Rightarrow> 0 | b # _ \<Rightarrow> b)"

function sqlite3StrICmp :: "u8 list \<Rightarrow> u8 list \<Rightarrow> int" where
  "sqlite3StrICmp a b =
     (let c = cstr_hd a; x = cstr_hd b in
      if c = x then (if c = 0 then 0 else sqlite3StrICmp (tl a) (tl b))
      else let d = uint (sqlite3Tolower c) - uint (sqlite3Tolower x)
           in if d \<noteq> 0 then d else sqlite3StrICmp (tl a) (tl b))"
  by auto
termination
  by (relation "measure (\<lambda>(a, b). length a + length b)")
     (auto simp: cstr_hd_def split: list.splits)

declare sqlite3StrICmp.simps [simp del]

definition sqlite3_stricmp :: "u8 list option \<Rightarrow> u8 list option \<Rightarrow> int" where
  "sqlite3_stricmp l r =
     (case l of
        None \<Rightarrow> (if r \<noteq> None then -1 else 0)
      | Some a \<Rightarrow> (case r of None \<Rightarrow> 1 | Some b \<Rightarrow> sqlite3StrICmp a b))"

text \<open>The loop of \<open>sqlite3_strnicmp\<close>, with \<open>N\<close> as it is after the decrement of the test.\<close>

function strnicmp_loop :: "u8 list \<Rightarrow> u8 list \<Rightarrow> int \<Rightarrow> int" where
  "strnicmp_loop a b N =
     (let M = N - 1; x = cstr_hd a; y = cstr_hd b in
      if 0 < N \<and> x \<noteq> 0 \<and> sqlite3Tolower x = sqlite3Tolower y then strnicmp_loop (tl a) (tl b) M
      else if M < 0 then 0 else uint (sqlite3Tolower x) - uint (sqlite3Tolower y))"
  by auto
termination
  by (relation "measure (\<lambda>(a, b, N). nat N)") auto

declare strnicmp_loop.simps [simp del]

definition sqlite3_strnicmp :: "u8 list option \<Rightarrow> u8 list option \<Rightarrow> int \<Rightarrow> int" where
  "sqlite3_strnicmp l r N =
     (case l of
        None \<Rightarrow> (if r \<noteq> None then -1 else 0)
      | Some a \<Rightarrow> (case r of None \<Rightarrow> 1 | Some b \<Rightarrow> strnicmp_loop a b N))"

fun sqlite3StrIHash :: "u8 list \<Rightarrow> u8" where
  "sqlite3StrIHash [] = 0"
| "sqlite3StrIHash (b # z) = (if b = 0 then 0 else sqlite3Tolower b + sqlite3StrIHash z)"

definition cstring :: "u8 list \<Rightarrow> bool" where
  "cstring z \<longleftrightarrow> 0 \<notin> set z"

definition fold_case :: "u8 list \<Rightarrow> u8 list" where
  "fold_case z = map sqlite3Tolower z"

lemma StrICmp_zero: "cstring a \<Longrightarrow> cstring b \<Longrightarrow> sqlite3StrICmp a b = 0 \<longleftrightarrow> fold_case a = fold_case b"
proof (induction a arbitrary: b)
  case Nil
  show ?case
  proof (cases b)
    case (Cons y b')
    then have "y \<noteq> 0" using Nil(2) by (auto simp: cstring_def)
    then have "uint (sqlite3Tolower 0) - uint (sqlite3Tolower y) \<noteq> 0"
      using Tolower_0 [of y] Tolower_0 [of 0] by (simp add: word_uint_eq_iff)
    then show ?thesis using Cons \<open>y \<noteq> 0\<close>
      by (subst sqlite3StrICmp.simps) (simp add: cstr_hd_def fold_case_def)
  qed (simp add: sqlite3StrICmp.simps cstr_hd_def fold_case_def)
next
  case (Cons x a)
  then have x: "x \<noteq> 0" "cstring a" by (auto simp: cstring_def)
  show ?case
  proof (cases b)
    case Nil
    have "uint (sqlite3Tolower x) - uint (sqlite3Tolower 0) \<noteq> 0"
      using Tolower_0 [of x] Tolower_0 [of 0] x by (simp add: word_uint_eq_iff)
    then show ?thesis using Nil x
      by (subst sqlite3StrICmp.simps) (simp add: cstr_hd_def fold_case_def)
  next
    case b: (Cons y b')
    then have y: "y \<noteq> 0" "cstring b'" using Cons.prems by (auto simp: cstring_def)
    show ?thesis using Cons.IH [OF x(2) y(2)] x y
      by (subst sqlite3StrICmp.simps) (auto simp: b cstr_hd_def fold_case_def Let_def word_uint_eq_iff [symmetric])
  qed
qed

lemma StrICmp_anti: "sqlite3StrICmp a b = - sqlite3StrICmp b a"
proof (induction a b rule: sqlite3StrICmp.induct)
  case (1 a b)
  show ?case
    using 1 by (subst (1 2) sqlite3StrICmp.simps) (auto simp: Let_def)
qed

lemma StrIHash_fold: "cstring a \<Longrightarrow> sqlite3StrIHash a = sum_list (fold_case a)"
  by (induction a) (auto simp: cstring_def fold_case_def)

text \<open>
  Names are compared without regard to case: two zero-terminated strings compare equal
  exactly when they agree after folding \<open>A\<close>-\<open>Z\<close>, the sign of the comparison is antisymmetric, and
  equal strings have the same \<open>sqlite3StrIHash\<close>.
\<close>

theorem stricmp_folds_case:
  assumes "cstring a" and "cstring b"
  shows "(sqlite3_stricmp (Some a) (Some b) = 0 \<longleftrightarrow>
      map (lower_nat \<circ> unat) a = map (lower_nat \<circ> unat) b) \<and>
    sqlite3_stricmp (Some a) (Some b) = - sqlite3_stricmp (Some b) (Some a) \<and>
    (sqlite3_stricmp (Some a) (Some b) = 0 \<longrightarrow> sqlite3StrIHash a = sqlite3StrIHash b)"
proof -
  have "map unat (fold_case z) = map (lower_nat \<circ> unat) z" for z
    by (simp add: fold_case_def Tolower_nat)
  moreover have "map unat xs = map unat ys \<longleftrightarrow> xs = ys" for xs ys :: "u8 list"
    by (rule inj_map_eq_map) (simp add: inj_def word_unat_eq_iff)
  ultimately have "fold_case a = fold_case b \<longleftrightarrow> map (lower_nat \<circ> unat) a = map (lower_nat \<circ> unat) b"
    by metis
  then show ?thesis
    using StrICmp_zero [OF assms] StrICmp_anti [of a b] StrIHash_fold [OF assms(1)] StrIHash_fold [OF assms(2)]
    by (simp add: sqlite3_stricmp_def) auto
qed

theorem stricmp_folds_case_witness:
  "sqlite3_stricmp (Some [0x53, 0x51, 0x4C]) (Some [0x73, 0x71, 0x6C]) = 0"
  using stricmp_folds_case [of "[0x53, 0x51, 0x4C]" "[0x73, 0x71, 0x6C]"]
  by (simp add: cstring_def lower_nat_def)

subsection \<open>Hexadecimal text\<close>

definition sqlite3HexToInt :: "u8 \<Rightarrow> u8" where
  "sqlite3HexToInt h = (h + 9 * (1 AND drop_bit 6 h)) AND 0xF"

text \<open>\<open>sqlite3HexToBlob\<close> over the \<open>n\<close> bytes from \<open>z\<close>, the closing quote among them.\<close>

fun hex_pairs :: "u8 list \<Rightarrow> u8 list" where
  "hex_pairs (a # b # z) = (push_bit 4 (sqlite3HexToInt a) OR sqlite3HexToInt b) # hex_pairs z"
| "hex_pairs _ = []"

definition sqlite3HexToBlob :: "bool \<Rightarrow> u8 list \<Rightarrow> nat \<Rightarrow> u8 list option" where
  "sqlite3HexToBlob heap_ok z n =
     (if heap_ok then Some (hex_pairs (take (n - 1) z) @ [0]) else None)"

subsection \<open>Quoted names\<close>

text \<open>\<open>sqlite3Dequote\<close>: the text up to the terminator; \<open>None\<close> where the assertion \<open>z[i]\<close> fails.\<close>

fun dequote_loop :: "u8 \<Rightarrow> u8 list \<Rightarrow> u8 list option" where
  "dequote_loop q [] = None"
| "dequote_loop q (b # z) =
     (if b = q
      then (case z of
              b' # z' \<Rightarrow> if b' = q then map_option ((#) q) (dequote_loop q z') else Some []
            | [] \<Rightarrow> Some [])
      else map_option ((#) b) (dequote_loop q z))"

definition sqlite3Dequote :: "u8 list option \<Rightarrow> u8 list option option" where
  "sqlite3Dequote zp =
     (case zp of
        None \<Rightarrow> Some None
      | Some z \<Rightarrow>
          let q = cstr_hd z in
          if \<not> sqlite3Isquote q then Some (Some z)
          else let q = (if q = 0x5B then 0x5D else q) in map_option Some (dequote_loop q (tl z)))"

text \<open>The quoted form of a name: the quote doubled inside.\<close>

definition quote_name :: "u8 \<Rightarrow> u8 list \<Rightarrow> u8 list" where
  "quote_name q z = q # concat (map (\<lambda>b. if b = q then [q, q] else [b]) z) @ [q]"

lemma dequote_loop_quoted:
  "rest = [] \<or> hd rest \<noteq> q \<Longrightarrow>
   dequote_loop q (concat (map (\<lambda>b. if b = q then [q, q] else [b]) z) @ q # rest) = Some z"
  by (induction z) (auto split: list.splits)

text \<open>
  Dequoting undoes quoting: a name written in double quotes, single quotes or back quotes,
  with each such quote inside it doubled, is dequoted to the name itself.
\<close>

theorem dequote_quote:
  assumes "q \<in> {0x22, 0x27, 0x60}"
  shows "sqlite3Dequote (Some (quote_name q z)) = Some (Some z)"
proof -
  have "sqlite3Isquote q" "q \<noteq> 0x5B"
    using assms by (auto simp: class_ranges quote_nat_def)
  then show ?thesis
    using dequote_loop_quoted [of "[]" q z]
    by (simp add: sqlite3Dequote_def quote_name_def cstr_hd_def)
qed

theorem dequote_quote_witness:
  "(0x22 :: u8) \<in> {0x22, 0x27, 0x60} \<and>
   sqlite3Dequote (Some [0x22, 0x61, 0x22, 0x22, 0x62, 0x22]) = Some (Some [0x61, 0x22, 0x62])"
  using dequote_quote [of "0x22" "[0x61, 0x22, 0x62]"] by (simp add: quote_name_def)

end
