(* ===== verification/SqlInt.thy ===== *)
theory SqlInt
  imports SqlChar SqlUtf "HOL-Library.Signed_Division" "HOL-Library.Monad_Syntax"
begin

section \<open>64-bit arithmetic and numbers in text (util.c of the bundled SQLite)\<close>

text \<open>
  An \<open>i64\<close> is an integer between \<open>SMALLEST_INT64\<close> and \<open>LARGEST_INT64\<close>. Signed overflow is undefined
  in C: \<open>ck\<close> checks every intermediate result, and is \<open>None\<close> where the C expression overflows. The
  parsers work over the bytes of the text; \<open>incr\<close> is the distance of two characters.
\<close>

subsection \<open>Arithmetic with overflow detection\<close>

definition LARGEST_INT64 :: int where "LARGEST_INT64 = 0x7FFFFFFFFFFFFFFF"
definition SMALLEST_INT64 :: int where "SMALLEST_INT64 = - 1 - LARGEST_INT64"

definition i64_ok :: "int \<Rightarrow> bool" where
  "i64_ok x \<longleftrightarrow> SMALLEST_INT64 \<le> x \<and> x \<le> LARGEST_INT64"

definition ck :: "int \<Rightarrow> int option" where
  "ck x = (if i64_ok x then Some x else None)"

text \<open>The results are the return code and the new \<open>*pA\<close>.\<close>

definition sqlite3AddInt64 :: "int \<Rightarrow> int \<Rightarrow> (int \<times> int) option" where
  "sqlite3AddInt64 iA iB =
     (if 0 \<le> iB
      then do { over \<leftarrow> (if 0 < iA then do { d \<leftarrow> ck (LARGEST_INT64 - iA); Some (d < iB) } else Some False);
                if over then Some (1, iA) else do { s \<leftarrow> ck (iA + iB); Some (0, s) } }
      else do { over \<leftarrow> (if iA < 0
                          then do { t \<leftarrow> ck (iA + LARGEST_INT64); d \<leftarrow> ck (- t); r \<leftarrow> ck (iB + 1); Some (d > r) }
                          else Some False);
                if over then Some (1, iA) else do { s \<leftarrow> ck (iA + iB); Some (0, s) } })"

definition sqlite3SubInt64 :: "int \<Rightarrow> int \<Rightarrow> (int \<times> int) option" where
  "sqlite3SubInt64 iA iB =
     (if iB = SMALLEST_INT64
      then if 0 \<le> iA then Some (1, iA) else do { s \<leftarrow> ck (iA - iB); Some (0, s) }
      else do { m \<leftarrow> ck (- iB); sqlite3AddInt64 iA m })"

definition sqlite3MulInt64 :: "int \<Rightarrow> int \<Rightarrow> (int \<times> int) option" where
  "sqlite3MulInt64 iA iB =
     do { over \<leftarrow>
            (if 0 < iB
             then do { q \<leftarrow> ck (LARGEST_INT64 sdiv iB); r \<leftarrow> ck (SMALLEST_INT64 sdiv iB);
                       Some (iA > q \<or> iA < r) }
             else if iB < 0
             then if 0 < iA then do { q \<leftarrow> ck (SMALLEST_INT64 sdiv iA); Some (iB < q) }
                  else if iA < 0
                  then if iB = SMALLEST_INT64 then Some True
                       else if iA = SMALLEST_INT64 then Some True
                       else do { a \<leftarrow> ck (- iA); b \<leftarrow> ck (- iB); q \<leftarrow> ck (LARGEST_INT64 sdiv b); Some (a > q) }
                  else Some False
             else Some False);
          if over then Some (1, iA) else do { p \<leftarrow> ck (iA * iB); Some (0, p) } }"

definition sqlite3AbsInt32 :: "int \<Rightarrow> int" where
  "sqlite3AbsInt32 x = (if 0 \<le> x then x else if x = - 0x80000000 then 0x7fffffff else - x)"

definition i64_result :: "int \<Rightarrow> int \<Rightarrow> (int \<times> int) option" where
  "i64_result iA x = Some (if i64_ok x then (0, x) else (1, iA))"

lemmas i64_defs = i64_ok_def LARGEST_INT64_def SMALLEST_INT64_def ck_def i64_result_def

lemma AddInt64_exact:
  "i64_ok iA \<Longrightarrow> i64_ok iB \<Longrightarrow> sqlite3AddInt64 iA iB = i64_result iA (iA + iB)"
  by (auto simp: sqlite3AddInt64_def i64_defs)

lemma SubInt64_exact:
  "i64_ok iA \<Longrightarrow> i64_ok iB \<Longrightarrow> sqlite3SubInt64 iA iB = i64_result iA (iA - iB)"
  using AddInt64_exact [of iA "- iB"] by (auto simp: sqlite3SubInt64_def i64_defs)

lemma sdiv_pos: "0 \<le> a \<Longrightarrow> 0 < b \<Longrightarrow> a sdiv b = a div (b::int)"
  by (simp add: signed_divide_int_def sgn_if)

lemma sdiv_neg: "a < 0 \<Longrightarrow> 0 < b \<Longrightarrow> a sdiv b = - ((- a) div (b::int))"
  by (simp add: signed_divide_int_def sgn_if)

lemma le_div_iff: "0 < b \<Longrightarrow> x \<le> a div b \<longleftrightarrow> x * b \<le> (a::int)"
proof
  assume b: "0 < b" and "x \<le> a div b"
  then have "x * b \<le> a div b * b" by simp
  also have "\<dots> \<le> a" using b by (metis minus_mod_eq_div_mult pos_mod_sign diff_le_eq le_add_same_cancel1)
  finally show "x * b \<le> a" .
next
  assume b: "0 < b" and "x * b \<le> a"
  then have "x * b div b \<le> a div b" by (intro zdiv_mono1)
  then show "x \<le> a div b" using b by simp
qed

lemma above_quotient: "0 < b \<Longrightarrow> LARGEST_INT64 sdiv b < a \<longleftrightarrow> LARGEST_INT64 < a * b"
  using le_div_iff [of b a LARGEST_INT64] by (auto simp: sdiv_pos LARGEST_INT64_def)

lemma smallest_sdiv: "0 < b \<Longrightarrow> SMALLEST_INT64 sdiv b = - ((- SMALLEST_INT64) div b)"
  by (rule sdiv_neg) (simp_all add: i64_defs)

lemma below_quotient: "0 < b \<Longrightarrow> a < SMALLEST_INT64 sdiv b \<longleftrightarrow> a * b < SMALLEST_INT64"
  using le_div_iff [of b "- a" "- SMALLEST_INT64"] by (auto simp: smallest_sdiv)

lemma div_le_self: "0 \<le> a \<Longrightarrow> 0 < b \<Longrightarrow> a div b \<le> (a::int)"
  using zdiv_mono2 [of a 1 b] by simp

lemma quotient_ok:
  assumes "0 < b"
  shows "i64_ok (LARGEST_INT64 sdiv b)" "i64_ok (SMALLEST_INT64 sdiv b)"
proof -
  have L: "0 \<le> LARGEST_INT64" "0 \<le> - SMALLEST_INT64" "SMALLEST_INT64 \<le> 0" by (simp_all add: i64_defs)
  have "0 \<le> LARGEST_INT64 div b" "LARGEST_INT64 div b \<le> LARGEST_INT64"
    using assms L by (simp_all add: pos_imp_zdiv_nonneg_iff div_le_self)
  then show "i64_ok (LARGEST_INT64 sdiv b)"
    using assms L unfolding i64_ok_def by (simp add: sdiv_pos)
  have "0 \<le> (- SMALLEST_INT64) div b" "(- SMALLEST_INT64) div b \<le> - SMALLEST_INT64"
    using assms L by (simp_all only: pos_imp_zdiv_nonneg_iff div_le_self)
  then show "i64_ok (SMALLEST_INT64 sdiv b)"
    using assms L unfolding i64_ok_def by (simp add: smallest_sdiv)
qed

lemma ck_ok: "i64_ok x \<Longrightarrow> ck x = Some x"
  by (simp add: ck_def)

lemma MulInt64_exact:
  assumes A: "i64_ok iA" and B: "i64_ok iB"
  shows "sqlite3MulInt64 iA iB = i64_result iA (iA * iB)"
proof -
  have N: "0 < LARGEST_INT64" "SMALLEST_INT64 = - 1 - LARGEST_INT64" by (simp_all add: i64_defs)
  consider (pos) "0 < iB" | (zero) "iB = 0 \<or> iB < 0 \<and> iA = 0" | (np) "iB < 0" "0 < iA" | (nn) "iB < 0" "iA < 0"
    by linarith
  then show ?thesis
  proof cases
    case pos
    have "iA > LARGEST_INT64 sdiv iB \<or> iA < SMALLEST_INT64 sdiv iB \<longleftrightarrow> \<not> i64_ok (iA * iB)"
      unfolding above_quotient [OF pos] below_quotient [OF pos] i64_ok_def by linarith
    then show ?thesis
      using pos quotient_ok [OF pos] by (simp add: sqlite3MulInt64_def ck_ok i64_result_def)
  next
    case zero
    have "i64_ok 0" by (simp add: i64_defs)
    then show ?thesis using zero
      by (auto simp: sqlite3MulInt64_def ck_ok i64_result_def)
  next
    case np
    have "iA * iB < 0" using np by (simp add: mult_pos_neg)
    moreover have "iB < SMALLEST_INT64 sdiv iA \<longleftrightarrow> iA * iB < SMALLEST_INT64"
      using below_quotient [OF np(2), of iB] by (simp add: mult.commute)
    ultimately have "iB < SMALLEST_INT64 sdiv iA \<longleftrightarrow> \<not> i64_ok (iA * iB)"
      using N(1) unfolding i64_ok_def by linarith
    then show ?thesis
      using np quotient_ok [OF np(2)] by (simp add: sqlite3MulInt64_def ck_ok i64_result_def)
  next
    case nn
    have p: "0 < iA * iB" using nn by (simp add: mult_neg_neg)
    have big: "\<not> i64_ok (iA * iB)" if "iB = SMALLEST_INT64 \<or> iA = SMALLEST_INT64"
    proof -
      have "- SMALLEST_INT64 \<le> iA * iB"
        using that
      proof
        assume "iB = SMALLEST_INT64"
        then show ?thesis using nn mult_right_mono_neg [of iA "-1" SMALLEST_INT64] by simp
      next
        assume "iA = SMALLEST_INT64"
        then show ?thesis using nn mult_left_mono_neg [of iB "-1" SMALLEST_INT64] by simp
      qed
      then show ?thesis using N by (simp add: i64_ok_def)
    qed
    have ok: "i64_ok (- iA)" if "iA \<noteq> SMALLEST_INT64"
      using that A nn N by (auto simp: i64_ok_def)
    have ok': "i64_ok (- iB)" if "iB \<noteq> SMALLEST_INT64"
      using that B nn N by (auto simp: i64_ok_def)
    have q: "LARGEST_INT64 sdiv (- iB) < - iA \<longleftrightarrow> LARGEST_INT64 < iA * iB"
      using above_quotient [of "- iB" "- iA"] nn by simp
    show ?thesis
    proof (cases "iB = SMALLEST_INT64 \<or> iA = SMALLEST_INT64")
      case True
      then show ?thesis using nn big by (auto simp: sqlite3MulInt64_def i64_result_def)
    next
      case False
      have "LARGEST_INT64 sdiv (- iB) < - iA \<longleftrightarrow> \<not> i64_ok (iA * iB)"
        unfolding q i64_ok_def using p N by linarith
      then show ?thesis
        using False nn ok ok' quotient_ok(1) [of "- iB"]
        by (simp add: sqlite3MulInt64_def ck_ok i64_result_def)
    qed
  qed
qed



subsection \<open>sqlite3Atoi64\<close>

definition incr_of :: "enc \<Rightarrow> nat" where
  "incr_of e = (if e = SQLITE_UTF8 then 1 else 2)"

lemma incr_pos [simp]: "0 < incr_of e" "incr_of e \<noteq> 0" by (simp_all add: incr_of_def)

text \<open>The loops over the text, with the index for the pointer and \<open>zEnd\<close> as an index.\<close>

function skip_while :: "(u8 \<Rightarrow> bool) \<Rightarrow> u8 list \<Rightarrow> enc \<Rightarrow> nat \<Rightarrow> nat \<Rightarrow> nat" where
  "skip_while P z e zEnd i =
     (if i < zEnd \<and> P (z ! i) then skip_while P z e zEnd (i + incr_of e) else i)"
  by auto
termination
  by (relation "measure (\<lambda>(P, z, e, zEnd, i). zEnd - i)") (auto intro!: diff_less_mono2)

function digits_loop :: "u8 list \<Rightarrow> enc \<Rightarrow> nat \<Rightarrow> nat \<Rightarrow> nat \<Rightarrow> u64 \<Rightarrow> nat \<times> u64" where
  "digits_loop z e zEnd p i u =
     (if p + i < zEnd \<and> 0x30 \<le> z ! (p + i) \<and> z ! (p + i) \<le> 0x39
      then digits_loop z e zEnd p (i + incr_of e) (u * 10 + ucast (z ! (p + i)) - 0x30)
      else (i, u))"
  by auto
termination
  by (relation "measure (\<lambda>(z, e, zEnd, p, i, u). zEnd - (p + i))") (auto intro!: diff_less_mono2)

function first_high :: "u8 list \<Rightarrow> nat \<Rightarrow> nat \<Rightarrow> nat" where
  "first_high z len i = (if i < len \<and> z ! i = 0 then first_high z len (i + 2) else i)"
  by auto
termination
  by (relation "measure (\<lambda>(z, len, i). len - i)") auto

function only_space :: "u8 list \<Rightarrow> enc \<Rightarrow> nat \<Rightarrow> nat \<Rightarrow> bool" where
  "only_space z e zEnd j =
     (if \<not> sqlite3Isspace (z ! j) then False
      else if j + incr_of e < zEnd then only_space z e zEnd (j + incr_of e) else True)"
  by auto
termination
  by (relation "measure (\<lambda>(z, e, zEnd, j). zEnd - j)") (auto intro!: diff_less_mono2)

declare skip_while.simps [simp del] digits_loop.simps [simp del] first_high.simps [simp del]
  only_space.simps [simp del]

definition pow63 :: "u8 list" where
  "pow63 = [0x39, 0x32, 0x32, 0x33, 0x33, 0x37, 0x32, 0x30, 0x33, 0x36, 0x38, 0x35, 0x34, 0x37, 0x37,
     0x35, 0x38, 0x30]"

fun compare_digits :: "u8 list \<Rightarrow> u8 list \<Rightarrow> nat \<Rightarrow> nat \<Rightarrow> int" where
  "compare_digits [] z p incr = 0"
| "compare_digits (w # ws) z p incr =
     (let c = (sint (z ! p) - sint w) * 10 in if c \<noteq> 0 then c else compare_digits ws z (p + incr) incr)"

definition compare2pow63 :: "u8 list \<Rightarrow> nat \<Rightarrow> nat \<Rightarrow> int" where
  "compare2pow63 z p incr =
     (let c = compare_digits pow63 z p incr in
      if c = 0 then sint (z ! (p + 18 * incr)) - 0x38 else c)"

text \<open>
  The window of the text: where it starts, where it ends, and whether a UTF-16 unit with a
  non-zero high byte ends it (\<open>nonNum\<close>).
\<close>

definition num_window :: "u8 list \<Rightarrow> nat \<Rightarrow> enc \<Rightarrow> nat \<times> nat \<times> bool" where
  "num_window z len e =
     (if e = SQLITE_UTF8 then (0, len, False)
      else let len = len - len mod 2;
               i = first_high z len (if e = SQLITE_UTF16LE then 1 else 0)
           in ((if e = SQLITE_UTF16LE then 0 else 1), (if even i then i + 1 else i - 1), i < len))"

text \<open>The result is the return code and \<open>*pNum\<close>.\<close>

definition sqlite3Atoi64 :: "u8 list \<Rightarrow> nat \<Rightarrow> enc \<Rightarrow> int \<times> int" where
  "sqlite3Atoi64 z len e =
     (let incr = incr_of e;
          (p, zEnd, nonNum) = num_window z len e;
          p = skip_while sqlite3Isspace z e zEnd p;
          (neg, p) = (if p < zEnd
                      then if z ! p = 0x2D then (True, p + incr)
                           else if z ! p = 0x2B then (False, p + incr) else (False, p)
                      else (False, p));
          zStart = p;
          p = skip_while (\<lambda>b. b = 0x30) z e zEnd p;
          (i, u) = digits_loop z e zEnd p 0 0;
          num = (if LARGEST_INT64 < uint u then (if neg then SMALLEST_INT64 else LARGEST_INT64)
                 else if neg then - uint u else uint u);
          rc = (if i = 0 \<and> zStart = p then - 1
                else if nonNum then 1
                else if p + i < zEnd then (if only_space z e zEnd (p + i) then 0 else 1)
                else 0)
      in if i < 19 * incr then (rc, num)
         else let c = (if 19 * incr < i then 1 else compare2pow63 z p incr) in
              if c < 0 then (rc, num)
              else let num = (if neg then SMALLEST_INT64 else LARGEST_INT64) in
                   if 0 < c then (2, num) else ((if neg then rc else 3), num))"

subsection \<open>The text as the list of its characters\<close>

function strided :: "u8 list \<Rightarrow> enc \<Rightarrow> nat \<Rightarrow> nat \<Rightarrow> u8 list" where
  "strided z e zEnd i = (if i < zEnd then z ! i # strided z e zEnd (i + incr_of e) else [])"
  by auto
termination
  by (relation "measure (\<lambda>(z, e, zEnd, i). zEnd - i)") (auto intro!: diff_less_mono2)

declare strided.simps [simp del]

lemma strided_Cons: "i < zEnd \<Longrightarrow> strided z e zEnd i = z ! i # strided z e zEnd (i + incr_of e)"
  by (subst strided.simps) simp

lemma strided_Nil: "\<not> i < zEnd \<Longrightarrow> strided z e zEnd i = []"
  by (subst strided.simps) simp

lemma strided_empty [simp]: "strided z e zEnd i = [] \<longleftrightarrow> \<not> i < zEnd"
  by (subst strided.simps) simp

lemma strided_skip:
  "strided z e zEnd (skip_while P z e zEnd i) = dropWhile P (strided z e zEnd i)"
proof (induction P z e zEnd i rule: skip_while.induct)
  case (1 P z e zEnd i)
  show ?case
  proof (cases "i < zEnd")
    case True
    then show ?thesis using 1
      by (subst skip_while.simps) (simp add: strided_Cons)
  next
    case False
    then show ?thesis by (subst skip_while.simps) (simp add: strided_Nil)
  qed
qed

lemma skip_same: "skip_while P z e zEnd i = i \<longleftrightarrow> dropWhile P (strided z e zEnd i) = strided z e zEnd i"
proof
  assume "dropWhile P (strided z e zEnd i) = strided z e zEnd i"
  then have "\<not> (i < zEnd \<and> P (z ! i))"
    by (auto simp: strided_Cons dest!: arg_cong [where f = length])
      (use length_dropWhile_le [of P "strided z e zEnd (i + incr_of e)"] in simp)
  then show "skip_while P z e zEnd i = i" by (subst skip_while.simps) auto
qed (use strided_skip [of z e zEnd P i] in simp)

definition dig_byte :: "u8 \<Rightarrow> bool" where
  "dig_byte b \<longleftrightarrow> 0x30 \<le> b \<and> b \<le> 0x39"

definition dig_push :: "u64 \<Rightarrow> u8 \<Rightarrow> u64" where
  "dig_push u b = u * 10 + ucast b - 0x30"

lemma digits_loop_list:
  "digits_loop z e zEnd p i u =
     (let ds = takeWhile dig_byte (strided z e zEnd (p + i))
      in (i + length ds * incr_of e, foldl dig_push u ds))"
proof (induction z e zEnd p i u rule: digits_loop.induct)
  case (1 z e zEnd p i u)
  show ?case
  proof (cases "p + i < zEnd \<and> 0x30 \<le> z ! (p + i) \<and> z ! (p + i) \<le> 0x39")
    case True
    then have d: "dig_byte (z ! (p + i))" by (simp add: dig_byte_def)
    show ?thesis using 1 [OF True] True d
      by (subst digits_loop.simps) (simp add: strided_Cons dig_push_def [symmetric] Let_def add.assoc)
  next
    case False
    then have "takeWhile dig_byte (strided z e zEnd (p + i)) = []"
      by (cases "p + i < zEnd") (auto simp: strided_Cons strided_Nil dig_byte_def)
    with False show ?thesis by (subst digits_loop.simps) auto
  qed
qed

lemma strided_drop: "strided z e zEnd (p + n * incr_of e) = drop n (strided z e zEnd p)"
proof (induction n arbitrary: p)
  case (Suc n)
  show ?case
  proof (cases "p < zEnd")
    case True
    then show ?thesis using Suc [of "p + incr_of e"] by (simp add: strided_Cons add.assoc)
  next
    case False
    then show ?thesis by (simp add: strided_Nil)
  qed
qed simp

lemma strided_nth: "k < length (strided z e zEnd p) \<Longrightarrow> strided z e zEnd p ! k = z ! (p + k * incr_of e)"
proof -
  assume k: "k < length (strided z e zEnd p)"
  then have "p + k * incr_of e < zEnd"
    using strided_drop [of z e zEnd p k] by (metis drop_eq_Nil linorder_not_le strided_empty)
  then show ?thesis using strided_drop [of z e zEnd p k] k
    by (metis hd_drop_conv_nth list.sel(1) strided_Cons)
qed

lemma only_space_list: "j < zEnd \<Longrightarrow> only_space z e zEnd j \<longleftrightarrow> list_all sqlite3Isspace (strided z e zEnd j)"
proof (induction z e zEnd j rule: only_space.induct)
  case (1 z e zEnd j)
  then show ?case
    by (subst only_space.simps) (auto simp: strided_Cons strided_Nil)
qed

fun compare_lists :: "u8 list \<Rightarrow> u8 list \<Rightarrow> int" where
  "compare_lists (w # ws) (d # ds) =
     (let c = (sint d - sint w) * 10 in if c \<noteq> 0 then c else compare_lists ws ds)"
| "compare_lists _ _ = 0"

lemma compare_digits_list:
  "length ws \<le> length (strided z e zEnd p) \<Longrightarrow>
   compare_digits ws z p (incr_of e) = compare_lists ws (strided z e zEnd p)"
proof (induction ws arbitrary: p)
  case (Cons w ws)
  then have "strided z e zEnd p \<noteq> []" by (metis Zero_not_Suc le_zero_eq list.size(3) list.size(4) add_Suc_right)
  then have "p < zEnd" by simp
  then show ?case using Cons by (simp add: strided_Cons)
qed simp

definition compare_pow_list :: "u8 list \<Rightarrow> int" where
  "compare_pow_list ds =
     (let c = compare_lists pow63 ds in if c = 0 then sint (ds ! 18) - 0x38 else c)"

lemma compare2pow63_list:
  assumes "19 \<le> length (strided z e zEnd p)"
  shows "compare2pow63 z p (incr_of e) = compare_pow_list (strided z e zEnd p)"
proof -
  have "length pow63 = 18" by (simp add: pow63_def)
  then show ?thesis
    using assms strided_nth [of 18 z e zEnd p] compare_digits_list [of pow63 z e zEnd p]
    by (simp add: compare2pow63_def compare_pow_list_def Let_def mult.commute [of 18])
qed

text \<open>\<open>sqlite3Atoi64\<close> over the characters of the window.\<close>

definition atoi_chars :: "bool \<Rightarrow> u8 list \<Rightarrow> int \<times> int" where
  "atoi_chars nonNum cs =
     (let cs = dropWhile sqlite3Isspace cs;
          (neg, cs) = (case cs of
             [] \<Rightarrow> (False, cs)
           | b # cs' \<Rightarrow> if b = 0x2D then (True, cs') else if b = 0x2B then (False, cs') else (False, cs));
          ds0 = dropWhile (\<lambda>b. b = 0x30) cs;
          ds = takeWhile dig_byte ds0; rest = drop (length ds) ds0; n = length ds;
          u = foldl dig_push 0 ds;
          num = (if LARGEST_INT64 < uint u then (if neg then SMALLEST_INT64 else LARGEST_INT64)
                 else if neg then - uint u else uint u);
          rc = (if n = 0 \<and> ds0 = cs then - 1 else if nonNum then 1
                else if list_all sqlite3Isspace rest then 0 else 1)
      in if n < 19 then (rc, num)
         else let c = (if 19 < n then 1 else compare_pow_list ds0) in
              if c < 0 then (rc, num)
              else let num = (if neg then SMALLEST_INT64 else LARGEST_INT64) in
                   if 0 < c then (2, num) else ((if neg then rc else 3), num))"

lemma Atoi64_chars:
  assumes "num_window z len e = (p, zEnd, nonNum)"
  shows "sqlite3Atoi64 z len e = atoi_chars nonNum (strided z e zEnd p)"
proof -
  define p1 where "p1 = skip_while sqlite3Isspace z e zEnd p"
  define cs1 where "cs1 = strided z e zEnd p1"
  have cs1: "cs1 = dropWhile sqlite3Isspace (strided z e zEnd p)"
    by (simp add: cs1_def p1_def strided_skip)
  define neg where "neg = (p1 < zEnd \<and> z ! p1 = 0x2D)"
  define p2 where "p2 = (if p1 < zEnd \<and> (z ! p1 = 0x2D \<or> z ! p1 = 0x2B) then p1 + incr_of e else p1)"
  define cs2 where "cs2 = strided z e zEnd p2"
  have sign: "(if p1 < zEnd
       then if z ! p1 = 0x2D then (True, p1 + incr_of e)
            else if z ! p1 = 0x2B then (False, p1 + incr_of e) else (False, p1)
       else (False, p1)) = (neg, p2)"
    by (auto simp: neg_def p2_def)
  have sign': "(case cs1 of
             [] \<Rightarrow> (False, cs1)
           | b # cs' \<Rightarrow> if b = 0x2D then (True, cs') else if b = 0x2B then (False, cs') else (False, cs1)) =
     (neg, cs2)"
    by (cases "p1 < zEnd") (auto simp: cs1_def cs2_def neg_def p2_def strided_Cons strided_Nil)
  define p3 where "p3 = skip_while (\<lambda>b. b = 0x30) z e zEnd p2"
  define ds0 where "ds0 = strided z e zEnd p3"
  have ds0: "ds0 = dropWhile (\<lambda>b. b = 0x30) cs2"
    by (simp add: ds0_def p3_def cs2_def strided_skip)
  have same: "p2 = p3 \<longleftrightarrow> ds0 = cs2"
    using skip_same [of "\<lambda>b. b = 0x30" z e zEnd p2] by (auto simp: ds0 p3_def cs2_def)
  define ds where "ds = takeWhile dig_byte ds0"
  have loop: "digits_loop z e zEnd p3 0 0 = (length ds * incr_of e, foldl dig_push 0 ds)"
    by (simp add: digits_loop_list ds_def ds0_def Let_def)
  have rest: "strided z e zEnd (p3 + length ds * incr_of e) = drop (length ds) ds0"
    by (simp add: strided_drop ds0_def)
  have tail: "(if p3 + length ds * incr_of e < zEnd
      then if only_space z e zEnd (p3 + length ds * incr_of e) then 0 else 1 else 0) =
    (if list_all sqlite3Isspace (drop (length ds) ds0) then 0 else (1::int))"
    using rest only_space_list [of "p3 + length ds * incr_of e" zEnd z e]
      strided_Nil [of "p3 + length ds * incr_of e" zEnd z e]
    by (cases "p3 + length ds * incr_of e < zEnd") simp_all
  have n: "length ds * incr_of e = 0 \<longleftrightarrow> length ds = 0" "length ds * incr_of e < 19 * incr_of e \<longleftrightarrow> length ds < 19"
    "19 * incr_of e < length ds * incr_of e \<longleftrightarrow> 19 < length ds"
    by auto
  have cmp: "\<not> length ds < 19 \<Longrightarrow> compare2pow63 z p3 (incr_of e) = compare_pow_list ds0"
    using compare2pow63_list [of z e zEnd p3] length_takeWhile_le [of dig_byte ds0]
    by (auto simp: ds_def ds0_def)
  show ?thesis
    unfolding sqlite3Atoi64_def assms Let_def prod.case p1_def [symmetric] sign p3_def [symmetric] loop n same tail
    unfolding atoi_chars_def Let_def cs1 [symmetric] sign' prod.case ds0 [symmetric] ds_def [symmetric]
    using cmp by auto
qed

subsection \<open>The number in the text\<close>

definition dval :: "u8 list \<Rightarrow> nat" where
  "dval ds = foldl (\<lambda>n b. n * 10 + (unat b - 48)) 0 ds"

lemma dig_range: "dig_byte b \<Longrightarrow> 48 \<le> unat b \<and> unat b \<le> 57"
  by (simp add: dig_byte_def word_le_nat_alt)

definition dstep :: "nat \<Rightarrow> u8 \<Rightarrow> nat" where
  "dstep n b = n * 10 + (unat b - 48)"

lemma dval_foldl: "dval ds = foldl dstep 0 ds"
  unfolding dval_def dstep_def ..

lemma foldl_dstep: "foldl dstep n ds = n * 10 ^ length ds + foldl dstep 0 ds"
proof (induction ds arbitrary: n)
  case (Cons d ds)
  have "foldl dstep n (d # ds) = dstep n d * 10 ^ length ds + foldl dstep 0 ds"
    using Cons [of "dstep n d"] by simp
  moreover have "foldl dstep 0 (d # ds) = dstep 0 d * 10 ^ length ds + foldl dstep 0 ds"
    using Cons [of "dstep 0 d"] by simp
  moreover have "dstep n d * 10 ^ length ds = n * 10 ^ Suc (length ds) + dstep 0 d * 10 ^ length ds"
    by (simp add: dstep_def distrib_right mult.assoc)
  ultimately show ?case by simp
qed simp

lemma dval_simps [simp]: "dval [] = 0" "dval (d # ds) = (unat d - 48) * 10 ^ length ds + dval ds"
  using foldl_dstep [of "dstep 0 d" ds] by (simp_all add: dval_foldl dstep_def)

lemma dval_snoc: "dval (ds @ [d]) = dval ds * 10 + (unat d - 48)"
  by (simp add: dval_def)

lemma dval_less: "list_all dig_byte ds \<Longrightarrow> dval ds < 10 ^ length ds"
proof (induction ds)
  case (Cons d ds)
  then have "unat d - 48 \<le> 9" "dval ds < 10 ^ length ds" using dig_range [of d] by auto
  moreover from this have "(unat d - 48) * 10 ^ length ds \<le> 9 * 10 ^ length ds" by (intro mult_le_mono1)
  ultimately show ?case by (simp only: dval_simps length_Cons power_Suc)
qed simp

lemma dig_push_nat: "dig_byte b \<Longrightarrow> dig_push (word_of_nat n) b = word_of_nat (n * 10 + (unat b - 48))"
proof -
  assume "dig_byte b"
  then have "48 \<le> unat b" using dig_range by blast
  moreover have "(ucast b :: u64) = word_of_nat (unat b)" by simp
  ultimately show ?thesis by (simp add: dig_push_def of_nat_diff)
qed

lemma foldl_dig_push: "list_all dig_byte ds \<Longrightarrow> foldl dig_push 0 ds = word_of_nat (dval ds)"
proof -
  have "list_all dig_byte ds \<Longrightarrow>
    foldl dig_push (word_of_nat n) ds = word_of_nat (foldl (\<lambda>n b. n * 10 + (unat b - 48)) n ds)" for n
    by (induction ds arbitrary: n) (simp_all add: dig_push_nat del: of_nat_add of_nat_mult of_nat_diff_if)
  from this [of 0] show "list_all dig_byte ds \<Longrightarrow> foldl dig_push 0 ds = word_of_nat (dval ds)"
    by (simp add: dval_def)
qed

lemma sint_dig: "dig_byte b \<Longrightarrow> sint b = int (unat b)"
proof -
  assume "dig_byte b"
  then have "- (2 ^ 7) \<le> int (unat b)" "int (unat b) < 2 ^ 7"
    using dig_range [of b] by (simp_all del: of_nat_unat)
  then have "signed_take_bit 7 (int (unat b)) = int (unat b)"
    by (rule signed_take_bit_int_eq_self)
  then show ?thesis by (simp add: sint_uint)
qed

lemma compare_lists_sign:
  assumes "length ws = length ds" "list_all dig_byte ws" "list_all dig_byte ds"
  shows "(compare_lists ws (ds @ rest) < 0 \<longleftrightarrow> dval ds < dval ws) \<and>
    (compare_lists ws (ds @ rest) = 0 \<longleftrightarrow> dval ds = dval ws)"
  using assms
proof (induction ws ds rule: list_induct2)
  case (Cons w ws d ds)
  then have b: "dval ds < 10 ^ length ds" "dval ws < 10 ^ length ds"
    using dval_less [of ds] dval_less [of ws] by auto
  have w: "48 \<le> unat w" "48 \<le> unat d" using Cons.prems dig_range by auto
  have s: "sint d - sint w = int (unat d) - int (unat w)" using Cons.prems sint_dig by simp
  consider "unat d = unat w" | "unat d < unat w" | "unat w < unat d" by linarith
  then show ?case
  proof cases
    case 1 then show ?thesis using Cons s by (simp del: of_nat_unat)
  next
    case 2
    then have "unat d - 48 + 1 \<le> unat w - 48" using w by simp
    then have "(unat d - 48 + 1) * 10 ^ length ds \<le> (unat w - 48) * 10 ^ length ds" by (rule mult_le_mono1)
    then show ?thesis using 2 s b Cons(1) by (simp del: of_nat_unat)
  next
    case 3
    then have "unat w - 48 + 1 \<le> unat d - 48" using w by simp
    then have "(unat w - 48 + 1) * 10 ^ length ds \<le> (unat d - 48) * 10 ^ length ds" by (rule mult_le_mono1)
    then show ?thesis using 3 s b Cons(1) by (simp del: of_nat_unat)
  qed
qed simp

lemma pow63_digits: "list_all dig_byte pow63" "length pow63 = 18" "dval pow63 * 10 + 8 = 2 ^ 63"
  by (simp_all add: pow63_def dig_byte_def)

lemma compare_pow_sign:
  assumes "list_all dig_byte ds" "length ds = 19"
  shows "(compare_pow_list (ds @ rest) < 0 \<longleftrightarrow> dval ds < 2 ^ 63) \<and>
    (compare_pow_list (ds @ rest) = 0 \<longleftrightarrow> dval ds = 2 ^ 63)"
proof -
  define a where "a = butlast ds"
  define l where "l = last ds"
  have "ds \<noteq> []" using assms(2) by auto
  then have ds: "ds = a @ [l]" by (simp add: a_def l_def)
  then have a: "length a = 18" "list_all dig_byte a" "dig_byte l" using assms by auto
  have l: "48 \<le> unat l" "unat l \<le> 57" "sint l = int (unat l)" using dig_range sint_dig a by auto
  have c: "compare_lists pow63 (ds @ rest) < 0 \<longleftrightarrow> dval a < dval pow63"
      "compare_lists pow63 (ds @ rest) = 0 \<longleftrightarrow> dval a = dval pow63"
    using compare_lists_sign [of pow63 a "[l] @ rest"] pow63_digits a by (simp_all add: ds)
  have n: "(ds @ rest) ! 18 = l" using a by (simp add: ds nth_append)
  have v: "dval ds = dval a * 10 + (unat l - 48)" by (simp add: ds dval_snoc)
  show ?thesis
    using c l pow63_digits(3) unfolding compare_pow_list_def n v Let_def by (auto simp del: of_nat_unat)
qed


lemma dig_facts:
  "dig_byte b \<Longrightarrow> \<not> sqlite3Isspace b" "dig_byte b \<Longrightarrow> b \<noteq> 0x2D \<and> b \<noteq> 0x2B" "dig_byte 0x30"
proof -
  show "dig_byte b \<Longrightarrow> \<not> sqlite3Isspace b" using dig_range [of b] by (auto simp: class_ranges space_nat_def)
  show "dig_byte b \<Longrightarrow> b \<noteq> 0x2D \<and> b \<noteq> 0x2B" using dig_range [of b] by auto
  show "dig_byte 0x30" by (simp add: dig_byte_def)
qed

definition strip0 :: "u8 list \<Rightarrow> u8 list" where
  "strip0 ds = dropWhile (\<lambda>b. b = 0x30) ds"

lemma strip0_append:
  assumes "list_all dig_byte ds" "rest = [] \<or> \<not> dig_byte (hd rest)"
  shows "dropWhile (\<lambda>b. b = 0x30) (ds @ rest) = strip0 ds @ rest"
proof (cases "\<forall>b\<in>set ds. b = 0x30")
  case True
  have "dropWhile (\<lambda>b. b = 0x30) rest = rest" using assms(2) dig_facts(3) by (cases rest) auto
  with True show ?thesis by (auto simp: strip0_def dropWhile_append)
next
  case False
  then show ?thesis by (auto simp: strip0_def dropWhile_append)
qed

lemma strip0_digits: "list_all dig_byte ds \<Longrightarrow> list_all dig_byte (strip0 ds)"
  by (auto simp: strip0_def list_all_iff dest: set_dropWhileD)

lemma dval_strip0: "dval (strip0 ds) = dval ds"
  by (induction ds) (auto simp: strip0_def)

lemma strip0_large:
  assumes "list_all dig_byte ds" "strip0 ds \<noteq> []"
  shows "10 ^ (length (strip0 ds) - 1) \<le> dval ds"
proof -
  obtain d r where s: "strip0 ds = d # r" using assms(2) by (cases "strip0 ds") auto
  then have "d \<noteq> 0x30" by (auto simp: strip0_def dropWhile_eq_Cons_conv)
  moreover have "dig_byte d" using strip0_digits [OF assms(1)] s by simp
  ultimately have "48 < unat d" using dig_range [of d] by (auto simp: word_unat_eq_iff le_less)
  then have "1 * 10 ^ length r \<le> (unat d - 48) * 10 ^ length r" by (intro mult_le_mono1) simp
  moreover have "dval ds = (unat d - 48) * 10 ^ length r + dval r" using s dval_strip0 [of ds] by simp
  ultimately have "10 ^ length r \<le> dval ds" by linarith
  then show ?thesis using s by simp
qed

definition atoi_result :: "bool \<Rightarrow> int \<Rightarrow> int \<times> int" where
  "atoi_result trailing v =
     (if i64_ok v then (if trailing then 1 else 0, v)
      else if v = LARGEST_INT64 + 1 then (3, LARGEST_INT64)
      else (2, if v < 0 then SMALLEST_INT64 else LARGEST_INT64))"

lemma atoi_sign:
  assumes "sg \<in> {[], [0x2D], [0x2B]}" "ds \<noteq> []" "list_all dig_byte ds"
  shows "(case sg @ ds @ rest of
             [] \<Rightarrow> (False, sg @ ds @ rest)
           | b # cs' \<Rightarrow> if b = 0x2D then (True, cs') else if b = 0x2B then (False, cs')
               else (False, sg @ ds @ rest)) = (sg = [0x2D], ds @ rest)"
proof -
  obtain d ds' where "ds = d # ds'" "dig_byte d" using assms(2,3) by (cases ds) auto
  then show ?thesis using assms(1) dig_facts(2) [of d] by auto
qed

lemma atoi_chars_value:
  assumes sp: "list_all sqlite3Isspace sp" and sg: "sg \<in> {[], [0x2D], [0x2B]}"
    and ds: "ds \<noteq> []" "list_all dig_byte ds" and rest: "rest = [] \<or> \<not> dig_byte (hd rest)"
  shows "atoi_chars nonNum (sp @ sg @ ds @ rest) =
    atoi_result (nonNum \<or> \<not> list_all sqlite3Isspace rest)
      (if sg = [0x2D] then - int (dval ds) else int (dval ds))"
proof -
  have "\<not> sqlite3Isspace (hd (sg @ ds @ rest))"
    using sg ds dig_facts(1) [of "hd ds"] by (cases ds) (auto simp: class_ranges space_nat_def)
  then have c1: "dropWhile sqlite3Isspace (sp @ sg @ ds @ rest) = sg @ ds @ rest"
    using sp ds(1) by (induction sp) (auto simp: neq_Nil_conv, cases sg, auto)
  let ?n = "strip0 ds"
  have c2: "dropWhile (\<lambda>b. b = 0x30) (ds @ rest) = ?n @ rest" by (rule strip0_append [OF ds(2) rest])
  have c3: "takeWhile dig_byte (?n @ rest) = ?n"
    using strip0_digits [OF ds(2)] rest by (cases rest) (auto simp: list_all_iff takeWhile_append)
  have c4: "\<not> (length ?n = 0 \<and> ?n @ rest = ds @ rest)" using ds(1) by auto
  have u: "foldl dig_push 0 ?n = word_of_nat (dval ds)"
    using foldl_dig_push [OF strip0_digits [OF ds(2)]] by (simp add: dval_strip0)
  have L: "LARGEST_INT64 = 2 ^ 63 - 1" "SMALLEST_INT64 = - (2 ^ 63)" by (simp_all add: i64_defs)
  have v: "dval ds < 10 ^ length ?n"
    using dval_less [OF strip0_digits [OF ds(2)]] by (simp add: dval_strip0)
  note unf = atoi_chars_def Let_def c1 atoi_sign [OF sg ds] prod.case c2 c3 u
  consider (small) "length ?n < 19" | (edge) "length ?n = 19" | (large) "19 < length ?n" by linarith
  then show ?thesis
  proof cases
    case small
    then have "(10::nat) ^ length ?n \<le> 10 ^ 18" by (intro power_increasing) simp_all
    then have d: "dval ds < 2 ^ 63" using v by simp
    then have w: "uint (word_of_nat (dval ds) :: u64) = int (dval ds)"
      by (simp add: uint_nat unat_of_nat del: of_nat_unat)
    have "i64_ok (int (dval ds))" "i64_ok (- int (dval ds))" "\<not> LARGEST_INT64 < int (dval ds)"
      using d unfolding i64_ok_def L by simp_all
    then show ?thesis using small c4 unfolding unf w by (auto simp: atoi_result_def)
  next
    case edge
    have "dval ds < 10 ^ 19" using v edge by simp
    then have w: "uint (word_of_nat (dval ds) :: u64) = int (dval ds)"
      by (simp add: uint_nat unat_of_nat del: of_nat_unat)
    have c: "compare_pow_list (?n @ rest) < 0 \<longleftrightarrow> dval ds < 2 ^ 63"
      "compare_pow_list (?n @ rest) = 0 \<longleftrightarrow> dval ds = 2 ^ 63"
      using compare_pow_sign [OF strip0_digits [OF ds(2)] edge, of rest] by (simp_all add: dval_strip0)
    show ?thesis using edge c4 c unfolding unf w
      by (auto simp: atoi_result_def i64_ok_def L)
  next
    case large
    have "?n \<noteq> []" using large by auto
    have "(10::nat) ^ 19 \<le> 10 ^ (length ?n - 1)" using large by (intro power_increasing) simp_all
    then have "(10::nat) ^ 19 \<le> dval ds" using strip0_large [OF ds(2) \<open>?n \<noteq> []\<close>] by linarith
    then have "2 ^ 63 < dval ds" by simp
    then have "\<not> i64_ok (int (dval ds))" "\<not> i64_ok (- int (dval ds))" "int (dval ds) \<noteq> LARGEST_INT64 + 1"
      unfolding i64_ok_def L by simp_all
    then show ?thesis using large c4 \<open>2 ^ 63 < dval ds\<close> unfolding unf by (auto simp: atoi_result_def L)
  qed
qed

lemma strided_utf8: "p + k = len \<Longrightarrow> len \<le> length z \<Longrightarrow> strided z SQLITE_UTF8 len p = take k (drop p z)"
proof (induction k arbitrary: p)
  case 0
  then show ?case by (simp add: strided_Nil)
next
  case (Suc k)
  then have "p < length z" by simp
  then show ?case using Suc by (simp add: strided_Cons incr_of_def Cons_nth_drop_Suc [symmetric])
qed

lemma num_window_utf8: "num_window z len SQLITE_UTF8 = (0, len, False)"
  by (simp add: num_window_def)

text \<open>
  C16. \<open>sqlite3Atoi64\<close> reads decimal numbers exactly, in all three encodings: for spaces, an optional
  sign, digits and other text it returns the value, with 0 or, when more than spaces follows, 1; a
  value that does not fit is clamped with 2, and 9223372036854775808 itself is reported as 3.
\<close>

theorem Atoi64_decimal:
  assumes "num_window z len e = (p, zEnd, nonNum)"
    and "strided z e zEnd p = sp @ sg @ ds @ rest"
    and "list_all sqlite3Isspace sp" and "sg \<in> {[], [0x2D], [0x2B]}"
    and "ds \<noteq> []" and "list_all dig_byte ds" and "rest = [] \<or> \<not> dig_byte (hd rest)"
  shows "sqlite3Atoi64 z len e =
    atoi_result (nonNum \<or> \<not> list_all sqlite3Isspace rest)
      (if sg = [0x2D] then - int (dval ds) else int (dval ds))"
  unfolding Atoi64_chars [OF assms(1)] assms(2) by (rule atoi_chars_value) (use assms in auto)

theorem Atoi64_decimal_witness:
  "sqlite3Atoi64 [0x20, 0x2D, 0x34, 0x32, 0x20] 5 SQLITE_UTF8 = (0, - 42) \<and>
   sqlite3Atoi64 [0x39, 0x32, 0x32, 0x33, 0x33, 0x37, 0x32, 0x30, 0x33, 0x36, 0x38, 0x35, 0x34, 0x37, 0x37,
     0x35, 0x38, 0x30, 0x38] 19 SQLITE_UTF8 = (3, LARGEST_INT64)"
proof -
  have a: "strided [0x20, 0x2D, 0x34, 0x32, 0x20] SQLITE_UTF8 5 0 = [0x20] @ [0x2D] @ [0x34, 0x32] @ [0x20]"
    by (subst strided_utf8 [of _ 5]) simp_all
  let ?z = "[0x39, 0x32, 0x32, 0x33, 0x33, 0x37, 0x32, 0x30, 0x33, 0x36, 0x38, 0x35, 0x34, 0x37, 0x37,
     0x35, 0x38, 0x30, 0x38]"
  have b: "strided ?z SQLITE_UTF8 19 0 = [] @ [] @ ?z @ []"
    by (subst strided_utf8 [of _ 19]) simp_all
  show ?thesis
    using Atoi64_decimal [OF num_window_utf8 a] Atoi64_decimal [OF num_window_utf8 b]
    by (simp add: class_ranges space_nat_def dig_byte_def atoi_result_def i64_defs)
qed

subsection \<open>sqlite3GetUInt32\<close>

fun uint32_loop :: "u8 list \<Rightarrow> u64 \<Rightarrow> nat \<Rightarrow> (u64 \<times> nat \<times> u8 list) option" where
  "uint32_loop [] v i = Some (v, i, [])"
| "uint32_loop (b # z) v i =
     (if sqlite3Isdigit b
      then let v = v * 10 + ucast b - 0x30 in
           if v > 4294967296 then None else uint32_loop z v (i + 1)
      else Some (v, i, b # z))"

definition sqlite3GetUInt32 :: "u8 list \<Rightarrow> bool \<times> u32" where
  "sqlite3GetUInt32 z =
     (case uint32_loop z 0 0 of
        None \<Rightarrow> (False, 0)
      | Some (v, i, z') \<Rightarrow> if i = 0 \<or> cstr_hd z' \<noteq> 0 then (False, 0) else (True, ucast v))"

lemma Isdigit_dig: "sqlite3Isdigit b \<longleftrightarrow> dig_byte b"
  by (simp add: class_ranges digit_nat_def dig_byte_def word_le_nat_alt)

lemma uint32_loop_value:
  assumes "unat v \<le> 2 ^ 32"
  shows "uint32_loop z v i =
    (let ds = takeWhile dig_byte z; r = foldl dstep (unat v) ds in
     if r \<le> 2 ^ 32 then Some (word_of_nat r, i + length ds, dropWhile dig_byte z) else None)"
  using assms
proof (induction z arbitrary: v i)
  case Nil
  then show ?case by (simp add: ucast_id)
next
  case (Cons b z)
  show ?case
  proof (cases "dig_byte b")
    case False
    then show ?thesis using Cons.prems by (simp add: Isdigit_dig ucast_id)
  next
    case True
    have "dig_push v b = word_of_nat (dstep (unat v) b)"
      using dig_push_nat [OF True, of "unat v"] by (simp add: dstep_def ucast_id)
    moreover have "unat b - 48 \<le> 9" using dig_range [OF True] by linarith
    then have "dstep (unat v) b \<le> 2 ^ 32 * 10 + 9"
      unfolding dstep_def using Cons.prems by (intro add_mono mult_le_mono1)
    then have "dstep (unat v) b < 2 ^ 64" by simp
    ultimately have n: "unat (dig_push v b) = dstep (unat v) b"
      by (simp add: unat_of_nat)
    have mono: "k \<le> foldl dstep k ds" for k ds
    proof -
      have "k * 1 \<le> k * 10 ^ length ds" by (intro mult_le_mono2) simp
      then show ?thesis using foldl_dstep [of k ds] by linarith
    qed
    have c: "dig_push v b > 4294967296 \<longleftrightarrow> \<not> dstep (unat v) b \<le> 2 ^ 32"
      by (simp add: word_less_nat_alt n not_le)
    show ?thesis
    proof (cases "dstep (unat v) b \<le> 2 ^ 32")
      case le: True
      then show ?thesis
        using Cons.IH [of "dig_push v b" "i + 1"] True n c
        by (simp add: Isdigit_dig dig_push_def [symmetric] Let_def)
    next
      case False
      then have "\<not> foldl dstep (dstep (unat v) b) (takeWhile dig_byte z) \<le> 2 ^ 32"
        using mono [of "dstep (unat v) b" "takeWhile dig_byte z"] by simp
      then show ?thesis using True c False
        by (simp add: Isdigit_dig dig_push_def [symmetric] Let_def)
    qed
  qed
qed

text \<open>
  \<open>sqlite3GetUInt32\<close> accepts exactly the non-empty strings of digits whose value is at most
  \<open>2 ^ 32\<close>: the limit is off by one, and \<open>4294967296\<close>, which does not fit, is accepted as 0.
\<close>

theorem GetUInt32_off_by_one:
  assumes "cstring z"
  shows "sqlite3GetUInt32 z =
    (let ok = z \<noteq> [] \<and> list_all dig_byte z \<and> dval z \<le> 2 ^ 32
     in (ok, if ok \<and> dval z < 2 ^ 32 then word_of_nat (dval z) else 0))"
proof -
  have t: "takeWhile dig_byte z = z" "dropWhile dig_byte z = []" if "list_all dig_byte z"
    using that by (induction z) auto
  have d: "cstr_hd (dropWhile dig_byte z) \<noteq> 0" if "\<not> list_all dig_byte z"
    using that assms by (induction z) (auto simp: cstring_def cstr_hd_def)
  have u: "ucast (word_of_nat n :: u64) = (if n < 2 ^ 32 then word_of_nat n else 0 :: u32)" if "n \<le> 2 ^ 32" for n
  proof (cases "n = 2 ^ 32")
    case False
    then have "n < 2 ^ 32" using that by simp
    then show ?thesis by (simp add: word_unat_eq_iff unat_of_nat unsigned_ucast_eq take_bit_nat_eq_self)
  qed simp
  show ?thesis
  proof (cases "list_all dig_byte z")
    case True
    then show ?thesis
      using u [of "dval z"] by (simp add: sqlite3GetUInt32_def uint32_loop_value t dval_foldl Let_def cstr_hd_def)
  next
    case False
    then show ?thesis
      using d by (auto simp: sqlite3GetUInt32_def uint32_loop_value Let_def)
  qed
qed

theorem GetUInt32_off_by_one_witness:
  "sqlite3GetUInt32 [0x34, 0x32, 0x39, 0x34, 0x39, 0x36, 0x37, 0x32, 0x39, 0x36] = (True, 0)"
  using GetUInt32_off_by_one [of "[0x34, 0x32, 0x39, 0x34, 0x39, 0x36, 0x37, 0x32, 0x39, 0x36]"]
  by (simp add: cstring_def dig_byte_def)

subsection \<open>sqlite3GetInt32 and sqlite3DecOrHexToI64\<close>

definition getint_dec :: "bool \<Rightarrow> u8 list \<Rightarrow> int option" where
  "getint_dec neg z =
     (if \<not> sqlite3Isdigit (cstr_hd z) then None
      else let z = dropWhile (\<lambda>b. b = 0x30) z;
               ds = take 11 (takeWhile dig_byte z);
               v = foldl (\<lambda>v b. v * 10 + (uint b - 0x30)) 0 ds
           in if 10 < length ds then None
              else if 2147483647 < v - (if neg then 1 else 0) then None
              else Some (if neg then - v else v))"

definition hex_digits :: "u8 list \<Rightarrow> 'w::len word" where
  "hex_digits ds = foldl (\<lambda>u b. u * 16 + ucast (sqlite3HexToInt b)) 0 ds"

definition hex_prefix :: "u8 list \<Rightarrow> bool" where
  "hex_prefix z \<longleftrightarrow> cstr_hd z = 0x30 \<and> (cstr_hd (tl z) = 0x78 \<or> cstr_hd (tl z) = 0x58)"

definition sqlite3GetInt32 :: "u8 list \<Rightarrow> int option" where
  "sqlite3GetInt32 z =
     (if cstr_hd z = 0x2D then getint_dec True (tl z)
      else if cstr_hd z = 0x2B then getint_dec False (tl z)
      else if hex_prefix z \<and> sqlite3Isxdigit (cstr_hd (drop 2 z))
      then let h = dropWhile (\<lambda>b. b = 0x30) (drop 2 z);
               ds = take 8 (takeWhile sqlite3Isxdigit h);
               u = hex_digits ds :: u32
           in if u AND 0x80000000 = 0 \<and> \<not> sqlite3Isxdigit (cstr_hd (drop (length ds) h))
              then Some (uint u) else None
      else getint_dec False z)"

definition sqlite3Atoi :: "u8 list \<Rightarrow> int" where
  "sqlite3Atoi z = (case sqlite3GetInt32 z of None \<Rightarrow> 0 | Some x \<Rightarrow> x)"

definition sqlite3DecOrHexToI64 :: "u8 list \<Rightarrow> int \<times> int" where
  "sqlite3DecOrHexToI64 z =
     (if hex_prefix z
      then let h = dropWhile (\<lambda>b. b = 0x30) (drop 2 z); ds = takeWhile sqlite3Isxdigit h;
               u = hex_digits ds :: u64
           in ((if cstr_hd (drop (length ds) h) = 0 \<and> length ds \<le> 16 then 0 else 2), sint u)
      else sqlite3Atoi64 z (length z) SQLITE_UTF8)"

lemma getint_fold: "list_all dig_byte ds \<Longrightarrow>
   foldl (\<lambda>v b. v * 10 + (uint b - 0x30)) (int n) ds = int (foldl dstep n ds)"
proof (induction ds arbitrary: n)
  case (Cons b ds)
  then have "int n * 10 + (uint b - 0x30) = int (dstep n b)"
    using dig_range [of b] by (simp add: dstep_def of_nat_diff)
  then show ?case using Cons by simp
qed simp

lemma getint_dec_value:
  assumes "ds \<noteq> []" "list_all dig_byte ds" "rest = [] \<or> \<not> dig_byte (hd rest)"
  shows "getint_dec neg (ds @ rest) =
    (let v = (if neg then - int (dval ds) else int (dval ds))
     in if - (2 ^ 31) \<le> v \<and> v < 2 ^ 31 then Some v else None)"
proof -
  let ?n = "strip0 ds"
  have c1: "sqlite3Isdigit (cstr_hd (ds @ rest))"
    using assms(1,2) by (cases ds) (auto simp: Isdigit_dig cstr_hd_def)
  have c2: "dropWhile (\<lambda>b. b = 0x30) (ds @ rest) = ?n @ rest" by (rule strip0_append [OF assms(2,3)])
  have c3: "takeWhile dig_byte (?n @ rest) = ?n"
    using strip0_digits [OF assms(2)] assms(3) by (cases rest) (auto simp: list_all_iff takeWhile_append)
  show ?thesis
  proof (cases "length ?n \<le> 10")
    case True
    then have "take 11 ?n = ?n" by simp
    moreover have "foldl (\<lambda>v b. v * 10 + (uint b - 0x30)) 0 ?n = int (dval ds)"
      using getint_fold [OF strip0_digits [OF assms(2)], of 0] dval_strip0 [of ds] by (simp add: dval_foldl)
    ultimately show ?thesis using True c1 by (auto simp: getint_dec_def c2 c3 Let_def)
  next
    case False
    then have "?n \<noteq> []" by auto
    have "(10::nat) ^ 10 \<le> 10 ^ (length ?n - 1)" using False by (intro power_increasing) simp_all
    then have "10 ^ 10 \<le> dval ds" using strip0_large [OF assms(2) \<open>?n \<noteq> []\<close>] by linarith
    then show ?thesis using False c1 by (auto simp: getint_dec_def c2 c3 Let_def)
  qed
qed

text \<open>
  \<open>sqlite3GetInt32\<close> succeeds on a decimal number exactly when it fits into 32 bits, and then
  yields its value, whatever text follows; \<open>sqlite3Atoi\<close> yields 0 where it fails.
\<close>

theorem GetInt32_decimal:
  assumes "sg \<in> {[], [0x2D], [0x2B]}" and "ds \<noteq> []" and "list_all dig_byte ds"
    and "rest = [] \<or> \<not> dig_byte (hd rest)" and "sg \<noteq> [] \<or> cstr_hd rest \<notin> {0x78, 0x58}"
  shows "let v = (if sg = [0x2D] then - int (dval ds) else int (dval ds)); fits = (- (2 ^ 31) \<le> v \<and> v < 2 ^ 31)
    in sqlite3GetInt32 (sg @ ds @ rest) = (if fits then Some v else None) \<and>
       sqlite3Atoi (sg @ ds @ rest) = (if fits then v else 0)"
proof -
  obtain d ds' where d: "ds = d # ds'" "dig_byte d" using assms(2,3) by (cases ds) auto
  have nx: "\<not> hex_prefix (ds @ rest)" if "sg = []"
    using that assms(3,5) d dig_range [of "hd ds'"] by (cases ds') (auto simp: hex_prefix_def cstr_hd_def dig_byte_def)
  have "sqlite3GetInt32 (sg @ ds @ rest) = getint_dec (sg = [0x2D]) (ds @ rest)"
    using assms(1) d dig_facts(2) [OF d(2)] nx by (auto simp: sqlite3GetInt32_def cstr_hd_def)
  then show ?thesis
    using getint_dec_value [OF assms(2,3,4), of "sg = [0x2D]"] by (auto simp: sqlite3Atoi_def Let_def)
qed

theorem GetInt32_decimal_witness:
  "sqlite3GetInt32 [0x2D, 0x32, 0x31, 0x34, 0x37, 0x34, 0x38, 0x33, 0x36, 0x34, 0x38] = Some (- 2147483648) \<and>
   sqlite3GetInt32 [0x32, 0x31, 0x34, 0x37, 0x34, 0x38, 0x33, 0x36, 0x34, 0x38] = None"
  using GetInt32_decimal [of "[0x2D]" "[0x32, 0x31, 0x34, 0x37, 0x34, 0x38, 0x33, 0x36, 0x34, 0x38]" "[]"]
    GetInt32_decimal [of "[]" "[0x32, 0x31, 0x34, 0x37, 0x34, 0x38, 0x33, 0x36, 0x34, 0x38]" "[]"]
  by (simp add: dig_byte_def cstr_hd_def)

end
