(* ===== verification/SqlHash.thy ===== *)
theory SqlHash
  imports SqlChar "HOL-Library.Multiset"
begin

section \<open>The symbol table of the bundled SQLite (hash.c)\<close>

text \<open>
  All elements stand on one doubly-linked list; a bucket of the table points at the first of its
  elements on that list and counts them. The list is modelled as the list of its elements in
  order, an element by its address, key and data, so \<open>next\<close> and \<open>prev\<close> are its neighbours. The
  allocator is a parameter: an address for an element, or \<open>None\<close>; and the number of buckets that
  an allocation for a requested number really has room for.
\<close>

subsection \<open>Data and operations\<close>

record 'd helem =
  haddr :: nat
  pKey :: "u8 list"
  hdata :: 'd

record bucket =
  bcount :: nat
  chain :: nat

record 'd hash =
  hfirst :: "'d helem list"
  hcount :: nat
  ht :: "bucket list option"

definition sqlite3HashInit :: "'d hash" where
  "sqlite3HashInit = \<lparr>hfirst = [], hcount = 0, ht = None\<rparr>"

definition sqlite3HashClear :: "'d hash \<Rightarrow> 'd hash" where
  "sqlite3HashClear H = H\<lparr>hfirst := [], ht := None, hcount := 0\<rparr>"

definition htsize :: "'d hash \<Rightarrow> nat" where
  "htsize H = (case ht H of None \<Rightarrow> 0 | Some bs \<Rightarrow> length bs)"

definition hash_step :: "u32 \<Rightarrow> u8 \<Rightarrow> u32" where
  "hash_step h c = (h + ucast c) * 0x9e3779b1"

fun strHash_loop :: "u32 \<Rightarrow> u8 list \<Rightarrow> u32" where
  "strHash_loop h [] = h"
| "strHash_loop h (c # z) =
     (if c = 0 then h else strHash_loop (hash_step h (sqlite3Tolower c)) z)"

definition strHash :: "u8 list \<Rightarrow> u32" where
  "strHash z = strHash_loop 0 z"

text \<open>The bucket of a key among \<open>n\<close>.\<close>

definition slot :: "nat \<Rightarrow> u8 list \<Rightarrow> nat" where
  "slot n z = unat (strHash z) mod n"

definition link_before :: "nat \<Rightarrow> 'd helem \<Rightarrow> 'd helem list \<Rightarrow> 'd helem list" where
  "link_before a e es = takeWhile (\<lambda>x. haddr x \<noteq> a) es @ e # dropWhile (\<lambda>x. haddr x \<noteq> a) es"

definition insertElement :: "nat option \<Rightarrow> 'd helem \<Rightarrow> 'd hash \<Rightarrow> 'd hash" where
  "insertElement pEntry pNew H =
     (case (pEntry, ht H) of
        (Some h, Some bs) \<Rightarrow>
          let b = bs ! h;
              es = (if bcount b \<noteq> 0 then link_before (chain b) pNew (hfirst H) else pNew # hfirst H)
          in H\<lparr>hfirst := es, ht := Some (bs[h := \<lparr>bcount = bcount b + 1, chain = haddr pNew\<rparr>])\<rparr>
      | _ \<Rightarrow> H\<lparr>hfirst := pNew # hfirst H\<rparr>)"

definition SQLITE_MALLOC_SOFT_LIMIT :: nat where "SQLITE_MALLOC_SOFT_LIMIT = 1024"
definition sizeof_ht :: nat where "sizeof_ht = 16"

fun rehash_loop :: "'d helem list \<Rightarrow> 'd hash \<Rightarrow> 'd hash" where
  "rehash_loop [] H = H"
| "rehash_loop (e # es) H = rehash_loop es (insertElement (Some (slot (htsize H) (pKey e))) e H)"

definition rehash :: "(nat \<Rightarrow> nat option) \<Rightarrow> 'd hash \<Rightarrow> nat \<Rightarrow> bool \<times> 'd hash" where
  "rehash ht_alloc H new_size =
     (let new_size = (if SQLITE_MALLOC_SOFT_LIMIT < new_size * sizeof_ht
                      then SQLITE_MALLOC_SOFT_LIMIT div sizeof_ht else new_size) in
      if new_size = htsize H then (False, H)
      else case ht_alloc new_size of
        None \<Rightarrow> (False, H)
      | Some n \<Rightarrow>
          (True, rehash_loop (hfirst H)
             (H\<lparr>ht := Some (replicate n \<lparr>bcount = 0, chain = 0\<rparr>), hfirst := []\<rparr>)))"

definition find_in :: "u8 list \<Rightarrow> 'd helem list \<Rightarrow> 'd helem option" where
  "find_in k es = find (\<lambda>e. sqlite3StrICmp (pKey e) k = 0) es"

definition findElementWithHash :: "'d hash \<Rightarrow> u8 list \<Rightarrow> 'd helem option \<times> nat" where
  "findElementWithHash H k =
     (case ht H of
        Some bs \<Rightarrow>
          let h = slot (length bs) k; b = bs ! h
          in (find_in k (take (bcount b) (dropWhile (\<lambda>x. haddr x \<noteq> chain b) (hfirst H))), h)
      | None \<Rightarrow> (find_in k (take (hcount H) (hfirst H)), 0))"

definition next_addr :: "nat \<Rightarrow> 'd helem list \<Rightarrow> nat" where
  "next_addr a es = (case tl (dropWhile (\<lambda>x. haddr x \<noteq> a) es) of [] \<Rightarrow> 0 | e # _ \<Rightarrow> haddr e)"

definition removeElementGivenHash :: "'d hash \<Rightarrow> 'd helem \<Rightarrow> nat \<Rightarrow> 'd hash" where
  "removeElementGivenHash H e h =
     (let H1 = H\<lparr>hfirst := filter (\<lambda>x. haddr x \<noteq> haddr e) (hfirst H)\<rparr>;
          H2 = (case ht H of
             Some bs \<Rightarrow>
               let b = bs ! h;
                   b = (if chain b = haddr e then b\<lparr>chain := next_addr (haddr e) (hfirst H)\<rparr> else b)
               in H1\<lparr>ht := Some (bs[h := b\<lparr>bcount := bcount b - 1\<rparr>])\<rparr>
           | None \<Rightarrow> H1);
          H3 = H2\<lparr>hcount := hcount H2 - 1\<rparr>
      in if hcount H3 = 0 then sqlite3HashClear H3 else H3)"

definition sqlite3HashFind :: "'d hash \<Rightarrow> u8 list \<Rightarrow> 'd option" where
  "sqlite3HashFind H k = map_option hdata (fst (findElementWithHash H k))"

definition sqlite3HashInsert ::
  "nat option \<Rightarrow> (nat \<Rightarrow> nat option) \<Rightarrow> 'd hash \<Rightarrow> u8 list \<Rightarrow> 'd option \<Rightarrow> 'd option \<times> 'd hash" where
  "sqlite3HashInsert el_alloc ht_alloc H k d =
     (let (found, h) = findElementWithHash H k in
      case found of
        Some e \<Rightarrow>
          (Some (hdata e),
           case d of
             None \<Rightarrow> removeElementGivenHash H e h
           | Some v \<Rightarrow> H\<lparr>hfirst := map (\<lambda>x. if haddr x = haddr e then x\<lparr>hdata := v, pKey := k\<rparr> else x)
                                       (hfirst H)\<rparr>)
      | None \<Rightarrow>
          case d of
            None \<Rightarrow> (None, H)
          | Some v \<Rightarrow>
              case el_alloc of
                None \<Rightarrow> (d, H)
              | Some a \<Rightarrow>
                  let H = H\<lparr>hcount := hcount H + 1\<rparr>;
                      (h, H) = (if 10 \<le> hcount H \<and> 2 * htsize H < hcount H
                                then let (ok, H') = rehash ht_alloc H (hcount H * 2)
                                     in (if ok then slot (htsize H') k else h, H')
                                else (h, H));
                      e = \<lparr>haddr = a, pKey = k, hdata = v\<rparr>
                  in (None, insertElement (if ht H = None then None else Some h) e H))"

subsection \<open>Elements with one hash value stand together\<close>

fun grouped :: "('a \<Rightarrow> nat) \<Rightarrow> 'a list \<Rightarrow> bool" where
  "grouped f [] = True"
| "grouped f (x # xs) = (grouped f xs \<and> (f x \<notin> f ` set xs \<or> f x = f (hd xs)))"

lemma grouped_segment:
  "grouped f xs \<Longrightarrow> take (length (filter (\<lambda>x. f x = h) xs)) (dropWhile (\<lambda>x. f x \<noteq> h) xs) = filter (\<lambda>x. f x = h) xs"
proof (induction xs)
  case (Cons x xs)
  show ?case
  proof (cases "f x = h")
    case True
    show ?thesis
    proof (cases "h \<in> f ` set xs")
      case in_tail: True
      then have "xs \<noteq> []" "f (hd xs) = h" using Cons.prems True by auto
      then have "dropWhile (\<lambda>x. f x \<noteq> h) xs = xs" by (cases xs) auto
      then show ?thesis using Cons True by simp
    next
      case False
      then have "filter (\<lambda>x. f x = h) xs = []" by (auto simp: filter_empty_conv)
      then show ?thesis using True by simp
    qed
  next
    case False
    then show ?thesis using Cons by simp
  qed
qed simp

lemma grouped_insert:
  "grouped f xs \<Longrightarrow> f e \<in> f ` set xs \<Longrightarrow>
   grouped f (takeWhile (\<lambda>x. f x \<noteq> f e) xs @ e # dropWhile (\<lambda>x. f x \<noteq> f e) xs)"
proof (induction xs)
  case (Cons x xs)
  show ?case
  proof (cases "f x = f e")
    case False
    have set: "set (takeWhile (\<lambda>x. f x \<noteq> f e) xs @ e # dropWhile (\<lambda>x. f x \<noteq> f e) xs) = insert e (set xs)"
      by (metis Un_insert_right list.simps(15) set_append takeWhile_dropWhile_id)
    have hd: "hd (takeWhile (\<lambda>x. f x \<noteq> f e) xs @ e # dropWhile (\<lambda>x. f x \<noteq> f e) xs) = hd xs"
      if "xs \<noteq> []" "f (hd xs) \<noteq> f e"
      using that by (cases xs) auto
    show ?thesis
    proof (cases "f x \<in> f ` set xs")
      case True
      then have "xs \<noteq> []" "f x = f (hd xs)" using Cons.prems by auto
      then show ?thesis using Cons False hd by (auto simp: set)
    next
      case notin: False
      have "grouped f (takeWhile (\<lambda>x. f x \<noteq> f e) xs @ e # dropWhile (\<lambda>x. f x \<noteq> f e) xs)"
        using Cons False by auto
      then show ?thesis using False notin by (simp del: set_append add: set)
    qed
  qed (use Cons.prems in simp)
qed simp

lemma grouped_remove: "grouped f (us @ e # vs) \<Longrightarrow> grouped f (us @ vs)"
  by (induction us) (auto simp: hd_append split: if_splits)

lemma dropWhile_first:
  fixes es :: "'a helem list"
  assumes "distinct (map haddr es)" "filter Q es \<noteq> []"
  shows "dropWhile (\<lambda>x. haddr x \<noteq> haddr (hd (filter Q es))) es = dropWhile (\<lambda>x. \<not> Q x) es"
    "takeWhile (\<lambda>x. haddr x \<noteq> haddr (hd (filter Q es))) es = takeWhile (\<lambda>x. \<not> Q x) es"
proof -
  have *: "distinct (map haddr es) \<Longrightarrow> filter Q es \<noteq> [] \<Longrightarrow>
    dropWhile (\<lambda>x. haddr x \<noteq> haddr (hd (filter Q es))) es = dropWhile (\<lambda>x. \<not> Q x) es \<and>
    takeWhile (\<lambda>x. haddr x \<noteq> haddr (hd (filter Q es))) es = takeWhile (\<lambda>x. \<not> Q x) es" for es :: "'a helem list"
  proof (induction es)
    case (Cons x es)
    show ?case
    proof (cases "Q x")
      case False
      then have "filter Q es \<noteq> []" using Cons.prems by simp
      then have "hd (filter Q es) \<in> set es" by (metis filter_is_subset hd_in_set subset_iff)
      then have "haddr x \<noteq> haddr (hd (filter Q es))" using Cons.prems by auto
      then show ?thesis using Cons False by simp
    qed simp
  qed simp
  show "dropWhile (\<lambda>x. haddr x \<noteq> haddr (hd (filter Q es))) es = dropWhile (\<lambda>x. \<not> Q x) es"
    "takeWhile (\<lambda>x. haddr x \<noteq> haddr (hd (filter Q es))) es = takeWhile (\<lambda>x. \<not> Q x) es"
    using * [OF assms] by simp_all
qed

subsection \<open>The table invariant\<close>

definition of_slot :: "nat \<Rightarrow> nat \<Rightarrow> 'd helem \<Rightarrow> bool" where
  "of_slot n h e \<longleftrightarrow> slot n (pKey e) = h"

definition table_ok :: "bucket list \<Rightarrow> 'd helem list \<Rightarrow> bool" where
  "table_ok bs es \<longleftrightarrow> 0 < length bs \<and> grouped (\<lambda>e. slot (length bs) (pKey e)) es \<and>
     (\<forall>h<length bs. bcount (bs ! h) = length (filter (of_slot (length bs) h) es) \<and>
        (filter (of_slot (length bs) h) es \<noteq> [] \<longrightarrow>
           chain (bs ! h) = haddr (hd (filter (of_slot (length bs) h) es))))"

definition elems_ok :: "'d helem list \<Rightarrow> bool" where
  "elems_ok es \<longleftrightarrow> distinct (map haddr es) \<and> (\<forall>e\<in>set es. cstring (pKey e)) \<and>
     distinct (map (\<lambda>e. fold_case (pKey e)) es)"

definition buckets_ok :: "'d hash \<Rightarrow> bool" where
  "buckets_ok H \<longleftrightarrow> (case ht H of None \<Rightarrow> True | Some bs \<Rightarrow> table_ok bs (hfirst H))"

definition hash_wf :: "'d hash \<Rightarrow> bool" where
  "hash_wf H \<longleftrightarrow> elems_ok (hfirst H) \<and> hcount H = length (hfirst H) \<and> buckets_ok H"

lemmas hash_wf_defs = hash_wf_def elems_ok_def buckets_ok_def

text \<open>What the table means: a map from names without case.\<close>

definition hash_view :: "'d hash \<Rightarrow> u8 list \<Rightarrow> 'd option" where
  "hash_view H = map_of (map (\<lambda>e. (fold_case (pKey e), hdata e)) (hfirst H))"

lemma strHash_fold: "cstring z \<Longrightarrow> strHash_loop h z = foldl hash_step h (fold_case z)"
  by (induction z arbitrary: h) (auto simp: cstring_def fold_case_def)

lemma slot_fold: "cstring a \<Longrightarrow> cstring b \<Longrightarrow> fold_case a = fold_case b \<Longrightarrow> slot n a = slot n b"
  unfolding slot_def strHash_def by (simp only: strHash_fold)

lemma slot_less: "0 < n \<Longrightarrow> slot n k < n"
  by (simp add: slot_def)

lemma bucket_segment:
  assumes "table_ok bs es" "distinct (map haddr es)" "h < length bs"
  shows "take (bcount (bs ! h)) (dropWhile (\<lambda>x. haddr x \<noteq> chain (bs ! h)) es) = filter (of_slot (length bs) h) es"
proof (cases "filter (of_slot (length bs) h) es = []")
  case False
  then have "dropWhile (\<lambda>x. haddr x \<noteq> chain (bs ! h)) es = dropWhile (\<lambda>x. \<not> of_slot (length bs) h x) es"
    using assms dropWhile_first(1) [OF assms(2) False] by (simp add: table_ok_def)
  then show ?thesis
    using assms grouped_segment [of "\<lambda>e. slot (length bs) (pKey e)" es h]
    by (simp add: table_ok_def of_slot_def [abs_def])
qed (use assms in \<open>simp add: table_ok_def\<close>)

lemma find_filter:
  assumes "\<forall>e\<in>set es. cstring (pKey e)" "cstring k"
  shows "find_in k (filter (of_slot n (slot n k)) es) = find (\<lambda>e. fold_case (pKey e) = fold_case k) es"
  using assms
proof (induction es)
  case (Cons e es)
  then have "fold_case (pKey e) = fold_case k \<Longrightarrow> slot n (pKey e) = slot n k"
    using slot_fold [of "pKey e" k n] by simp
  then show ?case
    using Cons StrICmp_zero [of "pKey e" k] by (simp add: find_in_def of_slot_def)
qed (simp add: find_in_def)

lemma find_all:
  assumes "\<forall>e\<in>set es. cstring (pKey e)" "cstring k"
  shows "find_in k es = find (\<lambda>e. fold_case (pKey e) = fold_case k) es"
  using assms by (induction es) (auto simp: find_in_def StrICmp_zero)

lemma findElement_wf:
  assumes "hash_wf H" "cstring k"
  shows "findElementWithHash H k =
    (find (\<lambda>e. fold_case (pKey e) = fold_case k) (hfirst H),
     case ht H of None \<Rightarrow> 0 | Some bs \<Rightarrow> slot (length bs) k)"
proof (cases "ht H")
  case None
  then show ?thesis using assms find_all [of "hfirst H" k]
    by (simp add: findElementWithHash_def hash_wf_defs)
next
  case (Some bs)
  then have t: "table_ok bs (hfirst H)" "distinct (map haddr (hfirst H))" "\<forall>e\<in>set (hfirst H). cstring (pKey e)"
    using assms(1) by (simp_all add: hash_wf_defs)
  then have "slot (length bs) k < length bs" by (intro slot_less) (simp add: table_ok_def)
  from bucket_segment [OF t(1,2) this] find_filter [OF t(3) assms(2), of "length bs"]
  show ?thesis by (simp add: findElementWithHash_def Some Let_def)
qed

lemma find_view:
  "map_option hdata (find (\<lambda>e. fold_case (pKey e) = f) es) = map_of (map (\<lambda>e. (fold_case (pKey e), hdata e)) es) f"
  by (induction es) auto

lemma HashFind_view: "hash_wf H \<Longrightarrow> cstring k \<Longrightarrow> sqlite3HashFind H k = hash_view H (fold_case k)"
  by (simp add: sqlite3HashFind_def findElement_wf find_view hash_view_def)

subsection \<open>The operations keep the invariant\<close>

definition placed :: "bucket list \<Rightarrow> 'd helem \<Rightarrow> 'd helem list \<Rightarrow> 'd helem list" where
  "placed bs e es =
     (let b = bs ! slot (length bs) (pKey e)
      in if bcount b \<noteq> 0 then link_before (chain b) e es else e # es)"

definition bumped :: "bucket list \<Rightarrow> 'd helem \<Rightarrow> bucket list" where
  "bumped bs e =
     (let h = slot (length bs) (pKey e)
      in bs[h := \<lparr>bcount = bcount (bs ! h) + 1, chain = haddr e\<rparr>])"

lemma insertElement_table:
  "ht H = Some bs \<Longrightarrow> insertElement (Some (slot (length bs) (pKey e))) e H =
     H\<lparr>hfirst := placed bs e (hfirst H), ht := Some (bumped bs e)\<rparr>"
  by (simp add: insertElement_def placed_def bumped_def Let_def)

lemma link_before_perm: "mset (link_before a e es) = add_mset e (mset es)"
proof -
  have "mset (takeWhile (\<lambda>x. haddr x \<noteq> a) es) + mset (dropWhile (\<lambda>x. haddr x \<noteq> a) es) = mset es"
    by (metis mset_append takeWhile_dropWhile_id)
  then show ?thesis by (simp add: link_before_def)
qed

lemma placed_perm: "mset (placed bs e es) = add_mset e (mset es)"
  by (simp add: placed_def Let_def link_before_perm)

lemma filter_split_at:
  "filter Q (takeWhile (\<lambda>x. \<not> Q x) es @ e # dropWhile (\<lambda>x. \<not> Q x) es) = (if Q e then e # filter Q es else filter Q es)"
  "\<not> R e \<Longrightarrow> filter R (takeWhile (\<lambda>x. \<not> Q x) es @ e # dropWhile (\<lambda>x. \<not> Q x) es) = filter R es"
proof -
  have "filter Q (takeWhile (\<lambda>x. \<not> Q x) es) = []" by (induction es) auto
  moreover have "filter Q (dropWhile (\<lambda>x. \<not> Q x) es) = filter Q es" by (induction es) auto
  ultimately show "filter Q (takeWhile (\<lambda>x. \<not> Q x) es @ e # dropWhile (\<lambda>x. \<not> Q x) es) =
    (if Q e then e # filter Q es else filter Q es)" by simp
  show "\<not> R e \<Longrightarrow> filter R (takeWhile (\<lambda>x. \<not> Q x) es @ e # dropWhile (\<lambda>x. \<not> Q x) es) = filter R es"
    by (metis filter.simps(2) filter_append takeWhile_dropWhile_id)
qed

lemma placed_shape:
  assumes t: "table_ok bs es" and d: "distinct (map haddr es)"
  shows "placed bs e es =
    (if filter (of_slot (length bs) (slot (length bs) (pKey e))) es = [] then e # es
     else takeWhile (\<lambda>x. \<not> of_slot (length bs) (slot (length bs) (pKey e)) x) es @ e #
       dropWhile (\<lambda>x. \<not> of_slot (length bs) (slot (length bs) (pKey e)) x) es)"
proof -
  let ?h = "slot (length bs) (pKey e)"
  have h: "?h < length bs" using t by (simp add: table_ok_def slot_less)
  show ?thesis
  proof (cases "filter (of_slot (length bs) ?h) es = []")
    case True
    then show ?thesis using t h by (simp add: placed_def table_ok_def Let_def)
  next
    case False
    then show ?thesis
      using t h dropWhile_first [OF d False]
      by (simp add: placed_def table_ok_def Let_def link_before_def)
  qed
qed

lemma placed_table_ok:
  assumes t: "table_ok bs es" and d: "distinct (map haddr es)"
  shows "table_ok (bumped bs e) (placed bs e es)"
proof -
  let ?n = "length bs" let ?h = "slot (length bs) (pKey e)" let ?Q = "of_slot ?n ?h"
  let ?f = "\<lambda>e. slot (length bs) (pKey e)"
  have h: "?h < ?n" "0 < ?n" using t by (simp_all add: table_ok_def slot_less)
  have Q: "?Q = (\<lambda>x. ?f x = ?f e)" "?Q e" by (auto simp: of_slot_def)
  have g: "grouped ?f (placed bs e es)"
  proof (cases "filter ?Q es = []")
    case True
    then have "?f e \<notin> ?f ` set es" by (auto simp: filter_empty_conv of_slot_def)
    then show ?thesis using t True placed_shape [OF t d, of e] by (simp add: table_ok_def)
  next
    case False
    then obtain x where "x \<in> set es" "?f e = ?f x" by (auto simp: filter_empty_conv of_slot_def)
    then have "?f e \<in> ?f ` set es" by (rule rev_image_eqI)
    then show ?thesis using t False placed_shape [OF t d, of e] grouped_insert [of ?f es e]
      by (simp add: table_ok_def Q(1))
  qed
  have same: "filter ?Q (placed bs e es) = e # filter ?Q es"
    using filter_split_at(1) [of ?Q es e] Q(2) placed_shape [OF t d, of e] by simp
  have other: "filter (of_slot ?n h') (placed bs e es) = filter (of_slot ?n h') es" if "h' \<noteq> ?h" for h'
  proof -
    have "\<not> of_slot ?n h' e" using that by (auto simp: of_slot_def)
    then show ?thesis using filter_split_at(2) [of "of_slot ?n h'" e ?Q es] placed_shape [OF t d, of e] by simp
  qed
  have len: "length (bumped bs e) = ?n" by (simp add: bumped_def Let_def)
  show ?thesis
    unfolding table_ok_def len
  proof (intro conjI allI impI)
    fix h' assume "h' < ?n"
    show "bcount (bumped bs e ! h') = length (filter (of_slot ?n h') (placed bs e es))"
      using t h \<open>h' < ?n\<close> same other [of h']
      by (cases "h' = ?h") (simp_all add: bumped_def Let_def table_ok_def)
    assume "filter (of_slot ?n h') (placed bs e es) \<noteq> []"
    then show "chain (bumped bs e ! h') = haddr (hd (filter (of_slot ?n h') (placed bs e es)))"
      using t h \<open>h' < ?n\<close> same other [of h']
      by (cases "h' = ?h") (simp_all add: bumped_def Let_def table_ok_def)
  qed (use h g in simp_all)
qed

lemma placed_distinct:
  "distinct (map haddr es) \<Longrightarrow> haddr e \<notin> haddr ` set es \<Longrightarrow> distinct (map haddr (placed bs e es))"
proof -
  assume "distinct (map haddr es)" "haddr e \<notin> haddr ` set es"
  then have "distinct (map haddr (e # es))" by simp
  moreover have "mset (map haddr (placed bs e es)) = mset (map haddr (e # es))"
    by (simp add: placed_perm)
  ultimately show ?thesis by (metis mset_eq_imp_distinct_iff)
qed

lemma empty_table_ok: "0 < n \<Longrightarrow> table_ok (replicate n \<lparr>bcount = 0, chain = 0\<rparr>) []"
  by (simp add: table_ok_def)

lemma rehash_loop_ok:
  assumes "ht H = Some bs" "table_ok bs (hfirst H)" "distinct (map haddr (hfirst H @ es))"
  shows "\<exists>bs'. ht (rehash_loop es H) = Some bs' \<and> length bs' = length bs \<and>
    table_ok bs' (hfirst (rehash_loop es H)) \<and>
    mset (hfirst (rehash_loop es H)) = mset (hfirst H) + mset es \<and>
    hcount (rehash_loop es H) = hcount H"
  using assms
proof (induction es arbitrary: H bs)
  case (Cons e es)
  let ?H = "H\<lparr>hfirst := placed bs e (hfirst H), ht := Some (bumped bs e)\<rparr>"
  have s: "insertElement (Some (slot (htsize H) (pKey e))) e H = ?H"
    using insertElement_table [OF Cons.prems(1)] Cons.prems(1) by (simp add: htsize_def)
  have len: "length (bumped bs e) = length bs" by (simp add: bumped_def Let_def)
  have "distinct (map haddr (hfirst H))" using Cons.prems by simp
  then have "table_ok (bumped bs e) (placed bs e (hfirst H))" by (rule placed_table_ok [OF Cons.prems(2)])
  moreover have "mset (map haddr (placed bs e (hfirst H) @ es)) = mset (map haddr (hfirst H @ e # es))"
    by (simp add: placed_perm)
  then have "distinct (map haddr (placed bs e (hfirst H) @ es))"
    using Cons.prems(3) by (metis mset_eq_imp_distinct_iff)
  ultimately show ?case
    using Cons.IH [of ?H "bumped bs e"] by (simp add: s len placed_perm)
qed simp

lemma elems_ok_perm:
  fixes es es' :: "'d helem list"
  shows "mset es = mset es' \<Longrightarrow> elems_ok es = elems_ok es'"
proof -
  assume m: "mset es = mset es'"
  then have "set es = set es'" by (rule mset_eq_setD)
  moreover have "distinct (map haddr es) = distinct (map haddr es')"
    "distinct (map (\<lambda>e. fold_case (pKey e)) es) = distinct (map (\<lambda>e. fold_case (pKey e)) es')"
    using m by (metis mset_eq_imp_distinct_iff mset_map)+
  ultimately show ?thesis by (simp add: elems_ok_def)
qed

lemma view_perm:
  assumes "mset (hfirst H) = mset (hfirst H')" "elems_ok (hfirst H)"
  shows "hash_view H = hash_view H'"
proof -
  let ?f = "\<lambda>e. (fold_case (pKey e), hdata e)"
  have "distinct (map fst (map ?f (hfirst H)))" "distinct (map fst (map ?f (hfirst H')))"
    using assms elems_ok_perm [OF assms(1)] by (simp_all add: elems_ok_def comp_def)
  moreover have "set (map ?f (hfirst H)) = set (map ?f (hfirst H'))"
    using mset_eq_setD [OF assms(1)] by simp
  ultimately show ?thesis unfolding hash_view_def using map_of_inject_set by blast
qed

lemma rehash_ok:
  assumes H: "elems_ok (hfirst H)" "buckets_ok H"
    and a: "\<And>m n. ht_alloc m = Some n \<Longrightarrow> m \<le> n" and n: "0 < new_size"
    and r: "rehash ht_alloc H new_size = (ok, H')"
  shows "buckets_ok H' \<and> mset (hfirst H') = mset (hfirst H) \<and> hcount H' = hcount H \<and>
    (\<not> ok \<longrightarrow> H' = H) \<and> (ok \<longrightarrow> ht H' \<noteq> None)"
proof -
  define sz where "sz = (if SQLITE_MALLOC_SOFT_LIMIT < new_size * sizeof_ht
                      then SQLITE_MALLOC_SOFT_LIMIT div sizeof_ht else new_size)"
  have "0 < sz" using n by (simp add: sz_def SQLITE_MALLOC_SOFT_LIMIT_def sizeof_ht_def)
  have r': "(if sz = htsize H then (False, H)
      else case ht_alloc sz of None \<Rightarrow> (False, H)
      | Some n \<Rightarrow> (True, rehash_loop (hfirst H)
             (H\<lparr>ht := Some (replicate n \<lparr>bcount = 0, chain = 0\<rparr>), hfirst := []\<rparr>))) = (ok, H')"
    using r unfolding rehash_def Let_def sz_def .
  show ?thesis
  proof (cases "sz = htsize H \<or> ht_alloc sz = None")
    case True
    then have "ok = False" "H' = H" using r' by (auto split: if_splits)
    then show ?thesis using H by simp
  next
    case False
    then obtain m where m: "ht_alloc sz = Some m" by blast
    let ?H = "H\<lparr>ht := Some (replicate m \<lparr>bcount = 0, chain = 0\<rparr>), hfirst := []\<rparr>"
    have "0 < m" using a [OF m] \<open>0 < sz\<close> by simp
    moreover have "ok" "H' = rehash_loop (hfirst H) ?H" using r' False m by auto
    ultimately show ?thesis
      using rehash_loop_ok [of ?H "replicate m \<lparr>bcount = 0, chain = 0\<rparr>" "hfirst H"] H(1)
      by (auto simp: empty_table_ok elems_ok_def buckets_ok_def)
  qed
qed

subsection \<open>Removal and replacement\<close>

lemma grouped_suffix: "grouped f (us @ vs) \<Longrightarrow> grouped f vs"
  by (induction us) auto

lemma filter_out_addr:
  assumes "distinct (map haddr (us @ e # vs))"
  shows "filter (\<lambda>x. haddr x \<noteq> haddr e) (us @ e # vs) = us @ vs"
    "dropWhile (\<lambda>x. haddr x \<noteq> haddr e) (us @ e # vs) = e # vs"
proof -
  have "haddr e \<notin> haddr ` (set us \<union> set vs)" using assms by auto
  then have "\<forall>x\<in>set us \<union> set vs. haddr x \<noteq> haddr e" by (metis imageI)
  then show "filter (\<lambda>x. haddr x \<noteq> haddr e) (us @ e # vs) = us @ vs"
    "dropWhile (\<lambda>x. haddr x \<noteq> haddr e) (us @ e # vs) = e # vs"
    by (auto simp: filter_id_conv dropWhile_append3)
qed

definition unchained :: "bucket list \<Rightarrow> 'd helem \<Rightarrow> 'd helem list \<Rightarrow> bucket list" where
  "unchained bs e es =
     (let h = slot (length bs) (pKey e); b = bs ! h;
          b = (if chain b = haddr e then b\<lparr>chain := next_addr (haddr e) es\<rparr> else b)
      in bs[h := b\<lparr>bcount := bcount b - 1\<rparr>])"

lemma unchained_table_ok:
  assumes t: "table_ok bs (us @ e # vs)" and d: "distinct (map haddr (us @ e # vs))"
  shows "table_ok (unchained bs e (us @ e # vs)) (us @ vs)"
proof -
  let ?n = "length bs" let ?h = "slot (length bs) (pKey e)" let ?Q = "of_slot ?n ?h"
  let ?f = "\<lambda>e. slot (length bs) (pKey e)"
  have h: "?h < ?n" "0 < ?n" "?Q e" using t by (simp_all add: table_ok_def slot_less of_slot_def)
  have "grouped ?f (us @ e # vs)" using t by (simp only: table_ok_def)
  note g = grouped_remove [OF this] and gv = grouped_suffix [OF this]
  have b: "bcount (bs ! ?h) = length (filter ?Q us) + 1 + length (filter ?Q vs)"
    "chain (bs ! ?h) = haddr (hd (filter ?Q us @ e # filter ?Q vs))"
    using t h by (simp_all add: table_ok_def)
  have nx: "next_addr (haddr e) (us @ e # vs) = (case vs of [] \<Rightarrow> 0 | x # _ \<Rightarrow> haddr x)"
    by (simp add: next_addr_def filter_out_addr(2) [OF d])
  have first: "chain (unchained bs e (us @ e # vs) ! ?h) = haddr (hd (filter ?Q (us @ vs)))"
    if "filter ?Q (us @ vs) \<noteq> []"
  proof (cases "filter ?Q us = []")
    case True
    then have "filter ?Q vs \<noteq> []" using that by simp
    then obtain x where x: "x \<in> set vs" "?f e = ?f x" by (auto simp: filter_empty_conv of_slot_def)
    then have "?f e \<in> ?f ` set vs" by (rule rev_image_eqI)
    then have "?f e = ?f (hd vs)" using gv by simp
    then obtain y ys where vs: "vs = y # ys" "?f y = ?f e" using x(1) by (cases vs) auto
    then have "hd (filter ?Q vs) = y" by (simp add: of_slot_def)
    then show ?thesis using True b(2) h vs nx by (simp add: unchained_def Let_def)
  next
    case False
    then have "hd (filter ?Q us) \<in> set us" by (metis filter_is_subset hd_in_set subset_iff)
    moreover have "haddr e \<notin> haddr ` set us" using d by auto
    ultimately have "haddr (hd (filter ?Q us)) \<noteq> haddr e" by (metis imageI)
    then show ?thesis using False b(2) h by (simp add: unchained_def Let_def)
  qed
  have len: "length (unchained bs e (us @ e # vs)) = ?n" by (simp add: unchained_def Let_def)
  have other: "unchained bs e (us @ e # vs) ! h' = bs ! h'"
      "filter (of_slot ?n h') (us @ e # vs) = filter (of_slot ?n h') (us @ vs)" if "h' \<noteq> ?h" for h'
    using that by (simp_all add: unchained_def Let_def of_slot_def)
  show ?thesis
    unfolding table_ok_def len
  proof (intro conjI allI impI)
    fix h' assume "h' < ?n"
    show "bcount (unchained bs e (us @ e # vs) ! h') = length (filter (of_slot ?n h') (us @ vs))"
    proof (cases "h' = ?h")
      case True then show ?thesis using h b(1) by (simp add: unchained_def Let_def)
    next
      case False then show ?thesis using t \<open>h' < ?n\<close> other [OF False] by (simp add: table_ok_def)
    qed
    assume ne: "filter (of_slot ?n h') (us @ vs) \<noteq> []"
    show "chain (unchained bs e (us @ e # vs) ! h') = haddr (hd (filter (of_slot ?n h') (us @ vs)))"
    proof (cases "h' = ?h")
      case True then show ?thesis using first ne by simp
    next
      case False then show ?thesis using t \<open>h' < ?n\<close> other [OF False] ne by (simp add: table_ok_def)
    qed
  qed (use h g in simp_all)
qed

lemma remove_ok:
  assumes wf: "hash_wf H" and e: "e \<in> set (hfirst H)"
  shows "hash_wf (removeElementGivenHash H e (case ht H of None \<Rightarrow> 0 | Some bs \<Rightarrow> slot (length bs) (pKey e))) \<and>
    hash_view (removeElementGivenHash H e (case ht H of None \<Rightarrow> 0 | Some bs \<Rightarrow> slot (length bs) (pKey e))) =
      (hash_view H)(fold_case (pKey e) := None)"
proof -
  obtain us vs where es: "hfirst H = us @ e # vs" using e by (metis split_list)
  have d: "distinct (map haddr (us @ e # vs))" using wf es by (simp add: hash_wf_defs)
  have ok: "elems_ok (us @ vs)" using wf es by (auto simp: hash_wf_defs)
  have v: "map_of (map (\<lambda>e. (fold_case (pKey e), hdata e)) (us @ vs)) = (hash_view H)(fold_case (pKey e) := None)"
  proof
    fix f
    have "fold_case (pKey e) \<notin> (\<lambda>x. fold_case (pKey x)) ` (set us \<union> set vs)"
      using wf es by (auto simp: hash_wf_defs)
    then have "\<forall>x\<in>set us \<union> set vs. fold_case (pKey x) \<noteq> fold_case (pKey e)"
      by (metis (mono_tags, lifting) imageI)
    then have "map_of (map (\<lambda>e. (fold_case (pKey e), hdata e)) (us @ vs)) (fold_case (pKey e)) = None"
      by (auto simp: map_of_eq_None_iff)
    then show "map_of (map (\<lambda>e. (fold_case (pKey e), hdata e)) (us @ vs)) f =
      ((hash_view H)(fold_case (pKey e) := None)) f"
      by (auto simp: hash_view_def es map_add_def split: option.splits)
  qed
  define H3 where "H3 = H\<lparr>hfirst := us @ vs,
      ht := map_option (\<lambda>bs. unchained bs e (us @ e # vs)) (ht H), hcount := hcount H - 1\<rparr>"
  have r: "removeElementGivenHash H e (case ht H of None \<Rightarrow> 0 | Some bs \<Rightarrow> slot (length bs) (pKey e)) =
      (if hcount H3 = 0 then sqlite3HashClear H3 else H3)"
    using filter_out_addr(1) [OF d] es
    by (cases H; cases "ht H") (simp_all add: removeElementGivenHash_def H3_def unchained_def Let_def)
  have c: "hcount H3 = length (us @ vs)" using wf es by (simp add: H3_def hash_wf_def)
  have b: "buckets_ok H3"
    using wf es unchained_table_ok [OF _ d] by (auto simp: H3_def hash_wf_defs split: option.splits)
  show ?thesis
  proof (cases "hcount H3 = 0")
    case True
    then have "us @ vs = []" using c by simp
    then show ?thesis using r True v
      by (simp add: sqlite3HashClear_def hash_wf_defs hash_view_def)
  next
    case False
    then show ?thesis using r v ok c b by (simp add: hash_wf_def hash_view_def H3_def)
  qed
qed

lemma grouped_map: "(\<And>x. x \<in> set xs \<Longrightarrow> f (g x) = f x) \<Longrightarrow> grouped f (map g xs) = grouped f xs"
proof (induction xs)
  case (Cons x xs)
  then have "f ` g ` set xs = f ` set xs" by (auto simp: image_iff)
  then show ?case using Cons by (cases xs) (auto simp: image_image)
qed simp

lemma update_ok:
  fixes H :: "'d hash" and v :: 'd
  assumes wf: "hash_wf H" and e: "e \<in> set (hfirst H)" and k: "cstring k" "fold_case (pKey e) = fold_case k"
  defines "H' \<equiv> H\<lparr>hfirst := map (\<lambda>x. if haddr x = haddr e then x\<lparr>hdata := v, pKey := k\<rparr> else x) (hfirst H)\<rparr>"
  shows "hash_wf H' \<and> hash_view H' = (hash_view H)(fold_case k \<mapsto> v)"
proof -
  let ?u = "\<lambda>x. if haddr x = haddr e then x\<lparr>hdata := v, pKey := k\<rparr> else x"
  have same: "haddr x = haddr e \<longleftrightarrow> x = e" if "x \<in> set (hfirst H)" for x
    using wf e that by (auto simp: hash_wf_defs distinct_map inj_on_def)
  have fold: "fold_case (pKey (?u x)) = fold_case (pKey x)" if "x \<in> set (hfirst H)" for x
    using same [OF that] k by simp
  have slot: "slot n (pKey (?u x)) = slot n (pKey x)" if "x \<in> set (hfirst H)" for x n
    using same [OF that] k slot_fold [of "pKey e" k n] wf e by (auto simp: hash_wf_defs)
  have ad: "haddr (?u x) = haddr x" for x by simp
  have "elems_ok (map ?u (hfirst H))"
  proof -
    have a: "map haddr (map ?u (hfirst H)) = map haddr (hfirst H)" by simp
    have b: "map (\<lambda>e. fold_case (pKey e)) (map ?u (hfirst H)) = map (\<lambda>e. fold_case (pKey e)) (hfirst H)"
      using fold by simp
    have w: "distinct (map haddr (hfirst H))" "distinct (map (\<lambda>e. fold_case (pKey e)) (hfirst H))"
        "\<forall>x\<in>set (hfirst H). cstring (pKey x)"
      using wf by (auto simp: hash_wf_defs)
    have "\<forall>x\<in>set (map ?u (hfirst H)). cstring (pKey x)" using w(3) k(1) by auto
    then show ?thesis unfolding elems_ok_def a b using w by blast
  qed
  moreover have "table_ok bs (map ?u (hfirst H))" if t: "table_ok bs (hfirst H)" for bs
  proof -
    have f: "filter (of_slot (length bs) h) (map ?u (hfirst H)) = map ?u (filter (of_slot (length bs) h) (hfirst H))" for h
      using slot by (auto simp: filter_map of_slot_def intro!: arg_cong [where f = "map ?u"] filter_cong)
    have "grouped (\<lambda>e. slot (length bs) (pKey e)) (map ?u (hfirst H))"
      using t grouped_map [of "hfirst H" "\<lambda>e. slot (length bs) (pKey e)" ?u] slot by (simp only: table_ok_def)
    then show ?thesis using t unfolding table_ok_def f by (simp add: hd_map ad del: filter_False)
  qed
  moreover have "hash_view H' = (hash_view H)(fold_case k \<mapsto> v)"
  proof
    fix f
    have "map_of (map (\<lambda>e. (fold_case (pKey e), hdata e)) (map ?u es)) f =
        (if f = fold_case k \<and> e \<in> set es then Some v else map_of (map (\<lambda>e. (fold_case (pKey e), hdata e)) es) f)"
      if "set es \<subseteq> set (hfirst H)" "distinct (map (\<lambda>e. fold_case (pKey e)) es)" for es
      using that
    proof (induction es)
      case (Cons x es)
      then have x: "x \<in> set (hfirst H)" by simp
      show ?case
      proof (cases "x = e")
        case True
        then have "e \<notin> set es" using Cons.prems by auto
        then show ?thesis using Cons True k by auto
      next
        case False
        then have "e \<in> set es \<Longrightarrow> fold_case (pKey x) \<noteq> fold_case k" using Cons.prems k
          by (metis (mono_tags, lifting) distinct.simps(2) imageI list.map(2) list.set_map)
        then show ?thesis using Cons False same [OF x] by auto
      qed
    qed simp
    from this [of "hfirst H"] show "hash_view H' f = ((hash_view H)(fold_case k \<mapsto> v)) f"
      using wf e by (simp add: H'_def hash_view_def hash_wf_defs)
  qed
  ultimately show ?thesis
    using wf by (auto simp: H'_def hash_wf_def buckets_ok_def split: option.splits)
qed

text \<open>What an allocator may be relied on for: an element gets an address that is not in use, and
  the array of buckets at least the room asked for.\<close>

definition fresh_for :: "nat option \<Rightarrow> 'd hash \<Rightarrow> bool" where
  "fresh_for el_alloc H \<longleftrightarrow> (\<forall>a. el_alloc = Some a \<longrightarrow> a \<notin> haddr ` set (hfirst H))"

definition room_enough :: "(nat \<Rightarrow> nat option) \<Rightarrow> bool" where
  "room_enough ht_alloc \<longleftrightarrow> (\<forall>m n. ht_alloc m = Some n \<longrightarrow> m \<le> n)"

lemma front_ok:
  assumes "elems_ok (e # hfirst H)" "buckets_ok H" "h = slot (htsize H) (pKey e)"
  shows "buckets_ok (insertElement (if ht H = None then None else Some h) e H) \<and>
    mset (hfirst (insertElement (if ht H = None then None else Some h) e H)) = mset (e # hfirst H) \<and>
    hcount (insertElement (if ht H = None then None else Some h) e H) = hcount H"
proof (cases "ht H")
  case None
  then show ?thesis by (simp add: insertElement_def buckets_ok_def)
next
  case (Some bs)
  have "distinct (map haddr (hfirst H))" using assms(1) by (simp add: elems_ok_def)
  then show ?thesis
    using assms Some insertElement_table [OF Some, of e] placed_table_ok [of bs "hfirst H" e]
    by (simp add: buckets_ok_def htsize_def placed_perm)
qed

lemma add_ok:
  assumes wf: "hash_wf H" and k: "cstring k" "hash_view H (fold_case k) = None" and a: "a \<notin> haddr ` set (hfirst H)"
    and room: "room_enough ht_alloc"
    and r: "sqlite3HashInsert (Some a) ht_alloc H k (Some v) = (ret, H')"
  shows "ret = None \<and> hash_wf H' \<and> hash_view H' = (hash_view H)(fold_case k \<mapsto> v)"
proof -
  let ?e = "\<lparr>haddr = a, pKey = k, hdata = v\<rparr>"
  let ?c = "H\<lparr>hcount := hcount H + 1\<rparr>"
  have nf: "find (\<lambda>e. fold_case (pKey e) = fold_case k) (hfirst H) = None"
    using k(2) unfolding hash_view_def find_view [symmetric] by simp
  then have new: "\<forall>e\<in>set (hfirst H). fold_case (pKey e) \<noteq> fold_case k" by (simp add: find_None_iff)
  have ok: "elems_ok (?e # hfirst H)" using wf a k(1) new by (auto simp: hash_wf_defs)
  define h where "h = (case ht H of None \<Rightarrow> 0 | Some bs \<Rightarrow> slot (length bs) k)"
  define grow where "grow = (10 \<le> hcount ?c \<and> 2 * htsize ?c < hcount ?c)"
  obtain done1 H1 where re: "rehash ht_alloc ?c (hcount ?c * 2) = (done1, H1)" by fastforce
  define H2 where "H2 = (if grow then H1 else ?c)"
  define h2 where "h2 = (if grow \<and> done1 then slot (htsize H1) k else h)"
  have bc: "buckets_ok ?c" using wf by (cases "ht H") (simp_all add: hash_wf_def buckets_ok_def)
  have "buckets_ok H1 \<and> mset (hfirst H1) = mset (hfirst ?c) \<and> hcount H1 = hcount ?c \<and> (\<not> done1 \<longrightarrow> H1 = ?c)"
    using rehash_ok [OF _ bc _ _ re] ok room by (simp add: elems_ok_def room_enough_def)
  then have H2: "buckets_ok H2" "mset (hfirst H2) = mset (hfirst H)" "hcount H2 = hcount H + 1"
    using bc by (auto simp: H2_def)
  have hs: "ht H2 \<noteq> None \<Longrightarrow> h2 = slot (htsize H2) k"
  proof (cases "grow \<and> done1")
    case False
    then have "ht H2 = ht H" using \<open>_ \<and> _ \<and> _ \<and> (\<not> done1 \<longrightarrow> H1 = ?c)\<close> by (auto simp: H2_def)
    then show "ht H2 \<noteq> None \<Longrightarrow> h2 = slot (htsize H2) k" using False by (auto simp: h2_def h_def htsize_def)
  qed (simp add: H2_def h2_def)
  have eq: "(ret, H') = (None, insertElement (if ht H2 = None then None else Some h2) ?e H2)"
    using r unfolding sqlite3HashInsert_def findElement_wf [OF wf k(1)] nf h_def [symmetric] Let_def prod.case
      option.case grow_def [symmetric] re H2_def h2_def by (auto split: if_splits)
  have ok2: "elems_ok (?e # hfirst H2)" using ok H2(2) elems_ok_perm [of "?e # hfirst H2" "?e # hfirst H"] by simp
  have fin: "buckets_ok H' \<and> mset (hfirst H') = mset (?e # hfirst H) \<and> hcount H' = hcount H + 1"
  proof (cases "ht H2")
    case None
    then show ?thesis using eq H2 by (simp add: insertElement_def buckets_ok_def)
  next
    case (Some bs)
    then show ?thesis using eq H2 hs front_ok [OF ok2 H2(1), of h2] by simp
  qed
  then have el: "elems_ok (hfirst H')" using ok elems_ok_perm by blast
  have "length (hfirst H') = length (hfirst H) + 1" using fin by (metis length_Cons size_mset Suc_eq_plus1)
  then have "hash_wf H'" using fin el wf by (simp add: hash_wf_def)
  moreover have "hash_view H' = hash_view (H\<lparr>hfirst := ?e # hfirst H\<rparr>)"
    using fin el by (intro view_perm) simp_all
  then have "hash_view H' = (hash_view H)(fold_case k \<mapsto> v)" by (simp add: hash_view_def)
  ultimately show ?thesis using eq by simp
qed

text \<open>
  C18. The symbol table is a map on names without case: from a well-formed table
  \<open>sqlite3HashInsert\<close> returns the old data, makes the table well-formed again, and changes the map
  exactly as asked - the new binding, the removal, or nothing when the allocation of an element
  fails, which is reported by returning the new data. \<open>sqlite3HashFind\<close> reads that map.
\<close>

theorem hash_insert_refines:
  assumes "hash_wf H" and "cstring k" and "fresh_for el_alloc H" and "room_enough ht_alloc"
    and "sqlite3HashInsert el_alloc ht_alloc H k d = (ret, H')"
  shows "hash_wf H' \<and>
    (if hash_view H (fold_case k) = None \<and> d \<noteq> None \<and> el_alloc = None
     then ret = d \<and> hash_view H' = hash_view H
     else ret = hash_view H (fold_case k) \<and> hash_view H' = (hash_view H)(fold_case k := d)) \<and>
    (\<forall>k'. cstring k' \<longrightarrow> sqlite3HashFind H' k' = hash_view H' (fold_case k'))"
proof -
  have main: "hash_wf H' \<and>
    (if hash_view H (fold_case k) = None \<and> d \<noteq> None \<and> el_alloc = None
     then ret = d \<and> hash_view H' = hash_view H
     else ret = hash_view H (fold_case k) \<and> hash_view H' = (hash_view H)(fold_case k := d))"
  proof (cases "find (\<lambda>e. fold_case (pKey e) = fold_case k) (hfirst H)")
    case None
    then have n: "hash_view H (fold_case k) = None"
      using find_view [of "fold_case k" "hfirst H"] by (simp add: hash_view_def)
    show ?thesis
    proof (cases "d = None \<or> el_alloc = None")
      case True
      then show ?thesis using assms(1,5) n None
        by (auto simp: sqlite3HashInsert_def findElement_wf [OF assms(1,2)] split: option.splits)
    next
      case False
      then obtain v a where "d = Some v" "el_alloc = Some a" by auto
      then show ?thesis
        using add_ok [OF assms(1,2) n _ assms(4), of a v ret H'] assms(3,5) n by (simp add: fresh_for_def)
    qed
  next
    case (Some e)
    then have e: "e \<in> set (hfirst H)" "fold_case (pKey e) = fold_case k"
      by (auto simp: find_Some_iff)
    have v: "hash_view H (fold_case k) = Some (hdata e)"
      using find_view [of "fold_case k" "hfirst H"] Some by (simp add: hash_view_def)
    have "cstring (pKey e)" using assms(1) e(1) by (simp add: hash_wf_defs)
    then have s: "slot n k = slot n (pKey e)" for n using slot_fold [OF _ assms(2) e(2)] by simp
    show ?thesis
    proof (cases d)
      case None
      have "(case ht H of None \<Rightarrow> 0 | Some bs \<Rightarrow> slot (length bs) k) =
          (case ht H of None \<Rightarrow> 0 | Some bs \<Rightarrow> slot (length bs) (pKey e))"
        using s by (simp split: option.splits)
      then show ?thesis using assms(5) v remove_ok [OF assms(1) e(1)] Some e(2) None
        by (simp add: sqlite3HashInsert_def findElement_wf [OF assms(1,2)])
    next
      case (Some w)
      then show ?thesis using assms(5) v update_ok [OF assms(1) e(1) assms(2) e(2), of w]
          \<open>find _ (hfirst H) = Some e\<close>
        by (auto simp: sqlite3HashInsert_def findElement_wf [OF assms(1,2)])
    qed
  qed
  then show ?thesis using HashFind_view by blast
qed

theorem hash_insert_refines_witness:
  "\<exists>H. sqlite3HashInsert (Some 7) (\<lambda>n. Some n) sqlite3HashInit [0x61] (Some True) = (None, H) \<and>
    hash_wf H \<and> sqlite3HashFind H [0x41] = Some True"
proof -
  obtain ret H where r: "sqlite3HashInsert (Some 7) (\<lambda>n. Some n) sqlite3HashInit [0x61] (Some True) = (ret, H)"
    by fastforce
  have i: "hash_wf (sqlite3HashInit :: bool hash)"
    by (simp add: sqlite3HashInit_def hash_wf_defs)
  have v: "hash_view (sqlite3HashInit :: bool hash) = Map.empty"
    by (simp add: sqlite3HashInit_def hash_view_def)
  have f: "fold_case [0x41] = fold_case [0x61]" by code_simp
  have p: "cstring [0x61]" "cstring [0x41]" by (simp_all add: cstring_def)
  have q: "fresh_for (Some 7) (sqlite3HashInit :: bool hash)" "room_enough (\<lambda>n. Some n)"
    by (simp_all add: fresh_for_def sqlite3HashInit_def room_enough_def)
  show ?thesis
    using hash_insert_refines [OF i p(1) q r] r p(2) by (auto simp: v f)
qed

end
