(* ===== verification/SetContract.thy ===== *)
theory SetContract
  imports Prelude
begin

section \<open>What the containers of row and page numbers promise\<close>

text \<open>
  The page bitmap and the row set offer the same service: a set that starts empty, takes and gives
  up members and answers whether a number is in it. Their operations can fail and can move the data
  about, so they are relations here: \<open>puts s k s'\<close> is an insertion that reported success. The laws
  are what a client relies on; the theory of each container interprets the locale on the model of
  its code.
\<close>

text \<open>The allocator behind them is given as the outcomes of the allocations to come; past the end of
  the list no allocation fails.\<close>

fun malloc_ok :: "bool list \<Rightarrow> bool \<times> bool list" where
  "malloc_ok [] = (True, [])"
| "malloc_ok (b # al) = (b, al)"

lemma malloc_mem: "malloc_ok al = (b, al') \<Longrightarrow> False \<notin> set al \<Longrightarrow> b \<and> False \<notin> set al'"
  by (cases al) auto

datatype 'k set_op = Put 'k | Del 'k

fun op_effect :: "'k set \<Rightarrow> 'k set_op \<Rightarrow> 'k set" where
  "op_effect A (Put k) = insert k A"
| "op_effect A (Del k) = A - {k}"

fun op_key :: "'k set_op \<Rightarrow> 'k" where
  "op_key (Put k) = k"
| "op_key (Del k) = k"

inductive set_run :: "('s \<Rightarrow> 'k \<Rightarrow> 's \<Rightarrow> bool) \<Rightarrow> ('s \<Rightarrow> 'k \<Rightarrow> 's \<Rightarrow> bool) \<Rightarrow> 's \<Rightarrow> 'k set_op list \<Rightarrow> 's \<Rightarrow> bool"
  for puts dels where
  run_none: "set_run puts dels s [] s"
| run_put: "puts s k s1 \<Longrightarrow> set_run puts dels s1 ops s2 \<Longrightarrow> set_run puts dels s (Put k # ops) s2"
| run_del: "dels s k s1 \<Longrightarrow> set_run puts dels s1 ops s2 \<Longrightarrow> set_run puts dels s (Del k # ops) s2"

locale number_set =
  fixes inv :: "'s \<Rightarrow> bool"
    and elems :: "'s \<Rightarrow> 'k set"
    and space :: "'s \<Rightarrow> 'k set"
    and puts :: "'s \<Rightarrow> 'k \<Rightarrow> 's \<Rightarrow> bool"
    and dels :: "'s \<Rightarrow> 'k \<Rightarrow> 's \<Rightarrow> bool"
    and member :: "'s \<Rightarrow> 'k \<Rightarrow> bool"
  assumes puts_ok: "inv s \<Longrightarrow> k \<in> space s \<Longrightarrow> puts s k s' \<Longrightarrow>
      inv s' \<and> space s' = space s \<and> elems s' = insert k (elems s)"
    and dels_ok: "inv s \<Longrightarrow> k \<in> space s \<Longrightarrow> dels s k s' \<Longrightarrow>
      inv s' \<and> space s' = space s \<and> elems s' = elems s - {k}"
    and member_ok: "inv s \<Longrightarrow> k \<in> space s \<Longrightarrow> member s k \<longleftrightarrow> k \<in> elems s"
begin

lemma run_ok:
  "set_run puts dels s ops s' \<Longrightarrow> inv s \<Longrightarrow> op_key ` set ops \<subseteq> space s \<Longrightarrow>
   inv s' \<and> space s' = space s \<and> elems s' = foldl op_effect (elems s) ops"
proof (induction rule: set_run.induct)
  case (run_put s k s1 ops s2)
  then show ?case using puts_ok [of s k s1] by simp
next
  case (run_del s k s1 ops s2)
  then show ?case using dels_ok [of s k s1] by simp
qed simp

lemma run_member:
  "set_run puts dels s ops s' \<Longrightarrow> inv s \<Longrightarrow> elems s = {} \<Longrightarrow> op_key ` set ops \<subseteq> space s \<Longrightarrow> k \<in> space s \<Longrightarrow>
   member s' k \<longleftrightarrow> k \<in> foldl op_effect {} ops"
  using run_ok [of s ops s'] member_ok [of s' k] by simp

end

end
