(* ===== verification/SqlBitvec.thy ===== *)
theory SqlBitvec
  imports Prelude SetContract "HOL-Library.Monad_Syntax"
begin

unbundle bit_operations_syntax

section \<open>The page bitmap of the bundled SQLite (bitvec.c)\<close>

text \<open>
  A bitmap of up to \<open>2 ^ 32 - 1\<close> bits in blocks of 512 bytes: a small one is a plain array of bits,
  a large sparse one a hash table with linear probing, and one that is no longer sparse an array of
  smaller bitmaps. The union of the struct is a datatype whose constructor is decided by \<open>iSize\<close> and
  \<open>iDivisor\<close>, as the code decides it. Whether each of the coming allocations succeeds is a list of
  truth values that the operations consume. The recursion from a bitmap to its parts runs on fuel,
  and so do the probing loops; \<open>None\<close> is a run that does not come to an end within it.
\<close>

subsection \<open>Data and operations\<close>

definition BITVEC_SZ :: nat where "BITVEC_SZ = 512"
definition BITVEC_USIZE :: nat where "BITVEC_USIZE = ((BITVEC_SZ - 3 * 4) div 8) * 8"
definition BITVEC_SZELEM :: nat where "BITVEC_SZELEM = 8"
definition BITVEC_NELEM :: nat where "BITVEC_NELEM = BITVEC_USIZE div 1"
definition BITVEC_NBIT :: nat where "BITVEC_NBIT = BITVEC_NELEM * BITVEC_SZELEM"
definition BITVEC_NINT :: nat where "BITVEC_NINT = BITVEC_USIZE div 4"
definition BITVEC_MXHASH :: nat where "BITVEC_MXHASH = BITVEC_NINT div 2"
definition BITVEC_NPTR :: nat where "BITVEC_NPTR = BITVEC_USIZE div 8"

definition BITVEC_HASH :: "u32 \<Rightarrow> nat" where
  "BITVEC_HASH x = (unat x * 1) mod BITVEC_NINT"

datatype bitvec = Bitvec (iSize: u32) (nSet: u32) (iDivisor: u32) (bv_u: bitvec_u)
  and bitvec_u =
    ABitmap (aBitmap: "u8 list")
  | AHash (aHash: "u32 list")
  | ApSub (apSub: "bitvec option list")

definition SQLITE_NOMEM :: u32 where "SQLITE_NOMEM = 7"

definition sqlite3BitvecCreate :: "u32 \<Rightarrow> bitvec" where
  "sqlite3BitvecCreate s = Bitvec s 0 0
     (if unat s \<le> BITVEC_NBIT then ABitmap (replicate BITVEC_NELEM 0) else AHash (replicate BITVEC_NINT 0))"

definition test_bitmap :: "u8 list \<Rightarrow> u32 \<Rightarrow> bool" where
  "test_bitmap bm i \<longleftrightarrow> bm ! (unat i div BITVEC_SZELEM) AND push_bit (unat (i AND 7)) 1 \<noteq> 0"

fun hash_test :: "nat \<Rightarrow> u32 list \<Rightarrow> nat \<Rightarrow> u32 \<Rightarrow> bool option" where
  "hash_test 0 hs h i = None"
| "hash_test (Suc n) hs h i =
     (if hs ! h \<noteq> 0
      then if hs ! h = i then Some True else hash_test n hs ((h + 1) mod BITVEC_NINT) i
      else Some False)"

primrec test_loop :: "nat \<Rightarrow> bitvec \<Rightarrow> u32 \<Rightarrow> bool option" where
  "test_loop 0 p i = None"
| "test_loop (Suc n) p i =
     (if iDivisor p \<noteq> 0
      then case apSub (bv_u p) ! unat (i div iDivisor p) of
             None \<Rightarrow> Some False
           | Some q \<Rightarrow> test_loop n q (i mod iDivisor p)
      else if unat (iSize p) \<le> BITVEC_NBIT then Some (test_bitmap (aBitmap (bv_u p)) i)
      else hash_test BITVEC_NINT (aHash (bv_u p)) (BITVEC_HASH i) (i + 1))"

text \<open>Bitmaps of \<open>2 ^ 32\<close> bits nest four deep; a level takes at most two calls.\<close>

definition BV_FUEL :: nat where "BV_FUEL = 9"

definition sqlite3BitvecTestNotNull :: "bitvec \<Rightarrow> u32 \<Rightarrow> bool option" where
  "sqlite3BitvecTestNotNull p i =
     (let i = i - 1 in if iSize p \<le> i then Some False else test_loop BV_FUEL p i)"

definition sqlite3BitvecTest :: "bitvec option \<Rightarrow> u32 \<Rightarrow> bool option" where
  "sqlite3BitvecTest p i = (case p of None \<Rightarrow> Some False | Some p \<Rightarrow> sqlite3BitvecTestNotNull p i)"

definition set_bitmap :: "u8 list \<Rightarrow> u32 \<Rightarrow> u8 list" where
  "set_bitmap bm i = (let j = unat i div BITVEC_SZELEM in bm[j := bm ! j OR push_bit (unat (i AND 7)) 1])"

text \<open>The probing loop of \<open>sqlite3BitvecSet\<close>: the value is found, or a free place.\<close>

fun hash_place :: "nat \<Rightarrow> u32 list \<Rightarrow> nat \<Rightarrow> u32 \<Rightarrow> nat option option" where
  "hash_place 0 hs h i = None"
| "hash_place (Suc n) hs h i =
     (if hs ! h = i then Some None
      else let h = (if BITVEC_NINT \<le> h + 1 then 0 else h + 1)
           in if hs ! h \<noteq> 0 then hash_place n hs h i else Some (Some h))"

text \<open>Inserting the saved values of a hash table again, with \<open>rc |= ...\<close>.\<close>

fun set_values :: "(bool list \<Rightarrow> bitvec \<Rightarrow> u32 \<Rightarrow> (u32 \<times> bitvec \<times> bool list) option) \<Rightarrow>
    u32 list \<Rightarrow> u32 \<times> bitvec \<times> bool list \<Rightarrow> (u32 \<times> bitvec \<times> bool list) option" where
  "set_values st [] r = Some r"
| "set_values st (v # vs) (rc, p, al) =
     (if v \<noteq> 0
      then do { (rc', p', al') \<leftarrow> st al p (v - 1); set_values st vs (rc OR rc', p', al') }
      else set_values st vs (rc, p, al))"

definition bv_divisor :: "u32 \<Rightarrow> u32" where
  "bv_divisor s = word_of_nat ((unat s + BITVEC_NPTR - 1) div BITVEC_NPTR)"

definition set_end :: "bitvec \<Rightarrow> nat \<Rightarrow> u32 \<Rightarrow> bitvec" where
  "set_end p h i = Bitvec (iSize p) (nSet p + 1) (iDivisor p) (AHash ((aHash (bv_u p))[h := i]))"

definition set_rehash :: "(bool list \<Rightarrow> bitvec \<Rightarrow> u32 \<Rightarrow> (u32 \<times> bitvec \<times> bool list) option) \<Rightarrow>
    bool list \<Rightarrow> bitvec \<Rightarrow> nat \<Rightarrow> u32 \<Rightarrow> (u32 \<times> bitvec \<times> bool list) option" where
  "set_rehash st al p h i =
     (if BITVEC_MXHASH \<le> unat (nSet p)
      then case malloc_ok al of
             (False, al) \<Rightarrow> Some (SQLITE_NOMEM, p, al)
           | (True, al) \<Rightarrow>
               do { r \<leftarrow> st al (Bitvec (iSize p) (nSet p) (bv_divisor (iSize p)) (ApSub (replicate BITVEC_NPTR None)))
                           (i - 1);
                    set_values st (aHash (bv_u p)) r }
      else Some (0, set_end p h i, al))"

definition with_sub :: "bitvec \<Rightarrow> nat \<Rightarrow> bitvec \<Rightarrow> bitvec" where
  "with_sub p b q = Bitvec (iSize p) (nSet p) (iDivisor p) (ApSub ((apSub (bv_u p))[b := Some q]))"

primrec set_loop :: "nat \<Rightarrow> bool list \<Rightarrow> bitvec \<Rightarrow> u32 \<Rightarrow> (u32 \<times> bitvec \<times> bool list) option" where
  "set_loop 0 al p i = None"
| "set_loop (Suc n) al p i =
     (if BITVEC_NBIT < unat (iSize p) \<and> iDivisor p \<noteq> 0
      then let b = unat (i div iDivisor p); i = i mod iDivisor p in
           case apSub (bv_u p) ! b of
             Some q \<Rightarrow> do { (rc, q', al) \<leftarrow> set_loop n al q i; Some (rc, with_sub p b q', al) }
           | None \<Rightarrow>
               (case malloc_ok al of
                  (False, al) \<Rightarrow> Some (SQLITE_NOMEM, p, al)
                | (True, al) \<Rightarrow>
                    do { (rc, q', al) \<leftarrow> set_loop n al (sqlite3BitvecCreate (iDivisor p)) i;
                         Some (rc, with_sub p b q', al) })
      else if unat (iSize p) \<le> BITVEC_NBIT
      then Some (0, Bitvec (iSize p) (nSet p) (iDivisor p) (ABitmap (set_bitmap (aBitmap (bv_u p)) i)), al)
      else let hs = aHash (bv_u p); h = BITVEC_HASH i; i = i + 1 in
           if hs ! h = 0
           then if unat (nSet p) < BITVEC_NINT - 1 then Some (0, set_end p h i, al)
                else set_rehash (set_loop n) al p h i
           else do { r \<leftarrow> hash_place BITVEC_NINT hs h i;
                     case r of None \<Rightarrow> Some (0, p, al)
                             | Some h \<Rightarrow> set_rehash (set_loop n) al p h i })"

definition sqlite3BitvecSet ::
  "bool list \<Rightarrow> bitvec option \<Rightarrow> u32 \<Rightarrow> (u32 \<times> bitvec option \<times> bool list) option" where
  "sqlite3BitvecSet al p i =
     (case p of None \<Rightarrow> Some (0, None, al)
      | Some p \<Rightarrow> do { (rc, p', al') \<leftarrow> set_loop BV_FUEL al p (i - 1); Some (rc, Some p', al') })"

definition clear_bitmap :: "u8 list \<Rightarrow> u32 \<Rightarrow> u8 list" where
  "clear_bitmap bm i = (let j = unat i div BITVEC_SZELEM in bm[j := bm ! j AND NOT (push_bit (unat (i AND 7)) 1)])"

fun free_place :: "nat \<Rightarrow> u32 list \<Rightarrow> nat \<Rightarrow> nat option" where
  "free_place 0 hs h = None"
| "free_place (Suc n) hs h =
     (if hs ! h \<noteq> 0 then free_place n hs (if BITVEC_NINT \<le> h + 1 then 0 else h + 1) else Some h)"

fun refill :: "u32 list \<Rightarrow> u32 \<Rightarrow> u32 list \<times> u32 \<Rightarrow> (u32 list \<times> u32) option" where
  "refill [] i r = Some r"
| "refill (v # vs) i (hs, k) =
     (if v \<noteq> 0 \<and> v \<noteq> i + 1
      then do { h \<leftarrow> free_place BITVEC_NINT hs (BITVEC_HASH (v - 1)); refill vs i (hs[h := v], k + 1) }
      else refill vs i (hs, k))"

primrec clear_loop :: "nat \<Rightarrow> bitvec \<Rightarrow> u32 \<Rightarrow> bitvec option" where
  "clear_loop 0 p i = None"
| "clear_loop (Suc n) p i =
     (if iDivisor p \<noteq> 0
      then let b = unat (i div iDivisor p) in
           case apSub (bv_u p) ! b of
             None \<Rightarrow> Some p
           | Some q \<Rightarrow> do { q' \<leftarrow> clear_loop n q (i mod iDivisor p); Some (with_sub p b q') }
      else if unat (iSize p) \<le> BITVEC_NBIT
      then Some (Bitvec (iSize p) (nSet p) (iDivisor p) (ABitmap (clear_bitmap (aBitmap (bv_u p)) i)))
      else do { (hs, k) \<leftarrow> refill (aHash (bv_u p)) i (replicate BITVEC_NINT 0, 0);
                Some (Bitvec (iSize p) k (iDivisor p) (AHash hs)) })"

definition sqlite3BitvecClear :: "bitvec option \<Rightarrow> u32 \<Rightarrow> bitvec option option" where
  "sqlite3BitvecClear p i =
     (case p of None \<Rightarrow> Some None | Some p \<Rightarrow> map_option Some (clear_loop BV_FUEL p (i - 1)))"

definition sqlite3BitvecSize :: "bitvec \<Rightarrow> u32" where
  "sqlite3BitvecSize p = iSize p"

subsection \<open>The built-in test\<close>

definition SETBIT :: "u8 list \<Rightarrow> nat \<Rightarrow> u8 list" where
  "SETBIT V i = V[i div 8 := V ! (i div 8) OR push_bit (i mod 8) 1]"

definition CLEARBIT :: "u8 list \<Rightarrow> nat \<Rightarrow> u8 list" where
  "CLEARBIT V i = V[i div 8 := V ! (i div 8) AND NOT (push_bit (i mod 8) 1)]"

definition TESTBIT :: "u8 list \<Rightarrow> nat \<Rightarrow> bool" where
  "TESTBIT V i \<longleftrightarrow> V ! (i div 8) AND push_bit (i mod 8) 1 \<noteq> 0"

text \<open>The test reads a program from an array of integers, counts its operands down in place, and
  draws random numbers from \<open>sqlite3_randomness\<close>, here a list of the numbers to come. The integers
  are words in two's complement.\<close>

record bv_test =
  t_aOp :: "u32 list"
  t_pc :: nat
  t_rnd :: "u32 list"
  t_pV :: "u8 list"
  t_bv :: bitvec
  t_al :: "bool list"

definition random_i :: "u32 list \<Rightarrow> u32 \<times> u32 list" where
  "random_i rs = (case rs of [] \<Rightarrow> (0, []) | r # rs \<Rightarrow> (r, rs))"

definition bv_test_step :: "u32 \<Rightarrow> bv_test \<Rightarrow> (u32 \<times> bv_test) option" where
  "bv_test_step sz t =
     (let pc = t_pc t; aOp = t_aOp t; op = aOp ! pc;
          (nx, i, aOp, rnd) =
            (if op = 1 \<or> op = 2 \<or> op = 5
             then (4, aOp ! (pc + 2) - 1, aOp[pc + 2 := aOp ! (pc + 2) + aOp ! (pc + 3)], t_rnd t)
             else let (i, rnd) = random_i (t_rnd t) in (2, i, aOp, rnd));
          aOp = aOp[pc + 1 := aOp ! (pc + 1) - 1];
          nx = (if 0 < sint (aOp ! (pc + 1)) then 0 else nx);
          i = (i AND 0x7FFFFFFF) mod sz;
          t = t\<lparr>t_aOp := aOp, t_pc := pc + nx, t_rnd := rnd\<rparr>
      in if op AND 1 \<noteq> 0
         then let t = t\<lparr>t_pV := SETBIT (t_pV t) (unat (i + 1))\<rparr> in
              if op \<noteq> 5
              then do { (rc, p, al) \<leftarrow> sqlite3BitvecSet (t_al t) (Some (t_bv t)) (i + 1);
                        Some (rc, t\<lparr>t_bv := the p, t_al := al\<rparr>) }
              else Some (0, t)
         else do { p \<leftarrow> sqlite3BitvecClear (Some (t_bv t)) (i + 1);
                   Some (0, t\<lparr>t_pV := CLEARBIT (t_pV t) (unat (i + 1)), t_bv := the p\<rparr>) })"

text \<open>The program runs until the opcode 0, or until the bitmap reports an error.\<close>

fun bv_test_run :: "nat \<Rightarrow> u32 \<Rightarrow> bv_test \<Rightarrow> (bool \<times> bv_test) option" where
  "bv_test_run 0 sz t = None"
| "bv_test_run (Suc n) sz t =
     (if t_aOp t ! t_pc t = 0 then Some (True, t)
      else do { (rc, t) \<leftarrow> bv_test_step sz t; if rc \<noteq> 0 then Some (False, t) else bv_test_run n sz t })"

definition rc_of :: "bool \<Rightarrow> int" where
  "rc_of b = (if b then 1 else 0)"

fun compare_bits :: "u8 list \<Rightarrow> bitvec \<Rightarrow> nat list \<Rightarrow> int \<Rightarrow> int option" where
  "compare_bits V p [] rc = Some rc"
| "compare_bits V p (i # is) rc =
     do { b \<leftarrow> sqlite3BitvecTest (Some p) (word_of_nat i);
          if TESTBIT V i \<noteq> b then Some (int i) else compare_bits V p is rc }"

definition sqlite3BitvecBuiltinTest :: "nat \<Rightarrow> u32 list \<Rightarrow> bool list \<Rightarrow> u32 \<Rightarrow> u32 list \<Rightarrow> int option" where
  "sqlite3BitvecBuiltinTest fuel rnd al sz aOp =
     (let (a, al) = malloc_ok al; (b, al) = malloc_ok al; (c, al) = malloc_ok al in
      if \<not> a \<or> \<not> b \<or> \<not> c then Some (- 1)
      else do {
        (_, _, al) \<leftarrow> sqlite3BitvecSet al None 1;
        _ \<leftarrow> sqlite3BitvecClear None 1;
        (ok, t) \<leftarrow> bv_test_run fuel sz
           \<lparr>t_aOp = aOp, t_pc = 0, t_rnd = rnd, t_pV = replicate ((unat sz + 7) div 8 + 1) 0,
            t_bv = sqlite3BitvecCreate sz, t_al = al\<rparr>;
        if \<not> ok then Some (- 1)
        else do {
          x \<leftarrow> sqlite3BitvecTest None 0;
          y \<leftarrow> sqlite3BitvecTest (Some (t_bv t)) (sz + 1);
          z \<leftarrow> sqlite3BitvecTest (Some (t_bv t)) 0;
          compare_bits (t_pV t) (t_bv t) [1..<unat sz + 1]
            (rc_of x + rc_of y + rc_of z + sint (sqlite3BitvecSize (t_bv t) - sz)) } })"

lemma bv_sizes: "BITVEC_NELEM = 496" "BITVEC_NBIT = 3968" "BITVEC_NINT = 124" "BITVEC_MXHASH = 62" "BITVEC_NPTR = 62"
    "BITVEC_SZELEM = 8"
  by (simp_all add: BITVEC_NELEM_def BITVEC_USIZE_def BITVEC_SZ_def BITVEC_NBIT_def BITVEC_SZELEM_def
      BITVEC_NINT_def BITVEC_MXHASH_def BITVEC_NPTR_def)

subsection \<open>Linear probing\<close>

definition probe_at :: "nat \<Rightarrow> nat \<Rightarrow> nat" where
  "probe_at h j = (h + j) mod BITVEC_NINT"

lemma probe_at_less: "probe_at h j < BITVEC_NINT"
  by (simp add: probe_at_def bv_sizes)

lemma probe_at_Suc: "probe_at ((h + 1) mod BITVEC_NINT) j = probe_at h (Suc j)"
  by (simp add: probe_at_def mod_simps)

lemma probe_at_0: "h < BITVEC_NINT \<Longrightarrow> probe_at h 0 = h"
  by (simp add: probe_at_def)

lemma wrap_step: "h < BITVEC_NINT \<Longrightarrow> (if BITVEC_NINT \<le> h + 1 then 0 else h + 1) = (h + 1) mod BITVEC_NINT"
  by (cases "h + 1 = BITVEC_NINT") auto

lemma step_less: "(h + 1) mod BITVEC_NINT < BITVEC_NINT"
  by (simp add: bv_sizes)

text \<open>The probe sequence from \<open>h\<close> that stops first after \<open>j\<close> steps at a place with the value \<open>v\<close> or
  an empty one.\<close>

definition stops :: "u32 list \<Rightarrow> nat \<Rightarrow> u32 \<Rightarrow> nat \<Rightarrow> bool" where
  "stops hs h v j \<longleftrightarrow> hs ! probe_at h j \<in> {0, v} \<and> (\<forall>i<j. hs ! probe_at h i \<notin> {0, v})"

lemma stops_Suc:
  "h < BITVEC_NINT \<Longrightarrow> stops hs h v (Suc j) \<longleftrightarrow> hs ! h \<notin> {0, v} \<and> stops hs ((h + 1) mod BITVEC_NINT) v j"
  unfolding stops_def probe_at_Suc using probe_at_0 [of h] by (auto simp: less_Suc_eq_0_disj)

lemma stops_0: "h < BITVEC_NINT \<Longrightarrow> stops hs h v 0 \<longleftrightarrow> hs ! h \<in> {0, v}"
  by (simp add: stops_def probe_at_0)

lemma hash_test_stops:
  "h < BITVEC_NINT \<Longrightarrow> v \<noteq> 0 \<Longrightarrow> stops hs h v j \<Longrightarrow> j < n \<Longrightarrow> hash_test n hs h v = Some (hs ! probe_at h j = v)"
proof (induction n arbitrary: h j)
  case (Suc n)
  show ?case
  proof (cases j)
    case 0
    then show ?thesis using Suc.prems by (auto simp: stops_0 probe_at_0)
  next
    case (Suc j')
    then have "hs ! h \<notin> {0, v}" "stops hs ((h + 1) mod BITVEC_NINT) v j'"
      using Suc.prems by (auto simp: stops_Suc)
    then show ?thesis
      using Suc.IH [OF step_less \<open>v \<noteq> 0\<close>, of h j'] Suc.prems Suc by (simp add: probe_at_Suc [simplified])
  qed
qed simp

lemma hash_place_stops:
  "h < BITVEC_NINT \<Longrightarrow> v \<noteq> 0 \<Longrightarrow> hs ! h \<noteq> 0 \<Longrightarrow> stops hs h v j \<Longrightarrow> j < n \<Longrightarrow>
   hash_place n hs h v = Some (if hs ! probe_at h j = v then None else Some (probe_at h j))"
proof (induction n arbitrary: h j)
  case (Suc n)
  show ?case
  proof (cases j)
    case 0
    then show ?thesis using Suc.prems by (auto simp: stops_0 probe_at_0)
  next
    case (Suc j')
    then have s: "hs ! h \<notin> {0, v}" "stops hs ((h + 1) mod BITVEC_NINT) v j'"
      using Suc.prems by (auto simp: stops_Suc)
    show ?thesis
    proof (cases "hs ! ((h + 1) mod BITVEC_NINT) = 0")
      case True
      then have "j' = 0" using s(2) by (cases j') (auto simp: stops_Suc step_less [simplified])
      then show ?thesis
        using s(1) True Suc \<open>v \<noteq> 0\<close> by (simp add: wrap_step [OF Suc.prems(1), simplified] probe_at_def)
    next
      case False
      then show ?thesis
        using Suc.IH [OF step_less \<open>v \<noteq> 0\<close> False s(2)] Suc.prems Suc s(1)
        by (simp add: wrap_step [OF Suc.prems(1), simplified] probe_at_Suc [simplified])
    qed
  qed
qed simp

lemma free_place_stops:
  "h < BITVEC_NINT \<Longrightarrow> stops hs h 0 j \<Longrightarrow> j < n \<Longrightarrow> free_place n hs h = Some (probe_at h j)"
proof (induction n arbitrary: h j)
  case (Suc n)
  show ?case
  proof (cases j)
    case 0
    then show ?thesis using Suc.prems by (auto simp: stops_0 probe_at_0)
  next
    case (Suc j')
    then have "hs ! h \<noteq> 0" "stops hs ((h + 1) mod BITVEC_NINT) 0 j'"
      using Suc.prems by (auto simp: stops_Suc)
    then show ?thesis
      using Suc.IH [OF step_less, of h j'] Suc.prems Suc
      by (simp add: wrap_step [OF Suc.prems(1), simplified] probe_at_Suc [simplified])
  qed
qed simp

definition used :: "u32 list \<Rightarrow> nat" where
  "used hs = length (filter (\<lambda>v. v \<noteq> 0) hs)"

lemma stops_exists:
  assumes "length hs = BITVEC_NINT" "used hs < BITVEC_NINT" "h < BITVEC_NINT"
  shows "\<exists>j<BITVEC_NINT. stops hs h v j"
proof -
  have "0 \<in> set hs"
  proof (rule ccontr)
    assume "0 \<notin> set hs"
    then have "\<forall>v\<in>set hs. v \<noteq> 0" by auto
    then have "filter (\<lambda>v. v \<noteq> 0) hs = hs" by (rule filter_True)
    then show False using assms by (simp add: used_def)
  qed
  then obtain z where z: "z < BITVEC_NINT" "hs ! z = 0" using assms(1) by (metis in_set_conv_nth)
  define j where "j = (if h \<le> z then z - h else z + BITVEC_NINT - h)"
  have j: "j < BITVEC_NINT" "probe_at h j = z" using z assms(3) by (auto simp: j_def probe_at_def)
  let ?P = "\<lambda>j. hs ! probe_at h j \<in> {0, v}"
  have P: "?P j" using j z by simp
  define m where "m = (LEAST j. ?P j)"
  have "?P m" unfolding m_def by (rule LeastI [of ?P, OF P])
  moreover have "m \<le> j" unfolding m_def by (rule Least_le [of ?P, OF P])
  moreover have "\<forall>i<m. \<not> ?P i" unfolding m_def using not_less_Least [of _ ?P] by blast
  ultimately show ?thesis using j(1) unfolding stops_def by (intro exI [of _ m]) auto
qed

text \<open>The invariant of the hash table: from the home of a stored value there is no empty place on
  the way to it, and not every place is in use.\<close>

definition hash_ok :: "u32 \<Rightarrow> u32 list \<Rightarrow> bool" where
  "hash_ok s hs \<longleftrightarrow> length hs = BITVEC_NINT \<and> used hs < BITVEC_NINT \<and> (\<forall>v\<in>set hs. v \<le> s) \<and>
     (\<forall>h<BITVEC_NINT. hs ! h \<noteq> 0 \<longrightarrow>
        (\<exists>j. probe_at (BITVEC_HASH (hs ! h - 1)) j = h \<and> (\<forall>i<j. hs ! probe_at (BITVEC_HASH (hs ! h - 1)) i \<noteq> 0)))"

lemma HASH_less: "BITVEC_HASH x < BITVEC_NINT"
  by (simp add: BITVEC_HASH_def bv_sizes)

lemma stops_ok: "hash_ok s hs \<Longrightarrow> \<exists>j<BITVEC_NINT. stops hs (BITVEC_HASH x) v j"
  using stops_exists [OF _ _ HASH_less] by (simp add: hash_ok_def)

lemma stops_member:
  assumes "hash_ok s hs" "v \<noteq> 0" "stops hs (BITVEC_HASH (v - 1)) v j"
  shows "hs ! probe_at (BITVEC_HASH (v - 1)) j = v \<longleftrightarrow> v \<in> set hs"
proof
  assume "v \<in> set hs"
  then obtain h where h: "h < BITVEC_NINT" "hs ! h = v" using assms(1) by (metis hash_ok_def in_set_conv_nth)
  then obtain k where k: "probe_at (BITVEC_HASH (v - 1)) k = h"
      "\<forall>i<k. hs ! probe_at (BITVEC_HASH (v - 1)) i \<noteq> 0"
    using assms(1,2) by (auto simp: hash_ok_def)
  have "\<not> k < j" using assms(3) k(1) h(2) by (auto simp: stops_def)
  then have "j = k \<or> hs ! probe_at (BITVEC_HASH (v - 1)) j \<noteq> 0" using k(2) by (cases "j = k") auto
  then show "hs ! probe_at (BITVEC_HASH (v - 1)) j = v"
    using assms(3) k(1) h(2) by (auto simp: stops_def)
qed (use assms(1) probe_at_less in \<open>auto simp: hash_ok_def in_set_conv_nth\<close>)

lemma used_update:
  "h < length hs \<Longrightarrow> hs ! h = 0 \<Longrightarrow> v \<noteq> 0 \<Longrightarrow> used (hs[h := v]) = used hs + 1"
proof (induction hs arbitrary: h)
  case (Cons x hs)
  then show ?case by (cases h) (auto simp: used_def)
qed simp

lemma hash_ok_update:
  assumes ok: "hash_ok s hs" and st: "stops hs (BITVEC_HASH (v - 1)) w j" and v: "v \<noteq> 0" "v \<le> s"
    and z: "hs ! probe_at (BITVEC_HASH (v - 1)) j = 0" and room: "used hs < BITVEC_NINT - 1"
  shows "hash_ok s (hs[probe_at (BITVEC_HASH (v - 1)) j := v])"
    "set (hs[probe_at (BITVEC_HASH (v - 1)) j := v]) - {0} = insert v (set hs - {0})"
proof -
  let ?p = "probe_at (BITVEC_HASH (v - 1)) j"
  let ?hs = "hs[?p := v]"
  have len: "length hs = BITVEC_NINT" using ok by (simp add: hash_ok_def)
  have p: "?p < length hs" using probe_at_less len by simp
  have mono: "?hs ! i \<noteq> 0" if "hs ! i \<noteq> 0" for i
    using that v(1) p by (cases "i = ?p") auto
  have "\<exists>k. probe_at (BITVEC_HASH (?hs ! h - 1)) k = h \<and> (\<forall>i<k. ?hs ! probe_at (BITVEC_HASH (?hs ! h - 1)) i \<noteq> 0)"
    if h: "h < BITVEC_NINT" "?hs ! h \<noteq> 0" for h
  proof (cases "h = ?p")
    case True
    have "\<forall>i<j. ?hs ! probe_at (BITVEC_HASH (v - 1)) i \<noteq> 0" using st mono by (auto simp: stops_def)
    then show ?thesis using True p by auto
  next
    case False
    then obtain k where "probe_at (BITVEC_HASH (hs ! h - 1)) k = h \<and> (\<forall>i<k. hs ! probe_at (BITVEC_HASH (hs ! h - 1)) i \<noteq> 0)"
      using ok h by (auto simp: hash_ok_def)
    then show ?thesis using False mono by auto
  qed
  moreover have "used ?hs < BITVEC_NINT" using used_update [OF p z v(1)] room by simp
  moreover have "\<forall>x\<in>set ?hs. x \<le> s" using ok v(2) set_update_subset_insert [of hs ?p v] by (auto simp: hash_ok_def)
  ultimately show "hash_ok s ?hs" using len by (simp add: hash_ok_def)
  have "set ?hs - {0} \<subseteq> insert v (set hs - {0})" using set_update_subset_insert [of hs ?p v] by auto
  moreover have "v \<in> set ?hs" using p by (simp add: set_update_memI)
  moreover have "x \<in> set ?hs" if x: "x \<in> set hs" "x \<noteq> 0" for x
  proof -
    obtain i where "i < length hs" "hs ! i = x" using x(1) by (metis in_set_conv_nth)
    then have "?hs ! i = x" using z x(2) by (cases "i = ?p") auto
    then show ?thesis using \<open>i < length hs\<close> by (metis length_list_update nth_mem)
  qed
  ultimately show "set ?hs - {0} = insert v (set hs - {0})" using v(1) by auto
qed

subsection \<open>The invariant and the set of bits\<close>

text \<open>Bits are counted from 0 here, as below \<open>i--\<close> in the code. A bitmap nests at most \<open>n\<close> deep.\<close>

definition leaf_bit :: "bitvec \<Rightarrow> u32 \<Rightarrow> bool" where
  "leaf_bit p i = (if unat (iSize p) \<le> BITVEC_NBIT then test_bitmap (aBitmap (bv_u p)) i else i + 1 \<in> set (aHash (bv_u p)))"

primrec bv_bit :: "nat \<Rightarrow> bitvec \<Rightarrow> u32 \<Rightarrow> bool" where
  "bv_bit 0 p i = leaf_bit p i"
| "bv_bit (Suc n) p i =
     (if iDivisor p \<noteq> 0
      then case apSub (bv_u p) ! unat (i div iDivisor p) of None \<Rightarrow> False | Some q \<Rightarrow> bv_bit n q (i mod iDivisor p)
      else leaf_bit p i)"

definition leaf_ok :: "bitvec \<Rightarrow> bool" where
  "leaf_ok p \<longleftrightarrow> iDivisor p = 0 \<and>
     (if unat (iSize p) \<le> BITVEC_NBIT then \<exists>bm. bv_u p = ABitmap bm \<and> length bm = BITVEC_NELEM
      else \<exists>hs. bv_u p = AHash hs \<and> hash_ok (iSize p) hs \<and> unat (nSet p) = used hs)"

definition fits_depth :: "nat \<Rightarrow> u32 \<Rightarrow> bool" where
  "fits_depth n s \<longleftrightarrow> unat s \<le> BITVEC_NBIT * BITVEC_NPTR ^ n"

definition sub_ok :: "(bitvec \<Rightarrow> bool) \<Rightarrow> bitvec \<Rightarrow> bool" where
  "sub_ok P p \<longleftrightarrow> BITVEC_NBIT < unat (iSize p) \<and> iDivisor p = bv_divisor (iSize p) \<and>
     (\<exists>subs. bv_u p = ApSub subs \<and> length subs = BITVEC_NPTR \<and>
        (\<forall>q. Some q \<in> set subs \<longrightarrow> iSize q = iDivisor p \<and> P q))"

primrec bv_ok :: "nat \<Rightarrow> bitvec \<Rightarrow> bool" where
  "bv_ok 0 p \<longleftrightarrow> fits_depth 0 (iSize p) \<and> leaf_ok p"
| "bv_ok (Suc n) p \<longleftrightarrow> fits_depth (Suc n) (iSize p) \<and> (leaf_ok p \<or> sub_ok (bv_ok n) p)"

definition bv_bits :: "nat \<Rightarrow> bitvec \<Rightarrow> u32 set" where
  "bv_bits n p = {i. i < iSize p \<and> bv_bit n p i}"

lemma bits_below: "i \<in> bv_bits n p \<Longrightarrow> i < iSize p"
  by (simp add: bv_bits_def)

lemma divisor:
  assumes "BITVEC_NBIT < unat s"
  shows "unat (bv_divisor s) = (unat s + 61) div 62" "bv_divisor s \<noteq> 0"
    "fits_depth (Suc n) s \<Longrightarrow> fits_depth n (bv_divisor s)"
    "i < s \<Longrightarrow> unat (i div bv_divisor s) < BITVEC_NPTR" "i mod bv_divisor s < bv_divisor s"
proof -
  have s: "3968 < unat s" "unat s < 2 ^ 32" using assms unsigned_less [of s] by (simp_all add: bv_sizes)
  then have le: "(unat s + 61) div 62 < 2 ^ 32" by linarith
  then show u: "unat (bv_divisor s) = (unat s + 61) div 62"
    by (simp add: bv_divisor_def bv_sizes unat_of_nat)
  have pos: "0 < (unat s + 61) div 62" using s by linarith
  then show nz: "bv_divisor s \<noteq> 0" using u by (metis less_numeral_extra(3) unsigned_0)
  show "fits_depth n (bv_divisor s)" if "fits_depth (Suc n) s"
  proof -
    define m :: nat where "m = 3968 * 62 ^ n"
    have "unat s \<le> 62 * m" using that by (simp add: fits_depth_def bv_sizes m_def)
    then have "(unat s + 61) div 62 \<le> m" by linarith
    then have "(unat s + 61) div 62 \<le> 3968 * 62 ^ n" by (simp add: m_def)
    then show ?thesis by (simp add: fits_depth_def bv_sizes u)
  qed
  show "unat (i div bv_divisor s) < BITVEC_NPTR" if "i < s"
  proof -
    have "unat i < unat s" using that by (simp add: word_less_nat_alt)
    also have "unat s \<le> 62 * ((unat s + 61) div 62)" by linarith
    finally have "unat i div ((unat s + 61) div 62) < 62" using pos by (simp add: less_mult_imp_div_less)
    then show ?thesis by (simp add: unat_div u bv_sizes)
  qed
  show "i mod bv_divisor s < bv_divisor s" using nz by (simp add: word_less_nat_alt unat_mod u pos)
qed

lemma test_bit: "test_bitmap bm i = bit (bm ! (unat i div 8)) (unat i mod 8)"
proof -
  have "unat (i AND 7) = unat i mod 8"
    using and_low_mask [of 7 3 i] by (simp add: mask_eq_exp_minus_1)
  moreover have "w AND push_bit m 1 \<noteq> 0 \<longleftrightarrow> bit w m" for w :: u8 and m
    by (simp add: push_bit_of_1 and_exp_eq_0_iff_not_bit)
  ultimately show ?thesis by (simp add: test_bitmap_def bv_sizes)
qed

lemma set_bit_bitmap:
  assumes "unat i div 8 < length bm"
  shows "test_bitmap (set_bitmap bm i) x \<longleftrightarrow> x = i \<or> test_bitmap bm x"
    "test_bitmap (clear_bitmap bm i) x \<longleftrightarrow> x \<noteq> i \<and> test_bitmap bm x"
proof -
  have s: "unat (i AND 7) = unat i mod 8" for i :: u32
    using and_low_mask [of 7 3 i] by (simp add: mask_eq_exp_minus_1)
  have e: "x = i \<longleftrightarrow> unat x div 8 = unat i div 8 \<and> unat x mod 8 = unat i mod 8"
    by (metis div_mod_decomp unsigned_word_eqI)
  have p: "bit (push_bit m 1 :: u8) n \<longleftrightarrow> n = m" if "n < 8" "m < 8" for m n
    using that by (auto simp: push_bit_of_1 bit_simps)
  have m: "unat x mod 8 < 8" "unat i mod 8 < 8" by simp_all
  show "test_bitmap (set_bitmap bm i) x \<longleftrightarrow> x = i \<or> test_bitmap bm x"
    using assms p [OF m] unfolding test_bit set_bitmap_def Let_def s bv_sizes e
    by (cases "unat x div 8 = unat i div 8") (auto simp: bit_or_iff)
  show "test_bitmap (clear_bitmap bm i) x \<longleftrightarrow> x \<noteq> i \<and> test_bitmap bm x"
    using assms p [OF m] unfolding test_bit clear_bitmap_def Let_def s bv_sizes e
    by (cases "unat x div 8 = unat i div 8") (auto simp: bit_and_iff bit_not_iff)
qed

lemma succ_nonzero:
  fixes i s :: u32
  assumes "i < s" shows "i + 1 \<noteq> 0"
proof
  assume "i + 1 = 0"
  then have "i = - 1" by (simp add: eq_neg_iff_add_eq_0)
  then show False using assms word_order.extremum_strict by blast
qed

lemma pred_less: "v \<noteq> 0 \<Longrightarrow> v \<le> s \<Longrightarrow> v - 1 < s" for v s :: u32
  using unat_minus_one [of v] unat_gt_0 [of v] by (simp add: word_less_nat_alt word_le_nat_alt)

lemma create_ok: "fits_depth n s \<Longrightarrow> bv_ok n (sqlite3BitvecCreate s)"
proof -
  have "leaf_ok (sqlite3BitvecCreate s)"
    by (simp add: leaf_ok_def sqlite3BitvecCreate_def hash_ok_def used_def bv_sizes)
  then show "fits_depth n s \<Longrightarrow> bv_ok n (sqlite3BitvecCreate s)"
    by (cases n) (simp_all add: sqlite3BitvecCreate_def)
qed

lemma create_bits: "bv_bits n (sqlite3BitvecCreate s) = {}"
proof -
  have "\<not> bv_bit n (sqlite3BitvecCreate s) i" if i: "i < s" for i
  proof -
    have "i + 1 \<noteq> 0" using i by (rule succ_nonzero)
    moreover have "unat s \<le> 3968 \<Longrightarrow> unat i div 8 < 496" using i by (simp add: word_less_nat_alt)
    ultimately have "\<not> leaf_bit (sqlite3BitvecCreate s) i"
      by (simp add: sqlite3BitvecCreate_def leaf_bit_def test_bit bv_sizes)
    then show ?thesis by (cases n) (simp_all add: sqlite3BitvecCreate_def)
  qed
  then show ?thesis by (auto simp: bv_bits_def sqlite3BitvecCreate_def)
qed

lemma leaf_nodiv: "leaf_ok p \<Longrightarrow> iDivisor p = 0"
  by (simp add: leaf_ok_def)

lemma fits_0: "fits_depth 0 s \<longleftrightarrow> unat s \<le> BITVEC_NBIT"
  by (simp add: fits_depth_def)

lemma leaf_bv_bit: "leaf_ok p \<Longrightarrow> bv_bit n p i = leaf_bit p i"
  by (cases n) (simp_all add: leaf_nodiv)

text \<open>The two cases of a well-formed bitmap: a leaf, or parts below it.\<close>

lemma bv_cases:
  assumes "bv_ok n p"
  obtains (leaf) "leaf_ok p"
    | (sub) m subs where "n = Suc m" "sub_ok (bv_ok m) p" "\<not> unat (iSize p) \<le> BITVEC_NBIT" "iDivisor p = bv_divisor (iSize p)"
        "iDivisor p \<noteq> 0" "bv_u p = ApSub subs" "length subs = BITVEC_NPTR" "fits_depth m (iDivisor p)"
        "\<And>q. Some q \<in> set subs \<Longrightarrow> iSize q = iDivisor p \<and> bv_ok m q"
proof (cases n)
  case 0
  then show thesis using assms leaf by simp
next
  case (Suc m)
  show thesis
  proof (cases "leaf_ok p")
    case False
    then have "sub_ok (bv_ok m) p" "fits_depth (Suc m) (iSize p)" using assms Suc by simp_all
    then show thesis using sub [OF Suc] divisor(2,3) [of "iSize p"] unfolding sub_ok_def by force
  qed (rule leaf)
qed

lemma test_loop_bit:
  "bv_ok n p \<Longrightarrow> i < iSize p \<Longrightarrow> n < f \<Longrightarrow> test_loop f p i = Some (bv_bit n p i)"
proof (induction f arbitrary: n p i)
  case (Suc f)
  from Suc.prems(1) show ?case
  proof (cases rule: bv_cases)
    case leaf
    have nz: "i + 1 \<noteq> 0" using Suc.prems(2) by (rule succ_nonzero)
    show ?thesis
    proof (cases "unat (iSize p) \<le> BITVEC_NBIT")
      case False
      then obtain hs where hs: "bv_u p = AHash hs" "hash_ok (iSize p) hs" using leaf by (auto simp: leaf_ok_def)
      then obtain j where j: "j < BITVEC_NINT" "stops hs (BITVEC_HASH i) (i + 1) j"
        using stops_ok by blast
      then show ?thesis
        using hash_test_stops [OF HASH_less nz j(2,1)] stops_member [OF hs(2) nz, of j] False hs(1) leaf
        by (simp add: leaf_nodiv leaf_bv_bit leaf_bit_def)
    qed (use leaf in \<open>simp add: leaf_nodiv leaf_bv_bit leaf_bit_def\<close>)
  next
    case (sub m subs)
    have b: "unat (i div iDivisor p) < length subs"
      using divisor(4) [of "iSize p" i] sub Suc.prems(2) by simp
    then have q: "iSize q = iDivisor p \<and> bv_ok m q" if "subs ! unat (i div iDivisor p) = Some q" for q
      using sub(9) that by (metis nth_mem)
    have "i mod iDivisor p < iDivisor p" using divisor(5) [of "iSize p" i] sub by simp
    then show ?thesis
      using sub q Suc.IH [of m _ "i mod iDivisor p"] Suc.prems(3) by (auto split: option.splits)
  qed
qed simp

subsection \<open>Setting a bit\<close>

text \<open>What \<open>sqlite3BitvecSet\<close> owes: the bit is set and nothing else changes, or memory ran out and
  no bit is added but the one asked for.\<close>

definition sets_to :: "nat \<Rightarrow> u32 set \<Rightarrow> bitvec \<Rightarrow> u32 \<times> bitvec \<times> bool list \<Rightarrow> bool" where
  "sets_to n I p r \<longleftrightarrow> (case r of (rc, p', al) \<Rightarrow>
     bv_ok n p' \<and> iSize p' = iSize p \<and> (rc = 0 \<or> rc = SQLITE_NOMEM) \<and>
     bv_bits n p' \<subseteq> I \<union> bv_bits n p \<and> (rc = 0 \<longrightarrow> bv_bits n p' = I \<union> bv_bits n p))"

definition sub_bits :: "nat \<Rightarrow> bitvec \<Rightarrow> nat \<Rightarrow> u32 set" where
  "sub_bits m p b = (case apSub (bv_u p) ! b of None \<Rightarrow> {} | Some q \<Rightarrow> bv_bits m q)"

lemma sub_bit:
  assumes "bv_ok (Suc m) p" "sub_ok (bv_ok m) p" "x < iSize p"
  shows "x \<in> bv_bits (Suc m) p \<longleftrightarrow> x mod iDivisor p \<in> sub_bits m p (unat (x div iDivisor p))"
proof -
  obtain subs where s: "BITVEC_NBIT < unat (iSize p)" "iDivisor p = bv_divisor (iSize p)" "bv_u p = ApSub subs"
      "length subs = BITVEC_NPTR" "\<forall>q. Some q \<in> set subs \<longrightarrow> iSize q = iDivisor p \<and> bv_ok m q"
    using assms(2) by (auto simp: sub_ok_def)
  have b: "unat (x div iDivisor p) < length subs" using divisor(4) [OF s(1) assms(3)] s by simp
  have "x mod iDivisor p < iDivisor p" using divisor(5) [OF s(1)] s(2) by simp
  moreover have "iSize q = iDivisor p" if "subs ! unat (x div iDivisor p) = Some q" for q
    using s(5) that b by (metis nth_mem)
  ultimately show ?thesis
    using divisor(2) [OF s(1)] s(2,3) assms(3) by (auto simp: bv_bits_def sub_bits_def split: option.splits)
qed

lemma with_sub_ok:
  assumes ok: "bv_ok (Suc m) p" "sub_ok (bv_ok m) p" and i: "i < iSize p"
    and q: "bv_ok m q" "iSize q = iDivisor p"
  defines "b \<equiv> unat (i div iDivisor p)"
  shows "bv_ok (Suc m) (with_sub p b q) \<and> sub_ok (bv_ok m) (with_sub p b q) \<and>
    bv_bits (Suc m) (with_sub p b q) =
      {x. x < iSize p \<and> x mod iDivisor p \<in> (if unat (x div iDivisor p) = b then bv_bits m q
          else sub_bits m p (unat (x div iDivisor p)))}"
proof -
  obtain subs where s: "BITVEC_NBIT < unat (iSize p)" "iDivisor p = bv_divisor (iSize p)" "bv_u p = ApSub subs"
      "length subs = BITVEC_NPTR" "\<forall>q. Some q \<in> set subs \<longrightarrow> iSize q = iDivisor p \<and> bv_ok m q"
    using ok(2) by (auto simp: sub_ok_def)
  have b: "b < length subs" using divisor(4) [OF s(1) i] s by (simp add: b_def)
  have sub: "sub_ok (bv_ok m) (with_sub p b q)"
    using s q set_update_subset_insert [of subs b "Some q"] by (auto simp: sub_ok_def with_sub_def)
  have w: "bv_ok (Suc m) (with_sub p b q)" using sub ok(1) by (simp add: with_sub_def)
  have "sub_bits m (with_sub p b q) c = (if c = b then bv_bits m q else sub_bits m p c)" for c
    using b s(3) by (simp add: sub_bits_def with_sub_def)
  moreover have "iDivisor (with_sub p b q) = iDivisor p" "iSize (with_sub p b q) = iSize p"
    by (simp_all add: with_sub_def)
  moreover have "x < iSize p" if "x \<in> bv_bits (Suc m) (with_sub p b q)" for x
    using that by (simp add: bv_bits_def with_sub_def)
  ultimately have "x \<in> bv_bits (Suc m) (with_sub p b q) \<longleftrightarrow> x < iSize p \<and>
      x mod iDivisor p \<in> (if unat (x div iDivisor p) = b then bv_bits m q
        else sub_bits m p (unat (x div iDivisor p)))" for x
    using sub_bit [OF w sub, of x] by metis
  then show ?thesis using sub w by blast
qed

lemma word_div_mod_eq: "x = i \<longleftrightarrow> unat (x div d) = unat (i div d) \<and> x mod d = i mod d" for x i d :: u32
  by (metis div_mult_mod_eq unsigned_word_eqI)

lemma with_sub_sets:
  assumes ok: "bv_ok (Suc m) p" "sub_ok (bv_ok m) p" and i: "i < iSize p"
    and q: "iSize q = iDivisor p" "bv_bits m q = sub_bits m p (unat (i div iDivisor p))"
    and st: "sets_to m {i mod iDivisor p} q (rc, q', al)"
  shows "sets_to (Suc m) {i} p (rc, with_sub p (unat (i div iDivisor p)) q', al) \<and>
    sub_ok (bv_ok m) (with_sub p (unat (i div iDivisor p)) q')"
proof -
  let ?b = "unat (i div iDivisor p)"
  have q': "bv_ok m q'" "iSize q' = iDivisor p" "rc = 0 \<or> rc = SQLITE_NOMEM"
      "bv_bits m q' \<subseteq> insert (i mod iDivisor p) (sub_bits m p ?b)"
      "rc = 0 \<Longrightarrow> bv_bits m q' = insert (i mod iDivisor p) (sub_bits m p ?b)"
    using st q by (simp_all add: sets_to_def)
  note w = with_sub_ok [OF ok i q'(1,2)]
  have old: "x \<in> bv_bits (Suc m) p \<longleftrightarrow> x < iSize p \<and> x mod iDivisor p \<in> sub_bits m p (unat (x div iDivisor p))" for x
    using sub_bit [OF ok, of x] bits_below by blast
  have new: "x \<in> bv_bits (Suc m) (with_sub p ?b q') \<longleftrightarrow> x < iSize p \<and>
      x mod iDivisor p \<in> (if unat (x div iDivisor p) = ?b then bv_bits m q' else sub_bits m p (unat (x div iDivisor p)))" for x
    using w by blast
  have eq: "x = i \<longleftrightarrow> unat (x div iDivisor p) = ?b \<and> x mod iDivisor p = i mod iDivisor p" for x
    by (rule word_div_mod_eq)
  have "bv_bits (Suc m) (with_sub p ?b q') \<subseteq> insert i (bv_bits (Suc m) p)"
  proof
    fix x assume x: "x \<in> bv_bits (Suc m) (with_sub p ?b q')"
    show "x \<in> insert i (bv_bits (Suc m) p)"
    proof (cases "unat (x div iDivisor p) = ?b")
      case True
      then have "x mod iDivisor p \<in> insert (i mod iDivisor p) (sub_bits m p ?b)" "x < iSize p"
        using x q'(4) unfolding new by auto
      then show ?thesis using True eq [of x] old [of x] by (metis insertE insertI1 insertI2)
    next
      case False
      then show ?thesis using x unfolding new old insert_iff by simp
    qed
  qed
  moreover have "bv_bits (Suc m) (with_sub p ?b q') = insert i (bv_bits (Suc m) p)" if "rc = 0"
  proof (rule set_eqI)
    fix x
    show "x \<in> bv_bits (Suc m) (with_sub p ?b q') \<longleftrightarrow> x \<in> insert i (bv_bits (Suc m) p)"
    proof (cases "unat (x div iDivisor p) = ?b")
      case True
      then show ?thesis unfolding insert_iff new old eq [of x] q'(5) [OF that] using i eq [of x] by auto
    next
      case False
      then show ?thesis unfolding insert_iff new old eq [of x] by simp
    qed
  qed
  ultimately show ?thesis using w q'(3) by (simp add: sets_to_def with_sub_def)
qed

lemma rc_or: "rc = 0 \<or> rc = SQLITE_NOMEM \<Longrightarrow> rc' = 0 \<or> rc' = SQLITE_NOMEM \<Longrightarrow>
    (rc OR rc' = 0 \<or> rc OR rc' = SQLITE_NOMEM) \<and> (rc OR rc' = 0 \<longleftrightarrow> rc = 0 \<and> rc' = 0)"
  by (auto simp: SQLITE_NOMEM_def)

definition stored :: "u32 list \<Rightarrow> u32 set" where
  "stored vs = (\<lambda>v. v - 1) ` (set vs - {0})"

lemma set_values_ok:
  assumes st: "\<And>al p i. P p \<Longrightarrow> i < s \<Longrightarrow> \<exists>rc p' al'. st al p i = Some (rc, p', al') \<and> sets_to n {i} p (rc, p', al') \<and> P p'"
    and size: "\<And>p. P p \<Longrightarrow> iSize p = s"
  shows "\<forall>v\<in>set vs. v \<le> s \<Longrightarrow> P p \<Longrightarrow> sets_to n I p0 (rc, p, al) \<Longrightarrow>
    \<exists>r. set_values st vs (rc, p, al) = Some r \<and> sets_to n (stored vs \<union> I) p0 r"
proof (induction vs arbitrary: rc p al I)
  case (Cons v vs)
  show ?case
  proof (cases "v = 0")
    case False
    then have "v - 1 < s" using pred_less Cons.prems(1) by simp
    then obtain rc' p' al' where r: "st al p (v - 1) = Some (rc', p', al')"
        "sets_to n {v - 1} p (rc', p', al')" "P p'"
      using st [OF Cons.prems(2)] by blast
    have "sets_to n (insert (v - 1) I) p0 (rc OR rc', p', al')"
      using r(2) Cons.prems(3) rc_or [of rc rc'] by (auto simp: sets_to_def)
    from Cons.IH [OF _ r(3) this] Cons.prems(1) show ?thesis
      using False r(1) by (auto simp: stored_def insert_Diff_if)
  qed (use Cons in \<open>simp add: stored_def\<close>)
qed (simp add: stored_def)

lemma hash_leaf:
  assumes "leaf_ok p" "\<not> unat (iSize p) \<le> BITVEC_NBIT"
  obtains hs where "bv_u p = AHash hs" "hash_ok (iSize p) hs" "unat (nSet p) = used hs" "bv_bits n p = stored hs"
proof -
  obtain hs where hs: "bv_u p = AHash hs" "hash_ok (iSize p) hs" "unat (nSet p) = used hs"
    using assms by (auto simp: leaf_ok_def)
  have "i \<in> bv_bits n p \<longleftrightarrow> i \<in> stored hs" for i
  proof
    assume "i \<in> bv_bits n p"
    then have "i + 1 \<in> set hs" "i + 1 \<noteq> 0"
      using assms hs(1) succ_nonzero by (auto simp: bv_bits_def leaf_bv_bit leaf_bit_def)
    then show "i \<in> stored hs" unfolding stored_def by (intro rev_image_eqI [of "i + 1"]) auto
  next
    assume "i \<in> stored hs"
    then obtain v where v: "v \<in> set hs" "v \<noteq> 0" "i = v - 1" by (auto simp: stored_def)
    then have "i < iSize p" using pred_less [of v "iSize p"] hs(2) by (auto simp: hash_ok_def)
    then show "i \<in> bv_bits n p" using v assms hs(1) by (simp add: bv_bits_def leaf_bv_bit leaf_bit_def)
  qed
  then show thesis using that [OF hs] by blast
qed

lemma leaf_bv_ok: "leaf_ok p \<Longrightarrow> bv_ok n p \<longleftrightarrow> fits_depth n (iSize p)"
  by (cases n) simp_all

lemma bv_fits: "bv_ok n p \<Longrightarrow> fits_depth n (iSize p)"
  by (cases n) simp_all

lemma set_bitmap_ok:
  assumes ok: "bv_ok n p" "leaf_ok p" "unat (iSize p) \<le> BITVEC_NBIT" and i: "i < iSize p"
  shows "bv_ok n (Bitvec (iSize p) (nSet p) (iDivisor p) (ABitmap (set_bitmap (aBitmap (bv_u p)) i)))"
      (is "bv_ok n ?s")
    and "bv_bits n (Bitvec (iSize p) (nSet p) (iDivisor p) (ABitmap (set_bitmap (aBitmap (bv_u p)) i))) = insert i (bv_bits n p)"
    and "bv_ok n (Bitvec (iSize p) (nSet p) (iDivisor p) (ABitmap (clear_bitmap (aBitmap (bv_u p)) i)))"
      (is "bv_ok n ?c")
    and "bv_bits n (Bitvec (iSize p) (nSet p) (iDivisor p) (ABitmap (clear_bitmap (aBitmap (bv_u p)) i))) = bv_bits n p - {i}"
proof -
  obtain bm where bm: "bv_u p = ABitmap bm" "length bm = BITVEC_NELEM" using ok(2,3) by (auto simp: leaf_ok_def)
  have l: "leaf_ok ?s" "leaf_ok ?c"
    using ok(2,3) bm by (auto simp: leaf_ok_def set_bitmap_def clear_bitmap_def Let_def)
  then show "bv_ok n ?s" "bv_ok n ?c" using bv_fits [OF ok(1)] by (simp_all add: leaf_bv_ok)
  have "unat i div 8 < length bm" using i ok(3) bm(2) by (simp add: word_less_nat_alt bv_sizes)
  note b = set_bit_bitmap [OF this]
  show "bv_bits n ?s = insert i (bv_bits n p)" "bv_bits n ?c = bv_bits n p - {i}"
    using i l ok(2,3) bm(1) by (auto simp: bv_bits_def leaf_bv_bit leaf_bit_def b)
qed

lemma stored_update:
  assumes "set hs' - {0} = insert v (set hs - {0})" shows "stored hs' = insert (v - 1) (stored hs)"
  unfolding stored_def assms by simp

lemma set_end_ok:
  assumes ok: "bv_ok n p" "leaf_ok p" "\<not> unat (iSize p) \<le> BITVEC_NBIT" and i: "i < iSize p"
    and st: "stops (aHash (bv_u p)) (BITVEC_HASH i) w j" and z: "aHash (bv_u p) ! probe_at (BITVEC_HASH i) j = 0"
    and room: "unat (nSet p) < BITVEC_NINT - 1"
  shows "sets_to n {i} p (0, set_end p (probe_at (BITVEC_HASH i) j) (i + 1), al)"
proof -
  obtain hs where hs: "bv_u p = AHash hs" "hash_ok (iSize p) hs" "unat (nSet p) = used hs" "bv_bits n p = stored hs"
    using hash_leaf [OF ok(2,3)] by blast
  let ?hs = "hs[probe_at (BITVEC_HASH i) j := i + 1]"
  have nz: "i + 1 \<noteq> 0" using i by (rule succ_nonzero)
  have le: "i + 1 \<le> iSize p" using i by (simp add: inc_le)
  have u: "hash_ok (iSize p) ?hs" "set ?hs - {0} = insert (i + 1) (set hs - {0})"
    using hash_ok_update [of "iSize p" hs "i + 1" w j] st z nz le hs room by simp_all
  have "probe_at (BITVEC_HASH i) j < length hs" using probe_at_less hs(2) by (simp add: hash_ok_def)
  then have "used ?hs = used hs + 1" using used_update nz z hs(1) by simp
  moreover have "unat (nSet p + 1) = unat (nSet p) + 1"
    using room by (simp add: unat_word_ariths bv_sizes)
  ultimately have l: "leaf_ok (set_end p (probe_at (BITVEC_HASH i) j) (i + 1))"
    using ok(2,3) hs u(1) by (simp add: leaf_ok_def set_end_def)
  then have "bv_bits n (set_end p (probe_at (BITVEC_HASH i) j) (i + 1)) = stored ?hs"
    using hash_leaf [OF l, of n] ok(3) hs(1) by (auto simp: set_end_def)
  then show ?thesis
    using l bv_fits [OF ok(1)] stored_update [OF u(2)] hs(4) by (simp add: sets_to_def leaf_bv_ok set_end_def)
qed

text \<open>The bitmap with parts that a full hash table becomes is empty at first.\<close>

lemma empty_parts:
  fixes k :: u32
  assumes "\<not> unat s \<le> BITVEC_NBIT" "fits_depth (Suc m) s"
  defines "p \<equiv> Bitvec s k (bv_divisor s) (ApSub (replicate BITVEC_NPTR None))"
  shows "bv_ok (Suc m) p" "sub_ok (bv_ok m) p" "bv_bits (Suc m) p = {}"
proof -
  show sub: "sub_ok (bv_ok m) p" using assms(1) by (simp add: sub_ok_def p_def)
  then show ok: "bv_ok (Suc m) p" using assms(2) by (simp add: p_def)
  have "x \<notin> bv_bits (Suc m) p" if x: "x < iSize p" for x
  proof -
    have "unat (x div iDivisor p) < BITVEC_NPTR"
      using divisor(4) [of s x] assms(1) x by (simp add: p_def)
    then have "sub_bits m p (unat (x div iDivisor p)) = {}" by (simp add: sub_bits_def p_def)
    then show ?thesis using sub_bit [OF ok sub x] by simp
  qed
  then show "bv_bits (Suc m) p = {}" using bits_below by blast
qed

definition sets_parts :: "nat \<Rightarrow> u32 \<Rightarrow> (bool list \<Rightarrow> bitvec \<Rightarrow> u32 \<Rightarrow> (u32 \<times> bitvec \<times> bool list) option) \<Rightarrow> bool" where
  "sets_parts m s st \<longleftrightarrow> (\<forall>al p i. bv_ok (Suc m) p \<and> sub_ok (bv_ok m) p \<and> iSize p = s \<and> i < s \<longrightarrow>
     (\<exists>rc p' al'. st al p i = Some (rc, p', al') \<and> sets_to (Suc m) {i} p (rc, p', al') \<and> sub_ok (bv_ok m) p'))"

lemma set_rehash_ok:
  assumes ok: "bv_ok (Suc m) p" "leaf_ok p" "\<not> unat (iSize p) \<le> BITVEC_NBIT" and i: "i < iSize p"
    and st: "sets_parts m (iSize p) st"
    and j: "stops (aHash (bv_u p)) (BITVEC_HASH i) w j" "aHash (bv_u p) ! probe_at (BITVEC_HASH i) j = 0"
  shows "\<exists>r. set_rehash st al p (probe_at (BITVEC_HASH i) j) (i + 1) = Some r \<and> sets_to (Suc m) {i} p r"
proof (cases "BITVEC_MXHASH \<le> unat (nSet p)")
  case False
  then have "unat (nSet p) < BITVEC_NINT - 1" by (simp add: bv_sizes)
  from set_end_ok [OF ok i j this, of al] show ?thesis using False by (simp add: set_rehash_def)
next
  case full: True
  obtain hs where hs: "bv_u p = AHash hs" "hash_ok (iSize p) hs" "bv_bits (Suc m) p = stored hs"
    using hash_leaf [OF ok(2,3)] by metis
  show ?thesis
  proof (cases "malloc_ok al")
    case (Pair b al')
    show ?thesis
    proof (cases b)
      case False
      then show ?thesis using full Pair ok(1) by (auto simp: set_rehash_def sets_to_def SQLITE_NOMEM_def simp del: bv_ok.simps)
    next
      case True
      let ?P = "\<lambda>q. bv_ok (Suc m) q \<and> sub_ok (bv_ok m) q \<and> iSize q = iSize p"
      let ?e = "Bitvec (iSize p) (nSet p) (bv_divisor (iSize p)) (ApSub (replicate BITVEC_NPTR None))"
      note e = empty_parts [OF ok(3) bv_fits [OF ok(1)], of "nSet p"]
      obtain rc p1 al1 where r: "st al' ?e i = Some (rc, p1, al1)" "sets_to (Suc m) {i} ?e (rc, p1, al1)"
          "sub_ok (bv_ok m) p1"
        using st e(1,2) i unfolding sets_parts_def by (metis bitvec.sel(1))
      have P1: "?P p1" using r(2,3) by (simp add: sets_to_def del: bv_ok.simps)
      have step: "\<exists>rc p' al'. st al q i = Some (rc, p', al') \<and> sets_to (Suc m) {i} q (rc, p', al') \<and> ?P p'"
        if q: "?P q" "i < iSize p" for al q i
      proof -
        obtain rc p' al' where "st al q i = Some (rc, p', al')" "sets_to (Suc m) {i} q (rc, p', al')" "sub_ok (bv_ok m) p'"
          using st q unfolding sets_parts_def by metis
        moreover from this(2) have "bv_ok (Suc m) p'" "iSize p' = iSize p"
          using q by (simp_all add: sets_to_def del: bv_ok.simps)
        ultimately show ?thesis by blast
      qed
      have "\<exists>r. set_values st hs (rc, p1, al1) = Some r \<and> sets_to (Suc m) (stored hs \<union> {i}) ?e r"
        by (rule set_values_ok [where P = ?P and s = "iSize p"])
          (use step P1 r(2) hs(2) in \<open>simp_all add: hash_ok_def del: bv_ok.simps\<close>)
      then obtain r' where r': "set_values st hs (rc, p1, al1) = Some r'" "sets_to (Suc m) (stored hs \<union> {i}) ?e r'"
        by blast
      have "sets_to (Suc m) {i} p r'"
        using r'(2) e(3) hs(3) by (auto simp: sets_to_def simp del: bv_ok.simps split: prod.splits)
      then show ?thesis using full Pair True r(1) r'(1) hs(1) by (simp add: set_rehash_def)
    qed
  qed
qed

definition fuel_need :: "nat \<Rightarrow> bitvec \<Rightarrow> nat" where
  "fuel_need n p = (if iDivisor p \<noteq> 0 then 2 * n else 2 * n + 1)"

lemma deep_hash:
  assumes "bv_ok n p" "\<not> unat (iSize p) \<le> BITVEC_NBIT"
  obtains m where "n = Suc m"
  using assms bv_fits [OF assms(1)] by (cases n) (auto simp: fits_0)

lemma set_loop_ok:
  "bv_ok n p \<Longrightarrow> i < iSize p \<Longrightarrow> fuel_need n p \<le> f \<Longrightarrow>
   \<exists>r. set_loop f al p i = Some r \<and> sets_to n {i} p r \<and>
     (\<forall>m. n = Suc m \<and> sub_ok (bv_ok m) p \<longrightarrow> sub_ok (bv_ok m) (fst (snd r)))"
proof (induction f arbitrary: n p i al)
  case 0
  then show ?case using bv_cases [OF 0(1)] by (fastforce simp: fuel_need_def leaf_nodiv)
next
  case (Suc f)
  note [simp del] = bv_ok.simps
  from Suc.prems(1) show ?case
  proof (cases rule: bv_cases)
    case leaf
    have nosub: "\<not> sub_ok P p" for P using leaf divisor(2) [of "iSize p"] by (auto simp: leaf_ok_def sub_ok_def)
    show ?thesis
    proof (cases "unat (iSize p) \<le> BITVEC_NBIT")
      case True
      then show ?thesis
        using set_bitmap_ok [OF Suc.prems(1) leaf True Suc.prems(2)] nosub by (simp add: sets_to_def)
    next
      case False
      obtain m where n: "n = Suc m" using deep_hash [OF Suc.prems(1) False] .
      have parts: "sets_parts m (iSize p) (set_loop f)"
        unfolding sets_parts_def
      proof (intro allI impI)
        fix al q j assume q: "bv_ok (Suc m) q \<and> sub_ok (bv_ok m) q \<and> iSize q = iSize p \<and> j < iSize p"
        then have "fuel_need (Suc m) q \<le> f"
          using Suc.prems(3) n leaf divisor(2) [of "iSize q"] by (auto simp: fuel_need_def leaf_nodiv sub_ok_def)
        then obtain r where "set_loop f al q j = Some r" "sets_to (Suc m) {j} q r" "sub_ok (bv_ok m) (fst (snd r))"
          using Suc.IH [of "Suc m" q j al] q by metis
        then show "\<exists>rc p' al'. set_loop f al q j = Some (rc, p', al') \<and> sets_to (Suc m) {j} q (rc, p', al') \<and> sub_ok (bv_ok m) p'"
          by (cases r) auto
      qed
      obtain hs where hs: "bv_u p = AHash hs" "hash_ok (iSize p) hs" "bv_bits n p = stored hs"
        using hash_leaf [OF leaf False] by metis
      have nz: "i + 1 \<noteq> 0" using Suc.prems(2) by (rule succ_nonzero)
      note rehash = set_rehash_ok [OF Suc.prems(1) [unfolded n] leaf False Suc.prems(2) parts]
      have base: "\<exists>r. set_loop (Suc f) al p i = Some r \<and> sets_to n {i} p r"
      proof (cases "hs ! BITVEC_HASH i = 0")
        case True
        then have s0: "stops (aHash (bv_u p)) (BITVEC_HASH i) 0 0" "aHash (bv_u p) ! probe_at (BITVEC_HASH i) 0 = 0"
          using hs(1) by (simp_all add: stops_0 HASH_less probe_at_0)
        have "set_loop (Suc f) al p i = (if unat (nSet p) < BITVEC_NINT - 1 then Some (0, set_end p (BITVEC_HASH i) (i + 1), al)
            else set_rehash (set_loop f) al p (BITVEC_HASH i) (i + 1))"
          using True hs(1) False leaf by (simp add: leaf_nodiv Let_def)
        moreover obtain r where "set_rehash (set_loop f) al p (BITVEC_HASH i) (i + 1) = Some r" "sets_to n {i} p r"
          using rehash [OF s0, of al] n unfolding probe_at_0 [OF HASH_less] by blast
        moreover have "sets_to n {i} p (0, set_end p (BITVEC_HASH i) (i + 1), al)" if "unat (nSet p) < BITVEC_NINT - 1"
          using set_end_ok [OF Suc.prems(1) leaf False Suc.prems(2) s0 that, of al] unfolding probe_at_0 [OF HASH_less] .
        ultimately show ?thesis
          by (cases "unat (nSet p) < BITVEC_NINT - 1") (simp_all del: set_loop.simps)
      next
        case ne: False
        obtain j where j: "j < BITVEC_NINT" "stops hs (BITVEC_HASH i) (i + 1) j" using stops_ok [OF hs(2)] by blast
        note pl = hash_place_stops [OF HASH_less nz ne j(2,1)]
        show ?thesis
        proof (cases "hs ! probe_at (BITVEC_HASH i) j = i + 1")
          case True
          then have "i + 1 \<in> set hs" using stops_member [OF hs(2) nz, of j] j(2) by simp
          then have "i \<in> bv_bits n p" using nz unfolding hs(3) stored_def by (intro rev_image_eqI [of "i + 1"]) auto
          then show ?thesis
            using pl True ne hs(1) False leaf Suc.prems(1) by (simp add: leaf_nodiv sets_to_def insert_absorb)
        next
          case no: False
          then have "aHash (bv_u p) ! probe_at (BITVEC_HASH i) j = 0" using j(2) hs(1) by (auto simp: stops_def)
          from rehash [OF _ this, of "i + 1" al] show ?thesis
            using pl no ne j(2) hs(1) False leaf n by (simp add: leaf_nodiv)
        qed
      qed
      then obtain r where "set_loop (Suc f) al p i = Some r" "sets_to n {i} p r" by blast
      then show ?thesis using nosub by (intro exI [of _ r]) (simp del: set_loop.simps)
    qed
  next
    case (sub m subs)
    let ?b = "unat (i div iDivisor p)" and ?r = "i mod iDivisor p"
    have b: "?b < length subs" using divisor(4) [of "iSize p" i] sub Suc.prems(2) by simp
    have r: "?r < iDivisor p" using divisor(5) [of "iSize p" i] sub by simp
    have descend: "\<exists>rc q' al'. set_loop f al q ?r = Some (rc, q', al') \<and>
        sets_to (Suc m) {i} p (rc, with_sub p ?b q', al') \<and> sub_ok (bv_ok m) (with_sub p ?b q')"
      if q: "bv_ok m q" "iSize q = iDivisor p" "bv_bits m q = sub_bits m p ?b" for q al
    proof -
      have "fuel_need m q \<le> f" using Suc.prems(3) sub(1,5) by (auto simp: fuel_need_def)
      then obtain x where x: "set_loop f al q ?r = Some x" "sets_to m {?r} q x"
        using Suc.IH [of m q ?r al] q r by metis
      obtain rc q' al' where "x = (rc, q', al')" by (cases x)
      then show ?thesis
        using x with_sub_sets [OF Suc.prems(1) [unfolded sub(1)] sub(2) Suc.prems(2) q(2,3)] by blast
    qed
    show ?thesis
    proof (cases "subs ! ?b")
      case (Some q)
      then have "iSize q = iDivisor p \<and> bv_ok m q" using sub(9) b by (metis nth_mem)
      then obtain rc q' al' where d: "set_loop f al q ?r = Some (rc, q', al')"
          "sets_to (Suc m) {i} p (rc, with_sub p ?b q', al')" "sub_ok (bv_ok m) (with_sub p ?b q')"
        using descend [of q al] Some sub(6) by (auto simp: sub_bits_def)
      then show ?thesis using sub Some by (simp add: Let_def)
    next
      case None
      show ?thesis
      proof (cases "malloc_ok al")
        case (Pair ok al')
        have c: "bv_ok m (sqlite3BitvecCreate (iDivisor p))" using create_ok sub(8) .
        obtain rc q' al'' where d: "set_loop f al' (sqlite3BitvecCreate (iDivisor p)) ?r = Some (rc, q', al'')"
            "sets_to (Suc m) {i} p (rc, with_sub p ?b q', al'')" "sub_ok (bv_ok m) (with_sub p ?b q')"
          using descend [OF c, of al'] None sub(6) create_bits [of m] by (auto simp: sub_bits_def sqlite3BitvecCreate_def)
        have loop: "set_loop (Suc f) al p i = (if ok then Some (rc, with_sub p ?b q', al'') else Some (SQLITE_NOMEM, p, al'))"
          using sub None Pair d(1) by (simp add: Let_def)
        have "sets_to n {i} p (SQLITE_NOMEM, p, al')"
          using Suc.prems(1) by (auto simp: sets_to_def SQLITE_NOMEM_def)
        then show ?thesis using loop d(2,3) sub(1,2) by simp
      qed
    qed
  qed
qed

text \<open>Only a failed allocation makes it return anything but \<open>SQLITE_OK\<close>.\<close>

lemma set_values_mem:
  assumes st: "\<And>al p i rc p' al'. st al p i = Some (rc, p', al') \<Longrightarrow> False \<notin> set al \<Longrightarrow> rc = 0 \<and> False \<notin> set al'"
  shows "set_values st vs (0, p, al) = Some (rc, p', al') \<Longrightarrow> False \<notin> set al \<Longrightarrow> rc = 0 \<and> False \<notin> set al'"
proof (induction vs arbitrary: p al)
  case (Cons v vs)
  show ?case
  proof (cases "v = 0")
    case False
    then obtain rc1 p1 al1 where s: "st al p (v - 1) = Some (rc1, p1, al1)" "set_values st vs (rc1, p1, al1) = Some (rc, p', al')"
      using Cons.prems(1) by (auto simp: bind_eq_Some_conv)
    then show ?thesis using Cons.IH [of p1 al1] st [OF s(1)] Cons.prems(2) by simp
  qed (use Cons in simp)
qed simp

lemma set_rehash_mem:
  assumes st: "\<And>al p i rc p' al'. st al p i = Some (rc, p', al') \<Longrightarrow> False \<notin> set al \<Longrightarrow> rc = 0 \<and> False \<notin> set al'"
    and r: "set_rehash st al p h i = Some (rc, p', al')" "False \<notin> set al"
  shows "rc = 0 \<and> False \<notin> set al'"
proof (cases "BITVEC_MXHASH \<le> unat (nSet p)")
  case True
  obtain b al1 where m: "malloc_ok al = (b, al1)" by fastforce
  note b = malloc_mem [OF m r(2)]
  then obtain rc2 p2 al2 where s: "st al1 (Bitvec (iSize p) (nSet p) (bv_divisor (iSize p)) (ApSub (replicate BITVEC_NPTR None))) (i - 1) =
      Some (rc2, p2, al2)" "set_values st (aHash (bv_u p)) (rc2, p2, al2) = Some (rc, p', al')"
    using r(1) m True by (auto simp: set_rehash_def bind_eq_Some_conv)
  have z: "rc2 = 0" "False \<notin> set al2" using st [OF s(1)] b by simp_all
  show ?thesis
  proof (rule set_values_mem)
    show "set_values st (aHash (bv_u p)) (0, p2, al2) = Some (rc, p', al')" using s(2) z(1) by simp
  qed (use st z in blast)+
qed (use r in \<open>simp add: set_rehash_def\<close>)

lemma set_loop_mem:
  "set_loop f al p i = Some (rc, p', al') \<Longrightarrow> False \<notin> set al \<Longrightarrow> rc = 0 \<and> False \<notin> set al'"
proof (induction f arbitrary: al p i rc p' al')
  case (Suc f)
  note IH = Suc.IH
  show ?case
  proof (cases "BITVEC_NBIT < unat (iSize p) \<and> iDivisor p \<noteq> 0")
    case True
    obtain b al1 where m: "malloc_ok al = (b, al1)" by fastforce
    show ?thesis
      using Suc.prems True m malloc_mem [OF m Suc.prems(2)]
      by (auto simp: Let_def bind_eq_Some_conv split: option.splits dest: IH)
  next
    case False
    then show ?thesis
      using Suc.prems set_rehash_mem [where st = "set_loop f", OF IH]
      by (auto simp: Let_def bind_eq_Some_conv split: if_splits option.splits)
  qed
qed simp

subsection \<open>Clearing a bit\<close>

lemma stored_Cons: "stored (v # vs) = (if v = 0 then stored vs else insert (v - 1) (stored vs))"
  by (simp add: stored_def insert_Diff_if)

lemma refill_ok:
  "hash_ok s hs \<Longrightarrow> unat k = used hs \<Longrightarrow> used hs + used vs < BITVEC_NINT \<Longrightarrow> \<forall>v\<in>set vs. v \<le> s \<Longrightarrow> i + 1 \<noteq> 0 \<Longrightarrow>
   \<exists>hs' k'. refill vs i (hs, k) = Some (hs', k') \<and> hash_ok s hs' \<and> unat k' = used hs' \<and>
     stored hs' = stored hs \<union> (stored vs - {i})"
proof (induction vs arbitrary: hs k)
  case (Cons v vs)
  show ?case
  proof (cases "v \<noteq> 0 \<and> v \<noteq> i + 1")
    case False
    then have "stored (v # vs) - {i} = stored vs - {i}" by (auto simp: stored_Cons)
    moreover have "used hs + used vs < BITVEC_NINT"
      using Cons.prems(3) by (auto simp: used_def split: if_splits)
    moreover have "refill (v # vs) i (hs, k) = refill vs i (hs, k)" using False by auto
    ultimately show ?thesis using Cons.IH [of hs k] Cons.prems by simp
  next
    case True
    then have v: "v \<noteq> 0" "v - 1 \<noteq> i" "v \<le> s" using Cons.prems(4) by auto
    obtain j where j: "j < BITVEC_NINT" "stops hs (BITVEC_HASH (v - 1)) 0 j" using stops_ok [OF Cons.prems(1)] by blast
    let ?p = "probe_at (BITVEC_HASH (v - 1)) j"
    have z: "hs ! ?p = 0" using j(2) by (simp add: stops_def)
    have room: "used hs + 1 + used vs < BITVEC_NINT" using Cons.prems(3) v(1) by (simp add: used_def)
    then have u: "hash_ok s (hs[?p := v])" "stored (hs[?p := v]) = insert (v - 1) (stored hs)"
      using hash_ok_update [OF Cons.prems(1) j(2) v(1,3) z] stored_update by simp_all
    have "?p < length hs" using probe_at_less Cons.prems(1) by (simp add: hash_ok_def)
    then have n: "used (hs[?p := v]) = used hs + 1" using used_update z v(1) by blast
    have "unat (k + 1) = unat k + 1" using room Cons.prems(2) by (simp add: unat_word_ariths bv_sizes)
    then obtain hs' k' where "refill vs i (hs[?p := v], k + 1) = Some (hs', k')" "hash_ok s hs'" "unat k' = used hs'"
        "stored hs' = stored (hs[?p := v]) \<union> (stored vs - {i})"
      using Cons.IH [OF u(1), of "k + 1"] n room Cons.prems by auto
    then show ?thesis
      using True free_place_stops [OF HASH_less j(2,1)] u(2) v by (auto simp: stored_Cons)
  qed
qed (simp add: stored_def)

lemma clear_loop_ok:
  "bv_ok n p \<Longrightarrow> i < iSize p \<Longrightarrow> n < f \<Longrightarrow>
   \<exists>p'. clear_loop f p i = Some p' \<and> bv_ok n p' \<and> iSize p' = iSize p \<and> bv_bits n p' = bv_bits n p - {i}"
proof (induction f arbitrary: n p i)
  case (Suc f)
  note [simp del] = bv_ok.simps
  from Suc.prems(1) show ?case
  proof (cases rule: bv_cases)
    case leaf
    show ?thesis
    proof (cases "unat (iSize p) \<le> BITVEC_NBIT")
      case True
      then show ?thesis
        using set_bitmap_ok [OF Suc.prems(1) leaf True Suc.prems(2)] leaf by (simp add: leaf_nodiv)
    next
      case False
      obtain hs where hs: "bv_u p = AHash hs" "hash_ok (iSize p) hs" "bv_bits n p = stored hs"
        using hash_leaf [OF leaf False] by metis
      have e: "hash_ok (iSize p) (replicate BITVEC_NINT 0)" "used (replicate BITVEC_NINT 0) = 0"
          "stored (replicate BITVEC_NINT 0) = {}"
        by (simp_all add: hash_ok_def used_def stored_def bv_sizes)
      have "i + 1 \<noteq> 0" using Suc.prems(2) by (rule succ_nonzero)
      then obtain hs' k' where r: "refill hs i (replicate BITVEC_NINT 0, 0) = Some (hs', k')" "hash_ok (iSize p) hs'"
          "unat k' = used hs'" "stored hs' = stored hs - {i}"
        using refill_ok [OF e(1), of 0 hs i] e hs(2) by (auto simp: hash_ok_def)
      let ?p = "Bitvec (iSize p) k' (iDivisor p) (AHash hs')"
      have l: "leaf_ok ?p" using r leaf False by (simp add: leaf_ok_def)
      have "bv_bits n ?p = stored hs'" using hash_leaf [OF l, of n] False by auto
      then show ?thesis
        using r l leaf False hs Suc.prems(1) bv_fits [OF Suc.prems(1)] by (simp add: leaf_nodiv leaf_bv_ok)
    qed
  next
    case (sub m subs)
    let ?b = "unat (i div iDivisor p)" and ?r = "i mod iDivisor p"
    have b: "?b < length subs" using divisor(4) [of "iSize p" i] sub Suc.prems(2) by simp
    have r: "?r < iDivisor p" using divisor(5) [of "iSize p" i] sub by simp
    note ok = Suc.prems(1) [unfolded sub(1)] sub(2)
    show ?thesis
    proof (cases "subs ! ?b")
      case None
      then have "i \<notin> bv_bits n p" using sub_bit [OF ok Suc.prems(2)] sub(1,6) by (simp add: sub_bits_def)
      then show ?thesis using None sub Suc.prems(1) by simp
    next
      case (Some q)
      then have q: "iSize q = iDivisor p" "bv_ok m q" using sub(9) b by (metis nth_mem)+
      then obtain q' where q': "clear_loop f q ?r = Some q'" "bv_ok m q'" "iSize q' = iDivisor p" "bv_bits m q' = bv_bits m q - {?r}"
        using Suc.IH [of m q ?r] r Suc.prems(3) sub(1) by auto
      have qb: "sub_bits m p ?b = bv_bits m q" using Some sub(6) by (simp add: sub_bits_def)
      note w = with_sub_ok [OF ok Suc.prems(2) q'(2,3)]
      have new: "x \<in> bv_bits (Suc m) (with_sub p ?b q') \<longleftrightarrow> x < iSize p \<and>
          x mod iDivisor p \<in> (if unat (x div iDivisor p) = ?b then bv_bits m q' else sub_bits m p (unat (x div iDivisor p)))" for x
        using w by blast
      have old: "x \<in> bv_bits (Suc m) p \<longleftrightarrow> x < iSize p \<and> x mod iDivisor p \<in> sub_bits m p (unat (x div iDivisor p))" for x
        using sub_bit [OF ok, of x] bits_below by blast
      have "x \<in> bv_bits (Suc m) (with_sub p ?b q') \<longleftrightarrow> x \<in> bv_bits (Suc m) p - {i}" for x
        unfolding Diff_iff singleton_iff new old word_div_mod_eq [of x i "iDivisor p"] q'(4) qb [symmetric] by auto
      then show ?thesis using w q'(1) Some sub by (auto simp: with_sub_def)
    qed
  qed
qed simp

subsection \<open>The bitmap as a set\<close>

definition bitvec_ok :: "bitvec \<Rightarrow> bool" where
  "bitvec_ok p \<longleftrightarrow> bv_ok 4 p"

text \<open>The numbers in the bitmap, counted from 1.\<close>

definition bitvec_set :: "bitvec \<Rightarrow> u32 set" where
  "bitvec_set p = (\<lambda>i. i + 1) ` bv_bits 4 p"

lemma fits_4: "fits_depth 4 s"
proof -
  have "unat s < 2 ^ 32" using unsigned_less [of s] by simp
  then show ?thesis by (simp add: fits_depth_def bv_sizes)
qed

lemma pred_in:
  fixes i :: u32
  shows "i \<in> (\<lambda>j. j + 1) ` B \<longleftrightarrow> i - 1 \<in> B"
  by (metis (no_types, lifting) add_diff_cancel diff_add_cancel image_iff)

lemma BV_FUEL_Suc: "BV_FUEL = Suc 8" by (simp add: BV_FUEL_def)

lemma in_range_pred: "0 < i \<Longrightarrow> i \<le> s \<Longrightarrow> i - 1 < s" for i s :: u32
  using pred_less [of i s] by (simp add: word_neq_0_conv)

lemma bitvec_Test: "bitvec_ok p \<Longrightarrow> sqlite3BitvecTest (Some p) i = Some (i \<in> bitvec_set p)"
proof -
  assume ok: "bitvec_ok p"
  show ?thesis
  proof (cases "i - 1 < iSize p")
    case True
    then have "\<not> iSize p \<le> i - 1" by simp
    then show ?thesis
      using test_loop_bit [of 4 p "i - 1" BV_FUEL] ok True
      by (auto simp: sqlite3BitvecTest_def sqlite3BitvecTestNotNull_def bitvec_ok_def bitvec_set_def pred_in
          BV_FUEL_def bv_bits_def Let_def)
  next
    case False
    then have "iSize p \<le> i - 1" "\<not> i - 1 < iSize p" by simp_all
    then show ?thesis
      by (simp add: sqlite3BitvecTest_def sqlite3BitvecTestNotNull_def bitvec_set_def pred_in bv_bits_def Let_def)
  qed
qed

lemma bitvec_Set:
  assumes "bitvec_ok p" "0 < i" "i \<le> iSize p"
  obtains rc p' al' where "sqlite3BitvecSet al (Some p) i = Some (rc, Some p', al')" "bitvec_ok p'" "iSize p' = iSize p"
    "rc = 0 \<or> rc = SQLITE_NOMEM" "bitvec_set p' \<subseteq> insert i (bitvec_set p)"
    "rc = 0 \<Longrightarrow> bitvec_set p' = insert i (bitvec_set p)"
proof -
  have "fuel_need 4 p \<le> BV_FUEL" by (simp add: fuel_need_def BV_FUEL_def)
  then obtain rc p' al' where r: "set_loop BV_FUEL al p (i - 1) = Some (rc, p', al')" "sets_to 4 {i - 1} p (rc, p', al')"
    using set_loop_ok [of 4 p "i - 1" BV_FUEL al] assms in_range_pred [of i "iSize p"]
    unfolding bitvec_ok_def by (metis prod_cases3)
  have "bitvec_set p' \<subseteq> insert i (bitvec_set p)" "rc = 0 \<Longrightarrow> bitvec_set p' = insert i (bitvec_set p)"
    using r(2) by (auto simp: sets_to_def bitvec_set_def)
  then show thesis using that r by (auto simp: sqlite3BitvecSet_def bitvec_ok_def sets_to_def)
qed

lemma bitvec_Clear:
  assumes "bitvec_ok p" "0 < i" "i \<le> iSize p"
  obtains p' where "sqlite3BitvecClear (Some p) i = Some (Some p')" "bitvec_ok p'" "iSize p' = iSize p"
    "bitvec_set p' = bitvec_set p - {i}"
proof -
  obtain p' where r: "clear_loop BV_FUEL p (i - 1) = Some p'" "bv_ok 4 p'" "iSize p' = iSize p" "bv_bits 4 p' = bv_bits 4 p - {i - 1}"
    using clear_loop_ok [of 4 p "i - 1" BV_FUEL] assms in_range_pred [of i "iSize p"]
    by (auto simp: bitvec_ok_def BV_FUEL_def)
  have "bitvec_set p' = bitvec_set p - {i}" unfolding bitvec_set_def r(4) by (auto simp: pred_in)
  then show thesis using that r by (simp add: sqlite3BitvecClear_def bitvec_ok_def)
qed

lemma bitvec_Create: "bitvec_ok (sqlite3BitvecCreate s)" "bitvec_set (sqlite3BitvecCreate s) = {}"
  using create_ok [OF fits_4] create_bits by (simp_all add: bitvec_ok_def bitvec_set_def)

text \<open>The contract of the containers, on the code's operations: a set that returned \<open>SQLITE_OK\<close>,
  whichever allocations it needed, and a clear.\<close>

definition bv_puts :: "bitvec \<Rightarrow> u32 \<Rightarrow> bitvec \<Rightarrow> bool" where
  "bv_puts p i p' \<longleftrightarrow> (\<exists>al al'. sqlite3BitvecSet al (Some p) i = Some (0, Some p', al'))"

definition bv_dels :: "bitvec \<Rightarrow> u32 \<Rightarrow> bitvec \<Rightarrow> bool" where
  "bv_dels p i p' \<longleftrightarrow> sqlite3BitvecClear (Some p) i = Some (Some p')"

definition bv_space :: "bitvec \<Rightarrow> u32 set" where
  "bv_space p = {i. 0 < i \<and> i \<le> iSize p}"

interpretation bv: number_set bitvec_ok bitvec_set bv_space bv_puts bv_dels
  "\<lambda>p i. sqlite3BitvecTest (Some p) i = Some True"
proof
  fix p i p'
  assume ok: "bitvec_ok p" and i: "i \<in> bv_space p"
  then have i: "0 < i" "i \<le> iSize p" by (simp_all add: bv_space_def)
  show "bitvec_ok p' \<and> bv_space p' = bv_space p \<and> bitvec_set p' = insert i (bitvec_set p)" if pu: "bv_puts p i p'"
  proof -
    obtain al al' where "sqlite3BitvecSet al (Some p) i = Some (0, Some p', al')" using pu by (auto simp: bv_puts_def)
    then show ?thesis by - (rule bitvec_Set [OF ok i, of al], simp add: bv_space_def)
  qed
  show "bitvec_ok p' \<and> bv_space p' = bv_space p \<and> bitvec_set p' = bitvec_set p - {i}" if "bv_dels p i p'"
    using that by - (rule bitvec_Clear [OF ok i], simp add: bv_space_def bv_dels_def)
  show "sqlite3BitvecTest (Some p) i = Some True \<longleftrightarrow> i \<in> bitvec_set p"
    using bitvec_Test [OF ok] by simp
qed

text \<open>
  C19. A bitmap made by \<open>sqlite3BitvecCreate\<close> for page numbers up to any \<open>sz\<close> is the set of pages:
  after any sequence of successful sets and of clears of numbers from 1 to \<open>sz\<close>, and through every
  change of representation on the way, \<open>sqlite3BitvecTest\<close> answers, for every number, whether the last
  operation on it was a set.
\<close>

theorem bitvec_is_set:
  assumes "set_run bv_puts bv_dels (sqlite3BitvecCreate sz) ops p"
    and "\<forall>i\<in>op_key ` set ops. 0 < i \<and> i \<le> sz"
  shows "sqlite3BitvecTest (Some p) i = Some (i \<in> foldl op_effect {} ops) \<and> sqlite3BitvecSize p = sz"
proof -
  have "op_key ` set ops \<subseteq> bv_space (sqlite3BitvecCreate sz)"
    using assms(2) by (auto simp: bv_space_def sqlite3BitvecCreate_def)
  note r = bv.run_ok [OF assms(1) bitvec_Create(1) this]
  have z: "bv_space q = {i. 0 < i \<and> i \<le> iSize q}" for q by (simp add: bv_space_def)
  have "iSize p = sz"
  proof -
    have "i \<le> iSize p \<longleftrightarrow> i \<le> sz" for i
      using r unfolding z by (cases "i = 0") (auto simp: sqlite3BitvecCreate_def set_eq_iff word_neq_0_conv)
    then show ?thesis by (metis order_antisym order_refl)
  qed
  then show ?thesis using r bitvec_Test [of p i] by (simp add: bitvec_Create sqlite3BitvecSize_def)
qed

theorem bitvec_is_set_witness:
  "\<exists>p. set_run bv_puts bv_dels (sqlite3BitvecCreate 5000) [Put 4000, Put 7, Del 4000] p \<and>
     sqlite3BitvecTest (Some p) 7 = Some True \<and> sqlite3BitvecTest (Some p) 4000 = Some False"
proof -
  have range: "\<forall>i\<in>op_key ` set [Put (4000 :: u32), Put 7, Del 4000]. 0 < i \<and> i \<le> 5000" by simp
  define p0 where "p0 = sqlite3BitvecCreate 5000"
  define p1 where "p1 = set_end p0 31 4000"
  define p2 where "p2 = set_end p1 6 7"
  have "sqlite3BitvecSet [] (Some p0) 4000 = Some (0, Some p1, [])"
    unfolding sqlite3BitvecSet_def BV_FUEL_Suc set_loop.simps
    by (simp add: p1_def p0_def sqlite3BitvecCreate_def
        bv_sizes BITVEC_HASH_def)
  then have s1: "bv_puts p0 4000 p1" by (auto simp: bv_puts_def)
  have "sqlite3BitvecSet [] (Some p1) 7 = Some (0, Some p2, [])"
    unfolding sqlite3BitvecSet_def BV_FUEL_Suc set_loop.simps
    by (simp add: p2_def p1_def p0_def sqlite3BitvecCreate_def
        bv_sizes BITVEC_HASH_def set_end_def)
  then have s2: "bv_puts p1 7 p2" by (auto simp: bv_puts_def)
  have sz: "iSize p0 = 5000" "iSize p1 = 5000" "iSize p2 = 5000"
    by (simp_all add: p2_def p1_def p0_def set_end_def sqlite3BitvecCreate_def)
  have "bitvec_ok p2"
    using bv.puts_ok [OF _ _ s1] bv.puts_ok [OF _ _ s2] bitvec_Create(1) [of 5000] sz(1,2)
    by (simp add: p0_def [symmetric] bv_space_def) 
  then obtain p3 where "bv_dels p2 4000 p3" using bitvec_Clear [of p2 4000] sz(3) by (auto simp: bv_dels_def)
  with s1 s2 have run: "set_run bv_puts bv_dels p0 [Put 4000, Put 7, Del 4000] p3"
    by (meson set_run.intros)
  show ?thesis
    using run bitvec_is_set [OF run [unfolded p0_def] range, of 7] bitvec_is_set [OF run [unfolded p0_def] range, of 4000]
    unfolding p0_def by auto
qed

subsection \<open>The built-in test cannot fail\<close>

lemma TEST_SET:
  assumes "i div 8 < length V"
  shows "TESTBIT (SETBIT V i) j \<longleftrightarrow> j = i \<or> TESTBIT V j" "TESTBIT (CLEARBIT V i) j \<longleftrightarrow> j \<noteq> i \<and> TESTBIT V j"
proof -
  have t: "w AND push_bit m 1 \<noteq> 0 \<longleftrightarrow> bit w m" for w :: u8 and m
    by (simp add: push_bit_of_1 and_exp_eq_0_iff_not_bit)
  have e: "j = i \<longleftrightarrow> j div 8 = i div 8 \<and> j mod 8 = i mod 8" by (metis div_mod_decomp)
  have p: "bit (push_bit (i mod 8) 1 :: u8) (j mod 8) \<longleftrightarrow> j mod 8 = i mod 8"
    by (auto simp: push_bit_of_1 bit_simps)
  show "TESTBIT (SETBIT V i) j \<longleftrightarrow> j = i \<or> TESTBIT V j"
    using assms p unfolding TESTBIT_def SETBIT_def t e by (cases "j div 8 = i div 8") (auto simp: bit_or_iff)
  show "TESTBIT (CLEARBIT V i) j \<longleftrightarrow> j \<noteq> i \<and> TESTBIT V j"
    using assms p unfolding TESTBIT_def CLEARBIT_def t e by (cases "j div 8 = i div 8") (auto simp: bit_and_iff bit_not_iff)
qed

text \<open>The linear array and the bitmap agree.\<close>

definition in_step :: "u32 \<Rightarrow> u8 list \<Rightarrow> bitvec \<Rightarrow> bool" where
  "in_step sz V p \<longleftrightarrow> bitvec_ok p \<and> iSize p = sz \<and> length V = (unat sz + 7) div 8 + 1 \<and>
     (\<forall>i. 0 < i \<and> i \<le> sz \<longrightarrow> (TESTBIT V (unat i) \<longleftrightarrow> i \<in> bitvec_set p))"

lemma in_step_index:
  assumes "in_step sz V p" "i \<le> sz" shows "unat i div 8 < length V"
proof -
  have "unat i \<le> unat sz" using assms(2) by (simp add: word_le_nat_alt)
  then have "unat i div 8 \<le> (unat sz + 7) div 8" by (intro div_le_mono) simp
  then show ?thesis using assms(1) by (simp add: in_step_def)
qed

lemma in_step_set:
  assumes "in_step sz V p" "0 < i" "i \<le> sz"
  obtains rc p' al' where "sqlite3BitvecSet al (Some p) i = Some (rc, Some p', al')" "rc = 0 \<or> rc = SQLITE_NOMEM"
    "rc = 0 \<Longrightarrow> in_step sz (SETBIT V (unat i)) p'"
proof -
  have ok: "bitvec_ok p" "i \<le> iSize p" using assms by (simp_all add: in_step_def)
  obtain rc p' al' where r: "sqlite3BitvecSet al (Some p) i = Some (rc, Some p', al')" "bitvec_ok p'" "iSize p' = iSize p"
      "rc = 0 \<or> rc = SQLITE_NOMEM" "bitvec_set p' \<subseteq> insert i (bitvec_set p)"
      "rc = 0 \<Longrightarrow> bitvec_set p' = insert i (bitvec_set p)"
    by (rule bitvec_Set [OF ok(1) assms(2) ok(2), of al]) blast
  have "in_step sz (SETBIT V (unat i)) p'" if "rc = 0"
    using assms(1) r(2,3) r(6) [OF that] TEST_SET(1) [OF in_step_index [OF assms(1,3)]]
    by (auto simp: in_step_def SETBIT_def [of V "unat i", THEN arg_cong [where f = length]]
        dest!: unsigned_word_eqI)
  then show thesis using that r(1,4) by blast
qed

lemma in_step_clear:
  assumes "in_step sz V p" "0 < i" "i \<le> sz"
  obtains p' where "sqlite3BitvecClear (Some p) i = Some (Some p')" "in_step sz (CLEARBIT V (unat i)) p'"
proof -
  have ok: "bitvec_ok p" "i \<le> iSize p" using assms by (simp_all add: in_step_def)
  obtain p' where r: "sqlite3BitvecClear (Some p) i = Some (Some p')" "bitvec_ok p'" "iSize p' = iSize p"
      "bitvec_set p' = bitvec_set p - {i}"
    by (rule bitvec_Clear [OF ok(1) assms(2) ok(2)])
  have "in_step sz (CLEARBIT V (unat i)) p'"
    using assms(1) r(2-4) TEST_SET(2) [OF in_step_index [OF assms(1,3)]]
    by (auto simp: in_step_def CLEARBIT_def [of V "unat i", THEN arg_cong [where f = length]]
        dest!: unsigned_word_eqI)
  then show thesis using that r(1) by blast
qed

text \<open>The instructions of a test program.\<close>

type_synonym bv_instr = "u32 \<times> u32 \<times> u32 \<times> u32"

fun encode_instr :: "bv_instr \<Rightarrow> u32 list" where
  "encode_instr (op, n, s, x) = (if op = 1 \<or> op = 2 \<or> op = 5 then [op, n, s, x] else [op, n])"

definition encode_program :: "bv_instr list \<Rightarrow> u32 list" where
  "encode_program is = concat (map encode_instr is) @ [0]"

text \<open>Every opcode but 0 and 5, with a count that can be counted down.\<close>

fun good_instr :: "bv_instr \<Rightarrow> bool" where
  "good_instr (op, n, s, x) \<longleftrightarrow> op \<noteq> 0 \<and> op \<noteq> 5 \<and> - (2 ^ 31) < sint n"

fun instr_runs :: "bv_instr \<Rightarrow> nat" where
  "instr_runs (op, n, s, x) = max 1 (nat (sint n))"

definition program_runs :: "bv_instr list \<Rightarrow> nat" where
  "program_runs is = sum_list (map instr_runs is)"

definition test_at :: "u32 \<Rightarrow> u32 list \<Rightarrow> bv_instr list \<Rightarrow> bv_test \<Rightarrow> bool" where
  "test_at sz pre is t \<longleftrightarrow> t_aOp t = pre @ encode_program is \<and> t_pc t = length pre \<and> in_step sz (t_pV t) (t_bv t)"

lemma words_at:
  "(pre @ xs) ! length pre = hd (xs @ [undefined])" if "xs \<noteq> []"
  using that by (cases xs) (simp_all add: nth_append)

lemma picked:
  fixes r sz :: u32
  assumes "0 < sz" shows "0 < (r AND 0x7FFFFFFF) mod sz + 1 \<and> (r AND 0x7FFFFFFF) mod sz + 1 \<le> sz"
proof -
  let ?j = "(r AND 0x7FFFFFFF) mod sz"
  have "?j < sz" using assms by (simp add: word_mod_less_divisor)
  then show ?thesis using succ_nonzero [of ?j sz] inc_le [of ?j sz] by (simp add: word_neq_0_conv)
qed

text \<open>What one round does to the numbers: the count goes down, and while it stays positive the round
  is repeated.\<close>

lemma step_shape:
  assumes at: "test_at sz pre ((op, n, s, x) # is) t" and g: "op \<noteq> 5"
  obtains s' rnd r where "bv_test_step sz t =
    (let t' = t\<lparr>t_aOp := pre @ encode_instr (op, n - 1, s', x) @ encode_program is,
               t_pc := (if 0 < sint (n - 1) then length pre else length (pre @ encode_instr (op, n - 1, s', x))),
               t_rnd := rnd\<rparr>;
         i = (r AND 0x7FFFFFFF) mod sz + 1
     in if op AND 1 \<noteq> 0
        then do { (rc, p, al) \<leftarrow> sqlite3BitvecSet (t_al t) (Some (t_bv t)) i;
                  Some (rc, t'\<lparr>t_pV := SETBIT (t_pV t) (unat i), t_bv := the p, t_al := al\<rparr>) }
        else do { p \<leftarrow> sqlite3BitvecClear (Some (t_bv t)) i;
                  Some (0, t'\<lparr>t_pV := CLEARBIT (t_pV t) (unat i), t_bv := the p\<rparr>) })"
proof (cases "op = 1 \<or> op = 2")
  case True
  then have "t_aOp t = pre @ op # n # s # x # encode_program is" "t_pc t = length pre"
    using at by (auto simp: test_at_def encode_program_def)
  then show thesis
    using True g by (intro that [where s' = "s + x" and rnd = "t_rnd t" and r = "s - 1"])
      (simp add: bv_test_step_def Let_def nth_append list_update_append numeral_eq_Suc)
next
  case False
  then have "t_aOp t = pre @ op # n # encode_program is" "t_pc t = length pre"
    using at g by (auto simp: test_at_def encode_program_def)
  moreover obtain i rs where "random_i (t_rnd t) = (i, rs)" by fastforce
  ultimately show thesis
    using False g by (intro that [where s' = s and rnd = "snd (random_i (t_rnd t))" and r = "fst (random_i (t_rnd t))"])
      (simp add: bv_test_step_def Let_def nth_append list_update_append numeral_eq_Suc)
qed

lemma step_ok:
  assumes at: "test_at sz pre ((op, n, s, x) # is) t" and g: "good_instr (op, n, s, x)" and sz: "0 < sz"
  obtains rc t' s' where "bv_test_step sz t = Some (rc, t')" "rc = 0 \<or> rc = SQLITE_NOMEM"
    "False \<notin> set (t_al t) \<Longrightarrow> rc = 0 \<and> False \<notin> set (t_al t')"
    "rc = 0 \<Longrightarrow> (if 0 < sint (n - 1) then test_at sz pre ((op, n - 1, s', x) # is) t'
                else test_at sz (pre @ encode_instr (op, n - 1, s', x)) is t')"
proof -
  have "op \<noteq> 5" using g by simp
  then obtain s' rnd r where sh: "bv_test_step sz t =
    (let t' = t\<lparr>t_aOp := pre @ encode_instr (op, n - 1, s', x) @ encode_program is,
               t_pc := (if 0 < sint (n - 1) then length pre else length (pre @ encode_instr (op, n - 1, s', x))),
               t_rnd := rnd\<rparr>;
         i = (r AND 0x7FFFFFFF) mod sz + 1
     in if op AND 1 \<noteq> 0
        then do { (rc, p, al) \<leftarrow> sqlite3BitvecSet (t_al t) (Some (t_bv t)) i;
                  Some (rc, t'\<lparr>t_pV := SETBIT (t_pV t) (unat i), t_bv := the p, t_al := al\<rparr>) }
        else do { p \<leftarrow> sqlite3BitvecClear (Some (t_bv t)) i;
                  Some (0, t'\<lparr>t_pV := CLEARBIT (t_pV t) (unat i), t_bv := the p\<rparr>) })"
    using step_shape [OF at] by metis
  define i where "i = (r AND 0x7FFFFFFF) mod sz + 1"
  have i: "0 < i" "i \<le> sz" using picked [OF sz, of r] by (simp_all add: i_def)
  have agree: "in_step sz (t_pV t) (t_bv t)" using at by (simp add: test_at_def)
  have e: "encode_program ((op, n - 1, s', x) # is) = encode_instr (op, n - 1, s', x) @ encode_program is"
    by (simp add: encode_program_def)
  define u where "u = t\<lparr>t_aOp := pre @ encode_instr (op, n - 1, s', x) @ encode_program is,
      t_pc := (if 0 < sint (n - 1) then length pre else length (pre @ encode_instr (op, n - 1, s', x))), t_rnd := rnd\<rparr>"
  have shu: "bv_test_step sz t =
    (if op AND 1 \<noteq> 0
     then do { (rc, p, al) \<leftarrow> sqlite3BitvecSet (t_al t) (Some (t_bv t)) i;
               Some (rc, u\<lparr>t_pV := SETBIT (t_pV t) (unat i), t_bv := the p, t_al := al\<rparr>) }
     else do { p \<leftarrow> sqlite3BitvecClear (Some (t_bv t)) i;
               Some (0, u\<lparr>t_pV := CLEARBIT (t_pV t) (unat i), t_bv := the p\<rparr>) })"
    unfolding sh Let_def u_def i_def ..
  have there: "if 0 < sint (n - 1) then test_at sz pre ((op, n - 1, s', x) # is) (u\<lparr>t_pV := V, t_bv := p\<rparr>)
      else test_at sz (pre @ encode_instr (op, n - 1, s', x)) is (u\<lparr>t_pV := V, t_bv := p\<rparr>)" if "in_step sz V p" for V p
    using that by (simp add: test_at_def u_def e del: encode_instr.simps)
  have more: "test_at sz pre is (v\<lparr>t_al := al\<rparr>) \<longleftrightarrow> test_at sz pre is v" for v pre "is" al
    by (simp add: test_at_def)
  have ual: "t_al u = t_al t" by (simp add: u_def)
  show thesis
  proof (cases "op AND 1 = 0")
    case True
    obtain p' where "sqlite3BitvecClear (Some (t_bv t)) i = Some (Some p')" "in_step sz (CLEARBIT (t_pV t) (unat i)) p'"
      by (rule in_step_clear [OF agree i])
    then show thesis
      using True by (intro that [of 0 "u\<lparr>t_pV := CLEARBIT (t_pV t) (unat i), t_bv := p'\<rparr>" s', OF _ _ _ there])
        (simp_all add: shu ual)
  next
    case False
    obtain rc p' al' where r: "sqlite3BitvecSet (t_al t) (Some (t_bv t)) i = Some (rc, Some p', al')"
        "rc = 0 \<or> rc = SQLITE_NOMEM" "rc = 0 \<Longrightarrow> in_step sz (SETBIT (t_pV t) (unat i)) p'"
      by (rule in_step_set [OF agree i, of "t_al t"]) blast
    have "False \<notin> set (t_al t) \<Longrightarrow> rc = 0 \<and> False \<notin> set al'"
      using r(1) set_loop_mem by (auto simp: sqlite3BitvecSet_def bind_eq_Some_conv)
    then show thesis
      using False r there [of "SETBIT (t_pV t) (unat i)" p']
      by (intro that [of rc "u\<lparr>t_pV := SETBIT (t_pV t) (unat i), t_bv := p', t_al := al'\<rparr>" s'])
        (simp_all add: shu more del: encode_instr.simps)
  qed
qed

lemma sint_pred: "- (2 ^ 31) < sint n \<Longrightarrow> sint (n - 1 :: u32) = sint n - 1"
proof -
  assume n: "- (2 ^ 31) < sint n"
  have "sint n < 2 ^ 31" using sint_lt [of n] by simp
  then show ?thesis using n by (simp add: sint_word_ariths signed_take_bit_int_eq_self)
qed

lemma run_program:
  "program_runs is < f \<Longrightarrow> \<forall>ins\<in>set is. good_instr ins \<Longrightarrow> test_at sz pre is t \<Longrightarrow> 0 < sz \<Longrightarrow>
   \<exists>ok t'. bv_test_run f sz t = Some (ok, t') \<and> (ok \<longrightarrow> in_step sz (t_pV t') (t_bv t')) \<and>
     (False \<notin> set (t_al t) \<longrightarrow> ok)"
proof (induction f arbitrary: "is" pre t)
  case (Suc f)
  show ?case
  proof (cases "is")
    case Nil
    then have "t_aOp t ! t_pc t = 0" using Suc.prems(3) by (simp add: test_at_def encode_program_def)
    then show ?thesis using Suc.prems(3) by (intro exI [of _ True]) (simp add: test_at_def)
  next
    case (Cons ins is')
    obtain op n s x where ins: "ins = (op, n, s, x)" by (cases ins)
    have g: "good_instr (op, n, s, x)" and at: "test_at sz pre ((op, n, s, x) # is') t"
      using Suc.prems Cons ins by auto
    have go: "t_aOp t ! t_pc t \<noteq> 0"
      using at g by (auto simp: test_at_def encode_program_def)
    obtain rc t' s' where st: "bv_test_step sz t = Some (rc, t')" "rc = 0 \<or> rc = SQLITE_NOMEM"
        "False \<notin> set (t_al t) \<Longrightarrow> rc = 0 \<and> False \<notin> set (t_al t')"
        "rc = 0 \<Longrightarrow> (if 0 < sint (n - 1) then test_at sz pre ((op, n - 1, s', x) # is') t'
                else test_at sz (pre @ encode_instr (op, n - 1, s', x)) is' t')"
      by (rule step_ok [OF at g Suc.prems(4)]) blast
    show ?thesis
    proof (cases "rc = 0")
      case False
      then show ?thesis using go st by auto
    next
      case True
      have runs: "instr_runs (op, n, s, x) + program_runs is' < Suc f"
        using Suc.prems(1) Cons ins by (simp add: program_runs_def)
      have good: "\<forall>ins\<in>set is'. good_instr ins" using Suc.prems(2) Cons by simp
      have p: "sint (n - 1) = sint n - 1" using g sint_pred by simp
      have "\<exists>ok t''. bv_test_run f sz t' = Some (ok, t'') \<and> (ok \<longrightarrow> in_step sz (t_pV t'') (t_bv t'')) \<and>
          (False \<notin> set (t_al t') \<longrightarrow> ok)"
      proof (cases "0 < sint (n - 1)")
        case again: True
        have "good_instr (op, n - 1, s', x)" using g again p by simp
        then show ?thesis
          using Suc.IH [of "(op, n - 1, s', x) # is'" pre t'] st(4) True again runs good p Suc.prems(4)
          by (simp add: program_runs_def)
      next
        case False
        then show ?thesis
          using Suc.IH [of is' "pre @ encode_instr (op, n - 1, s', x)" t'] st(4) True runs good Suc.prems(4) by simp
      qed
      then show ?thesis using go st(1,3) True by auto
    qed
  qed
qed simp

lemma compare_ok:
  assumes "in_step sz V p" "\<forall>i\<in>set is. 0 < i \<and> i \<le> unat sz"
  shows "compare_bits V p is rc = Some rc"
  using assms(2)
proof (induction "is")
  case (Cons i "is")
  have i: "0 < i" "i \<le> unat sz" using Cons.prems by simp_all
  have u: "unat (word_of_nat i :: u32) = i"
    using i(2) unsigned_less [of sz, where ?'a = nat] by (simp add: unat_of_nat)
  then have "0 < (word_of_nat i :: u32)" "(word_of_nat i :: u32) \<le> sz"
    using i by (simp_all add: word_less_nat_alt word_le_nat_alt)
  then have "TESTBIT V i \<longleftrightarrow> word_of_nat i \<in> bitvec_set p" using assms(1) u by (metis in_step_def)
  then show ?case using Cons bitvec_Test [of p] assms(1) by (simp add: in_step_def)
qed simp

text \<open>
  The built-in test never finds a discrepancy. For every size, every program of instructions
  but the fault-injecting opcode 5, all random numbers and whichever allocations fail,
  \<open>sqlite3BitvecBuiltinTest\<close> comes to an end within one round per counted bit and returns 0, or -1 for
  lack of memory; with enough memory it returns 0.
\<close>

theorem builtin_test_passes:
  assumes "0 < sz" and "\<forall>ins\<in>set is. good_instr ins"
  shows "\<exists>rc. sqlite3BitvecBuiltinTest (program_runs is + 1) rnd al sz (encode_program is) = Some rc \<and>
    (rc = 0 \<or> rc = - 1) \<and> (False \<notin> set al \<longrightarrow> rc = 0)"
proof -
  obtain a al1 b al2 c al3 where m: "malloc_ok al = (a, al1)" "malloc_ok al1 = (b, al2)" "malloc_ok al2 = (c, al3)"
    by (metis surj_pair)
  have enough: "a \<and> b \<and> c \<and> False \<notin> set al3" if "False \<notin> set al"
    using malloc_mem [OF m(1) that] malloc_mem [OF m(2)] malloc_mem [OF m(3)] by simp
  let ?t = "\<lparr>t_aOp = encode_program is, t_pc = 0, t_rnd = rnd, t_pV = replicate ((unat sz + 7) div 8 + 1) 0,
      t_bv = sqlite3BitvecCreate sz, t_al = al3\<rparr>"
  have "unat i div 8 < (unat sz + 7) div 8 + 1" if "i \<le> sz" for i
    using that by (simp add: word_le_nat_alt div_le_mono less_Suc_eq_le)
  then have "\<not> TESTBIT (replicate ((unat sz + 7) div 8 + 1) 0) (unat i)" if "i \<le> sz" for i
    using that by (simp add: TESTBIT_def del: replicate_Suc replicate.simps)
  moreover have "iSize (sqlite3BitvecCreate sz) = sz" by (simp add: sqlite3BitvecCreate_def)
  ultimately have "test_at sz [] is ?t"
    using bitvec_Create [of sz] by (simp add: test_at_def in_step_def del: replicate_Suc replicate.simps)
  then obtain ok t' where r: "bv_test_run (program_runs is + 1) sz ?t = Some (ok, t')"
      "ok \<longrightarrow> in_step sz (t_pV t') (t_bv t')" "False \<notin> set al3 \<longrightarrow> ok"
    using run_program [of "is" "program_runs is + 1" sz "[]" ?t] assms by auto
  show ?thesis
  proof (cases "a \<and> b \<and> c \<and> ok")
    case False
    then show ?thesis
      using m r(1) enough r(3)
      by (auto simp: sqlite3BitvecBuiltinTest_def sqlite3BitvecSet_def sqlite3BitvecClear_def)
  next
    case True
    then have agree: "in_step sz (t_pV t') (t_bv t')" using r(2) by simp
    have out: "sz + 1 \<notin> bitvec_set (t_bv t')" "0 \<notin> bitvec_set (t_bv t')"
      using agree by (auto simp: bitvec_set_def pred_in bv_bits_def in_step_def not_less)
    have "\<forall>i\<in>set [1..<unat sz + 1]. 0 < i \<and> i \<le> unat sz" by auto
    note cmp = compare_ok [OF agree this]
    show ?thesis
      using True m r(1) cmp out agree
      by (simp add: sqlite3BitvecBuiltinTest_def sqlite3BitvecSet_def sqlite3BitvecClear_def bitvec_Test in_step_def
          sqlite3BitvecTest_def [of None] rc_of_def sqlite3BitvecSize_def)
  qed
qed

theorem builtin_test_passes_witness:
  "sqlite3BitvecBuiltinTest 4 [] [] 400 (encode_program [(1, 2, 3, 100), (4, 1, 0, 0)]) = Some 0"
proof -
  have "program_runs [(1, 2, 3, 100), (4, 1, 0, 0)] + 1 = 4" by (simp add: program_runs_def)
  then show ?thesis using builtin_test_passes [of 400 "[(1, 2, 3, 100), (4, 1, 0, 0)]" "[]" "[]"] by simp
qed

end
