(* ===== verification/SqlRowSet.thy ===== *)
theory SqlRowSet
  imports SetContract
begin

section \<open>The row set of the bundled SQLite (rowset.c)\<close>

text \<open>
  A set of rowids: inserted entries go to a list, a test with a new batch number sorts the list and
  merges it into a forest of balanced search trees, and after the inserts the elements can be taken
  out in order. An entry is its rowid; a list linked by \<open>pRight\<close> is a list, a tree a tree, and the
  forest the list of the \<open>pLeft\<close> trees of its entries. The entries come from chunks whose allocation
  may fail; rowids are 64-bit words in two's complement.
\<close>

subsection \<open>Data and operations\<close>

type_synonym i64 = "64 word"

datatype rowtree = RLeaf | RNode rowtree i64 rowtree

definition ROWSET_ALLOCATION_SIZE :: nat where "ROWSET_ALLOCATION_SIZE = 1024"
definition sizeof_entry :: nat where "sizeof_entry = 24"
definition sizeof_RowSet :: nat where "sizeof_RowSet = 56"
definition ROWSET_ENTRY_PER_CHUNK :: nat where
  "ROWSET_ENTRY_PER_CHUNK = (ROWSET_ALLOCATION_SIZE - 8) div sizeof_entry"

record rowset =
  rs_chunks :: nat
  pEntry :: "i64 list"
  pLast :: "i64 option"
  pForest :: "rowtree list"
  nFresh :: nat
  rs_sorted :: bool
  rs_next :: bool
  iBatch :: "32 word"

text \<open>\<open>n\<close> is the size of the block that the allocator really returned.\<close>

definition sqlite3RowSetInit :: "bool list \<Rightarrow> nat \<Rightarrow> rowset option \<times> bool list" where
  "sqlite3RowSetInit al n =
     (case malloc_ok al of
        (False, al) \<Rightarrow> (None, al)
      | (True, al) \<Rightarrow>
          (Some \<lparr>rs_chunks = 0, pEntry = [], pLast = None, pForest = [],
                 nFresh = ((n - sizeof_RowSet) div sizeof_entry) mod 2 ^ 16,
                 rs_sorted = True, rs_next = False, iBatch = 0\<rparr>, al))"

definition sqlite3RowSetClear :: "rowset \<Rightarrow> rowset" where
  "sqlite3RowSetClear p = p\<lparr>rs_chunks := 0, nFresh := 0, pEntry := [], pLast := None, pForest := [],
     rs_sorted := True, rs_next := False\<rparr>"

definition rowSetEntryAlloc :: "bool list \<Rightarrow> rowset \<Rightarrow> bool \<times> rowset \<times> bool list" where
  "rowSetEntryAlloc al p =
     (if nFresh p = 0
      then case malloc_ok al of
             (False, al) \<Rightarrow> (False, p, al)
           | (True, al) \<Rightarrow> (True, p\<lparr>rs_chunks := rs_chunks p + 1, nFresh := ROWSET_ENTRY_PER_CHUNK - 1\<rparr>, al)
      else (True, p\<lparr>nFresh := nFresh p - 1\<rparr>, al))"

definition sqlite3RowSetInsert :: "bool list \<Rightarrow> rowset \<Rightarrow> i64 \<Rightarrow> rowset \<times> bool list" where
  "sqlite3RowSetInsert al p rowid =
     (case rowSetEntryAlloc al p of
        (False, p, al) \<Rightarrow> (p, al)
      | (True, p, al) \<Rightarrow>
          ((case pLast p of
              Some l \<Rightarrow> p\<lparr>rs_sorted := (if sint rowid \<le> sint l then False else rs_sorted p),
                         pEntry := pEntry p @ [rowid], pLast := Some rowid\<rparr>
            | None \<Rightarrow> p\<lparr>pEntry := [rowid], pLast := Some rowid\<rparr>), al))"

text \<open>The merge of two lists that are not empty; an equal pair leaves one entry.\<close>

fun rowSetEntryMerge :: "i64 list \<Rightarrow> i64 list \<Rightarrow> i64 list" where
  "rowSetEntryMerge (a # as) (b # bs) =
     (if sint a \<le> sint b
      then (if sint a < sint b then [a] else []) @
           (if as = [] then b # bs else rowSetEntryMerge as (b # bs))
      else b # (if bs = [] then a # as else rowSetEntryMerge (a # as) bs))"
| "rowSetEntryMerge [] bs = bs"
| "rowSetEntryMerge as [] = as"

text \<open>The loop over the buckets; past the last bucket the code would leave the array, here \<open>None\<close>.\<close>

fun bucket_add :: "i64 list list \<Rightarrow> i64 list \<Rightarrow> i64 list list option" where
  "bucket_add [] pIn = None"
| "bucket_add (b # aBucket) pIn =
     (if b \<noteq> [] then map_option (\<lambda>bs. [] # bs) (bucket_add aBucket (rowSetEntryMerge b pIn))
      else Some (pIn # aBucket))"

fun sort_loop :: "i64 list list \<Rightarrow> i64 list \<Rightarrow> i64 list list option" where
  "sort_loop aBucket [] = Some aBucket"
| "sort_loop aBucket (v # pIn) =
     (case bucket_add aBucket [v] of None \<Rightarrow> None | Some aBucket \<Rightarrow> sort_loop aBucket pIn)"

fun join_buckets :: "i64 list \<Rightarrow> i64 list list \<Rightarrow> i64 list" where
  "join_buckets pIn [] = pIn"
| "join_buckets pIn (b # bs) =
     (if b = [] then join_buckets pIn bs
      else join_buckets (if pIn \<noteq> [] then rowSetEntryMerge pIn b else b) bs)"

definition n_buckets :: nat where "n_buckets = 40"

definition rowSetEntrySort :: "i64 list \<Rightarrow> i64 list option" where
  "rowSetEntrySort pIn =
     map_option (\<lambda>bs. join_buckets (hd bs) (tl bs)) (sort_loop (replicate n_buckets []) pIn)"

fun rowSetTreeToList :: "rowtree \<Rightarrow> i64 list" where
  "rowSetTreeToList RLeaf = []"
| "rowSetTreeToList (RNode l v r) =
     (if l \<noteq> RLeaf then rowSetTreeToList l @ [v] else [v]) @ (if r \<noteq> RLeaf then rowSetTreeToList r else [])"

fun rowSetNDeepTree :: "i64 list \<Rightarrow> nat \<Rightarrow> rowtree \<times> i64 list" where
  "rowSetNDeepTree [] iDepth = (RLeaf, [])"
| "rowSetNDeepTree (v # vs) iDepth =
     (if iDepth > 1
      then case rowSetNDeepTree (v # vs) (iDepth - 1) of
             (l, []) \<Rightarrow> (l, [])
           | (l, y # ys) \<Rightarrow> (case rowSetNDeepTree ys (iDepth - 1) of (r, zs) \<Rightarrow> (RNode l y r, zs))
      else (RNode RLeaf v RLeaf, vs))"

lemma NDeepTree_shorter: "length (snd (rowSetNDeepTree vs d)) \<le> length vs"
proof (induction vs d rule: rowSetNDeepTree.induct)
  case (2 v vs d)
  show ?case
  proof (cases "d > 1")
    case True
    obtain l ys where l: "rowSetNDeepTree (v # vs) (d - 1) = (l, ys)" by fastforce
    then have le: "length ys \<le> length (v # vs)" using 2(1) [OF True] by simp
    show ?thesis
    proof (cases ys)
      case (Cons y ys')
      obtain r zs where r: "rowSetNDeepTree ys' (d - 1) = (r, zs)" by fastforce
      have "length zs \<le> length ys'" using 2(2) [OF True l [symmetric] Cons] r by simp
      then show ?thesis using True l r le Cons by simp
    qed (use True l in simp)
  qed simp
qed simp

function list_to_tree :: "nat \<Rightarrow> rowtree \<Rightarrow> i64 list \<Rightarrow> rowtree" where
  "list_to_tree iDepth p [] = p"
| "list_to_tree iDepth p (v # vs) =
     (case rowSetNDeepTree vs iDepth of (r, rest) \<Rightarrow> list_to_tree (iDepth + 1) (RNode p v r) rest)"
  by pat_completeness auto
termination
proof (relation "measure (\<lambda>(d, p, vs). length vs)")
  fix d :: nat and p r rest and v :: i64 and vs
  assume "(r, rest) = rowSetNDeepTree vs d"
  then have "rest = snd (rowSetNDeepTree vs d)" by (metis snd_conv)
  then have "length rest \<le> length vs" using NDeepTree_shorter by blast
  then show "((d + 1, RNode p v r, rest), d, p, v # vs) \<in> measure (\<lambda>(d, p, vs). length vs)" by simp
qed simp

definition rowSetListToTree :: "i64 list \<Rightarrow> rowtree" where
  "rowSetListToTree pList = (case pList of [] \<Rightarrow> RLeaf | v # vs \<Rightarrow> list_to_tree 1 (RNode RLeaf v RLeaf) vs)"

definition sqlite3RowSetNext :: "rowset \<Rightarrow> (i64 option \<times> rowset) option" where
  "sqlite3RowSetNext p =
     (case (if rs_next p then Some p
            else map_option (\<lambda>es. p\<lparr>pEntry := es, rs_sorted := True, rs_next := True\<rparr>)
                   (if rs_sorted p then Some (pEntry p) else rowSetEntrySort (pEntry p))) of
        None \<Rightarrow> None
      | Some p \<Rightarrow>
          (case pEntry p of
             [] \<Rightarrow> Some (None, p)
           | v # es \<Rightarrow> Some (Some v, if es = [] then sqlite3RowSetClear (p\<lparr>pEntry := es\<rparr>) else p\<lparr>pEntry := es\<rparr>)))"

text \<open>Merging a sorted list into the forest: the first empty tree takes it, the trees before that are
  emptied. The second result says that no empty tree was found, and what the list is by then.\<close>

fun forest_add :: "rowtree list \<Rightarrow> i64 list \<Rightarrow> rowtree list \<times> i64 list option" where
  "forest_add [] p = ([], Some p)"
| "forest_add (t # ts) p =
     (if t = RLeaf then (rowSetListToTree p # ts, None)
      else case forest_add ts (rowSetEntryMerge (rowSetTreeToList t) p) of (ts, r) \<Rightarrow> (RLeaf # ts, r))"

fun find_tree :: "rowtree \<Rightarrow> i64 \<Rightarrow> bool" where
  "find_tree RLeaf iRowid = False"
| "find_tree (RNode l v r) iRowid =
     (if sint v < sint iRowid then find_tree r iRowid
      else if sint v > sint iRowid then find_tree l iRowid
      else True)"

definition new_batch :: "bool list \<Rightarrow> rowset \<Rightarrow> (rowset \<times> bool list) option" where
  "new_batch al q =
     (if pEntry q = [] then Some (q, al)
      else case (if rs_sorted q then Some (pEntry q) else rowSetEntrySort (pEntry q)) of
        None \<Rightarrow> None
      | Some p \<Rightarrow>
          let (ts, rest) = forest_add (pForest q) p;
              q = q\<lparr>pForest := ts\<rparr>;
              (q, al) = (case rest of
                 None \<Rightarrow> (q, al)
               | Some p \<Rightarrow>
                   (case rowSetEntryAlloc al q of
                      (False, q, al) \<Rightarrow> (q, al)
                    | (True, q, al) \<Rightarrow> (q\<lparr>pForest := pForest q @ [rowSetListToTree p]\<rparr>, al)))
          in Some (q\<lparr>pEntry := [], pLast := None, rs_sorted := True\<rparr>, al))"

definition sqlite3RowSetTest ::
  "bool list \<Rightarrow> rowset \<Rightarrow> 32 word \<Rightarrow> i64 \<Rightarrow> (bool \<times> rowset \<times> bool list) option" where
  "sqlite3RowSetTest al q batch iRowid =
     (case (if batch \<noteq> iBatch q
            then map_option (\<lambda>(q, al). (q\<lparr>iBatch := batch\<rparr>, al)) (new_batch al q)
            else Some (q, al)) of
        None \<Rightarrow> None
      | Some (q, al) \<Rightarrow> Some (list_ex (\<lambda>t. find_tree t iRowid) (pForest q), q, al))"

subsection \<open>Merging and sorting\<close>

definition increasing :: "i64 list \<Rightarrow> bool" where
  "increasing xs \<longleftrightarrow> sorted_wrt (\<lambda>a b. sint a < sint b) xs"

lemma increasing_simps [simp]:
  "increasing []" "increasing (x # xs) \<longleftrightarrow> (\<forall>y\<in>set xs. sint x < sint y) \<and> increasing xs"
  by (simp_all add: increasing_def)

lemma increasing_append:
  "increasing (xs @ ys) \<longleftrightarrow> increasing xs \<and> increasing ys \<and> (\<forall>x\<in>set xs. \<forall>y\<in>set ys. sint x < sint y)"
  by (simp add: increasing_def sorted_wrt_append)

lemma sint_eq: "sint a = sint b \<longleftrightarrow> a = b" for a b :: i64
  by (auto intro: signed_word_eqI)

lemma merge_set: "set (rowSetEntryMerge as bs) = set as \<union> set bs"
proof (induction "as" bs rule: rowSetEntryMerge.induct)
  case (1 a "as" b bs)
  show ?case
  proof (cases "sint a \<le> sint b")
    case True
    have e: "sint a < sint b \<or> a = b" using True sint_eq [of a b] by linarith
    show ?thesis
    proof (cases "as = []")
      case False
      then show ?thesis using 1(1) True e by (cases "sint a < sint b") auto
    qed (use True e in auto)
  next
    case False
    then show ?thesis using 1(2) by (cases "bs = []") auto
  qed
qed auto

lemma merge_increasing: "increasing as \<Longrightarrow> increasing bs \<Longrightarrow> increasing (rowSetEntryMerge as bs)"
proof (induction "as" bs rule: rowSetEntryMerge.induct)
  case (1 a "as" b bs)
  show ?case
  proof (cases "sint a \<le> sint b")
    case True
    then show ?thesis using 1(1) 1(3,4) by (cases "as = []") (auto simp: merge_set)
  next
    case False
    then show ?thesis using 1(2) 1(3,4) by (cases "bs = []") (auto simp: merge_set)
  qed
qed auto

lemma merge_nonempty: "rowSetEntryMerge as bs = [] \<longleftrightarrow> as = [] \<and> bs = []"
  using merge_set [of "as" bs] by (metis Un_empty set_empty)

fun weight :: "i64 list list \<Rightarrow> nat" where
  "weight [] = 0"
| "weight (b # bs) = (if b \<noteq> [] then 1 else 0) + 2 * weight bs"

lemma weight_less: "weight bs < 2 ^ length bs"
  by (induction bs) auto

lemma bucket_add_ok:
  "p \<noteq> [] \<Longrightarrow> increasing p \<Longrightarrow> \<forall>b\<in>set bs. increasing b \<Longrightarrow>
   (case bucket_add bs p of
      None \<Rightarrow> weight bs + 1 = 2 ^ length bs
    | Some bs' \<Rightarrow> weight bs' = weight bs + 1 \<and> length bs' = length bs \<and> (\<forall>b\<in>set bs'. increasing b) \<and>
        \<Union> (set ` set bs') = \<Union> (set ` set bs) \<union> set p)"
proof (induction bs p rule: bucket_add.induct)
  case (2 b bs p)
  show ?case
  proof (cases "b = []")
    case False
    have "case bucket_add bs (rowSetEntryMerge b p) of
        None \<Rightarrow> weight bs + 1 = 2 ^ length bs
      | Some bs' \<Rightarrow> weight bs' = weight bs + 1 \<and> length bs' = length bs \<and> (\<forall>b\<in>set bs'. increasing b) \<and>
          \<Union> (set ` set bs') = \<Union> (set ` set bs) \<union> set (rowSetEntryMerge b p)"
      using 2 False merge_increasing by (simp add: merge_nonempty)
    then show ?thesis using False by (auto simp: merge_set split: option.splits)
  qed (use 2 in auto)
qed auto

lemma sort_loop_ok:
  "\<forall>b\<in>set bs. increasing b \<Longrightarrow>
   (case sort_loop bs xs of
      None \<Rightarrow> 2 ^ length bs \<le> weight bs + length xs
    | Some bs' \<Rightarrow> weight bs' = weight bs + length xs \<and> length bs' = length bs \<and> (\<forall>b\<in>set bs'. increasing b) \<and>
        \<Union> (set ` set bs') = \<Union> (set ` set bs) \<union> set xs)"
proof (induction bs xs rule: sort_loop.induct)
  case (2 bs v xs)
  have b: "case bucket_add bs [v] of
      None \<Rightarrow> weight bs + 1 = 2 ^ length bs
    | Some bs' \<Rightarrow> weight bs' = weight bs + 1 \<and> length bs' = length bs \<and> (\<forall>b\<in>set bs'. increasing b) \<and>
        \<Union> (set ` set bs') = \<Union> (set ` set bs) \<union> {v}"
    using bucket_add_ok [of "[v]" bs] 2(2) by (simp split: option.splits)
  show ?case
  proof (cases "bucket_add bs [v]")
    case (Some bs')
    then show ?thesis using b 2(1) [OF Some] by (auto split: option.splits)
  qed (use b in auto)
qed simp

lemma join_buckets_ok:
  "increasing p \<Longrightarrow> \<forall>b\<in>set bs. increasing b \<Longrightarrow>
   increasing (join_buckets p bs) \<and> set (join_buckets p bs) = set p \<union> \<Union> (set ` set bs)"
  by (induction p bs rule: join_buckets.induct) (auto simp: merge_increasing merge_set)

lemma sort_ok:
  "(case rowSetEntrySort xs of
      None \<Rightarrow> 2 ^ n_buckets \<le> length xs
    | Some ys \<Rightarrow> length xs < 2 ^ n_buckets \<and> increasing ys \<and> set ys = set xs)"
proof -
  have w: "weight (replicate n []) = 0" for n by (induction n) auto
  have s: "case sort_loop (replicate n_buckets []) xs of
      None \<Rightarrow> 2 ^ n_buckets \<le> length xs
    | Some bs' \<Rightarrow> weight bs' = length xs \<and> length bs' = n_buckets \<and> (\<forall>b\<in>set bs'. increasing b) \<and>
        \<Union> (set ` set bs') = set xs"
    using sort_loop_ok [of "replicate n_buckets []" xs] w [of n_buckets] by (simp split: option.splits)
  show ?thesis
  proof (cases "sort_loop (replicate n_buckets []) xs")
    case (Some bs)
    then have b: "weight bs = length xs" "length bs = n_buckets" "\<forall>b\<in>set bs. increasing b" "\<Union> (set ` set bs) = set xs"
      using s by simp_all
    then have "bs \<noteq> []" by (auto simp: n_buckets_def)
    then have "increasing (join_buckets (hd bs) (tl bs)) \<and> set (join_buckets (hd bs) (tl bs)) = set xs"
      using join_buckets_ok [of "hd bs" "tl bs"] b(3,4) by (cases bs) auto
    then show ?thesis using Some weight_less [of bs] b(1,2) by (simp add: rowSetEntrySort_def)
  qed (use s in \<open>simp add: rowSetEntrySort_def\<close>)
qed

subsection \<open>Lists and trees\<close>

lemma TreeToList_simp [simp]: "rowSetTreeToList (RNode l v r) = rowSetTreeToList l @ v # rowSetTreeToList r"
  by simp

declare rowSetTreeToList.simps(2) [simp del]

lemma NDeepTree_list: "rowSetTreeToList (fst (rowSetNDeepTree vs d)) @ snd (rowSetNDeepTree vs d) = vs"
proof (induction vs d rule: rowSetNDeepTree.induct)
  case (2 v vs d)
  show ?case
  proof (cases "d > 1")
    case True
    obtain l ys where l: "rowSetNDeepTree (v # vs) (d - 1) = (l, ys)" by fastforce
    then have le: "rowSetTreeToList l @ ys = v # vs" using 2(1) [OF True] by simp
    show ?thesis
    proof (cases ys)
      case (Cons y ys')
      obtain r zs where r: "rowSetNDeepTree ys' (d - 1) = (r, zs)" by fastforce
      have "rowSetTreeToList r @ zs = ys'" using 2(2) [OF True l [symmetric] Cons] r by simp
      then show ?thesis using True l r le Cons by simp
    qed (use True l le in simp)
  qed simp
qed simp

lemma list_to_tree_list: "rowSetTreeToList (list_to_tree d p vs) = rowSetTreeToList p @ vs"
proof (induction d p vs rule: list_to_tree.induct)
  case (2 d p v vs)
  obtain r rest where r: "rowSetNDeepTree vs d = (r, rest)" by fastforce
  then show ?case using 2 [OF r [symmetric]] NDeepTree_list [of vs d] by simp
qed simp

lemma ListToTree_list: "rowSetTreeToList (rowSetListToTree xs) = xs"
  by (cases xs) (simp_all add: rowSetListToTree_def list_to_tree_list)

lemma find_tree_iff: "increasing (rowSetTreeToList t) \<Longrightarrow> find_tree t x \<longleftrightarrow> x \<in> set (rowSetTreeToList t)"
proof (induction t)
  case (RNode l v r)
  then have "increasing (rowSetTreeToList l)" "increasing (rowSetTreeToList r)"
      "\<forall>y\<in>set (rowSetTreeToList l). sint y < sint v" "\<forall>y\<in>set (rowSetTreeToList r). sint v < sint y"
    by (auto simp: increasing_append)
  then show ?case using RNode.IH sint_eq [of v x] by force
qed simp

subsection \<open>The invariant and the operations\<close>

definition row_inv :: "rowset \<Rightarrow> bool" where
  "row_inv p \<longleftrightarrow> (rs_sorted p \<longrightarrow> increasing (pEntry p)) \<and> \<not> rs_next p \<and>
     pLast p = (if pEntry p = [] then None else Some (last (pEntry p))) \<and>
     (\<forall>t\<in>set (pForest p). increasing (rowSetTreeToList t))"

text \<open>The rowids a test can see, and those that wait for the next batch.\<close>

definition visible :: "rowset \<Rightarrow> i64 set" where
  "visible p = (\<Union>t\<in>set (pForest p). set (rowSetTreeToList t))"

definition pending :: "rowset \<Rightarrow> i64 set" where
  "pending p = set (pEntry p)"

lemma Alloc_same:
  assumes "rowSetEntryAlloc al p = (b, p', al')"
  shows "pEntry p' = pEntry p \<and> pLast p' = pLast p \<and> pForest p' = pForest p \<and> rs_sorted p' = rs_sorted p \<and>
    rs_next p' = rs_next p \<and> iBatch p' = iBatch p \<and> (False \<notin> set al \<longrightarrow> b \<and> False \<notin> set al')"
proof (cases "nFresh p = 0")
  case True
  obtain c al1 where m: "malloc_ok al = (c, al1)" by fastforce
  then show ?thesis using assms True malloc_mem [OF m] by (cases c) (auto simp: rowSetEntryAlloc_def)
qed (use assms in \<open>auto simp: rowSetEntryAlloc_def\<close>)

lemma last_greatest: "increasing xs \<Longrightarrow> x \<in> set xs \<Longrightarrow> sint x \<le> sint (last xs)"
proof (induction xs)
  case (Cons y xs)
  show ?case
  proof (cases "xs = []")
    case False
    have l: "sint y \<le> sint (last xs)" using Cons.prems(1) False by (simp add: less_imp_le)
    show ?thesis
    proof (cases "x = y")
      case True
      then show ?thesis using l False by simp
    qed (use Cons False in simp)
  qed (use Cons in simp)
qed simp

lemma Insert_ok:
  assumes "row_inv p" "sqlite3RowSetInsert al p k = (p', al')"
  shows "row_inv p' \<and> visible p' = visible p \<and> iBatch p' = iBatch p \<and>
    (pEntry p' = pEntry p \<or> pEntry p' = pEntry p @ [k]) \<and>
    (False \<notin> set al \<longrightarrow> pEntry p' = pEntry p @ [k] \<and> False \<notin> set al') \<and> pForest p' = pForest p"
proof -
  obtain b q al1 where a: "rowSetEntryAlloc al p = (b, q, al1)" by (metis prod_cases3)
  note s = Alloc_same [OF a]
  have q: "row_inv q" using assms(1) s by (simp add: row_inv_def)
  show ?thesis
  proof (cases b)
    case False
    then show ?thesis using assms(2) a s q by (auto simp: sqlite3RowSetInsert_def visible_def)
  next
    case True
    show ?thesis
    proof (cases "pEntry q = []")
      case e: True
      then have "pLast q = None" using q by (simp add: row_inv_def)
      then have p': "p' = q\<lparr>pEntry := [k], pLast := Some k\<rparr>" "al' = al1"
        using assms(2) a True by (simp_all add: sqlite3RowSetInsert_def)
      then show ?thesis using s q e by (simp add: row_inv_def visible_def)
    next
      case ne: False
      then have "pLast q = Some (last (pEntry q))" using q by (simp add: row_inv_def)
      then have p': "p' = q\<lparr>rs_sorted := (if sint k \<le> sint (last (pEntry q)) then False else rs_sorted q),
            pEntry := pEntry q @ [k], pLast := Some k\<rparr>" "al' = al1"
        using assms(2) a True by (simp_all add: sqlite3RowSetInsert_def)
      have "increasing (pEntry q @ [k])" if "rs_sorted p'"
        using that q p'(1) last_greatest [of "pEntry q"]
        by (auto simp: row_inv_def increasing_append split: if_splits) (force simp: not_le)
      then show ?thesis using s q p' by (simp add: row_inv_def visible_def)
    qed
  qed
qed

lemma forest_add_ok:
  "\<forall>t\<in>set ts. increasing (rowSetTreeToList t) \<Longrightarrow> increasing p \<Longrightarrow> forest_add ts p = (ts', r) \<Longrightarrow>
   (\<forall>t\<in>set ts'. increasing (rowSetTreeToList t)) \<and> (\<forall>q. r = Some q \<longrightarrow> increasing q) \<and>
   (\<Union>t\<in>set ts'. set (rowSetTreeToList t)) \<union> (case r of None \<Rightarrow> {} | Some q \<Rightarrow> set q) =
     (\<Union>t\<in>set ts. set (rowSetTreeToList t)) \<union> set p"
proof (induction ts p arbitrary: ts' r rule: forest_add.induct)
  case (2 t ts p)
  show ?case
  proof (cases "t = RLeaf")
    case True
    then show ?thesis using 2 by (auto simp: ListToTree_list)
  next
    case False
    obtain ts1 r1 where f: "forest_add ts (rowSetEntryMerge (rowSetTreeToList t) p) = (ts1, r1)" by fastforce
    then have "(\<forall>t\<in>set ts1. increasing (rowSetTreeToList t)) \<and> (\<forall>q. r1 = Some q \<longrightarrow> increasing q) \<and>
       (\<Union>t\<in>set ts1. set (rowSetTreeToList t)) \<union> (case r1 of None \<Rightarrow> {} | Some q \<Rightarrow> set q) =
       (\<Union>t\<in>set ts. set (rowSetTreeToList t)) \<union> set (rowSetEntryMerge (rowSetTreeToList t) p)"
      using 2(1) [OF False _ _ f] 2(2,3) merge_increasing by simp
    moreover have "ts' = RLeaf # ts1" "r = r1" using 2(4) False f by simp_all
    ultimately show ?thesis by (auto simp: merge_set)
  qed
qed auto

lemma new_batch_ok:
  assumes inv: "row_inv q" and few: "length (pEntry q) < 2 ^ n_buckets"
  obtains q' al' where "new_batch al q = Some (q', al')" "row_inv q'" "pEntry q' = []" "iBatch q' = iBatch q"
    "visible q' \<subseteq> visible q \<union> pending q"
    "False \<notin> set al \<Longrightarrow> visible q' = visible q \<union> pending q \<and> False \<notin> set al'"
proof (cases "pEntry q = []")
  case True
  then show thesis using that [of q al] inv by (simp add: new_batch_def pending_def)
next
  case ne: False
  obtain p where p: "(if rs_sorted q then Some (pEntry q) else rowSetEntrySort (pEntry q)) = Some p"
      "increasing p" "set p = pending q"
  proof (cases "rs_sorted q")
    case True
    then show ?thesis using that [of "pEntry q"] inv by (simp add: row_inv_def pending_def)
  next
    case False
    obtain ys where "rowSetEntrySort (pEntry q) = Some ys" "increasing ys" "set ys = set (pEntry q)"
      using few sort_ok [of "pEntry q"] by (cases "rowSetEntrySort (pEntry q)") simp_all
    then show ?thesis using that [of ys] False by (simp add: pending_def)
  qed
  obtain ts r where f: "forest_add (pForest q) p = (ts, r)" by fastforce
  have fo: "(\<forall>t\<in>set ts. increasing (rowSetTreeToList t)) \<and> (\<forall>q. r = Some q \<longrightarrow> increasing q) \<and>
     (\<Union>t\<in>set ts. set (rowSetTreeToList t)) \<union> (case r of None \<Rightarrow> {} | Some q \<Rightarrow> set q) = visible q \<union> pending q"
  proof -
    have "\<forall>t\<in>set (pForest q). increasing (rowSetTreeToList t)" using inv by (simp add: row_inv_def)
    from forest_add_ok [OF this p(2) f] show ?thesis unfolding visible_def p(3) [symmetric] .
  qed
  show thesis
  proof (cases r)
    case None
    let ?q = "q\<lparr>pForest := ts, pEntry := [], pLast := None, rs_sorted := True\<rparr>"
    have "new_batch al q = Some (?q, al)" using ne p(1) f None by (simp add: new_batch_def)
    then show thesis using fo None inv by (intro that [of ?q al]) (simp_all add: row_inv_def visible_def)
  next
    case (Some xs)
    obtain b q1 al1 where a: "rowSetEntryAlloc al (q\<lparr>pForest := ts\<rparr>) = (b, q1, al1)" by (metis prod_cases3)
    note s = Alloc_same [OF a]
    let ?q = "(if b then q1\<lparr>pForest := pForest q1 @ [rowSetListToTree xs]\<rparr> else q1)\<lparr>pEntry := [], pLast := None, rs_sorted := True\<rparr>"
    have "new_batch al q = Some (?q, al1)" using ne p(1) f Some a by (simp add: new_batch_def)
    then show thesis using fo Some inv s by (intro that [of ?q al1]) (auto simp: row_inv_def visible_def ListToTree_list)
  qed
qed

lemma Test_ok:
  assumes inv: "row_inv q" and few: "length (pEntry q) < 2 ^ n_buckets"
  obtains q' al' where "sqlite3RowSetTest al q batch k = Some (k \<in> visible q', q', al')" "row_inv q'"
    "pEntry q' = (if batch = iBatch q then pEntry q else [])" "iBatch q' = batch"
    "False \<notin> set al \<Longrightarrow> visible q' = (if batch = iBatch q then visible q else visible q \<union> pending q) \<and> False \<notin> set al'"
proof -
  have see: "list_ex (\<lambda>t. find_tree t k) (pForest q) \<longleftrightarrow> k \<in> visible q" if "row_inv q" for q
  proof -
    have "find_tree t k \<longleftrightarrow> k \<in> set (rowSetTreeToList t)" if "t \<in> set (pForest q)" for t
      using that \<open>row_inv q\<close> find_tree_iff by (simp add: row_inv_def)
    then show ?thesis by (simp add: list_ex_iff visible_def)
  qed
  show thesis
  proof (cases "batch = iBatch q")
    case True
    then have "sqlite3RowSetTest al q batch k = Some (k \<in> visible q, q, al)"
      using see [OF inv] by (simp add: sqlite3RowSetTest_def)
    then show thesis by (rule that) (use True inv in simp_all)
  next
    case False
    obtain q1 al1 where n: "new_batch al q = Some (q1, al1)" "row_inv q1" "pEntry q1 = []"
        "visible q1 \<subseteq> visible q \<union> pending q"
        "False \<notin> set al \<Longrightarrow> visible q1 = visible q \<union> pending q \<and> False \<notin> set al1"
      by (rule new_batch_ok [OF inv few, of al]) blast
    let ?q = "q1\<lparr>iBatch := batch\<rparr>"
    have i: "row_inv ?q" "visible ?q = visible q1" using n(2) by (simp_all add: row_inv_def visible_def)
    have "sqlite3RowSetTest al q batch k = Some (list_ex (\<lambda>t. find_tree t k) (pForest ?q), ?q, al1)"
      using n(1) False by (simp add: sqlite3RowSetTest_def)
    then show thesis using n(3,5) i False see [OF i(1)] by (intro that [of ?q al1]) simp_all
  qed
qed

subsection \<open>Runs of inserts and tests\<close>

datatype row_op = RowInsert i64 | RowTest "32 word" i64

text \<open>The answers of the tests, by the code and by the specification.\<close>

fun row_run :: "bool list \<Rightarrow> rowset \<Rightarrow> row_op list \<Rightarrow> bool list option" where
  "row_run al p [] = Some []"
| "row_run al p (RowInsert k # ops) = (case sqlite3RowSetInsert al p k of (p, al) \<Rightarrow> row_run al p ops)"
| "row_run al p (RowTest batch k # ops) =
     (case sqlite3RowSetTest al p batch k of
        None \<Rightarrow> None
      | Some (b, p, al) \<Rightarrow> map_option (\<lambda>bs. b # bs) (row_run al p ops))"

fun row_spec :: "i64 set \<Rightarrow> i64 set \<Rightarrow> 32 word \<Rightarrow> row_op list \<Rightarrow> bool list" where
  "row_spec seen new b [] = []"
| "row_spec seen new b (RowInsert k # ops) = row_spec seen (insert k new) b ops"
| "row_spec seen new b (RowTest b' k # ops) =
     (if b' = b then (k \<in> seen) # row_spec seen new b ops
      else (k \<in> seen \<union> new) # row_spec (seen \<union> new) {} b' ops)"

lemma row_run_spec:
  "row_inv p \<Longrightarrow> False \<notin> set al \<Longrightarrow> length (pEntry p) + length ops \<le> 2 ^ n_buckets \<Longrightarrow>
   row_run al p ops = Some (row_spec (visible p) (pending p) (iBatch p) ops)"
proof (induction ops arbitrary: p al)
  case (Cons op ops)
  show ?case
  proof (cases op)
    case (RowInsert k)
    obtain p' al' where i: "sqlite3RowSetInsert al p k = (p', al')" by fastforce
    note s = Insert_ok [OF Cons.prems(1) i]
    then have "pending p' = insert k (pending p)" "length (pEntry p') = length (pEntry p) + 1"
      using Cons.prems(2) by (simp_all add: pending_def)
    then show ?thesis using Cons.IH [of p' al'] Cons.prems s RowInsert i by simp
  next
    case (RowTest b k)
    have few: "length (pEntry p) < 2 ^ n_buckets" using Cons.prems(3) by simp
    obtain p' al' where t: "sqlite3RowSetTest al p b k = Some (k \<in> visible p', p', al')" "row_inv p'"
        "pEntry p' = (if b = iBatch p then pEntry p else [])" "iBatch p' = b"
        "False \<notin> set al \<Longrightarrow> visible p' = (if b = iBatch p then visible p else visible p \<union> pending p) \<and> False \<notin> set al'"
      by (rule Test_ok [OF Cons.prems(1) few, of al b k]) blast
    have "length (pEntry p') + length ops \<le> 2 ^ n_buckets" using t(3) Cons.prems(3) by simp
    with Cons.IH [OF t(2)] t(5) [OF Cons.prems(2)]
    have "row_run al' p' ops = Some (row_spec (visible p') (pending p') (iBatch p') ops)" by blast
    then show ?thesis using t(1,3,4) t(5) [OF Cons.prems(2)] RowTest by (simp add: pending_def)
  qed
qed simp

lemma Init_ok:
  assumes "False \<notin> set al"
  obtains p al' where "sqlite3RowSetInit al n = (Some p, al')" "row_inv p" "False \<notin> set al'" "visible p = {}"
    "pEntry p = []" "iBatch p = 0" "pForest p = []"
proof -
  obtain b al' where m: "malloc_ok al = (b, al')" by fastforce
  from malloc_mem [OF m assms] have b: "b" "False \<notin> set al'" by simp_all
  obtain p where p: "sqlite3RowSetInit al n = (Some p, al')" "row_inv p" "visible p = {}" "pEntry p = []" "iBatch p = 0"
      "pForest p = []"
    using m b(1) by (simp add: sqlite3RowSetInit_def row_inv_def visible_def)
  show thesis by (rule that [OF p(1,2) b(2) p(3-6)])
qed

text \<open>
  C20. The tests of a row set answer by batches: with enough memory and at most \<open>2 ^ 40\<close> operations
  on a new row set, \<open>sqlite3RowSetTest\<close> answers for every sequence of inserts and tests whether the
  rowid was inserted before the last change of the batch number, and the array of forty lists that
  the sort uses is never overrun.
\<close>

theorem rowset_tests_by_batch:
  assumes "False \<notin> set al" and "length ops \<le> 2 ^ n_buckets"
  shows "\<exists>p al'. sqlite3RowSetInit al n = (Some p, al') \<and> row_run al' p ops = Some (row_spec {} {} 0 ops)"
proof -
  obtain p al' where p: "sqlite3RowSetInit al n = (Some p, al')" "row_inv p" "False \<notin> set al'" "visible p = {}"
      "pEntry p = []" "iBatch p = 0" "pForest p = []"
    by (rule Init_ok [OF assms(1)])
  then show ?thesis using row_run_spec [OF p(2,3), of ops] assms(2) by (simp add: pending_def)
qed

theorem rowset_tests_by_batch_witness:
  "\<exists>p al'. sqlite3RowSetInit [] 512 = (Some p, al') \<and>
     row_run al' p [RowInsert 7, RowTest 1 7, RowInsert (- 3), RowTest 1 (- 3), RowTest 2 (- 3)] = Some [True, False, True]"
  using rowset_tests_by_batch [of "[]" "[RowInsert 7, RowTest 1 7, RowInsert (- 3), RowTest 1 (- 3), RowTest 2 (- 3)]" 512]
  by (simp add: n_buckets_def)

subsection \<open>Taking the elements out\<close>

fun row_inserts :: "bool list \<Rightarrow> rowset \<Rightarrow> i64 list \<Rightarrow> rowset" where
  "row_inserts al p [] = p"
| "row_inserts al p (k # ks) = (case sqlite3RowSetInsert al p k of (p, al) \<Rightarrow> row_inserts al p ks)"

text \<open>\<open>sqlite3RowSetNext\<close> until it returns 0, at most \<open>n\<close> times.\<close>

primrec row_drain :: "nat \<Rightarrow> rowset \<Rightarrow> i64 list option" where
  "row_drain 0 p = None"
| "row_drain (Suc n) p =
     (case sqlite3RowSetNext p of
        None \<Rightarrow> None
      | Some (None, p) \<Rightarrow> Some []
      | Some (Some v, p) \<Rightarrow> map_option (\<lambda>vs. v # vs) (row_drain n p))"

lemma row_inserts_ok:
  "row_inv p \<Longrightarrow> False \<notin> set al \<Longrightarrow>
   row_inv (row_inserts al p ks) \<and> pEntry (row_inserts al p ks) = pEntry p @ ks \<and> pForest (row_inserts al p ks) = pForest p"
proof (induction ks arbitrary: p al)
  case (Cons k ks)
  obtain p' al' where i: "sqlite3RowSetInsert al p k = (p', al')" by fastforce
  then show ?case using Cons.IH [of p' al'] Cons.prems Insert_ok [OF Cons.prems(1) i] by simp
qed simp

lemma drain_ready: "rs_next p \<or> rs_sorted p \<Longrightarrow> length (pEntry p) < n \<Longrightarrow> row_drain n p = Some (pEntry p)"
proof (induction n arbitrary: p)
  case (Suc n)
  show ?case
  proof (cases "pEntry p")
    case Nil
    then show ?thesis using Suc.prems(1) by (cases "rs_next p") (simp_all add: sqlite3RowSetNext_def)
  next
    case (Cons v es)
    then obtain p' where n: "sqlite3RowSetNext p = Some (Some v, p')" "rs_next p' \<or> rs_sorted p'" "pEntry p' = es"
      using Suc.prems(1) by (cases "rs_next p"; cases "es = []") (simp_all add: sqlite3RowSetNext_def sqlite3RowSetClear_def)
    then show ?thesis using Suc.IH [OF n(2)] Suc.prems(2) Cons by simp
  qed
qed simp

text \<open>
  C21. After any inserts into a new row set, \<open>sqlite3RowSetNext\<close> delivers every inserted rowid exactly
  once and in increasing order, and then reports the end.
\<close>

theorem rowset_sorted_output:
  assumes "False \<notin> set al" and "length ks < 2 ^ n_buckets" and "sqlite3RowSetInit al n = (Some p, al')"
  shows "\<exists>ys. row_drain (length ks + 1) (row_inserts al' p ks) = Some ys \<and>
    increasing ys \<and> set ys = set ks"
proof -
  obtain p0 al0 where p0: "sqlite3RowSetInit al n = (Some p0, al0)" "row_inv p0" "False \<notin> set al0" "pEntry p0 = []"
    by (rule Init_ok [OF assms(1)])
  then have p: "row_inv p" "False \<notin> set al'" "pEntry p = []" using assms(3) by simp_all
  let ?p = "row_inserts al' p ks"
  have i: "row_inv ?p" "pEntry ?p = ks" using row_inserts_ok [OF p(1,2), of ks] p(3) by simp_all
  show ?thesis
  proof (cases "rs_sorted ?p")
    case True
    then have "row_drain (length ks + 1) ?p = Some ks" using drain_ready [of ?p "length ks + 1"] i(2) by simp
    then show ?thesis using True i by (simp add: row_inv_def)
  next
    case False
    obtain ys where ys: "rowSetEntrySort ks = Some ys" "increasing ys" "set ys = set ks"
      using assms(2) sort_ok [of ks] by (cases "rowSetEntrySort ks") simp_all
    let ?q = "?p\<lparr>pEntry := ys, rs_sorted := True\<rparr>"
    have "length ys \<le> length ks"
    proof -
      have "distinct ys" using ys(2) by (induction ys) auto
      then show ?thesis using ys(3) by (metis card_length distinct_card)
    qed
    then have "row_drain (length ks + 1) ?q = Some ys" using drain_ready [of ?q "length ks + 1"] by simp
    moreover have "sqlite3RowSetNext ?p = sqlite3RowSetNext ?q"
      using False i ys(1) by (simp add: sqlite3RowSetNext_def row_inv_def)
    ultimately show ?thesis using ys(2,3) by simp
  qed
qed

theorem rowset_sorted_output_witness:
  "\<exists>p al' ys. sqlite3RowSetInit [] 512 = (Some p, al') \<and>
     row_drain 4 (row_inserts al' p [5, - 2, 5]) = Some ys \<and> increasing ys \<and> set ys = {5, - 2}"
proof -
  obtain p al' where p: "sqlite3RowSetInit [] 512 = (Some p, al')"
    by (rule Init_ok [of "[]" 512]) simp_all
  have four: "length [5, - 2, 5 :: i64] + 1 = 4" by simp
  have few: "length [5, - 2, 5 :: i64] < 2 ^ n_buckets" by (simp add: n_buckets_def)
  have "\<exists>ys. row_drain 4 (row_inserts al' p [5, - 2, 5]) = Some ys \<and> increasing ys \<and> set ys = set [5, - 2, 5]"
    using rowset_sorted_output [OF _ few p] unfolding four by simp
  moreover have "set [5, - 2, 5 :: i64] = {5, - 2}" by auto
  ultimately show ?thesis using p by metis
qed

subsection \<open>The trees are balanced\<close>

primrec depth :: "rowtree \<Rightarrow> nat" where
  "depth RLeaf = 0"
| "depth (RNode l v r) = 1 + max (depth l) (depth r)"

lemma NDeepTree_full:
  "1 \<le> d \<Longrightarrow> depth (fst (rowSetNDeepTree vs d)) \<le> d \<and>
    (snd (rowSetNDeepTree vs d) \<noteq> [] \<longrightarrow> length vs + 1 = 2 ^ d + length (snd (rowSetNDeepTree vs d)))"
proof (induction vs d rule: rowSetNDeepTree.induct)
  case (2 v vs d)
  show ?case
  proof (cases "d > 1")
    case True
    obtain l ys where l: "rowSetNDeepTree (v # vs) (d - 1) = (l, ys)" by fastforce
    have d: "1 \<le> d - 1" "(2 :: nat) ^ d = 2 * 2 ^ (d - 1)" using True by (simp_all add: power_eq_if)
    have le: "depth l \<le> d - 1" "ys \<noteq> [] \<longrightarrow> length (v # vs) + 1 = 2 ^ (d - 1) + length ys"
      using 2(1) [OF True d(1)] l by simp_all
    show ?thesis
    proof (cases ys)
      case (Cons y ys')
      obtain r zs where r: "rowSetNDeepTree ys' (d - 1) = (r, zs)" by fastforce
      have "depth r \<le> d - 1" "zs \<noteq> [] \<longrightarrow> length ys' + 1 = 2 ^ (d - 1) + length zs"
        using 2(2) [OF True l [symmetric] Cons d(1)] r by simp_all
      then show ?thesis using True l r le Cons d(2) by auto
    qed (use True l le in simp)
  next
    case False
    then have "d = 1" using 2(3) by simp
    then show ?thesis by simp
  qed
qed simp

lemma list_to_tree_depth:
  "1 \<le> d \<Longrightarrow> depth p \<le> d \<Longrightarrow> length (rowSetTreeToList p) + 1 = 2 ^ d \<Longrightarrow>
   2 ^ (depth (list_to_tree d p vs) - 1) \<le> length (rowSetTreeToList p) + length vs"
proof (induction d p vs rule: list_to_tree.induct)
  case (1 d p)
  have "(2 :: nat) ^ (depth p - 1) \<le> 2 ^ (d - 1)" using 1(2) by (intro power_increasing) auto
  moreover have "(2 :: nat) ^ d = 2 * 2 ^ (d - 1)" using 1(1) by (simp add: power_eq_if)
  moreover have "(1 :: nat) \<le> 2 ^ (d - 1)" by simp
  ultimately show ?case using 1(3) by (simp only: list_to_tree.simps)
next
  case (2 d p v vs)
  obtain r rest where r: "rowSetNDeepTree vs d = (r, rest)" by fastforce
  have f: "depth r \<le> d" "rest \<noteq> [] \<longrightarrow> length vs + 1 = 2 ^ d + length rest" "rowSetTreeToList r @ rest = vs"
    using NDeepTree_full [OF 2(2), of vs] NDeepTree_list [of vs d] r by simp_all
  have dp: "depth (RNode p v r) \<le> d + 1" using 2(3) f(1) by simp
  show ?case
  proof (cases "rest = []")
    case True
    have "(2 :: nat) ^ (depth (RNode p v r) - 1) \<le> 2 ^ d" using dp by (intro power_increasing) auto
    then have "2 ^ (depth (RNode p v r) - 1) \<le> length (rowSetTreeToList p) + 1" unfolding 2(4) .
    then have "2 ^ (depth (RNode p v r) - 1) \<le> length (rowSetTreeToList p) + length (v # vs)" by simp
    moreover have "list_to_tree d p (v # vs) = RNode p v r" using True r by simp
    ultimately show ?thesis by (simp only:)
  next
    case False
    have vs: "length vs = length (rowSetTreeToList r) + length rest" using f(3) by (metis length_append)
    then have "length (rowSetTreeToList (RNode p v r)) + 1 = 2 ^ (d + 1)" using False f(2) 2(4) by simp
    from 2(1) [OF r [symmetric] _ dp this] show ?thesis using r vs by simp
  qed
qed

text \<open>
  The search trees of the forest are balanced: \<open>rowSetListToTree\<close> keeps the list as its in-order
  traversal and a tree over \<open>n\<close> entries is at most \<open>1 + log2 n\<close> deep.
\<close>

theorem rowset_tree_balanced:
  assumes "xs \<noteq> []"
  shows "rowSetTreeToList (rowSetListToTree xs) = xs \<and> 2 ^ (depth (rowSetListToTree xs) - 1) \<le> length xs"
proof -
  obtain v vs where xs: "xs = v # vs" using assms by (cases xs) auto
  have "2 ^ (depth (list_to_tree 1 (RNode RLeaf v RLeaf) vs) - 1) \<le> 1 + length vs"
    using list_to_tree_depth [of 1 "RNode RLeaf v RLeaf" vs] by simp
  then show ?thesis using xs ListToTree_list [of xs] by (simp add: rowSetListToTree_def)
qed

theorem rowset_tree_balanced_witness: "2 ^ (depth (rowSetListToTree [1, 2, 3, 4, 5]) - 1) \<le> (5 :: nat)"
  using rowset_tree_balanced [of "[1, 2, 3, 4, 5]"] by simp

subsection \<open>The contract of the containers\<close>

definition row_puts :: "rowset \<Rightarrow> i64 \<Rightarrow> rowset \<Rightarrow> bool" where
  "row_puts p k p' \<longleftrightarrow> (\<exists>al al'. False \<notin> set al \<and> sqlite3RowSetInsert al p k = (p', al')) \<and>
     length (pEntry p') < 2 ^ n_buckets"

text \<open>A test with a new batch number.\<close>

definition row_member :: "rowset \<Rightarrow> i64 \<Rightarrow> bool" where
  "row_member p k = (case sqlite3RowSetTest [] p (iBatch p + 1) k of None \<Rightarrow> False | Some (b, _) \<Rightarrow> b)"

definition row_ok :: "rowset \<Rightarrow> bool" where
  "row_ok p \<longleftrightarrow> row_inv p \<and> length (pEntry p) < 2 ^ n_buckets"

interpretation row: number_set row_ok "\<lambda>p. visible p \<union> pending p" "\<lambda>_. UNIV" row_puts "\<lambda>_ _ _. False" row_member
proof
  fix p k p'
  assume ok: "row_ok p"
  show "row_ok p' \<and> UNIV = UNIV \<and> visible p' \<union> pending p' = insert k (visible p \<union> pending p)" if "row_puts p k p'"
  proof -
    obtain al al' where i: "False \<notin> set al" "sqlite3RowSetInsert al p k = (p', al')" using \<open>row_puts p k p'\<close> by (auto simp: row_puts_def)
    show ?thesis
      using Insert_ok [OF _ i(2)] i(1) ok \<open>row_puts p k p'\<close> by (simp add: row_ok_def row_puts_def pending_def)
  qed
  have inv: "row_inv p" "length (pEntry p) < 2 ^ n_buckets" using ok by (simp_all add: row_ok_def)
  have other: "iBatch p + 1 \<noteq> iBatch p" by simp
  show "row_member p k \<longleftrightarrow> k \<in> visible p \<union> pending p"
    by (rule Test_ok [OF inv, of "[]" "iBatch p + 1" k]) (simp add: row_member_def other)
qed simp_all

end
