(* ===== verification/SqlComplete.thy ===== *)
theory SqlComplete
  imports SqlChar
begin

section \<open>Is an SQL text complete? (complete.c)\<close>

text \<open>
  \<open>sqlite3_complete\<close> cuts a text into tokens and runs a state machine of eight states over them. The
  text is the list of its characters before the terminating zero; reading on yields zero, as
  \<open>cstr_hd\<close> does. The model is the build with triggers and EXPLAIN in ASCII.
\<close>

subsection \<open>Tokens\<close>

definition tkSEMI :: nat where "tkSEMI = 0"
definition tkWS :: nat where "tkWS = 1"
definition tkOTHER :: nat where "tkOTHER = 2"
definition tkEXPLAIN :: nat where "tkEXPLAIN = 3"
definition tkCREATE :: nat where "tkCREATE = 4"
definition tkTEMP :: nat where "tkTEMP = 5"
definition tkTRIGGER :: nat where "tkTRIGGER = 6"
definition tkEND :: nat where "tkEND = 7"

definition trans :: "nat list list" where
  "trans =
    [[1, 0, 2, 3, 4, 2, 2, 2],
     [1, 1, 2, 3, 4, 2, 2, 2],
     [1, 2, 2, 2, 2, 2, 2, 2],
     [1, 3, 3, 2, 4, 2, 2, 2],
     [1, 4, 2, 2, 2, 4, 5, 2],
     [6, 5, 5, 5, 5, 5, 5, 5],
     [6, 6, 5, 5, 5, 5, 5, 7],
     [1, 7, 5, 5, 5, 5, 5, 5]]"

text \<open>ASCII texts as the code has them.\<close>

definition chars :: "string \<Rightarrow> u8 list" where
  "chars s = map of_char s"

definition ch :: "char \<Rightarrow> u8" where
  "ch c = of_char c"

text \<open>One round of the loop: a token and the rest of the text, or one of the two early returns: 0 for
  an open comment, bracket or quote, and \<open>state==1\<close> for a line comment that ends the text.\<close>

datatype scanned = Token nat "u8 list" | Open | LineEnd

fun skip_comment :: "u8 list \<Rightarrow> u8 list" where
  "skip_comment [] = []"
| "skip_comment (c # z) = (if c = ch CHR ''*'' \<and> cstr_hd z = ch CHR ''/'' then c # z else skip_comment z)"

fun skip_to :: "u8 \<Rightarrow> u8 list \<Rightarrow> u8 list" where
  "skip_to q [] = []"
| "skip_to q (c # z) = (if c = q then c # z else skip_to q z)"

definition is_kw :: "u8 list \<Rightarrow> nat \<Rightarrow> string \<Rightarrow> bool" where
  "is_kw z nId w \<longleftrightarrow> nId = length w \<and> sqlite3_strnicmp (Some z) (Some (chars w)) (int (length w)) = 0"

definition keyword_token :: "u8 list \<Rightarrow> nat \<Rightarrow> nat" where
  "keyword_token z nId =
     (if hd z = ch CHR ''c'' \<or> hd z = ch CHR ''C''
      then if is_kw z nId ''create'' then tkCREATE else tkOTHER
      else if hd z = ch CHR ''t'' \<or> hd z = ch CHR ''T''
      then if is_kw z nId ''trigger'' then tkTRIGGER
           else if is_kw z nId ''temp'' then tkTEMP
           else if is_kw z nId ''temporary'' then tkTEMP else tkOTHER
      else if hd z = ch CHR ''e'' \<or> hd z = ch CHR ''E''
      then if is_kw z nId ''end'' then tkEND
           else if is_kw z nId ''explain'' then tkEXPLAIN else tkOTHER
      else tkOTHER)"

fun next_token :: "u8 list \<Rightarrow> scanned" where
  "next_token [] = LineEnd"
| "next_token (c # z) =
     (if c = ch CHR '';'' then Token tkSEMI z
      else if c \<in> {ch CHR '' '', 0x0D, 0x09, 0x0A, 0x0C} then Token tkWS z
      else if c = ch CHR ''/''
      then if cstr_hd z \<noteq> ch CHR ''*'' then Token tkOTHER z
           else (case skip_comment (tl z) of [] \<Rightarrow> Open | _ # z \<Rightarrow> Token tkWS (tl z))
      else if c = ch CHR ''-''
      then if cstr_hd z \<noteq> ch CHR ''-'' then Token tkOTHER z
           else (case skip_to 0x0A (c # z) of [] \<Rightarrow> LineEnd | _ # z \<Rightarrow> Token tkWS z)
      else if c = ch CHR ''[''
      then (case skip_to (ch CHR '']'') z of [] \<Rightarrow> Open | _ # z \<Rightarrow> Token tkOTHER z)
      else if c \<in> {ch CHR ''`'', 0x22, 0x27}
      then (case skip_to c z of [] \<Rightarrow> Open | _ # z \<Rightarrow> Token tkOTHER z)
      else if IdChar c
      then let nId = 1 + length (takeWhile IdChar z)
           in Token (keyword_token (c # z) nId) (drop nId (c # z))
      else Token tkOTHER z)"

lemma skip_shorter: "length (skip_comment z) \<le> length z" "length (skip_to q z) \<le> length z"
  by (induction z) auto

lemma skip_rest:
  "skip_to q z = x # z' \<Longrightarrow> length z' < length z"
  "skip_comment z = x # z' \<Longrightarrow> length z' < length z"
  using skip_shorter(2) [of q z] skip_shorter(1) [of z] by simp_all

lemma next_token_shorter:
  assumes "next_token z = Token t z'" shows "length z' < length z"
proof (cases z)
  case (Cons c y)
  have s: "length z' < Suc (length y)" if "skip_to q y = x # z'" for q x
    using skip_rest(1) [OF that] by simp
  have c: "length (tl w) < Suc (length y)" if "skip_comment (tl y) = x # w" for x w
  proof -
    have "length w < length y" using skip_rest(2) [OF that] by simp
    then show ?thesis by simp
  qed
  have l: "length z' < Suc (length y)" if "(if ch CHR ''-'' = 0x0A then ch CHR ''-'' # y else skip_to 0x0A y) = x # z'" for x
    using that s by (auto split: if_splits)
  show ?thesis
    using assms Cons s c l by (auto simp: Let_def split: if_splits list.splits)
qed (use assms in simp)

function complete_loop :: "nat \<Rightarrow> u8 list \<Rightarrow> bool" where
  "complete_loop state z =
     (case next_token z of
        Open \<Rightarrow> False
      | LineEnd \<Rightarrow> state = 1
      | Token token z' \<Rightarrow> complete_loop (trans ! state ! token) z')"
  by auto
termination
  by (relation "measure (\<lambda>(s, z). length z)") (auto dest: next_token_shorter)

declare complete_loop.simps [simp del]

definition sqlite3_complete :: "u8 list \<Rightarrow> bool" where
  "sqlite3_complete zSql = complete_loop 0 zSql"

subsection \<open>What a complete text is\<close>

text \<open>The tokens of a text, and whether its last bracket, quote or comment is closed.\<close>

function tokens :: "u8 list \<Rightarrow> nat list \<times> bool" where
  "tokens z =
     (case next_token z of
        Open \<Rightarrow> ([], False)
      | LineEnd \<Rightarrow> ([], True)
      | Token token z' \<Rightarrow> (token # fst (tokens z'), snd (tokens z')))"
  by auto
termination
  by (relation "measure length") (auto dest: next_token_shorter)

declare tokens.simps [simp del]

text \<open>\<open>CREATE\<close>, any number of \<open>TEMP\<close>, \<open>TRIGGER\<close>; before that possibly \<open>EXPLAIN\<close> and other tokens.\<close>

fun after_create :: "nat list \<Rightarrow> bool" where
  "after_create [] = False"
| "after_create (t # ts) = (t = tkTRIGGER \<or> t = tkTEMP \<and> after_create ts)"

fun after_explain :: "nat list \<Rightarrow> bool" where
  "after_explain [] = False"
| "after_explain (t # ts) = (t = tkOTHER \<and> after_explain ts \<or> t = tkCREATE \<and> after_create ts)"

fun starts_trigger :: "nat list \<Rightarrow> bool" where
  "starts_trigger [] = False"
| "starts_trigger (t # ts) = (t = tkEXPLAIN \<and> after_explain ts \<or> t = tkCREATE \<and> after_create ts)"

text \<open>What follows the first \<open>;\<close>, and what follows the first \<open>; END ;\<close>.\<close>

fun end_plain :: "nat list \<Rightarrow> nat list option" where
  "end_plain [] = None"
| "end_plain (t # ts) = (if t = tkSEMI then Some ts else end_plain ts)"

fun end_trigger :: "nat list \<Rightarrow> nat list option" where
  "end_trigger (a # b # c # ts) =
     (if a = tkSEMI \<and> b = tkEND \<and> c = tkSEMI then Some ts else end_trigger (b # c # ts))"
| "end_trigger _ = None"

lemma end_shorter:
  "end_plain ts = Some r \<Longrightarrow> length r < length ts"
  "end_trigger ts = Some r \<Longrightarrow> length r < length ts"
proof -
  show "end_plain ts = Some r \<Longrightarrow> length r < length ts"
    by (induction ts) (auto split: if_splits)
  show "end_trigger ts = Some r \<Longrightarrow> length r < length ts"
    by (induction ts rule: end_trigger.induct) (auto split: if_splits)
qed

function statements :: "nat list \<Rightarrow> bool" where
  "statements ts =
     (ts = [] \<or>
      (case (if starts_trigger ts then end_trigger ts else end_plain ts) of
         None \<Rightarrow> False
       | Some r \<Rightarrow> statements r))"
  by auto
termination
  by (relation "measure length") (auto split: if_splits dest: end_shorter)

declare statements.simps [simp del]

subsection \<open>The state machine accepts the complete texts\<close>

definition step :: "nat \<Rightarrow> nat \<Rightarrow> nat" where
  "step s t = trans ! s ! t"

definition accepts :: "nat \<Rightarrow> nat list \<Rightarrow> bool" where
  "accepts s ts \<longleftrightarrow> foldl step s ts = 1"

lemmas tk_defs = tkSEMI_def tkWS_def tkOTHER_def tkEXPLAIN_def tkCREATE_def tkTEMP_def tkTRIGGER_def tkEND_def

lemma accepts_Cons: "accepts s (t # ts) \<longleftrightarrow> accepts (step s t) ts"
  by (simp add: accepts_def)

lemma complete_loop_tokens: "complete_loop s z \<longleftrightarrow> snd (tokens z) \<and> accepts s (fst (tokens z))"
proof (induction s z rule: complete_loop.induct)
  case (1 s z)
  then show ?case
    by (subst complete_loop.simps, subst (1 2) tokens.simps) (auto simp: accepts_def step_def split: scanned.splits)
qed

definition solid :: "nat list \<Rightarrow> bool" where
  "solid ts \<longleftrightarrow> set ts \<subseteq> {0, 2, 3, 4, 5, 6, 7}"

lemma solid_Cons: "solid (t # ts) \<longleftrightarrow> (t = 0 \<or> t = 2 \<or> t = 3 \<or> t = 4 \<or> t = 5 \<or> t = 6 \<or> t = 7) \<and> solid ts"
  by (auto simp: solid_def)

lemma step_table:
  "step 0 0 = 1" "step 0 2 = 2" "step 0 3 = 3" "step 0 4 = 4" "step 0 5 = 2" "step 0 6 = 2" "step 0 7 = 2"
  "step 1 0 = 1" "step 1 2 = 2" "step 1 3 = 3" "step 1 4 = 4" "step 1 5 = 2" "step 1 6 = 2" "step 1 7 = 2"
  "step 2 0 = 1" "step 2 2 = 2" "step 2 3 = 2" "step 2 4 = 2" "step 2 5 = 2" "step 2 6 = 2" "step 2 7 = 2"
  "step 3 0 = 1" "step 3 2 = 3" "step 3 3 = 2" "step 3 4 = 4" "step 3 5 = 2" "step 3 6 = 2" "step 3 7 = 2"
  "step 4 0 = 1" "step 4 2 = 2" "step 4 3 = 2" "step 4 4 = 2" "step 4 5 = 4" "step 4 6 = 5" "step 4 7 = 2"
  "step 5 0 = 6" "step 5 2 = 5" "step 5 3 = 5" "step 5 4 = 5" "step 5 5 = 5" "step 5 6 = 5" "step 5 7 = 5"
  "step 6 0 = 6" "step 6 2 = 5" "step 6 3 = 5" "step 6 4 = 5" "step 6 5 = 5" "step 6 6 = 5" "step 6 7 = 7"
  "step 7 0 = 1" "step 7 2 = 5" "step 7 3 = 5" "step 7 4 = 5" "step 7 5 = 5" "step 7 6 = 5" "step 7 7 = 5"
  by (simp_all add: step_def trans_def)

definition goes_on :: "nat list option \<Rightarrow> bool" where
  "goes_on r \<longleftrightarrow> (case r of None \<Rightarrow> False | Some ts \<Rightarrow> accepts 1 ts)"

lemma goes_on_simps [simp]: "goes_on None = False" "goes_on (Some ts) = accepts 1 ts"
  by (simp_all add: goes_on_def)

lemma end_trigger_skip: "x \<noteq> tkSEMI \<Longrightarrow> end_trigger (x # ts) = end_trigger ts"
  by (cases ts rule: end_trigger.cases) auto

lemma end_trigger_semi: "end_trigger (tkSEMI # tkSEMI # ts) = end_trigger (tkSEMI # ts)"
  by (cases ts) (auto simp: tk_defs)

lemma end_trigger_other: "x \<noteq> tkSEMI \<Longrightarrow> x \<noteq> tkEND \<Longrightarrow> end_trigger (tkSEMI # x # ts) = end_trigger ts"
  by (cases ts) (simp_all add: end_trigger_skip)

lemma accepts_normal: "solid ts \<Longrightarrow> accepts 2 ts \<longleftrightarrow> goes_on (end_plain ts)"
  by (induction ts) (auto simp: accepts_def solid_Cons step_table tk_defs)

lemma accepts_trigger:
  "solid ts \<Longrightarrow> (accepts 5 ts \<longleftrightarrow> goes_on (end_trigger ts)) \<and>
     (accepts 6 ts \<longleftrightarrow> goes_on (end_trigger (tkSEMI # ts))) \<and>
     (accepts 7 ts \<longleftrightarrow> goes_on (end_trigger (tkSEMI # tkEND # ts)))"
proof (induction ts)
  case Nil
  then show ?case by (simp add: accepts_def)
next
  case (Cons t ts)
  have ne: "tkEND \<noteq> tkSEMI" by (simp add: tk_defs)
  show ?case
  proof (cases "t = tkSEMI")
    case True
    then have "step 5 t = 6" "step 6 t = 6" "step 7 t = 1" by (simp_all add: step_table tk_defs)
    then show ?thesis using Cons True ne by (simp add: accepts_Cons solid_Cons end_trigger_skip end_trigger_semi)
  next
    case False
    then have s: "step 5 t = 5" "step 6 t = (if t = tkEND then 7 else 5)" "step 7 t = 5"
      using Cons.prems by (auto simp: step_table tk_defs solid_Cons)
    then show ?thesis
      using Cons False ne by (simp add: accepts_Cons solid_Cons end_trigger_skip end_trigger_other)
  qed
qed

lemma accepts_create:
  "solid ts \<Longrightarrow> accepts 4 ts \<longleftrightarrow> goes_on (if after_create ts then end_trigger ts else end_plain ts)"
proof (induction ts)
  case (Cons t ts)
  then have "accepts 4 (t # ts) \<longleftrightarrow>
      (if t = 0 then accepts 1 ts else if t = 5 then accepts 4 ts else if t = 6 then accepts 5 ts else accepts 2 ts)"
    by (auto simp: accepts_Cons solid_Cons step_table)
  then show ?case
    using Cons accepts_trigger [of ts] accepts_normal [of ts]
    by (auto simp: solid_Cons end_trigger_skip [unfolded tk_defs] tk_defs)
qed (simp add: accepts_def)

lemma accepts_explain:
  "solid ts \<Longrightarrow> accepts 3 ts \<longleftrightarrow> goes_on (if after_explain ts then end_trigger ts else end_plain ts)"
proof (induction ts)
  case (Cons t ts)
  then have "accepts 3 (t # ts) \<longleftrightarrow>
      (if t = 0 then accepts 1 ts else if t = 2 then accepts 3 ts else if t = 4 then accepts 4 ts else accepts 2 ts)"
    by (auto simp: accepts_Cons solid_Cons step_table)
  then show ?case
    using Cons accepts_create [of ts] accepts_normal [of ts]
    by (auto simp: solid_Cons end_trigger_skip [unfolded tk_defs] tk_defs)
qed (simp add: accepts_def)

lemma accepts_start:
  assumes "solid (t # ts)" "s = 0 \<or> s = 1"
  shows "accepts s (t # ts) \<longleftrightarrow> goes_on (if starts_trigger (t # ts) then end_trigger (t # ts) else end_plain (t # ts))"
proof -
  have "accepts s (t # ts) \<longleftrightarrow>
      (if t = 0 then accepts 1 ts else if t = 3 then accepts 3 ts else if t = 4 then accepts 4 ts else accepts 2 ts)"
    using assms by (auto simp: accepts_Cons solid_Cons step_table simp del: One_nat_def)
  then show ?thesis
    using assms accepts_create [of ts] accepts_explain [of ts] accepts_normal [of ts]
    by (auto simp: solid_Cons end_trigger_skip [unfolded tk_defs] tk_defs)
qed

lemma end_solid:
  "solid ts \<Longrightarrow> end_plain ts = Some r \<Longrightarrow> solid r"
  "solid ts \<Longrightarrow> end_trigger ts = Some r \<Longrightarrow> solid r"
proof -
  show "solid ts \<Longrightarrow> end_plain ts = Some r \<Longrightarrow> solid r"
    by (induction ts) (auto simp: solid_def split: if_splits)
  show "solid ts \<Longrightarrow> end_trigger ts = Some r \<Longrightarrow> solid r"
    by (induction ts rule: end_trigger.induct) (auto simp: solid_def split: if_splits)
qed

lemma accepts_statements: "solid ts \<Longrightarrow> accepts 1 ts \<longleftrightarrow> statements ts"
proof (induction ts rule: statements.induct)
  case (1 ts)
  show ?case
  proof (cases ts)
    case Nil
    then show ?thesis by (simp add: accepts_def statements.simps)
  next
    case (Cons t ts')
    let ?r = "if starts_trigger ts then end_trigger ts else end_plain ts"
    have a: "accepts 1 ts \<longleftrightarrow> goes_on ?r" using accepts_start [of t ts' 1] 1(2) Cons by simp
    show ?thesis
    proof (cases ?r)
      case None
      then show ?thesis unfolding a by (subst statements.simps) (simp add: Cons)
    next
      case (Some r)
      then have "solid r" using end_solid [OF 1(2)] by (auto split: if_splits)
      then have "accepts 1 r \<longleftrightarrow> statements r" using 1(1) [OF Some] by blast
      moreover have "statements ts \<longleftrightarrow> statements r" using Some Cons by (subst statements.simps) simp
      ultimately show ?thesis unfolding a Some by simp
    qed
  qed
qed

lemma keyword_range: "keyword_token z n \<in> {2, 3, 4, 5, 6, 7}"
  by (simp add: keyword_token_def tk_defs)

lemma next_token_range: "next_token z = Token t z' \<Longrightarrow> t < 8"
proof -
  have k: "keyword_token w n < 8" for w n using keyword_range [of w n] by auto
  show "next_token z = Token t z' \<Longrightarrow> t < 8"
    by (cases z) (auto simp: Let_def k tkSEMI_def tkWS_def tkOTHER_def split: if_splits list.splits)
qed

lemma tokens_range: "set (fst (tokens z)) \<subseteq> {0..<8}"
proof (induction z rule: tokens.induct)
  case (1 z)
  then show ?case by (subst tokens.simps) (auto dest: next_token_range split: scanned.splits)
qed

lemma accepts_blank:
  assumes "set ts \<subseteq> {0..<8}" "s < 8"
  shows "accepts s ts \<longleftrightarrow> accepts s (filter (\<lambda>t. t \<noteq> tkWS) ts)"
  using assms
proof (induction ts arbitrary: s)
  case (Cons t ts)
  have "\<forall>s\<in>set [0..<8]. step s 1 = s" "\<forall>s\<in>set [0..<8]. \<forall>t\<in>set [0..<8]. step s t < 8" by code_simp+
  then have "step s 1 = s" "step s t < 8" using Cons.prems by auto
  then show ?case using Cons by (auto simp: accepts_Cons tkWS_def)
qed simp

text \<open>
  C22. \<open>sqlite3_complete\<close> says yes exactly when no comment, bracket or quote is left open and the
  tokens other than white space are one statement or more, each ended: a statement that begins with
  \<open>CREATE\<close>, any number of \<open>TEMP\<close> and \<open>TRIGGER\<close>, possibly after \<open>EXPLAIN\<close>, by \<open>; END ;\<close>, and every other
  one by its first semicolon.
\<close>

theorem complete_iff_statements:
  "sqlite3_complete zSql \<longleftrightarrow>
     snd (tokens zSql) \<and>
     filter (\<lambda>t. t \<noteq> tkWS) (fst (tokens zSql)) \<noteq> [] \<and>
     statements (filter (\<lambda>t. t \<noteq> tkWS) (fst (tokens zSql)))"
proof -
  let ?ts = "filter (\<lambda>t. t \<noteq> tkWS) (fst (tokens zSql))"
  have s: "solid ?ts"
  proof -
    have "t \<in> {0, 2, 3, 4, 5, 6, 7}" if "t < 8" "t \<noteq> 1" for t :: nat using that by auto
    then show ?thesis using tokens_range [of zSql] by (auto simp: solid_def tkWS_def)
  qed
  have "accepts 0 (fst (tokens zSql)) \<longleftrightarrow> accepts 0 ?ts" using accepts_blank tokens_range by simp
  moreover have "accepts 0 ?ts \<longleftrightarrow> ?ts \<noteq> [] \<and> statements ?ts"
  proof (cases ?ts)
    case Nil
    then show ?thesis by (simp add: accepts_def)
  next
    case (Cons t ts)
    then have "accepts 0 ?ts \<longleftrightarrow> accepts 1 ?ts" using accepts_start [of t ts] s by metis
    then show ?thesis using accepts_statements [OF s] Cons by simp
  qed
  ultimately show ?thesis by (simp add: sqlite3_complete_def complete_loop_tokens)
qed

end
