(* ===== verification/SqlMemJournal.thy ===== *)
theory SqlMemJournal
  imports Prelude
begin

section \<open>The in-memory journal of the bundled SQLite (memjournal.c)\<close>

text \<open>
  A rollback journal that is kept in a list of chunks and may be spilled to a real file. A pointer
  to a chunk is its position in the list. New chunks come from an allocator that is given by the
  contents of the blocks it will return, \<open>None\<close> for a failure; the real file is a parameter, with the
  functions \<open>os_open\<close> and \<open>os_write\<close> of the virtual file system. Offsets and sizes are natural numbers,
  below \<open>2 ^ 63\<close> in the code. The model is the build without the atomic-write options. Where the code
  would follow a null pointer the result is \<open>None\<close>.
\<close>

subsection \<open>Data and operations\<close>

definition SQLITE_OK :: int where "SQLITE_OK = 0"
definition SQLITE_IOERR_SHORT_READ :: int where "SQLITE_IOERR_SHORT_READ = 522"
definition SQLITE_IOERR_NOMEM :: int where "SQLITE_IOERR_NOMEM = 3082"

definition MEMJOURNAL_DFLT_FILECHUNKSIZE :: nat where "MEMJOURNAL_DFLT_FILECHUNKSIZE = 1024"
definition sizeof_FileChunk :: nat where "sizeof_FileChunk = 16"

record memjournal =
  nChunkSize :: nat
  nSpill :: int
  pFirst :: "u8 list list"
  ep_off :: nat
  ep_chunk :: "nat option"
  rp_off :: nat
  rp_chunk :: "nat option"

text \<open>The handle is a memory journal or, once it is spilled, the real file.\<close>

datatype 'f handle = Mem memjournal | Real 'f

fun malloc_chunk :: "nat \<Rightarrow> u8 list option list \<Rightarrow> u8 list option \<times> u8 list option list" where
  "malloc_chunk n [] = (Some (replicate n 0), [])"
| "malloc_chunk n (None # al) = (None, al)"
| "malloc_chunk n (Some b # al) = (Some (take n (b @ replicate n 0)), al)"

text \<open>The loops that look for a chunk by its offset: with \<open>iOff+nChunkSize<=iOfst\<close> from the offset 0,
  and with \<open>iOff<=size\<close> from the offset \<open>nChunkSize\<close>.\<close>

fun read_walk :: "nat \<Rightarrow> u8 list list \<Rightarrow> nat \<Rightarrow> nat \<Rightarrow> nat \<Rightarrow> nat option" where
  "read_walk c [] i iOff iOfst = None"
| "read_walk c (x # xs) i iOff iOfst =
     (if iOff + c \<le> iOfst then read_walk c xs (i + 1) (iOff + c) iOfst else Some i)"

fun truncate_walk :: "nat \<Rightarrow> u8 list list \<Rightarrow> nat \<Rightarrow> nat \<Rightarrow> nat \<Rightarrow> nat option" where
  "truncate_walk c [] i iOff sz = None"
| "truncate_walk c (x # xs) i iOff sz =
     (if iOff \<le> sz then truncate_walk c xs (i + 1) (iOff + c) sz else Some i)"

text \<open>The copying loop, from the chunk number \<open>i\<close> on: the bytes, and the chunk it ends at.\<close>

fun read_loop :: "nat \<Rightarrow> u8 list list \<Rightarrow> nat \<Rightarrow> int \<Rightarrow> nat \<Rightarrow> u8 list \<times> nat option" where
  "read_loop c [] i nRead off = ([], None)"
| "read_loop c (x # xs) i nRead off =
     (let iSpace = c - off;
          out = take (nat (min nRead (int iSpace))) (drop off x);
          nRead = nRead - int iSpace
      in if nRead \<ge> 0
         then if xs = [] then (out, None)
              else if nRead > 0
              then case read_loop c xs (i + 1) nRead 0 of (rest, e) \<Rightarrow> (out @ rest, e)
              else (out, Some (i + 1))
         else (out, Some i))"

definition memjrnlRead :: "memjournal \<Rightarrow> nat \<Rightarrow> nat \<Rightarrow> (int \<times> u8 list \<times> memjournal) option" where
  "memjrnlRead p iAmt iOfst =
     (if ep_off p < iAmt + iOfst then Some (SQLITE_IOERR_SHORT_READ, [], p)
      else case (if rp_off p \<noteq> iOfst \<or> iOfst = 0 then read_walk (nChunkSize p) (pFirst p) 0 0 iOfst else rp_chunk p) of
        None \<Rightarrow> None
      | Some i \<Rightarrow>
          (case read_loop (nChunkSize p) (drop i (pFirst p)) i (int iAmt) (iOfst mod nChunkSize p) of
             (out, e) \<Rightarrow>
               Some (SQLITE_OK, out,
                 p\<lparr>rp_off := (case e of None \<Rightarrow> 0 | Some _ \<Rightarrow> iOfst + iAmt), rp_chunk := e\<rparr>)))"

text \<open>One round of the writing loop adds a chunk when the last one is full and fills it as far as it
  goes.\<close>

definition put_bytes :: "memjournal \<Rightarrow> nat \<Rightarrow> nat \<Rightarrow> u8 list \<Rightarrow> memjournal" where
  "put_bytes p i off b =
     p\<lparr>pFirst := (pFirst p)[i := take off (pFirst p ! i) @ b @ drop (off + length b) (pFirst p ! i)],
       ep_off := ep_off p + length b\<rparr>"

definition link_chunk :: "memjournal \<Rightarrow> u8 list \<Rightarrow> memjournal" where
  "link_chunk p b =
     (case ep_chunk p of
        Some i \<Rightarrow> p\<lparr>pFirst := take (i + 1) (pFirst p) @ [b], ep_chunk := Some (i + 1)\<rparr>
      | None \<Rightarrow> p\<lparr>pFirst := [b], ep_chunk := Some 0\<rparr>)"

function write_loop ::
  "u8 list option list \<Rightarrow> memjournal \<Rightarrow> u8 list \<Rightarrow> (int \<times> memjournal \<times> u8 list option list) option" where
  "write_loop al p z =
     (if z = [] then Some (SQLITE_OK, p, al)
      else if nChunkSize p = 0 then None
      else
        let off = ep_off p mod nChunkSize p;
            iSpace = min (length z) (nChunkSize p - off)
        in if off = 0
           then (case malloc_chunk (nChunkSize p) al of
                   (None, al) \<Rightarrow> Some (SQLITE_IOERR_NOMEM, p, al)
                 | (Some b, al) \<Rightarrow>
                     let p = link_chunk p b
                     in write_loop al (put_bytes p (the (ep_chunk p)) off (take iSpace z)) (drop iSpace z))
           else (case ep_chunk p of
                   None \<Rightarrow> None
                 | Some i \<Rightarrow> write_loop al (put_bytes p i off (take iSpace z)) (drop iSpace z)))"
  by auto
termination
proof (relation "measure (\<lambda>(al, p, z). length z)", goal_cases)
  case (2 al p z off iSpace)
  then have "0 < iSpace" by simp
  then show ?case using 2(1) by simp
next
  case (3 al p z off iSpace)
  then have "0 < iSpace" by simp
  then show ?case using 3(1) by simp
qed auto

declare write_loop.simps [simp del]

text \<open>\<open>memjrnlCreateFile\<close> writes the chunks out one after another; when that fails the journal stays
  in memory.\<close>

fun spill_loop :: "('f \<Rightarrow> u8 list \<Rightarrow> int \<Rightarrow> int \<times> 'f) \<Rightarrow> 'f \<Rightarrow> int \<Rightarrow> u8 list list \<Rightarrow> int \<Rightarrow> int \<Rightarrow> int \<times> 'f" where
  "spill_loop os_write f nChunk [] iOff endp = (SQLITE_OK, f)"
| "spill_loop os_write f nChunk (x # xs) iOff endp =
     (let nChunk = (if iOff + nChunk > endp then endp - iOff else nChunk) in
      case os_write f (take (nat nChunk) x) iOff of
        (rc, f) \<Rightarrow> if rc \<noteq> 0 then (rc, f) else spill_loop os_write f nChunk xs (iOff + nChunk) endp)"

definition memjrnlCreateFile ::
  "(int \<times> 'f) \<Rightarrow> ('f \<Rightarrow> u8 list \<Rightarrow> int \<Rightarrow> int \<times> 'f) \<Rightarrow> memjournal \<Rightarrow> int \<times> 'f handle" where
  "memjrnlCreateFile os_open os_write p =
     (case os_open of
        (rc, f) \<Rightarrow>
          if rc = SQLITE_OK
          then (case spill_loop os_write f (int (nChunkSize p)) (pFirst p) 0 (int (ep_off p)) of
                  (rc, f) \<Rightarrow> if rc = SQLITE_OK then (rc, Real f) else (rc, Mem p))
          else (rc, Mem p))"

definition memjrnlWrite ::
  "(int \<times> 'f) \<Rightarrow> ('f \<Rightarrow> u8 list \<Rightarrow> int \<Rightarrow> int \<times> 'f) \<Rightarrow> u8 list option list \<Rightarrow> memjournal \<Rightarrow> u8 list \<Rightarrow> nat \<Rightarrow>
   (int \<times> 'f handle \<times> u8 list option list) option" where
  "memjrnlWrite os_open os_write al p zBuf iOfst =
     (if nSpill p > 0 \<and> int (length zBuf + iOfst) > nSpill p
      then (case memjrnlCreateFile os_open os_write p of
              (rc, h) \<Rightarrow>
                (case h of
                   Real f \<Rightarrow> (case os_write f zBuf (int iOfst) of (rc, f) \<Rightarrow> Some (rc, Real f, al))
                 | Mem p \<Rightarrow> Some (rc, Mem p, al)))
      else map_option (\<lambda>(rc, p, al). (rc, Mem p, al)) (write_loop al p zBuf))"

definition memjrnlTruncate :: "memjournal \<Rightarrow> nat \<Rightarrow> memjournal" where
  "memjrnlTruncate p sz =
     (if sz < ep_off p
      then let (xs, i) =
             (if sz = 0 then ([], None)
              else let i = truncate_walk (nChunkSize p) (pFirst p) 0 (nChunkSize p) sz
                   in (case i of None \<Rightarrow> pFirst p | Some k \<Rightarrow> take (k + 1) (pFirst p), i))
           in p\<lparr>pFirst := xs, ep_chunk := i, ep_off := sz, rp_chunk := None, rp_off := 0\<rparr>
      else p)"

definition memjrnlSync :: "memjournal \<Rightarrow> int \<Rightarrow> int" where
  "memjrnlSync p flags = SQLITE_OK"

definition memjrnlFileSize :: "memjournal \<Rightarrow> int \<times> nat" where
  "memjrnlFileSize p = (SQLITE_OK, ep_off p)"

definition sqlite3JournalOpen :: "(int \<times> 'f) \<Rightarrow> int \<Rightarrow> int \<times> 'f handle" where
  "sqlite3JournalOpen os_open spill =
     (if spill = 0 then (case os_open of (rc, f) \<Rightarrow> (rc, Real f))
      else (SQLITE_OK, Mem \<lparr>
        nChunkSize = (if spill > 0 then nat spill else 8 + MEMJOURNAL_DFLT_FILECHUNKSIZE - sizeof_FileChunk),
        nSpill = spill, pFirst = [], ep_off = 0, ep_chunk = None, rp_off = 0, rp_chunk = None\<rparr>))"

definition sqlite3MemJournalOpen :: "(int \<times> 'f) \<Rightarrow> 'f handle" where
  "sqlite3MemJournalOpen os_open = snd (sqlite3JournalOpen os_open (- 1))"

fun sqlite3JournalIsInMemory :: "'f handle \<Rightarrow> bool" where
  "sqlite3JournalIsInMemory (Mem p) = True"
| "sqlite3JournalIsInMemory (Real f) = False"

subsection \<open>Chunks of one size\<close>

definition chunked :: "nat \<Rightarrow> u8 list list \<Rightarrow> bool" where
  "chunked c xs \<longleftrightarrow> 0 < c \<and> (\<forall>x\<in>set xs. length x = c)"

lemma chunked_Cons: "chunked c (x # xs) \<longleftrightarrow> length x = c \<and> chunked c xs"
  by (auto simp: chunked_def)

lemma chunked_length: "chunked c xs \<Longrightarrow> length (concat xs) = c * length xs"
  by (induction xs) (auto simp: chunked_Cons)

lemma chunked_drop: "chunked c xs \<Longrightarrow> drop (k * c) (concat xs) = concat (drop k xs)"
proof (induction xs arbitrary: k)
  case (Cons x xs)
  then show ?case by (cases k) (simp_all add: chunked_Cons)
qed simp

lemma chunked_take: "chunked c xs \<Longrightarrow> take (k * c) (concat xs) = concat (take k xs)"
proof (induction xs arbitrary: k)
  case (Cons x xs)
  then show ?case by (cases k) (simp_all add: chunked_Cons)
qed simp

lemma chunked_sub: "chunked c xs \<Longrightarrow> chunked c (drop k xs) \<and> chunked c (take k xs)"
  by (auto simp: chunked_def dest: in_set_dropD in_set_takeD)

lemma read_walk_at:
  "0 < c \<Longrightarrow> off \<le> iOfst \<Longrightarrow> (iOfst - off) div c < length xs \<Longrightarrow> read_walk c xs i off iOfst = Some (i + (iOfst - off) div c)"
proof (induction xs arbitrary: i off)
  case (Cons x xs)
  show ?case
  proof (cases "off + c \<le> iOfst")
    case True
    then have d: "(iOfst - off) div c = 1 + (iOfst - (off + c)) div c"
      using Cons.prems(1) le_div_geq [of c "iOfst - off"] by simp
    then show ?thesis using Cons.IH [of "off + c" "i + 1"] Cons.prems True by simp
  next
    case False
    then have "(iOfst - off) div c = 0" using Cons.prems by simp
    then show ?thesis using False by simp
  qed
qed simp

lemma truncate_walk_read: "c \<le> off \<Longrightarrow> truncate_walk c xs i off sz = read_walk c xs i (off - c) sz"
  by (induction xs arbitrary: i off) auto

lemma read_loop_ok:
  "chunked c xs \<Longrightarrow> off < c \<Longrightarrow> 0 < n \<Longrightarrow> n + off \<le> c * length xs \<Longrightarrow>
   read_loop c xs i (int n) off =
     (take n (drop off (concat xs)), if off + n < c * length xs then Some (i + (off + n) div c) else None)"
proof (induction xs arbitrary: i n off)
  case (Cons x xs)
  have x: "length x = c" "chunked c xs" using Cons.prems(1) by (simp_all add: chunked_Cons)
  have c: "0 < c" using Cons.prems(2) by simp
  let ?s = "c - off"
  have out: "take (nat (min (int n) (int ?s))) (drop off x) = take n (drop off x)"
    using x(1) by (cases "n \<le> ?s") (simp_all add: min_def)
  show ?case
  proof (cases "n < ?s")
    case True
    then have "(off + n) div c = 0" "off + n < c * length (x # xs)" using c by auto
    then show ?thesis using True out x(1) by (simp add: Let_def)
  next
    case False
    then have n: "int n - int ?s = int (n - ?s)" by simp
    have bk: "(off + n) div c = 1 + (0 + (n - ?s)) div c"
    proof -
      have "c \<le> off + n" "off + n - c = n - ?s" using False Cons.prems(2) by simp_all
      then show ?thesis using le_div_geq [OF c, of "off + n"] by simp
    qed
    show ?thesis
    proof (cases "n = ?s")
      case True
      then show ?thesis using out x bk Cons.prems(2) c by (cases xs) (auto simp: Let_def)
    next
      case more: False
      have xs: "xs \<noteq> []" using more False Cons.prems(4) by auto
      have "read_loop c xs (i + 1) (int (n - ?s)) 0 =
          (take (n - ?s) (drop 0 (concat xs)), if 0 + (n - ?s) < c * length xs then Some (i + 1 + (0 + (n - ?s)) div c) else None)"
        using more False Cons.prems(4) by (intro Cons.IH x(2) c) auto
      moreover have "0 + (n - ?s) < c * length xs \<longleftrightarrow> off + n < c * length (x # xs)" using False Cons.prems(2) by auto
      moreover have "c < n + off" using more False Cons.prems(2) by simp
      ultimately show ?thesis
        using out x(1) bk xs n False more Cons.prems(2) by (simp add: Let_def del: of_nat_diff)
    qed
  qed
qed simp

subsection \<open>The journal as a sequence of bytes\<close>

definition jrn_inv :: "memjournal \<Rightarrow> bool" where
  "jrn_inv p \<longleftrightarrow> chunked (nChunkSize p) (pFirst p) \<and>
     ep_off p \<le> nChunkSize p * length (pFirst p) \<and> nChunkSize p * length (pFirst p) < ep_off p + nChunkSize p \<and>
     ep_chunk p = (if pFirst p = [] then None else Some (length (pFirst p) - 1)) \<and>
     (rp_off p \<noteq> 0 \<longrightarrow> rp_chunk p = Some (rp_off p div nChunkSize p) \<and> rp_off p div nChunkSize p < length (pFirst p))"

definition jrn_bytes :: "memjournal \<Rightarrow> u8 list" where
  "jrn_bytes p = take (ep_off p) (concat (pFirst p))"

lemma jrn_length: "jrn_inv p \<Longrightarrow> length (jrn_bytes p) = ep_off p"
  using chunked_length [of "nChunkSize p" "pFirst p"] by (simp add: jrn_inv_def jrn_bytes_def)

text \<open>Reading: the bytes asked for, or \<open>SQLITE_IOERR_SHORT_READ\<close>.\<close>

lemma take_drop_take: "n + k \<le> m \<Longrightarrow> take n (drop k (take m xs)) = take n (drop k xs)"
  by (simp add: take_drop min_def add.commute)

lemma Read_ok:
  assumes inv: "jrn_inv p" and n: "0 < n"
  shows "\<exists>p'. memjrnlRead p n k =
      Some (if ep_off p < n + k then (SQLITE_IOERR_SHORT_READ, [], p) else (SQLITE_OK, take n (drop k (jrn_bytes p)), p')) \<and>
    (n + k \<le> ep_off p \<longrightarrow> jrn_inv p' \<and> jrn_bytes p' = jrn_bytes p \<and> ep_off p' = ep_off p \<and>
       pFirst p' = pFirst p \<and> nChunkSize p' = nChunkSize p \<and> nSpill p' = nSpill p)"
proof (cases "ep_off p < n + k")
  case True
  then show ?thesis by (simp add: memjrnlRead_def)
next
  case False
  let ?c = "nChunkSize p" and ?xs = "pFirst p"
  have ch: "chunked ?c ?xs" and c: "0 < ?c" using inv by (simp_all add: jrn_inv_def chunked_def)
  have len: "n + k \<le> ?c * length ?xs" using inv False by (simp add: jrn_inv_def)
  define i where "i = k div ?c"
  have k: "k = i * ?c + k mod ?c" by (simp add: i_def)
  have i: "i < length ?xs" using len n c k by (metis add_lessD1 le_add2 less_le_trans mult.commute mult_less_cancel2 not_less trans_less_add1 add.commute less_add_same_cancel1)
  have start: "(if rp_off p \<noteq> k \<or> k = 0 then read_walk ?c ?xs 0 0 k else rp_chunk p) = Some i"
    using read_walk_at [OF c, of 0 k ?xs 0] i inv by (auto simp: i_def jrn_inv_def)
  let ?ys = "drop i ?xs"
  have ys: "chunked ?c ?ys" "n + k mod ?c \<le> ?c * length ?ys"
  proof -
    show "chunked ?c ?ys" using chunked_sub [OF ch] by simp
    have "?c * length ?xs = i * ?c + ?c * length ?ys" using i by (simp add: algebra_simps diff_mult_distrib2)
    then show "n + k mod ?c \<le> ?c * length ?ys" using len k by linarith
  qed
  note rl = read_loop_ok [OF ys(1) mod_less_divisor [OF c] n ys(2), of i]
  have dat: "take n (drop (k mod ?c) (concat ?ys)) = take n (drop k (jrn_bytes p))"
  proof -
    have "drop (k mod ?c) (concat ?ys) = drop k (concat ?xs)"
      using chunked_drop [OF ch, of i] k by (metis add.commute drop_drop)
    then show ?thesis using take_drop_take [of n k "ep_off p" "concat ?xs"] False by (simp add: jrn_bytes_def)
  qed
  define e where "e = snd (read_loop ?c ?ys i (int n) (k mod ?c))"
  let ?p = "p\<lparr>rp_off := (case e of None \<Rightarrow> 0 | Some _ \<Rightarrow> k + n), rp_chunk := e\<rparr>"
  have r: "memjrnlRead p n k = Some (SQLITE_OK, take n (drop k (jrn_bytes p)), ?p)"
    using False start rl dat by (simp add: memjrnlRead_def e_def)
  have "rp_off ?p \<noteq> 0 \<longrightarrow> rp_chunk ?p = Some (rp_off ?p div ?c) \<and> rp_off ?p div ?c < length ?xs"
  proof (cases e)
    case (Some e')
    then have "k mod ?c + n < ?c * length ?ys" "e' = i + (k mod ?c + n) div ?c"
      using rl by (auto simp: e_def split: if_splits)
    moreover have "(k + n) div ?c = i + (k mod ?c + n) div ?c"
      using c k by (metis add.assoc div_mult_self3 less_numeral_extra(3))
    moreover have "(k mod ?c + n) div ?c < length ?ys" using calculation(1) c by (simp add: less_mult_imp_div_less mult.commute)
    moreover have "i + (k mod ?c + n) div ?c < length ?xs" using calculation(4) i by simp
    ultimately show ?thesis using Some by simp
  qed simp
  then have "jrn_inv ?p" using inv by (simp add: jrn_inv_def)
  then show ?thesis using r False by (intro exI [of _ ?p]) (simp add: jrn_bytes_def)
qed

text \<open>Writing appends.\<close>

lemma div_plus: "k * c + r = e \<Longrightarrow> r < c \<Longrightarrow> e div c = k \<and> e mod c = r" for k c r e :: nat
  by auto

definition jrn_more :: "memjournal \<Rightarrow> memjournal \<Rightarrow> u8 list \<Rightarrow> bool" where
  "jrn_more p p' z \<longleftrightarrow> jrn_inv p' \<and> jrn_bytes p' = jrn_bytes p @ z \<and> nChunkSize p' = nChunkSize p \<and> nSpill p' = nSpill p"

text \<open>Filling the last chunk, which has room behind \<open>off\<close>.\<close>

lemma put_bytes_ok:
  assumes ch: "chunked c (pFirst p)" "nChunkSize p = c" and i: "pFirst p \<noteq> []" "i = length (pFirst p) - 1" "ep_chunk p = Some i"
    and off: "ep_off p = i * c + off" "off + length b \<le> c" "b \<noteq> []"
    and rp: "rp_off p \<noteq> 0 \<longrightarrow> rp_chunk p = Some (rp_off p div c) \<and> rp_off p div c < length (pFirst p)"
  shows "jrn_more p (put_bytes p i off b) b"
proof -
  obtain ys x where xs: "pFirst p = ys @ [x]" using i(1) by (metis append_butlast_last_id)
  then have l: "length ys = i" using i(2) by simp
  have x: "length x = c" "chunked c ys" using ch(1) xs by (auto simp: chunked_def)
  let ?x = "take off x @ b @ drop (off + length b) x"
  have xl: "length ?x = c" using x(1) off(2) by simp
  have new: "pFirst (put_bytes p i off b) = ys @ [?x]" using xs l by (simp add: put_bytes_def nth_append list_update_append)
  have c: "0 < c" using ch(1) by (simp add: chunked_def)
  have bl: "0 < length b" using off(3) by simp
  have cl: "length (concat ys) = i * c" using chunked_length [OF x(2)] l by simp
  have chn: "chunked c (ys @ [?x])" using x(2) xl c by (auto simp: chunked_def)
  have e: "ep_off (put_bytes p i off b) = i * c + off + length b" using off(1) by (simp add: put_bytes_def)
  have "jrn_bytes (put_bytes p i off b) = concat ys @ take (off + length b) ?x"
    unfolding jrn_bytes_def new e using cl by (simp add: take_append)
  also have "take (off + length b) ?x = take off x @ b" using x(1) off(2) by simp
  also have "concat ys @ take off x @ b = jrn_bytes p @ b"
    using cl off(1) by (simp add: jrn_bytes_def xs)
  finally have b: "jrn_bytes (put_bytes p i off b) = jrn_bytes p @ b" .
  have "jrn_inv (put_bytes p i off b)"
    unfolding jrn_inv_def new e
    using chn ch(2) i(3) l off(2) bl rp xs by (simp add: put_bytes_def algebra_simps)
  then show ?thesis using b by (simp add: jrn_more_def put_bytes_def)
qed

lemma jrn_more_trans: "jrn_more p p1 a \<Longrightarrow> jrn_more p1 p2 b \<Longrightarrow> jrn_more p p2 (a @ b)"
  by (simp add: jrn_more_def)

lemma malloc_chunk_length: "malloc_chunk c al = (Some b, al') \<Longrightarrow> length b = c"
  by (cases "(c, al)" rule: malloc_chunk.cases) auto

lemma full_chunks:
  assumes "jrn_inv p" "ep_off p mod nChunkSize p = 0" shows "ep_off p = length (pFirst p) * nChunkSize p"
proof -
  let ?c = "nChunkSize p" and ?n = "length (pFirst p)"
  define q where "q = ep_off p div ?c"
  have q: "ep_off p = ?c * q" using assms(2) mult_div_mod_eq [of ?c "ep_off p"] by (simp add: q_def)
  have "?c * q \<le> ?c * ?n" "?c * ?n < ?c * (q + 1)" using assms(1) q by (simp_all add: jrn_inv_def)
  then have "q = ?n" by (metis Suc_eq_plus1 le_antisym less_Suc_eq_le mult_le_cancel1 mult_less_cancel1)
  then show ?thesis using q by simp
qed

lemma partial_chunk:
  assumes "jrn_inv p" "ep_off p mod nChunkSize p \<noteq> 0"
  shows "pFirst p \<noteq> [] \<and> ep_off p = (length (pFirst p) - 1) * nChunkSize p + ep_off p mod nChunkSize p"
proof -
  let ?c = "nChunkSize p" and ?n = "length (pFirst p)"
  have i: "ep_off p \<le> ?c * ?n" "?c * ?n < ep_off p + ?c" "0 < ?c"
    using assms(1) by (simp_all add: jrn_inv_def chunked_def)
  then have ne: "pFirst p \<noteq> []" using assms(2) by auto
  then obtain m where m: "?n = Suc m" by (cases "pFirst p") auto
  have "?c * m < ep_off p" "ep_off p \<le> ?c * m + ?c" using i m by simp_all
  moreover have "ep_off p \<noteq> ?c * m + ?c" using assms(2) by auto
  ultimately have "ep_off p div ?c = m" by (intro div_nat_eqI) auto
  then show ?thesis using ne m div_mult_mod_eq [of "ep_off p" ?c] by simp
qed

lemma link_chunk_ok:
  assumes inv: "jrn_inv p" and full: "ep_off p mod nChunkSize p = 0" and b: "length b = nChunkSize p" and z: "z \<noteq> []" "length z \<le> nChunkSize p"
  shows "jrn_more p (put_bytes (link_chunk p b) (the (ep_chunk (link_chunk p b))) 0 z) z"
proof -
  let ?q = "link_chunk p b" and ?n = "length (pFirst p)"
  have q: "pFirst ?q = pFirst p @ [b]" "ep_chunk ?q = Some ?n" "ep_off ?q = ep_off p" "nChunkSize ?q = nChunkSize p"
      "nSpill ?q = nSpill p" "rp_off ?q = rp_off p" "rp_chunk ?q = rp_chunk p"
    using inv by (auto simp: link_chunk_def jrn_inv_def)
  have e: "ep_off ?q = ?n * nChunkSize p + 0" using full_chunks [OF inv full] q(3) by simp
  have ch: "chunked (nChunkSize p) (pFirst ?q)" using inv b q(1) by (auto simp: jrn_inv_def chunked_def)
  have "jrn_more ?q (put_bytes ?q ?n 0 z) z"
    by (rule put_bytes_ok [OF ch q(4) _ _ q(2) e]) (use z q inv in \<open>auto simp: jrn_inv_def\<close>)
  moreover have "jrn_bytes ?q = jrn_bytes p"
    using e q(3) chunked_length [of "nChunkSize p" "pFirst p"] inv by (simp add: jrn_bytes_def q(1) jrn_inv_def)
  ultimately show ?thesis using q by (simp add: jrn_more_def)
qed

lemma write_loop_ok:
  "jrn_inv p \<Longrightarrow> \<exists>rc p' al' k. write_loop al p z = Some (rc, p', al') \<and> jrn_more p p' (take k z) \<and>
     (rc = SQLITE_OK \<and> k = length z \<or> rc = SQLITE_IOERR_NOMEM) \<and> (None \<notin> set al \<longrightarrow> rc = SQLITE_OK \<and> None \<notin> set al')"
proof (induction al p z rule: write_loop.induct)
  case (1 al p z)
  let ?c = "nChunkSize p"
  have c: "0 < ?c" using 1(3) by (simp add: jrn_inv_def chunked_def)
  show ?case
  proof (cases "z = []")
    case True
    then show ?thesis using 1(3) by (intro exI [of _ SQLITE_OK]) (simp add: write_loop.simps jrn_more_def)
  next
    case False
    define off where "off = ep_off p mod ?c"
    define s where "s = min (length z) (?c - off)"
    have "off < ?c" using c by (simp add: off_def)
    then have s: "take s z \<noteq> []" "off + length (take s z) \<le> ?c" using False by (simp_all add: s_def)
    have glue: "\<exists>rc p' al' k. write_loop al1 q (drop s z) = Some (rc, p', al') \<and> jrn_more p p' (take k z) \<and>
        (rc = SQLITE_OK \<and> k = length z \<or> rc = SQLITE_IOERR_NOMEM) \<and> (None \<notin> set al1 \<longrightarrow> rc = SQLITE_OK \<and> None \<notin> set al')"
      if q: "jrn_more p q (take s z)" and IH: "\<exists>rc p' al' k. write_loop al1 q (drop s z) = Some (rc, p', al') \<and> jrn_more q p' (take k (drop s z)) \<and>
         (rc = SQLITE_OK \<and> k = length (drop s z) \<or> rc = SQLITE_IOERR_NOMEM) \<and> (None \<notin> set al1 \<longrightarrow> rc = SQLITE_OK \<and> None \<notin> set al')" for q al1
    proof -
      obtain rc p' al' k where r: "write_loop al1 q (drop s z) = Some (rc, p', al')" "jrn_more q p' (take k (drop s z))"
         "rc = SQLITE_OK \<and> k = length (drop s z) \<or> rc = SQLITE_IOERR_NOMEM" "None \<notin> set al1 \<longrightarrow> rc = SQLITE_OK \<and> None \<notin> set al'"
        using IH by blast
      have "jrn_more p p' (take (s + k) z)"
        using jrn_more_trans [OF q r(2)] by (simp add: take_add)
      moreover have "k = length (drop s z) \<Longrightarrow> s + k = length z" by (simp add: s_def)
      ultimately show ?thesis using r(1,3,4) by blast
    qed
    show ?thesis
    proof (cases "off = 0")
      case True
      obtain m al1 where m: "malloc_chunk ?c al = (m, al1)" by fastforce
      have al1: "None \<notin> set al \<Longrightarrow> m \<noteq> None \<and> None \<notin> set al1"
        using m by (cases "(?c, al)" rule: malloc_chunk.cases) auto
      show ?thesis
      proof (cases m)
        case None
        then show ?thesis
          using m False c True off_def al1 1(3)
          by (subst write_loop.simps) (auto simp: Let_def jrn_more_def intro!: exI [of _ 0])
      next
        case (Some b)
        let ?q = "put_bytes (link_chunk p b) (the (ep_chunk (link_chunk p b))) off (take s z)"
        have w: "write_loop al p z = write_loop al1 ?q (drop s z)"
          using m False c True Some by (subst write_loop.simps) (simp add: Let_def off_def s_def)
        have q: "jrn_more p ?q (take s z)"
          using link_chunk_ok [OF 1(3) _ malloc_chunk_length [OF m [unfolded Some]] s(1)] True s(2) off_def by simp
        then have "jrn_inv ?q" by (simp add: jrn_more_def)
        then show ?thesis
          unfolding w using glue [OF q] 1(1) [OF False _ off_def s_def True m [symmetric] Some refl] c al1 by blast
      qed
    next
      case part: False
      note pc = partial_chunk [OF 1(3)] 
      let ?i = "length (pFirst p) - 1"
      have i: "pFirst p \<noteq> []" "ep_off p = ?i * ?c + off" "ep_chunk p = Some ?i"
        using pc part 1(3) by (simp_all add: off_def jrn_inv_def)
      let ?q = "put_bytes p ?i off (take s z)"
      have w: "write_loop al p z = write_loop al ?q (drop s z)"
        using False c part i(3) by (subst write_loop.simps) (simp add: Let_def off_def s_def)
      have q: "jrn_more p ?q (take s z)"
        by (rule put_bytes_ok [OF _ refl i(1) refl i(3,2) s(2,1)]) (use 1(3) in \<open>simp_all add: jrn_inv_def\<close>)
      then have "jrn_inv ?q" by (simp add: jrn_more_def)
      then show ?thesis unfolding w using glue [OF q] 1(2) [OF False _ off_def s_def part i(3)] c by blast
    qed
  qed
qed

text \<open>Truncating, to nothing or to a size that ends inside a chunk.\<close>

lemma truncate_walk_at:
  assumes "0 < c" "sz div c < length xs"
  shows "truncate_walk c xs 0 c sz = Some (sz div c)"
  using truncate_walk_read [of c c xs 0 sz] read_walk_at [of c 0 sz xs 0] assms by simp

lemma Truncate_shape:
  assumes inv: "jrn_inv p" and sz: "0 < sz" "sz < ep_off p"
  shows "sz div nChunkSize p < length (pFirst p) \<and>
    memjrnlTruncate p sz = p\<lparr>pFirst := take (sz div nChunkSize p + 1) (pFirst p), ep_chunk := Some (sz div nChunkSize p),
      ep_off := sz, rp_chunk := None, rp_off := 0\<rparr>"
proof -
  let ?c = "nChunkSize p"
  have c: "0 < ?c" using inv by (simp add: jrn_inv_def chunked_def)
  have "sz < length (pFirst p) * ?c" using inv sz(2) by (simp add: jrn_inv_def mult.commute)
  then have i: "sz div ?c < length (pFirst p)" by (rule less_mult_imp_div_less)
  then show ?thesis using sz truncate_walk_at [OF c i] by (simp add: memjrnlTruncate_def)
qed

lemma Truncate_ok:
  assumes inv: "jrn_inv p" and sz: "sz = 0 \<or> sz mod nChunkSize p \<noteq> 0"
  shows "jrn_inv (memjrnlTruncate p sz) \<and> jrn_bytes (memjrnlTruncate p sz) = take sz (jrn_bytes p) \<and>
    nChunkSize (memjrnlTruncate p sz) = nChunkSize p \<and> nSpill (memjrnlTruncate p sz) = nSpill p"
proof (cases "sz < ep_off p")
  case False
  then show ?thesis using inv jrn_length [OF inv] by (simp add: memjrnlTruncate_def)
next
  case less: True
  let ?c = "nChunkSize p"
  have c: "0 < ?c" using inv by (simp add: jrn_inv_def chunked_def)
  show ?thesis
  proof (cases "sz = 0")
    case True
    then show ?thesis using less c by (simp add: memjrnlTruncate_def jrn_inv_def jrn_bytes_def chunked_def)
  next
    case False
    let ?i = "sz div ?c"
    have part: "sz mod ?c \<noteq> 0" using sz False by simp
    have ch: "chunked ?c (pFirst p)" using inv by (simp add: jrn_inv_def)
    note sh = Truncate_shape [OF inv _ less]
    then have i: "?i < length (pFirst p)" and t: "memjrnlTruncate p sz = p\<lparr>pFirst := take (?i + 1) (pFirst p),
        ep_chunk := Some ?i, ep_off := sz, rp_chunk := None, rp_off := 0\<rparr>"
      using False by simp_all
    have len: "length (take (?i + 1) (pFirst p)) = ?i + 1" using i by simp
    have e: "sz = ?c * ?i + sz mod ?c" by simp
    have "?c * (?i + 1) < sz + ?c" "sz \<le> ?c * (?i + 1)"
      using part e mod_less_divisor [OF c, of sz] by (simp_all only: distrib_left)
    moreover have "take (?i + 1) (pFirst p) \<noteq> []" using len by auto
    ultimately have "jrn_inv (memjrnlTruncate p sz)"
      unfolding t jrn_inv_def using chunked_sub [OF ch] len by simp
    moreover have "jrn_bytes (memjrnlTruncate p sz) = take sz (jrn_bytes p)"
    proof -
      have "concat (take (?i + 1) (pFirst p)) = take ((?i + 1) * ?c) (concat (pFirst p))"
        using chunked_take [OF ch, of "?i + 1"] by simp
      moreover have "sz \<le> (?i + 1) * ?c" using \<open>sz \<le> ?c * (?i + 1)\<close> by (simp add: mult.commute)
      ultimately show ?thesis using less by (simp add: t jrn_bytes_def min_def)
    qed
    ultimately show ?thesis by (simp add: t)
  qed
qed

subsection \<open>Runs of operations on a journal in memory\<close>

datatype jrn_op = JWrite "u8 list" | JTruncate nat | JRead nat nat

text \<open>Writes append, as the code requires; the results are those of the reads, \<open>None\<close> for a short one.\<close>

fun jrn_run :: "(int \<times> 'f) \<Rightarrow> ('f \<Rightarrow> u8 list \<Rightarrow> int \<Rightarrow> int \<times> 'f) \<Rightarrow> u8 list option list \<Rightarrow> memjournal \<Rightarrow> jrn_op list \<Rightarrow>
    u8 list option list option" where
  "jrn_run oo ow al p [] = Some []"
| "jrn_run oo ow al p (JWrite z # ops) =
     (case memjrnlWrite oo ow al p z (ep_off p) of
        Some (rc, Mem p, al) \<Rightarrow> if rc = SQLITE_OK then jrn_run oo ow al p ops else None
      | _ \<Rightarrow> None)"
| "jrn_run oo ow al p (JTruncate n # ops) = jrn_run oo ow al (memjrnlTruncate p n) ops"
| "jrn_run oo ow al p (JRead n k # ops) =
     (case memjrnlRead p n k of
        None \<Rightarrow> None
      | Some (rc, z, p) \<Rightarrow> map_option (\<lambda>rs. (if rc = SQLITE_OK then Some z else None) # rs) (jrn_run oo ow al p ops))"

fun jrn_spec :: "u8 list \<Rightarrow> jrn_op list \<Rightarrow> u8 list option list" where
  "jrn_spec b [] = []"
| "jrn_spec b (JWrite z # ops) = jrn_spec (b @ z) ops"
| "jrn_spec b (JTruncate n # ops) = jrn_spec (take n b) ops"
| "jrn_spec b (JRead n k # ops) = (if length b < n + k then None else Some (take n (drop k b))) # jrn_spec b ops"

text \<open>Reads of at least one byte, truncations to nothing or to the inside of a chunk.\<close>

fun good_op :: "nat \<Rightarrow> jrn_op \<Rightarrow> bool" where
  "good_op c (JWrite z) = True"
| "good_op c (JTruncate n) = (n = 0 \<or> n mod c \<noteq> 0)"
| "good_op c (JRead n k) = (0 < n)"

lemma jrn_run_spec:
  "jrn_inv p \<Longrightarrow> nSpill p < 0 \<Longrightarrow> None \<notin> set al \<Longrightarrow> \<forall>op\<in>set ops. good_op (nChunkSize p) op \<Longrightarrow>
   jrn_run oo ow al p ops = Some (jrn_spec (jrn_bytes p) ops)"
proof (induction ops arbitrary: p al)
  case (Cons op ops)
  have good: "\<forall>op\<in>set ops. good_op (nChunkSize p) op" using Cons.prems(4) by simp
  show ?case
  proof (cases op)
    case (JWrite z)
    obtain rc p' al' k where w: "write_loop al p z = Some (rc, p', al')" "jrn_more p p' (take k z)"
        "rc = SQLITE_OK \<and> k = length z \<or> rc = SQLITE_IOERR_NOMEM" "None \<notin> set al \<longrightarrow> rc = SQLITE_OK \<and> None \<notin> set al'"
      using write_loop_ok [OF Cons.prems(1), of al z] by blast
    have ok: "rc = SQLITE_OK" "None \<notin> set al'" "k = length z"
      using w(3,4) Cons.prems(3) by (auto simp: SQLITE_OK_def SQLITE_IOERR_NOMEM_def)
    then have "jrn_run oo ow al' p' ops = Some (jrn_spec (jrn_bytes p') ops)"
      using Cons.IH [of p' al'] w(2) Cons.prems(2) good by (simp add: jrn_more_def)
    then show ?thesis using JWrite w(1,2) ok Cons.prems(2) by (simp add: memjrnlWrite_def jrn_more_def)
  next
    case (JTruncate n)
    then have "n = 0 \<or> n mod nChunkSize p \<noteq> 0" using Cons.prems(4) by simp
    note t = Truncate_ok [OF Cons.prems(1) this]
    then show ?thesis using Cons.IH [of "memjrnlTruncate p n" al] Cons.prems good JTruncate by simp
  next
    case (JRead n k)
    then have n: "0 < n" using Cons.prems(4) by simp
    obtain p' where r: "memjrnlRead p n k =
      Some (if ep_off p < n + k then (SQLITE_IOERR_SHORT_READ, [], p) else (SQLITE_OK, take n (drop k (jrn_bytes p)), p'))"
      "n + k \<le> ep_off p \<longrightarrow> jrn_inv p' \<and> jrn_bytes p' = jrn_bytes p \<and> ep_off p' = ep_off p \<and>
       pFirst p' = pFirst p \<and> nChunkSize p' = nChunkSize p \<and> nSpill p' = nSpill p"
      using Read_ok [OF Cons.prems(1) n, of k] by blast
    show ?thesis
    proof (cases "ep_off p < n + k")
      case True
      then show ?thesis
        using JRead r(1) Cons.IH [OF Cons.prems(1-3) good] jrn_length [OF Cons.prems(1)]
        by (simp add: SQLITE_OK_def SQLITE_IOERR_SHORT_READ_def)
    next
      case False
      then have p': "jrn_inv p'" "jrn_bytes p' = jrn_bytes p" "nChunkSize p' = nChunkSize p" "nSpill p' = nSpill p"
        using r(2) by simp_all
      have "jrn_run oo ow al p' ops = Some (jrn_spec (jrn_bytes p) ops)"
        using Cons.IH [of p' al] p' Cons.prems(2,3) good by simp
      then show ?thesis using JRead r(1) False jrn_length [OF Cons.prems(1)] by simp
    qed
  qed
qed simp

lemma Open_ok:
  assumes "sqlite3JournalOpen oo spill = (rc, Mem p)"
  shows "jrn_inv p \<and> jrn_bytes p = [] \<and> nSpill p = spill \<and> nChunkSize p = (if spill > 0 then nat spill else 1016)"
  using assms
  by (auto simp: sqlite3JournalOpen_def jrn_inv_def chunked_def jrn_bytes_def MEMJOURNAL_DFLT_FILECHUNKSIZE_def
      sizeof_FileChunk_def split: if_splits prod.splits)

text \<open>
  C23. A journal that is never spilled is a file: for every sequence of appends, reads of at least one
  byte and truncations to nothing or to a size that ends inside a chunk, with enough memory, the reads
  return the bytes of the file, or \<open>SQLITE_IOERR_SHORT_READ\<close> past its end, and no null pointer is
  followed.
\<close>

theorem memjournal_is_file:
  assumes "sqlite3JournalOpen oo spill = (rc, Mem p)" and "spill < 0" and "None \<notin> set al"
    and "\<forall>op\<in>set ops. good_op (nChunkSize p) op"
  shows "jrn_run oo ow al p ops = Some (jrn_spec [] ops)"
  using jrn_run_spec [OF _ _ assms(3,4)] Open_ok [OF assms(1)] assms(2) by simp

theorem memjournal_is_file_witness:
  "\<exists>p. sqlite3JournalOpen (0, ()) (- 1) = (SQLITE_OK, Mem p) \<and>
     jrn_run (0, ()) (\<lambda>f z k. (0, f)) [] p [JWrite [1, 2, 3], JTruncate 2, JWrite [7], JRead 3 0, JRead 2 2] =
       Some [Some [1, 2, 7], None]"
proof -
  obtain p where p: "sqlite3JournalOpen (0, ()) (- 1) = (SQLITE_OK, Mem p)"
    by (simp add: sqlite3JournalOpen_def)
  have "nChunkSize p = 1016" using Open_ok [OF p] by simp
  then have g: "\<forall>op\<in>set [JWrite [1, 2, 3], JTruncate 2, JWrite [7], JRead 3 0, JRead 2 2]. good_op (nChunkSize p) op"
    by simp
  show ?thesis using memjournal_is_file [OF p _ _ g, of "[]" "\<lambda>f z k. (0, f)"] p by simp
qed

subsection \<open>Truncating to the end of a chunk\<close>

text \<open>
  After a truncation to a multiple of the chunk size, other than 0, the chunk behind the new end
  is kept, and what is written next goes to a further chunk. Reading it back returns the old contents
  of the kept chunk, whatever was written.
\<close>

theorem truncate_write_reads_stale:
  assumes "jrn_inv p" and "0 < k" and "k * nChunkSize p < ep_off p" and "z \<noteq> []" and "length z \<le> nChunkSize p"
    and "write_loop al (memjrnlTruncate p (k * nChunkSize p)) z = Some (SQLITE_OK, p', al')"
  shows "\<exists>p''. memjrnlRead p' (length z) (k * nChunkSize p) = Some (SQLITE_OK, take (length z) (pFirst p ! k), p'')"
proof -
  let ?c = "nChunkSize p" and ?q = "memjrnlTruncate p (k * nChunkSize p)"
  have c: "0 < ?c" and ch: "chunked ?c (pFirst p)" using assms(1) by (simp_all add: jrn_inv_def chunked_def)
  have "0 < k * ?c" using assms(2) c by simp
  from Truncate_shape [OF assms(1) this assms(3)] c
  have k: "k < length (pFirst p)" and q: "?q = p\<lparr>pFirst := take (k + 1) (pFirst p), ep_chunk := Some k,
      ep_off := k * ?c, rp_chunk := None, rp_off := 0\<rparr>" by simp_all
  obtain m al1 where m: "malloc_chunk ?c al = (m, al1)" by fastforce
  obtain b where b: "m = Some b"
    using assms(4,6) m c by (cases m) (simp_all add: q write_loop.simps Let_def SQLITE_OK_def SQLITE_IOERR_NOMEM_def)
  have "p' = put_bytes (link_chunk ?q b) (k + 1) 0 z"
  proof -
    have "write_loop al ?q z = write_loop al1 (put_bytes (link_chunk ?q b) (k + 1) 0 z) []"
      using assms(4,5) m b c by (subst write_loop.simps) (simp add: q Let_def link_chunk_def)
    then show ?thesis using assms(6) by (simp add: write_loop.simps)
  qed
  moreover have "length (take (k + 1) (pFirst p)) = k + 1" using k by simp
  ultimately have p': "pFirst p' = take (k + 1) (pFirst p) @ [z @ drop (length z) b]" "ep_off p' = k * ?c + length z"
      "nChunkSize p' = ?c" "rp_off p' = 0"
    by (simp_all add: put_bytes_def link_chunk_def q min_def nth_append list_update_append)
  have d: "drop k (pFirst p') = [pFirst p ! k, z @ drop (length z) b]"
    using k by (simp add: p'(1) take_Suc_conv_app_nth)
  have len: "length (pFirst p ! k) = ?c" using ch k by (simp add: chunked_def)
  have lb: "length (z @ drop (length z) b) = ?c" using malloc_chunk_length [OF m [unfolded b]] assms(5) by simp
  have n: "0 < length z" "length z + 0 \<le> ?c * length (drop k (pFirst p'))" using assms(4,5) d by simp_all
  have "chunked ?c (drop k (pFirst p'))" using d len lb c by (simp add: chunked_def)
  note rl = read_loop_ok [OF this c n, of k]
  have "(k * ?c - 0) div ?c = k" using c by simp
  then have "read_walk ?c (pFirst p') 0 0 (k * ?c) = Some k"
    using read_walk_at [OF c, of 0 "k * ?c" "pFirst p'" 0] p'(1) k by simp
  moreover have "take (length z) (concat (drop k (pFirst p'))) = take (length z) (pFirst p ! k)"
    using d len assms(5) by simp
  ultimately show ?thesis
    using rl \<open>0 < k * ?c\<close> by (simp add: memjrnlRead_def p'(2-4))
qed

theorem truncate_write_reads_stale_witness:
  "\<exists>p' p''. write_loop [] (memjrnlTruncate \<lparr>nChunkSize = 2, nSpill = - 1, pFirst = [[1, 2], [3, 0]], ep_off = 3,
       ep_chunk = Some 1, rp_off = 0, rp_chunk = None\<rparr> 2) [9] = Some (SQLITE_OK, p', []) \<and>
     memjrnlRead p' 1 2 = Some (SQLITE_OK, [3], p'')"
proof -
  let ?p = "\<lparr>nChunkSize = 2, nSpill = - 1, pFirst = [[1, 2], [3, 0]], ep_off = 3, ep_chunk = Some 1, rp_off = 0, rp_chunk = None\<rparr>"
  have inv: "jrn_inv ?p" by (simp add: jrn_inv_def chunked_def)
  obtain p' where w: "write_loop [] (memjrnlTruncate ?p (1 * nChunkSize ?p)) [9] = Some (SQLITE_OK, p', [])"
    by (simp add: memjrnlTruncate_def write_loop.simps Let_def)
  show ?thesis using truncate_write_reads_stale [OF inv _ _ _ _ w] w by simp
qed

subsection \<open>Spilling to a real file\<close>

text \<open>What is relied on of the file system: a write at the end of a file that reports success appends.\<close>

definition appends :: "('f \<Rightarrow> u8 list) \<Rightarrow> ('f \<Rightarrow> u8 list \<Rightarrow> int \<Rightarrow> int \<times> 'f) \<Rightarrow> bool" where
  "appends content ow \<longleftrightarrow> (\<forall>f z f'. ow f z (int (length (content f))) = (0, f') \<longrightarrow> content f' = content f @ z)"

lemma spill_loop_ok:
  assumes ap: "appends content ow"
  shows "chunked c xs \<Longrightarrow> xs \<noteq> [] \<longrightarrow> c * length xs < n + c \<Longrightarrow> n \<le> c * length xs \<Longrightarrow>
    spill_loop ow f (int c) xs (int (length (content f))) (int (length (content f) + n)) = (0, f') \<Longrightarrow>
    content f' = content f @ take n (concat xs)"
proof (induction xs arbitrary: f n)
  case (Cons x xs)
  have x: "length x = c" "chunked c xs" using Cons.prems(1) by (simp_all add: chunked_Cons)
  let ?e = "length (content f)"
  show ?case
  proof (cases "n < c")
    case True
    have "c * length xs < n" using Cons.prems(2) by simp
    then have "c * length xs < c * 1" using True unfolding mult_1_right by (rule order.strict_trans)
    then have "length xs < 1" by (metis mult.right_neutral mult_less_cancel1)
    then have e: "xs = []" by simp
    have "spill_loop ow f (int c) (x # xs) (int ?e) (int (?e + n)) =
        (case ow f (take n x) (int ?e) of (rc, f) \<Rightarrow> if rc \<noteq> 0 then (rc, f) else (SQLITE_OK, f))"
      using True e by (simp add: Let_def split: prod.splits)
    then have "ow f (take n x) (int ?e) = (0, f')"
      using Cons.prems(4) by (auto simp: SQLITE_OK_def split: prod.splits if_splits)
    then show ?thesis using ap e True x(1) by (simp add: appends_def)
  next
    case False
    have "spill_loop ow f (int c) (x # xs) (int ?e) (int (?e + n)) =
        (case ow f (take c x) (int ?e) of (rc, f) \<Rightarrow> if rc \<noteq> 0 then (rc, f) else spill_loop ow f (int c) xs (int ?e + int c) (int (?e + n)))"
      using False by (simp add: Let_def split: prod.splits)
    then obtain f1 where w: "ow f (take c x) (int ?e) = (0, f1)" "spill_loop ow f1 (int c) xs (int ?e + int c) (int (?e + n)) = (0, f')"
      using Cons.prems(4) by (auto split: prod.splits if_splits)
    have f1: "content f1 = content f @ x" using ap w(1) x(1) by (simp add: appends_def)
    have n: "int ?e + int c = int (length (content f1))" "int (?e + n) = int (length (content f1) + (n - c))"
      using f1 x(1) False by simp_all
    have "content f' = content f1 @ take (n - c) (concat xs)"
      using w(2) Cons.prems(2,3) False unfolding n by (intro Cons.IH x(2)) auto
    then show ?thesis using f1 x(1) False by simp
  qed
qed (simp add: SQLITE_OK_def)

text \<open>
  When a write passes \<open>nSpill\<close>, the journal becomes a real file, and if that reports success the
  file holds everything written so far followed by the new bytes; if opening or filling the file fails,
  the journal stays in memory as it was.
\<close>

theorem memjournal_spills:
  assumes "jrn_inv p" and "appends content ow" and "content f0 = []"
    and "nSpill p > 0" and "int (length z + ep_off p) > nSpill p"
    and "memjrnlWrite (rc0, f0) ow al p z (ep_off p) = Some (rc, h, al')"
  shows "(case h of Real f \<Rightarrow> rc = SQLITE_OK \<longrightarrow> content f = jrn_bytes p @ z
    | Mem p' \<Rightarrow> rc \<noteq> SQLITE_OK \<and> p' = p) \<and> al' = al"
proof -
  let ?c = "nChunkSize p"
  have w: "(case memjrnlCreateFile (rc0, f0) ow p of
              (rc, h) \<Rightarrow>
                (case h of
                   Real f \<Rightarrow> (case ow f z (int (ep_off p)) of (rc, f) \<Rightarrow> Some (rc, Real f, al))
                 | Mem p \<Rightarrow> Some (rc, Mem p, al))) = Some (rc, h, al')"
    using assms(4-6) by (simp add: memjrnlWrite_def)
  obtain rc1 f1 where s: "spill_loop ow f0 (int ?c) (pFirst p) 0 (int (ep_off p)) = (rc1, f1)" by fastforce
  show ?thesis
  proof (cases "rc0 = SQLITE_OK \<and> rc1 = SQLITE_OK")
    case False
    then show ?thesis using w s by (auto simp: memjrnlCreateFile_def split: if_splits)
  next
    case True
    have "content f1 = content f0 @ take (ep_off p) (concat (pFirst p))"
      using spill_loop_ok [OF assms(2), of ?c "pFirst p" "ep_off p" f0 f1] s True assms(1,3)
      by (simp add: jrn_inv_def SQLITE_OK_def)
    then have f1: "content f1 = jrn_bytes p" using assms(3) by (simp add: jrn_bytes_def)
    obtain rc2 f2 where o: "ow f1 z (int (ep_off p)) = (rc2, f2)" by fastforce
    then have "rc = rc2 \<and> h = Real f2 \<and> al' = al"
      using w s True by (auto simp: memjrnlCreateFile_def)
    moreover have "rc2 = 0 \<Longrightarrow> content f2 = content f1 @ z"
      using assms(2) [unfolded appends_def, rule_format, of f1 z f2] o f1 jrn_length [OF assms(1)] by simp
    ultimately show ?thesis using f1 by (simp add: SQLITE_OK_def)
  qed
qed

theorem memjournal_spills_witness:
  "\<exists>f. memjrnlWrite (0, []) (\<lambda>f z k. (0, take (nat k) f @ z)) []
       \<lparr>nChunkSize = 2, nSpill = 2, pFirst = [[1, 2]], ep_off = 2, ep_chunk = Some 0, rp_off = 0, rp_chunk = None\<rparr> [3] 2 =
     Some (SQLITE_OK, Real f, []) \<and> f = [1, 2, 3]"
proof -
  let ?p = "\<lparr>nChunkSize = 2, nSpill = 2, pFirst = [[1, 2]], ep_off = 2, ep_chunk = Some 0, rp_off = 0, rp_chunk = None\<rparr>"
  let ?ow = "\<lambda>f z k. (0 :: int, take (nat k) f @ z)"
  have inv: "jrn_inv ?p" by (simp add: jrn_inv_def chunked_def)
  have ap: "appends (\<lambda>f. f) ?ow" by (simp add: appends_def)
  obtain f where w: "memjrnlWrite (0, []) ?ow [] ?p [3] (ep_off ?p) = Some (SQLITE_OK, Real f, [])"
    by (simp add: memjrnlWrite_def memjrnlCreateFile_def SQLITE_OK_def)
  show ?thesis using memjournal_spills [OF inv ap refl _ _ w] w by (simp add: SQLITE_OK_def jrn_bytes_def)
qed

end
