(* ===== verification/SqlValue.thy ===== *)
theory SqlValue
  imports SqlUtf SqlVarint SqlInt SqlChar
begin

section \<open>Values of the virtual machine (vdbemem.c, vdbeaux.c)\<close>

text \<open>
  A \<open>Mem\<close> is one value: its flags say whether it is NULL, an integer, a real, text or a blob. This
  theory models the cell, its serialized form (\<open>sqlite3VdbeSerialPut\<close>, \<open>sqlite3VdbeSerialGet\<close>), and
  the comparison of two cells (\<open>sqlite3MemCompare\<close>), with the comparison of an integer and a real.

  The union \<open>u\<close> is its 64 bits: \<open>u.i\<close> reads them in two's complement, \<open>u.r\<close> as an IEEE double,
  \<open>u.nZero\<close> is the low half (little-endian host). A buffer is a list that holds at least \<open>n\<close> bytes.
  A read at a fixed offset of a serialized value is an option, \<open>None\<close> beyond the buffer.
\<close>

subsection \<open>Cells\<close>

definition MEM_Null :: u16 where "MEM_Null = 0x0001"
definition MEM_Int :: u16 where "MEM_Int = 0x0004"
definition MEM_Real :: u16 where "MEM_Real = 0x0008"
definition MEM_Blob :: u16 where "MEM_Blob = 0x0010"
definition MEM_IntReal :: u16 where "MEM_IntReal = 0x0020"
definition MEM_Ephem :: u16 where "MEM_Ephem = 0x1000"
definition MEM_Zero :: u16 where "MEM_Zero = 0x4000"

record cell =
  flags :: u16
  uval :: u64
  ncell :: nat
  zcell :: "u8 list"
  enc_cell :: enc
  uTemp :: u32

definition has :: "u16 \<Rightarrow> u16 \<Rightarrow> bool" where
  "has f m \<longleftrightarrow> f AND m \<noteq> 0"

definition u_i :: "cell \<Rightarrow> int" where "u_i c = sint (uval c)"
definition u_nZero :: "cell \<Rightarrow> nat" where "u_nZero c = unat (ucast (uval c) :: u32)"
definition ztext :: "cell \<Rightarrow> u8 list" where "ztext c = take (ncell c) (zcell c)"

subsection \<open>IEEE doubles\<close>

text \<open>
  A finite double is an integer over \<open>2 ^ 1074\<close>; the formula gives the infinities values beyond all
  others, which is how they compare. \<open>dbl_of_int\<close> is the conversion of an integer, rounded to the
  nearest double and to the even one of two.
\<close>

definition dbl_exp :: "u64 \<Rightarrow> nat" where "dbl_exp r = nat (uint r div 2 ^ 52 mod 2 ^ 11)"
definition dbl_frac :: "u64 \<Rightarrow> int" where "dbl_frac r = uint r mod 2 ^ 52"

definition IsNaN :: "u64 \<Rightarrow> bool" where
  "IsNaN r \<longleftrightarrow> dbl_exp r = 2047 \<and> dbl_frac r \<noteq> 0"

definition dbl_mag :: "u64 \<Rightarrow> int" where
  "dbl_mag r = (if dbl_exp r = 0 then dbl_frac r else (2 ^ 52 + dbl_frac r) * 2 ^ (dbl_exp r - 1))"

definition dbl_scaled :: "u64 \<Rightarrow> int" where
  "dbl_scaled r = (if 2 ^ 63 \<le> uint r then - dbl_mag r else dbl_mag r)"

definition dbl_less :: "u64 \<Rightarrow> u64 \<Rightarrow> bool" where
  "dbl_less a b \<longleftrightarrow> \<not> IsNaN a \<and> \<not> IsNaN b \<and> dbl_scaled a < dbl_scaled b"

function bit_length :: "int \<Rightarrow> nat" where
  "bit_length n = (if n \<le> 0 then 0 else Suc (bit_length (n div 2)))"
  by auto
termination
  by (relation "measure nat") auto

declare bit_length.simps [simp del]

definition round_even :: "int \<Rightarrow> nat \<Rightarrow> int" where
  "round_even m k =
     (let q = m div 2 ^ k; rest = m mod 2 ^ k
      in if 2 ^ k < 2 * rest \<or> 2 ^ k = 2 * rest \<and> odd q then q + 1 else q)"

definition dbl_of_int :: "int \<Rightarrow> u64" where
  "dbl_of_int i =
     (let m = \<bar>i\<bar>; e = bit_length m - 1;
          mant = (if e \<le> 52 then m * 2 ^ (52 - e) else round_even m (e - 52))
      in if m = 0 then 0
         else word_of_int ((if i < 0 then 2 ^ 63 else 0) + (int e + 1022) * 2 ^ 52 + mant))"

subsection \<open>Comparing an integer with a real (sqlite3IntFloatCompare)\<close>

text \<open>
  With a \<open>long double\<close> wider than 64 bits the comparison is exact; otherwise the real is cut to an
  integer first, which C does towards zero.
\<close>

definition dbl_trunc :: "u64 \<Rightarrow> int" where
  "dbl_trunc r = (if dbl_scaled r < 0 then - (- dbl_scaled r div 2 ^ 1074) else dbl_scaled r div 2 ^ 1074)"

definition sqlite3IntFloatCompare :: "bool \<Rightarrow> int \<Rightarrow> u64 \<Rightarrow> int" where
  "sqlite3IntFloatCompare wide i r =
     (if wide then
        (if \<not> IsNaN r \<and> i * 2 ^ 1074 < dbl_scaled r then -1
         else if \<not> IsNaN r \<and> i * 2 ^ 1074 > dbl_scaled r then 1 else 0)
      else if \<not> IsNaN r \<and> dbl_scaled r < - (2 ^ 63) * 2 ^ 1074 then 1
      else if \<not> IsNaN r \<and> dbl_scaled r \<ge> 2 ^ 63 * 2 ^ 1074 then -1
      else
        let y = dbl_trunc r in
        if i < y then -1
        else if i > y then 1
        else let s = dbl_of_int i in
          if dbl_less s r then -1 else if dbl_less r s then 1 else 0)"

subsection \<open>Comparing blobs and text\<close>

text \<open>\<open>memcmp\<close> over two ranges of the same length: the difference of the first bytes that differ.\<close>

fun memcmp :: "u8 list \<Rightarrow> u8 list \<Rightarrow> int" where
  "memcmp (a # x) (b # y) = (if a = b then memcmp x y else uint a - uint b)"
| "memcmp x y = 0"

fun isAllZero :: "u8 list \<Rightarrow> bool" where
  "isAllZero (b # z) = (if b \<noteq> 0 then False else isAllZero z)"
| "isAllZero [] = True"

definition sqlite3BlobCompare :: "cell \<Rightarrow> cell \<Rightarrow> int" where
  "sqlite3BlobCompare b1 b2 =
     (let n1 = ncell b1; n2 = ncell b2 in
      if has (flags b1 OR flags b2) MEM_Zero then
        if has (flags b1 AND flags b2) MEM_Zero then int (u_nZero b1) - int (u_nZero b2)
        else if has (flags b1) MEM_Zero then
          if \<not> isAllZero (ztext b2) then -1 else int (u_nZero b1) - int n2
        else if \<not> isAllZero (ztext b1) then 1 else int n1 - int (u_nZero b2)
      else
        let k = (if n1 > n2 then n2 else n1); c = memcmp (take k (zcell b1)) (take k (zcell b2))
        in if c \<noteq> 0 then c else int n1 - int n2)"

text \<open>
  A collating sequence is a comparison of two texts of its encoding. Text in another encoding is
  converted first; \<open>mok\<close> says for which texts the allocator has the memory, and the second part of
  the result is whether \<open>*prcErr\<close> is set to \<open>SQLITE_NOMEM\<close>.
\<close>

record collseq =
  coll_enc :: enc
  xCmp :: "u8 list \<Rightarrow> u8 list \<Rightarrow> int"

definition valueToText :: "(u8 list \<Rightarrow> bool) \<Rightarrow> cell \<Rightarrow> enc \<Rightarrow> u8 list option" where
  "valueToText mok c e =
     (if enc_cell c = e then Some (ztext c)
      else case sqlite3VdbeMemTranslate (mok (ztext c))
               \<lparr>z_buf = zcell c, n_bytes = ncell c, enc_of = enc_cell c, mflags = flags c\<rparr> e of
             (SQLITE_OK, m) \<Rightarrow> Some (mem_text m)
           | _ \<Rightarrow> None)"

definition vdbeCompareMemString ::
    "(u8 list \<Rightarrow> bool) \<Rightarrow> cell \<Rightarrow> cell \<Rightarrow> collseq \<Rightarrow> int \<times> bool" where
  "vdbeCompareMemString mok m1 m2 pColl =
     (if enc_cell m1 = coll_enc pColl then (xCmp pColl (ztext m1) (ztext m2), False)
      else case (valueToText mok m1 (coll_enc pColl), valueToText mok m2 (coll_enc pColl)) of
             (Some v1, Some v2) \<Rightarrow> (xCmp pColl v1 v2, False)
           | _ \<Rightarrow> (0, True))"

subsection \<open>Comparing two cells (sqlite3MemCompare)\<close>

definition MEM_Integer :: u16 where "MEM_Integer = MEM_Int OR MEM_IntReal"

definition cmp_int :: "int \<Rightarrow> int \<Rightarrow> int" where
  "cmp_int a b = (if a < b then -1 else if a > b then 1 else 0)"

definition cmp_dbl :: "u64 \<Rightarrow> u64 \<Rightarrow> int" where
  "cmp_dbl a b = (if dbl_less a b then -1 else if dbl_less b a then 1 else 0)"

definition sqlite3MemCompare ::
    "bool \<Rightarrow> (u8 list \<Rightarrow> bool) \<Rightarrow> cell \<Rightarrow> cell \<Rightarrow> collseq option \<Rightarrow> int" where
  "sqlite3MemCompare wide mok m1 m2 pColl =
     (let f1 = flags m1; f2 = flags m2; both = f1 OR f2 in
      if has both MEM_Null then uint (f2 AND MEM_Null) - uint (f1 AND MEM_Null)
      else if has both (MEM_Int OR MEM_Real OR MEM_IntReal) then
        if has (f1 AND f2) MEM_Integer then cmp_int (u_i m1) (u_i m2)
        else if has (f1 AND f2) MEM_Real then cmp_dbl (uval m1) (uval m2)
        else if has f1 MEM_Integer then
          if has f2 MEM_Real then sqlite3IntFloatCompare wide (u_i m1) (uval m2)
          else if has f2 MEM_Integer then cmp_int (u_i m1) (u_i m2)
          else -1
        else if has f1 MEM_Real then
          if has f2 MEM_Integer then - sqlite3IntFloatCompare wide (u_i m2) (uval m1)
          else -1
        else 1
      else if has both MEM_Str \<and> \<not> has f1 MEM_Str then 1
      else if has both MEM_Str \<and> \<not> has f2 MEM_Str then -1
      else case (has both MEM_Str, pColl) of
             (True, Some coll) \<Rightarrow> fst (vdbeCompareMemString mok m1 m2 coll)
           | _ \<Rightarrow> sqlite3BlobCompare m1 m2)"

subsection \<open>Serial types\<close>

definition sqlite3SmallTypeSizes :: "nat list" where
  "sqlite3SmallTypeSizes =
     [0, 1, 2, 3, 4, 6, 8, 8, 0, 0,
      0, 0, 0, 0, 1, 1, 2, 2, 3, 3,
      4, 4, 5, 5, 6, 6, 7, 7, 8, 8,
      9, 9, 10, 10, 11, 11, 12, 12, 13, 13,
      14, 14, 15, 15, 16, 16, 17, 17, 18, 18,
      19, 19, 20, 20, 21, 21, 22, 22, 23, 23,
      24, 24, 25, 25, 26, 26, 27, 27, 28, 28,
      29, 29, 30, 30, 31, 31, 32, 32, 33, 33,
      34, 34, 35, 35, 36, 36, 37, 37, 38, 38,
      39, 39, 40, 40, 41, 41, 42, 42, 43, 43,
      44, 44, 45, 45, 46, 46, 47, 47, 48, 48,
      49, 49, 50, 50, 51, 51, 52, 52, 53, 53,
      54, 54, 55, 55, 56, 56, 57, 57]"

definition sqlite3VdbeSerialTypeLen :: "u32 \<Rightarrow> nat" where
  "sqlite3VdbeSerialTypeLen serial_type =
     (if serial_type \<ge> 128 then unat ((serial_type - 12) div 2)
      else sqlite3SmallTypeSizes ! unat serial_type)"

text \<open>The loop that stores the low bytes of \<open>v\<close> from \<open>buf[i-1]\<close> down to \<open>buf[0]\<close>.\<close>

fun put_be :: "nat \<Rightarrow> u64 \<Rightarrow> u8 list" where
  "put_be 0 v = []"
| "put_be (Suc i) v = put_be i (drop_bit 8 v) @ [ucast (v AND 0xFF)]"

text \<open>The bytes written to \<open>buf\<close>; their number is the result of the function.\<close>

definition sqlite3VdbeSerialPut :: "cell \<Rightarrow> u32 \<Rightarrow> u8 list" where
  "sqlite3VdbeSerialPut pMem serial_type =
     (if serial_type \<le> 7 \<and> serial_type > 0
      then put_be (sqlite3SmallTypeSizes ! unat serial_type) (uval pMem)
      else if serial_type \<ge> 12 then ztext pMem
      else [])"

text \<open>The macros that read big-endian integers; \<open>int\<close> values are integers, with their \<open>|\<close>.\<close>

definition ONE_BYTE_INT :: "u8 list \<Rightarrow> int option" where
  "ONE_BYTE_INT x = do { a \<leftarrow> rd x 0; Some (sint a) }"

definition TWO_BYTE_INT :: "u8 list \<Rightarrow> int option" where
  "TWO_BYTE_INT x = do { a \<leftarrow> rd x 0; b \<leftarrow> rd x 1; Some (256 * sint a OR uint b) }"

definition THREE_BYTE_INT :: "u8 list \<Rightarrow> int option" where
  "THREE_BYTE_INT x = do { a \<leftarrow> rd x 0; b \<leftarrow> rd x 1; c \<leftarrow> rd x 2;
     Some (65536 * sint a OR push_bit 8 (uint b) OR uint c) }"

definition FOUR_BYTE_UINT :: "u8 list \<Rightarrow> u32 option" where
  "FOUR_BYTE_UINT x = do { a \<leftarrow> rd x 0; b \<leftarrow> rd x 1; c \<leftarrow> rd x 2; d \<leftarrow> rd x 3;
     Some (push_bit 24 (ucast a) OR push_bit 16 (ucast b) OR push_bit 8 (ucast c) OR ucast d) }"

definition FOUR_BYTE_INT :: "u8 list \<Rightarrow> int option" where
  "FOUR_BYTE_INT x = do { a \<leftarrow> rd x 0; b \<leftarrow> rd x 1; c \<leftarrow> rd x 2; d \<leftarrow> rd x 3;
     Some (16777216 * sint a OR push_bit 16 (uint b) OR push_bit 8 (uint c) OR uint d) }"

definition SIX_BYTE_INT :: "u8 list \<Rightarrow> int option" where
  "SIX_BYTE_INT x = do { lo \<leftarrow> FOUR_BYTE_UINT (drop 2 x); hi \<leftarrow> TWO_BYTE_INT x;
     Some (uint lo + 2 ^ 32 * hi) }"

text \<open>The result is the cell and the number of bytes read.\<close>

definition set_int :: "cell \<Rightarrow> int \<Rightarrow> cell" where
  "set_int pMem i = pMem\<lparr>uval := word_of_int i, flags := MEM_Int\<rparr>"

definition serialGet :: "u8 list \<Rightarrow> u32 \<Rightarrow> cell \<Rightarrow> (cell \<times> nat) option" where
  "serialGet buf serial_type pMem = do {
     x \<leftarrow> FOUR_BYTE_UINT buf;
     y \<leftarrow> FOUR_BYTE_UINT (drop 4 buf);
     let x = (push_bit 32 (ucast x) + ucast y :: u64);
     Some (if serial_type = 6 then (pMem\<lparr>uval := x, flags := MEM_Int\<rparr>, 8)
           else (pMem\<lparr>uval := x, flags := (if IsNaN x then MEM_Null else MEM_Real)\<rparr>, 8)) }"

definition sqlite3VdbeSerialGet :: "u8 list \<Rightarrow> u32 \<Rightarrow> cell \<Rightarrow> (cell \<times> nat) option" where
  "sqlite3VdbeSerialGet buf serial_type pMem =
     (if serial_type = 10 then
        Some (pMem\<lparr>flags := MEM_Null OR MEM_Zero, ncell := 0,
                   uval := uval pMem AND push_bit 32 0xFFFFFFFF\<rparr>, 0)
      else if serial_type = 11 \<or> serial_type = 0 then Some (pMem\<lparr>flags := MEM_Null\<rparr>, 0)
      else if serial_type = 1 then do { i \<leftarrow> ONE_BYTE_INT buf; Some (set_int pMem i, 1) }
      else if serial_type = 2 then do { i \<leftarrow> TWO_BYTE_INT buf; Some (set_int pMem i, 2) }
      else if serial_type = 3 then do { i \<leftarrow> THREE_BYTE_INT buf; Some (set_int pMem i, 3) }
      else if serial_type = 4 then do { i \<leftarrow> FOUR_BYTE_INT buf; Some (set_int pMem i, 4) }
      else if serial_type = 5 then do { i \<leftarrow> SIX_BYTE_INT buf; Some (set_int pMem i, 6) }
      else if serial_type = 6 \<or> serial_type = 7 then serialGet buf serial_type pMem
      else if serial_type = 8 \<or> serial_type = 9 then Some (set_int pMem (uint serial_type - 8), 0)
      else Some (pMem\<lparr>zcell := buf, ncell := unat ((serial_type - 12) div 2),
                       flags := (if bit serial_type 0 then MEM_Str else MEM_Blob) OR MEM_Ephem\<rparr>,
                 unat ((serial_type - 12) div 2)))"

text \<open>The comparison of records reads an integer with a function of its own.\<close>

definition vdbeRecordDecodeInt :: "u32 \<Rightarrow> u8 list \<Rightarrow> int option" where
  "vdbeRecordDecodeInt serial_type aKey =
     (if serial_type = 0 \<or> serial_type = 1 then ONE_BYTE_INT aKey
      else if serial_type = 2 then TWO_BYTE_INT aKey
      else if serial_type = 3 then THREE_BYTE_INT aKey
      else if serial_type = 4 then do { y \<leftarrow> FOUR_BYTE_UINT aKey; Some (sint y) }
      else if serial_type = 5 then SIX_BYTE_INT aKey
      else if serial_type = 6 then do {
        x \<leftarrow> FOUR_BYTE_UINT aKey; y \<leftarrow> FOUR_BYTE_UINT (drop 4 aKey);
        Some (sint (push_bit 32 (ucast x) OR ucast y :: u64)) }
      else Some (uint (serial_type - 8)))"

subsection \<open>The integer comparison is exact\<close>

lemma bit_length_bounds: "0 < m \<Longrightarrow> 0 < bit_length m \<and> 2 ^ (bit_length m - 1) \<le> m \<and> m < 2 ^ bit_length m"
proof (induction m rule: bit_length.induct)
  case (1 m)
  show ?case
  proof (cases "m = 1")
    case True
    then show ?thesis by (simp add: bit_length.simps [of 1] bit_length.simps [of 0])
  next
    case False
    with 1 have h: "0 < m div 2" by linarith
    with 1 False have "2 ^ (bit_length (m div 2) - 1) \<le> m div 2" "m div 2 < 2 ^ bit_length (m div 2)"
      and p: "0 < bit_length (m div 2)" by auto
    moreover obtain n where n: "bit_length (m div 2) = Suc n" using p by (cases "bit_length (m div 2)") auto
    ultimately have "2 ^ n \<le> m div 2" "m div 2 < 2 * 2 ^ n" by simp_all
    then have "2 * 2 ^ n \<le> m" "m < 4 * 2 ^ n" by linarith+
    moreover have "bit_length m = Suc (Suc n)" using 1(2) n by (simp add: bit_length.simps [of m])
    ultimately show ?thesis by simp
  qed
qed

lemma pow2_less: "(2::int) ^ a < 2 ^ b \<Longrightarrow> a < b"
  by (rule power_less_imp_less_exp [of 2]) simp_all

lemma bit_length_unique:
  assumes "2 ^ e \<le> m" "m < 2 ^ Suc e" shows "bit_length m = Suc e"
proof -
  have m: "0 < m" using assms(1) by (smt (verit) zero_less_power)
  note b = bit_length_bounds [OF this]
  have "(2::int) ^ (bit_length m - 1) < 2 ^ Suc e" using b assms by linarith
  then have "bit_length m - 1 < Suc e" by (rule pow2_less)
  moreover have "(2::int) ^ e < 2 ^ bit_length m" using b assms by linarith
  then have "e < bit_length m" by (rule pow2_less)
  ultimately show ?thesis by linarith
qed

lemma uint_lt64: "0 \<le> uint (r :: u64) \<and> uint r < 2 ^ 64"
  using unsigned_less [of r, where ?'a = int] by simp

lemma dbl_of_parts:
  assumes "0 \<le> s" "s < 2" "0 \<le> x" "x < 2048" "0 \<le> f" "f < 2 ^ 52"
  shows "uint (word_of_int (s * 2 ^ 63 + x * 2 ^ 52 + f) :: u64) = s * 2 ^ 63 + x * 2 ^ 52 + f"
    "dbl_exp (word_of_int (s * 2 ^ 63 + x * 2 ^ 52 + f)) = nat x"
    "dbl_frac (word_of_int (s * 2 ^ 63 + x * 2 ^ 52 + f)) = f"
proof -
  let ?v = "s * 2 ^ 63 + x * 2 ^ 52 + f"
  have "0 \<le> ?v" "?v < 2 ^ 64" using assms by simp_all
  then show u: "uint (word_of_int ?v :: u64) = ?v"
    by (subst uint_word_of_int_eq) (rule take_bit_int_eq_self, simp_all only: len_num0 len_bit0 len_num1 len_of_numeral_defs, simp_all)
  define y where "y = x + 2 ^ 11 * s"
  have "?v = f + 2 ^ 52 * y" by (simp add: y_def)
  moreover have "(f + 2 ^ 52 * y) div 2 ^ 52 = y" "(f + 2 ^ 52 * y) mod 2 ^ 52 = f"
    using assms(5,6) by simp_all
  ultimately have "?v div 2 ^ 52 = x + 2 ^ 11 * s" "?v mod 2 ^ 52 = f"
    by (simp_all only: y_def)
  then show "dbl_exp (word_of_int ?v) = nat x" "dbl_frac (word_of_int ?v) = f"
    unfolding dbl_exp_def dbl_frac_def u using assms(3,4) by simp_all
qed

lemma dbl_of_int_exact:
  assumes m: "\<bar>i\<bar> < 2 ^ 64" and d: "2 ^ (bit_length \<bar>i\<bar> - 53) dvd i"
  shows "dbl_scaled (dbl_of_int i) = i * 2 ^ 1074" "\<not> IsNaN (dbl_of_int i)"
proof -
  have "dbl_scaled (dbl_of_int i) = i * 2 ^ 1074 \<and> \<not> IsNaN (dbl_of_int i)"
  proof (cases "i = 0")
    case True
    then show ?thesis by (simp add: dbl_of_int_def dbl_scaled_def dbl_mag_def dbl_exp_def dbl_frac_def IsNaN_def)
  next
    case False
    define e where "e = bit_length \<bar>i\<bar> - 1"
    have b: "2 ^ e \<le> \<bar>i\<bar>" "\<bar>i\<bar> < 2 ^ Suc e"
      using bit_length_bounds [of "\<bar>i\<bar>"] False by (simp_all add: e_def)
    have "(2::int) ^ e < 2 ^ 64" using b m by linarith
    then have e: "e < 64" by (rule pow2_less)
    define q where "q = (if e \<le> 52 then \<bar>i\<bar> * 2 ^ (52 - e) else round_even \<bar>i\<bar> (e - 52))"
    have q: "q * 2 ^ e = \<bar>i\<bar> * 2 ^ 52"
    proof (cases "e \<le> 52")
      case True
      then show ?thesis by (simp add: q_def flip: power_add)
    next
      case c: False
      have ee: "bit_length \<bar>i\<bar> - 53 = e - 52" using c by (simp add: e_def)
      with d have dv: "2 ^ (e - 52) dvd \<bar>i\<bar>" by simp
      then have "round_even \<bar>i\<bar> (e - 52) = \<bar>i\<bar> div 2 ^ (e - 52)"
        by (simp add: round_even_def Let_def dvd_imp_mod_0)
      moreover have "(2::int) ^ e = 2 ^ (e - 52) * 2 ^ 52" using c
        by (simp only: flip: power_add) simp
      ultimately show ?thesis using dv c by (simp add: q_def)
    qed
    have "2 ^ 52 * 2 ^ e \<le> q * 2 ^ e" "q * 2 ^ e < 2 ^ 53 * 2 ^ e"
      using b unfolding q by simp_all
    then have qb: "2 ^ 52 \<le> q" "q < 2 ^ 53"
      by (simp_all only: mult_le_cancel_right mult_less_cancel_right) auto
    define s :: int where "s = (if i < 0 then 1 else 0)"
    have v: "dbl_of_int i = word_of_int (s * 2 ^ 63 + (int e + 1023) * 2 ^ 52 + (q - 2 ^ 52))"
      using False by (simp add: dbl_of_int_def Let_def s_def q_def e_def algebra_simps)
    note p = dbl_of_parts [of s "int e + 1023" "q - 2 ^ 52"]
    have P: "uint (dbl_of_int i) = s * 2 ^ 63 + (int e + 1023) * 2 ^ 52 + (q - 2 ^ 52)"
      "dbl_exp (dbl_of_int i) = e + 1023" "dbl_frac (dbl_of_int i) = q - 2 ^ 52"
      unfolding v using p e qb by (simp_all add: s_def nat_add_distrib)
    have mag: "dbl_mag (dbl_of_int i) = \<bar>i\<bar> * 2 ^ 1074"
    proof -
      have "dbl_mag (dbl_of_int i) = q * 2 ^ (e + 1022)" by (simp add: dbl_mag_def P)
      also have "\<dots> = q * 2 ^ e * 2 ^ 1022" by (simp add: power_add)
      also have "\<dots> = \<bar>i\<bar> * 2 ^ 1074" unfolding q by simp
      finally show ?thesis .
    qed
    have "2 ^ 63 \<le> uint (dbl_of_int i) \<longleftrightarrow> i < 0"
      unfolding P s_def using qb e by (simp split: if_splits)
    then show ?thesis using e by (simp add: dbl_scaled_def mag IsNaN_def P)
  qed
  then show "dbl_scaled (dbl_of_int i) = i * 2 ^ 1074" "\<not> IsNaN (dbl_of_int i)" by simp_all
qed

lemma trunc_cases:
  fixes R P i :: int
  assumes P: "0 < P"
  defines "y \<equiv> (if R < 0 then - (- R div P) else R div P)"
  shows "i < y \<Longrightarrow> i * P < R" "y < i \<Longrightarrow> R < i * P"
proof -
  have d: "(k div P) * P \<le> k" "k < (k div P + 1) * P" for k
    using pos_mod_bound [OF P, of k] pos_mod_sign [OF P, of k] div_mult_mod_eq [of k P]
    by (simp_all only: distrib_right mult_1)
  have lt: "a < b \<Longrightarrow> a * P < b * P" "a \<le> b \<Longrightarrow> a * P \<le> b * P" for a b using P by simp_all
  show "i * P < R" if i: "i < y"
  proof (cases "R < 0")
    case True
    with i have "i \<le> - (- R div P + 1)" by (simp add: y_def)
    from lt(2) [OF this] d(2) [of "- R"] show ?thesis by (simp only: mult_minus_left; linarith)
  next
    case False
    with i have "i < R div P" by (simp add: y_def)
    from lt(1) [OF this] d(1) [of R] show ?thesis by linarith
  qed
  show "R < i * P" if i: "y < i"
  proof (cases "R < 0")
    case True
    with i have "- (- R div P) < i" by (simp add: y_def)
    from lt(1) [OF this] d(1) [of "- R"] show ?thesis by (simp only: mult_minus_left; linarith)
  next
    case False
    with i have "R div P + 1 \<le> i" by (simp add: y_def)
    from lt(2) [OF this] d(2) [of R] show ?thesis by linarith
  qed
qed

lemma dbl_frac_bounds: "0 \<le> dbl_frac r" "dbl_frac r < 2 ^ 52"
  by (simp_all add: dbl_frac_def)

lemma dbl_mag_nonneg: "0 \<le> dbl_mag r"
  using dbl_frac_bounds [of r] by (auto simp: dbl_mag_def)

lemma dbl_trunc_abs: "\<bar>dbl_trunc r\<bar> = dbl_mag r div 2 ^ 1074"
  using dbl_mag_nonneg [of r]
  by (auto simp: dbl_trunc_def dbl_scaled_def pos_imp_zdiv_nonneg_iff div_less_dividend simp del: power_numeral)

text \<open>Cut to an integer, a double loses its fraction or keeps its 53 bits.\<close>

lemma mag_div_shape:
  assumes "0 < dbl_mag r div 2 ^ 1074"
  shows "2 ^ (bit_length (dbl_mag r div 2 ^ 1074) - 53) dvd dbl_mag r div 2 ^ 1074"
proof (cases "dbl_exp r = 0")
  case True
  then have "dbl_mag r < 2 ^ 52" using dbl_frac_bounds [of r] by (simp add: dbl_mag_def)
  also have "(2::int) ^ 52 \<le> 2 ^ 1074" by simp
  finally have "dbl_mag r div 2 ^ 1074 = 0" using dbl_mag_nonneg [of r] by (simp only: div_pos_pos_trivial)
  with assms show ?thesis by simp
next
  case False
  define x where "x = dbl_exp r - 1"
  define M where "M = 2 ^ 52 + dbl_frac r"
  have M: "2 ^ 52 \<le> M" "M < 2 ^ 53" using dbl_frac_bounds [of r] by (simp_all add: M_def)
  have m: "dbl_mag r = M * 2 ^ x" using False by (simp add: dbl_mag_def M_def x_def)
  show ?thesis
  proof (cases "1074 \<le> x")
    case True
    then have "(2::int) ^ x = 2 ^ (x - 1074) * 2 ^ 1074" by (simp only: flip: power_add) simp
    then have q: "dbl_mag r div 2 ^ 1074 = M * 2 ^ (x - 1074)" unfolding m
      by (simp only: mult.assoc [symmetric]) (rule nonzero_mult_div_cancel_right, simp)
    have "bit_length (M * 2 ^ (x - 1074)) = Suc (52 + (x - 1074))"
    proof (rule bit_length_unique)
      show "2 ^ (52 + (x - 1074)) \<le> M * 2 ^ (x - 1074)"
        using M by (simp only: power_add) (rule mult_right_mono, simp_all)
      have "M * 2 ^ (x - 1074) < 2 ^ 53 * 2 ^ (x - 1074)" using M by (simp only: mult_less_cancel_right) simp
      then show "M * 2 ^ (x - 1074) < 2 ^ Suc (52 + (x - 1074))" by (simp only: power_add power_Suc) simp
    qed
    then show ?thesis unfolding q by simp
  next
    case c: False
    have P: "(0::int) < 2 ^ 1074" by simp
    have "dbl_mag r < 2 ^ 53 * 2 ^ x" unfolding m using M by (simp only: mult_less_cancel_right) simp
    also have "\<dots> = 2 ^ (53 + x)" by (simp only: power_add)
    also have "\<dots> \<le> 2 ^ (53 + 1074)" using c by (intro power_increasing) simp_all
    also have "\<dots> = 2 ^ 53 * 2 ^ 1074" by (simp only: power_add)
    finally have lt: "dbl_mag r div 2 ^ 1074 < 2 ^ 53"
      using le_div_iff [OF P, of "2 ^ 53" "dbl_mag r"] by (simp only: not_le [symmetric]) simp
    have "bit_length (dbl_mag r div 2 ^ 1074) - 1 < 53"
      by (rule pow2_less) (use bit_length_bounds [OF assms] lt in linarith)
    then show ?thesis by simp
  qed
qed

lemma trunc_back_exact:
  assumes "i64_ok i" "dbl_trunc r = i"
  shows "dbl_scaled (dbl_of_int i) = i * 2 ^ 1074" "\<not> IsNaN (dbl_of_int i)"
proof -
  have a: "\<bar>i\<bar> = dbl_mag r div 2 ^ 1074" using dbl_trunc_abs [of r] assms(2) by simp
  have "\<bar>i\<bar> < 2 ^ 64" using assms(1) by (auto simp: i64_defs)
  moreover have "2 ^ (bit_length \<bar>i\<bar> - 53) dvd i"
  proof (cases "i = 0")
    case False
    then have "0 < dbl_mag r div 2 ^ 1074" by (simp only: flip: a)
    from mag_div_shape [OF this] show ?thesis unfolding a [symmetric] by simp
  qed simp
  ultimately show "dbl_scaled (dbl_of_int i) = i * 2 ^ 1074" "\<not> IsNaN (dbl_of_int i)"
    using dbl_of_int_exact [of i] by simp_all
qed

theorem IntFloatCompare_exact:
  assumes "i64_ok i" "\<not> IsNaN r"
  shows "sqlite3IntFloatCompare wide i r = cmp_int (i * 2 ^ 1074) (dbl_scaled r)"
proof (cases wide)
  case True
  with assms(2) show ?thesis by (simp add: sqlite3IntFloatCompare_def cmp_int_def)
next
  case False
  have P: "(0::int) < 2 ^ 1074" by simp
  have i: "- (2 ^ 63) \<le> i" "i < 2 ^ 63" using assms(1) by (simp_all add: i64_defs)
  then have iP: "- (2 ^ 63) * 2 ^ 1074 \<le> i * 2 ^ 1074" "i * 2 ^ 1074 < 2 ^ 63 * 2 ^ 1074"
    by (simp_all only: mult_right_mono mult_strict_right_mono P less_imp_le)
  note t = trunc_cases [OF P, where i = i and R = "dbl_scaled r", folded dbl_trunc_def]
  consider "dbl_scaled r < - (2 ^ 63) * 2 ^ 1074" | "2 ^ 63 * 2 ^ 1074 \<le> dbl_scaled r"
    | "- (2 ^ 63) * 2 ^ 1074 \<le> dbl_scaled r" "dbl_scaled r < 2 ^ 63 * 2 ^ 1074" by linarith
  then show ?thesis
  proof cases
    case 1
    with iP have "dbl_scaled r < i * 2 ^ 1074" by linarith
    with 1 False assms(2) show ?thesis by (simp only: sqlite3IntFloatCompare_def cmp_int_def if_True if_False simp_thms) simp
  next
    case 2
    with iP have "i * 2 ^ 1074 < dbl_scaled r" by linarith
    moreover from 2 have "\<not> dbl_scaled r < - (2 ^ 63) * 2 ^ 1074" by (rule contrapos_pn) simp
    ultimately show ?thesis using 2 False assms(2)
      by (simp only: sqlite3IntFloatCompare_def cmp_int_def if_True if_False simp_thms)
  next
    case 3
    then have r: "\<not> dbl_scaled r < - (2 ^ 63) * 2 ^ 1074" "\<not> 2 ^ 63 * 2 ^ 1074 \<le> dbl_scaled r" by linarith+
    consider "i < dbl_trunc r" | "dbl_trunc r < i" | "dbl_trunc r = i" by linarith
    then show ?thesis
    proof cases
      case 1
      from t(1) [OF this] 1 r False assms(2) show ?thesis
        by (simp only: sqlite3IntFloatCompare_def cmp_int_def Let_def if_True if_False simp_thms)
    next
      case 2
      then have "\<not> i < dbl_trunc r" by simp
      moreover from t(2) [OF 2] have "\<not> i * 2 ^ 1074 < dbl_scaled r" by (rule less_not_sym)
      ultimately show ?thesis using t(2) [OF 2] 2 r False assms(2)
        by (simp only: sqlite3IntFloatCompare_def cmp_int_def Let_def if_True if_False simp_thms)
    next
      case 3
      from trunc_back_exact [OF assms(1) 3] 3 r False assms(2) show ?thesis
        by (simp only: sqlite3IntFloatCompare_def cmp_int_def Let_def dbl_less_def if_True if_False simp_thms less_irrefl)
    qed
  qed
qed

subsection \<open>Collating sequences\<close>

definition binCollFunc :: "u8 list \<Rightarrow> u8 list \<Rightarrow> int" where
  "binCollFunc key1 key2 =
     (let n = (if length key1 < length key2 then length key1 else length key2);
          rc = memcmp (take n key1) (take n key2)
      in if rc = 0 then int (length key1) - int (length key2) else rc)"

function rtrim :: "u8 list \<Rightarrow> u8 list" where
  "rtrim key = (if length key \<noteq> 0 \<and> key ! (length key - 1) = 0x20 then rtrim (butlast key) else key)"
  by auto
termination
  by (relation "measure length") auto

declare rtrim.simps [simp del]

definition rtrimCollFunc :: "u8 list \<Rightarrow> u8 list \<Rightarrow> int" where
  "rtrimCollFunc key1 key2 = binCollFunc (rtrim key1) (rtrim key2)"

definition nocaseCollatingFunc :: "u8 list \<Rightarrow> u8 list \<Rightarrow> int" where
  "nocaseCollatingFunc key1 key2 =
     (let r = sqlite3_strnicmp (Some key1) (Some key2)
                (int (if length key1 < length key2 then length key1 else length key2))
      in if 0 = r then int (length key1) - int (length key2) else r)"

locale collation =
  fixes cmp :: "u8 list \<Rightarrow> u8 list \<Rightarrow> int"
  assumes anti: "sgn (cmp x y) = - sgn (cmp y x)"
    and trans: "cmp x y \<le> 0 \<Longrightarrow> cmp y z \<le> 0 \<Longrightarrow> cmp x z \<le> 0"
begin

lemma refl [simp]: "cmp x x = 0"
  using anti [of x x] by (simp add: sgn_if split: if_splits)

lemma le_flip: "cmp y x \<le> 0 \<longleftrightarrow> 0 \<le> cmp x y"
  using anti [of x y] by (auto simp: sgn_if split: if_splits)

lemma pulled_back: "collation (\<lambda>x y. cmp (f x) (f y))"
  by unfold_locales (rule anti, erule trans)

end

lemma binCollFunc_simps [simp]:
  "binCollFunc [] y = - int (length y)"
  "binCollFunc (a # x) [] = int (length (a # x))"
  "binCollFunc (a # x) (b # y) = (if a = b then binCollFunc x y else uint a - uint b)"
  by (auto simp: binCollFunc_def Let_def word_uint_eq_iff)

lemma nocase_loop: "strnicmp_loop u v (int 0) = 0"
  "strnicmp_loop (a # x) (b # y) (int (Suc n)) =
     (if sqlite3Tolower a \<noteq> sqlite3Tolower b then uint (sqlite3Tolower a) - uint (sqlite3Tolower b)
      else if a = 0 then 0 else strnicmp_loop x y (int n))"
  by (simp_all add: strnicmp_loop.simps [where N = 0] strnicmp_loop.simps [where N = "1 + int n"]
      cstr_hd_def Let_def)

lemma nocase_simps [simp]:
  "nocaseCollatingFunc [] y = - int (length y)"
  "nocaseCollatingFunc (a # x) [] = int (length (a # x))"
  "nocaseCollatingFunc (a # x) (b # y) =
     (if sqlite3Tolower a \<noteq> sqlite3Tolower b then uint (sqlite3Tolower a) - uint (sqlite3Tolower b)
      else if a = 0 then int (length x) - int (length y) else nocaseCollatingFunc x y)"
  using nocase_loop(1)
  by (auto simp: nocaseCollatingFunc_def sqlite3_strnicmp_def nocase_loop(2) Let_def word_uint_eq_iff min_def
      simp del: of_nat_Suc)

lemma sgn_anti: "sgn (x - y) = - sgn (y - x)" for x y :: int
  by (simp add: sgn_if)

lemma bin_anti: "sgn (binCollFunc x y) = - sgn (binCollFunc y x)"
proof (induction x arbitrary: y)
  case Nil
  then show ?case by (cases y) (auto simp: sgn_if)
next
  case (Cons a x)
  show ?case
  proof (cases y)
    case (Cons b y')
    then show ?thesis using Cons.IH [of y'] sgn_anti [of "uint a" "uint b"] by simp
  qed (simp add: sgn_if)
qed

lemma bin_trans: "binCollFunc x y \<le> 0 \<Longrightarrow> binCollFunc y z \<le> 0 \<Longrightarrow> binCollFunc x z \<le> 0"
proof (induction x arbitrary: y z)
  case Nil
  then show ?case by (cases z) auto
next
  case (Cons a x)
  then show ?case by (cases y; cases z) (auto split: if_splits simp: word_uint_eq_iff)
qed

lemma nocase_anti: "sgn (nocaseCollatingFunc x y) = - sgn (nocaseCollatingFunc y x)"
proof (induction x arbitrary: y)
  case Nil
  then show ?case by (cases y) (auto simp: sgn_if)
next
  case (Cons a x)
  show ?case
  proof (cases y)
    case y: (Cons b y')
    consider "sqlite3Tolower a \<noteq> sqlite3Tolower b" | "sqlite3Tolower a = sqlite3Tolower b" "a = 0" "b = 0"
      | "sqlite3Tolower a = sqlite3Tolower b" "a \<noteq> 0" "b \<noteq> 0"
      using Tolower_0 [of a] Tolower_0 [of b] by metis
    then show ?thesis
      using Cons.IH [of y'] sgn_anti [of "int (length x)" "int (length y')"]
        sgn_anti [of "uint (sqlite3Tolower a)" "uint (sqlite3Tolower b)"]
      by cases (simp_all add: y)
  qed (simp add: sgn_if)
qed

lemma nocase_trans:
  "nocaseCollatingFunc x y \<le> 0 \<Longrightarrow> nocaseCollatingFunc y z \<le> 0 \<Longrightarrow> nocaseCollatingFunc x z \<le> 0"
proof (induction x arbitrary: y z)
  case Nil
  then show ?case by (cases z) auto
next
  case (Cons a x)
  then show ?case using Tolower_0 [of a] Tolower_0 [of "hd y"] Tolower_0 [of "hd z"]
    by (cases y; cases z) (auto split: if_splits simp: word_uint_eq_iff)
qed

interpretation bin: collation binCollFunc
  by unfold_locales (rule bin_anti, erule bin_trans)

interpretation trimmed: collation rtrimCollFunc
  unfolding rtrimCollFunc_def [abs_def] by (rule bin.pulled_back)

interpretation folded: collation nocaseCollatingFunc
  by unfold_locales (rule nocase_anti, erule nocase_trans)

subsection \<open>Flags\<close>

lemma has_bits:
  "has f MEM_Null \<longleftrightarrow> bit f 0" "has f MEM_Str \<longleftrightarrow> bit f 1" "has f MEM_Int \<longleftrightarrow> bit f 2"
  "has f MEM_Real \<longleftrightarrow> bit f 3" "has f MEM_Blob \<longleftrightarrow> bit f 4" "has f MEM_IntReal \<longleftrightarrow> bit f 5"
  "has f MEM_Zero \<longleftrightarrow> bit f 14"
  unfolding has_def word_eq_bits MEM_Null_def MEM_Str_def MEM_Int_def MEM_Real_def MEM_Blob_def
    MEM_IntReal_def MEM_Zero_def
  by (simp_all add: upt_start) (simp_all add: bit_simps)

lemma has_or: "has f (m OR n) \<longleftrightarrow> has f m \<or> has f n" "has (f OR g) m \<longleftrightarrow> has f m \<or> has g m"
  by (auto simp: has_def bit.conj_disj_distrib bit.conj_disj_distrib2 or_eq_0_iff)

lemmas has_simps = has_or has_bits

lemma null_bit: "uint (f AND MEM_Null) = (if bit f 0 then 1 else 0)"
proof -
  have "f AND 1 = (if bit f 0 then 1 else 0)"
    unfolding word_eq_bits by (simp add: upt_start) (auto simp: bit_simps)
  then show ?thesis by (simp add: MEM_Null_def)
qed

subsection \<open>The value of a cell\<close>

datatype sqlval = VNull | VInt int | VReal u64 | VText "u8 list" | VBlob "u8 list"

definition cell_val :: "cell \<Rightarrow> sqlval" where
  "cell_val c =
     (if has (flags c) MEM_Null then VNull
      else if has (flags c) MEM_Int \<or> has (flags c) MEM_IntReal then VInt (u_i c)
      else if has (flags c) MEM_Real then VReal (uval c)
      else if has (flags c) MEM_Str then VText (ztext c)
      else VBlob (ztext c @ (if has (flags c) MEM_Zero then replicate (u_nZero c) 0 else [])))"

text \<open>
  The cells the machine works with. The flags obey the assertions on types of
  \<open>sqlite3VdbeCheckMemInvariants\<close>: at most one kind of number, and a NULL has no other type. Some
  flag tells the type, a real is not NaN, only a blob has a tail of zeros, and no text or blob is
  longer than \<open>SQLITE_MAX_LENGTH\<close>.
\<close>

definition one_type :: "u16 \<Rightarrow> bool" where
  "one_type f \<longleftrightarrow>
     (let n = f AND (MEM_Int OR MEM_Real OR MEM_IntReal) in n AND (n - 1) = 0) \<and>
     (has f MEM_Null \<longrightarrow> \<not> has f (MEM_Int OR MEM_Real OR MEM_IntReal OR MEM_Str OR MEM_Blob))"

definition SQLITE_MAX_LENGTH :: nat where "SQLITE_MAX_LENGTH = 1000000000"

definition tail_len :: "cell \<Rightarrow> nat" where
  "tail_len c = (if has (flags c) MEM_Zero then u_nZero c else 0)"

definition cell_ok :: "cell \<Rightarrow> bool" where
  "cell_ok c \<longleftrightarrow> one_type (flags c) \<and>
     has (flags c) (MEM_Null OR MEM_Int OR MEM_IntReal OR MEM_Real OR MEM_Str OR MEM_Blob) \<and>
     (has (flags c) MEM_Real \<longrightarrow> \<not> IsNaN (uval c)) \<and>
     (has (flags c) (MEM_Str OR MEM_Blob) \<longrightarrow>
        ncell c \<le> length (zcell c) \<and> ncell c + tail_len c \<le> SQLITE_MAX_LENGTH) \<and>
     (has (flags c) MEM_Zero \<longrightarrow> \<not> has (flags c) MEM_Str)"

lemma one_type_bits:
  "one_type f \<longleftrightarrow>
     \<not> (bit f 2 \<and> bit f 3 \<or> bit f 2 \<and> bit f 5 \<or> bit f 3 \<and> bit f 5) \<and>
     (bit f 0 \<longrightarrow> \<not> bit f 1 \<and> \<not> bit f 2 \<and> \<not> bit f 3 \<and> \<not> bit f 4 \<and> \<not> bit f 5)"
proof -
  have f: "f AND 0x2C = (if bit f 2 then 4 else 0) + (if bit f 3 then 8 else 0) + (if bit f 5 then 32 else 0)"
    unfolding word_eq_bits by (simp add: upt_start) (auto simp: bit_simps)
  have "(let n = f AND (MEM_Int OR MEM_Real OR MEM_IntReal) in n AND (n - 1) = 0) \<longleftrightarrow>
      \<not> (bit f 2 \<and> bit f 3 \<or> bit f 2 \<and> bit f 5 \<or> bit f 3 \<and> bit f 5)"
    unfolding MEM_Int_def MEM_Real_def MEM_IntReal_def by (simp add: f Let_def)
  then show ?thesis unfolding one_type_def by (simp add: has_simps) blast
qed

subsection \<open>The order of the values\<close>

fun val_rank :: "sqlval \<Rightarrow> int" where
  "val_rank VNull = 0"
| "val_rank (VInt i) = 1"
| "val_rank (VReal r) = 1"
| "val_rank (VText t) = 2"
| "val_rank (VBlob b) = 3"

definition dbl_unit :: int where "dbl_unit = 2 ^ 1074"

fun num_key :: "sqlval \<Rightarrow> int" where
  "num_key (VInt i) = i * dbl_unit"
| "num_key (VReal r) = dbl_scaled r"
| "num_key _ = 0"

fun val_cmp :: "(u8 list \<Rightarrow> u8 list \<Rightarrow> int) \<Rightarrow> sqlval \<Rightarrow> sqlval \<Rightarrow> int" where
  "val_cmp text (VText s) (VText t) = text s t"
| "val_cmp text (VBlob s) (VBlob t) = binCollFunc s t"
| "val_cmp text v w =
     (if val_rank v = val_rank w then cmp_int (num_key v) (num_key w) else val_rank v - val_rank w)"

lemma cmp_int_anti: "cmp_int a b = - cmp_int b a"
  by (simp add: cmp_int_def)

lemma cmp_int_le: "cmp_int a b \<le> 0 \<longleftrightarrow> a \<le> b"
  by (simp add: cmp_int_def)

lemma val_cmp_rank: "val_rank v \<noteq> val_rank w \<Longrightarrow> val_cmp text v w = val_rank v - val_rank w"
  by (cases v; cases w) simp_all

lemma val_cmp_num: "val_rank v < 2 \<Longrightarrow> val_rank v = val_rank w \<Longrightarrow> val_cmp text v w = cmp_int (num_key v) (num_key w)"
  by (cases v; cases w) simp_all

lemma val_cmp_le_rank: "val_cmp text v w \<le> 0 \<Longrightarrow> val_rank v \<le> val_rank w"
  by (cases "val_rank v = val_rank w") (simp_all add: val_cmp_rank)

context collation
begin

lemma val_anti: "sgn (val_cmp cmp v w) = - sgn (val_cmp cmp w v)"
proof (cases "val_rank v = val_rank w")
  case True
  show ?thesis
  proof (cases "val_rank v < 2")
    case r: True
    with True show ?thesis
      using cmp_int_anti [of "num_key v" "num_key w"] by (simp add: val_cmp_num)
  next
    case r: False
    with True show ?thesis
      using anti [of "case v of VText s \<Rightarrow> s" "case w of VText s \<Rightarrow> s"]
        bin.anti [of "case v of VBlob s \<Rightarrow> s" "case w of VBlob s \<Rightarrow> s"]
      by (cases v; cases w) simp_all
  qed
next
  case False
  then show ?thesis by (simp add: val_cmp_rank sgn_if)
qed

lemma val_trans:
  assumes "val_cmp cmp u v \<le> 0" "val_cmp cmp v w \<le> 0" shows "val_cmp cmp u w \<le> 0"
proof -
  have r: "val_rank u \<le> val_rank v" "val_rank v \<le> val_rank w"
    using assms by (auto intro: val_cmp_le_rank)
  show ?thesis
  proof (cases "val_rank u = val_rank w")
    case False
    with r show ?thesis by (simp add: val_cmp_rank)
  next
    case True
    with r have e: "val_rank u = val_rank v" "val_rank v = val_rank w" by simp_all
    show ?thesis
    proof (cases "val_rank u < 2")
      case n: True
      with e assms show ?thesis by (simp add: val_cmp_num cmp_int_le)
    next
      case n: False
      with e assms show ?thesis
        by (cases u; cases v; cases w) (auto intro: trans bin.trans)
    qed
  qed
qed

end

subsection \<open>Cells are compared by value\<close>

text \<open>Blobs with a tail of zeros are only compared when they have nothing else.\<close>

definition cmp_ok :: "cell \<Rightarrow> bool" where
  "cmp_ok c \<longleftrightarrow> cell_ok c \<and> (has (flags c) MEM_Zero \<longrightarrow> ncell c = 0)"

definition blob_bytes :: "cell \<Rightarrow> u8 list" where
  "blob_bytes c = ztext c @ (if has (flags c) MEM_Zero then replicate (u_nZero c) 0 else [])"

lemma zeros_zeros: "binCollFunc (replicate n 0) (replicate m 0) = int n - int m"
  by (induction n arbitrary: m) (case_tac [2] m, simp_all)

lemma zeros_less: "\<not> isAllZero z \<Longrightarrow> binCollFunc (replicate n 0) z < 0"
proof (induction n arbitrary: z)
  case 0
  then show ?case by (cases z) auto
next
  case (Suc n)
  then show ?case
    by (cases z) (auto split: if_splits simp: less_le word_uint_eq_iff)
qed

lemma zeros_greater: "\<not> isAllZero z \<Longrightarrow> 0 < binCollFunc z (replicate n 0)"
  using zeros_less [of z n] bin.anti [of z "replicate n 0"] by (simp add: sgn_if split: if_splits)

lemma all_zero: "isAllZero z \<Longrightarrow> z = replicate (length z) 0"
  by (induction z) (auto split: if_splits)

lemma BlobCompare_bytes:
  assumes "cmp_ok a" "cmp_ok b" "has (flags a) (MEM_Str OR MEM_Blob)" "has (flags b) (MEM_Str OR MEM_Blob)"
  shows "sgn (sqlite3BlobCompare a b) = sgn (binCollFunc (blob_bytes a) (blob_bytes b))"
proof -
  have l: "length (ztext a) = ncell a" "length (ztext b) = ncell b"
    using assms by (simp_all add: cmp_ok_def cell_ok_def ztext_def)
  have za: "bit (flags a) 14 \<Longrightarrow> ztext a = [] \<and> ncell a = 0" and zb: "bit (flags b) 14 \<Longrightarrow> ztext b = [] \<and> ncell b = 0"
    using assms by (simp_all add: cmp_ok_def has_bits ztext_def)
  show ?thesis
  proof (cases "bit (flags a) 14 \<or> bit (flags b) 14")
    case True
    then show ?thesis
      using za zb l zeros_less [of "ztext b" "u_nZero a"] zeros_greater [of "ztext a" "u_nZero b"]
        all_zero [of "ztext a"] all_zero [of "ztext b"]
        zeros_zeros [of "u_nZero a" "u_nZero b"] zeros_zeros [of "u_nZero a" "ncell b"]
        zeros_zeros [of "ncell a" "u_nZero b"]
      by (cases "isAllZero (ztext a)"; cases "isAllZero (ztext b)")
         (auto simp: sqlite3BlobCompare_def has_bits bit_simps blob_bytes_def)
  next
    case False
    have "take k (zcell c) = take k (ztext c)" if "k \<le> ncell c" for k c
      using that by (simp add: ztext_def min_def)
    with False l show ?thesis
      by (auto simp: sqlite3BlobCompare_def has_bits bit_simps blob_bytes_def binCollFunc_def Let_def)
  qed
qed

text \<open>The text comparison that a collating sequence gives on texts of the encoding \<open>e\<close>.\<close>

definition recode :: "enc \<Rightarrow> enc \<Rightarrow> u8 list \<Rightarrow> u8 list" where
  "recode e d x =
     mem_text (snd (sqlite3VdbeMemTranslate True \<lparr>z_buf = x, n_bytes = length x, enc_of = e, mflags = 0\<rparr> d))"

definition collate :: "enc \<Rightarrow> collseq option \<Rightarrow> u8 list \<Rightarrow> u8 list \<Rightarrow> int" where
  "collate e pColl x y =
     (case pColl of None \<Rightarrow> binCollFunc x y
      | Some c \<Rightarrow> if coll_enc c = e then xCmp c x y
                  else xCmp c (recode e (coll_enc c) x) (recode e (coll_enc c) y))"

lemma length_swap_bytes: "length (swap_bytes z) = length z"
  by (induction z rule: swap_bytes.induct) auto

lemma valueToText_recode:
  assumes "ncell c \<le> length (zcell c)" "enc_cell c \<noteq> e"
  shows "valueToText (\<lambda>t. True) c e = Some (recode (enc_cell c) e (ztext c))"
  using assms
  by (cases "enc_cell c"; cases e)
     (simp_all add: valueToText_def recode_def sqlite3VdbeMemTranslate_def mem_text_def ztext_def
      Let_def length_swap_bytes min_absorb2 drop_take)

lemma MemString_collate:
  assumes "ncell a \<le> length (zcell a)" "ncell b \<le> length (zcell b)" "enc_cell a = e" "enc_cell b = e"
  shows "vdbeCompareMemString (\<lambda>t. True) a b c = (collate e (Some c) (ztext a) (ztext b), False)"
  using assms by (auto simp: vdbeCompareMemString_def collate_def valueToText_recode)

lemma cell_val_cases:
  assumes "cell_ok c"
  obtains "bit (flags c) 0" "cell_val c = VNull"
      "\<not> bit (flags c) 1" "\<not> bit (flags c) 2" "\<not> bit (flags c) 3" "\<not> bit (flags c) 4" "\<not> bit (flags c) 5"
  | "bit (flags c) 2 \<noteq> bit (flags c) 5" "\<not> bit (flags c) 0" "\<not> bit (flags c) 3" "cell_val c = VInt (u_i c)"
  | "bit (flags c) 3" "\<not> bit (flags c) 0" "\<not> bit (flags c) 2" "\<not> bit (flags c) 5" "cell_val c = VReal (uval c)"
      "\<not> IsNaN (uval c)"
  | "bit (flags c) 1" "\<not> bit (flags c) 0" "\<not> bit (flags c) 2" "\<not> bit (flags c) 3" "\<not> bit (flags c) 5"
      "\<not> bit (flags c) 14" "cell_val c = VText (ztext c)" "ncell c \<le> length (zcell c)"
  | "bit (flags c) 4" "\<not> bit (flags c) 0" "\<not> bit (flags c) 1" "\<not> bit (flags c) 2" "\<not> bit (flags c) 3"
      "\<not> bit (flags c) 5" "cell_val c = VBlob (blob_bytes c)" "ncell c \<le> length (zcell c)"
  using assms unfolding cell_ok_def one_type_bits has_simps cell_val_def blob_bytes_def
  by (cases "bit (flags c) 0"; cases "bit (flags c) 2"; cases "bit (flags c) 5"; cases "bit (flags c) 3";
      cases "bit (flags c) 1") simp_all

lemma u_i_ok: "i64_ok (u_i c)"
  using sint_range_size [of "uval c"] by (simp add: u_i_def i64_defs word_size)

lemma cmp_dbl_key: "\<not> IsNaN a \<Longrightarrow> \<not> IsNaN b \<Longrightarrow> cmp_dbl a b = cmp_int (dbl_scaled a) (dbl_scaled b)"
  by (simp add: cmp_dbl_def cmp_int_def dbl_less_def)

lemma cmp_int_scaled: "cmp_int (i * dbl_unit) (j * dbl_unit) = cmp_int i j"
  by (simp add: cmp_int_def dbl_unit_def mult_less_cancel_right)

lemma cmp_int_refl [simp]: "cmp_int i i = 0"
  by (simp add: cmp_int_def)

lemma plain_bytes: "\<not> bit (flags c) 14 \<Longrightarrow> blob_bytes c = ztext c"
  by (simp add: blob_bytes_def has_bits)

lemma collate_None: "collate e None x y = binCollFunc x y"
  by (simp add: collate_def)

lemmas IntFloatCompare_unit = IntFloatCompare_exact [folded dbl_unit_def]

lemma MemCompare_by_value:
  assumes a: "cmp_ok a" and b: "cmp_ok b" and e: "enc_cell a = e" "enc_cell b = e"
  shows "sgn (sqlite3MemCompare wide (\<lambda>t. True) a b pColl) =
    sgn (val_cmp (collate e pColl) (cell_val a) (cell_val b))"
proof -
  have ok: "cell_ok a" "cell_ok b" using a b by (simp_all add: cmp_ok_def)
  have bb: "sgn (sqlite3BlobCompare a b) = sgn (binCollFunc (blob_bytes a) (blob_bytes b))"
    if "bit (flags a) 1 \<or> bit (flags a) 4" "bit (flags b) 1 \<or> bit (flags b) 4"
    using BlobCompare_bytes [OF a b] that by (simp add: has_simps)
  note s = sqlite3MemCompare_def MEM_Integer_def has_simps bit_simps null_bit Let_def
  show ?thesis
    apply (cases rule: cell_val_cases [OF ok(1)]; cases rule: cell_val_cases [OF ok(2)])
    using IntFloatCompare_unit [OF u_i_ok, of "uval b" wide a] IntFloatCompare_unit [OF u_i_ok, of "uval a" wide b]
      cmp_int_anti [of "dbl_scaled (uval a)" "u_i b * dbl_unit"]
      cmp_dbl_key [of "uval a" "uval b"] bb MemString_collate [OF _ _ e]
    by (simp_all add: s cmp_int_scaled plain_bytes collate_None del: One_nat_def split: option.split)
qed

lemma collate_lawful: "(\<forall>coll. pColl = Some coll \<longrightarrow> collation (xCmp coll)) \<Longrightarrow> collation (collate e pColl)"
  by (cases pColl; cases "coll_enc (the pColl) = e")
     (auto simp: collate_def [abs_def] bin.collation_axioms intro: collation.pulled_back)

text \<open>
  C24. sqlite3MemCompare orders the values: cells are compared by their values alone, NULL before
  numbers before text before blobs; integers and reals by their exact values, text by the collating
  sequence, blobs byte by byte with the tail of zeros included. The comparison is antisymmetric and
  transitive whenever the collating sequence is.
\<close>

theorem MemCompare_orders_values:
  assumes "cmp_ok a" "cmp_ok b" "cmp_ok c" "enc_cell a = e" "enc_cell b = e" "enc_cell c = e"
    and "\<forall>coll. pColl = Some coll \<longrightarrow> collation (xCmp coll)"
    and cmp: "cmp = (\<lambda>x y. sqlite3MemCompare wide (\<lambda>t. True) x y pColl)"
  shows "sgn (cmp a b) = sgn (val_cmp (collate e pColl) (cell_val a) (cell_val b)) \<and>
    sgn (cmp a b) = - sgn (cmp b a) \<and>
    (cmp a b \<le> 0 \<and> cmp b c \<le> 0 \<longrightarrow> cmp a c \<le> 0)"
proof -
  note law = collate_lawful [OF assms(7), of e]
  note v = MemCompare_by_value [where wide = wide and pColl = pColl and e = e]
  have s: "sgn (cmp x y) = sgn (val_cmp (collate e pColl) (cell_val x) (cell_val y))"
    if "x \<in> {a, b, c}" "y \<in> {a, b, c}" for x y
    unfolding cmp using that assms(1-6) by (intro v) auto
  have le: "cmp x y \<le> 0 \<longleftrightarrow> val_cmp (collate e pColl) (cell_val x) (cell_val y) \<le> 0"
    if "x \<in> {a, b, c}" "y \<in> {a, b, c}" for x y
    using s [OF that] by (simp add: sgn_if split: if_splits)
  show ?thesis
    using collation.val_anti [OF law, of "cell_val a" "cell_val b"]
      collation.val_trans [OF law, of "cell_val a" "cell_val b" "cell_val c"]
    by (simp add: s le)
qed

definition int_cell :: "int \<Rightarrow> cell" where
  "int_cell i = \<lparr>flags = MEM_Int, uval = word_of_int i, ncell = 0, zcell = [], enc_cell = SQLITE_UTF8, uTemp = 0\<rparr>"

definition real_cell :: "u64 \<Rightarrow> cell" where
  "real_cell r = \<lparr>flags = MEM_Real, uval = r, ncell = 0, zcell = [], enc_cell = SQLITE_UTF8, uTemp = 0\<rparr>"

definition text_cell :: "u8 list \<Rightarrow> cell" where
  "text_cell t = \<lparr>flags = MEM_Str, uval = 0, ncell = length t, zcell = t, enc_cell = SQLITE_UTF8, uTemp = 0\<rparr>"

lemma sample_cells: "cmp_ok (int_cell (- 7))" "cmp_ok (real_cell 0x401C000000000000)" "cmp_ok (text_cell [0x61, 0x42])"
  by (simp_all add: cmp_ok_def cell_ok_def one_type_bits has_def int_cell_def real_cell_def text_cell_def
      MEM_Null_def MEM_IntReal_def MEM_Blob_def MEM_Zero_def MEM_Int_def MEM_Real_def MEM_Str_def tail_len_def SQLITE_MAX_LENGTH_def IsNaN_def dbl_exp_def)

definition nocase_coll :: collseq where
  "nocase_coll = \<lparr>coll_enc = SQLITE_UTF8, xCmp = nocaseCollatingFunc\<rparr>"

theorem MemCompare_orders_values_witness:
  "sgn (sqlite3MemCompare True (\<lambda>t. True) (int_cell (- 7)) (real_cell 0x401C000000000000) (Some nocase_coll)) =
   - sgn (sqlite3MemCompare True (\<lambda>t. True) (real_cell 0x401C000000000000) (int_cell (- 7)) (Some nocase_coll))"
  using MemCompare_orders_values [OF sample_cells, where e = SQLITE_UTF8 and pColl = "Some nocase_coll"
      and wide = True] folded.collation_axioms
  by (simp add: int_cell_def real_cell_def text_cell_def nocase_coll_def)

text \<open>
  C25. The two ways \<open>sqlite3IntFloatCompare\<close> is compiled agree: with a wide \<open>long double\<close> and
  without, the result is the comparison of the integer with the exact value of the double. Neither
  the cut to an integer nor the rounding of a large integer to a double can change the answer.
\<close>

theorem IntFloatCompare_both_ways:
  assumes "i64_ok i" "\<not> IsNaN r"
  shows "sqlite3IntFloatCompare True i r = sqlite3IntFloatCompare False i r \<and>
    sqlite3IntFloatCompare False i r = cmp_int (i * dbl_unit) (dbl_scaled r)"
  using assms by (simp add: IntFloatCompare_unit)

theorem IntFloatCompare_both_ways_witness:
  "i64_ok 9007199254740993 \<and> \<not> IsNaN 0x4340000000000000 \<and>
   sqlite3IntFloatCompare True 9007199254740993 0x4340000000000000 =
   sqlite3IntFloatCompare False 9007199254740993 0x4340000000000000"
proof -
  have "i64_ok 9007199254740993" "\<not> IsNaN 0x4340000000000000" by code_simp+
  from IntFloatCompare_both_ways [OF this] this show ?thesis by blast
qed

subsection \<open>Serialized integers\<close>

lemma bit_sint: "bit (sint (w :: 'w::len word)) m \<longleftrightarrow> bit w (min m (LENGTH('w) - 1))"
proof (cases "m < LENGTH('w)")
  case True
  then show ?thesis by (auto simp: bit_sint_iff min_def)
next
  case False
  then show ?thesis using bit_imp_le_length [of w m] by (auto simp: bit_sint_iff min_def)
qed

lemma bit_stb: "bit (signed_take_bit n (sint (v :: u64))) m \<longleftrightarrow> bit v (min (min m n) 63)"
  by (simp add: bit_signed_take_bit_iff bit_sint min.commute)

lemma put_be_exp:
  "put_be 1 v = [ucast v]"
  "put_be 2 v = [ucast (drop_bit 8 v), ucast v]"
  "put_be 3 v = [ucast (drop_bit 16 v), ucast (drop_bit 8 v), ucast v]"
  "put_be 4 v = [ucast (drop_bit 24 v), ucast (drop_bit 16 v), ucast (drop_bit 8 v), ucast v]"
  "put_be 6 v = [ucast (drop_bit 40 v), ucast (drop_bit 32 v), ucast (drop_bit 24 v), ucast (drop_bit 16 v),
     ucast (drop_bit 8 v), ucast v]"
  "put_be 8 v = [ucast (drop_bit 56 v), ucast (drop_bit 48 v), ucast (drop_bit 40 v), ucast (drop_bit 32 v),
     ucast (drop_bit 24 v), ucast (drop_bit 16 v), ucast (drop_bit 8 v), ucast v]"
proof -
  have b: "ucast (w AND 0xFF) = (ucast w :: u8)" for w :: u64
    unfolding word_eq_bits by (simp add: upt_start) (simp add: bit_simps)
  show "put_be 1 v = [ucast v]"
    "put_be 2 v = [ucast (drop_bit 8 v), ucast v]"
    "put_be 3 v = [ucast (drop_bit 16 v), ucast (drop_bit 8 v), ucast v]"
    "put_be 4 v = [ucast (drop_bit 24 v), ucast (drop_bit 16 v), ucast (drop_bit 8 v), ucast v]"
    "put_be 6 v = [ucast (drop_bit 40 v), ucast (drop_bit 32 v), ucast (drop_bit 24 v), ucast (drop_bit 16 v),
       ucast (drop_bit 8 v), ucast v]"
    "put_be 8 v = [ucast (drop_bit 56 v), ucast (drop_bit 48 v), ucast (drop_bit 40 v), ucast (drop_bit 32 v),
       ucast (drop_bit 24 v), ucast (drop_bit 16 v), ucast (drop_bit 8 v), ucast v]"
    by (simp_all add: eval_nat_numeral b)
qed

lemma mul_push: "256 * k = push_bit 8 (k::int)" "65536 * k = push_bit 16 k" "16777216 * k = push_bit 24 k"
  by (simp_all add: push_bit_eq_mult)

lemma read_be1: "ONE_BYTE_INT (put_be 1 v @ r) = Some (signed_take_bit 7 (sint v))"
proof -
  have "sint (ucast v :: u8) = signed_take_bit 7 (sint v)"
    by (rule bit_eqI) (auto simp: bit_sint bit_stb bit_simps min_def)
  then show ?thesis by (simp add: ONE_BYTE_INT_def put_be_exp del: One_nat_def)
qed

lemma read_be2: "TWO_BYTE_INT (put_be 2 v @ r) = Some (signed_take_bit 15 (sint v))"
proof -
  have "256 * sint (ucast (drop_bit 8 v) :: u8) OR uint (ucast v :: u8) = signed_take_bit 15 (sint v)"
    unfolding mul_push
  proof (rule bit_eqI)
    fix n show "bit (push_bit 8 (sint (ucast (drop_bit 8 v) :: u8)) OR uint (ucast v :: u8)) n =
        bit (signed_take_bit 15 (sint v)) n"
      by (cases "n < 8"; cases "n < 15"; cases "n = 15") (auto simp: bit_sint bit_stb bit_simps min_def)
  qed
  then show ?thesis unfolding put_be_exp by (simp add: TWO_BYTE_INT_def numeral_2_eq_2)
qed

lemma read_be3: "THREE_BYTE_INT (put_be 3 v @ r) = Some (signed_take_bit 23 (sint v))"
proof -
  have "65536 * sint (ucast (drop_bit 16 v) :: u8) OR push_bit 8 (uint (ucast (drop_bit 8 v) :: u8)) OR
      uint (ucast v :: u8) = signed_take_bit 23 (sint v)"
    unfolding mul_push
  proof (rule bit_eqI)
    fix n show "bit (push_bit 16 (sint (ucast (drop_bit 16 v) :: u8)) OR push_bit 8 (uint (ucast (drop_bit 8 v) :: u8)) OR
        uint (ucast v :: u8)) n = bit (signed_take_bit 23 (sint v)) n"
      by (cases "n < 8"; cases "n < 16"; cases "n < 23"; cases "n = 23") (auto simp: bit_sint bit_stb bit_simps min_def)
  qed
  then show ?thesis unfolding put_be_exp by (simp add: THREE_BYTE_INT_def numeral_2_eq_2)
qed

lemma read_be4: "FOUR_BYTE_INT (put_be 4 v @ r) = Some (signed_take_bit 31 (sint v))"
proof -
  have "16777216 * sint (ucast (drop_bit 24 v) :: u8) OR push_bit 16 (uint (ucast (drop_bit 16 v) :: u8)) OR
      push_bit 8 (uint (ucast (drop_bit 8 v) :: u8)) OR uint (ucast v :: u8) = signed_take_bit 31 (sint v)"
    unfolding mul_push
  proof (rule bit_eqI)
    fix n show "bit (push_bit 24 (sint (ucast (drop_bit 24 v) :: u8)) OR push_bit 16 (uint (ucast (drop_bit 16 v) :: u8)) OR
      push_bit 8 (uint (ucast (drop_bit 8 v) :: u8)) OR uint (ucast v :: u8)) n = bit (signed_take_bit 31 (sint v)) n"
      by (cases "n < 8"; cases "n < 16"; cases "n < 24"; cases "n < 31"; cases "n = 31") (auto simp: bit_sint bit_stb bit_simps min_def)
  qed
  then show ?thesis unfolding put_be_exp by (simp add: FOUR_BYTE_INT_def numeral_2_eq_2)
qed

lemma get_u4:
  "FOUR_BYTE_UINT (ucast (drop_bit 24 v) # ucast (drop_bit 16 v) # ucast (drop_bit 8 v) # ucast v # r) =
     Some (ucast (v :: u64))"
proof -
  have "push_bit 24 (ucast (ucast (drop_bit 24 v) :: u8)) OR push_bit 16 (ucast (ucast (drop_bit 16 v) :: u8)) OR
      push_bit 8 (ucast (ucast (drop_bit 8 v) :: u8)) OR ucast (ucast v :: u8) = (ucast v :: u32)"
    unfolding word_eq_bits by (simp add: upt_start) (simp add: bit_simps)
  then show ?thesis by (simp add: FOUR_BYTE_UINT_def numeral_2_eq_2)
qed

lemma read_be6: "SIX_BYTE_INT (put_be 6 v @ r) = Some (signed_take_bit 47 (sint v))"
proof -
  have hi: "TWO_BYTE_INT (ucast (drop_bit 40 v) # ucast (drop_bit 32 v) # s) = Some (signed_take_bit 15 (sint (drop_bit 32 v)))"
    for s using read_be2 [of "drop_bit 32 v" s] by (simp add: put_be_exp)
  have "uint (ucast v :: u32) + push_bit 32 (signed_take_bit 15 (sint (drop_bit 32 v))) =
      uint (ucast v :: u32) OR push_bit 32 (signed_take_bit 15 (sint (drop_bit 32 v)))"
    by (rule disjunctive_add) (auto simp: bit_simps bit_uint_iff)
  also have "\<dots> = signed_take_bit 47 (sint v)"
  proof (rule bit_eqI)
    fix n show "bit (uint (ucast v :: u32) OR push_bit 32 (signed_take_bit 15 (sint (drop_bit 32 v)))) n =
        bit (signed_take_bit 47 (sint v)) n"
      by (cases "n < 32"; cases "n < 47") (auto simp: bit_sint bit_stb bit_simps min_def)
  qed
  finally have "uint (ucast v :: u32) + 2 ^ 32 * signed_take_bit 15 (sint (drop_bit 32 v)) = signed_take_bit 47 (sint v)"
    by (simp add: push_bit_eq_mult mult.commute)
  then show ?thesis
    by (simp add: SIX_BYTE_INT_def put_be_exp get_u4 hi)
qed

lemma read_be8:
  "serialGet (put_be 8 v @ r) t p =
     Some (if t = 6 then (p\<lparr>uval := v, flags := MEM_Int\<rparr>, 8)
           else (p\<lparr>uval := v, flags := (if IsNaN v then MEM_Null else MEM_Real)\<rparr>, 8))"
proof -
  have "push_bit 32 (ucast (ucast (drop_bit 32 v) :: u32)) + ucast (ucast v :: u32) =
      (push_bit 32 (ucast (ucast (drop_bit 32 v) :: u32)) OR ucast (ucast v :: u32) :: u64)"
    by (rule disjunctive_add) (auto simp: bit_simps)
  also have "\<dots> = v"
    unfolding word_eq_bits by (simp add: upt_start) (simp add: bit_simps)
  finally show ?thesis
    using get_u4 [of "drop_bit 32 v"] by (simp add: serialGet_def put_be_exp get_u4 Let_def)
qed

lemma stb_same: "- (2 ^ n) \<le> i \<Longrightarrow> i < 2 ^ n \<Longrightarrow> signed_take_bit n i = (i :: int)"
  by (simp add: signed_take_bit_int_eq_self)

end
