(* ===== verification/SqlRecord.thy ===== *)
theory SqlRecord
  imports SqlValue
begin

section \<open>Records (vdbeaux.c, OP_MakeRecord of vdbe.c)\<close>

text \<open>
  A row or an index entry is stored as a record: a header with the size of the header and the serial
  type of each column as varints, then the columns. The theory models how a record is made, taken
  apart and compared with a key that is already taken apart. All offsets are numbers within the
  record, below \<open>2 ^ 31\<close>. A record is a buffer with its length; the buffer may be longer, and a read
  beyond it is \<open>None\<close>.
\<close>

subsection \<open>Making a record\<close>

definition MEM_Term_Zero :: u16 where "MEM_Term_Zero = MEM_Zero OR MEM_Term"

definition putVarint32 :: "u32 \<Rightarrow> u8 list" where
  "putVarint32 B = (if B < 0x80 then [ucast B] else sqlite3PutVarint (ucast B))"

text \<open>\<open>mok\<close> says for which sizes the allocator has the memory.\<close>

definition sqlite3VdbeMemExpandBlob :: "(nat \<Rightarrow> bool) \<Rightarrow> cell \<Rightarrow> cell option" where
  "sqlite3VdbeMemExpandBlob mok pMem =
     (let nByte = ncell pMem + u_nZero pMem in
      if nByte = 0 \<and> \<not> has (flags pMem) MEM_Blob then Some pMem
      else if \<not> mok (if nByte = 0 then 1 else nByte) then None
      else Some (pMem\<lparr>zcell := ztext pMem @ replicate (u_nZero pMem) 0,
                      ncell := ncell pMem + u_nZero pMem,
                      flags := flags pMem AND NOT MEM_Term_Zero\<rparr>))"

text \<open>
  The first loop runs from the last column to the first; its state is \<open>nData\<close>, \<open>nHdr\<close> and \<open>nZero\<close>, and
  it leaves the serial types in \<open>uTemp\<close>. \<open>None\<close> is the jump to \<open>no_mem\<close>.
\<close>

definition int_width :: "nat \<Rightarrow> int \<Rightarrow> u32 \<times> nat" where
  "int_width file_format i =
     (let uu = (if i < 0 then NOT i else i) in
      if uu \<le> 127 then (if i AND 1 = i \<and> 4 \<le> file_format then (8 + word_of_int uu, 0) else (1, 1))
      else if uu \<le> 32767 then (2, 2)
      else if uu \<le> 8388607 then (3, 3)
      else if uu \<le> 2147483647 then (4, 4)
      else if uu \<le> 140737488355327 then (5, 6)
      else (6, 8))"

definition size_field ::
    "(nat \<Rightarrow> bool) \<Rightarrow> nat \<Rightarrow> cell \<Rightarrow> nat \<times> nat \<times> nat \<Rightarrow> (cell \<times> nat \<times> nat \<times> nat) option" where
  "size_field mok file_format pRec st =
     (case st of (nData, nHdr, nZero) \<Rightarrow>
      if has (flags pRec) MEM_Null then
        Some (pRec\<lparr>uTemp := (if has (flags pRec) MEM_Zero then 10 else 0)\<rparr>, nData, nHdr + 1, nZero)
      else if has (flags pRec) (MEM_Int OR MEM_IntReal) then
        (case int_width file_format (u_i pRec) of (t, w) \<Rightarrow>
         if t = 6 \<and> has (flags pRec) MEM_IntReal
         then Some (pRec\<lparr>uval := dbl_of_int (u_i pRec),
                         flags := (flags pRec AND NOT MEM_IntReal) OR MEM_Real, uTemp := 7\<rparr>,
                    nData + 8, nHdr + 1, nZero)
         else Some (pRec\<lparr>uTemp := t\<rparr>, nData + w, nHdr + 1, nZero))
      else if has (flags pRec) MEM_Real then
        Some (pRec\<lparr>uTemp := 7\<rparr>, nData + 8, nHdr + 1, nZero)
      else
        let len = ncell pRec;
            serial_type = of_nat (len * 2) + 12 + (if has (flags pRec) MEM_Str then 1 else 0) :: u32
        in if has (flags pRec) MEM_Zero then
             let serial_type = serial_type + of_nat (u_nZero pRec * 2) in
             if nData \<noteq> 0 then
               (case sqlite3VdbeMemExpandBlob mok pRec of None \<Rightarrow> None
                | Some p \<Rightarrow> Some (p\<lparr>uTemp := serial_type\<rparr>, nData + (len + u_nZero pRec),
                                  nHdr + sqlite3VarintLen (ucast serial_type), nZero))
             else Some (pRec\<lparr>uTemp := serial_type\<rparr>, nData + len,
                        nHdr + sqlite3VarintLen (ucast serial_type), nZero + u_nZero pRec)
           else Some (pRec\<lparr>uTemp := serial_type\<rparr>, nData + len,
                      nHdr + sqlite3VarintLen (ucast serial_type), nZero))"

fun size_loop ::
    "(nat \<Rightarrow> bool) \<Rightarrow> nat \<Rightarrow> cell list \<Rightarrow> (cell list \<times> nat \<times> nat \<times> nat) option" where
  "size_loop mok ff [] = Some ([], 0, 0, 0)"
| "size_loop mok ff (c # cs) =
     (case size_loop mok ff cs of None \<Rightarrow> None
      | Some (cs', st) \<Rightarrow>
          (case size_field mok ff c st of None \<Rightarrow> None | Some (c', st') \<Rightarrow> Some (c' # cs', st')))"

definition header_size :: "nat \<Rightarrow> nat" where
  "header_size nHdr =
     (if nHdr \<le> 126 then nHdr + 1
      else let nVarint = sqlite3VarintLen (of_nat nHdr); n = nHdr + nVarint
           in if nVarint < sqlite3VarintLen (of_nat n) then n + 1 else n)"

text \<open>The second loop writes into the buffer; a write beyond it is \<open>None\<close>.\<close>

definition put_at :: "u8 list \<Rightarrow> nat \<Rightarrow> u8 list \<Rightarrow> u8 list option" where
  "put_at z pos bytes =
     (if pos + length bytes \<le> length z then Some (take pos z @ bytes @ drop (pos + length bytes) z) else None)"

fun write_columns :: "cell list \<Rightarrow> u8 list \<Rightarrow> nat \<Rightarrow> nat \<Rightarrow> u8 list option" where
  "write_columns [] z zHdr zPayload = Some z"
| "write_columns (c # cs) z zHdr zPayload =
     (let h = putVarint32 (uTemp c); b = sqlite3VdbeSerialPut c (uTemp c) in
      case put_at z zHdr h of None \<Rightarrow> None
      | Some z \<Rightarrow> (case put_at z zPayload b of None \<Rightarrow> None
                  | Some z \<Rightarrow> write_columns cs z (zHdr + length h) (zPayload + length b)))"

text \<open>
  The opcode without an affinity string. \<open>zMalloc\<close> is the buffer the output register has,
  \<open>fresh n\<close> the block the allocator returns for \<open>n\<close> bytes, with whatever it holds. The result is the
  output register.
\<close>

datatype made = NoMem | TooBig | OutOfBounds | Made cell

definition OP_MakeRecord ::
    "(nat \<Rightarrow> bool) \<Rightarrow> (nat \<Rightarrow> u8 list option) \<Rightarrow> nat \<Rightarrow> nat \<Rightarrow> u8 list \<Rightarrow> cell \<Rightarrow> cell list \<Rightarrow> made" where
  "OP_MakeRecord mok fresh file_format limit zMalloc pOut regs =
     (case size_loop mok file_format regs of None \<Rightarrow> NoMem
      | Some (cs, nData, nHdr, nZero) \<Rightarrow>
          let nHdr = header_size nHdr; nByte = nHdr + nData in
          if length zMalloc < nByte + nZero \<and> limit < nByte + nZero then TooBig
          else case (if nByte \<le> length zMalloc then Some zMalloc else fresh nByte) of None \<Rightarrow> NoMem
          | Some z \<Rightarrow>
              let h = putVarint32 (of_nat nHdr) in
              (case put_at z 0 h of None \<Rightarrow> OutOfBounds
               | Some z \<Rightarrow>
                   (case write_columns cs z (length h) nHdr of None \<Rightarrow> OutOfBounds
                    | Some z \<Rightarrow> Made (pOut\<lparr>zcell := z, ncell := nByte,
                                  flags := (if nZero \<noteq> 0 then MEM_Blob OR MEM_Zero else MEM_Blob),
                                  uval := (if nZero \<noteq> 0 then (uval pOut AND push_bit 32 0xFFFFFFFF) OR of_nat nZero
                                           else uval pOut)\<rparr>))))"

subsection \<open>Taking a record apart (sqlite3VdbeRecordUnpack)\<close>

record keyinfo =
  enc_key :: enc
  nKeyField :: nat
  nAllField :: nat
  aSortFlags :: "u8 list"
  aColl :: "collseq option list"

record unpacked =
  pKeyInfo :: keyinfo
  aMem :: "cell list"
  nField :: nat
  default_rc :: int
  errCode :: int
  r1 :: int
  r2 :: int
  eqSeen :: bool

text \<open>The loop over the cells from \<open>pMem\<close> on; the result has \<open>d\<close> and \<open>u\<close> as they are at its end.\<close>

fun unpack_loop ::
    "enc \<Rightarrow> u8 list \<Rightarrow> nat \<Rightarrow> nat \<Rightarrow> nat \<Rightarrow> nat \<Rightarrow> nat \<Rightarrow> nat \<Rightarrow> cell list \<Rightarrow> (cell list \<times> nat \<times> nat) option" where
  "unpack_loop e aKey nKey szHdr nF idx d u pMem =
     (if idx < szHdr \<and> d \<le> nKey then
        (case pMem of [] \<Rightarrow> None
         | m # ms \<Rightarrow> do {
             (serial_type, k) \<leftarrow> getVarint32 (drop idx aKey);
             (c, l) \<leftarrow> sqlite3VdbeSerialGet (drop d aKey) serial_type (m\<lparr>enc_cell := e, zcell := []\<rparr>);
             if nF \<le> u + 1 then Some (c # ms, d + l, u + 1)
             else do {
               (cs, d', u') \<leftarrow> unpack_loop e aKey nKey szHdr nF (idx + k) (d + l) (u + 1) ms;
               Some (c # cs, d', u') } })
      else Some (pMem, d, u))"

declare unpack_loop.simps [simp del]

definition sqlite3VdbeMemSetNull :: "cell \<Rightarrow> cell" where
  "sqlite3VdbeMemSetNull pMem = pMem\<lparr>flags := MEM_Null\<rparr>"

definition sqlite3VdbeRecordUnpack :: "keyinfo \<Rightarrow> nat \<Rightarrow> u8 list \<Rightarrow> unpacked \<Rightarrow> unpacked option" where
  "sqlite3VdbeRecordUnpack ki nKey aKey p = do {
     (szHdr, idx) \<leftarrow> getVarint32 aKey;
     (cs, d, u) \<leftarrow> unpack_loop (enc_key ki) aKey nKey (unat szHdr) (nField p) idx (unat szHdr) 0 (aMem p);
     Some (p\<lparr>default_rc := 0,
             aMem := (if nKey < d \<and> u \<noteq> 0 then cs[u - 1 := sqlite3VdbeMemSetNull (cs ! (u - 1))] else cs),
             nField := u\<rparr>) }"


subsection \<open>Varints of a header\<close>

lemma GetVarint_Put: "sqlite3GetVarint (sqlite3PutVarint v @ rest) = Some (v, length (sqlite3PutVarint v))"
  by (cases "unat v < 2 ^ 56") (simp_all add: PutVarint_64 length_put64 GetVarint_put64 Get_Put_9)

lemma VarintLen_ndig: "sqlite3VarintLen v = ndig v"
  using ndig_pos [of v] by (simp add: sqlite3VarintLen_def varint_len_ndig)

lemma VarintLen_Put:
  assumes "unat v < 2 ^ 56" shows "sqlite3VarintLen v = length (sqlite3PutVarint v)"
  using assms by (simp add: VarintLen_ndig PutVarint_64 length_put64)

lemma unat_up32: "unat (ucast (w :: u32) :: u64) = unat w" "unat (ucast w :: u64) < 2 ^ 32"
proof -
  have "unat w < 2 ^ 32" using unsigned_less [of w, where 'a=nat] by simp
  moreover from this show "unat (ucast w :: u64) = unat w"
    unfolding unsigned_ucast_eq by (simp add: take_bit_nat_eq_self)
  ultimately show "unat (ucast w :: u64) < 2 ^ 32" by simp
qed

lemma putVarint32_Put: "putVarint32 w = sqlite3PutVarint (ucast w)"
proof (cases "w < 0x80")
  case True
  then have "unat w \<le> 127" by (simp add: word_less_nat_alt)
  then have "ucast w \<le> (0x7F :: u64)" by (simp add: word_le_nat_alt unat_up32)
  moreover have "ucast w AND 0x7F = (ucast w :: u64)"
    using and_low_mask [of "0x7F" 7 "ucast w :: u64"] \<open>unat w \<le> 127\<close>
    by (simp add: mask_eq_exp_minus_1 word_unat_eq_iff unat_up32)
  moreover have "ucast (ucast w :: u64) = (ucast w :: u8)"
    unfolding word_eq_bits by (simp add: upt_start) (simp add: bit_simps)
  ultimately show ?thesis using True by (simp add: putVarint32_def sqlite3PutVarint_def)
qed (simp add: putVarint32_def)

lemma getVarint32_put: "getVarint32 (putVarint32 w @ rest) = Some (w, length (putVarint32 w))"
  by (simp add: putVarint32_Put getVarint32_saturates GetVarint_Put saturate_ucast)

lemma length_putVarint32: "length (putVarint32 w) = ndig (ucast w)"
  using unat_up32(2) [of w] by (simp add: putVarint32_Put PutVarint_64 length_put64)

lemma VarintLen_put32: "sqlite3VarintLen (ucast w) = length (putVarint32 w)"
  by (simp add: VarintLen_ndig length_putVarint32)

lemma putVarint32_bounds: "0 < length (putVarint32 w)" "length (putVarint32 w) \<le> 5"
  using ndig_le [of "ucast w" 4] unat_up32(2) [of w] by (simp_all add: length_putVarint32)

lemma putVarint32_one: "unat w < 128 \<Longrightarrow> putVarint32 w = [ucast w]"
  by (simp add: putVarint32_def word_less_nat_alt)

subsection \<open>The size of the header counts itself\<close>

lemma ndig_mono: "unat v \<le> unat w \<Longrightarrow> ndig v \<le> ndig w"
proof -
  assume "unat v \<le> unat w"
  obtain n where n: "ndig w = Suc n" using ndig_pos [of w] by (cases "ndig w") auto
  then have "unat w < 128 ^ Suc n" using ndig_le [of w n] by simp
  then show ?thesis using ndig_le [of v n] n \<open>unat v \<le> unat w\<close> by simp
qed

lemma header_size_fix:
  assumes "n < 2 ^ 28"
  shows "header_size n = n + length (putVarint32 (of_nat (header_size n)))"
    "header_size n \<le> n + 5" "unat (of_nat (header_size n) :: u32) = header_size n"
proof -
  have u: "unat (of_nat k :: u64) = k \<and> unat (of_nat k :: u32) = k \<and> ucast (of_nat k :: u32) = (of_nat k :: u64)"
    if "k < 2 ^ 29" for k
  proof -
    have "unat (of_nat k :: u64) = k" "unat (of_nat k :: u32) = k"
      using that by (simp_all add: unat_of_nat)
    then show ?thesis by (simp add: word_unat_eq_iff unat_up32)
  qed
  define k where "k = ndig (of_nat n)"
  have n64: "unat (of_nat n :: u64) = n" using u [of n] assms by simp
  have k4: "k \<le> 4" using ndig_le [of "of_nat n" 3] assms n64 by (simp add: k_def)
  have "0 < k" by (simp add: k_def)
  then obtain j where j: "k = Suc j" using gr0_implies_Suc by blast
  have nk: "n < 128 ^ k" using ndig_le [of "of_nat n" j] n64 j by (simp add: k_def)
  have up: "n + i < 128 ^ Suc k" if "i \<le> 5" for i
    using nk that j by simp
  have len: "length (putVarint32 (of_nat h)) = ndig (of_nat h)" if "h < 2 ^ 29" for h
    using u [OF that] by (simp add: length_putVarint32)
  have "header_size n = n + ndig (of_nat (header_size n)) \<and> header_size n \<le> n + 5"
  proof (cases "n \<le> 126")
    case True
    then have "ndig (of_nat (n + 1)) = 1"
      using ndig_le [of "of_nat (n + 1)" 0] Suc_leI [OF ndig_pos [of "of_nat (n + 1)"]] u [of "n + 1"] by simp
    then show ?thesis using True by (simp add: header_size_def)
  next
    case False
    define m where "m = n + k"
    have m64: "unat (of_nat m :: u64) = m" using u [of m] assms k4 by (simp add: m_def)
    have "k \<le> ndig (of_nat m)"
      unfolding k_def by (rule ndig_mono) (use n64 m64 in \<open>simp add: m_def\<close>)
    moreover have "ndig (of_nat m) \<le> Suc k"
      using ndig_le [of "of_nat m" k] up [of k] k4 m64 by (simp add: m_def)
    moreover have "ndig (of_nat (Suc m)) = Suc k" if "k < ndig (of_nat m)"
    proof -
      have "128 ^ k \<le> m" using ndig_le [of "of_nat m" j] that m64 j by simp
      moreover have s64: "unat (of_nat (Suc m) :: u64) = Suc m" using u [of "Suc m"] assms k4 by (simp add: m_def)
      ultimately have "\<not> ndig (of_nat (Suc m)) \<le> k" using ndig_le [of "of_nat (Suc m)" j] j by simp
      moreover have "ndig (of_nat (Suc m)) \<le> Suc k"
        using ndig_le [of "of_nat (Suc m)" k] up [of "Suc k"] k4 s64 by (simp add: m_def)
      ultimately show ?thesis by simp
    qed
    ultimately show ?thesis
      using False k4 by (auto simp: header_size_def VarintLen_ndig Let_def k_def m_def)
  qed
  moreover from this have "header_size n < 2 ^ 29" using assms by simp
  ultimately show "header_size n = n + length (putVarint32 (of_nat (header_size n)))"
    "header_size n \<le> n + 5" "unat (of_nat (header_size n) :: u32) = header_size n"
    using u [of "header_size n"] by (simp_all only: len)
qed

subsection \<open>Columns\<close>

text \<open>
  The column a cell becomes: its serial type, its bytes, and the value that is read back. An integer
  that was to be stored as a real and needs eight bytes becomes the nearest double.
\<close>

definition int_to_real :: "nat \<Rightarrow> cell \<Rightarrow> bool" where
  "int_to_real ff c \<longleftrightarrow> has (flags c) MEM_IntReal \<and> fst (int_width ff (u_i c)) = 6"

definition ser_type :: "nat \<Rightarrow> cell \<Rightarrow> u32" where
  "ser_type ff c =
     (if has (flags c) MEM_Null then (if has (flags c) MEM_Zero then 10 else 0)
      else if has (flags c) (MEM_Int OR MEM_IntReal) then
        (if int_to_real ff c then 7 else fst (int_width ff (u_i c)))
      else if has (flags c) MEM_Real then 7
      else of_nat (2 * length (blob_bytes c) + (if has (flags c) MEM_Str then 13 else 12)))"

definition ser_data :: "nat \<Rightarrow> cell \<Rightarrow> u8 list" where
  "ser_data ff c =
     (if has (flags c) MEM_Null then []
      else if has (flags c) (MEM_Int OR MEM_IntReal) then
        (if int_to_real ff c then put_be 8 (dbl_of_int (u_i c)) else put_be (snd (int_width ff (u_i c))) (uval c))
      else if has (flags c) MEM_Real then put_be 8 (uval c)
      else blob_bytes c)"

definition stored_val :: "nat \<Rightarrow> cell \<Rightarrow> sqlval" where
  "stored_val ff c =
     (if \<not> has (flags c) MEM_Null \<and> int_to_real ff c then VReal (dbl_of_int (u_i c)) else cell_val c)"

lemma length_put_be [simp]: "length (put_be n v) = n"
  by (induction n arbitrary: v) auto

lemma cell_sizes:
  assumes "cell_ok c" "has (flags c) (MEM_Str OR MEM_Blob)"
  shows "length (ztext c) = ncell c" "length (blob_bytes c) \<le> SQLITE_MAX_LENGTH"
  using assms by (auto simp: cell_ok_def ztext_def blob_bytes_def tail_len_def)

lemma small_sizes: "12 \<le> k \<Longrightarrow> k < 128 \<Longrightarrow> sqlite3SmallTypeSizes ! k = (k - 12) div 2"
proof -
  have "list_all (\<lambda>k. sqlite3SmallTypeSizes ! k = (k - 12) div 2) [12..<128]" by code_simp
  then have "\<forall>k \<in> set [12..<128]. sqlite3SmallTypeSizes ! k = (k - 12) div 2" by (simp only: list_all_iff)
  moreover assume "12 \<le> k" "k < 128"
  then have "k \<in> set [12..<128]" by (simp only: set_upt atLeastLessThan_iff)
  ultimately show ?thesis by (rule bspec)
qed

lemma text_type:
  assumes "n \<le> SQLITE_MAX_LENGTH" "b < 2"
  defines "t \<equiv> of_nat (2 * n + 12 + b) :: u32"
  shows "unat t = 2 * n + 12 + b" "unat ((t - 12) div 2) = n" "sqlite3VdbeSerialTypeLen t = n"
    "bit t 0 \<longleftrightarrow> b = 1" "12 \<le> t"
proof -
  show u: "unat t = 2 * n + 12 + b"
    unfolding t_def unat_of_nat by (rule mod_less) (use assms(1,2) in \<open>simp add: SQLITE_MAX_LENGTH_def\<close>)
  then show t: "12 \<le> t" by (simp add: word_le_nat_alt)
  then have "unat (t - 12) = 2 * n + b" using u by (simp add: unat_sub)
  then show d: "unat ((t - 12) div 2) = n" using assms(2) by (simp add: unat_div)
  have "bit t 0 \<longleftrightarrow> bit (unat t) 0" by (simp add: bit_unsigned_iff)
  then show "bit t 0 \<longleftrightarrow> b = 1" using assms(2) unfolding u by (auto simp: bit_0 less_2_cases_iff)
  show "sqlite3VdbeSerialTypeLen t = n"
    using u assms(2) d by (auto simp: sqlite3VdbeSerialTypeLen_def small_sizes word_le_nat_alt)
qed

lemma dbl_of_int_not_NaN:
  assumes "\<bar>i\<bar> < 2 ^ 64" shows "\<not> IsNaN (dbl_of_int i)"
proof (cases "i = 0")
  case True
  then show ?thesis by (simp add: dbl_of_int_def IsNaN_def dbl_exp_def)
next
  case False
  define e where "e = bit_length \<bar>i\<bar> - 1"
  have b: "2 ^ e \<le> \<bar>i\<bar>" "\<bar>i\<bar> < 2 ^ Suc e"
    using bit_length_bounds [of "\<bar>i\<bar>"] False by (simp_all add: e_def)
  have "(2::int) ^ e < 2 ^ 64" using b assms by linarith
  then have e: "e < 64" by (rule pow2_less)
  define q where "q = (if e \<le> 52 then \<bar>i\<bar> * 2 ^ (52 - e) else round_even \<bar>i\<bar> (e - 52))"
  have q: "2 ^ 52 \<le> q \<and> q \<le> 2 ^ 53"
  proof (cases "e \<le> 52")
    case True
    then have "e + (52 - e) = 52" "Suc e + (52 - e) = 53" by simp_all
    then have "(2::int) ^ e * 2 ^ (52 - e) = 2 ^ 52" "(2::int) ^ Suc e * 2 ^ (52 - e) = 2 ^ 53"
      by (simp_all only: flip: power_add)
    moreover have "2 ^ e * 2 ^ (52 - e) \<le> \<bar>i\<bar> * 2 ^ (52 - e)" "\<bar>i\<bar> * 2 ^ (52 - e) < 2 ^ Suc e * 2 ^ (52 - e)"
      using b by (simp_all only: mult_right_mono mult_strict_right_mono zero_less_power zero_le_power zero_less_numeral zero_le_numeral)
    ultimately show ?thesis using True by (simp only: q_def if_True) simp
  next
    case c: False
    have P: "(0::int) < 2 ^ (e - 52)" by simp
    have "2 ^ 52 * 2 ^ (e - 52) = (2::int) ^ e" "2 ^ 53 * 2 ^ (e - 52) = (2::int) ^ Suc e"
      using c by (simp_all only: flip: power_add) (simp_all add: Suc_diff_le)
    then have "2 ^ 52 \<le> \<bar>i\<bar> div 2 ^ (e - 52)" "\<not> 2 ^ 53 \<le> \<bar>i\<bar> div 2 ^ (e - 52)"
      using b le_div_iff [OF P] by simp_all
    then show ?thesis using c by (auto simp: q_def round_even_def Let_def)
  qed
  define s :: int where "s = (if i < 0 then 1 else 0)"
  have v: "dbl_of_int i = word_of_int (s * 2 ^ 63 + (int e + 1022) * 2 ^ 52 + q)"
    using False by (simp add: dbl_of_int_def Let_def s_def q_def e_def)
  obtain x f where x: "(int e + 1022) * 2 ^ 52 + q = x * 2 ^ 52 + f" "0 \<le> f" "f < 2 ^ 52" "0 \<le> x" "x < 2047"
  proof (cases "q = 2 ^ 53")
    case True
    with e show ?thesis by (intro that [of "int e + 1024" 0]) simp_all
  next
    case False
    with e q show ?thesis by (intro that [of "int e + 1023" "q - 2 ^ 52"]) simp_all
  qed
  have "s * 2 ^ 63 + (int e + 1022) * 2 ^ 52 + q = s * 2 ^ 63 + x * 2 ^ 52 + f" using x(1) by simp
  then have v': "dbl_of_int i = word_of_int (s * 2 ^ 63 + x * 2 ^ 52 + f)" unfolding v by (simp only: )
  have "dbl_exp (dbl_of_int i) = nat x"
    unfolding v' by (rule dbl_of_parts) (use x in \<open>simp_all add: s_def\<close>)
  moreover have "nat x \<noteq> 2047" using x by linarith
  ultimately show ?thesis by (simp add: IsNaN_def)
qed

lemma and_1_same: "(i::int) AND 1 = i \<longleftrightarrow> i = 0 \<or> i = 1"
  by (auto simp: and_one_eq)

lemma int_width_cases:
  assumes "i64_ok i"
  obtains "int_width ff i = (8, 0)" "i = 0" | "int_width ff i = (9, 0)" "i = 1"
  | "int_width ff i = (1, 1)" "- (2 ^ 7) \<le> i" "i < 2 ^ 7"
  | "int_width ff i = (2, 2)" "- (2 ^ 15) \<le> i" "i < 2 ^ 15"
  | "int_width ff i = (3, 3)" "- (2 ^ 23) \<le> i" "i < 2 ^ 23"
  | "int_width ff i = (4, 4)" "- (2 ^ 31) \<le> i" "i < 2 ^ 31"
  | "int_width ff i = (5, 6)" "- (2 ^ 47) \<le> i" "i < 2 ^ 47"
  | "int_width ff i = (6, 8)"
proof -
  define uu where "uu = (if i < 0 then NOT i else i)"
  have u: "uu < k \<longleftrightarrow> - k \<le> i \<and> i < k" for k by (auto simp: uu_def not_int_def)
  have w: "int_width ff i =
     (if uu < 2 ^ 7 then (if i AND 1 = i \<and> 4 \<le> ff then (8 + word_of_int uu, 0) else (1, 1))
      else if uu < 2 ^ 15 then (2, 2) else if uu < 2 ^ 23 then (3, 3) else if uu < 2 ^ 31 then (4, 4)
      else if uu < 2 ^ 47 then (5, 6) else (6, 8))"
    by (auto simp: int_width_def uu_def [symmetric] Let_def)
  consider "uu < 2 ^ 7" "i = 0" "4 \<le> ff" | "uu < 2 ^ 7" "i = 1" "4 \<le> ff"
    | "uu < 2 ^ 7" "\<not> ((i = 0 \<or> i = 1) \<and> 4 \<le> ff)"
    | "\<not> uu < 2 ^ 7" "uu < 2 ^ 15" | "\<not> uu < 2 ^ 15" "uu < 2 ^ 23" | "\<not> uu < 2 ^ 23" "uu < 2 ^ 31"
    | "\<not> uu < 2 ^ 31" "uu < 2 ^ 47" | "\<not> uu < 2 ^ 47" by blast
  then show thesis
  proof cases
    case 1
    then have "int_width ff i = (8, 0)" unfolding w by (simp add: uu_def)
    with 1 show thesis by (intro that(1))
  next
    case 2
    then have "int_width ff i = (9, 0)" unfolding w by (simp add: uu_def)
    with 2 show thesis by (intro that(2))
  next
    case 3 then show thesis using u [of "2 ^ 7"] by (intro that(3)) (simp_all only: w and_1_same if_True if_False, simp_all)
  next
    case 4 then show thesis using u [of "2 ^ 15"] by (intro that(4)) (simp_all only: w if_True if_False, simp_all)
  next
    case 5 then show thesis using u [of "2 ^ 23"] by (intro that(5)) (simp_all add: w)
  next
    case 6 then show thesis using u [of "2 ^ 31"] by (intro that(6)) (simp_all add: w)
  next
    case 7 then show thesis using u [of "2 ^ 47"] by (intro that(7)) (simp_all add: w)
  next
    case 8 then show thesis by (intro that(8)) (simp add: w)
  qed
qed

definition int_type :: "u32 \<Rightarrow> int \<Rightarrow> u8 list \<Rightarrow> bool" where
  "int_type t i d \<longleftrightarrow> 0 < t \<and> t < 10 \<and> t \<noteq> 7 \<and> i64_ok i \<and> sqlite3VdbeSerialTypeLen t = length d \<and>
     (\<forall>rest m. sqlite3VdbeSerialGet (d @ rest) t m = Some (set_int m i, length d) \<and>
               vdbeRecordDecodeInt t (d @ rest) = Some i)"

lemma sint_i64: "i64_ok i \<Longrightarrow> sint (word_of_int i :: u64) = i"
  by (simp add: signed_of_int i64_defs signed_take_bit_int_eq_self)

lemma word_of_u_i: "word_of_int (u_i c) = uval c"
  by (simp add: u_i_def)

lemma read_be8_parts: "FOUR_BYTE_UINT (put_be 8 v @ r) = Some (ucast (drop_bit 32 v))"
  "FOUR_BYTE_UINT (drop 4 (put_be 8 v) @ r) = Some (ucast v)"
  using get_u4 [of "drop_bit 32 v"] get_u4 [of v r] unfolding put_be_exp by simp_all

lemma int_type_width:
  assumes "i64_ok i" "v = word_of_int i"
  shows "int_type (fst (int_width ff i)) i (put_be (snd (int_width ff i)) v)"
proof -
  have s: "sint v = i" using assms sint_i64 by simp
  have f8: "sint (push_bit 32 (ucast (ucast (drop_bit 32 v) :: u32)) OR ucast (ucast v :: u32) :: u64) = i"
  proof -
    have "push_bit 32 (ucast (ucast (drop_bit 32 v) :: u32)) OR ucast (ucast v :: u32) = v"
      unfolding word_eq_bits by (simp add: upt_start) (simp add: bit_simps)
    then show ?thesis by (simp add: s)
  qed
  have f4: "sint (ucast v :: u32) = i" if "- (2 ^ 31) \<le> i" "i < 2 ^ 31"
  proof -
    have "sint (ucast v :: u32) = signed_take_bit 31 (sint v)"
      by (rule bit_eqI) (auto simp: bit_sint bit_stb bit_simps min_def)
    then show ?thesis using that s by (simp add: stb_same)
  qed
  have f4': "FOUR_BYTE_UINT (put_be 4 v @ r) = Some (ucast v)" for r
    unfolding put_be_exp using get_u4 by simp
  show ?thesis
    using assms(1)
  proof (cases rule: int_width_cases [where ff = ff])
    case 1 then show ?thesis using assms(1) by (simp add: int_type_def sqlite3VdbeSerialTypeLen_def
        sqlite3SmallTypeSizes_def sqlite3VdbeSerialGet_def vdbeRecordDecodeInt_def)
  next
    case 2 then show ?thesis using assms(1) by (simp add: int_type_def sqlite3VdbeSerialTypeLen_def
        sqlite3SmallTypeSizes_def sqlite3VdbeSerialGet_def vdbeRecordDecodeInt_def)
  next
    case 3 then show ?thesis using assms(1) read_be1 [of v]
      by (simp add: int_type_def sqlite3VdbeSerialTypeLen_def
        sqlite3SmallTypeSizes_def sqlite3VdbeSerialGet_def vdbeRecordDecodeInt_def s stb_same word_le_nat_alt del: put_be.simps One_nat_def)
  next
    case 4 then show ?thesis using assms(1) read_be2 [of v]
      by (simp add: int_type_def sqlite3VdbeSerialTypeLen_def
        sqlite3SmallTypeSizes_def sqlite3VdbeSerialGet_def vdbeRecordDecodeInt_def s stb_same)
  next
    case 5 then show ?thesis using assms(1) read_be3 [of v]
      by (simp add: int_type_def sqlite3VdbeSerialTypeLen_def
        sqlite3SmallTypeSizes_def sqlite3VdbeSerialGet_def vdbeRecordDecodeInt_def s stb_same)
  next
    case 6 then show ?thesis using assms(1) read_be4 [of v] f4
      by (simp add: int_type_def sqlite3VdbeSerialTypeLen_def
        sqlite3SmallTypeSizes_def sqlite3VdbeSerialGet_def vdbeRecordDecodeInt_def s stb_same f4')
  next
    case 7 then show ?thesis using assms(1) read_be6 [of v]
      by (simp add: int_type_def sqlite3VdbeSerialTypeLen_def
        sqlite3SmallTypeSizes_def sqlite3VdbeSerialGet_def vdbeRecordDecodeInt_def s stb_same)
  next
    case 8 then show ?thesis using assms f8
      by (simp add: int_type_def sqlite3VdbeSerialTypeLen_def
        sqlite3SmallTypeSizes_def sqlite3VdbeSerialGet_def vdbeRecordDecodeInt_def read_be8 read_be8_parts set_int_def)
  qed
qed

text \<open>What a column looks like, by the value it stores.\<close>

definition column :: "u32 \<Rightarrow> u8 list \<Rightarrow> sqlval \<Rightarrow> bool" where
  "column t d v \<longleftrightarrow> sqlite3VdbeSerialTypeLen t = length d \<and>
     (case v of VNull \<Rightarrow> (t = 0 \<or> t = 10) \<and> d = []
      | VInt i \<Rightarrow> int_type t i d
      | VReal r \<Rightarrow> t = 7 \<and> d = put_be 8 r \<and> \<not> IsNaN r
      | VText s \<Rightarrow> d = s \<and> unat t = 2 * length s + 13 \<and> 12 \<le> t \<and> bit t 0 \<and>
                   unat ((t - 12) div 2) = length s \<and> length s \<le> SQLITE_MAX_LENGTH
      | VBlob s \<Rightarrow> d = s \<and> unat t = 2 * length s + 12 \<and> 12 \<le> t \<and> \<not> bit t 0 \<and>
                   unat ((t - 12) div 2) = length s \<and> length s \<le> SQLITE_MAX_LENGTH)"

lemma fst_int_width_6: "i64_ok i \<Longrightarrow> fst (int_width ff i) = 6 \<Longrightarrow> \<bar>i\<bar> < 2 ^ 64"
  by (auto simp: i64_defs)

lemma type_len_7: "sqlite3VdbeSerialTypeLen 7 = 8" "sqlite3VdbeSerialTypeLen 0 = 0" "sqlite3VdbeSerialTypeLen 10 = 0"
  by (simp_all add: sqlite3VdbeSerialTypeLen_def sqlite3SmallTypeSizes_def word_le_nat_alt)

lemma ser_column:
  assumes "cell_ok c"
  shows "column (ser_type ff c) (ser_data ff c) (stored_val ff c)"
proof (cases rule: cell_val_cases [OF assms])
  case 1
  then show ?thesis
    by (simp add: column_def ser_type_def ser_data_def stored_val_def has_simps type_len_7)
next
  case 2
  show ?thesis
  proof (cases "int_to_real ff c")
    case True
    have "\<bar>u_i c\<bar> < 2 ^ 64" using u_i_ok [of c] by (auto simp: i64_defs)
    then show ?thesis using 2 True dbl_of_int_not_NaN [of "u_i c"]
      by (auto simp: column_def ser_type_def ser_data_def stored_val_def has_simps type_len_7)
  next
    case False
    have "int_type (fst (int_width ff (u_i c))) (u_i c) (put_be (snd (int_width ff (u_i c))) (uval c))"
      by (rule int_type_width) (simp_all add: u_i_ok word_of_u_i)
    then show ?thesis using 2 False
      by (auto simp: column_def ser_type_def ser_data_def stored_val_def has_simps int_type_def)
  qed
next
  case 3
  then show ?thesis
    by (auto simp: column_def ser_type_def ser_data_def stored_val_def has_simps type_len_7 int_to_real_def)
next
  case 4
  have l: "length (blob_bytes c) \<le> SQLITE_MAX_LENGTH" "blob_bytes c = ztext c"
    using 4 cell_sizes(2) [OF assms] by (simp_all add: has_simps plain_bytes)
  note t = text_type [OF l(1), of 1]
  from 4 l t show ?thesis
    by (simp add: column_def ser_type_def ser_data_def stored_val_def has_simps int_to_real_def ac_simps)
next
  case 5
  have l: "length (blob_bytes c) \<le> SQLITE_MAX_LENGTH"
    using 5 cell_sizes(2) [OF assms] by (simp add: has_simps)
  note t = text_type [OF l(1), of 0]
  from 5 l t show ?thesis
    by (simp add: column_def ser_type_def ser_data_def stored_val_def has_simps int_to_real_def)
qed

text \<open>Reading a column gives a cell of its value.\<close>

lemma flag_bits:
  "bit MEM_Null 0" "\<not> bit MEM_Null 1" "\<not> bit MEM_Null 2" "\<not> bit MEM_Null 3" "\<not> bit MEM_Null 4"
  "\<not> bit MEM_Null 5" "\<not> bit MEM_Null 14"
  "\<not> bit MEM_Zero 0" "\<not> bit MEM_Zero 1" "\<not> bit MEM_Zero 2" "\<not> bit MEM_Zero 3" "\<not> bit MEM_Zero 4"
  "\<not> bit MEM_Zero 5" "bit MEM_Zero 14"
  "\<not> bit MEM_Int 0" "\<not> bit MEM_Int 1" "bit MEM_Int 2" "\<not> bit MEM_Int 3" "\<not> bit MEM_Int 4"
  "\<not> bit MEM_Int 5" "\<not> bit MEM_Int 14"
  "\<not> bit MEM_Real 0" "\<not> bit MEM_Real 1" "\<not> bit MEM_Real 2" "bit MEM_Real 3" "\<not> bit MEM_Real 4"
  "\<not> bit MEM_Real 5" "\<not> bit MEM_Real 14"
  "\<not> bit MEM_Str 0" "bit MEM_Str 1" "\<not> bit MEM_Str 2" "\<not> bit MEM_Str 3" "\<not> bit MEM_Str 4"
  "\<not> bit MEM_Str 5" "\<not> bit MEM_Str 14"
  "\<not> bit MEM_Blob 0" "\<not> bit MEM_Blob 1" "\<not> bit MEM_Blob 2" "\<not> bit MEM_Blob 3" "bit MEM_Blob 4"
  "\<not> bit MEM_Blob 5" "\<not> bit MEM_Blob 14"
  "\<not> bit MEM_IntReal 0" "\<not> bit MEM_IntReal 1" "\<not> bit MEM_IntReal 2" "\<not> bit MEM_IntReal 3"
  "\<not> bit MEM_IntReal 4" "bit MEM_IntReal 5" "\<not> bit MEM_IntReal 14"
  "\<not> bit MEM_Ephem 0" "\<not> bit MEM_Ephem 1" "\<not> bit MEM_Ephem 2" "\<not> bit MEM_Ephem 3" "\<not> bit MEM_Ephem 4"
  "\<not> bit MEM_Ephem 5" "\<not> bit MEM_Ephem 14"
  by (simp_all add: MEM_Null_def MEM_Zero_def MEM_Int_def MEM_Real_def MEM_Str_def MEM_Blob_def MEM_IntReal_def MEM_Ephem_def)

lemma big_type: "12 \<le> (t::u32) \<Longrightarrow> t \<noteq> 0 \<and> t \<noteq> 1 \<and> t \<noteq> 2 \<and> t \<noteq> 3 \<and> t \<noteq> 4 \<and> t \<noteq> 5 \<and>
    t \<noteq> 6 \<and> t \<noteq> 7 \<and> t \<noteq> 8 \<and> t \<noteq> 9 \<and> t \<noteq> 10 \<and> t \<noteq> 11"
  by (auto simp: word_le_nat_alt)

lemma SerialGet_text:
  assumes "12 \<le> t" "unat ((t - 12) div 2) = length d"
  shows "sqlite3VdbeSerialGet (d @ rest) t m =
    Some (m\<lparr>zcell := d @ rest, ncell := length d,
            flags := (if bit t 0 then MEM_Str else MEM_Blob) OR MEM_Ephem\<rparr>, length d)"
  using big_type [OF assms(1)] assms(2) by (simp add: sqlite3VdbeSerialGet_def)

lemmas ok_simps = cmp_ok_def cell_ok_def one_type_bits has_simps flag_bits bit_or_iff

lemma null_cell: "cell_val (m\<lparr>flags := MEM_Null\<rparr>) = VNull" "cmp_ok (m\<lparr>flags := MEM_Null\<rparr>)"
  by (simp_all add: ok_simps cell_val_def del: One_nat_def)

lemma nochng_cell: "cell_val (m\<lparr>flags := MEM_Null OR MEM_Zero, ncell := 0, uval := u\<rparr>) = VNull"
  "cmp_ok (m\<lparr>flags := MEM_Null OR MEM_Zero, ncell := 0, uval := u\<rparr>)"
  by (simp_all add: ok_simps cell_val_def del: One_nat_def)

lemma int_cell_ok: "i64_ok i \<Longrightarrow> cell_val (set_int m i) = VInt i" "cmp_ok (set_int m i)"
  by (simp_all add: ok_simps cell_val_def set_int_def u_i_def sint_i64 del: One_nat_def)

lemma real_cell_ok: "cell_val (m\<lparr>uval := r, flags := MEM_Real\<rparr>) = VReal r"
  "\<not> IsNaN r \<Longrightarrow> cmp_ok (m\<lparr>uval := r, flags := MEM_Real\<rparr>)"
  by (simp_all add: ok_simps cell_val_def del: One_nat_def)

lemma text_cell_ok:
  "cell_val (m\<lparr>zcell := d @ rest, ncell := length d, flags := MEM_Str OR MEM_Ephem\<rparr>) = VText d"
  "length d \<le> SQLITE_MAX_LENGTH \<Longrightarrow> cmp_ok (m\<lparr>zcell := d @ rest, ncell := length d, flags := MEM_Str OR MEM_Ephem\<rparr>)"
  by (simp_all add: ok_simps cell_val_def ztext_def tail_len_def del: One_nat_def)

lemma blob_cell_ok:
  "cell_val (m\<lparr>zcell := d @ rest, ncell := length d, flags := MEM_Blob OR MEM_Ephem\<rparr>) = VBlob d"
  "length d \<le> SQLITE_MAX_LENGTH \<Longrightarrow> cmp_ok (m\<lparr>zcell := d @ rest, ncell := length d, flags := MEM_Blob OR MEM_Ephem\<rparr>)"
  by (simp_all add: ok_simps cell_val_def ztext_def tail_len_def del: One_nat_def)

lemma SerialGet_column:
  assumes "column t d v"
  obtains c where "sqlite3VdbeSerialGet (d @ rest) t m = Some (c, length d)" "cell_val c = v" "cmp_ok c"
    "enc_cell c = enc_cell m"
proof -
  have "\<exists>c. sqlite3VdbeSerialGet (d @ rest) t m = Some (c, length d) \<and> cell_val c = v \<and> cmp_ok c \<and>
      enc_cell c = enc_cell m"
  proof (cases v)
    case VNull
    with assms have "d = []" and t: "t = 0 \<or> t = 10" by (simp_all add: column_def)
    from t show ?thesis
      by (rule disjE) (simp_all add: sqlite3VdbeSerialGet_def null_cell nochng_cell VNull \<open>d = []\<close>)
  next
    case (VInt i)
    then have "sqlite3VdbeSerialGet (d @ rest) t m = Some (set_int m i, length d)" "i64_ok i"
      using assms by (simp_all add: column_def int_type_def)
    then show ?thesis using VInt int_cell_ok(1) [of i m] int_cell_ok(2) [of m i] by (simp add: set_int_def)
  next
    case (VReal r)
    with assms show ?thesis
      by (simp add: column_def sqlite3VdbeSerialGet_def read_be8 real_cell_ok)
  next
    case (VText x)
    with assms show ?thesis by (simp add: column_def SerialGet_text text_cell_ok)
  next
    case (VBlob x)
    with assms show ?thesis by (simp add: column_def SerialGet_text blob_cell_ok)
  qed
  then show thesis using that by blast
qed

subsection \<open>Records\<close>

type_synonym col = "u32 \<times> u8 list"

definition hdr_bytes :: "col list \<Rightarrow> u8 list" where
  "hdr_bytes cols = concat (map (putVarint32 \<circ> fst) cols)"

definition data_bytes :: "col list \<Rightarrow> u8 list" where
  "data_bytes cols = concat (map snd cols)"

definition record_of :: "col list \<Rightarrow> u8 list" where
  "record_of cols =
     putVarint32 (of_nat (header_size (length (hdr_bytes cols)))) @ hdr_bytes cols @ data_bytes cols"

definition to_col :: "nat \<Rightarrow> cell \<Rightarrow> col" where
  "to_col ff c = (ser_type ff c, ser_data ff c)"

lemma bytes_simps [simp]:
  "hdr_bytes [] = []" "hdr_bytes (c # cs) = putVarint32 (fst c) @ hdr_bytes cs"
  "data_bytes [] = []" "data_bytes (c # cs) = snd c @ data_bytes cs"
  by (simp_all add: hdr_bytes_def data_bytes_def)

lemma length_hdr: "length cols \<le> length (hdr_bytes cols)" "length (hdr_bytes cols) \<le> 5 * length cols"
proof (induction cols)
  case (Cons c cols)
  { case 1 then show ?case using putVarint32_bounds(1) [of "fst c"] Cons.IH(1)
      by (simp only: bytes_simps length_append list.size; linarith)
  next case 2 then show ?case using putVarint32_bounds [of "fst c"] Cons.IH by simp }
qed simp_all

subsection \<open>OP_MakeRecord writes the record of its columns\<close>

lemma put_at_middle: "put_at (a @ x @ b) (length a) y = Some (a @ y @ b)" if "length x = length y"
  using that by (simp add: put_at_def)

lemma write_columns_ok:
  assumes "length x = length (concat (map (\<lambda>c. putVarint32 (uTemp c)) cs))"
    "length y = length (concat (map (\<lambda>c. sqlite3VdbeSerialPut c (uTemp c)) cs))"
  shows "write_columns cs (a @ x @ g @ y @ b) (length a) (length (a @ x @ g)) =
    Some (a @ concat (map (\<lambda>c. putVarint32 (uTemp c)) cs) @ g @
          concat (map (\<lambda>c. sqlite3VdbeSerialPut c (uTemp c)) cs) @ b)"
  using assms
proof (induction cs arbitrary: a x g y)
  case Nil
  then show ?case by simp
next
  case (Cons c cs)
  define h where "h = putVarint32 (uTemp c)"
  define d where "d = sqlite3VdbeSerialPut c (uTemp c)"
  obtain x1 x2 where x: "x = x1 @ x2" "length x1 = length h"
    using Cons.prems(1) by (metis (mono_tags, lifting) append_take_drop_id h_def length_append
        length_take list.simps(9) concat.simps(2) min.absorb2 le_add1)
  obtain y1 y2 where y: "y = y1 @ y2" "length y1 = length d"
    using Cons.prems(2) by (metis (mono_tags, lifting) append_take_drop_id d_def length_append
        length_take list.simps(9) concat.simps(2) min.absorb2 le_add1)
  have 1: "put_at (a @ x @ g @ y @ b) (length a) h = Some (a @ h @ (x2 @ g @ y @ b))"
    using put_at_middle [of x1 h a "x2 @ g @ y @ b"] x by simp
  have 2: "put_at (a @ h @ (x2 @ g @ y @ b)) (length (a @ x @ g)) d = Some (a @ h @ x2 @ g @ d @ y2 @ b)"
    using put_at_middle [of y1 d "a @ h @ x2 @ g" "y2 @ b"] x y by simp
  have 3: "write_columns cs ((a @ h) @ x2 @ (g @ d) @ y2 @ b) (length (a @ h)) (length ((a @ h) @ x2 @ g @ d)) =
    Some ((a @ h) @ concat (map (\<lambda>c. putVarint32 (uTemp c)) cs) @ (g @ d) @
          concat (map (\<lambda>c. sqlite3VdbeSerialPut c (uTemp c)) cs) @ b)"
    by (rule Cons.IH) (use Cons.prems x y in \<open>simp_all add: h_def d_def\<close>)
  have l: "length (a @ x @ g) + length d = length ((a @ h) @ x2 @ g @ d)" using x by simp
  show ?case
    using 1 2 3 l by (simp add: Let_def add.assoc flip: h_def d_def)
qed

lemma Put_int: "i64_ok i \<Longrightarrow> fst (int_width ff i) = t \<Longrightarrow>
    sqlite3VdbeSerialPut c t = put_be (snd (int_width ff i)) (uval c)"
  by (cases rule: int_width_cases [where ff = ff], assumption)
     (simp_all add: sqlite3VdbeSerialPut_def sqlite3SmallTypeSizes_def word_le_nat_alt word_less_nat_alt)

lemma Put_small: "sqlite3VdbeSerialPut c 0 = []" "sqlite3VdbeSerialPut c 10 = []"
  "sqlite3VdbeSerialPut c 7 = put_be 8 (uval c)"
  by (simp_all add: sqlite3VdbeSerialPut_def sqlite3SmallTypeSizes_def word_le_nat_alt word_less_nat_alt)

lemma Put_text: "12 \<le> t \<Longrightarrow> sqlite3VdbeSerialPut c t = ztext c"
  by (auto simp: sqlite3VdbeSerialPut_def word_le_nat_alt)

lemma int_width_one_byte: "i64_ok i \<Longrightarrow> length (putVarint32 (fst (int_width ff i))) = 1"
  by (cases rule: int_width_cases [where ff = ff], assumption) (simp_all add: putVarint32_one)

lemma int_width_snd: "i64_ok i \<Longrightarrow> fst (int_width ff i) = 6 \<Longrightarrow> snd (int_width ff i) = 8"
  by (cases rule: int_width_cases [where ff = ff], assumption) simp_all

text \<open>
  The invariant of the first loop, for the columns from some point on: \<open>nHdr\<close> and \<open>nData\<close> count the
  bytes that will be written, and these and \<open>nZero\<close> zeros are the data.
\<close>

definition put_all :: "cell list \<Rightarrow> u8 list" where
  "put_all cs = concat (map (\<lambda>c. sqlite3VdbeSerialPut c (uTemp c)) cs)"

definition sized :: "nat \<Rightarrow> cell list \<Rightarrow> cell list \<times> nat \<times> nat \<times> nat \<Rightarrow> bool" where
  "sized ff cs r \<longleftrightarrow>
     (case r of (cs', nData, nHdr, nZero) \<Rightarrow>
        map uTemp cs' = map (ser_type ff) cs \<and>
        nHdr = length (hdr_bytes (map (to_col ff) cs)) \<and>
        nData = length (put_all cs') \<and>
        put_all cs' @ replicate nZero 0 = data_bytes (map (to_col ff) cs))"

lemma ser_text:
  assumes "cell_ok c" "\<not> bit (flags c) 0" "\<not> bit (flags c) 2" "\<not> bit (flags c) 3" "\<not> bit (flags c) 5"
  shows "ser_type ff c = of_nat (2 * length (blob_bytes c) + (if bit (flags c) 1 then 13 else 12))"
    "12 \<le> ser_type ff c" "ser_data ff c = blob_bytes c"
proof -
  show t: "ser_type ff c = of_nat (2 * length (blob_bytes c) + (if bit (flags c) 1 then 13 else 12))"
    "ser_data ff c = blob_bytes c"
    using assms by (simp_all add: ser_type_def ser_data_def has_simps)
  show "12 \<le> ser_type ff c"
    using ser_column [OF assms(1), of ff] assms
    by (cases rule: cell_val_cases [OF assms(1)])
       (simp_all add: column_def stored_val_def int_to_real_def has_simps)
qed

lemma size_text:
  assumes ok: "cell_ok c" "\<not> bit (flags c) 0" "\<not> bit (flags c) 2" "\<not> bit (flags c) 3" "\<not> bit (flags c) 5"
    and r: "sized ff cs (cs', nData, nHdr, nZero)"
    and s: "size_field mok ff c (nData, nHdr, nZero) = Some (c', r')"
  shows "sized ff (c # cs) (c' # cs', r')"
proof -
  note t = ser_text [OF ok, of ff]
  have l: "length (ztext c) = ncell c" "ncell c \<le> length (zcell c)"
    using ok by (auto simp: cell_ok_def has_simps ztext_def)
  define ty where "ty = ser_type ff c"
  have tz: "of_nat (ncell c * 2) + 12 + (if has (flags c) MEM_Str then 1 else 0) + of_nat (u_nZero c * 2) = ty"
    if "bit (flags c) 14"
    using that l by (auto simp: ty_def t blob_bytes_def has_bits algebra_simps)
  have tn: "of_nat (ncell c * 2) + 12 + (if has (flags c) MEM_Str then 1 else 0) = ty"
    if "\<not> bit (flags c) 14"
    using that l by (auto simp: ty_def t blob_bytes_def has_bits algebra_simps)
  have h: "sqlite3VarintLen (ucast ty) = length (putVarint32 ty)" by (rule VarintLen_put32)
  have P: "put_all (c # cs) = sqlite3VdbeSerialPut c (uTemp c) @ put_all cs" for c cs
    by (simp add: put_all_def)
  consider "\<not> bit (flags c) 14" | "bit (flags c) 14" "nData = 0" | "bit (flags c) 14" "nData \<noteq> 0" by blast
  then show ?thesis
  proof cases
    case 1
    then have "c' = c\<lparr>uTemp := ty\<rparr>" "r' = (nData + ncell c, nHdr + length (putVarint32 ty), nZero)"
      using s ok tn by (simp_all add: size_field_def has_simps h Let_def)
    then show ?thesis
      using r t 1 l by (simp add: sized_def P Put_text to_col_def ty_def blob_bytes_def has_bits ztext_def)
  next
    case 2
    then have c': "c' = c\<lparr>uTemp := ty\<rparr>" "r' = (ncell c, nHdr + length (putVarint32 ty), nZero + u_nZero c)"
      using s ok tz by (simp_all add: size_field_def has_simps h Let_def)
    have "put_all cs' = []" using r 2 by (simp add: sized_def)
    moreover have "replicate (nZero + u_nZero c) 0 = replicate (u_nZero c) (0 :: u8) @ replicate nZero 0"
      by (simp add: add.commute flip: replicate_add)
    ultimately show ?thesis
      using r t 2 l c' by (simp add: sized_def P Put_text to_col_def ty_def blob_bytes_def has_bits ztext_def)
  next
    case 3
    then obtain p where p: "sqlite3VdbeMemExpandBlob mok c = Some p"
      using s ok by (auto simp: size_field_def has_simps Let_def split: option.splits)
    then have c': "c' = p\<lparr>uTemp := ty\<rparr>" "r' = (nData + (ncell c + u_nZero c), nHdr + length (putVarint32 ty), nZero)"
      using s ok tz 3 by (simp_all add: size_field_def has_simps h Let_def)
    have "ztext (p\<lparr>uTemp := ty\<rparr>) = blob_bytes c"
      using p l 3 by (auto simp: sqlite3VdbeMemExpandBlob_def Let_def ztext_def blob_bytes_def has_bits split: if_splits)
    with c' show ?thesis
      using r t 3 l by (simp add: sized_def P Put_text to_col_def ty_def blob_bytes_def has_bits)
  qed
qed

lemma size_int:
  assumes ok: "cell_ok c" "\<not> bit (flags c) 0" "bit (flags c) 2 \<or> bit (flags c) 5"
    and r: "sized ff cs (cs', nData, nHdr, nZero)"
    and s: "size_field mok ff c (nData, nHdr, nZero) = Some (c', r')"
  shows "sized ff (c # cs) (c' # cs', r')"
proof -
  note i = u_i_ok [of c]
  have P: "put_all (c # cs) = sqlite3VdbeSerialPut c (uTemp c) @ put_all cs" for c cs
    by (simp add: put_all_def)
  obtain t w where tw: "int_width ff (u_i c) = (t, w)" by (cases "int_width ff (u_i c)")
  have one: "length (putVarint32 t) = 1" using int_width_one_byte [OF i, of ff] tw by simp
  show ?thesis
  proof (cases "int_to_real ff c")
    case True
    then have "c' = c\<lparr>uval := dbl_of_int (u_i c), flags := (flags c AND NOT MEM_IntReal) OR MEM_Real, uTemp := 7\<rparr>"
      "r' = (nData + 8, nHdr + 1, nZero)"
      using s ok tw by (auto simp: size_field_def has_simps int_to_real_def)
    then show ?thesis using r ok True
      by (simp add: sized_def P Put_small to_col_def ser_type_def ser_data_def has_simps putVarint32_one)
  next
    case False
    then have "c' = c\<lparr>uTemp := t\<rparr>" "r' = (nData + w, nHdr + 1, nZero)"
      using s ok tw by (auto simp: size_field_def has_simps int_to_real_def split: if_splits)
    then show ?thesis using r ok False tw one Put_int [OF i, of ff t "c\<lparr>uTemp := t\<rparr>"]
      by (simp add: sized_def P to_col_def ser_type_def ser_data_def has_simps)
  qed
qed

lemma size_rest:
  assumes ok: "cell_ok c" "bit (flags c) 0 \<or> bit (flags c) 3"
    and r: "sized ff cs (cs', nData, nHdr, nZero)"
    and s: "size_field mok ff c (nData, nHdr, nZero) = Some (c', r')"
  shows "sized ff (c # cs) (c' # cs', r')"
proof -
  have P: "put_all (c # cs) = sqlite3VdbeSerialPut c (uTemp c) @ put_all cs" for c cs
    by (simp add: put_all_def)
  show ?thesis using r s ok(2)
    by (cases rule: cell_val_cases [OF ok(1)])
       (auto simp: size_field_def sized_def P Put_small to_col_def ser_type_def ser_data_def has_simps putVarint32_one)
qed

lemma size_loop_sized:
  "list_all cell_ok cs \<Longrightarrow> size_loop mok ff cs = Some r \<Longrightarrow> sized ff cs r"
proof (induction cs arbitrary: r)
  case Nil
  then show ?case by (auto simp: sized_def put_all_def)
next
  case (Cons c cs)
  then obtain cs' st c' st' where l: "size_loop mok ff cs = Some (cs', st)"
    "size_field mok ff c st = Some (c', st')" "r = (c' # cs', st')"
    by (auto split: option.splits)
  obtain nData nHdr nZero where st: "st = (nData, nHdr, nZero)" by (cases st)
  have ok: "cell_ok c" and IH: "sized ff cs (cs', nData, nHdr, nZero)"
    using Cons l(1) st by auto
  note f = l(2) [unfolded st]
  show ?case unfolding l(3)
    using size_text [OF ok _ _ _ _ IH f] size_int [OF ok _ _ IH f] size_rest [OF ok _ IH f] by blast
qed

lemma size_loop_ok: "(\<forall>n. mok n) \<Longrightarrow> size_loop mok ff cs \<noteq> None"
  by (induction cs)
     (auto simp: size_field_def sqlite3VdbeMemExpandBlob_def Let_def split: option.splits prod.splits)

lemma split_at: "k \<le> length z \<Longrightarrow> \<exists>x y. z = x @ y \<and> length x = k"
  by (metis append_take_drop_id length_take min.absorb2)

lemma low_tail: "unat (ucast ((u AND push_bit 32 0xFFFFFFFF) OR of_nat n :: u64) :: u32) = n" if "n < 2 ^ 31"
proof -
  have "ucast ((u AND push_bit 32 0xFFFFFFFF) OR of_nat n :: u64) = (ucast (of_nat n :: u64) :: u32)"
    unfolding word_eq_bits by (simp add: upt_start) (simp add: bit_simps)
  moreover have "unat (of_nat n :: u64) = n" using that by (simp add: unat_of_nat)
  then have "unat (ucast (of_nat n :: u64) :: u32) = n"
    unfolding unsigned_ucast_eq using that by (simp add: take_bit_nat_eq_self)
  ultimately show ?thesis by simp
qed

definition made_ok :: "(nat \<Rightarrow> bool) \<Rightarrow> (nat \<Rightarrow> u8 list option) \<Rightarrow> nat \<Rightarrow> u8 list \<Rightarrow> made \<Rightarrow> bool" where
  "made_ok mok fresh limit rec r \<longleftrightarrow>
     (case r of Made out \<Rightarrow> blob_bytes out = rec
      | NoMem \<Rightarrow> \<exists>n. \<not> mok n \<or> fresh n = None
      | TooBig \<Rightarrow> limit < length rec
      | OutOfBounds \<Rightarrow> False)"

lemma MakeRecord_ok:
  assumes ok: "list_all cell_ok regs" "length regs \<le> 32767"
    and fresh: "\<forall>n z. fresh n = Some z \<longrightarrow> n \<le> length z"
    and lim: "limit \<le> SQLITE_MAX_LENGTH" "length zMalloc < 2 ^ 31"
  shows "made_ok mok fresh limit (record_of (map (to_col ff) regs)) (OP_MakeRecord mok fresh ff limit zMalloc pOut regs)"
proof (cases "size_loop mok ff regs")
  case None
  then have "\<exists>n. \<not> mok n" using size_loop_ok by blast
  then show ?thesis using None by (auto simp: OP_MakeRecord_def made_ok_def)
next
  case (Some r)
  obtain cs nData nHdr nZero where r: "r = (cs, nData, nHdr, nZero)" by (cases r)
  define cols where "cols = map (to_col ff) regs"
  have sized: "map uTemp cs = map (ser_type ff) regs" "nHdr = length (hdr_bytes cols)"
    "nData = length (put_all cs)" "put_all cs @ replicate nZero 0 = data_bytes cols"
    using size_loop_sized [OF ok(1) Some] unfolding r sized_def cols_def by simp_all
  define h where "h = putVarint32 (of_nat (header_size nHdr))"
  have "nHdr < 2 ^ 28" using length_hdr(2) [of cols] ok(2) by (simp add: sized(2) cols_def)
  then have hs: "header_size nHdr = nHdr + length h" unfolding h_def by (rule header_size_fix)
  have hb: "concat (map (\<lambda>c. putVarint32 (uTemp c)) cs) = hdr_bytes cols"
  proof -
    have "concat (map putVarint32 (map uTemp cs)) = hdr_bytes cols"
      unfolding sized(1) by (simp add: hdr_bytes_def cols_def to_col_def comp_def)
    then show ?thesis by (simp add: comp_def)
  qed
  have rec: "record_of cols = h @ hdr_bytes cols @ put_all cs @ replicate nZero 0"
    by (simp add: record_of_def h_def sized)
  have dl: "length (data_bytes cols) = nData + nZero"
    using arg_cong [OF sized(4), of length] sized(3) by simp
  have len: "length (record_of cols) = header_size nHdr + nData + nZero"
  proof -
    have "record_of cols = h @ hdr_bytes cols @ data_bytes cols"
      by (simp add: record_of_def h_def sized(2))
    then show ?thesis using dl hs sized(2) by simp
  qed
  define nByte where "nByte = header_size nHdr + nData"
  define buf where "buf = (if nByte \<le> length zMalloc then Some zMalloc else fresh nByte)"
  define out where "out = (\<lambda>z. pOut\<lparr>zcell := z, ncell := nByte,
      flags := (if nZero \<noteq> 0 then MEM_Blob OR MEM_Zero else MEM_Blob),
      uval := (if nZero \<noteq> 0 then (uval pOut AND push_bit 32 0xFFFFFFFF) OR of_nat nZero else uval pOut)\<rparr>)"
  have E: "OP_MakeRecord mok fresh ff limit zMalloc pOut regs =
      (if length zMalloc < nByte + nZero \<and> limit < nByte + nZero then TooBig
       else case buf of None \<Rightarrow> NoMem
       | Some z \<Rightarrow> (case put_at z 0 h of None \<Rightarrow> OutOfBounds
         | Some z \<Rightarrow> (case write_columns cs z (length h) (header_size nHdr) of None \<Rightarrow> OutOfBounds
           | Some z \<Rightarrow> Made (out z))))"
    by (simp only: OP_MakeRecord_def Some r Let_def option.case prod.case nByte_def buf_def h_def out_def)
  show ?thesis
  proof (cases "length zMalloc < nByte + nZero \<and> limit < nByte + nZero")
    case True
    then show ?thesis
      using len unfolding E by (simp add: made_ok_def nByte_def flip: cols_def)
  next
    case False
    show ?thesis
    proof (cases buf)
      case None
      then have "\<exists>n. fresh n = None" by (auto simp: buf_def split: if_splits)
      then show ?thesis using None False unfolding E made_ok_def by auto
    next
      case b: (Some z)
      then have "nByte \<le> length z" using fresh by (auto simp: buf_def split: if_splits)
      then obtain x y where z: "z = x @ y" "length x = nByte" using split_at by blast
      have "length h \<le> nByte" by (simp add: nByte_def hs)
      then obtain x0 x1 where x: "x = x0 @ x1" "length x0 = length h" using split_at z(2) by metis
      then have "length x1 = nHdr + nData" using z(2) by (simp add: nByte_def hs)
      then obtain x2 x3 where x1: "x1 = x2 @ x3" "length x2 = nHdr" "length x3 = nData"
        using split_at [of nHdr x1] by auto
      have p: "put_at z 0 h = Some (h @ x2 @ x3 @ y)"
        using put_at_middle [of x0 h "[]" "x2 @ x3 @ y"] x x1 z by simp
      have "write_columns cs (h @ x2 @ [] @ x3 @ y) (length h) (length (h @ x2 @ [])) =
          Some (h @ concat (map (\<lambda>c. putVarint32 (uTemp c)) cs) @ [] @ put_all cs @ y)"
        unfolding put_all_def by (rule write_columns_ok) (simp_all add: hb x1 sized put_all_def)
      then have w: "write_columns cs (h @ x2 @ x3 @ y) (length h) (header_size nHdr) =
          Some (h @ hdr_bytes cols @ put_all cs @ y)"
        using hs x1 by (simp add: hb add.commute)
      have nz: "nZero < 2 ^ 31" using False lim by (auto simp: SQLITE_MAX_LENGTH_def)
      have "OP_MakeRecord mok fresh ff limit zMalloc pOut regs = Made (out (h @ hdr_bytes cols @ put_all cs @ y))"
        unfolding E using False b p w by simp
      moreover have "blob_bytes (out (h @ hdr_bytes cols @ put_all cs @ y)) = record_of cols"
      proof -
        have "length (h @ hdr_bytes cols @ put_all cs) = nByte"
          using hs sized(2,3) by (simp add: nByte_def)
        then have "take nByte ((h @ hdr_bytes cols @ put_all cs) @ y) = h @ hdr_bytes cols @ put_all cs" by simp
        then have "ztext (out (h @ hdr_bytes cols @ put_all cs @ y)) = h @ hdr_bytes cols @ put_all cs"
          by (simp add: ztext_def out_def)
        then show ?thesis using low_tail [OF nz, of "uval pOut"]
          by (simp add: blob_bytes_def out_def has_simps flag_bits bit_or_iff u_nZero_def rec)
      qed
      ultimately show ?thesis by (simp add: made_ok_def flip: cols_def)
    qed
  qed
qed

subsection \<open>Taking the record apart gives the values back\<close>

definition columns :: "col list \<Rightarrow> sqlval list \<Rightarrow> bool" where
  "columns cols vs \<longleftrightarrow> list_all2 (\<lambda>(t, d) v. column t d v) cols vs"

lemma columns_Cons: "columns (c # cols) vs \<longleftrightarrow> (\<exists>v vs'. vs = v # vs' \<and> column (fst c) (snd c) v \<and> columns cols vs')"
  by (auto simp: columns_def list_all2_Cons1 split: prod.splits)

lemma columns_length: "columns cols vs \<Longrightarrow> length cols = length vs"
  by (simp add: columns_def list_all2_lengthD)

lemma to_col_columns: "list_all cell_ok regs \<Longrightarrow> columns (map (to_col ff) regs) (map (stored_val ff) regs)"
  by (induction regs) (simp_all add: columns_def to_col_def ser_column)

lemma drop_plus: "drop (i + k) xs = drop k (drop i xs)"
  by (simp add: add.commute)

lemma unpack_loop_ok:
  assumes "columns cols vs" "length cols \<le> length mems" "u + length cols \<le> nF"
    and "drop idx aKey = hdr_bytes cols @ rest" "drop d aKey = data_bytes cols @ junk"
    and "szHdr = idx + length (hdr_bytes cols)" "nKey = d + length (data_bytes cols)"
  shows "\<exists>cs. unpack_loop e aKey nKey szHdr nF idx d u mems = Some (cs @ drop (length cols) mems, nKey, u + length cols) \<and>
    map cell_val cs = vs \<and> list_all cmp_ok cs \<and> list_all (\<lambda>c. enc_cell c = e) cs"
  using assms
proof (induction cols arbitrary: vs mems u idx d)
  case Nil
  then show ?case
    by (subst unpack_loop.simps) (auto simp: columns_def)
next
  case (Cons c cols)
  obtain t dat where c: "c = (t, dat)" by (cases c)
  obtain v vs' where v: "vs = v # vs'" "column t dat v" "columns cols vs'"
    using Cons.prems(1) c by (auto simp: columns_Cons)
  obtain m ms where m: "mems = m # ms" using Cons.prems(2) by (cases mems) auto
  have g: "getVarint32 (drop idx aKey) = Some (t, length (putVarint32 t))"
    using Cons.prems(4) c getVarint32_put [of t "hdr_bytes cols @ rest"] by simp
  have dd: "drop d aKey = dat @ (data_bytes cols @ junk)" using Cons.prems(5) c by simp
  obtain c' where c': "sqlite3VdbeSerialGet (drop d aKey) t (m\<lparr>enc_cell := e, zcell := []\<rparr>) = Some (c', length dat)"
    "cell_val c' = v" "cmp_ok c'" "enc_cell c' = e"
    unfolding dd
    by (rule SerialGet_column [OF v(2), of "data_bytes cols @ junk" "m\<lparr>enc_cell := e, zcell := []\<rparr>"]) auto
  have n1: "drop (idx + length (putVarint32 t)) aKey = hdr_bytes cols @ rest"
    unfolding drop_plus Cons.prems(4) using c by simp
  have n2: "drop (d + length dat) aKey = data_bytes cols @ junk"
    unfolding drop_plus dd by simp
  have lt: "idx < szHdr" "d \<le> nKey"
    using Cons.prems(6,7) c putVarint32_bounds(1) [of t] by simp_all
  show ?case
  proof (cases "nF \<le> u + 1")
    case True
    then have "cols = []" using Cons.prems(3) by (cases cols) auto
    then show ?thesis using True v m g c' lt Cons.prems(7) c
      by (subst unpack_loop.simps) (simp add: columns_def)
  next
    case False
    have "\<exists>cs. unpack_loop e aKey nKey szHdr nF (idx + length (putVarint32 t)) (d + length dat) (u + 1) ms =
        Some (cs @ drop (length cols) ms, nKey, u + 1 + length cols) \<and>
        map cell_val cs = vs' \<and> list_all cmp_ok cs \<and> list_all (\<lambda>c. enc_cell c = e) cs"
      by (rule Cons.IH [OF v(3)]) (use Cons.prems c m n1 n2 in simp_all)
    then obtain cs where cs: "unpack_loop e aKey nKey szHdr nF (idx + length (putVarint32 t)) (d + length dat) (u + 1) ms =
        Some (cs @ drop (length cols) ms, nKey, u + 1 + length cols)"
        "map cell_val cs = vs'" "list_all cmp_ok cs" "list_all (\<lambda>c. enc_cell c = e) cs" by blast
    have "unpack_loop e aKey nKey szHdr nF idx d u mems = Some ((c' # cs) @ drop (length (c # cols)) mems, nKey, u + length (c # cols))"
      using False m g c' lt cs(1) by (subst unpack_loop.simps) (simp del: One_nat_def)
    then show ?thesis using cs c' v by (intro exI [of _ "c' # cs"]) simp
  qed
qed

lemma record_header:
  assumes "length cols \<le> 32767"
  obtains h where "h = length (putVarint32 (of_nat (header_size (length (hdr_bytes cols)))))"
    "getVarint32 (record_of cols @ junk) = Some (of_nat (header_size (length (hdr_bytes cols))), h)"
    "unat (of_nat (header_size (length (hdr_bytes cols))) :: u32) = h + length (hdr_bytes cols)"
    "drop h (record_of cols @ junk) = hdr_bytes cols @ data_bytes cols @ junk"
    "drop (h + length (hdr_bytes cols)) (record_of cols @ junk) = data_bytes cols @ junk"
    "length (record_of cols) = h + length (hdr_bytes cols) + length (data_bytes cols)"
    "h + length (hdr_bytes cols) \<le> 5 * length cols + 5"
proof -
  define n where "n = length (hdr_bytes cols)"
  define b where "b = putVarint32 (of_nat (header_size n))"
  have n: "n < 2 ^ 28" using length_hdr(2) [of cols] assms by (simp add: n_def)
  note hs = header_size_fix [OF n, folded b_def]
  have rec: "record_of cols = b @ hdr_bytes cols @ data_bytes cols" by (simp add: record_of_def b_def n_def)
  show thesis
  proof (rule that [of "length b", folded n_def])
    show "length b = length (putVarint32 (word_of_nat (header_size n)))" by (simp add: b_def)
    show "getVarint32 (record_of cols @ junk) = Some (word_of_nat (header_size n), length b)"
      using getVarint32_put [of "of_nat (header_size n)"] by (simp add: rec flip: b_def)
    show "unat (word_of_nat (header_size n) :: u32) = length b + n" using hs by simp
    show "drop (length b) (record_of cols @ junk) = hdr_bytes cols @ data_bytes cols @ junk" by (simp add: rec)
    show "drop (length b + n) (record_of cols @ junk) = data_bytes cols @ junk"
      by (simp add: rec n_def)
    show "length (record_of cols) = length b + n + length (data_bytes cols)" by (simp add: rec n_def)
    show "length b + n \<le> 5 * length cols + 5" using length_hdr(2) [of cols] hs(1,2) by (simp add: n_def)
  qed
qed

lemma RecordUnpack_ok:
  assumes "columns cols vs" "length cols \<le> 32767" "length cols \<le> length (aMem p)" "length cols \<le> nField p"
  shows "\<exists>cs. sqlite3VdbeRecordUnpack ki (length (record_of cols)) (record_of cols) p =
      Some (p\<lparr>default_rc := 0, aMem := cs @ drop (length cols) (aMem p), nField := length cols\<rparr>) \<and>
    map cell_val cs = vs \<and> list_all cmp_ok cs \<and> list_all (\<lambda>c. enc_cell c = enc_key ki) cs"
proof -
  obtain h where h: "getVarint32 (record_of cols) = Some (of_nat (header_size (length (hdr_bytes cols))), h)"
    "unat (of_nat (header_size (length (hdr_bytes cols))) :: u32) = h + length (hdr_bytes cols)"
    "drop h (record_of cols) = hdr_bytes cols @ data_bytes cols @ []"
    "drop (h + length (hdr_bytes cols)) (record_of cols) = data_bytes cols @ []"
    "length (record_of cols) = h + length (hdr_bytes cols) + length (data_bytes cols)"
    using record_header [OF assms(2), of "[]"] by auto
  from unpack_loop_ok [OF assms(1,3) _ h(3,4) refl h(5), of 0 "nField p" "enc_key ki"] assms(4)
  show ?thesis
    by (auto simp: sqlite3VdbeRecordUnpack_def h(1,2))
qed

text \<open>
  C26. What \<open>OP_MakeRecord\<close> stores, \<open>sqlite3VdbeRecordUnpack\<close> gives back: for any cells and whatever
  the output register and the allocator's blocks hold, no byte is written beyond the buffer; the
  opcode fails only when there is no memory or the record is longer than the limit; and otherwise
  the record, with its tail of zeros, comes apart into the values that went in. The one exception is
  documented: an integer to be stored as a real that needs eight bytes becomes the nearest double.
\<close>

theorem record_roundtrip:
  assumes "list_all cell_ok regs" "length regs \<le> 32767"
    and "\<forall>n z. fresh n = Some z \<longrightarrow> n \<le> length z"
    and "limit \<le> SQLITE_MAX_LENGTH" "length zMalloc < 2 ^ 31"
    and "length regs \<le> length (aMem p)" "length regs \<le> nField p"
  shows "case OP_MakeRecord mok fresh ff limit zMalloc pOut regs of
      Made out \<Rightarrow> (\<exists>p'. sqlite3VdbeRecordUnpack ki (length (blob_bytes out)) (blob_bytes out) p = Some p' \<and>
        nField p' = length regs \<and> map cell_val (take (nField p') (aMem p')) = map (stored_val ff) regs)
    | NoMem \<Rightarrow> \<exists>n. \<not> mok n \<or> fresh n = None
    | TooBig \<Rightarrow> limit < length (record_of (map (to_col ff) regs))
    | OutOfBounds \<Rightarrow> False"
proof -
  note made = MakeRecord_ok [OF assms(1-5), of mok ff pOut]
  obtain cs where cs: "sqlite3VdbeRecordUnpack ki (length (record_of (map (to_col ff) regs))) (record_of (map (to_col ff) regs)) p =
      Some (p\<lparr>default_rc := 0, aMem := cs @ drop (length regs) (aMem p), nField := length regs\<rparr>)"
    "map cell_val cs = map (stored_val ff) regs"
    using RecordUnpack_ok [OF to_col_columns [OF assms(1)], of ff p ki] assms(2,6,7) by auto
  from cs(2) have "length cs = length regs" by (rule map_eq_imp_length_eq)
  with cs made show ?thesis by (auto simp: made_ok_def split: made.splits)
qed

definition sample_regs :: "cell list" where
  "sample_regs = [int_cell (- 7), real_cell 0x401C000000000000, text_cell [0x61, 0x42]]"

definition sample_key :: unpacked where
  "sample_key = \<lparr>pKeyInfo = \<lparr>enc_key = SQLITE_UTF8, nKeyField = 3, nAllField = 3, aSortFlags = [0, 1, 2],
      aColl = [None, None, Some nocase_coll]\<rparr>, aMem = sample_regs, nField = 3, default_rc = 0, errCode = 0,
      r1 = 0, r2 = 0, eqSeen = False\<rparr>"

theorem record_roundtrip_witness:
  "case OP_MakeRecord (\<lambda>n. True) (\<lambda>n. Some (replicate n 0x97)) 4 1000 [] (int_cell 0) sample_regs of
      Made out \<Rightarrow> (\<exists>p'. sqlite3VdbeRecordUnpack (pKeyInfo sample_key) (length (blob_bytes out)) (blob_bytes out) sample_key = Some p' \<and>
        nField p' = length sample_regs \<and>
        map cell_val (take (nField p') (aMem p')) = map (stored_val 4) sample_regs)
    | TooBig \<Rightarrow> 1000 < length (record_of (map (to_col 4) sample_regs))
    | _ \<Rightarrow> False"
  using record_roundtrip [where regs = sample_regs and fresh = "\<lambda>n. Some (replicate n 0x97)" and limit = 1000
      and zMalloc = "[]" and p = sample_key and mok = "\<lambda>n. True" and ff = 4 and pOut = "int_cell 0"
      and ki = "pKeyInfo sample_key"] sample_cells
  by (simp add: sample_regs_def sample_key_def cmp_ok_def SQLITE_MAX_LENGTH_def split: made.splits)

subsection \<open>Taking arbitrary bytes apart gives well-formed cells\<close>

lemma typed_cells:
  "cmp_ok (m\<lparr>uval := w, flags := MEM_Int\<rparr>)" "cmp_ok (m\<lparr>uval := w, flags := MEM_Null\<rparr>)" "cmp_ok (set_int m i)"
  "enc_cell (set_int m i) = enc_cell m"
  by (simp_all add: ok_simps set_int_def del: One_nat_def)

lemma serialGet_type:
  "serialGet buf t m = Some (c, l) \<Longrightarrow> cmp_ok c \<and> enc_cell c = enc_cell m"
  using typed_cells(1,2) [where m = m] real_cell_ok(2) [where m = m]
  by (auto simp: serialGet_def Let_def split: bind_splits if_splits)

lemma SerialGet_type:
  assumes "sqlite3VdbeSerialGet buf t m = Some (c, l)" "l \<le> length buf" "length buf \<le> SQLITE_MAX_LENGTH"
  shows "cmp_ok c \<and> enc_cell c = enc_cell m"
proof -
  have t: "cmp_ok (m\<lparr>zcell := buf, ncell := n, flags := MEM_Str OR MEM_Ephem\<rparr>)"
    "cmp_ok (m\<lparr>zcell := buf, ncell := n, flags := MEM_Blob OR MEM_Ephem\<rparr>)" if "n \<le> length buf" for n
    using text_cell_ok(2) [where d = "take n buf" and m = m and rest = "drop n buf"]
      blob_cell_ok(2) [where d = "take n buf" and m = m and rest = "drop n buf"] that assms(3)
    by (simp_all add: min_absorb2)
  show ?thesis
    using assms serialGet_type [of buf t m c l] null_cell(2) [where m = m] nochng_cell(2) [where m = m]
      typed_cells(3,4) [where m = m] t
    by (auto simp: sqlite3VdbeSerialGet_def split: if_splits bind_splits)
qed

lemma unpack_loop_types:
  assumes "unpack_loop e aKey nKey szHdr nF idx d u mems = Some (cs, d', u')"
    and "nKey \<le> length aKey" "length aKey \<le> SQLITE_MAX_LENGTH"
  shows "\<exists>k. u' = u + k \<and> k \<le> length cs \<and> (0 < k \<and> nKey < d' \<or>
      list_all (\<lambda>c. cmp_ok c \<and> enc_cell c = e) (take k cs)) \<and>
    list_all (\<lambda>c. cmp_ok c \<and> enc_cell c = e) (take (k - 1) cs) \<and> list_all (\<lambda>c. enc_cell c = e) (take k cs)"
  using assms(1)
proof (induction mems arbitrary: u idx d cs)
  case Nil
  then show ?case by (subst (asm) unpack_loop.simps) (auto split: if_splits)
next
  case (Cons m ms)
  show ?case
  proof (cases "idx < szHdr \<and> d \<le> nKey")
    case False
    then have "cs = m # ms \<and> u' = u" using Cons.prems by (subst (asm) unpack_loop.simps) (auto split: if_splits)
    then show ?thesis by (intro exI [of _ 0]) simp
  next
    case True
    then obtain t k c l where g: "getVarint32 (drop idx aKey) = Some (t, k)"
      "sqlite3VdbeSerialGet (drop d aKey) t (m\<lparr>enc_cell := e, zcell := []\<rparr>) = Some (c, l)"
      "(if nF \<le> u + 1 then Some (c # ms, d + l, u + 1)
        else do { (cs, d', u') \<leftarrow> unpack_loop e aKey nKey szHdr nF (idx + k) (d + l) (u + 1) ms; Some (c # cs, d', u') }) =
       Some (cs, d', u')"
      using Cons.prems by (subst (asm) unpack_loop.simps) (simp split: bind_splits prod.splits)
    have enc: "enc_cell c = e"
      using g(2) by (auto simp: sqlite3VdbeSerialGet_def serialGet_def set_int_def Let_def split: if_splits bind_splits)
    have ty: "cmp_ok c" if "d + l \<le> nKey"
      using SerialGet_type [OF g(2)] that True assms(2,3) by simp
    show ?thesis
    proof (cases "nF \<le> u + 1")
      case True
      then show ?thesis using g(3) enc ty by (cases "d + l \<le> nKey"; intro exI [of _ 1]) auto
    next
      case False
      then obtain cs0 where c0: "unpack_loop e aKey nKey szHdr nF (idx + k) (d + l) (u + 1) ms = Some (cs0, d', u')" "cs = c # cs0"
        using g(3) by (auto split: bind_splits prod.splits)
      from Cons.IH [OF c0(1)] obtain j where j: "u' = u + 1 + j" "j \<le> length cs0"
        "0 < j \<and> nKey < d' \<or> list_all (\<lambda>c. cmp_ok c \<and> enc_cell c = e) (take j cs0)"
        "list_all (\<lambda>c. cmp_ok c \<and> enc_cell c = e) (take (j - 1) cs0)" "list_all (\<lambda>c. enc_cell c = e) (take j cs0)"
        by blast
      have stop: "j = 0 \<and> d' = d + l" if "nKey < d + l"
        using c0(1) that j(1) by (subst (asm) unpack_loop.simps) auto
      show ?thesis
        using j enc ty stop c0(2) by (intro exI [of _ "Suc j"]) (cases "d + l \<le> nKey"; cases j; auto)
    qed
  qed
qed



end
