(* ===== verification/SqlKeyCompare.thy ===== *)
theory SqlKeyCompare
  imports SqlRecord
begin

section \<open>Comparing records with keys (vdbeaux.c)\<close>

text \<open>
  A search in an index compares the records of the b-tree with a key that is already taken apart.
  The theory models \<open>sqlite3VdbeRecordCompare\<close>, the two fast comparisons for keys that begin with an
  integer or a binary text, the choice between them, the comparison the source uses to check the
  others, and the reading of the rowid at the end of an index entry.

  The order they must agree on is \<open>key_cmp\<close>: column by column the order of the values, under the
  column's collating sequence and sort flags. \<open>mok\<close> says for which texts the allocator has memory;
  the theorems take it to have enough.
\<close>

subsection \<open>Comparing a record with a key\<close>

text \<open>
  \<open>mem1\<close> is a local cell of the source; only what \<open>sqlite3VdbeSerialGet\<close> has set is read from it.
\<close>

definition mem1 :: "enc \<Rightarrow> cell" where
  "mem1 e = \<lparr>flags = 0, uval = 0, ncell = 0, zcell = [], enc_cell = e, uTemp = 0\<rparr>"

definition KEYINFO_ORDER_DESC :: u8 where "KEYINFO_ORDER_DESC = 1"
definition KEYINFO_ORDER_BIGNULL :: u8 where "KEYINFO_ORDER_BIGNULL = 2"
definition SQLITE_CORRUPT :: int where "SQLITE_CORRUPT = 11"
definition SQLITE_NOMEM_CODE :: int where "SQLITE_NOMEM_CODE = 7"

text \<open>
  The debugging check \<open>vdbeRecordCompareDebug\<close> takes each column out of the record and compares the
  cells. \<open>debug_loop\<close> gives \<open>rc\<close> at the label \<open>debugCompareEnd\<close>.
\<close>

fun debug_loop ::
    "bool \<Rightarrow> (u8 list \<Rightarrow> bool) \<Rightarrow> nat \<Rightarrow> u8 list \<Rightarrow> unpacked \<Rightarrow> nat \<Rightarrow> nat \<Rightarrow> nat \<Rightarrow> nat \<Rightarrow> cell list \<Rightarrow> int option" where
  "debug_loop wide mok nKey1 aKey1 p szHdr1 d1 idx1 i [] = None"
| "debug_loop wide mok nKey1 aKey1 p szHdr1 d1 idx1 i (rhs # rhss) = do {
     (serial_type1, k) \<leftarrow> getVarint32 (drop idx1 aKey1);
     let idx1 = idx1 + k;
     if nKey1 < d1 + unat serial_type1 + 2 \<and> nKey1 < d1 + sqlite3VdbeSerialTypeLen serial_type1
     then Some (default_rc p)
     else do {
       (mem, l) \<leftarrow> sqlite3VdbeSerialGet (drop d1 aKey1) serial_type1 (mem1 (enc_key (pKeyInfo p)));
       let rc = sqlite3MemCompare wide mok mem rhs
                  (if i < nAllField (pKeyInfo p) then aColl (pKeyInfo p) ! i else None);
       if rc \<noteq> 0 then
         let f = aSortFlags (pKeyInfo p) ! i;
             rc = (if f AND KEYINFO_ORDER_BIGNULL \<noteq> 0 \<and> (has (flags mem) MEM_Null \<or> has (flags rhs) MEM_Null)
                   then - rc else rc)
         in Some (if f AND KEYINFO_ORDER_DESC \<noteq> 0 then - rc else rc)
       else if idx1 < szHdr1 \<and> i + 1 < nField p
       then debug_loop wide mok nKey1 aKey1 p szHdr1 (d1 + l) idx1 (i + 1) rhss
       else Some (default_rc p) } }"

definition vdbeRecordCompareDebug ::
    "bool \<Rightarrow> (u8 list \<Rightarrow> bool) \<Rightarrow> nat \<Rightarrow> u8 list \<Rightarrow> unpacked \<Rightarrow> int \<Rightarrow> bool option" where
  "vdbeRecordCompareDebug wide mok nKey1 aKey1 p desiredResult = do {
     (szHdr1, idx1) \<leftarrow> getVarint32 aKey1;
     if 98307 < unat szHdr1 then Some True
     else do {
       rc \<leftarrow> debug_loop wide mok nKey1 aKey1 p (unat szHdr1) (unat szHdr1) idx1 0 (aMem p);
       Some (desiredResult = 0 \<and> rc = 0 \<or> desiredResult < 0 \<and> rc < 0 \<or> 0 < desiredResult \<and> 0 < rc) } }"

text \<open>
  One round of the loop of \<open>sqlite3VdbeRecordCompareWithSkip\<close>, up to the sort order: the result is
  \<open>rc\<close>, the serial type, and the error code to store. \<open>Inl\<close> is the return on a corrupt record.
\<close>

definition blob_rc :: "u8 list \<Rightarrow> nat \<Rightarrow> u8 list \<Rightarrow> nat \<Rightarrow> int" where
  "blob_rc lhs n1 rhs n2 =
     (let nCmp = min n1 n2; rc = memcmp (take nCmp lhs) (take nCmp rhs)
      in if rc = 0 then int n1 - int n2 else rc)"

definition rhs_int ::
    "bool \<Rightarrow> u8 list \<Rightarrow> unpacked \<Rightarrow> nat \<Rightarrow> nat \<Rightarrow> cell \<Rightarrow> (int \<times> u32 \<times> int) option" where
  "rhs_int wide aKey1 p d1 idx1 pRhs = do {
     b \<leftarrow> rd aKey1 idx1;
     let serial_type = (ucast b :: u32);
     if 10 \<le> serial_type then Some (1, serial_type, errCode p)
     else if serial_type = 0 then Some (-1, serial_type, errCode p)
     else if serial_type = 7 then do {
       (m, l) \<leftarrow> sqlite3VdbeSerialGet (drop d1 aKey1) serial_type (mem1 (enc_key (pKeyInfo p)));
       Some (- sqlite3IntFloatCompare wide (u_i pRhs) (uval m), serial_type, errCode p) }
     else do {
       lhs \<leftarrow> vdbeRecordDecodeInt serial_type (drop d1 aKey1);
       Some (cmp_int lhs (u_i pRhs), serial_type, errCode p) } }"

definition rhs_real ::
    "bool \<Rightarrow> u8 list \<Rightarrow> unpacked \<Rightarrow> nat \<Rightarrow> nat \<Rightarrow> cell \<Rightarrow> (int \<times> u32 \<times> int) option" where
  "rhs_real wide aKey1 p d1 idx1 pRhs = do {
     b \<leftarrow> rd aKey1 idx1;
     let serial_type = (ucast b :: u32);
     if 10 \<le> serial_type then Some (1, serial_type, errCode p)
     else if serial_type = 0 then Some (-1, serial_type, errCode p)
     else do {
       (m, l) \<leftarrow> sqlite3VdbeSerialGet (drop d1 aKey1) serial_type (mem1 (enc_key (pKeyInfo p)));
       Some (if serial_type = 7 then cmp_dbl (uval m) (uval pRhs)
             else sqlite3IntFloatCompare wide (u_i m) (uval pRhs), serial_type, errCode p) } }"

definition rhs_str ::
    "(u8 list \<Rightarrow> bool) \<Rightarrow> nat \<Rightarrow> u8 list \<Rightarrow> unpacked \<Rightarrow> nat \<Rightarrow> nat \<Rightarrow> nat \<Rightarrow> cell \<Rightarrow>
     (int \<times> u32 \<times> int) option option" where
  "rhs_str mok nKey1 aKey1 p d1 idx1 i pRhs = do {
     (serial_type, k) \<leftarrow> getVarint32 (drop idx1 aKey1);
     if serial_type < 12 then Some (Some (-1, serial_type, errCode p))
     else if \<not> bit serial_type 0 then Some (Some (1, serial_type, errCode p))
     else
       let n = unat ((serial_type - 12) div 2) in
       if nKey1 < d1 + n \<or> nAllField (pKeyInfo p) \<le> i then Some None
       else (case aColl (pKeyInfo p) ! i of
               Some coll \<Rightarrow>
                 let m = (mem1 (enc_key (pKeyInfo p)))\<lparr>ncell := n, flags := MEM_Str, zcell := drop d1 aKey1\<rparr>;
                     r = vdbeCompareMemString mok m pRhs coll
                 in Some (Some (fst r, serial_type, if snd r then SQLITE_NOMEM_CODE else errCode p))
             | None \<Rightarrow> Some (Some (blob_rc (drop d1 aKey1) n (zcell pRhs) (ncell pRhs), serial_type, errCode p))) }"

definition rhs_blob ::
    "nat \<Rightarrow> u8 list \<Rightarrow> unpacked \<Rightarrow> nat \<Rightarrow> nat \<Rightarrow> cell \<Rightarrow> (int \<times> u32 \<times> int) option option" where
  "rhs_blob nKey1 aKey1 p d1 idx1 pRhs = do {
     (serial_type, k) \<leftarrow> getVarint32 (drop idx1 aKey1);
     if serial_type < 12 \<or> bit serial_type 0 then Some (Some (-1, serial_type, errCode p))
     else
       let nStr = unat ((serial_type - 12) div 2) in
       if nKey1 < d1 + nStr then Some None
       else if has (flags pRhs) MEM_Zero then
         Some (Some (if \<not> isAllZero (take nStr (drop d1 aKey1)) then 1 else int nStr - int (u_nZero pRhs),
                     serial_type, errCode p))
       else Some (Some (blob_rc (drop d1 aKey1) nStr (zcell pRhs) (ncell pRhs), serial_type, errCode p)) }"

definition rhs_null :: "u8 list \<Rightarrow> unpacked \<Rightarrow> nat \<Rightarrow> (int \<times> u32 \<times> int) option" where
  "rhs_null aKey1 p idx1 = do {
     b \<leftarrow> rd aKey1 idx1;
     Some (if b \<noteq> 0 then 1 else 0, ucast b, errCode p) }"

definition compare_field ::
    "bool \<Rightarrow> (u8 list \<Rightarrow> bool) \<Rightarrow> nat \<Rightarrow> u8 list \<Rightarrow> unpacked \<Rightarrow> nat \<Rightarrow> nat \<Rightarrow> nat \<Rightarrow> cell \<Rightarrow>
     (int \<times> u32 \<times> int) option option" where
  "compare_field wide mok nKey1 aKey1 p d1 idx1 i pRhs =
     (if has (flags pRhs) (MEM_Int OR MEM_IntReal) then map_option Some (rhs_int wide aKey1 p d1 idx1 pRhs)
      else if has (flags pRhs) MEM_Real then map_option Some (rhs_real wide aKey1 p d1 idx1 pRhs)
      else if has (flags pRhs) MEM_Str then rhs_str mok nKey1 aKey1 p d1 idx1 i pRhs
      else if has (flags pRhs) MEM_Blob then rhs_blob nKey1 aKey1 p d1 idx1 pRhs
      else map_option Some (rhs_null aKey1 p idx1))"

definition sort_rc :: "u8 \<Rightarrow> u32 \<Rightarrow> cell \<Rightarrow> int \<Rightarrow> int" where
  "sort_rc sortFlags serial_type pRhs rc =
     (if sortFlags \<noteq> 0 \<and>
         (sortFlags AND KEYINFO_ORDER_BIGNULL = 0 \<or>
          (sortFlags AND KEYINFO_ORDER_DESC \<noteq> 0) \<noteq> (serial_type = 0 \<or> has (flags pRhs) MEM_Null))
      then - rc else rc)"

fun compare_loop ::
    "bool \<Rightarrow> (u8 list \<Rightarrow> bool) \<Rightarrow> nat \<Rightarrow> u8 list \<Rightarrow> unpacked \<Rightarrow> nat \<Rightarrow> nat \<Rightarrow> nat \<Rightarrow> nat \<Rightarrow> cell list \<Rightarrow>
     (int \<times> unpacked) option" where
  "compare_loop wide mok nKey1 aKey1 p szHdr1 d1 idx1 i [] = None"
| "compare_loop wide mok nKey1 aKey1 p szHdr1 d1 idx1 i (pRhs # rhss) =
     (case compare_field wide mok nKey1 aKey1 p d1 idx1 i pRhs of
        None \<Rightarrow> None
      | Some None \<Rightarrow> Some (0, p\<lparr>errCode := SQLITE_CORRUPT\<rparr>)
      | Some (Some (rc, serial_type, err)) \<Rightarrow>
          let p = p\<lparr>errCode := err\<rparr> in
          if rc \<noteq> 0 then Some (sort_rc (aSortFlags (pKeyInfo p) ! i) serial_type pRhs rc, p)
          else if i + 1 = nField p then Some (default_rc p, p\<lparr>eqSeen := True\<rparr>)
          else
            let d1 = d1 + sqlite3VdbeSerialTypeLen serial_type;
                idx1 = idx1 + sqlite3VarintLen (ucast serial_type)
            in if idx1 < szHdr1 \<and> d1 \<le> nKey1
               then compare_loop wide mok nKey1 aKey1 p szHdr1 d1 idx1 (i + 1) rhss
               else Some (default_rc p, p\<lparr>eqSeen := True\<rparr>))"

definition sqlite3VdbeRecordCompareWithSkip ::
    "bool \<Rightarrow> (u8 list \<Rightarrow> bool) \<Rightarrow> nat \<Rightarrow> u8 list \<Rightarrow> unpacked \<Rightarrow> bool \<Rightarrow> (int \<times> unpacked) option" where
  "sqlite3VdbeRecordCompareWithSkip wide mok nKey1 aKey1 p bSkip = do {
     (szHdr1, idx1, d1) \<leftarrow>
       (if bSkip then do {
          (s1, k) \<leftarrow> getVarint32 (drop 1 aKey1);
          h \<leftarrow> rd aKey1 0;
          Some (unat h, 1 + k, unat h + sqlite3VdbeSerialTypeLen s1) }
        else do {
          (szHdr1, idx1) \<leftarrow> getVarint32 aKey1;
          Some (unat szHdr1, idx1, unat szHdr1) });
     if nKey1 < d1 then Some (0, p\<lparr>errCode := SQLITE_CORRUPT\<rparr>)
     else if bSkip then compare_loop wide mok nKey1 aKey1 p szHdr1 d1 idx1 1 (drop 1 (aMem p))
     else compare_loop wide mok nKey1 aKey1 p szHdr1 d1 idx1 0 (aMem p) }"

definition sqlite3VdbeRecordCompare ::
    "bool \<Rightarrow> (u8 list \<Rightarrow> bool) \<Rightarrow> nat \<Rightarrow> u8 list \<Rightarrow> unpacked \<Rightarrow> (int \<times> unpacked) option" where
  "sqlite3VdbeRecordCompare wide mok nKey1 aKey1 p =
     sqlite3VdbeRecordCompareWithSkip wide mok nKey1 aKey1 p False"

subsection \<open>The fast comparisons and their choice\<close>

text \<open>A comparator is a function of the record and the key.\<close>

definition vdbeRecordCompareInt ::
    "bool \<Rightarrow> (u8 list \<Rightarrow> bool) \<Rightarrow> nat \<Rightarrow> u8 list \<Rightarrow> unpacked \<Rightarrow> (int \<times> unpacked) option" where
  "vdbeRecordCompareInt wide mok nKey1 pKey1 p = do {
     k0 \<leftarrow> rd pKey1 0;
     k1 \<leftarrow> rd pKey1 1;
     let aKey = drop (unat (k0 AND 0x3F)) pKey1;
     let serial_type = (ucast k1 :: u32);
     if serial_type = 0 \<or> serial_type = 7 \<or> 10 \<le> serial_type
     then sqlite3VdbeRecordCompare wide mok nKey1 pKey1 p
     else do {
       lhs \<leftarrow> (if serial_type = 8 then Some 0 else if serial_type = 9 then Some 1
              else vdbeRecordDecodeInt serial_type aKey);
       let v = u_i (aMem p ! 0);
       if lhs < v then Some (r1 p, p)
       else if v < lhs then Some (r2 p, p)
       else if 1 < nField p then sqlite3VdbeRecordCompareWithSkip wide mok nKey1 pKey1 p True
       else Some (default_rc p, p\<lparr>eqSeen := True\<rparr>) } }"

definition vdbeRecordCompareString ::
    "bool \<Rightarrow> (u8 list \<Rightarrow> bool) \<Rightarrow> nat \<Rightarrow> u8 list \<Rightarrow> unpacked \<Rightarrow> (int \<times> unpacked) option" where
  "vdbeRecordCompareString wide mok nKey1 aKey1 p = do {
     k1 \<leftarrow> rd aKey1 1;
     (t, k) \<leftarrow> (if 0x80 \<le> k1 then sqlite3GetVarint32 (drop 1 aKey1) else Some (ucast k1 :: u32, 1));
     let serial_type = sint t;
     if serial_type < 12 then Some (r1 p, p)
     else if \<not> bit serial_type 0 then Some (r2 p, p)
     else do {
       h \<leftarrow> rd aKey1 0;
       let szHdr = unat h;
       let nStr = nat ((serial_type - 12) div 2);
       if nKey1 < szHdr + nStr then Some (0, p\<lparr>errCode := SQLITE_CORRUPT\<rparr>)
       else
         let m = aMem p ! 0; nCmp = min (ncell m) nStr;
             res = memcmp (take nCmp (drop szHdr aKey1)) (take nCmp (zcell m))
         in if 0 < res then Some (r2 p, p)
            else if res < 0 then Some (r1 p, p)
            else
              let res = int nStr - int (ncell m) in
              if res = 0 then
                if 1 < nField p then sqlite3VdbeRecordCompareWithSkip wide mok nKey1 aKey1 p True
                else Some (default_rc p, p\<lparr>eqSeen := True\<rparr>)
              else if 0 < res then Some (r2 p, p) else Some (r1 p, p) } }"

datatype comparator = RecordCompare | RecordCompareInt | RecordCompareString

fun run_comparator ::
    "comparator \<Rightarrow> bool \<Rightarrow> (u8 list \<Rightarrow> bool) \<Rightarrow> nat \<Rightarrow> u8 list \<Rightarrow> unpacked \<Rightarrow> (int \<times> unpacked) option" where
  "run_comparator RecordCompare = sqlite3VdbeRecordCompare"
| "run_comparator RecordCompareInt = vdbeRecordCompareInt"
| "run_comparator RecordCompareString = vdbeRecordCompareString"

definition sqlite3VdbeFindCompare :: "unpacked \<Rightarrow> comparator \<times> unpacked" where
  "sqlite3VdbeFindCompare p =
     (if nAllField (pKeyInfo p) \<le> 13 then
        let f = flags (aMem p ! 0); sf = aSortFlags (pKeyInfo p) ! 0 in
        if sf \<noteq> 0 \<and> sf AND KEYINFO_ORDER_BIGNULL \<noteq> 0 then (RecordCompare, p)
        else
          let p = (if sf \<noteq> 0 then p\<lparr>r1 := 1, r2 := -1\<rparr> else p\<lparr>r1 := -1, r2 := 1\<rparr>) in
          if has f MEM_Int then (RecordCompareInt, p)
          else if \<not> has f (MEM_Real OR MEM_IntReal OR MEM_Null OR MEM_Blob) \<and> aColl (pKeyInfo p) ! 0 = None
          then (RecordCompareString, p)
          else (RecordCompare, p)
      else (RecordCompare, p))"

subsection \<open>The rowid at the end of an index entry (sqlite3VdbeIdxRowid)\<close>

text \<open>
  \<open>m\<close> is the payload of the cursor, or \<open>Inl\<close> the error with which reading it failed. The result is
  the return code or the rowid; \<open>None\<close> is a read beyond the payload.
\<close>

definition sqlite3VdbeIdxRowid :: "int + u8 list \<Rightarrow> (int + int) option" where
  "sqlite3VdbeIdxRowid payload =
     (case payload of
        Inl rc \<Rightarrow> Some (Inl rc)
      | Inr z \<Rightarrow> do {
          (szHdr, k) \<leftarrow> getVarint32 z;
          if unat szHdr < 3 \<or> length z < unat szHdr then Some (Inl SQLITE_CORRUPT)
          else do {
            (typeRowid, k) \<leftarrow> getVarint32 (drop (unat szHdr - 1) z);
            if typeRowid < 1 \<or> 9 < typeRowid \<or> typeRowid = 7 then Some (Inl SQLITE_CORRUPT)
            else
              let lenRowid = sqlite3SmallTypeSizes ! unat typeRowid in
              if length z < unat szHdr + lenRowid then Some (Inl SQLITE_CORRUPT)
              else do {
                (v, l) \<leftarrow> sqlite3VdbeSerialGet (drop (length z - lenRowid) z) typeRowid (mem1 SQLITE_UTF8);
                Some (Inr (u_i v)) } } })"

subsection \<open>The order of the keys\<close>

text \<open>
  The order a key compares by: column by column the order of the values, under the column's
  collating sequence, turned round by its sort flags; \<open>d\<close> when one side has no more columns.
\<close>

definition sort_dir :: "u8 \<Rightarrow> bool \<Rightarrow> int \<Rightarrow> int" where
  "sort_dir f has_null rc =
     (let rc = (if f AND KEYINFO_ORDER_BIGNULL \<noteq> 0 \<and> has_null then - rc else rc)
      in if f AND KEYINFO_ORDER_DESC \<noteq> 0 then - rc else rc)"

fun key_cmp :: "keyinfo \<Rightarrow> nat \<Rightarrow> sqlval list \<Rightarrow> sqlval list \<Rightarrow> int \<Rightarrow> int" where
  "key_cmp ki i (v # vs) (w # ws) d =
     (let rc = sgn (val_cmp (collate (enc_key ki) (aColl ki ! i)) v w)
      in if rc \<noteq> 0 then sort_dir (aSortFlags ki ! i) (v = VNull \<or> w = VNull) rc
         else key_cmp ki (i + 1) vs ws d)"
| "key_cmp ki i _ _ d = d"

lemma sgn_sort_dir: "sgn (sort_dir f b (sgn rc)) = sgn (sort_dir f b rc)"
  by (simp add: sort_dir_def Let_def)

lemma cell_val_null: "cmp_ok c \<Longrightarrow> cell_val c = VNull \<longleftrightarrow> has (flags c) MEM_Null"
  unfolding cmp_ok_def by (auto simp: cell_val_def)

lemma debug_loop_ok:
  assumes "columns cols vs" "cols \<noteq> []" "rhss \<noteq> []"
    and "list_all cmp_ok rhss" "list_all (\<lambda>c. enc_cell c = enc_key (pKeyInfo p)) rhss"
    and "nField p = i + length rhss" "nField p \<le> nAllField (pKeyInfo p)"
    and "drop idx aKey = hdr_bytes cols @ rest" "drop d aKey = data_bytes cols @ junk"
    and "szHdr = idx + length (hdr_bytes cols)" "nKey = d + length (data_bytes cols)"
  shows "\<exists>rc. debug_loop wide (\<lambda>t. True) nKey aKey p szHdr d idx i (rhss @ spare) = Some rc \<and>
    sgn rc = sgn (key_cmp (pKeyInfo p) i vs (map cell_val rhss) (default_rc p))"
  using assms
proof (induction cols arbitrary: vs rhss idx d i)
  case (Cons c cols)
  obtain t dat where c: "c = (t, dat)" by (cases c)
  obtain v vs' where v: "vs = v # vs'" "column t dat v" "columns cols vs'"
    using Cons.prems(1) c by (auto simp: columns_Cons)
  obtain rhs rhss' where r: "rhss = rhs # rhss'" using Cons.prems(3) by (cases rhss) auto
  define ki where "ki = pKeyInfo p"
  have g: "getVarint32 (drop idx aKey) = Some (t, length (putVarint32 t))"
    using Cons.prems(8) c getVarint32_put [of t "hdr_bytes cols @ rest"] by simp
  have dd: "drop d aKey = dat @ (data_bytes cols @ junk)" using Cons.prems(9) c by simp
  obtain m where m: "sqlite3VdbeSerialGet (drop d aKey) t (mem1 (enc_key ki)) = Some (m, length dat)"
    "cell_val m = v" "cmp_ok m" "enc_cell m = enc_key ki"
    unfolding dd by (rule SerialGet_column [OF v(2), of "data_bytes cols @ junk" "mem1 (enc_key ki)"])
      (auto simp: mem1_def)
  have n1: "drop (idx + length (putVarint32 t)) aKey = hdr_bytes cols @ rest"
    unfolding drop_plus Cons.prems(8) using c by simp
  have n2: "drop (d + length dat) aKey = data_bytes cols @ junk"
    unfolding drop_plus dd by simp
  have fits: "\<not> nKey < d + sqlite3VdbeSerialTypeLen t"
    using Cons.prems(11) c v(2) by (simp add: column_def)
  have coll: "(if i < nAllField ki then aColl ki ! i else None) = aColl ki ! i"
    using Cons.prems(6,7) r by (simp add: ki_def)
  have rhs: "cmp_ok rhs" "enc_cell rhs = enc_key ki" using Cons.prems(4,5) r by (simp_all add: ki_def)
  define mc where "mc = sqlite3MemCompare wide (\<lambda>t. True) m rhs (aColl ki ! i)"
  have mc: "sgn mc = sgn (val_cmp (collate (enc_key ki) (aColl ki ! i)) v (cell_val rhs))"
    unfolding mc_def using MemCompare_by_value [OF m(3) rhs(1) m(4) rhs(2)] m(2) by simp
  have step: "debug_loop wide (\<lambda>t. True) nKey aKey p szHdr d idx i (rhss @ spare) =
      (if mc \<noteq> 0 then Some (sort_dir (aSortFlags ki ! i) (has (flags m) MEM_Null \<or> has (flags rhs) MEM_Null) mc)
       else if idx + length (putVarint32 t) < szHdr \<and> i + 1 < nField p
       then debug_loop wide (\<lambda>t. True) nKey aKey p szHdr (d + length dat) (idx + length (putVarint32 t)) (i + 1) (rhss' @ spare)
       else Some (default_rc p))"
    using g m(1) fits Cons.prems(6,7) by (simp add: r Let_def sort_dir_def mc_def ki_def)
  show ?case
  proof (cases "mc = 0")
    case False
    then have "sgn mc \<noteq> 0" by (simp add: sgn_eq_0_iff)
    then have k: "key_cmp ki i vs (map cell_val rhss) (default_rc p) =
        sort_dir (aSortFlags ki ! i) (has (flags m) MEM_Null \<or> has (flags rhs) MEM_Null) (sgn mc)"
      using v(1) r cell_val_null [OF m(3)] cell_val_null [OF rhs(1)] m(2) by (simp add: Let_def flip: mc)
    show ?thesis
      unfolding step ki_def [symmetric] k using False by (simp add: sgn_sort_dir)
  next
    case True
    then have k: "key_cmp ki i vs (map cell_val rhss) (default_rc p) =
        key_cmp ki (i + 1) vs' (map cell_val rhss') (default_rc p)"
      using v(1) r mc by simp
    show ?thesis
    proof (cases "cols = [] \<or> rhss' = []")
      case stop: True
      then have "vs' = [] \<or> rhss' = []" using columns_length [OF v(3)] by auto
      then have "key_cmp ki i vs (map cell_val rhss) (default_rc p) = default_rc p"
        unfolding k by (cases vs'; cases rhss') auto
      moreover have "\<not> (idx + length (putVarint32 t) < szHdr \<and> i + 1 < nField p)"
        using stop Cons.prems(6,10) c r by auto
      ultimately show ?thesis unfolding step ki_def [symmetric] using True by auto
    next
      case go: False
      have "idx + length (putVarint32 t) < szHdr \<and> i + 1 < nField p"
        using go Cons.prems(6,10) c r length_hdr(1) [of cols] by (cases cols; cases rhss') auto
      moreover have "\<exists>rc. debug_loop wide (\<lambda>t. True) nKey aKey p szHdr (d + length dat)
            (idx + length (putVarint32 t)) (i + 1) (rhss' @ spare) = Some rc \<and>
          sgn rc = sgn (key_cmp (pKeyInfo p) (i + 1) vs' (map cell_val rhss') (default_rc p))"
        by (rule Cons.IH [OF v(3)]) (use go Cons.prems r c n1 n2 in simp_all)
      ultimately show ?thesis unfolding step ki_def [symmetric] k using True by simp
    qed
  qed
qed simp

subsection \<open>A column against a cell of the key\<close>

lemma first_byte:
  assumes "drop idx aKey = putVarint32 t @ rest"
  obtains b where "rd aKey idx = Some b" "ucast b = t \<or> 128 \<le> (ucast b :: u32) \<and> 128 \<le> t"
proof -
  obtain b bs where b: "putVarint32 t = b # bs"
    using putVarint32_bounds(1) [of t] by (cases "putVarint32 t") auto
  have g: "getVarint32 (putVarint32 t) = Some (t, length (putVarint32 t))"
    using getVarint32_put [of t "[]"] by simp
  have r: "rd aKey idx = Some b"
    using assms b by (cases "idx < length aKey") (simp_all add: rd_def hd_drop_conv_nth [symmetric])
  have "unat b < 256" using unsigned_less [of b, where 'a = nat] by simp
  then have "unat b < 2 ^ 32" by (rule less_trans) simp
  from take_bit_nat_eq_self [OF this] have u: "unat (ucast b :: u32) = unat b"
    by (simp add: unsigned_ucast_eq)
  show thesis
  proof (cases "b < 0x80")
    case True
    then have "ucast b = t" using g by (simp add: b getVarint32_def rd_def)
    with r show thesis by (intro that) auto
  next
    case False
    moreover have "128 \<le> t"
    proof (rule ccontr)
      assume "\<not> 128 \<le> t"
      then have "t < 0x80" by simp
      then have "unat t < 128" by (simp add: word_less_nat_alt)
      then have "b = ucast t" using putVarint32_one [of t] b by simp
      then have "unat b = unat t" using \<open>unat t < 128\<close>
        by (simp add: unsigned_ucast_eq take_bit_nat_eq_self)
      then show False using False \<open>unat t < 128\<close> by (simp add: word_less_nat_alt)
    qed
    ultimately show thesis using r u by (intro that [of b]) (auto simp: word_le_nat_alt word_less_nat_alt)
  qed
qed

lemma null_type: "column t d v \<Longrightarrow> t \<noteq> 10 \<Longrightarrow> t = 0 \<longleftrightarrow> v = VNull"
  by (cases v) (auto simp: column_def int_type_def)

lemma column_byte:
  assumes "column t d v" "t \<noteq> 10" "s = t \<or> 128 \<le> s \<and> 128 \<le> t"
  shows "s = 0 \<longleftrightarrow> v = VNull" "10 \<le> s \<longleftrightarrow> 1 < val_rank v" "s = 7 \<longleftrightarrow> (\<exists>r. v = VReal r)"
    "\<not> 10 \<le> s \<Longrightarrow> s = t"
  using assms by (cases v; auto simp: column_def int_type_def word_le_nat_alt word_less_nat_alt)+

text \<open>The cell that stands for a column in the comparison, and the text and blob of the record.\<close>

lemma byte_type_num:
  assumes "column t dat v" "drop d aKey = dat @ junk"
  shows "v = VInt i \<Longrightarrow> vdbeRecordDecodeInt t (drop d aKey) = Some i \<and> i64_ok i \<and>
      sqlite3VdbeSerialGet (drop d aKey) t m = Some (set_int m i, length dat)"
    "v = VReal r \<Longrightarrow> sqlite3VdbeSerialGet (drop d aKey) 7 m = Some (m\<lparr>uval := r, flags := MEM_Real\<rparr>, 8)"
  using assms by (simp_all add: column_def int_type_def sqlite3VdbeSerialGet_def read_be8)

lemma u_i_set_int: "i64_ok i \<Longrightarrow> u_i (set_int m i) = i"
  by (simp add: u_i_def set_int_def sint_i64)

lemma blob_rc_bin: "sgn (blob_rc (x @ junk) (length x) z n) = sgn (binCollFunc x (take n z))" if "n \<le> length z"
  using that by (auto simp: blob_rc_def binCollFunc_def Let_def min_def)

definition field_ok :: "unpacked \<Rightarrow> nat \<Rightarrow> u32 \<Rightarrow> sqlval \<Rightarrow> cell \<Rightarrow> (int \<times> u32 \<times> int) option option \<Rightarrow> bool" where
  "field_ok p i t v rhs r \<longleftrightarrow>
     (\<exists>rc s. r = Some (Some (rc, s, errCode p)) \<and>
        sgn rc = sgn (val_cmp (collate (enc_key (pKeyInfo p)) (aColl (pKeyInfo p) ! i)) v (cell_val rhs)) \<and>
        (s = 0 \<longleftrightarrow> v = VNull) \<and> (rc = 0 \<longrightarrow> s = t))"

lemma num_field:
  assumes v: "column t dat v" "t \<noteq> 10" and a: "drop idx aKey = putVarint32 t @ rest" "drop d aKey = dat @ junk"
    and c: "cell_val rhs = VInt (u_i rhs) \<or> cell_val rhs = VReal (uval rhs) \<and> \<not> IsNaN (uval rhs)"
  shows "cell_val rhs = VInt (u_i rhs) \<Longrightarrow> field_ok p i t v rhs (map_option Some (rhs_int wide aKey p d idx rhs))"
    "cell_val rhs = VReal (uval rhs) \<Longrightarrow> field_ok p i t v rhs (map_option Some (rhs_real wide aKey p d idx rhs))"
proof -
  obtain b where b: "rd aKey idx = Some b" "ucast b = t \<or> 128 \<le> (ucast b :: u32) \<and> 128 \<le> t"
    using first_byte [OF a(1)] by blast
  define s where "s = (ucast b :: u32)"
  note s = column_byte [OF v b(2), folded s_def]
  note n = byte_type_num [OF v(1) a(2)]
  { assume r: "cell_val rhs = VInt (u_i rhs)"
    show "field_ok p i t v rhs (map_option Some (rhs_int wide aKey p d idx rhs))"
    proof (cases v)
      case (VInt j)
      then have "s = t" "\<not> 10 \<le> s" "s \<noteq> 0" "s \<noteq> 7" using s by auto
      then show ?thesis using n(1) [OF VInt] VInt r b(1) v(1)
        by (simp add: field_ok_def rhs_int_def Let_def cmp_int_scaled flip: s_def)
    next
      case (VReal x)
      then have "s = 7" "t = 7" "\<not> IsNaN x" using s v(1) by (auto simp: column_def)
      then show ?thesis using n(2) [OF VReal] VReal r b(1) v(1)
          IntFloatCompare_unit [OF u_i_ok [of rhs], of x wide]
        by (simp add: field_ok_def rhs_int_def Let_def cmp_int_anti [of "u_i rhs * dbl_unit"] flip: s_def)
    qed (use s b(1) r in \<open>simp_all add: field_ok_def rhs_int_def Let_def flip: s_def\<close>)
  }
  { assume r: "cell_val rhs = VReal (uval rhs)"
    show "field_ok p i t v rhs (map_option Some (rhs_real wide aKey p d idx rhs))"
    proof (cases v)
      case (VInt j)
      then have "s = t" "\<not> 10 \<le> s" "s \<noteq> 0" "s \<noteq> 7" using s by auto
      then show ?thesis using n(1) [OF VInt] VInt r b(1) c
          IntFloatCompare_unit [of j "uval rhs" wide]
        by (simp add: field_ok_def rhs_real_def Let_def u_i_set_int flip: s_def)
    next
      case (VReal x)
      then have "s = 7" "t = 7" "\<not> IsNaN x" using s v(1) by (auto simp: column_def)
      then show ?thesis using n(2) [OF VReal] VReal r b(1) c cmp_dbl_key [of x "uval rhs"]
        by (simp add: field_ok_def rhs_real_def Let_def flip: s_def)
    qed (use s b(1) r in \<open>simp_all add: field_ok_def rhs_real_def Let_def flip: s_def\<close>)
  }
qed

lemma type_small: "column t dat v \<Longrightarrow> t \<noteq> 10 \<Longrightarrow> t < 12 \<longleftrightarrow> val_rank v < 2" "column t dat v \<Longrightarrow> 12 \<le> t \<longleftrightarrow> 2 \<le> val_rank v"
  by (cases v; auto simp: column_def int_type_def word_less_nat_alt word_le_nat_alt)+

lemma null_field:
  assumes v: "column t dat v" "t \<noteq> 10" and a: "drop idx aKey = putVarint32 t @ rest" and c: "cell_val rhs = VNull"
  shows "field_ok p i t v rhs (map_option Some (rhs_null aKey p idx))"
proof -
  obtain b where b: "rd aKey idx = Some b" "ucast b = t \<or> 128 \<le> (ucast b :: u32) \<and> 128 \<le> t"
    using first_byte [OF a(1)] by blast
  define s where "s = (ucast b :: u32)"
  have s: "s = 0 \<longleftrightarrow> v = VNull" "v = VNull \<Longrightarrow> t = 0" "s = t \<or> s \<noteq> 0"
    using column_byte [OF v b(2)] null_type [OF v] by (auto simp: s_def)
  have "b = 0 \<longleftrightarrow> s = 0"
    unfolding s_def by (simp add: word_eq_bits) (auto simp: bit_simps upt_start)
  then show ?thesis using b(1) c s
    by (cases v) (simp_all add: field_ok_def rhs_null_def cmp_int_def flip: s_def)
qed

lemma str_field:
  assumes v: "column t dat v" "t \<noteq> 10" and a: "drop idx aKey = putVarint32 t @ rest" "drop d aKey = dat @ junk"
    and c: "cell_val rhs = VText (ztext rhs)" "ncell rhs \<le> length (zcell rhs)" "enc_cell rhs = enc_key (pKeyInfo p)"
    and b: "d + length dat \<le> nKey" "i < nAllField (pKeyInfo p)"
  shows "field_ok p i t v rhs (rhs_str (\<lambda>t. True) nKey aKey p d idx i rhs)"
proof -
  have g: "getVarint32 (drop idx aKey) = Some (t, length (putVarint32 t))"
    using a(1) getVarint32_put [of t rest] by simp
  note ty = type_small [OF v(1)] v(2)
  show ?thesis
  proof (cases v)
    case (VText x)
    then have x: "dat = x" "bit t 0" "unat ((t - 12) div 2) = length x" "\<not> t < 12" "12 \<le> t" "t \<noteq> 0"
      using v(1) by (auto simp: column_def word_le_nat_alt word_less_nat_alt)
    show ?thesis
    proof (cases "aColl (pKeyInfo p) ! i")
      case None
      then show ?thesis using VText g x c b blob_rc_bin [of "ncell rhs" "zcell rhs" x junk] a(2)
        by (simp add: field_ok_def rhs_str_def Let_def collate_None ztext_def)
    next
      case (Some coll)
      define m where "m = (mem1 (enc_key (pKeyInfo p)))\<lparr>ncell := length x, flags := MEM_Str, zcell := drop d aKey\<rparr>"
      have m: "ncell m \<le> length (zcell m)" "enc_cell m = enc_key (pKeyInfo p)" "ztext m = x"
        by (simp_all add: m_def mem1_def ztext_def a(2) x)
      show ?thesis using MemString_collate [OF m(1) c(2) m(2) c(3), of coll] VText g x c b Some
        by (simp add: field_ok_def rhs_str_def Let_def m(3) flip: m_def)
    qed
  next
    case (VBlob x)
    then have "\<not> bit t 0" "12 \<le> t" "\<not> t < 12" "t \<noteq> 0" using v(1) by (auto simp: column_def word_le_nat_alt word_less_nat_alt)
    then show ?thesis using VBlob g c by (simp add: field_ok_def rhs_str_def)
  qed (use g c ty null_type [OF v] in \<open>simp_all add: field_ok_def rhs_str_def\<close>)
qed

lemma blob_field:
  assumes v: "column t dat v" "t \<noteq> 10" and a: "drop idx aKey = putVarint32 t @ rest" "drop d aKey = dat @ junk"
    and c: "cell_val rhs = VBlob (blob_bytes rhs)" "cmp_ok rhs" "ncell rhs \<le> length (zcell rhs)"
    and b: "d + length dat \<le> nKey"
  shows "field_ok p i t v rhs (rhs_blob nKey aKey p d idx rhs)"
proof -
  have g: "getVarint32 (drop idx aKey) = Some (t, length (putVarint32 t))"
    using a(1) getVarint32_put [of t rest] by simp
  note ty = type_small [OF v(1)] v(2)
  show ?thesis
  proof (cases v)
    case (VBlob x)
    then have x: "dat = x" "\<not> bit t 0" "unat ((t - 12) div 2) = length x" "\<not> t < 12" "12 \<le> t" "t \<noteq> 0"
      using v(1) by (auto simp: column_def word_le_nat_alt word_less_nat_alt)
    have t: "take (length x) (drop d aKey) = x" using a(2) x by simp
    show ?thesis
    proof (cases "has (flags rhs) MEM_Zero")
      case True
      then have z: "blob_bytes rhs = replicate (u_nZero rhs) 0"
        using c(2) by (simp add: blob_bytes_def cmp_ok_def ztext_def)
      show ?thesis
        using True VBlob g x c b t zeros_greater [of x "u_nZero rhs"] all_zero [of x]
          zeros_zeros [of "length x" "u_nZero rhs"]
        by (cases "isAllZero x") (simp_all add: field_ok_def rhs_blob_def Let_def z)
    next
      case False
      then show ?thesis using VBlob g x c b blob_rc_bin [of "ncell rhs" "zcell rhs" x junk] a(2)
        by (simp add: field_ok_def rhs_blob_def Let_def blob_bytes_def ztext_def)
    qed
  next
    case (VText x)
    then have "bit t 0" "12 \<le> t" "\<not> t < 12" "t \<noteq> 0" using v(1) by (auto simp: column_def word_le_nat_alt word_less_nat_alt)
    then show ?thesis using VText g c by (simp add: field_ok_def rhs_blob_def)
  qed (use g c ty null_type [OF v] in \<open>simp_all add: field_ok_def rhs_blob_def\<close>)
qed

lemma compare_field_ok:
  assumes v: "column t dat v" "t \<noteq> 10" and a: "drop idx aKey = putVarint32 t @ rest" "drop d aKey = dat @ junk"
    and c: "cmp_ok rhs" "enc_cell rhs = enc_key (pKeyInfo p)"
    and b: "d + length dat \<le> nKey" "i < nAllField (pKeyInfo p)"
  shows "field_ok p i t v rhs (compare_field wide (\<lambda>t. True) nKey aKey p d idx i rhs)"
proof -
  have "cell_ok rhs" using c(1) by (simp add: cmp_ok_def)
  then show ?thesis
  proof (cases rule: cell_val_cases)
    case 1
    then show ?thesis using null_field [OF v a(1)] by (simp add: compare_field_def has_simps)
  next
    case 2
    then show ?thesis using num_field [OF v a, of rhs] by (auto simp: compare_field_def has_simps)
  next
    case 3
    then show ?thesis using num_field [OF v a, of rhs] by (simp add: compare_field_def has_simps)
  next
    case 4
    then show ?thesis using str_field [OF v a _ _ c(2) b] by (simp add: compare_field_def has_simps)
  next
    case 5
    then show ?thesis using blob_field [OF v a _ c(1) _ b(1)] by (simp add: compare_field_def has_simps)
  qed
qed

subsection \<open>A record against a key\<close>

lemma sort_rc_dir:
  assumes "f < 4" "s = 0 \<longleftrightarrow> v = VNull" "cmp_ok rhs"
  shows "sort_rc f s rhs rc = sort_dir f (v = VNull \<or> cell_val rhs = VNull) rc"
proof -
  have "unat f < 4" using assms(1) by (simp add: word_less_nat_alt)
  then have "unat f \<in> {0, 1, 2, 3}" by auto
  then have "f \<in> {0, 1, 2, 3}" by (auto simp: word_unat_eq_iff)
  then show ?thesis
    using assms(2) cell_val_null [OF assms(3)]
    by (auto simp: sort_rc_def sort_dir_def KEYINFO_ORDER_DESC_def KEYINFO_ORDER_BIGNULL_def Let_def)
qed

lemma sort_dir_0: "sort_dir f b rc = 0 \<longleftrightarrow> rc = 0"
  by (simp add: sort_dir_def Let_def)

lemma compare_loop_ok:
  assumes "columns cols vs" "cols \<noteq> []" "rhss \<noteq> []" "list_all (\<lambda>c. fst c \<noteq> 10) cols"
    and "list_all cmp_ok rhss" "list_all (\<lambda>c. enc_cell c = enc_key (pKeyInfo p)) rhss"
    and "nField p = i + length rhss" "nField p \<le> nAllField (pKeyInfo p)"
    and "\<forall>j < nAllField (pKeyInfo p). aSortFlags (pKeyInfo p) ! j < 4"
    and "drop idx aKey = hdr_bytes cols @ rest" "drop d aKey = data_bytes cols @ junk"
    and "szHdr = idx + length (hdr_bytes cols)" "nKey = d + length (data_bytes cols)"
  shows "\<exists>rc. compare_loop wide (\<lambda>t. True) nKey aKey p szHdr d idx i (rhss @ spare) =
      Some (rc, p\<lparr>eqSeen := eqSeen p \<or> key_cmp (pKeyInfo p) i vs (map cell_val rhss) 0 = 0\<rparr>) \<and>
    sgn rc = sgn (key_cmp (pKeyInfo p) i vs (map cell_val rhss) (default_rc p))"
  using assms
proof (induction cols arbitrary: vs rhss idx d i)
  case (Cons c cols)
  obtain t dat where c: "c = (t, dat)" by (cases c)
  obtain v vs' where v: "vs = v # vs'" "column t dat v" "columns cols vs'"
    using Cons.prems(1) c by (auto simp: columns_Cons)
  obtain rhs rhss' where r: "rhss = rhs # rhss'" using Cons.prems(3) by (cases rhss) auto
  define ki where "ki = pKeyInfo p"
  have t10: "t \<noteq> 10" using Cons.prems(4) c by simp
  have hd: "drop idx aKey = putVarint32 t @ hdr_bytes cols @ rest" using Cons.prems(10) c by simp
  have dd: "drop d aKey = dat @ (data_bytes cols @ junk)" using Cons.prems(11) c by simp
  have n1: "drop (idx + length (putVarint32 t)) aKey = hdr_bytes cols @ rest"
    unfolding drop_plus hd by simp
  have n2: "drop (d + length dat) aKey = data_bytes cols @ junk"
    unfolding drop_plus dd by simp
  have rhs: "cmp_ok rhs" "enc_cell rhs = enc_key (pKeyInfo p)" using Cons.prems(5,6) r by simp_all
  have i: "i < nAllField (pKeyInfo p)" "aSortFlags (pKeyInfo p) ! i < 4" using Cons.prems(7-9) r by simp_all
  have "d + length dat \<le> nKey" using Cons.prems(13) c by simp
  from compare_field_ok [OF v(2) t10 hd dd rhs this i(1), of wide]
  obtain rc s where f: "compare_field wide (\<lambda>t. True) nKey aKey p d idx i rhs = Some (Some (rc, s, errCode p))"
    "sgn rc = sgn (val_cmp (collate (enc_key ki) (aColl ki ! i)) v (cell_val rhs))"
    "s = 0 \<longleftrightarrow> v = VNull" "rc = 0 \<longrightarrow> s = t"
    by (auto simp: field_ok_def ki_def)
  have len: "sqlite3VdbeSerialTypeLen t = length dat" using v(2) by (simp add: column_def)
  show ?case
  proof (cases "rc = 0")
    case False
    then have "sgn rc \<noteq> 0" by (simp add: sgn_eq_0_iff)
    then have k: "key_cmp ki i vs (map cell_val rhss) e =
        sort_dir (aSortFlags ki ! i) (v = VNull \<or> cell_val rhs = VNull) (sgn rc)" for e
      using v(1) r by (simp add: Let_def flip: f(2))
    show ?thesis
      unfolding ki_def [symmetric] k using False f(1) sort_rc_dir [OF i(2) f(3) rhs(1), of rc]
      by (simp add: r sgn_sort_dir sort_dir_0 sgn_eq_0_iff Let_def ki_def)
  next
    case True
    then have k: "key_cmp ki i vs (map cell_val rhss) e = key_cmp ki (i + 1) vs' (map cell_val rhss') e" for e
      using v(1) r f(2) by simp
    have step: "compare_loop wide (\<lambda>t. True) nKey aKey p szHdr d idx i (rhss @ spare) =
      (if i + 1 = nField p then Some (default_rc p, p\<lparr>eqSeen := True\<rparr>)
       else if idx + length (putVarint32 t) < szHdr
       then compare_loop wide (\<lambda>t. True) nKey aKey p szHdr (d + length dat) (idx + length (putVarint32 t)) (i + 1) (rhss' @ spare)
       else Some (default_rc p, p\<lparr>eqSeen := True\<rparr>))"
      using f(1,4) True Cons.prems(13) c by (simp add: r VarintLen_put32 len Let_def)
    show ?thesis
    proof (cases "cols = [] \<or> rhss' = []")
      case stop: True
      then have "vs' = [] \<or> rhss' = []" using columns_length [OF v(3)] by auto
      then have "key_cmp ki i vs (map cell_val rhss) e = e" for e
        unfolding k by (cases vs'; cases rhss') auto
      moreover have "\<not> (idx + length (putVarint32 t) < szHdr \<and> i + 1 \<noteq> nField p)"
        using stop Cons.prems(7,12) c r by auto
      ultimately show ?thesis unfolding step ki_def [symmetric] by auto
    next
      case go: False
      have "idx + length (putVarint32 t) < szHdr \<and> i + 1 \<noteq> nField p"
        using go Cons.prems(7,12) c r length_hdr(1) [of cols] by (cases cols; cases rhss') auto
      moreover have "\<exists>rc. compare_loop wide (\<lambda>t. True) nKey aKey p szHdr (d + length dat)
            (idx + length (putVarint32 t)) (i + 1) (rhss' @ spare) =
            Some (rc, p\<lparr>eqSeen := eqSeen p \<or> key_cmp (pKeyInfo p) (i + 1) vs' (map cell_val rhss') 0 = 0\<rparr>) \<and>
          sgn rc = sgn (key_cmp (pKeyInfo p) (i + 1) vs' (map cell_val rhss') (default_rc p))"
        by (rule Cons.IH [OF v(3)]) (use go Cons.prems r c n1 n2 in simp_all)
      ultimately show ?thesis unfolding step k [unfolded ki_def] by simp
    qed
  qed
qed simp

definition key_ok :: "unpacked \<Rightarrow> bool" where
  "key_ok p \<longleftrightarrow>
     (let ki = pKeyInfo p; n = nField p in
      0 < n \<and> n \<le> length (aMem p) \<and> n \<le> nAllField ki \<and>
      nAllField ki \<le> length (aSortFlags ki) \<and> nAllField ki \<le> length (aColl ki) \<and>
      list_all (\<lambda>f. f < 4) (aSortFlags ki) \<and>
      list_all (\<lambda>c. cmp_ok c \<and> enc_cell c = enc_key ki) (take n (aMem p)))"

definition key_vals :: "unpacked \<Rightarrow> sqlval list" where
  "key_vals p = map cell_val (take (nField p) (aMem p))"

lemma key_okD:
  assumes "key_ok p"
  shows "take (nField p) (aMem p) \<noteq> []" "list_all cmp_ok (take (nField p) (aMem p))"
    "list_all (\<lambda>c. enc_cell c = enc_key (pKeyInfo p)) (take (nField p) (aMem p))"
    "nField p \<le> nAllField (pKeyInfo p)" "\<forall>j < nAllField (pKeyInfo p). aSortFlags (pKeyInfo p) ! j < 4"
    "length (take (nField p) (aMem p)) = nField p"
  using assms by (auto simp: key_ok_def Let_def list_all_iff)

lemma split_mem: "aMem p = take (nField p) (aMem p) @ drop (nField p) (aMem p)"
  by simp

lemma RecordCompare_ok:
  assumes "columns cols vs" "cols \<noteq> []" "list_all (\<lambda>c. fst c \<noteq> 10) cols" "length cols \<le> 32767" "key_ok p"
  shows "\<exists>rc. sqlite3VdbeRecordCompare wide (\<lambda>t. True) (length (record_of cols)) (record_of cols @ junk) p =
      Some (rc, p\<lparr>eqSeen := eqSeen p \<or> key_cmp (pKeyInfo p) 0 vs (key_vals p) 0 = 0\<rparr>) \<and>
    sgn rc = sgn (key_cmp (pKeyInfo p) 0 vs (key_vals p) (default_rc p))"
proof -
  obtain h where h: "getVarint32 (record_of cols @ junk) = Some (of_nat (header_size (length (hdr_bytes cols))), h)"
    "unat (of_nat (header_size (length (hdr_bytes cols))) :: u32) = h + length (hdr_bytes cols)"
    "drop h (record_of cols @ junk) = hdr_bytes cols @ data_bytes cols @ junk"
    "drop (h + length (hdr_bytes cols)) (record_of cols @ junk) = data_bytes cols @ junk"
    "length (record_of cols) = h + length (hdr_bytes cols) + length (data_bytes cols)"
    using record_header [OF assms(4), of junk] by metis
  note k = key_okD [OF assms(5)]
  have "nField p = 0 + length (take (nField p) (aMem p))" by (simp only: k(6) add_0)
  from compare_loop_ok [OF assms(1,2) k(1) assms(3) k(2,3) this k(4,5) h(3,4) refl h(5),
      of wide "drop (nField p) (aMem p)", folded split_mem]
  show ?thesis
    using h(5) by (simp add: sqlite3VdbeRecordCompare_def sqlite3VdbeRecordCompareWithSkip_def h(1,2) key_vals_def)
qed

lemma RecordCompareDebug_ok:
  assumes "columns cols vs" "cols \<noteq> []" "length cols \<le> 32767" "key_ok p"
    and "sgn rc = sgn (key_cmp (pKeyInfo p) 0 vs (key_vals p) (default_rc p))"
  shows "vdbeRecordCompareDebug wide (\<lambda>t. True) (length (record_of cols)) (record_of cols @ junk) p rc = Some True"
proof -
  obtain h where h: "getVarint32 (record_of cols @ junk) = Some (of_nat (header_size (length (hdr_bytes cols))), h)"
    "unat (of_nat (header_size (length (hdr_bytes cols))) :: u32) = h + length (hdr_bytes cols)"
    "drop h (record_of cols @ junk) = hdr_bytes cols @ data_bytes cols @ junk"
    "drop (h + length (hdr_bytes cols)) (record_of cols @ junk) = data_bytes cols @ junk"
    "length (record_of cols) = h + length (hdr_bytes cols) + length (data_bytes cols)"
    using record_header [OF assms(3), of junk] by metis
  note k = key_okD [OF assms(4)]
  have "nField p = 0 + length (take (nField p) (aMem p))" by (simp only: k(6) add_0)
  from debug_loop_ok [OF assms(1,2) k(1-3) this k(4) h(3,4) refl h(5),
      of wide "drop (nField p) (aMem p)", folded split_mem]
  obtain rc' where r: "debug_loop wide (\<lambda>t. True) (length (record_of cols)) (record_of cols @ junk) p
      (h + length (hdr_bytes cols)) (h + length (hdr_bytes cols)) h 0 (aMem p) = Some rc'"
    "sgn rc' = sgn rc"
    using assms(5) by (auto simp: key_vals_def)
  from r(2) show ?thesis
    by (simp add: vdbeRecordCompareDebug_def h(1,2) r(1) sgn_if split: if_splits)
qed

lemma header_bound:
  assumes "columns cols vs"
  shows "length (hdr_bytes cols) * 134217721 \<le> 4 * 134217721 * length cols + length (data_bytes cols)"
  using assms
proof (induction cols arbitrary: vs)
  case (Cons c cols)
  obtain t d where c: "c = (t, d)" by (cases c)
  obtain v vs' where v: "column t d v" "columns cols vs'" using Cons.prems c by (auto simp: columns_Cons)
  have "length (putVarint32 t) * 134217721 \<le> 4 * 134217721 + length d"
  proof (cases "unat t < 2 ^ 28")
    case True
    then have "length (putVarint32 t) \<le> 4"
      using ndig_le [of "ucast t" 3] by (simp add: length_putVarint32 unat_up32)
    then show ?thesis by simp
  next
    case False
    then have "134217721 \<le> length d"
      using v(1) by (cases v) (auto simp: column_def int_type_def word_less_nat_alt)
    then show ?thesis using putVarint32_bounds(2) [of t] by simp
  qed
  then show ?case using Cons.IH [OF v(2)] c by (simp add: algebra_simps)
qed (simp add: columns_def)

lemma short_header:
  assumes "columns cols vs" "length cols \<le> 13" "length (data_bytes cols) \<le> SQLITE_MAX_LENGTH"
  obtains b where "rd (record_of cols @ junk) 0 = Some b" "unat b = 1 + length (hdr_bytes cols)" "b AND 0x3F = b"
    "header_size (length (hdr_bytes cols)) = 1 + length (hdr_bytes cols)"
    "putVarint32 (of_nat (header_size (length (hdr_bytes cols)))) = [b]"
proof -
  define n where "n = length (hdr_bytes cols)"
  have n: "n \<le> 62"
    using header_bound [OF assms(1)] assms(2,3) by (simp add: SQLITE_MAX_LENGTH_def n_def)
  then have hs: "header_size n = 1 + n" by (simp add: header_size_def)
  have u: "unat (of_nat (1 + n) :: u32) = 1 + n" "unat (of_nat (1 + n) :: u8) = 1 + n"
    unfolding unat_of_nat by (rule mod_less; use n in simp)+
  have p: "putVarint32 (of_nat (header_size n)) = [ucast (of_nat (header_size n) :: u32)]"
    by (rule putVarint32_one) (use u(1) n in \<open>simp only: hs\<close>)
  have w: "ucast (of_nat (1 + n) :: u32) = (of_nat (1 + n) :: u8)"
    by (rule word_unat_eq_iff [THEN iffD2], unfold unsigned_ucast_eq u)
      (rule take_bit_nat_eq_self, use n in simp)
  show thesis
  proof (rule that [of "of_nat (1 + n)", folded n_def])
    show "putVarint32 (word_of_nat (header_size n)) = [word_of_nat (1 + n)]"
      using p unfolding hs w .
    then show "rd (record_of cols @ junk) 0 = Some (word_of_nat (1 + n))"
      by (simp add: record_of_def rd_def n_def)
    show "unat (word_of_nat (1 + n) :: u8) = 1 + n" "header_size n = 1 + n" by (fact u(2) hs)+
    show "word_of_nat (1 + n) AND 0x3F = (word_of_nat (1 + n) :: u8)"
      using and_low_mask [of "0x3F" 6 "word_of_nat (1 + n) :: u8"] n u(2)
      by (simp add: mask_eq_exp_minus_1 word_unat_eq_iff)
  qed
qed

subsection \<open>The fast comparisons\<close>

text \<open>What a comparison of record and key has to return.\<close>

definition key_result :: "unpacked \<Rightarrow> sqlval list \<Rightarrow> (int \<times> unpacked) option \<Rightarrow> bool" where
  "key_result p vs r \<longleftrightarrow>
     (\<exists>rc. r = Some (rc, p\<lparr>eqSeen := eqSeen p \<or> key_cmp (pKeyInfo p) 0 vs (key_vals p) 0 = 0\<rparr>) \<and>
           sgn rc = sgn (key_cmp (pKeyInfo p) 0 vs (key_vals p) (default_rc p)))"

lemmas RecordCompare_result = RecordCompare_ok [folded key_result_def]

lemma key_vals_Cons:
  assumes "key_ok p"
  obtains ws where "aMem p ! 0 = hd (take (nField p) (aMem p))" "key_vals p = cell_val (aMem p ! 0) # ws"
    "ws = map cell_val (take (nField p - 1) (drop 1 (aMem p)))" "cmp_ok (aMem p ! 0)"
    "enc_cell (aMem p ! 0) = enc_key (pKeyInfo p)" "length ws = nField p - 1"
proof -
  obtain n where n: "nField p = Suc n" using assms by (cases "nField p") (auto simp: key_ok_def Let_def)
  obtain c cs where c: "aMem p = c # cs" using assms by (cases "aMem p") (auto simp: key_ok_def Let_def)
  show thesis
    by (rule that [of "map cell_val (take n cs)"]) (use assms n c in \<open>auto simp: key_vals_def key_ok_def Let_def\<close>)
qed

lemma CompareWithSkip_ok:
  assumes "columns (c # cols) (v # vs)" "cols \<noteq> []" "list_all (\<lambda>c. fst c \<noteq> 10) (c # cols)" "key_ok p" "1 < nField p"
    and "length (c # cols) \<le> 13" "length (data_bytes (c # cols)) \<le> SQLITE_MAX_LENGTH"
  shows "\<exists>rc. sqlite3VdbeRecordCompareWithSkip wide (\<lambda>t. True) (length (record_of (c # cols))) (record_of (c # cols) @ junk) p True =
      Some (rc, p\<lparr>eqSeen := eqSeen p \<or> key_cmp (pKeyInfo p) 1 vs (tl (key_vals p)) 0 = 0\<rparr>) \<and>
    sgn rc = sgn (key_cmp (pKeyInfo p) 1 vs (tl (key_vals p)) (default_rc p))"
proof -
  obtain t dat where c: "c = (t, dat)" by (cases c)
  define rec where "rec = record_of (c # cols)"
  define k where "k = length (putVarint32 t)"
  obtain b where b: "rd (rec @ junk) 0 = Some b" "unat b = 1 + length (hdr_bytes (c # cols))"
    "header_size (length (hdr_bytes (c # cols))) = 1 + length (hdr_bytes (c # cols))"
    "putVarint32 (of_nat (header_size (length (hdr_bytes (c # cols))))) = [b]"
    using short_header [OF assms(1,6,7), of junk] unfolding rec_def by blast
  have rec: "rec = b # putVarint32 t @ hdr_bytes cols @ dat @ data_bytes cols"
    unfolding rec_def record_of_def b(4) by (simp add: c)
  have g: "getVarint32 (drop 1 (rec @ junk)) = Some (t, k)"
    by (simp add: rec getVarint32_put k_def)
  have col: "column t dat v" "columns cols vs" using assms(1) c by (auto simp: columns_Cons)
  then have l: "sqlite3VdbeSerialTypeLen t = length dat" by (simp add: column_def)
  have ub: "unat b = 1 + k + length (hdr_bytes cols)" using b(2) c by (simp add: k_def)
  have n1: "drop (1 + k) (rec @ junk) = hdr_bytes cols @ dat @ data_bytes cols @ junk"
    by (simp add: rec k_def)
  have n2: "drop (unat b + length dat) (rec @ junk) = data_bytes cols @ junk"
    by (simp add: rec ub k_def)
  have n3: "length rec = unat b + length dat + length (data_bytes cols)"
    by (simp add: rec ub k_def)
  note ko = key_okD [OF assms(4)]
  obtain m ms where m: "take (nField p) (aMem p) = m # ms" using ko(1) by (cases "take (nField p) (aMem p)") auto
  then have ms: "ms \<noteq> []" "length ms = nField p - 1" "list_all cmp_ok ms" "list_all (\<lambda>c. enc_cell c = enc_key (pKeyInfo p)) ms"
    using ko(2,3,6) assms(5) by auto
  have d: "drop 1 (aMem p) = ms @ drop (nField p) (aMem p)"
    by (subst split_mem) (simp add: m)
  have kv: "tl (key_vals p) = map cell_val ms" by (simp add: key_vals_def m)
  have "nField p = 1 + length ms" using ms(2) assms(5) by simp
  from compare_loop_ok [OF col(2) assms(2) ms(1) _ ms(3,4) this ko(4,5) n1 n2 ub n3, of wide "drop (nField p) (aMem p)", folded d]
  show ?thesis
    using assms(3) n3 by (simp add: sqlite3VdbeRecordCompareWithSkip_def g b(1) l kv flip: rec_def del: drop_append One_nat_def)
qed

definition fast_key :: "unpacked \<Rightarrow> bool" where
  "fast_key p \<longleftrightarrow> key_ok p \<and> aSortFlags (pKeyInfo p) ! 0 < 2 \<and>
     r1 p = (if aSortFlags (pKeyInfo p) ! 0 \<noteq> 0 then 1 else -1) \<and> r2 p = - r1 p"

lemma fast_ok:
  assumes "columns cols vs" "list_all (\<lambda>c. fst c \<noteq> 10) cols" "length cols \<le> 13"
    and "length (data_bytes cols) \<le> SQLITE_MAX_LENGTH" "fast_key p" "nField p \<le> length cols"
    and "sgn r = sgn (val_cmp (collate (enc_key (pKeyInfo p)) (aColl (pKeyInfo p) ! 0)) (hd vs) (cell_val (aMem p ! 0)))"
    and "res = (if r < 0 then Some (r1 p, p) else if 0 < r then Some (r2 p, p)
       else if 1 < nField p
       then sqlite3VdbeRecordCompareWithSkip wide (\<lambda>t. True) (length (record_of cols)) (record_of cols @ junk) p True
       else Some (default_rc p, p\<lparr>eqSeen := True\<rparr>))"
  shows "key_result p vs res"
proof -
  have ok: "key_ok p" using assms(5) by (simp add: fast_key_def)
  then have n: "0 < nField p" by (simp add: key_ok_def Let_def)
  then obtain c cs where c: "cols = c # cs" using assms(6) by (cases cols) auto
  then obtain v vs' where v: "vs = v # vs'" using assms(1) by (auto simp: columns_Cons)
  obtain ws where w: "key_vals p = cell_val (aMem p ! 0) # ws" "length ws = nField p - 1"
    using key_vals_Cons [OF ok] by metis
  define f where "f = aSortFlags (pKeyInfo p) ! 0"
  have "unat f \<in> {0, 1}" using assms(5) by (auto simp: fast_key_def f_def word_less_nat_alt)
  then have f: "f = 0 \<and> r1 p = -1 \<and> r2 p = 1 \<or> f = 1 \<and> r1 p = 1 \<and> r2 p = -1"
    using assms(5) by (auto simp: fast_key_def f_def word_unat_eq_iff)
  show ?thesis
  proof (cases "r = 0")
    case False
    then have "sgn r \<noteq> 0" by (simp add: sgn_eq_0_iff)
    then have k: "\<exists>b. key_cmp (pKeyInfo p) 0 vs (key_vals p) e = sort_dir f b (sgn r)" for e
      using v w by (auto simp: Let_def f_def assms(7))
    obtain b where b: "key_cmp (pKeyInfo p) 0 vs (key_vals p) (default_rc p) = sort_dir f b (sgn r)" using k by blast
    obtain b' where b': "key_cmp (pKeyInfo p) 0 vs (key_vals p) 0 = sort_dir f b' (sgn r)" using k by blast
    have e: "p\<lparr>eqSeen := eqSeen p \<or> key_cmp (pKeyInfo p) 0 vs (key_vals p) 0 = 0\<rparr> = p"
      using False by (simp add: b' sort_dir_0 sgn_eq_0_iff)
    have "sgn (sort_dir f b (sgn r)) = (if r < 0 then r1 p else r2 p)"
      using f False by (auto simp: sort_dir_def KEYINFO_ORDER_DESC_def KEYINFO_ORDER_BIGNULL_def Let_def sgn_if)
    then show ?thesis using f False unfolding key_result_def e b assms(8) by auto
  next
    case True
    then have k: "key_cmp (pKeyInfo p) 0 vs (key_vals p) e = key_cmp (pKeyInfo p) 1 vs' (tl (key_vals p)) e" for e
      using v w assms(7) by simp
    show ?thesis
    proof (cases "1 < nField p")
      case nf: True
      then have "cs \<noteq> []" using assms(6) c by auto
      from CompareWithSkip_ok [OF assms(1) [unfolded c v] this assms(2) [unfolded c] ok nf
          assms(3) [unfolded c] assms(4) [unfolded c], of wide junk, folded c]
      show ?thesis unfolding key_result_def k assms(8) using True nf by simp
    next
      case nf: False
      then have "tl (key_vals p) = []" using w by simp
      then have "key_cmp (pKeyInfo p) 0 vs (key_vals p) e = e" for e unfolding k by (cases vs') auto
      then show ?thesis unfolding key_result_def assms(8) using True nf by simp
    qed
  qed
qed

lemma first_field:
  assumes "columns cols vs" "cols \<noteq> []" "list_all (\<lambda>c. fst c \<noteq> 10) cols" "length cols \<le> 13"
    and "length (data_bytes cols) \<le> SQLITE_MAX_LENGTH"
  obtains b k t dat v where "vs = v # tl vs" "column t dat v" "t \<noteq> 10"
    "rd (record_of cols @ junk) 0 = Some b" "unat b = 1 + length (hdr_bytes cols)" "b AND 0x3F = b"
    "rd (record_of cols @ junk) 1 = Some k" "ucast k = t \<or> 128 \<le> (ucast k :: u32) \<and> 128 \<le> t"
    "getVarint32 (drop 1 (record_of cols @ junk)) = Some (t, length (putVarint32 t))"
    "drop (unat b) (record_of cols @ junk) = dat @ data_bytes (tl cols) @ junk"
    "unat b + length dat \<le> length (record_of cols)"
proof -
  obtain c cs where c: "cols = c # cs" using assms(2) by (cases cols) auto
  obtain t dat where td: "c = (t, dat)" by (cases c)
  obtain v vs' where v: "vs = v # vs'" "column t dat v" using assms(1) c td by (auto simp: columns_Cons)
  obtain b where b: "rd (record_of cols @ junk) 0 = Some b" "unat b = 1 + length (hdr_bytes cols)" "b AND 0x3F = b"
    "putVarint32 (of_nat (header_size (length (hdr_bytes cols)))) = [b]"
    using short_header [OF assms(1,4,5), of junk] by blast
  have rec: "record_of cols = b # putVarint32 t @ hdr_bytes cs @ dat @ data_bytes cs"
    unfolding record_of_def b(4) by (simp add: c td)
  have d1: "drop 1 (record_of cols @ junk) = putVarint32 t @ hdr_bytes cs @ dat @ data_bytes cs @ junk"
    by (simp add: rec)
  obtain k where k: "rd (record_of cols @ junk) 1 = Some k" "ucast k = t \<or> 128 \<le> (ucast k :: u32) \<and> 128 \<le> t"
    using first_byte [OF d1] by blast
  show thesis
  proof (rule that)
    show "vs = v # tl vs" "column t dat v" using v by simp_all
    show "t \<noteq> 10" using assms(3) c td by simp
    show "getVarint32 (drop 1 (record_of cols @ junk)) = Some (t, length (putVarint32 t))"
      unfolding d1 by (rule getVarint32_put)
    show "drop (unat b) (record_of cols @ junk) = dat @ data_bytes (tl cols) @ junk"
      "unat b + length dat \<le> length (record_of cols)"
      by (simp_all add: b(2) rec [unfolded c td] c td)
  qed (fact b k)+
qed

lemma CompareInt_ok:
  assumes "columns cols vs" "list_all (\<lambda>c. fst c \<noteq> 10) cols" "length cols \<le> 13"
    and "length (data_bytes cols) \<le> SQLITE_MAX_LENGTH" "fast_key p" "nField p \<le> length cols"
    and "cell_val (aMem p ! 0) = VInt (u_i (aMem p ! 0))"
  shows "key_result p vs (vdbeRecordCompareInt wide (\<lambda>t. True) (length (record_of cols)) (record_of cols @ junk) p)"
proof -
  have ok: "key_ok p" using assms(5) by (simp add: fast_key_def)
  have ne: "cols \<noteq> []" using assms(6) ok by (auto simp: key_ok_def Let_def)
  obtain b k t dat v where f: "vs = v # tl vs" "column t dat v" "t \<noteq> 10"
    "rd (record_of cols @ junk) 0 = Some b" "b AND 0x3F = b"
    "rd (record_of cols @ junk) 1 = Some k" "ucast k = t \<or> 128 \<le> (ucast k :: u32) \<and> 128 \<le> t"
    "drop (unat b) (record_of cols @ junk) = dat @ data_bytes (tl cols) @ junk"
    using first_field [OF assms(1) ne assms(2-4), of junk] by metis
  define s where "s = (ucast k :: u32)"
  note s = column_byte [OF f(2,3,7), folded s_def]
  show ?thesis
  proof (cases "s = 0 \<or> s = 7 \<or> 10 \<le> s")
    case True
    have "vdbeRecordCompareInt wide (\<lambda>t. True) (length (record_of cols)) (record_of cols @ junk) p =
        sqlite3VdbeRecordCompare wide (\<lambda>t. True) (length (record_of cols)) (record_of cols @ junk) p"
      using True by (simp only: vdbeRecordCompareInt_def f(4,6) Option.bind.simps Let_def s_def if_True)
    then show ?thesis using RecordCompare_result [OF assms(1) ne assms(2) _ ok] assms(3) by simp
  next
    case False
    then obtain i where v: "v = VInt i" "s = t" using s by (cases v) auto
    then have i: "vdbeRecordDecodeInt t (dat @ x) = Some i" for x using f(2) by (simp add: column_def int_type_def)
    have "vdbeRecordDecodeInt 8 x = Some 0" "vdbeRecordDecodeInt 9 x = Some 1" for x
      by (simp_all add: vdbeRecordDecodeInt_def)
    then have lhs: "(if s = 8 then Some 0 else if s = 9 then Some 1 else vdbeRecordDecodeInt s (dat @ x)) = Some i" for x
      using i v(2) by (cases "s = 8"; cases "s = 9") auto
    have E: "vdbeRecordCompareInt wide (\<lambda>t. True) (length (record_of cols)) (record_of cols @ junk) p =
        (if i < u_i (aMem p ! 0) then Some (r1 p, p) else if u_i (aMem p ! 0) < i then Some (r2 p, p)
         else if 1 < nField p
         then sqlite3VdbeRecordCompareWithSkip wide (\<lambda>t. True) (length (record_of cols)) (record_of cols @ junk) p True
         else Some (default_rc p, p\<lparr>eqSeen := True\<rparr>))"
      using False by (simp only: vdbeRecordCompareInt_def f(4-6,8) Option.bind.simps Let_def s_def [symmetric] if_False lhs)
    show ?thesis
    proof (rule fast_ok [OF assms(1-6), of "cmp_int i (u_i (aMem p ! 0))" _ wide junk])
      show "sgn (cmp_int i (u_i (aMem p ! 0))) =
          sgn (val_cmp (collate (enc_key (pKeyInfo p)) (aColl (pKeyInfo p) ! 0)) (hd vs) (cell_val (aMem p ! 0)))"
        unfolding assms(7) by (subst f(1)) (simp add: v cmp_int_scaled)
    qed (simp add: E cmp_int_def)
  qed
qed

lemma rd_drop: "rd (drop 1 xs) 0 = rd xs 1"
  by (auto simp: rd_def)

lemma getVarint32_first:
  "rd x 0 = Some k \<Longrightarrow> getVarint32 x = (if 0x80 \<le> k then sqlite3GetVarint32 x else Some (ucast k, 1))"
  by (auto simp: getVarint32_def)

lemma sint_type: "column t d v \<Longrightarrow> sint t = int (unat t)"
proof -
  assume "column t d v"
  then have "unat t \<le> 10 \<or> unat t \<le> 2 * length d + 13 \<and> length d \<le> SQLITE_MAX_LENGTH"
    by (cases v) (auto simp: column_def int_type_def word_less_nat_alt)
  then have "unat t \<le> 2 * SQLITE_MAX_LENGTH + 13" by linarith
  then have "unat t < 2 ^ 31" by (rule le_less_trans) (simp add: SQLITE_MAX_LENGTH_def)
  then have "int (unat t) < int (2 ^ 31)" by (simp only: of_nat_less_iff)
  then have u: "uint t < 2 ^ 31" unfolding uint_nat by simp
  have "sint t = signed_take_bit 31 (uint t)" by (simp add: sint_uint)
  also have "signed_take_bit 31 (uint t) = uint t"
    by (rule signed_take_bit_int_eq_self) (use u in \<open>simp_all add: order_trans [OF _ uint_ge_0]\<close>)
  finally show ?thesis unfolding uint_nat .
qed

lemma CompareString_ok:
  assumes "columns cols vs" "list_all (\<lambda>c. fst c \<noteq> 10) cols" "length cols \<le> 13"
    and "length (data_bytes cols) \<le> SQLITE_MAX_LENGTH" "fast_key p" "nField p \<le> length cols"
    and "cell_val (aMem p ! 0) = VText (ztext (aMem p ! 0))" "ncell (aMem p ! 0) \<le> length (zcell (aMem p ! 0))"
    and "aColl (pKeyInfo p) ! 0 = None"
  shows "key_result p vs (vdbeRecordCompareString wide (\<lambda>t. True) (length (record_of cols)) (record_of cols @ junk) p)"
proof -
  define m where "m = aMem p ! 0"
  have ok: "key_ok p" using assms(5) by (simp add: fast_key_def)
  have ne: "cols \<noteq> []" using assms(6) ok by (auto simp: key_ok_def Let_def)
  obtain b k t dat v where f: "vs = v # tl vs" "column t dat v" "t \<noteq> 10"
    "rd (record_of cols @ junk) 0 = Some b" "rd (record_of cols @ junk) 1 = Some k"
    "getVarint32 (drop 1 (record_of cols @ junk)) = Some (t, length (putVarint32 t))"
    "drop (unat b) (record_of cols @ junk) = dat @ data_bytes (tl cols) @ junk"
    "unat b + length dat \<le> length (record_of cols)"
    using first_field [OF assms(1) ne assms(2-4), of junk] by metis
  have "rd (drop 1 (record_of cols @ junk)) 0 = Some k" using f(5) by (simp only: rd_drop)
  then obtain l where g: "(if 0x80 \<le> k then sqlite3GetVarint32 (drop 1 (record_of cols @ junk)) else Some (ucast k, 1)) = Some (t, l)"
    using f(6) getVarint32_first by metis
  define res where "res = vdbeRecordCompareString wide (\<lambda>t. True) (length (record_of cols)) (record_of cols @ junk) p"
  have E: "res =
     (if sint t < 12 then Some (r1 p, p) else if \<not> bit (sint t) 0 then Some (r2 p, p)
      else let nStr = nat ((sint t - 12) div 2) in
        if length (record_of cols) < unat b + nStr then Some (0, p\<lparr>errCode := SQLITE_CORRUPT\<rparr>)
        else let nCmp = min (ncell m) nStr; res = memcmp (take nCmp (dat @ data_bytes (tl cols) @ junk)) (take nCmp (zcell m))
         in if 0 < res then Some (r2 p, p) else if res < 0 then Some (r1 p, p)
            else let res = int nStr - int (ncell m) in
              if res = 0 then
                if 1 < nField p
                then sqlite3VdbeRecordCompareWithSkip wide (\<lambda>t. True) (length (record_of cols)) (record_of cols @ junk) p True
                else Some (default_rc p, p\<lparr>eqSeen := True\<rparr>)
              else if 0 < res then Some (r2 p, p) else Some (r1 p, p))"
    by (simp only: res_def vdbeRecordCompareString_def f(4,5) g Option.bind.simps Let_def prod.case f(7) m_def)
  define r where "r = val_cmp binCollFunc v (VText (ztext m))"
  have F: "res = (if r < 0 then Some (r1 p, p) else if 0 < r then Some (r2 p, p)
       else if 1 < nField p
       then sqlite3VdbeRecordCompareWithSkip wide (\<lambda>t. True) (length (record_of cols)) (record_of cols @ junk) p True
       else Some (default_rc p, p\<lparr>eqSeen := True\<rparr>))"
  proof (cases v)
    case (VText x)
    then have x: "dat = x" "unat t = 2 * length x + 13" using f(2) by (simp_all add: column_def)
    have s: "sint t = 2 * int (length x) + 13" using sint_type [OF f(2)] x by simp
    have n: "min (ncell m) (length x) \<le> length (zcell m)" using assms(8) by (simp add: m_def)
    have e: "nat ((sint t - 12) div 2) = length x" "bit (sint t) 0" "\<not> sint t < 12" by (simp_all add: s bit_0)
    have r: "r = (let rc = memcmp (take (min (ncell m) (length x)) x) (take (min (ncell m) (length x)) (zcell m))
        in if rc = 0 then int (length x) - int (ncell m) else rc)"
      using assms(8) by (auto simp: r_def VText binCollFunc_def Let_def ztext_def m_def min_def)
    show ?thesis using f(8) unfolding E r by (auto simp: e x(1) Let_def)
  next
    case (VBlob x)
    then have x: "unat t = 2 * length x + 12" using f(2) by (simp add: column_def)
    have "sint t = 2 * int (length x) + 12" using sint_type [OF f(2)] x by simp
    then show ?thesis unfolding E by (simp add: bit_0 r_def VBlob)
  next
    case VNull
    then have "unat t < 12" using type_small(1) [OF f(2,3)] by (simp add: word_less_nat_alt)
    then have "sint t < 12" using sint_type [OF f(2)] by linarith
    then show ?thesis unfolding E by (simp add: r_def VNull)
  next
    case (VInt i)
    then have "unat t < 12" using type_small(1) [OF f(2,3)] by (simp add: word_less_nat_alt)
    then have "sint t < 12" using sint_type [OF f(2)] by linarith
    then show ?thesis unfolding E by (simp add: r_def VInt)
  next
    case (VReal i)
    then have "unat t < 12" using type_small(1) [OF f(2,3)] by (simp add: word_less_nat_alt)
    then have "sint t < 12" using sint_type [OF f(2)] by linarith
    then show ?thesis unfolding E by (simp add: r_def VReal)
  qed
  show ?thesis
    unfolding res_def [symmetric]
  proof (rule fast_ok [OF assms(1-6) _ F])
    show "sgn r = sgn (val_cmp (collate (enc_key (pKeyInfo p)) (aColl (pKeyInfo p) ! 0)) (hd vs) (cell_val (aMem p ! 0)))"
      unfolding assms(7) by (subst f(1)) (simp add: r_def assms(9) collate_def [abs_def] m_def)
  qed
qed

subsection \<open>The choice of the comparator\<close>

lemma FindCompare_result:
  assumes "columns cols vs" "list_all (\<lambda>c. fst c \<noteq> 10) cols" "length cols \<le> nAllField (pKeyInfo p)"
    and "length (data_bytes cols) \<le> SQLITE_MAX_LENGTH" "length cols \<le> 32767" "key_ok p" "nField p \<le> length cols"
    and "sqlite3VdbeFindCompare p = (c, p')"
  shows "key_result p' vs (run_comparator c wide (\<lambda>t. True) (length (record_of cols)) (record_of cols @ junk) p') \<and>
    pKeyInfo p' = pKeyInfo p \<and> key_vals p' = key_vals p \<and> default_rc p' = default_rc p \<and>
    eqSeen p' = eqSeen p \<and> errCode p' = errCode p"
proof -
  define f where "f = aSortFlags (pKeyInfo p) ! 0"
  define p1 where "p1 = (if f \<noteq> 0 then p\<lparr>r1 := 1, r2 := -1\<rparr> else p\<lparr>r1 := -1, r2 := 1\<rparr>)"
  have same: "pKeyInfo p1 = pKeyInfo p \<and> aMem p1 = aMem p \<and> nField p1 = nField p \<and> default_rc p1 = default_rc p \<and>
      eqSeen p1 = eqSeen p \<and> errCode p1 = errCode p" by (simp add: p1_def)
  have E: "sqlite3VdbeFindCompare p =
    (if nAllField (pKeyInfo p) \<le> 13 then
       if f \<noteq> 0 \<and> f AND KEYINFO_ORDER_BIGNULL \<noteq> 0 then (RecordCompare, p)
       else if has (flags (aMem p ! 0)) MEM_Int then (RecordCompareInt, p1)
       else if \<not> has (flags (aMem p ! 0)) (MEM_Real OR MEM_IntReal OR MEM_Null OR MEM_Blob) \<and> aColl (pKeyInfo p1) ! 0 = None
       then (RecordCompareString, p1) else (RecordCompare, p1)
     else (RecordCompare, p))"
    by (simp only: sqlite3VdbeFindCompare_def f_def p1_def Let_def)
  have ok: "key_ok p1" "key_vals p1 = key_vals p" using assms(6) same by (simp_all add: key_ok_def key_vals_def)
  have ne: "cols \<noteq> []" and n: "0 < nField p" using assms(6,7) by (auto simp: key_ok_def Let_def)
  have slow: "key_result q vs (sqlite3VdbeRecordCompare wide (\<lambda>t. True) (length (record_of cols)) (record_of cols @ junk) q)"
    if "key_ok q" for q by (rule RecordCompare_result [OF assms(1) ne assms(2,5) that])
  show ?thesis
  proof (cases "c = RecordCompare")
    case True
    then have "p' = p \<or> p' = p1"
      using assms(8) by (simp add: E split: if_splits)
    then show ?thesis
      by (rule disjE) (simp_all add: slow [OF assms(6)] slow [OF ok(1)] ok(2) same True)
  next
    case False
    then have F: "nAllField (pKeyInfo p) \<le> 13" "f = 0 \<or> f AND KEYINFO_ORDER_BIGNULL = 0" "p' = p1"
      "c = (if has (flags (aMem p ! 0)) MEM_Int then RecordCompareInt else RecordCompareString)"
      "has (flags (aMem p ! 0)) MEM_Int \<or> \<not> has (flags (aMem p ! 0)) (MEM_Real OR MEM_IntReal OR MEM_Null OR MEM_Blob) \<and>
        aColl (pKeyInfo p) ! 0 = None"
      using assms(8) by (auto simp: E same split: if_splits)
    have f4: "unat f < 4"
      using key_okD(5) [OF assms(6)] key_okD(4) [OF assms(6)] n by (simp add: f_def word_less_nat_alt)
    then have "unat f \<in> {0, 1, 2, 3}" by auto
    then have "f \<in> {0, 1, 2, 3}" by (auto simp: word_unat_eq_iff)
    with F(2) have "f < 2" by (auto simp: KEYINFO_ORDER_BIGNULL_def)
    then have fast: "fast_key p1" using ok(1) by (auto simp: fast_key_def p1_def f_def)
    have "cmp_ok (aMem p1 ! 0)" by (rule key_vals_Cons [OF ok(1)])
    then have mem: "cell_ok (aMem p1 ! 0)" by (simp add: cmp_ok_def)
    have l: "length cols \<le> 13" "nField p1 \<le> length cols" using assms(3,7) F(1) same by simp_all
    have "key_result p1 vs (run_comparator c wide (\<lambda>t. True) (length (record_of cols)) (record_of cols @ junk) p1)"
    proof (cases "has (flags (aMem p ! 0)) MEM_Int")
      case True
      then have "cell_val (aMem p1 ! 0) = VInt (u_i (aMem p1 ! 0))"
        using same by (cases rule: cell_val_cases [OF mem]) (auto simp: has_simps)
      then show ?thesis
        using CompareInt_ok [OF assms(1,2) l(1) assms(4) fast l(2), of wide junk] F(4) True by simp
    next
      case no: False
      then have "\<not> has (flags (aMem p1 ! 0)) (MEM_Int OR MEM_Real OR MEM_IntReal OR MEM_Null OR MEM_Blob)"
        and coll: "aColl (pKeyInfo p1) ! 0 = None"
        using F(5) same by (auto simp: has_or)
      then have "cell_val (aMem p1 ! 0) = VText (ztext (aMem p1 ! 0)) \<and> ncell (aMem p1 ! 0) \<le> length (zcell (aMem p1 ! 0))"
        by (cases rule: cell_val_cases [OF mem]) (auto simp: has_simps)
      then show ?thesis
        using CompareString_ok [OF assms(1,2) l(1) assms(4) fast l(2) _ _ coll, of wide junk] F(4) no by simp
    qed
    then show ?thesis by (simp add: F(3) same ok)
  qed
qed

definition nochng :: "cell \<Rightarrow> bool" where
  "nochng c \<longleftrightarrow> has (flags c) MEM_Null \<and> has (flags c) MEM_Zero"

lemma ser_type_10:
  assumes "cell_ok c" "\<not> nochng c" shows "ser_type ff c \<noteq> 10"
proof
  assume t: "ser_type ff c = 10"
  have "column 10 (ser_data ff c) (stored_val ff c)" using ser_column [OF assms(1), of ff] by (simp add: t)
  then have "stored_val ff c = VNull"
    by (cases "stored_val ff c") (auto simp: column_def int_type_def word_less_nat_alt word_le_nat_alt)
  then have "has (flags c) MEM_Null"
    by (cases rule: cell_val_cases [OF assms(1)]) (auto simp: stored_val_def has_simps split: if_splits)
  then show False using t assms(2) by (simp add: ser_type_def nochng_def)
qed

text \<open>
  C28. A record that \<open>OP_MakeRecord\<close> made is ordered by the values it was made of: compared with a key
  that is taken apart, the result has the sign that the values give, column by column, each column
  with its collating sequence and its sort flags, and \<open>default_rc\<close> when one side runs out of columns.
  \<open>eqSeen\<close> is set exactly when that happens, no error is reported, and the debugging comparison
  \<open>vdbeRecordCompareDebug\<close>, which the source runs in an assertion, agrees.
\<close>

theorem RecordCompare_orders_records:
  assumes "OP_MakeRecord mok fresh ff limit zMalloc pOut regs = Made out"
    and "list_all cell_ok regs" "length regs \<le> 32767" "\<forall>n z. fresh n = Some z \<longrightarrow> n \<le> length z"
    and "limit \<le> SQLITE_MAX_LENGTH" "length zMalloc < 2 ^ 31"
    and "regs \<noteq> []" "list_all (\<lambda>c. \<not> nochng c) regs" "key_ok p"
  shows "\<exists>rc. sqlite3VdbeRecordCompare wide (\<lambda>t. True) (length (blob_bytes out)) (blob_bytes out @ junk) p =
      Some (rc, p\<lparr>eqSeen := eqSeen p \<or> key_cmp (pKeyInfo p) 0 (map (stored_val ff) regs) (key_vals p) 0 = 0\<rparr>) \<and>
    sgn rc = sgn (key_cmp (pKeyInfo p) 0 (map (stored_val ff) regs) (key_vals p) (default_rc p)) \<and>
    vdbeRecordCompareDebug wide (\<lambda>t. True) (length (blob_bytes out)) (blob_bytes out @ junk) p rc = Some True"
proof -
  define cols where "cols = map (to_col ff) regs"
  have z: "blob_bytes out = record_of cols"
    using MakeRecord_ok [OF assms(2-6), of mok ff pOut] by (simp add: assms(1) made_ok_def cols_def)
  have c: "columns cols (map (stored_val ff) regs)" "cols \<noteq> []" "length cols \<le> 32767"
    using to_col_columns [OF assms(2)] assms(3,7) by (simp_all add: cols_def)
  have t: "list_all (\<lambda>c. fst c \<noteq> 10) cols"
    using assms(2,8) by (auto simp: cols_def list_all_iff to_col_def ser_type_10)
  show ?thesis
    unfolding z using RecordCompare_ok [OF c(1,2) t c(3) assms(9), of wide junk]
      RecordCompareDebug_ok [OF c assms(9), of _ wide junk] by blast
qed

text \<open>
  C29. The comparator that \<open>sqlite3VdbeFindCompare\<close> chooses gives the answer of the general one: for an
  index of at most 13 columns whose key begins with an integer or a binary text, the fast
  comparisons have the sign of \<open>sqlite3VdbeRecordCompare\<close>, set \<open>eqSeen\<close> alike and report no error,
  for every record of the index that is within the length limit; its header then fits in the 63
  bytes they assume.
\<close>

theorem FindCompare_agrees:
  assumes "list_all cell_ok regs" "list_all (\<lambda>c. \<not> nochng c) regs"
    and "length regs \<le> nAllField (pKeyInfo p)" "nAllField (pKeyInfo p) \<le> 32767" "nField p \<le> length regs"
    and "length (record_of (map (to_col ff) regs)) \<le> SQLITE_MAX_LENGTH" "key_ok p"
    and "z = record_of (map (to_col ff) regs)"
  shows "case sqlite3VdbeFindCompare p of (compare, p') \<Rightarrow>
    (\<exists>rc rc' seen.
       run_comparator compare wide (\<lambda>t. True) (length z) (z @ junk) p' = Some (rc, p'\<lparr>eqSeen := seen\<rparr>) \<and>
       sqlite3VdbeRecordCompare wide (\<lambda>t. True) (length z) (z @ junk) p = Some (rc', p\<lparr>eqSeen := seen\<rparr>) \<and>
       sgn rc = sgn rc' \<and> errCode p' = errCode p)"
proof -
  define cols where "cols = map (to_col ff) regs"
  obtain c p' where f: "sqlite3VdbeFindCompare p = (c, p')" by (cases "sqlite3VdbeFindCompare p")
  have c: "columns cols (map (stored_val ff) regs)"
    using to_col_columns [OF assms(1)] by (simp add: cols_def)
  have t: "list_all (\<lambda>c. fst c \<noteq> 10) cols"
    using assms(1,2) by (auto simp: cols_def list_all_iff to_col_def ser_type_10)
  have l: "length cols \<le> nAllField (pKeyInfo p)" "length (data_bytes cols) \<le> SQLITE_MAX_LENGTH"
    "length cols \<le> 32767" "nField p \<le> length cols"
    using assms(3-6) by (simp_all add: record_of_def cols_def)
  have ne: "cols \<noteq> []" using assms(7) l(4) by (auto simp: key_ok_def Let_def)
  from FindCompare_result [OF c t l(1,2,3) assms(7) l(4) f, of wide junk]
    RecordCompare_result [OF c ne t l(3) assms(7), of wide junk]
  show ?thesis unfolding f assms(8) cols_def [symmetric] by (auto simp: key_result_def)
qed

subsection \<open>The rowid and sample data\<close>

lemma bytes_append: "hdr_bytes (a @ b) = hdr_bytes a @ hdr_bytes b" "data_bytes (a @ b) = data_bytes a @ data_bytes b"
  by (simp_all add: hdr_bytes_def data_bytes_def)

lemma small_type_len: "0 < t \<Longrightarrow> t < 10 \<Longrightarrow> sqlite3SmallTypeSizes ! unat t = sqlite3VdbeSerialTypeLen t"
  by (auto simp: sqlite3VdbeSerialTypeLen_def word_le_nat_alt word_less_nat_alt)

lemma IdxRowid_columns:
  assumes "columns (cols @ [(t, d)]) vs" "cols \<noteq> []" "length cols < 32767" "unat t < 128"
  shows "sqlite3VdbeIdxRowid (Inr (record_of (cols @ [(t, d)]))) =
    Some (case last vs of VInt i \<Rightarrow> Inr i | _ \<Rightarrow> Inl SQLITE_CORRUPT)"
proof -
  define z where "z = record_of (cols @ [(t, d)])"
  obtain h where h: "h = length (putVarint32 (of_nat (header_size (length (hdr_bytes (cols @ [(t, d)]))))))"
    "getVarint32 z = Some (of_nat (header_size (length (hdr_bytes (cols @ [(t, d)])))), h)"
    "unat (of_nat (header_size (length (hdr_bytes (cols @ [(t, d)])))) :: u32) = h + length (hdr_bytes (cols @ [(t, d)]))"
    "drop h z = hdr_bytes (cols @ [(t, d)]) @ data_bytes (cols @ [(t, d)])"
    "length z = h + length (hdr_bytes (cols @ [(t, d)])) + length (data_bytes (cols @ [(t, d)]))"
    unfolding z_def by (rule record_header [of "cols @ [(t, d)]" "[]"]) (use assms(3) in auto)
  have h0: "0 < h" unfolding h(1) by (rule putVarint32_bounds)
  define k where "k = h + length (hdr_bytes cols)"
  have p: "putVarint32 t = [ucast t]" using assms(4) by (rule putVarint32_one)
  have k: "h + length (hdr_bytes (cols @ [(t, d)])) = Suc k" by (simp add: bytes_append p k_def)
  have "0 < length (hdr_bytes cols)" using length_hdr(1) [of cols] assms(2) by (cases cols) auto
  then have k2: "2 \<le> k" using h0 unfolding k_def by linarith
  have len: "length z = Suc k + length (data_bytes cols) + length d"
    unfolding h(5) k by (simp add: bytes_append)
  have dk: "drop k z = putVarint32 t @ data_bytes cols @ d"
    unfolding k_def drop_plus h(4) by (simp add: bytes_append)
  have g: "getVarint32 (drop k z) = Some (t, 1)"
    unfolding dk using getVarint32_put [of t "data_bytes cols @ d"] by (simp add: p)
  have dd: "drop (length z - length d) z = d"
  proof -
    have "length z - length d = k + Suc (length (data_bytes cols))" using len by simp
    then show ?thesis unfolding drop_plus [of k] by (simp only: drop_plus dk) (simp add: p)
  qed
  have "list_all2 (\<lambda>(t, d) v. column t d v) (cols @ [(t, d)]) vs" using assms(1) by (simp add: columns_def)
  then obtain us v where v: "vs = us @ [v]" "column t d v"
    by (auto simp: list_all2_append1 list_all2_Cons1)
  have E: "sqlite3VdbeIdxRowid (Inr z) =
      (if t < 1 \<or> 9 < t \<or> t = 7 then Some (Inl SQLITE_CORRUPT)
       else let lenRowid = sqlite3SmallTypeSizes ! unat t in
         if length z < Suc k + lenRowid then Some (Inl SQLITE_CORRUPT)
         else do { (v, l) \<leftarrow> sqlite3VdbeSerialGet (drop (length z - lenRowid) z) t (mem1 SQLITE_UTF8); Some (Inr (u_i v)) })"
    using k2 len by (simp add: sqlite3VdbeIdxRowid_def h(2,3) k g)
  have bad: "t < 1 \<or> 9 < t \<or> t = 7" if "\<forall>i. v \<noteq> VInt i"
    using that v(2) by (cases v) (auto simp: column_def word_less_nat_alt)
  show ?thesis
  proof (cases v)
    case (VInt i)
    then have it: "int_type t i d" using v(2) by (simp add: column_def)
    then have t: "\<not> (t < 1 \<or> 9 < t \<or> t = 7)" "i64_ok i" "0 < t" "t < 10" "sqlite3VdbeSerialTypeLen t = length d"
      by (auto simp: int_type_def word_less_nat_alt)
    have "sqlite3VdbeSerialGet (d @ []) t (mem1 SQLITE_UTF8) = Some (set_int (mem1 SQLITE_UTF8) i, length d)"
      using it unfolding int_type_def by blast
    then have get: "sqlite3VdbeSerialGet d t (mem1 SQLITE_UTF8) = Some (set_int (mem1 SQLITE_UTF8) i, length d)"
      by simp
    have l: "sqlite3SmallTypeSizes ! unat t = length d" using small_type_len [OF t(3,4)] t(5) by simp
    show ?thesis unfolding z_def [symmetric] E
      using t len get dd by (simp add: v(1) VInt l u_i_set_int)
  qed (use bad v(1) in \<open>simp_all add: z_def [symmetric] E\<close>)
qed

text \<open>
  C30. \<open>sqlite3VdbeIdxRowid\<close> finds the rowid of an index entry: of a record whose last column is an
  integer it returns that integer, and of one that ends in NULL, a real, or a text or blob short
  enough for a one-byte serial type it reports \<open>SQLITE_CORRUPT\<close>.
\<close>

theorem IdxRowid_of_entry:
  assumes "list_all cell_ok (regs @ [r])" "regs \<noteq> []" "length regs < 32767"
    and "\<And>s. stored_val ff r = VText s \<or> stored_val ff r = VBlob s \<Longrightarrow> length s < 58"
  shows "sqlite3VdbeIdxRowid (Inr (record_of (map (to_col ff) (regs @ [r])))) =
    Some (case stored_val ff r of VInt i \<Rightarrow> Inr i | _ \<Rightarrow> Inl SQLITE_CORRUPT)"
proof -
  have c: "columns (map (to_col ff) regs @ [(ser_type ff r, ser_data ff r)]) (map (stored_val ff) (regs @ [r]))"
    using to_col_columns [OF assms(1), of ff] by (simp add: to_col_def)
  have "column (ser_type ff r) (ser_data ff r) (stored_val ff r)" using assms(1) by (simp add: ser_column)
  then have "unat (ser_type ff r) < 128"
    using assms(4) by (cases "stored_val ff r") (auto simp: column_def int_type_def word_less_nat_alt)
  from IdxRowid_columns [OF c _ _ this] assms(2,3) show ?thesis by (simp add: to_col_def)
qed

theorem IdxRowid_of_entry_witness:
  "sqlite3VdbeIdxRowid (Inr (record_of (map (to_col 4) ([text_cell [0x61, 0x42]] @ [int_cell (- 7)])))) = Some (Inr (- 7))"
  using IdxRowid_of_entry [of "[text_cell [0x61, 0x42]]" "int_cell (- 7)" 4] sample_cells
  by (simp add: cmp_ok_def stored_val_def cell_val_def int_to_real_def has_def int_cell_def u_i_def
      MEM_Int_def MEM_Null_def MEM_IntReal_def)

lemma sample_key_ok: "key_ok sample_key"
  using sample_cells
  by (simp add: key_ok_def sample_key_def sample_regs_def Let_def int_cell_def real_cell_def text_cell_def)

lemma sample_chng: "list_all (\<lambda>c. \<not> nochng c) sample_regs"
  by (simp add: sample_regs_def nochng_def has_def int_cell_def real_cell_def text_cell_def
      MEM_Null_def MEM_Int_def MEM_Real_def MEM_Str_def)

lemma sample_len: "length (record_of (map (to_col 4) sample_regs)) \<le> 1000" by code_simp

theorem RecordCompare_orders_records_witness:
  "\<exists>out rc p'. OP_MakeRecord (\<lambda>n. True) (\<lambda>n. Some (replicate n 0x97)) 4 1000 [] (int_cell 0) sample_regs = Made out \<and>
    sqlite3VdbeRecordCompare True (\<lambda>t. True) (length (blob_bytes out)) (blob_bytes out @ []) sample_key = Some (rc, p')"
proof -
  have ok: "list_all cell_ok sample_regs" using sample_cells by (simp add: sample_regs_def cmp_ok_def)
  have f: "\<forall>n z. Some (replicate n 0x97) = Some z \<longrightarrow> n \<le> length z" by auto
  have c: "(1000::nat) \<le> SQLITE_MAX_LENGTH" "length ([] :: u8 list) < 2 ^ 31" "length sample_regs \<le> 32767" "sample_regs \<noteq> []"
    by (simp_all add: SQLITE_MAX_LENGTH_def sample_regs_def)
  obtain out where o: "OP_MakeRecord (\<lambda>n. True) (\<lambda>n. Some (replicate n 0x97)) 4 1000 [] (int_cell 0) sample_regs = Made out"
    using MakeRecord_ok [OF ok c(3) f c(1,2), of "\<lambda>n. True" 4 "int_cell 0"] sample_len
    by (auto simp: made_ok_def split: made.splits)
  show ?thesis
    using RecordCompare_orders_records [OF o ok c(3) f c(1,2,4) sample_chng sample_key_ok, of True "[]"] o by blast
qed

theorem FindCompare_agrees_witness:
  "case sqlite3VdbeFindCompare sample_key of (compare, p') \<Rightarrow>
    (\<exists>rc q. run_comparator compare True (\<lambda>t. True) (length (record_of (map (to_col 4) sample_regs)))
       (record_of (map (to_col 4) sample_regs) @ []) p' = Some (rc, q))"
proof -
  have ok: "list_all cell_ok sample_regs" using sample_cells by (simp add: sample_regs_def cmp_ok_def)
  have n: "length sample_regs \<le> nAllField (pKeyInfo sample_key)" "nAllField (pKeyInfo sample_key) \<le> 32767"
    "nField sample_key \<le> length sample_regs"
    by (simp_all add: sample_key_def sample_regs_def)
  have l: "length (record_of (map (to_col 4) sample_regs)) \<le> SQLITE_MAX_LENGTH"
    using sample_len by (simp add: SQLITE_MAX_LENGTH_def)
  show ?thesis
    using FindCompare_agrees [OF ok sample_chng n l sample_key_ok refl, of True "[]"] by auto
qed

end
