(* ===== verification/SqlKeyword.thy ===== *)
theory SqlKeyword
  imports SqlComplete
begin

section \<open>The keywords of SQL (keywordhash.h)\<close>

text \<open>
  \<open>keywordCode\<close> finds out with a hash table over the first and the last letter and the length whether
  a word is a keyword; the tables are those of the generated \<open>keywordhash.h\<close>, the token codes those of
  \<open>parse.h\<close>. It is proved against the plain list of the 147 keywords.
\<close>

subsection \<open>Token codes and the keyword table\<close>

definition TK_SEMI :: nat where "TK_SEMI = 1"
definition TK_EXPLAIN :: nat where "TK_EXPLAIN = 2"
definition TK_QUERY :: nat where "TK_QUERY = 3"
definition TK_PLAN :: nat where "TK_PLAN = 4"
definition TK_BEGIN :: nat where "TK_BEGIN = 5"
definition TK_TRANSACTION :: nat where "TK_TRANSACTION = 6"
definition TK_DEFERRED :: nat where "TK_DEFERRED = 7"
definition TK_IMMEDIATE :: nat where "TK_IMMEDIATE = 8"
definition TK_EXCLUSIVE :: nat where "TK_EXCLUSIVE = 9"
definition TK_COMMIT :: nat where "TK_COMMIT = 10"
definition TK_END :: nat where "TK_END = 11"
definition TK_ROLLBACK :: nat where "TK_ROLLBACK = 12"
definition TK_SAVEPOINT :: nat where "TK_SAVEPOINT = 13"
definition TK_RELEASE :: nat where "TK_RELEASE = 14"
definition TK_TO :: nat where "TK_TO = 15"
definition TK_TABLE :: nat where "TK_TABLE = 16"
definition TK_CREATE :: nat where "TK_CREATE = 17"
definition TK_IF :: nat where "TK_IF = 18"
definition TK_NOT :: nat where "TK_NOT = 19"
definition TK_EXISTS :: nat where "TK_EXISTS = 20"
definition TK_TEMP :: nat where "TK_TEMP = 21"
definition TK_LP :: nat where "TK_LP = 22"
definition TK_RP :: nat where "TK_RP = 23"
definition TK_AS :: nat where "TK_AS = 24"
definition TK_WITHOUT :: nat where "TK_WITHOUT = 25"
definition TK_COMMA :: nat where "TK_COMMA = 26"
definition TK_ABORT :: nat where "TK_ABORT = 27"
definition TK_ACTION :: nat where "TK_ACTION = 28"
definition TK_AFTER :: nat where "TK_AFTER = 29"
definition TK_ANALYZE :: nat where "TK_ANALYZE = 30"
definition TK_ASC :: nat where "TK_ASC = 31"
definition TK_ATTACH :: nat where "TK_ATTACH = 32"
definition TK_BEFORE :: nat where "TK_BEFORE = 33"
definition TK_BY :: nat where "TK_BY = 34"
definition TK_CASCADE :: nat where "TK_CASCADE = 35"
definition TK_CAST :: nat where "TK_CAST = 36"
definition TK_CONFLICT :: nat where "TK_CONFLICT = 37"
definition TK_DATABASE :: nat where "TK_DATABASE = 38"
definition TK_DESC :: nat where "TK_DESC = 39"
definition TK_DETACH :: nat where "TK_DETACH = 40"
definition TK_EACH :: nat where "TK_EACH = 41"
definition TK_FAIL :: nat where "TK_FAIL = 42"
definition TK_OR :: nat where "TK_OR = 43"
definition TK_AND :: nat where "TK_AND = 44"
definition TK_IS :: nat where "TK_IS = 45"
definition TK_MATCH :: nat where "TK_MATCH = 46"
definition TK_LIKE_KW :: nat where "TK_LIKE_KW = 47"
definition TK_BETWEEN :: nat where "TK_BETWEEN = 48"
definition TK_IN :: nat where "TK_IN = 49"
definition TK_ISNULL :: nat where "TK_ISNULL = 50"
definition TK_NOTNULL :: nat where "TK_NOTNULL = 51"
definition TK_NE :: nat where "TK_NE = 52"
definition TK_EQ :: nat where "TK_EQ = 53"
definition TK_GT :: nat where "TK_GT = 54"
definition TK_LE :: nat where "TK_LE = 55"
definition TK_LT :: nat where "TK_LT = 56"
definition TK_GE :: nat where "TK_GE = 57"
definition TK_ESCAPE :: nat where "TK_ESCAPE = 58"
definition TK_ID :: nat where "TK_ID = 59"
definition TK_COLUMNKW :: nat where "TK_COLUMNKW = 60"
definition TK_DO :: nat where "TK_DO = 61"
definition TK_FOR :: nat where "TK_FOR = 62"
definition TK_IGNORE :: nat where "TK_IGNORE = 63"
definition TK_INITIALLY :: nat where "TK_INITIALLY = 64"
definition TK_INSTEAD :: nat where "TK_INSTEAD = 65"
definition TK_NO :: nat where "TK_NO = 66"
definition TK_KEY :: nat where "TK_KEY = 67"
definition TK_OF :: nat where "TK_OF = 68"
definition TK_OFFSET :: nat where "TK_OFFSET = 69"
definition TK_PRAGMA :: nat where "TK_PRAGMA = 70"
definition TK_RAISE :: nat where "TK_RAISE = 71"
definition TK_RECURSIVE :: nat where "TK_RECURSIVE = 72"
definition TK_REPLACE :: nat where "TK_REPLACE = 73"
definition TK_RESTRICT :: nat where "TK_RESTRICT = 74"
definition TK_ROW :: nat where "TK_ROW = 75"
definition TK_ROWS :: nat where "TK_ROWS = 76"
definition TK_TRIGGER :: nat where "TK_TRIGGER = 77"
definition TK_VACUUM :: nat where "TK_VACUUM = 78"
definition TK_VIEW :: nat where "TK_VIEW = 79"
definition TK_VIRTUAL :: nat where "TK_VIRTUAL = 80"
definition TK_WITH :: nat where "TK_WITH = 81"
definition TK_NULLS :: nat where "TK_NULLS = 82"
definition TK_FIRST :: nat where "TK_FIRST = 83"
definition TK_LAST :: nat where "TK_LAST = 84"
definition TK_CURRENT :: nat where "TK_CURRENT = 85"
definition TK_FOLLOWING :: nat where "TK_FOLLOWING = 86"
definition TK_PARTITION :: nat where "TK_PARTITION = 87"
definition TK_PRECEDING :: nat where "TK_PRECEDING = 88"
definition TK_RANGE :: nat where "TK_RANGE = 89"
definition TK_UNBOUNDED :: nat where "TK_UNBOUNDED = 90"
definition TK_EXCLUDE :: nat where "TK_EXCLUDE = 91"
definition TK_GROUPS :: nat where "TK_GROUPS = 92"
definition TK_OTHERS :: nat where "TK_OTHERS = 93"
definition TK_TIES :: nat where "TK_TIES = 94"
definition TK_GENERATED :: nat where "TK_GENERATED = 95"
definition TK_ALWAYS :: nat where "TK_ALWAYS = 96"
definition TK_MATERIALIZED :: nat where "TK_MATERIALIZED = 97"
definition TK_REINDEX :: nat where "TK_REINDEX = 98"
definition TK_RENAME :: nat where "TK_RENAME = 99"
definition TK_CTIME_KW :: nat where "TK_CTIME_KW = 100"
definition TK_BITAND :: nat where "TK_BITAND = 102"
definition TK_BITOR :: nat where "TK_BITOR = 103"
definition TK_LSHIFT :: nat where "TK_LSHIFT = 104"
definition TK_RSHIFT :: nat where "TK_RSHIFT = 105"
definition TK_PLUS :: nat where "TK_PLUS = 106"
definition TK_MINUS :: nat where "TK_MINUS = 107"
definition TK_STAR :: nat where "TK_STAR = 108"
definition TK_SLASH :: nat where "TK_SLASH = 109"
definition TK_REM :: nat where "TK_REM = 110"
definition TK_CONCAT :: nat where "TK_CONCAT = 111"
definition TK_COLLATE :: nat where "TK_COLLATE = 112"
definition TK_BITNOT :: nat where "TK_BITNOT = 113"
definition TK_ON :: nat where "TK_ON = 114"
definition TK_INDEXED :: nat where "TK_INDEXED = 115"
definition TK_STRING :: nat where "TK_STRING = 116"
definition TK_JOIN_KW :: nat where "TK_JOIN_KW = 117"
definition TK_CONSTRAINT :: nat where "TK_CONSTRAINT = 118"
definition TK_DEFAULT :: nat where "TK_DEFAULT = 119"
definition TK_NULL :: nat where "TK_NULL = 120"
definition TK_PRIMARY :: nat where "TK_PRIMARY = 121"
definition TK_UNIQUE :: nat where "TK_UNIQUE = 122"
definition TK_CHECK :: nat where "TK_CHECK = 123"
definition TK_REFERENCES :: nat where "TK_REFERENCES = 124"
definition TK_AUTOINCR :: nat where "TK_AUTOINCR = 125"
definition TK_INSERT :: nat where "TK_INSERT = 126"
definition TK_DELETE :: nat where "TK_DELETE = 127"
definition TK_UPDATE :: nat where "TK_UPDATE = 128"
definition TK_SET :: nat where "TK_SET = 129"
definition TK_DEFERRABLE :: nat where "TK_DEFERRABLE = 130"
definition TK_FOREIGN :: nat where "TK_FOREIGN = 131"
definition TK_DROP :: nat where "TK_DROP = 132"
definition TK_UNION :: nat where "TK_UNION = 133"
definition TK_ALL :: nat where "TK_ALL = 134"
definition TK_EXCEPT :: nat where "TK_EXCEPT = 135"
definition TK_INTERSECT :: nat where "TK_INTERSECT = 136"
definition TK_SELECT :: nat where "TK_SELECT = 137"
definition TK_VALUES :: nat where "TK_VALUES = 138"
definition TK_DISTINCT :: nat where "TK_DISTINCT = 139"
definition TK_DOT :: nat where "TK_DOT = 140"
definition TK_FROM :: nat where "TK_FROM = 141"
definition TK_JOIN :: nat where "TK_JOIN = 142"
definition TK_USING :: nat where "TK_USING = 143"
definition TK_ORDER :: nat where "TK_ORDER = 144"
definition TK_GROUP :: nat where "TK_GROUP = 145"
definition TK_HAVING :: nat where "TK_HAVING = 146"
definition TK_LIMIT :: nat where "TK_LIMIT = 147"
definition TK_WHERE :: nat where "TK_WHERE = 148"
definition TK_RETURNING :: nat where "TK_RETURNING = 149"
definition TK_INTO :: nat where "TK_INTO = 150"
definition TK_NOTHING :: nat where "TK_NOTHING = 151"
definition TK_FLOAT :: nat where "TK_FLOAT = 152"
definition TK_BLOB :: nat where "TK_BLOB = 153"
definition TK_INTEGER :: nat where "TK_INTEGER = 154"
definition TK_VARIABLE :: nat where "TK_VARIABLE = 155"
definition TK_CASE :: nat where "TK_CASE = 156"
definition TK_WHEN :: nat where "TK_WHEN = 157"
definition TK_THEN :: nat where "TK_THEN = 158"
definition TK_ELSE :: nat where "TK_ELSE = 159"
definition TK_INDEX :: nat where "TK_INDEX = 160"
definition TK_ALTER :: nat where "TK_ALTER = 161"
definition TK_ADD :: nat where "TK_ADD = 162"
definition TK_WINDOW :: nat where "TK_WINDOW = 163"
definition TK_OVER :: nat where "TK_OVER = 164"
definition TK_FILTER :: nat where "TK_FILTER = 165"
definition TK_SPACE :: nat where "TK_SPACE = 182"
definition TK_ILLEGAL :: nat where "TK_ILLEGAL = 183"

lemmas TK_defs = TK_SEMI_def TK_EXPLAIN_def TK_QUERY_def TK_PLAN_def TK_BEGIN_def TK_TRANSACTION_def
  TK_DEFERRED_def TK_IMMEDIATE_def TK_EXCLUSIVE_def TK_COMMIT_def TK_END_def TK_ROLLBACK_def
  TK_SAVEPOINT_def TK_RELEASE_def TK_TO_def TK_TABLE_def TK_CREATE_def TK_IF_def
  TK_NOT_def TK_EXISTS_def TK_TEMP_def TK_LP_def TK_RP_def TK_AS_def
  TK_WITHOUT_def TK_COMMA_def TK_ABORT_def TK_ACTION_def TK_AFTER_def TK_ANALYZE_def
  TK_ASC_def TK_ATTACH_def TK_BEFORE_def TK_BY_def TK_CASCADE_def TK_CAST_def
  TK_CONFLICT_def TK_DATABASE_def TK_DESC_def TK_DETACH_def TK_EACH_def TK_FAIL_def
  TK_OR_def TK_AND_def TK_IS_def TK_MATCH_def TK_LIKE_KW_def TK_BETWEEN_def
  TK_IN_def TK_ISNULL_def TK_NOTNULL_def TK_NE_def TK_EQ_def TK_GT_def
  TK_LE_def TK_LT_def TK_GE_def TK_ESCAPE_def TK_ID_def TK_COLUMNKW_def
  TK_DO_def TK_FOR_def TK_IGNORE_def TK_INITIALLY_def TK_INSTEAD_def TK_NO_def
  TK_KEY_def TK_OF_def TK_OFFSET_def TK_PRAGMA_def TK_RAISE_def TK_RECURSIVE_def
  TK_REPLACE_def TK_RESTRICT_def TK_ROW_def TK_ROWS_def TK_TRIGGER_def TK_VACUUM_def
  TK_VIEW_def TK_VIRTUAL_def TK_WITH_def TK_NULLS_def TK_FIRST_def TK_LAST_def
  TK_CURRENT_def TK_FOLLOWING_def TK_PARTITION_def TK_PRECEDING_def TK_RANGE_def TK_UNBOUNDED_def
  TK_EXCLUDE_def TK_GROUPS_def TK_OTHERS_def TK_TIES_def TK_GENERATED_def TK_ALWAYS_def
  TK_MATERIALIZED_def TK_REINDEX_def TK_RENAME_def TK_CTIME_KW_def TK_BITAND_def TK_BITOR_def
  TK_LSHIFT_def TK_RSHIFT_def TK_PLUS_def TK_MINUS_def TK_STAR_def TK_SLASH_def
  TK_REM_def TK_CONCAT_def TK_COLLATE_def TK_BITNOT_def TK_ON_def TK_INDEXED_def
  TK_STRING_def TK_JOIN_KW_def TK_CONSTRAINT_def TK_DEFAULT_def TK_NULL_def TK_PRIMARY_def
  TK_UNIQUE_def TK_CHECK_def TK_REFERENCES_def TK_AUTOINCR_def TK_INSERT_def TK_DELETE_def
  TK_UPDATE_def TK_SET_def TK_DEFERRABLE_def TK_FOREIGN_def TK_DROP_def TK_UNION_def
  TK_ALL_def TK_EXCEPT_def TK_INTERSECT_def TK_SELECT_def TK_VALUES_def TK_DISTINCT_def
  TK_DOT_def TK_FROM_def TK_JOIN_def TK_USING_def TK_ORDER_def TK_GROUP_def
  TK_HAVING_def TK_LIMIT_def TK_WHERE_def TK_RETURNING_def TK_INTO_def TK_NOTHING_def
  TK_FLOAT_def TK_BLOB_def TK_INTEGER_def TK_VARIABLE_def TK_CASE_def TK_WHEN_def
  TK_THEN_def TK_ELSE_def TK_INDEX_def TK_ALTER_def TK_ADD_def TK_WINDOW_def
  TK_OVER_def TK_FILTER_def TK_SPACE_def TK_ILLEGAL_def

definition zKWText :: string where
  "zKWText =
     ''REINDEXEDESCAPEACHECKEYBEFOREIGNOREGEXPLAINSTEADDATABASELECTABLEFTHENDEF'' @
     ''ERRABLELSEXCLUDELETEMPORARYISNULLSAVEPOINTERSECTIESNOTNULLIKEXCEPTRANSAC'' @
     ''TIONATURALTERAISEXCLUSIVEXISTSCONSTRAINTOFFSETRIGGERANGENERATEDETACHAVIN'' @
     ''GLOBEGINNEREFERENCESUNIQUERYWITHOUTERELEASEATTACHBETWEENOTHINGROUPSCASCA'' @
     ''DEFAULTCASECOLLATECREATECURRENT_DATEIMMEDIATEJOINSERTMATCHPLANALYZEPRAGM'' @
     ''ATERIALIZEDEFERREDISTINCTUPDATEVALUESVIRTUALWAYSWHENWHERECURSIVEABORTAFT'' @
     ''ERENAMEANDROPARTITIONAUTOINCREMENTCASTCOLUMNCOMMITCONFLICTCROSSCURRENT_T'' @
     ''IMESTAMPRECEDINGFAILASTFILTEREPLACEFIRSTFOLLOWINGFROMFULLIMITIFORDERESTR'' @
     ''ICTOTHERSOVERETURNINGRIGHTROLLBACKROWSUNBOUNDEDUNIONUSINGVACUUMVIEWINDOW'' @
     ''BYINITIALLYPRIMARY''"

definition aKWHash :: "nat list" where
  "aKWHash =
     [84, 92, 134, 82, 105, 29, 0, 0, 94, 0, 85, 72, 0, 53, 35, 86, 15, 0,
     42, 97, 54, 89, 135, 19, 0, 0, 140, 0, 40, 129, 0, 22, 107, 0, 9, 0,
     0, 123, 80, 0, 78, 6, 0, 65, 103, 147, 0, 136, 115, 0, 0, 48, 0, 90,
     24, 0, 17, 0, 27, 70, 23, 26, 5, 60, 142, 110, 122, 0, 73, 91, 71, 145,
     61, 120, 74, 0, 49, 0, 11, 41, 0, 113, 0, 0, 0, 109, 10, 111, 116, 125,
     14, 50, 124, 0, 100, 0, 18, 121, 144, 56, 130, 139, 88, 83, 37, 30, 126, 0,
     0, 108, 51, 131, 128, 0, 34, 0, 0, 132, 0, 98, 38, 39, 0, 20, 45, 117,
     93]"

definition aKWNext :: "nat list" where
  "aKWNext =
     [0, 0, 0, 0, 4, 0, 43, 0, 0, 106, 114, 0, 0, 0, 2, 0, 0, 143,
     0, 0, 0, 13, 0, 0, 0, 0, 141, 0, 0, 119, 52, 0, 0, 137, 12, 0,
     0, 62, 0, 138, 0, 133, 0, 0, 36, 0, 0, 28, 77, 0, 0, 0, 0, 59,
     0, 47, 0, 0, 0, 0, 0, 0, 0, 0, 0, 0, 69, 0, 0, 0, 0, 0,
     146, 3, 0, 58, 0, 1, 75, 0, 0, 0, 31, 0, 0, 0, 0, 0, 127, 0,
     104, 0, 64, 66, 63, 0, 0, 0, 0, 0, 46, 0, 16, 8, 0, 0, 0, 0,
     0, 0, 0, 0, 0, 0, 81, 101, 0, 112, 21, 7, 67, 0, 79, 96, 118, 0,
     0, 68, 0, 0, 99, 44, 0, 55, 0, 76, 0, 95, 32, 33, 57, 25, 0, 102,
     0, 0, 87]"

definition aKWLen :: "nat list" where
  "aKWLen =
     [7, 7, 5, 4, 6, 4, 5, 3, 6, 7, 3, 6, 6, 7, 7, 3, 8, 2,
     6, 5, 4, 4, 3, 10, 4, 7, 6, 9, 4, 2, 6, 5, 9, 9, 4, 7,
     3, 2, 4, 4, 6, 11, 6, 2, 7, 5, 5, 9, 6, 10, 4, 6, 2, 3,
     7, 5, 9, 6, 6, 4, 5, 5, 10, 6, 5, 7, 4, 5, 7, 6, 7, 7,
     6, 5, 7, 3, 7, 4, 7, 6, 12, 9, 4, 6, 5, 4, 7, 6, 12, 8,
     8, 2, 6, 6, 7, 6, 4, 5, 9, 5, 5, 6, 3, 4, 9, 13, 2, 2,
     4, 6, 6, 8, 5, 17, 12, 7, 9, 4, 4, 6, 7, 5, 9, 4, 4, 5,
     2, 5, 8, 6, 4, 9, 5, 8, 4, 3, 9, 5, 5, 6, 4, 6, 2, 2,
     9, 3, 7]"

definition aKWOffset :: "nat list" where
  "aKWOffset =
     [0, 2, 2, 8, 9, 14, 16, 20, 23, 25, 25, 29, 33, 36, 41, 46, 48, 53,
     54, 59, 62, 65, 67, 69, 78, 81, 86, 90, 90, 94, 99, 101, 105, 111, 119, 123,
     123, 123, 126, 129, 132, 137, 142, 146, 147, 152, 156, 160, 168, 174, 181, 184, 184, 187,
     189, 195, 198, 206, 211, 216, 219, 222, 226, 236, 239, 244, 244, 248, 252, 259, 265, 271,
     277, 277, 283, 284, 288, 295, 299, 306, 312, 324, 333, 335, 341, 346, 348, 355, 359, 370,
     377, 378, 385, 391, 397, 402, 408, 412, 415, 424, 429, 433, 439, 441, 444, 453, 455, 457,
     466, 470, 476, 482, 490, 495, 495, 495, 511, 520, 523, 527, 532, 539, 544, 553, 557, 560,
     565, 567, 571, 579, 585, 588, 597, 602, 610, 610, 614, 623, 628, 633, 639, 642, 645, 648,
     650, 655, 659]"

definition aKWCode :: "nat list" where
  "aKWCode =
     [TK_REINDEX, TK_INDEXED, TK_INDEX, TK_DESC, TK_ESCAPE, TK_EACH,
     TK_CHECK, TK_KEY, TK_BEFORE, TK_FOREIGN, TK_FOR, TK_IGNORE,
     TK_LIKE_KW, TK_EXPLAIN, TK_INSTEAD, TK_ADD, TK_DATABASE, TK_AS,
     TK_SELECT, TK_TABLE, TK_JOIN_KW, TK_THEN, TK_END, TK_DEFERRABLE,
     TK_ELSE, TK_EXCLUDE, TK_DELETE, TK_TEMP, TK_TEMP, TK_OR,
     TK_ISNULL, TK_NULLS, TK_SAVEPOINT, TK_INTERSECT, TK_TIES, TK_NOTNULL,
     TK_NOT, TK_NO, TK_NULL, TK_LIKE_KW, TK_EXCEPT, TK_TRANSACTION,
     TK_ACTION, TK_ON, TK_JOIN_KW, TK_ALTER, TK_RAISE, TK_EXCLUSIVE,
     TK_EXISTS, TK_CONSTRAINT, TK_INTO, TK_OFFSET, TK_OF, TK_SET,
     TK_TRIGGER, TK_RANGE, TK_GENERATED, TK_DETACH, TK_HAVING, TK_LIKE_KW,
     TK_BEGIN, TK_JOIN_KW, TK_REFERENCES, TK_UNIQUE, TK_QUERY, TK_WITHOUT,
     TK_WITH, TK_JOIN_KW, TK_RELEASE, TK_ATTACH, TK_BETWEEN, TK_NOTHING,
     TK_GROUPS, TK_GROUP, TK_CASCADE, TK_ASC, TK_DEFAULT, TK_CASE,
     TK_COLLATE, TK_CREATE, TK_CTIME_KW, TK_IMMEDIATE, TK_JOIN, TK_INSERT,
     TK_MATCH, TK_PLAN, TK_ANALYZE, TK_PRAGMA, TK_MATERIALIZED, TK_DEFERRED,
     TK_DISTINCT, TK_IS, TK_UPDATE, TK_VALUES, TK_VIRTUAL, TK_ALWAYS,
     TK_WHEN, TK_WHERE, TK_RECURSIVE, TK_ABORT, TK_AFTER, TK_RENAME,
     TK_AND, TK_DROP, TK_PARTITION, TK_AUTOINCR, TK_TO, TK_IN,
     TK_CAST, TK_COLUMNKW, TK_COMMIT, TK_CONFLICT, TK_JOIN_KW, TK_CTIME_KW,
     TK_CTIME_KW, TK_CURRENT, TK_PRECEDING, TK_FAIL, TK_LAST, TK_FILTER,
     TK_REPLACE, TK_FIRST, TK_FOLLOWING, TK_FROM, TK_JOIN_KW, TK_LIMIT,
     TK_IF, TK_ORDER, TK_RESTRICT, TK_OTHERS, TK_OVER, TK_RETURNING,
     TK_JOIN_KW, TK_ROLLBACK, TK_ROWS, TK_ROW, TK_UNBOUNDED, TK_UNION,
     TK_USING, TK_VACUUM, TK_VIEW, TK_WINDOW, TK_DO, TK_BY,
     TK_INITIALLY, TK_ALL, TK_PRIMARY]"

text \<open>The text is a buffer; reading beyond its end gives the terminating zero.\<close>

definition at :: "u8 list \<Rightarrow> nat \<Rightarrow> u8" where
  "at z i = (if i < length z then z ! i else 0)"

subsection \<open>Keywords (keywordhash.h)\<close>

text \<open>
  \<open>char\<close> is signed: \<open>z[j]&~0x20\<close> of a byte above 127 is a negative number, which no keyword
  character is. The collision chain is followed with fuel; running out of it is \<open>None\<close>.
\<close>

definition charMap :: "u8 \<Rightarrow> nat" where
  "charMap c = unat (sqlite3UpperToLower ! unat c)"

definition kw_char :: "u8 \<Rightarrow> char \<Rightarrow> bool" where
  "kw_char c k \<longleftrightarrow> sint c AND NOT 0x20 = of_char k"

fun kw_scan :: "u8 list \<Rightarrow> string \<Rightarrow> nat \<Rightarrow> nat" where
  "kw_scan z zKW 0 = 0"
| "kw_scan z zKW (Suc n) = (if kw_char (at z 0) (zKW ! 0) then Suc (kw_scan (drop 1 z) (drop 1 zKW) n) else 0)"

definition kw_match :: "u8 list \<Rightarrow> nat \<Rightarrow> nat \<Rightarrow> bool" where
  "kw_match z n i =
     (let zKW = drop (aKWOffset ! i) zKWText in
      if aKWLen ! i \<noteq> n then False
      else if \<not> kw_char (at z 0) (zKW ! 0) then False
      else if \<not> kw_char (at z 1) (zKW ! 1) then False
      else \<not> 2 + kw_scan (drop 2 z) (drop 2 zKW) (n - 2) < n)"

fun kw_chain :: "nat \<Rightarrow> u8 list \<Rightarrow> nat \<Rightarrow> int \<Rightarrow> nat \<Rightarrow> nat option" where
  "kw_chain 0 z n i tokenType = None"
| "kw_chain (Suc fuel) z n i tokenType =
     (if i < 0 then Some tokenType
      else if kw_match z n (nat i) then Some (aKWCode ! nat i)
      else kw_chain fuel z n (int (aKWNext ! nat i) - 1) tokenType)"

definition KW_FUEL :: nat where "KW_FUEL = 147"

definition keywordCode :: "u8 list \<Rightarrow> nat \<Rightarrow> nat \<Rightarrow> nat option" where
  "keywordCode z n tokenType =
     (if 2 \<le> n then
        let i = (((charMap (at z 0) * 4) XOR (charMap (at z (n - 1)) * 3)) XOR n) mod 127
        in kw_chain KW_FUEL z n (int (aKWHash ! i) - 1) tokenType
      else Some tokenType)"

definition sqlite3KeywordCode :: "u8 list \<Rightarrow> nat \<Rightarrow> nat option" where
  "sqlite3KeywordCode z n = keywordCode z n TK_ID"

definition SQLITE_N_KEYWORD :: int where "SQLITE_N_KEYWORD = 147"

definition sqlite3_keyword_name :: "int \<Rightarrow> (string \<times> nat) option" where
  "sqlite3_keyword_name i =
     (if i < 0 \<or> i \<ge> SQLITE_N_KEYWORD then None
      else Some (drop (aKWOffset ! nat i) zKWText, aKWLen ! nat i))"

definition sqlite3_keyword_check :: "u8 list \<Rightarrow> nat \<Rightarrow> bool option" where
  "sqlite3_keyword_check zName nName = map_option (\<lambda>t. TK_ID \<noteq> t) (sqlite3KeywordCode zName nName)"

text \<open>The keywords in the order of the table.\<close>

definition keyword_list :: "string list" where
  "keyword_list =
     [''REINDEX'', ''INDEXED'', ''INDEX'', ''DESC'', ''ESCAPE'', ''EACH'', ''CHECK'', ''KEY'',
     ''BEFORE'', ''FOREIGN'', ''FOR'', ''IGNORE'', ''REGEXP'', ''EXPLAIN'', ''INSTEAD'', ''ADD'',
     ''DATABASE'', ''AS'', ''SELECT'', ''TABLE'', ''LEFT'', ''THEN'', ''END'', ''DEFERRABLE'',
     ''ELSE'', ''EXCLUDE'', ''DELETE'', ''TEMPORARY'', ''TEMP'', ''OR'', ''ISNULL'', ''NULLS'',
     ''SAVEPOINT'', ''INTERSECT'', ''TIES'', ''NOTNULL'', ''NOT'', ''NO'', ''NULL'', ''LIKE'',
     ''EXCEPT'', ''TRANSACTION'', ''ACTION'', ''ON'', ''NATURAL'', ''ALTER'', ''RAISE'', ''EXCLUSIVE'',
     ''EXISTS'', ''CONSTRAINT'', ''INTO'', ''OFFSET'', ''OF'', ''SET'', ''TRIGGER'', ''RANGE'',
     ''GENERATED'', ''DETACH'', ''HAVING'', ''GLOB'', ''BEGIN'', ''INNER'', ''REFERENCES'', ''UNIQUE'',
     ''QUERY'', ''WITHOUT'', ''WITH'', ''OUTER'', ''RELEASE'', ''ATTACH'', ''BETWEEN'', ''NOTHING'',
     ''GROUPS'', ''GROUP'', ''CASCADE'', ''ASC'', ''DEFAULT'', ''CASE'', ''COLLATE'', ''CREATE'',
     ''CURRENT_DATE'', ''IMMEDIATE'', ''JOIN'', ''INSERT'', ''MATCH'', ''PLAN'', ''ANALYZE'', ''PRAGMA'',
     ''MATERIALIZED'', ''DEFERRED'', ''DISTINCT'', ''IS'', ''UPDATE'', ''VALUES'', ''VIRTUAL'', ''ALWAYS'',
     ''WHEN'', ''WHERE'', ''RECURSIVE'', ''ABORT'', ''AFTER'', ''RENAME'', ''AND'', ''DROP'',
     ''PARTITION'', ''AUTOINCREMENT'', ''TO'', ''IN'', ''CAST'', ''COLUMN'', ''COMMIT'', ''CONFLICT'',
     ''CROSS'', ''CURRENT_TIMESTAMP'', ''CURRENT_TIME'', ''CURRENT'', ''PRECEDING'', ''FAIL'', ''LAST'', ''FILTER'',
     ''REPLACE'', ''FIRST'', ''FOLLOWING'', ''FROM'', ''FULL'', ''LIMIT'', ''IF'', ''ORDER'',
     ''RESTRICT'', ''OTHERS'', ''OVER'', ''RETURNING'', ''RIGHT'', ''ROLLBACK'', ''ROWS'', ''ROW'',
     ''UNBOUNDED'', ''UNION'', ''USING'', ''VACUUM'', ''VIEW'', ''WINDOW'', ''DO'', ''BY'',
     ''INITIALLY'', ''ALL'', ''PRIMARY'']"

subsection \<open>The keyword table is exact\<close>

text \<open>
  The facts on the tables are evaluated: the text of each keyword is walked through once, and each
  keyword is found in the collision chain of its hash value.
\<close>

definition kw_hash :: "string \<Rightarrow> nat" where
  "kw_hash s = ((((of_char (hd s) + 32) * 4) XOR ((of_char (last s) + 32) * 3)) XOR length s) mod 127"

lemma kw_hashes:
  "map kw_hash keyword_list =
     [40, 16, 74, 62, 62, 41, 73, 69, 34, 86, 78, 14, 31, 90, 16, 44, 56, 96, 23, 123,
     105, 31, 60, 54, 64, 61, 58, 51, 5, 105, 103, 101, 26, 114, 14, 124, 104, 120, 121, 28,
     79, 18, 73, 117, 124, 88, 99, 51, 76, 91, 110, 103, 13, 20, 2, 99, 58, 47, 20, 63,
     72, 120, 28, 126, 43, 8, 97, 112, 97, 59, 70, 11, 68, 74, 37, 47, 76, 40, 37, 38,
     48, 3, 103, 0, 10, 15, 45, 102, 21, 53, 69, 1, 126, 8, 28, 92, 19, 119, 111, 94,
     88, 98, 44, 69, 4, 86, 32, 109, 85, 65, 87, 89, 81, 78, 48, 88, 125, 89, 105, 73,
     97, 66, 37, 92, 89, 106, 21, 112, 29, 100, 111, 117, 18, 2, 22, 47, 114, 28, 101, 26,
     58, 64, 96, 98, 71, 68, 45]"
  by (simp add: keyword_list_def kw_hash_def One_nat_def [symmetric] del: One_nat_def)

fun chain_ids :: "nat \<Rightarrow> int \<Rightarrow> nat list option" where
  "chain_ids 0 i = None"
| "chain_ids (Suc fuel) i =
     (if i < 0 then Some [] else map_option ((#) (nat i)) (chain_ids fuel (int (aKWNext ! nat i) - 1)))"

definition ids_of :: "nat \<Rightarrow> nat list" where
  "ids_of h = the (chain_ids 5 (int (aKWHash ! h) - 1))"

lemma chains_end: "list_all (\<lambda>h. chain_ids 5 (int h - 1) \<noteq> None) aKWHash"
  by code_simp

lemma chains_find:
  "list_all (\<lambda>(i, h). case chain_ids 5 (int (aKWHash ! h) - 1) of None \<Rightarrow> False | Some l \<Rightarrow> i \<in> set l)
     (zip [0..<147] [40, 16, 74, 62, 62, 41, 73, 69, 34, 86, 78, 14, 31, 90, 16, 44, 56, 96, 23, 123,
     105, 31, 60, 54, 64, 61, 58, 51, 5, 105, 103, 101, 26, 114, 14, 124, 104, 120, 121, 28,
     79, 18, 73, 117, 124, 88, 99, 51, 76, 91, 110, 103, 13, 20, 2, 99, 58, 47, 20, 63,
     72, 120, 28, 126, 43, 8, 97, 112, 97, 59, 70, 11, 68, 74, 37, 47, 76, 40, 37, 38,
     48, 3, 103, 0, 10, 15, 45, 102, 21, 53, 69, 1, 126, 8, 28, 92, 19, 119, 111, 94,
     88, 98, 44, 69, 4, 86, 32, 109, 85, 65, 87, 89, 81, 78, 48, 88, 125, 89, 105, 73,
     97, 66, 37, 92, 89, 106, 21, 112, 29, 100, 111, 117, 18, 2, 22, 47, 114, 28, 101, 26,
     58, 64, 96, 98, 71, 68, 45])"
  by code_simp

lemma in_table: "list_all (\<lambda>h. h \<le> 147) aKWHash" "list_all (\<lambda>h. h \<le> 147) aKWNext"
  by code_simp+

fun kw_walk :: "nat \<Rightarrow> string \<Rightarrow> nat list \<Rightarrow> nat list \<Rightarrow> string list" where
  "kw_walk p z (i # is) (l # ls) =
     (if i < p then [] else take l (drop (i - p) z)) # kw_walk i (drop (i - p) z) is ls"
| "kw_walk p z _ _ = []"

lemma kw_walk_texts: "kw_walk 0 zKWText aKWOffset aKWLen = keyword_list"
  by (simp add: zKWText_def aKWOffset_def aKWLen_def keyword_list_def)

lemma table_lengths: "length keyword_list = 147" "length aKWHash = 127" "length aKWNext = 147" "length aKWCode = 147"
  "length aKWOffset = 147" "length aKWLen = 147"
  by (simp_all add: keyword_list_def aKWHash_def aKWNext_def aKWCode_def aKWOffset_def aKWLen_def)

definition upper_char :: "char \<Rightarrow> bool" where
  "upper_char k \<longleftrightarrow> (65::nat) \<le> of_char k \<and> (of_char k :: nat) \<le> 90"

lemma kw_shape:
  "list_all (\<lambda>s. 2 \<le> length s \<and> upper_char (hd s) \<and> upper_char (last s) \<and>
     list_all (\<lambda>k. upper_char k \<or> k = CHR ''_'') s) keyword_list"
  by code_simp

lemma kw_distinct: "distinct keyword_list"
  by code_simp

lemma kw_walk_map2:
  "[] \<notin> set (kw_walk p (drop p z) is ls) \<Longrightarrow>
   kw_walk p (drop p z) is ls = map2 (\<lambda>i l. take l (drop i z)) is ls"
proof (induction "is" arbitrary: p ls)
  case (Cons i "is")
  show ?case
  proof (cases ls)
    case (Cons l ls')
    then have "\<not> i < p" using Cons.prems by auto
    then have "drop (i - p) (drop p z) = drop i z" by simp
    then show ?thesis using Cons.prems Cons.IH [of i ls'] \<open>\<not> i < p\<close> by (simp add: Cons)
  qed simp
qed simp

lemma kw_shape_nth:
  assumes "i < 147"
  shows "2 \<le> length (keyword_list ! i)" "upper_char (hd (keyword_list ! i))" "upper_char (last (keyword_list ! i))"
    "list_all (\<lambda>k. upper_char k \<or> k = CHR ''_'') (keyword_list ! i)"
proof -
  have "keyword_list ! i \<in> set keyword_list" using assms by (simp add: table_lengths)
  from bspec [OF kw_shape [unfolded list_all_iff] this]
  show "2 \<le> length (keyword_list ! i)" "upper_char (hd (keyword_list ! i))" "upper_char (last (keyword_list ! i))"
    "list_all (\<lambda>k. upper_char k \<or> k = CHR ''_'') (keyword_list ! i)" by (simp_all add: list_all_iff)
qed

lemma kw_text:
  assumes "i < 147" shows "take (aKWLen ! i) (drop (aKWOffset ! i) zKWText) = keyword_list ! i"
proof -
  have "[] \<notin> set keyword_list" using kw_shape by (auto simp: list_all_iff)
  then have "keyword_list = map2 (\<lambda>i l. take l (drop i zKWText)) aKWOffset aKWLen"
    using kw_walk_map2 [of 0 zKWText aKWOffset aKWLen] by (simp only: drop0 kw_walk_texts not_False_eq_True simp_thms)
  then have "keyword_list ! i = map2 (\<lambda>i l. take l (drop i zKWText)) aKWOffset aKWLen ! i" by (rule arg_cong)
  then show ?thesis using assms by (simp add: table_lengths)
qed

lemma chain_in_table:
  assumes "chain_ids f (int k - 1) = Some l" "k \<le> 147" shows "\<forall>i \<in> set l. i < 147"
  using assms
proof (induction f arbitrary: k l)
  case (Suc f)
  show ?case
  proof (cases k)
    case 0
    then show ?thesis using Suc.prems by simp
  next
    case (Suc j)
    then have j: "j < 147" using Suc.prems by simp
    then have "aKWNext ! j \<in> set aKWNext" by (simp add: table_lengths)
    then have "aKWNext ! j \<le> 147" using in_table(2) by (auto simp: list_all_iff)
    then show ?thesis using Suc.prems Suc.IH [of "aKWNext ! j"] \<open>k = Suc j\<close> j by auto
  qed
qed simp

lemma ids_ok:
  assumes "h < 127"
  shows "chain_ids 5 (int (aKWHash ! h) - 1) = Some (ids_of h)" "\<forall>i \<in> set (ids_of h). i < 147"
proof -
  have m: "aKWHash ! h \<in> set aKWHash" using assms by (simp add: table_lengths)
  then have "chain_ids 5 (int (aKWHash ! h) - 1) \<noteq> None" using chains_end by (auto simp: list_all_iff)
  then show e: "chain_ids 5 (int (aKWHash ! h) - 1) = Some (ids_of h)" by (auto simp: ids_of_def)
  have "aKWHash ! h \<le> 147" using m in_table(1) by (auto simp: list_all_iff)
  with e show "\<forall>i \<in> set (ids_of h). i < 147" by (rule chain_in_table)
qed

lemma kw_in_chain:
  assumes "i < 147" shows "i \<in> set (ids_of (kw_hash (keyword_list ! i)))" "kw_hash (keyword_list ! i) < 127"
proof -
  show h: "kw_hash (keyword_list ! i) < 127" by (simp add: kw_hash_def)
  have "map kw_hash keyword_list ! i = kw_hash (keyword_list ! i)" using assms by (simp add: table_lengths)
  moreover have "(i, map kw_hash keyword_list ! i) \<in> set (zip [0..<147] (map kw_hash keyword_list))"
    using assms by (auto simp: set_zip table_lengths intro!: exI [of _ i])
  ultimately have "(i, kw_hash (keyword_list ! i)) \<in> set (zip [0..<147] (map kw_hash keyword_list))" by simp
  from bspec [OF chains_find [folded kw_hashes, unfolded list_all_iff] this]
  show "i \<in> set (ids_of (kw_hash (keyword_list ! i)))" using ids_ok(1) [OF h] by simp
qed

lemma kw_lengths: "map length keyword_list = aKWLen"
  by (simp add: keyword_list_def aKWLen_def)

lemma kw_length: "i < 147 \<Longrightarrow> length (keyword_list ! i) = aKWLen ! i"
  using arg_cong [OF kw_lengths, of "\<lambda>l. l ! i"] by (simp add: table_lengths)

lemma kw_scan_all: "kw_scan z K n = n \<longleftrightarrow> (\<forall>j < n. kw_char (at z j) (drop j K ! 0))"
proof (induction n arbitrary: z K)
  case (Suc n)
  have at: "at (drop 1 z) j = at z (Suc j)" for j by (auto simp: at_def)
  have "(\<forall>j < Suc n. P j) \<longleftrightarrow> P 0 \<and> (\<forall>j < n. P (Suc j))" for P
    by (auto simp: less_Suc_eq_0_disj)
  then show ?case
    using Suc.IH [of "drop 1 z" "drop 1 K"] unfolding at by simp
qed simp

lemma kw_scan_le: "kw_scan z K n \<le> n"
  by (induction n arbitrary: z K) auto

lemma kw_match_iff:
  assumes "i < 147" "2 \<le> n" "n \<le> length z"
  shows "kw_match z n i \<longleftrightarrow> list_all2 kw_char (take n z) (keyword_list ! i)"
proof (cases "aKWLen ! i = n")
  case False
  then show ?thesis using kw_length [OF assms(1)] assms(3)
    by (auto simp: kw_match_def dest!: list_all2_lengthD)
next
  case True
  define K where "K = drop (aKWOffset ! i) zKWText"
  have w: "keyword_list ! i = take n K" using kw_text [OF assms(1)] True by (simp add: K_def)
  have "length (take n K) = n" using kw_length [OF assms(1)] True by (simp only: w)
  then have nK: "n \<le> length K" by simp
  obtain m where n: "n = Suc (Suc m)" using assms(2) by (metis add_2_eq_Suc le_Suc_ex)
  have at: "at (drop 2 z) j = at z (Suc (Suc j))" for j by (auto simp: at_def)
  have s: "(\<forall>j < Suc (Suc m). P j) \<longleftrightarrow> P 0 \<and> P 1 \<and> (\<forall>j < m. P (Suc (Suc j)))" for P
    by (auto simp: less_Suc_eq_0_disj)
  have "kw_match z n i \<longleftrightarrow> kw_char (at z 0) (K ! 0) \<and> kw_char (at z 1) (K ! 1) \<and> kw_scan (drop 2 z) (drop 2 K) m = m"
    using True kw_scan_le [of "drop 2 z" "drop 2 K" m] by (auto simp: kw_match_def K_def n Let_def)
  also have "\<dots> \<longleftrightarrow> (\<forall>j < n. kw_char (at z j) (drop j K ! 0))"
    unfolding kw_scan_all n s at using nK n by simp
  also have "\<dots> \<longleftrightarrow> list_all2 kw_char (take n z) (keyword_list ! i)"
    using nK assms(3) by (auto simp: w list_all2_conv_all_nth at_def)
  finally show ?thesis .
qed

lemma kw_chain_ids:
  "chain_ids f i = Some l \<Longrightarrow>
   kw_chain f z n i t = Some (case find (kw_match z n) l of None \<Rightarrow> t | Some j \<Rightarrow> aKWCode ! j)"
  by (induction f arbitrary: i l) (auto split: if_splits)

lemma chain_ids_mono: "chain_ids f i = Some l \<Longrightarrow> chain_ids (f + k) i = Some l"
proof (induction f arbitrary: i l)
  case (Suc f)
  show ?case
  proof (cases "i < 0")
    case False
    then obtain l' where "chain_ids f (int (aKWNext ! nat i) - 1) = Some l'" "l = nat i # l'"
      using Suc.prems by auto
    then show ?thesis using Suc.IH False by simp
  qed (use Suc.prems in simp)
qed simp

text \<open>
  The character test ignores case, but it also takes DEL for an underscore.
\<close>

lemma kw_char_word:
  assumes "(of_char k :: nat) < 128"
  shows "kw_char c k \<longleftrightarrow> c AND NOT 0x20 = of_char k"
proof -
  define v where "v = (of_char k :: nat)"
  have k: "of_char k = word_of_nat v" "of_char k = int v"
    by (simp_all only: v_def of_nat_of_char)
  have s: "sint (c AND NOT 0x20) = sint c AND NOT 0x20" by (simp add: signed_and_eq signed_not_eq)
  have v: "sint (word_of_nat v :: u8) = int v"
    using assms by (simp add: v_def signed_of_nat signed_take_bit_int_eq_self)
  show ?thesis
    unfolding kw_char_def k using s v by (metis word_eq_iff_signed)
qed

lemma clear_case: "c AND NOT 0x20 = w \<longleftrightarrow> w AND 0x20 = 0 \<and> (c = w \<or> c = w OR 0x20)" for c w :: u8
proof
  assume w: "c AND NOT 0x20 = w"
  have "c = (c AND NOT 0x20) \<or> c = (c AND NOT 0x20) OR 0x20"
    by (cases "bit c 5") (auto simp: word_eq_bits upt_start bit_simps)
  moreover have "(c AND NOT 0x20) AND 0x20 = 0" by (simp add: word_eq_bits upt_start bit_simps)
  ultimately show "w AND 0x20 = 0 \<and> (c = w \<or> c = w OR 0x20)" unfolding w by blast
next
  assume a: "w AND 0x20 = 0 \<and> (c = w \<or> c = w OR 0x20)"
  have "w AND NOT 0x20 = w" if "w AND 0x20 = 0"
    using that by (simp add: word_eq_bits upt_start bit_simps)
  moreover have "(w OR 0x20) AND NOT 0x20 = w AND NOT 0x20" by (simp add: word_eq_bits upt_start bit_simps)
  ultimately show "c AND NOT 0x20 = w" using a by auto
qed

text \<open>A word is a keyword when it agrees with it up to case, DEL counting as an underscore.\<close>

definition is_keyword :: "u8 list \<Rightarrow> string \<Rightarrow> bool" where
  "is_keyword z s \<longleftrightarrow>
     list_all2 (\<lambda>c k. sqlite3Tolower c = sqlite3Tolower (of_char k) \<or> k = CHR ''_'' \<and> c = 0x7F) z s"

lemma upper_unat:
  assumes "upper_char k" shows "unat (of_char k :: u8) = of_char k"
proof -
  have "(of_char k :: nat) \<le> 90" using assms by (simp add: upper_char_def)
  moreover have "(of_char k :: u8) = word_of_nat (of_char k)" by (simp only: of_nat_of_char)
  ultimately show ?thesis by (simp add: unat_of_nat)
qed

lemma kw_char_upper:
  assumes "upper_char k"
  shows "kw_char c k \<longleftrightarrow> unat c = of_char k \<or> unat c = of_char k + 32"
proof -
  define w where "w = (of_char k :: u8)"
  have k: "(65::nat) \<le> of_char k" "(of_char k :: nat) \<le> 90" using assms by (simp_all add: upper_char_def)
  have w: "unat w = of_char k" unfolding w_def by (rule upper_unat [OF assms])
  have "unat w < 96" "64 \<le> unat w" using w k by simp_all
  then have "unat w div 32 mod 2 = 0" by presburger
  then have "unat (w AND 0x20) = 0"
    using unat_and_shifted [of 5 1 w] by (simp add: mask_eq_exp_minus_1)
  then have a: "w AND 0x20 = 0" by (simp only: unat_eq_0)
  from a have "uint (w AND 0x20) = 0" by simp
  then have "uint w AND 32 = 0" unfolding unsigned_and_eq by simp
  then have "uint (w OR 0x20) = uint w + 32"
    using plus_and_or [of "uint w" 32] by (simp add: unsigned_or_eq)
  then have "int (unat (w OR 0x20)) = int (unat w + 32)" by simp
  then have "unat (w OR 0x20) = unat w + 32" by (simp only: of_nat_eq_iff)
  moreover have "kw_char c k \<longleftrightarrow> c AND NOT 0x20 = w"
    unfolding w_def by (rule kw_char_word) (use k in simp)
  ultimately show ?thesis
    using a w by (simp only: clear_case) (simp add: word_unat_eq_iff)
qed

lemma kw_char_fold:
  assumes "upper_char k \<or> k = CHR ''_''"
  shows "kw_char c k \<longleftrightarrow> sqlite3Tolower c = sqlite3Tolower (of_char k) \<or> k = CHR ''_'' \<and> c = 0x7F"
  using assms
proof
  assume k: "upper_char k"
  then have "(65::nat) \<le> of_char k" "(of_char k :: nat) \<le> 90" "k \<noteq> CHR ''_''" by (auto simp: upper_char_def)
  then show ?thesis
    by (auto simp: kw_char_upper [OF k] word_unat_eq_iff [of "sqlite3Tolower c"] Tolower_nat upper_unat [OF k] lower_nat_def)
next
  assume k: "k = CHR ''_''"
  have "kw_char c k \<longleftrightarrow> c AND NOT 0x20 = 0x5F" using kw_char_word [of k c] by (simp add: k)
  also have "\<dots> \<longleftrightarrow> c = 0x5F \<or> c = 0x7F" using clear_case [of c "0x5F"] by simp
  also have "\<dots> \<longleftrightarrow> sqlite3Tolower c = sqlite3Tolower (of_char k) \<or> k = CHR ''_'' \<and> c = 0x7F"
    by (auto simp: k word_unat_eq_iff [of "sqlite3Tolower c"] word_unat_eq_iff [of c] Tolower_nat lower_nat_def)
  finally show ?thesis .
qed

lemma charMap_upper: "kw_char c k \<Longrightarrow> upper_char k \<Longrightarrow> charMap c = of_char k + 32"
  using Tolower_nat [of c] kw_char_upper [of k c]
  by (auto simp: charMap_def sqlite3Tolower_def upper_char_def lower_nat_def)

lemma kw_hash_match:
  assumes "i < 147" "list_all2 kw_char (take n z) (keyword_list ! i)" "2 \<le> n" "n \<le> length z"
  shows "(((charMap (at z 0) * 4) XOR (charMap (at z (n - 1)) * 3)) XOR n) mod 127 = kw_hash (keyword_list ! i)"
proof -
  define s where "s = keyword_list ! i"
  have l: "length s = n" using assms(2,4) by (auto simp: s_def dest: list_all2_lengthD)
  then have ne: "s \<noteq> []" using assms(3) by auto
  have "\<And>j. j < n \<Longrightarrow> kw_char (z ! j) (s ! j)"
    using list_all2_nthD [OF assms(2)] assms(4) by (simp add: s_def)
  then have "kw_char (at z 0) (hd s)" "kw_char (at z (n - 1)) (last s)"
    using assms(3,4) l ne by (auto simp: at_def hd_conv_nth last_conv_nth)
  then show ?thesis
    using kw_shape_nth(2,3) [OF assms(1)] l
    by (simp add: charMap_upper kw_hash_def flip: s_def)
qed

lemma is_keyword_match:
  assumes "i < 147" "2 \<le> n" "n \<le> length z"
  shows "kw_match z n i \<longleftrightarrow> is_keyword (take n z) (keyword_list ! i)"
proof -
  have "\<forall>k \<in> set (keyword_list ! i). upper_char k \<or> k = CHR ''_''"
    using kw_shape_nth(4) [OF assms(1)] by (simp add: list_all_iff)
  then have "list_all2 kw_char y (keyword_list ! i) \<longleftrightarrow> is_keyword y (keyword_list ! i)" for y
    unfolding is_keyword_def by (intro list.rel_cong) (auto simp: kw_char_fold)
  then show ?thesis using kw_match_iff [OF assms] by simp
qed

lemma kw_unique:
  assumes "i < 147" "j < 147" "2 \<le> n" "n \<le> length z" "kw_match z n i" "kw_match z n j"
  shows "i = j"
proof -
  have k: "k = l" if "kw_char c k" "kw_char c l" for c k l
    using that by (simp add: kw_char_def)
  have i: "list_all2 kw_char (take n z) (keyword_list ! i)" and j: "list_all2 kw_char (take n z) (keyword_list ! j)"
    using assms kw_match_iff by blast+
  have l: "length (keyword_list ! i) = length (take n z)" "length (keyword_list ! j) = length (take n z)"
    using list_all2_lengthD [OF i] list_all2_lengthD [OF j] by simp_all
  have "keyword_list ! i = keyword_list ! j"
  proof (rule nth_equalityI)
    fix m assume "m < length (keyword_list ! i)"
    then have m: "m < length (take n z)" by (simp only: l)
    from k [OF list_all2_nthD [OF i m] list_all2_nthD [OF j m]]
    show "keyword_list ! i ! m = keyword_list ! j ! m" .
  qed (simp only: l)
  then show ?thesis using assms(1,2) kw_distinct by (simp add: nth_eq_iff_index_eq table_lengths)
qed

text \<open>The hash table finds what a search through all 147 keywords finds.\<close>

lemma KeywordCode_table:
  assumes "n \<le> length z"
  shows "sqlite3KeywordCode z n =
    Some (case find (\<lambda>i. is_keyword (take n z) (keyword_list ! i)) [0..<147] of
            None \<Rightarrow> TK_ID | Some i \<Rightarrow> aKWCode ! i)"
proof (cases "2 \<le> n")
  case False
  have "\<not> is_keyword (take n z) (keyword_list ! i)" if "i < 147" for i
    using kw_shape_nth(1) [OF that] False by (auto simp: is_keyword_def dest!: list_all2_lengthD)
  then have "find (\<lambda>i. is_keyword (take n z) (keyword_list ! i)) [0..<147] = None"
    by (simp add: find_None_iff)
  then show ?thesis using False by (simp add: sqlite3KeywordCode_def keywordCode_def)
next
  case True
  define h where "h = (((charMap (at z 0) * 4) XOR (charMap (at z (n - 1)) * 3)) XOR n) mod 127"
  have h: "h < 127" by (simp add: h_def)
  note ids = ids_ok [OF h]
  have "chain_ids (5 + 142) (int (aKWHash ! h) - 1) = Some (ids_of h)" by (rule chain_ids_mono [OF ids(1)])
  then have "sqlite3KeywordCode z n =
      Some (case find (kw_match z n) (ids_of h) of None \<Rightarrow> TK_ID | Some j \<Rightarrow> aKWCode ! j)"
    using True kw_chain_ids [of KW_FUEL "int (aKWHash ! h) - 1" "ids_of h" z n TK_ID]
    by (simp add: sqlite3KeywordCode_def keywordCode_def KW_FUEL_def h_def Let_def)
  moreover have "find (kw_match z n) (ids_of h) = find (\<lambda>i. is_keyword (take n z) (keyword_list ! i)) [0..<147]"
  proof (cases "find (\<lambda>i. is_keyword (take n z) (keyword_list ! i)) [0..<147]")
    case None
    then have "\<forall>i < 147. \<not> kw_match z n i"
      using is_keyword_match [OF _ True assms] by (auto simp: find_None_iff)
    then have "find (kw_match z n) (ids_of h) = None" using ids(2) by (auto simp: find_None_iff)
    then show ?thesis using None by simp
  next
    case (Some i)
    then have i: "i < 147" "is_keyword (take n z) (keyword_list ! i)" by (auto simp: find_Some_iff)
    then have m: "kw_match z n i" using is_keyword_match [OF i(1) True assms] by simp
    then have "h = kw_hash (keyword_list ! i)"
      unfolding h_def using kw_match_iff [OF i(1) True assms] by (intro kw_hash_match [OF i(1) _ True assms]) simp
    then have "i \<in> set (ids_of h)" using kw_in_chain(1) [OF i(1)] by simp
    then have "find (kw_match z n) (ids_of h) \<noteq> None" using m by (auto simp: find_None_iff)
    then obtain j where j: "find (kw_match z n) (ids_of h) = Some j" by blast
    then have "kw_match z n j" "j \<in> set (ids_of h)" by (auto simp: find_Some_iff)
    then have "j = i" using kw_unique [OF _ i(1) True assms _ m] ids(2) by blast
    then show ?thesis using j Some by simp
  qed
  ultimately show ?thesis by simp
qed

lemma keyword_codes:
  assumes "i < 147" shows "aKWCode ! i \<noteq> TK_ID" "aKWCode ! i \<noteq> 0"
proof -
  have "list_all (\<lambda>t. t \<noteq> TK_ID \<and> t \<noteq> 0) aKWCode" by (simp add: aKWCode_def TK_defs)
  then show "aKWCode ! i \<noteq> TK_ID" "aKWCode ! i \<noteq> 0"
    using assms by (auto simp: list_all_iff table_lengths)
qed

lemma is_keyword_unique:
  assumes "i < 147" "j < 147" "n \<le> length z" "is_keyword (take n z) (keyword_list ! i)" "is_keyword (take n z) (keyword_list ! j)"
  shows "i = j"
proof -
  have "length (keyword_list ! i) = n" using assms(3,4) by (auto simp: is_keyword_def dest: list_all2_lengthD)
  then have n: "2 \<le> n" using kw_shape_nth(1) [OF assms(1)] by simp
  show ?thesis
    using kw_unique [OF assms(1,2) n assms(3)] assms(4,5)
    by (simp add: is_keyword_match [OF assms(1) n assms(3)] is_keyword_match [OF assms(2) n assms(3)])
qed

lemma KeywordCode_of:
  assumes "n \<le> length z" "i < 147" "is_keyword (take n z) (keyword_list ! i)"
  shows "sqlite3KeywordCode z n = Some (aKWCode ! i)"
proof -
  have "find (\<lambda>i. is_keyword (take n z) (keyword_list ! i)) [0..<147] \<noteq> None"
    using assms(2,3) by (auto simp: find_None_iff)
  then obtain j where j: "find (\<lambda>i. is_keyword (take n z) (keyword_list ! i)) [0..<147] = Some j" by blast
  then have "j = i"
    using is_keyword_unique [OF _ assms(2,1) _ assms(3)] by (auto simp: find_Some_iff)
  then show ?thesis using KeywordCode_table [OF assms(1)] j by simp
qed

lemma keyword_set: "(\<exists>s \<in> set keyword_list. P s) \<longleftrightarrow> (\<exists>i < 147. P (keyword_list ! i))"
  by (auto simp: set_conv_nth table_lengths)



end
