(* ===== verification/SqlToken.thy ===== *)
theory SqlToken
  imports SqlKeyword
begin

section \<open>The tokenizer of SQL (tokenize.c)\<close>

text \<open>
  \<open>sqlite3GetToken\<close> cuts the first token off an SQL text. The model is the build for ASCII with window
  functions, blob literals and without the disabled extensions.
\<close>

subsection \<open>Character classes\<close>

definition CC_X :: nat where "CC_X = 0"
definition CC_KYWD0 :: nat where "CC_KYWD0 = 1"
definition CC_KYWD :: nat where "CC_KYWD = 2"
definition CC_DIGIT :: nat where "CC_DIGIT = 3"
definition CC_DOLLAR :: nat where "CC_DOLLAR = 4"
definition CC_VARALPHA :: nat where "CC_VARALPHA = 5"
definition CC_VARNUM :: nat where "CC_VARNUM = 6"
definition CC_SPACE :: nat where "CC_SPACE = 7"
definition CC_QUOTE :: nat where "CC_QUOTE = 8"
definition CC_QUOTE2 :: nat where "CC_QUOTE2 = 9"
definition CC_PIPE :: nat where "CC_PIPE = 10"
definition CC_MINUS :: nat where "CC_MINUS = 11"
definition CC_LT :: nat where "CC_LT = 12"
definition CC_GT :: nat where "CC_GT = 13"
definition CC_EQ :: nat where "CC_EQ = 14"
definition CC_BANG :: nat where "CC_BANG = 15"
definition CC_SLASH :: nat where "CC_SLASH = 16"
definition CC_LP :: nat where "CC_LP = 17"
definition CC_RP :: nat where "CC_RP = 18"
definition CC_SEMI :: nat where "CC_SEMI = 19"
definition CC_PLUS :: nat where "CC_PLUS = 20"
definition CC_STAR :: nat where "CC_STAR = 21"
definition CC_PERCENT :: nat where "CC_PERCENT = 22"
definition CC_COMMA :: nat where "CC_COMMA = 23"
definition CC_AND :: nat where "CC_AND = 24"
definition CC_TILDA :: nat where "CC_TILDA = 25"
definition CC_DOT :: nat where "CC_DOT = 26"
definition CC_ID :: nat where "CC_ID = 27"
definition CC_ILLEGAL :: nat where "CC_ILLEGAL = 28"
definition CC_NUL :: nat where "CC_NUL = 29"
definition CC_BOM :: nat where "CC_BOM = 30"

lemmas CC_defs = CC_X_def CC_KYWD0_def CC_KYWD_def CC_DIGIT_def CC_DOLLAR_def CC_VARALPHA_def CC_VARNUM_def CC_SPACE_def CC_QUOTE_def CC_QUOTE2_def CC_PIPE_def CC_MINUS_def CC_LT_def CC_GT_def CC_EQ_def CC_BANG_def CC_SLASH_def CC_LP_def CC_RP_def CC_SEMI_def CC_PLUS_def CC_STAR_def CC_PERCENT_def CC_COMMA_def CC_AND_def CC_TILDA_def CC_DOT_def CC_ID_def CC_ILLEGAL_def CC_NUL_def CC_BOM_def

definition aiClass :: "nat list" where
  "aiClass =
     [29, 28, 28, 28, 28, 28, 28, 28, 28, 7, 7, 28, 7, 7, 28, 28,
     28, 28, 28, 28, 28, 28, 28, 28, 28, 28, 28, 28, 28, 28, 28, 28,
     7, 15, 8, 5, 4, 22, 24, 8, 17, 18, 21, 20, 23, 11, 26, 16,
     3, 3, 3, 3, 3, 3, 3, 3, 3, 3, 5, 19, 12, 14, 13, 6,
     5, 1, 1, 1, 1, 1, 1, 1, 1, 1, 1, 1, 1, 1, 1, 1,
     1, 1, 1, 1, 1, 1, 1, 1, 0, 2, 2, 9, 28, 28, 28, 2,
     8, 1, 1, 1, 1, 1, 1, 1, 1, 1, 1, 1, 1, 1, 1, 1,
     1, 1, 1, 1, 1, 1, 1, 1, 0, 2, 2, 28, 10, 28, 25, 28,
     27, 27, 27, 27, 27, 27, 27, 27, 27, 27, 27, 27, 27, 27, 27, 27,
     27, 27, 27, 27, 27, 27, 27, 27, 27, 27, 27, 27, 27, 27, 27, 27,
     27, 27, 27, 27, 27, 27, 27, 27, 27, 27, 27, 27, 27, 27, 27, 27,
     27, 27, 27, 27, 27, 27, 27, 27, 27, 27, 27, 27, 27, 27, 27, 27,
     27, 27, 27, 27, 27, 27, 27, 27, 27, 27, 27, 27, 27, 27, 27, 27,
     27, 27, 27, 27, 27, 27, 27, 27, 27, 27, 27, 27, 27, 27, 27, 27,
     27, 27, 27, 27, 27, 27, 27, 27, 27, 27, 27, 27, 27, 27, 27, 30,
     27, 27, 27, 27, 27, 27, 27, 27, 27, 27, 27, 27, 27, 27, 27, 27]"

definition charclass :: "u8 \<Rightarrow> nat" where
  "charclass c = aiClass ! unat c"

text \<open>\<open>scan p z\<close> is the number of rounds of a loop \<open>while( p(z[i]) ) i++\<close>.\<close>

fun scan :: "(u8 \<Rightarrow> bool) \<Rightarrow> u8 list \<Rightarrow> nat" where
  "scan p [] = 0"
| "scan p (c # z) = (if p c then Suc (scan p z) else 0)"

subsection \<open>Tokens (sqlite3GetToken)\<close>

text \<open>The result is the token type and the length. A case of the switch that has a loop of its own is a function.\<close>

fun slash_loop :: "u8 \<Rightarrow> u8 list \<Rightarrow> nat \<Rightarrow> u8 \<times> nat" where
  "slash_loop c [] i = (0, i)"
| "slash_loop c (d # z) i =
     (if c \<noteq> ch CHR ''*'' \<or> d \<noteq> ch CHR ''/'' then if d \<noteq> 0 then slash_loop d z (i + 1) else (0, i) else (c, i))"

definition tok_slash :: "u8 list \<Rightarrow> nat \<times> nat" where
  "tok_slash z =
     (if at z 1 \<noteq> ch CHR ''*'' \<or> at z 2 = 0 then (TK_SLASH, 1)
      else case slash_loop (at z 2) (drop 3 z) 3 of (c, i) \<Rightarrow> (TK_SPACE, if c \<noteq> 0 then i + 1 else i))"

fun quote_loop :: "u8 \<Rightarrow> u8 list \<Rightarrow> nat \<Rightarrow> u8 \<times> nat" where
  "quote_loop delim [] i = (0, i)"
| "quote_loop delim (c # z) i =
     (if c = 0 then (0, i)
      else if c = delim then
        (case z of d # z' \<Rightarrow> if d = delim then quote_loop delim z' (i + 2) else (c, i) | [] \<Rightarrow> (c, i))
      else quote_loop delim z (i + 1))"

definition tok_quote :: "u8 list \<Rightarrow> nat \<times> nat" where
  "tok_quote z =
     (case quote_loop (at z 0) (drop 1 z) 1 of (c, i) \<Rightarrow>
        if c = 0x27 then (TK_STRING, i + 1) else if c \<noteq> 0 then (TK_ID, i + 1) else (TK_ILLEGAL, i))"

definition num_fraction :: "u8 list \<Rightarrow> nat \<Rightarrow> nat \<times> nat" where
  "num_fraction z i =
     (if at z i = ch CHR ''.'' then (TK_FLOAT, i + 1 + scan sqlite3Isdigit (drop (i + 1) z)) else (TK_INTEGER, i))"

definition num_exponent :: "u8 list \<Rightarrow> nat \<times> nat \<Rightarrow> nat \<times> nat" where
  "num_exponent z r =
     (case r of (t, i) \<Rightarrow>
      if (at z i = ch CHR ''e'' \<or> at z i = ch CHR ''E'') \<and>
         (sqlite3Isdigit (at z (i + 1)) \<or>
          (at z (i + 1) = ch CHR ''+'' \<or> at z (i + 1) = ch CHR ''-'') \<and> sqlite3Isdigit (at z (i + 2)))
      then (TK_FLOAT, i + 2 + scan sqlite3Isdigit (drop (i + 2) z)) else (t, i))"

definition tok_digit :: "u8 list \<Rightarrow> nat \<times> nat" where
  "tok_digit z =
     (if at z 0 = ch CHR ''0'' \<and> (at z 1 = ch CHR ''x'' \<or> at z 1 = ch CHR ''X'') \<and> sqlite3Isxdigit (at z 2)
      then (TK_INTEGER, 3 + scan sqlite3Isxdigit (drop 3 z))
      else case num_exponent z (num_fraction z (scan sqlite3Isdigit z)) of
             (t, i) \<Rightarrow> let k = scan IdChar (drop i z) in (if 0 < k then TK_ILLEGAL else t, i + k))"

fun quote2_loop :: "u8 list \<Rightarrow> nat \<Rightarrow> nat \<times> nat" where
  "quote2_loop [] i = (TK_ILLEGAL, i)"
| "quote2_loop (c # z) i =
     (if c = 0 then (TK_ILLEGAL, i) else if c = ch CHR '']'' then (TK_ID, i + 1) else quote2_loop z (i + 1))"

function dollar_loop :: "u8 list \<Rightarrow> nat \<Rightarrow> nat \<Rightarrow> nat \<times> nat \<times> nat" where
  "dollar_loop [] i n = (TK_VARIABLE, i, n)"
| "dollar_loop (c # z) i n =
     (if c = 0 then (TK_VARIABLE, i, n)
      else if IdChar c then dollar_loop z (i + 1) (n + 1)
      else if c = ch CHR ''('' \<and> 0 < n then
        let k = scan (\<lambda>c. c \<noteq> 0 \<and> \<not> sqlite3Isspace c \<and> c \<noteq> ch CHR '')'') z
        in if at z k = ch CHR '')'' then (TK_VARIABLE, i + 1 + k + 1, n) else (TK_ILLEGAL, i + 1 + k, n)
      else if c = ch CHR '':'' \<and> at z 0 = ch CHR '':'' then dollar_loop (drop 1 z) (i + 2) n
      else (TK_VARIABLE, i, n))"
  by pat_completeness auto
termination
  by (relation "measure (\<lambda>(z, i, n). length z)") auto

definition tok_dollar :: "u8 list \<Rightarrow> nat \<times> nat" where
  "tok_dollar z = (case dollar_loop (drop 1 z) 1 0 of (t, i, n) \<Rightarrow> (if n = 0 then TK_ILLEGAL else t, i))"

definition blob_end :: "u8 list \<Rightarrow> nat \<Rightarrow> nat \<times> nat" where
  "blob_end z i =
     (if at z i \<noteq> 0x27 \<or> odd i then (TK_ILLEGAL, i + scan (\<lambda>c. c \<noteq> 0 \<and> c \<noteq> 0x27) (drop i z)) else (TK_BLOB, i))"

definition tok_blob :: "u8 list \<Rightarrow> nat \<times> nat" where
  "tok_blob z =
     (case blob_end z (2 + scan sqlite3Isxdigit (drop 2 z)) of
        (t, i) \<Rightarrow> (t, if at z i \<noteq> 0 then i + 1 else i))"

definition tok_id :: "u8 list \<Rightarrow> nat \<Rightarrow> nat \<times> nat" where
  "tok_id z i = (TK_ID, i + scan IdChar (drop i z))"

definition tok_keyword :: "u8 list \<Rightarrow> (nat \<times> nat) option" where
  "tok_keyword z =
     (let i = 1 + scan (\<lambda>c. charclass c \<le> CC_KYWD) (drop 1 z)
      in if IdChar (at z i) then Some (tok_id z (i + 1))
         else map_option (\<lambda>t. (t, i)) (keywordCode z i TK_ID))"

definition sqlite3GetToken :: "u8 list \<Rightarrow> (nat \<times> nat) option" where
  "sqlite3GetToken z =
     (let cc = charclass (at z 0); c = at z 1 in
      if cc = CC_SPACE then Some (TK_SPACE, 1 + scan sqlite3Isspace (drop 1 z))
      else if cc = CC_MINUS then
        if c = ch CHR ''-'' then Some (TK_SPACE, 2 + scan (\<lambda>c. c \<noteq> 0 \<and> c \<noteq> 0x0A) (drop 2 z))
        else Some (TK_MINUS, 1)
      else if cc = CC_LP then Some (TK_LP, 1)
      else if cc = CC_RP then Some (TK_RP, 1)
      else if cc = CC_SEMI then Some (TK_SEMI, 1)
      else if cc = CC_PLUS then Some (TK_PLUS, 1)
      else if cc = CC_STAR then Some (TK_STAR, 1)
      else if cc = CC_SLASH then Some (tok_slash z)
      else if cc = CC_PERCENT then Some (TK_REM, 1)
      else if cc = CC_EQ then Some (TK_EQ, if c = ch CHR ''='' then 2 else 1)
      else if cc = CC_LT then
        if c = ch CHR ''='' then Some (TK_LE, 2)
        else if c = ch CHR ''>'' then Some (TK_NE, 2)
        else if c = ch CHR ''<'' then Some (TK_LSHIFT, 2)
        else Some (TK_LT, 1)
      else if cc = CC_GT then
        if c = ch CHR ''='' then Some (TK_GE, 2)
        else if c = ch CHR ''>'' then Some (TK_RSHIFT, 2)
        else Some (TK_GT, 1)
      else if cc = CC_BANG then if c \<noteq> ch CHR ''='' then Some (TK_ILLEGAL, 1) else Some (TK_NE, 2)
      else if cc = CC_PIPE then if c \<noteq> ch CHR ''|'' then Some (TK_BITOR, 1) else Some (TK_CONCAT, 2)
      else if cc = CC_COMMA then Some (TK_COMMA, 1)
      else if cc = CC_AND then Some (TK_BITAND, 1)
      else if cc = CC_TILDA then Some (TK_BITNOT, 1)
      else if cc = CC_QUOTE then Some (tok_quote z)
      else if cc = CC_DOT then if \<not> sqlite3Isdigit c then Some (TK_DOT, 1) else Some (tok_digit z)
      else if cc = CC_DIGIT then Some (tok_digit z)
      else if cc = CC_QUOTE2 then Some (quote2_loop (drop 1 z) 1)
      else if cc = CC_VARNUM then Some (TK_VARIABLE, 1 + scan sqlite3Isdigit (drop 1 z))
      else if cc = CC_DOLLAR \<or> cc = CC_VARALPHA then Some (tok_dollar z)
      else if cc = CC_KYWD0 then tok_keyword z
      else if cc = CC_X \<and> c = 0x27 then Some (tok_blob z)
      else if cc = CC_X \<or> cc = CC_KYWD \<or> cc = CC_ID then Some (tok_id z 1)
      else if cc = CC_BOM then
        if c = 0xBB \<and> at z 2 = 0xBF then Some (TK_SPACE, 3) else Some (tok_id z 1)
      else if cc = CC_NUL then Some (TK_ILLEGAL, 0)
      else Some (TK_ILLEGAL, 1))"

subsection \<open>A token is never empty and never longer than the text\<close>

lemma class_check:
  "list_all (\<lambda>(n, k). (k = CC_NUL \<longleftrightarrow> n = 0) \<and> (k = CC_DIGIT \<longleftrightarrow> digit_nat n) \<and> (k = CC_DOT \<longleftrightarrow> n = 46) \<and>
     (k = CC_QUOTE \<longleftrightarrow> n = 34 \<or> n = 39 \<or> n = 96)) (zip [0..<256] aiClass)"
  by code_simp

lemma charclass_facts:
  "charclass c = CC_NUL \<longleftrightarrow> c = 0" "charclass c = CC_DIGIT \<longleftrightarrow> sqlite3Isdigit c" "charclass c = CC_DOT \<longleftrightarrow> c = 0x2E"
  "charclass c = CC_QUOTE \<longleftrightarrow> c = 0x22 \<or> c = 0x27 \<or> c = 0x60"
proof -
  have "length aiClass = 256" by (simp add: aiClass_def)
  moreover have "unat c < 256" using unsigned_less [of c, where 'a = nat] by simp
  ultimately have "(unat c, charclass c) \<in> set (zip [0..<256] aiClass)"
    by (force simp: set_zip charclass_def)
  from bspec [OF class_check [unfolded list_all_iff] this]
  show "charclass c = CC_NUL \<longleftrightarrow> c = 0" "charclass c = CC_DIGIT \<longleftrightarrow> sqlite3Isdigit c" "charclass c = CC_DOT \<longleftrightarrow> c = 0x2E"
    "charclass c = CC_QUOTE \<longleftrightarrow> c = 0x22 \<or> c = 0x27 \<or> c = 0x60"
    by (auto simp: class_ranges word_unat_eq_iff)
qed

lemma scan_le: "scan p z \<le> length z"
  by (induction z) auto

lemma scan_drop_le: "i \<le> length z \<Longrightarrow> i + scan p (drop i z) \<le> length z"
  using scan_le [of p "drop i z"] by simp

lemma at_pos: "at z i \<noteq> 0 \<Longrightarrow> i < length z"
  by (simp add: at_def split: if_splits)

lemma scan_at: "p 0 = False \<Longrightarrow> \<not> p (at z (scan p z))"
  by (induction z) (auto simp: at_def)

lemma slash_loop_bounds:
  "slash_loop c z i = (c', i') \<Longrightarrow> c \<noteq> 0 \<Longrightarrow> i \<le> i' \<and> i' \<le> i + length z \<and> (c' \<noteq> 0 \<longrightarrow> i' < i + length z)"
  by (induction z arbitrary: c i) (fastforce split: if_splits)+

lemma quote_loop_bounds:
  "quote_loop q z i = (c', i') \<Longrightarrow> i \<le> i' \<and> i' \<le> i + length z \<and> (c' \<noteq> 0 \<longrightarrow> i' < i + length z)"
  by (induction q z i rule: quote_loop.induct) (auto split: if_splits list.splits)

lemma quote2_loop_bounds: "quote2_loop z i = (t, i') \<Longrightarrow> i \<le> i' \<and> i' \<le> i + length z"
  by (induction z i rule: quote2_loop.induct) (auto split: if_splits)

lemma dollar_loop_bounds: "dollar_loop z i n = (t, i', n') \<Longrightarrow> i \<le> i' \<and> i' \<le> i + length z"
proof (induction z i n rule: dollar_loop.induct)
  case (2 c z i n)
  have k: "scan p z \<le> length z" "at z (scan p z) \<noteq> 0 \<Longrightarrow> scan p z < length z" for p
    by (simp_all add: scan_le at_pos)
  have "z \<noteq> []" if "at z 0 = ch CHR '':''"
    using that by (auto simp: at_def ch_def)
  then show ?case
    using 2 k [of "\<lambda>c. c \<noteq> 0 \<and> \<not> sqlite3Isspace c \<and> c \<noteq> ch CHR '')''"]
    by (cases z) (auto split: if_splits simp: Let_def ch_def)
qed simp

definition tok_ok :: "u8 list \<Rightarrow> (nat \<times> nat) option \<Rightarrow> bool" where
  "tok_ok z r \<longleftrightarrow> (\<exists>t n. r = Some (t, n) \<and> n \<le> length z \<and> 0 < n)"

lemma tok_okI: "n \<le> length z \<Longrightarrow> 0 < n \<Longrightarrow> tok_ok z (Some (t, n))"
  by (simp add: tok_ok_def)

lemma tok_slash_ok: "z \<noteq> [] \<Longrightarrow> tok_ok z (Some (tok_slash z))"
proof (cases "at z 1 \<noteq> ch CHR ''*'' \<or> at z 2 = 0")
  case True
  assume "z \<noteq> []"
  with True show ?thesis by (cases z) (simp_all add: tok_slash_def tok_ok_def)
next
  case False
  obtain c i where l: "slash_loop (at z 2) (drop 3 z) 3 = (c, i)" by (cases "slash_loop (at z 2) (drop 3 z) 3")
  have "3 \<le> length z" using False at_pos [of z 2] by simp
  with False slash_loop_bounds [OF l] show ?thesis by (auto simp: tok_slash_def l tok_ok_def)
qed

lemma tok_quote_ok: "z \<noteq> [] \<Longrightarrow> tok_ok z (Some (tok_quote z))"
proof -
  assume "z \<noteq> []"
  then have "1 \<le> length z" by (cases z) auto
  moreover obtain c i where l: "quote_loop (at z 0) (drop 1 z) 1 = (c, i)"
    by (cases "quote_loop (at z 0) (drop 1 z) 1")
  ultimately show ?thesis
    using quote_loop_bounds [OF l] by (auto simp: tok_quote_def l tok_ok_def)
qed

lemma tok_dollar_ok: "z \<noteq> [] \<Longrightarrow> tok_ok z (Some (tok_dollar z))"
proof -
  assume "z \<noteq> []"
  then have "1 \<le> length z" by (cases z) auto
  moreover obtain t i n where l: "dollar_loop (drop 1 z) 1 0 = (t, i, n)"
    by (cases "dollar_loop (drop 1 z) 1 0") auto
  ultimately show ?thesis
    using dollar_loop_bounds [OF l] by (auto simp: tok_dollar_def l tok_ok_def)
qed

lemma blob_end_bounds: "i \<le> length z \<Longrightarrow> blob_end z i = (t, j) \<Longrightarrow> i \<le> j \<and> j \<le> length z"
  using scan_drop_le [of i z] by (auto simp: blob_end_def split: if_splits)

lemma tok_blob_ok: "at z 1 = 0x27 \<Longrightarrow> tok_ok z (Some (tok_blob z))"
proof -
  assume "at z 1 = 0x27"
  then have "2 \<le> length z" using at_pos [of z 1] by simp
  then have s: "2 + scan sqlite3Isxdigit (drop 2 z) \<le> length z" by (rule scan_drop_le)
  obtain t j where b: "blob_end z (2 + scan sqlite3Isxdigit (drop 2 z)) = (t, j)"
    by (cases "blob_end z (2 + scan sqlite3Isxdigit (drop 2 z))")
  have "2 \<le> j" "j \<le> length z" using blob_end_bounds [OF s b] by simp_all
  then show ?thesis
    unfolding tok_blob_def b tok_ok_def using at_pos [of z j] by auto
qed

lemma num_fraction_bounds:
  assumes "i \<le> length z" "num_fraction z i = (t, j)"
  shows "i \<le> j" "j \<le> length z" "at z i = ch CHR ''.'' \<Longrightarrow> i < j"
proof -
  have "i + 1 \<le> length z" if "at z i = ch CHR ''.''" using at_pos [of z i] that by (simp add: ch_def)
  then show "i \<le> j" "j \<le> length z" "at z i = ch CHR ''.'' \<Longrightarrow> i < j"
    using assms scan_drop_le [of "i + 1" z] by (auto simp: num_fraction_def split: if_splits)
qed

lemma num_exponent_bounds:
  assumes "i \<le> length z" "num_exponent z (t, i) = (t', j)" shows "i \<le> j" "j \<le> length z"
proof -
  have "\<not> sqlite3Isdigit 0" by (simp add: class_ranges digit_nat_def)
  then have "i + 2 \<le> length z" if "sqlite3Isdigit (at z (i + 1)) \<or> at z (i + 1) = ch CHR ''+'' \<or> at z (i + 1) = ch CHR ''-''"
    using that at_pos [of z "i + 1"] by (cases "at z (i + 1) = 0") (auto simp: ch_def)
  then show "i \<le> j" "j \<le> length z"
    using assms scan_drop_le [of "i + 2" z] by (auto simp: num_exponent_def split: if_splits)
qed

lemma tok_digit_ok:
  assumes "sqlite3Isdigit (at z 0) \<or> at z 0 = ch CHR ''.''" shows "tok_ok z (Some (tok_digit z))"
proof -
  have nz: "\<not> sqlite3Isdigit 0" "\<not> sqlite3Isxdigit 0"
    by (simp_all add: class_ranges digit_nat_def xdigit_nat_def)
  show ?thesis
  proof (cases "at z 0 = ch CHR ''0'' \<and> (at z 1 = ch CHR ''x'' \<or> at z 1 = ch CHR ''X'') \<and> sqlite3Isxdigit (at z 2)")
    case True
    then have "2 < length z" using nz(2) by (auto simp: at_def split: if_splits)
    then have "3 + scan sqlite3Isxdigit (drop 3 z) \<le> length z" by (intro scan_drop_le) simp
    then show ?thesis using True by (simp add: tok_digit_def tok_ok_def)
  next
    case False
    define i where "i = scan sqlite3Isdigit z"
    obtain t j where f: "num_fraction z i = (t, j)" by (cases "num_fraction z i")
    obtain t' k where e: "num_exponent z (t, j) = (t', k)" by (cases "num_exponent z (t, j)")
    have "i \<le> length z" by (simp add: i_def scan_le)
    note fb = num_fraction_bounds [OF this f]
    note eb = num_exponent_bounds [OF fb(2) e]
    have "0 < j"
    proof (cases "sqlite3Isdigit (at z 0)")
      case True
      then have "0 < i" by (cases z) (use nz in \<open>auto simp: i_def at_def\<close>)
      then show ?thesis using fb(1) by simp
    next
      case no: False
      then have "i = 0" by (cases z) (auto simp: i_def at_def)
      then show ?thesis using fb(3) no assms by simp
    qed
    moreover have "k + scan IdChar (drop k z) \<le> length z" using eb(2) by (rule scan_drop_le)
    ultimately show ?thesis
      unfolding tok_digit_def if_not_P [OF False] i_def [symmetric] f e
      using eb(1) by (simp add: tok_ok_def Let_def)
  qed
qed

lemma tok_id_ok: "i \<le> length z \<Longrightarrow> 0 < i \<Longrightarrow> tok_ok z (Some (tok_id z i))"
  using scan_drop_le [of i z IdChar] by (simp add: tok_id_def tok_ok_def)

lemma keywordCode_total: "n \<le> length z \<Longrightarrow> \<exists>t. keywordCode z n TK_ID = Some t"
  using KeywordCode_table [of n z] by (auto simp: sqlite3KeywordCode_def)

lemma tok_keyword_ok: "z \<noteq> [] \<Longrightarrow> tok_ok z (tok_keyword z)"
proof -
  assume "z \<noteq> []"
  then have "1 \<le> length z" by (cases z) auto
  then have i: "1 + scan (\<lambda>c. charclass c \<le> CC_KYWD) (drop 1 z) \<le> length z" by (rule scan_drop_le)
  define i where "i = 1 + scan (\<lambda>c. charclass c \<le> CC_KYWD) (drop 1 z)"
  have "IdChar 0 = False" by (simp add: class_ranges idchar_nat_def alpha_nat_def digit_nat_def)
  then have "i + 1 \<le> length z" if "IdChar (at z i)" using that at_pos [of z i] by (cases "at z i = 0") auto
  moreover have "tok_keyword z = (if IdChar (at z i) then Some (tok_id z (i + 1))
      else map_option (\<lambda>t. (t, i)) (keywordCode z i TK_ID))"
    by (simp only: tok_keyword_def Let_def i_def)
  ultimately show ?thesis
    using i [folded i_def] keywordCode_total [of i z] tok_id_ok [of "i + 1" z]
    by (auto simp: tok_ok_def i_def)
qed

lemma IdChar_0: "\<not> IdChar 0"
  by (simp add: class_ranges idchar_nat_def alpha_nat_def digit_nat_def)

lemma tok_ok_if: "(c \<Longrightarrow> tok_ok z a) \<Longrightarrow> (\<not> c \<Longrightarrow> tok_ok z b) \<Longrightarrow> tok_ok z (if c then a else b)"
  by simp

lemma GetToken_ok: "z \<noteq> [] \<Longrightarrow> at z 0 \<noteq> 0 \<Longrightarrow> tok_ok z (sqlite3GetToken z)"
proof -
  assume z: "z \<noteq> []" "at z 0 \<noteq> 0"
  then have one: "1 \<le> length z" by (cases z) auto
  have fixed: "tok_ok z (Some (t, 1))" "at z 1 = c \<Longrightarrow> c \<noteq> 0 \<Longrightarrow> tok_ok z (Some (t, 2))"
    "a \<and> at z 2 = c \<Longrightarrow> c \<noteq> 0 \<Longrightarrow> tok_ok z (Some (t, 3))" for t c a
    using one at_pos [of z 1] at_pos [of z 2] by (auto simp: tok_ok_def)
  have eq: "tok_ok z (Some (t, if at z 1 = ch CHR ''='' then 2 else 1))" for t
    using fixed(1,2) by (simp add: ch_def)
  have ne: "\<not> at z 1 \<noteq> c \<Longrightarrow> c \<noteq> 0 \<Longrightarrow> tok_ok z (Some (t, 2))" for t c using fixed(2) by simp
  have s1: "tok_ok z (Some (t, 1 + scan p (drop 1 z)))" for t p
    using scan_drop_le [OF one, of p] by (simp add: tok_ok_def)
  have s2: "tok_ok z (Some (t, 2 + scan p (drop 2 z)))" if "at z 1 = ch CHR ''-''" for t p
  proof -
    have "2 \<le> length z" using at_pos [of z 1] that by (simp add: ch_def)
    from scan_drop_le [OF this, of p] show ?thesis by (simp add: tok_ok_def)
  qed
  have d: "charclass (at z 0) = CC_DOT \<Longrightarrow> tok_ok z (Some (tok_digit z))"
    "charclass (at z 0) = CC_DIGIT \<Longrightarrow> tok_ok z (Some (tok_digit z))"
    using tok_digit_ok [of z] by (simp_all add: charclass_facts ch_def)
  have b: "a \<and> at z 1 = 0x27 \<Longrightarrow> tok_ok z (Some (tok_blob z))" for a using tok_blob_ok by simp
  have q2: "tok_ok z (Some (quote2_loop (drop 1 z) 1))"
    using quote2_loop_bounds [of "drop 1 z" 1] one by (cases "quote2_loop (drop 1 z) 1") (force simp: tok_ok_def)
  have nul: "charclass (at z 0) = CC_NUL \<Longrightarrow> tok_ok z r" for r using z(2) by (simp add: charclass_facts)
  note leaf = fixed(1) eq s1 q2 tok_slash_ok [OF z(1)] tok_quote_ok [OF z(1)] tok_dollar_ok [OF z(1)]
    tok_keyword_ok [OF z(1)] tok_id_ok [OF one zero_less_one]
  show ?thesis
    unfolding sqlite3GetToken_def Let_def
    by (intro tok_ok_if;
        (rule leaf | erule s2 d b nul | (erule fixed(2,3) ne, simp add: ch_def)))
qed

subsection \<open>Quoted text is one token\<close>

lemma quote_loop_quoted:
  "0 \<notin> set z \<Longrightarrow> q \<noteq> 0 \<Longrightarrow> rest = [] \<or> hd rest \<noteq> q \<Longrightarrow>
   quote_loop q (concat (map (\<lambda>b. if b = q then [q, q] else [b]) z) @ q # rest) i =
     (q, i + length (concat (map (\<lambda>b. if b = q then [q, q] else [b]) z)))"
  by (induction z arbitrary: i) (auto split: list.splits)

text \<open>
  C33. Quoting and the tokenizer agree: a text without zero bytes, put into single quotes with each quote
  in it doubled, is cut off as one string token whatever follows but another quote (in double quotes or
  backquotes as one identifier), and \<open>sqlite3Dequote\<close> gives back the text from that token.
\<close>

theorem quoted_token:
  assumes "q \<in> {0x22, 0x27, 0x60}" and "0 \<notin> set z" and "rest = [] \<or> hd rest \<noteq> q"
  shows "\<exists>n. sqlite3GetToken (quote_name q z @ rest) = Some (if q = 0x27 then TK_STRING else TK_ID, n) \<and>
    sqlite3Dequote (Some (take n (quote_name q z @ rest))) = Some (Some z)"
proof -
  let ?w = "quote_name q z @ rest"
  have "charclass q = CC_QUOTE" using assms(1) by (auto simp: charclass_facts)
  then have c: "charclass (at ?w 0) = CC_QUOTE" by (simp add: quote_name_def at_def)
  have "q \<noteq> 0" using assms(1) by auto
  from quote_loop_quoted [OF assms(2) this assms(3), of 1]
  have l: "quote_loop (at ?w 0) (drop 1 ?w) 1 = (q, length (quote_name q z) - 1)"
    by (simp add: quote_name_def at_def)
  have "tok_quote ?w = (if q = 0x27 then TK_STRING else TK_ID, length (quote_name q z))"
    unfolding tok_quote_def l using \<open>q \<noteq> 0\<close> by (simp add: quote_name_def)
  moreover have "sqlite3GetToken ?w = Some (tok_quote ?w)"
    unfolding sqlite3GetToken_def Let_def c by (simp add: CC_defs)
  ultimately show ?thesis
    using dequote_quote [OF assms(1)] by simp
qed

theorem quoted_token_witness:
  "\<exists>n. sqlite3GetToken (chars ''\"a\"\"b\".c'') = Some (TK_ID, n) \<and>
    sqlite3Dequote (Some (take n (chars ''\"a\"\"b\".c''))) = Some (Some (chars ''a\"b''))"
  using quoted_token [of "0x22" "chars ''a\"b''" "chars ''.c''"] by (simp add: quote_name_def chars_def)

end
