(* ===== verification/SqlRunParser.thy ===== *)
theory SqlRunParser
  imports SqlToken SqlMemJournal "HOL-Library.Monad_Syntax"
begin

section \<open>Running the parser (sqlite3RunParser of tokenize.c)\<close>

text \<open>
  The loop that cuts a text into tokens and feeds them to the parser generated from the grammar, which is a
  parameter, with the look-ahead that decides whether \<open>WINDOW\<close>, \<open>OVER\<close> and \<open>FILTER\<close> are keywords. A message
  that cannot be allocated is not modelled.
\<close>

text \<open>\<open>yyFallback\<close> of the parser: the token a keyword falls back to, 0 for none.\<close>

definition yyFallback :: "nat list" where
  "yyFallback =
     [0, 0, 59, 59, 59, 59, 0, 59, 59, 59, 0, 59, 59, 59, 59, 0, 0, 0,
     59, 0, 0, 59, 0, 0, 0, 59, 0, 59, 59, 59, 59, 59, 59, 59, 59, 59,
     59, 59, 59, 59, 59, 59, 59, 0, 0, 0, 59, 59, 0, 0, 0, 0, 0, 0,
     0, 0, 0, 0, 0, 0, 59, 59, 59, 59, 59, 59, 59, 59, 59, 59, 59, 59,
     59, 59, 59, 59, 59, 59, 59, 59, 59, 59, 59, 59, 59, 59, 59, 59, 59, 59,
     59, 59, 59, 59, 59, 59, 59, 59, 59, 59, 59, 0, 0, 0, 0, 0, 0, 0,
     0, 0, 0, 0, 0, 0, 0, 0, 0, 0, 0, 0, 0, 0, 0, 0, 0, 0,
     0, 0, 0, 0, 0, 0, 0, 0, 0, 0, 0, 0, 0, 0, 0, 0, 0, 0,
     0, 0, 0, 0, 0, 0, 0, 0, 0, 0, 0, 0, 0, 0, 0, 0, 0, 0,
     0, 0, 0, 0, 0, 0, 0, 0, 0, 0, 0, 0, 0, 0, 0, 0, 0, 0,
     0, 0, 0, 0]"

text \<open>A zero byte ends the text: the token is illegal and empty.\<close>

lemma GetToken_end: "at z 0 = 0 \<Longrightarrow> sqlite3GetToken z = Some (TK_ILLEGAL, 0)"
proof -
  assume "at z 0 = 0"
  then have "charclass (at z 0) = CC_NUL" by (simp only: charclass_facts(1))
  then show ?thesis by (simp add: sqlite3GetToken_def CC_defs)
qed

lemma GetToken_progress:
  assumes "at z 0 \<noteq> 0"
  obtains t n where "sqlite3GetToken z = Some (t, n)" "0 < n" "n \<le> length z"
proof -
  have "z \<noteq> []" using assms by (auto simp: at_def)
  from GetToken_ok [OF this assms] show thesis using that by (auto simp: tok_ok_def)
qed

lemma space_shorter: "sqlite3GetToken z = Some (TK_SPACE, n) \<Longrightarrow> length (drop n z) < length z"
proof -
  assume g: "sqlite3GetToken z = Some (TK_SPACE, n)"
  then have "at z 0 \<noteq> 0" using GetToken_end [of z] by (auto simp: TK_SPACE_def TK_ILLEGAL_def)
  then obtain t m where "sqlite3GetToken z = Some (t, m)" "0 < m" "m \<le> length z" by (rule GetToken_progress)
  then show ?thesis using g by simp
qed

subsection \<open>Result codes and their texts\<close>

definition SQLITE_ERROR :: int where "SQLITE_ERROR = 1"
definition SQLITE_NOMEM :: int where "SQLITE_NOMEM = 7"
definition SQLITE_INTERRUPT :: int where "SQLITE_INTERRUPT = 9"
definition SQLITE_TOOBIG :: int where "SQLITE_TOOBIG = 18"
definition SQLITE_ROW :: int where "SQLITE_ROW = 100"
definition SQLITE_DONE :: int where "SQLITE_DONE = 101"
definition SQLITE_ABORT_ROLLBACK :: int where "SQLITE_ABORT_ROLLBACK = 4 OR push_bit 8 2"

definition aMsg :: "string option list" where
  "aMsg =
     [Some ''not an error'', Some ''SQL logic error'', None, Some ''access permission denied'',
      Some ''query aborted'', Some ''database is locked'', Some ''database table is locked'',
      Some ''out of memory'', Some ''attempt to write a readonly database'', Some ''interrupted'',
      Some ''disk I/O error'', Some ''database disk image is malformed'', Some ''unknown operation'',
      Some ''database or disk is full'', Some ''unable to open database file'', Some ''locking protocol'',
      None, Some ''database schema has changed'', Some ''string or blob too big'', Some ''constraint failed'',
      Some ''datatype mismatch'', Some ''bad parameter or other API misuse'', None,
      Some ''authorization denied'', None, Some ''column index out of range'', Some ''file is not a database'',
      Some ''notification message'', Some ''warning message'']"

definition sqlite3ErrStr :: "int \<Rightarrow> string" where
  "sqlite3ErrStr rc =
     (if rc = SQLITE_ABORT_ROLLBACK then ''abort due to ROLLBACK''
      else if rc = SQLITE_ROW then ''another row available''
      else if rc = SQLITE_DONE then ''no more rows available''
      else let rc = rc AND 0xFF in
        if 0 \<le> rc \<and> rc < int (length aMsg) \<and> aMsg ! nat rc \<noteq> None then the (aMsg ! nat rc)
        else ''unknown error'')"

subsection \<open>Looking ahead (getToken)\<close>

text \<open>\<open>getToken\<close> returns the token type and the text behind the token.\<close>

definition sqlite3ParserFallback :: "nat \<Rightarrow> nat" where
  "sqlite3ParserFallback iToken = yyFallback ! iToken"

definition as_id :: "nat \<Rightarrow> nat" where
  "as_id t =
     (if t = TK_ID \<or> t = TK_STRING \<or> t = TK_JOIN_KW \<or> t = TK_WINDOW \<or> t = TK_OVER \<or> sqlite3ParserFallback t = TK_ID
      then TK_ID else t)"

function getToken :: "u8 list \<Rightarrow> (nat \<times> u8 list) option" where
  "getToken z =
     (case sqlite3GetToken z of
        None \<Rightarrow> None
      | Some (t, n) \<Rightarrow> if t = TK_SPACE then getToken (drop n z) else Some (as_id t, drop n z))"
  by auto
termination
  by (relation "measure length") (auto dest: space_shorter)

declare getToken.simps [simp del]

definition analyzeWindowKeyword :: "u8 list \<Rightarrow> nat option" where
  "analyzeWindowKeyword z = do {
     (t, z) \<leftarrow> getToken z;
     if t \<noteq> TK_ID then Some TK_ID
     else do {
       (t, z) \<leftarrow> getToken z;
       if t \<noteq> TK_AS then Some TK_ID else Some TK_WINDOW
     }
   }"

definition analyzeOverKeyword :: "u8 list \<Rightarrow> int \<Rightarrow> nat option" where
  "analyzeOverKeyword z lastToken =
     (if lastToken = int TK_RP
      then do { (t, z) \<leftarrow> getToken z; if t = TK_LP \<or> t = TK_ID then Some TK_OVER else Some TK_ID }
      else Some TK_ID)"

definition analyzeFilterKeyword :: "u8 list \<Rightarrow> int \<Rightarrow> nat option" where
  "analyzeFilterKeyword z lastToken =
     (if lastToken = int TK_RP
      then do { (t, z) \<leftarrow> getToken z; if t = TK_LP then Some TK_FILTER else Some TK_ID }
      else Some TK_ID)"

subsection \<open>Feeding the parser (sqlite3RunParser)\<close>

text \<open>
  The parser takes a token type and the token, a place in the text and a length, and changes its own
  state \<open>'p\<close> (the database connection included) and the two fields of \<open>Parse\<close> that the loop reads.
  \<open>nErr\<close> of \<open>Parse\<close> is read by the parser only. The loop reads \<open>db->u1.isInterrupted\<close> once per round
  at most: \<open>intr k\<close> is what it reads in round \<open>k\<close>.
\<close>

record 'p run =
  zSql :: "u8 list"
  mxSqlLen :: int
  lastTokenParsed :: int
  rc :: int
  zErrMsg :: "u8 list option"
  parser :: 'p

type_synonym 'p parse_fn = "nat \<Rightarrow> u8 list \<times> nat \<Rightarrow> 'p \<Rightarrow> 'p \<times> int \<times> u8 list option"

datatype 'a flow = Break 'a | Continue 'a

definition sqlite3ErrorMsg :: "bool \<Rightarrow> u8 list \<Rightarrow> 'p run \<Rightarrow> 'p run" where
  "sqlite3ErrorMsg suppressErr zMsg s = (if suppressErr then s else s\<lparr>zErrMsg := Some zMsg, rc := SQLITE_ERROR\<rparr>)"

definition unrecognized :: "u8 list \<Rightarrow> nat \<Rightarrow> u8 list" where
  "unrecognized z n = chars ''unrecognized token: \"'' @ take n z @ chars ''\"''"

definition run_feed :: "'p parse_fn \<Rightarrow> nat \<Rightarrow> nat \<Rightarrow> 'p run \<Rightarrow> 'p run flow" where
  "run_feed parse tokenType n s =
     (case parse tokenType (zSql s, n) (parser s) of
        (p, r, m) \<Rightarrow>
          let s = s\<lparr>parser := p, rc := r, zErrMsg := m, lastTokenParsed := int tokenType, zSql := drop n (zSql s)\<rparr>
          in if rc s \<noteq> SQLITE_OK then Break s else Continue s)"

definition run_step :: "'p parse_fn \<Rightarrow> bool \<Rightarrow> bool \<Rightarrow> 'p run \<Rightarrow> 'p run flow option" where
  "run_step parse suppressErr isInterrupted s0 = do {
     (tokenType, n) \<leftarrow> sqlite3GetToken (zSql s0);
     let s = s0\<lparr>mxSqlLen := mxSqlLen s0 - int n\<rparr>;
     if mxSqlLen s < 0 then Some (Break (s\<lparr>rc := SQLITE_TOOBIG\<rparr>))
     else if tokenType \<ge> TK_WINDOW then
       if isInterrupted then Some (Break (s\<lparr>rc := SQLITE_INTERRUPT\<rparr>))
       else if tokenType = TK_SPACE then Some (Continue (s\<lparr>zSql := drop n (zSql s)\<rparr>))
       else if at (zSql s) 0 = 0 then
         if lastTokenParsed s = int TK_SEMI then Some (run_feed parse 0 0 s)
         else if lastTokenParsed s = 0 then Some (Break s)
         else Some (run_feed parse TK_SEMI 0 s)
       else if tokenType = TK_WINDOW then
         map_option (\<lambda>t. run_feed parse t n s) (analyzeWindowKeyword (drop 6 (zSql s)))
       else if tokenType = TK_OVER then
         map_option (\<lambda>t. run_feed parse t n s) (analyzeOverKeyword (drop 4 (zSql s)) (lastTokenParsed s))
       else if tokenType = TK_FILTER then
         map_option (\<lambda>t. run_feed parse t n s) (analyzeFilterKeyword (drop 6 (zSql s)) (lastTokenParsed s))
       else Some (Break (sqlite3ErrorMsg suppressErr (unrecognized (zSql s) n) s))
     else Some (run_feed parse tokenType n s)
   }"

subsection \<open>The loop ends\<close>

definition run_phase :: "'p run \<Rightarrow> nat" where
  "run_phase s = (if lastTokenParsed s = 0 then 0 else if lastTokenParsed s = int TK_SEMI then 1 else 2)"

lemma run_feed_Continue:
  "run_feed parse t n s = Continue s' \<Longrightarrow> zSql s' = drop n (zSql s) \<and> lastTokenParsed s' = int t"
  by (auto simp: run_feed_def Let_def split: prod.splits if_splits)

lemma run_step_smaller:
  assumes "run_step parse su i s = Some (Continue s')"
  shows "3 * length (zSql s') + run_phase s' < 3 * length (zSql s) + run_phase s"
proof (cases "at (zSql s) 0 = 0")
  case True
  then show ?thesis
    using assms
    by (auto simp: run_step_def GetToken_end Let_def run_phase_def TK_defs split: if_splits dest!: run_feed_Continue)
next
  case False
  then obtain t n where g: "sqlite3GetToken (zSql s) = Some (t, n)" "0 < n" "n \<le> length (zSql s)"
    by (rule GetToken_progress)
  have l: "3 * length (drop n (zSql s)) + k < 3 * length (zSql s) + m" if "k \<le> 2 \<or> k = m" for k m
    using that g(2,3) by auto
  have p: "run_phase (s' :: 'a run) \<le> 2" by (simp add: run_phase_def)
  have r: "run_phase s' = run_phase s" if "s' = s\<lparr>mxSqlLen := m, zSql := z\<rparr>" for m z
    using that by (simp add: run_phase_def)
  have "zSql s' = drop n (zSql s)"
    using assms False g(1)
    by (auto simp: run_step_def Let_def split: if_splits dest!: run_feed_Continue)
  then show ?thesis using l p by simp
qed

function run_loop :: "'p parse_fn \<Rightarrow> bool \<Rightarrow> (nat \<Rightarrow> bool) \<Rightarrow> 'p run \<Rightarrow> 'p run option" where
  "run_loop parse suppressErr intr s =
     (case run_step parse suppressErr (intr 0) s of
        None \<Rightarrow> None
      | Some (Break s') \<Rightarrow> Some s'
      | Some (Continue s') \<Rightarrow> run_loop parse suppressErr (\<lambda>k. intr (Suc k)) s')"
  by auto
termination
  by (relation "measure (\<lambda>(f, b, i, s). 3 * length (zSql s) + run_phase s)") (auto dest: run_step_smaller)

declare run_loop.simps [simp del]

record 'p parsed =
  nErr :: int
  pzErrMsg :: "u8 list option"
  parse_rc :: int
  zTail :: "u8 list"
  parse_end :: 'p

text \<open>
  The engine is allocated first; \<open>oom\<close> tells from the parser's state whether \<open>db->mallocFailed\<close> is set and
  \<open>oomFault\<close> sets it. What follows the loop and frees objects is part of
  the parser's state.
\<close>

definition run_finish :: "('p \<Rightarrow> bool) \<Rightarrow> 'p run \<Rightarrow> 'p parsed" where
  "run_finish oom s =
     (let r = (if oom (parser s) then SQLITE_NOMEM else rc s);
          m = (if r \<noteq> SQLITE_OK \<and> r \<noteq> SQLITE_DONE \<and> zErrMsg s = None then Some (chars (sqlite3ErrStr r)) else zErrMsg s)
      in \<lparr>nErr = (if m = None then 0 else 1), pzErrMsg = m, parse_rc = r, zTail = zSql s, parse_end = parser s\<rparr>)"

definition sqlite3RunParser ::
  "'p parse_fn \<Rightarrow> ('p \<Rightarrow> bool) \<Rightarrow> ('p \<Rightarrow> 'p) \<Rightarrow> bool \<Rightarrow> bool \<Rightarrow> (nat \<Rightarrow> bool) \<Rightarrow> int \<Rightarrow> 'p \<Rightarrow> u8 list \<Rightarrow> 'p parsed option" where
  "sqlite3RunParser parse oom oomFault engine_ok suppressErr intr limit p z =
     (if \<not> engine_ok then
        Some \<lparr>nErr = SQLITE_NOMEM, pzErrMsg = None, parse_rc = SQLITE_OK, zTail = z, parse_end = oomFault p\<rparr>
      else map_option (run_finish oom)
        (run_loop parse suppressErr intr
          \<lparr>zSql = z, mxSqlLen = limit, lastTokenParsed = - 1, rc = SQLITE_OK, zErrMsg = None, parser = p\<rparr>))"

subsection \<open>What the parser is given\<close>

text \<open>
  The tokens of a text with their places, without the spaces: up to the end or to the first illegal
  token, which is the last of the list; and the place of the end.
\<close>

type_synonym token = "nat \<times> u8 list \<times> nat"

function lex :: "u8 list \<Rightarrow> token list \<times> u8 list" where
  "lex z =
     (if at z 0 = 0 then ([], z)
      else case sqlite3GetToken z of
        None \<Rightarrow> ([], z)
      | Some (t, n) \<Rightarrow>
          if t = TK_SPACE then lex (drop n z)
          else if t = TK_ILLEGAL then ([(t, z, n)], z)
          else (case lex (drop n z) of (ts, e) \<Rightarrow> ((t, z, n) # ts, e)))"
  by auto
termination
  by (relation "measure length") (auto elim!: GetToken_progress)

declare lex.simps [simp del]

text \<open>\<open>sqlite3_complete\<close> takes the semicolon of a parameter \<open>$a(;\<close> for the end of a statement; to the tokenizer
  it is inside the token.\<close>

lemma complete_inside_parameter:
  "sqlite3_complete (chars ''SELECT $a(;'') \<and> map fst (fst (lex (chars ''SELECT $a(;''))) = [TK_SELECT, TK_ILLEGAL]"
  by code_simp

text \<open>\<open>WINDOW\<close>, \<open>OVER\<close> and \<open>FILTER\<close> are keywords by what stands around them, and else identifiers.\<close>

definition window_token :: "nat \<Rightarrow> int \<Rightarrow> nat list \<Rightarrow> nat" where
  "window_token t prev ts =
     (if t = TK_WINDOW then
        (case ts of a # b # _ \<Rightarrow> if as_id a = TK_ID \<and> as_id b = TK_AS then TK_WINDOW else TK_ID | _ \<Rightarrow> TK_ID)
      else if t = TK_OVER then
        (case ts of a # _ \<Rightarrow> if prev = int TK_RP \<and> (as_id a = TK_LP \<or> as_id a = TK_ID) then TK_OVER else TK_ID | _ \<Rightarrow> TK_ID)
      else if t = TK_FILTER then
        (case ts of a # _ \<Rightarrow> if prev = int TK_RP \<and> as_id a = TK_LP then TK_FILTER else TK_ID | _ \<Rightarrow> TK_ID)
      else t)"

text \<open>The tokens one after the other until the parser stops; at the end of the text a semicolon
  unless there was one, and token 0.\<close>

fun feed_end :: "'p parse_fn \<Rightarrow> nat list \<Rightarrow> 'p run \<Rightarrow> 'p run" where
  "feed_end parse [] s = s"
| "feed_end parse (t # ts) s = (case run_feed parse t 0 s of Break s \<Rightarrow> s | Continue s \<Rightarrow> feed_end parse ts s)"

fun feed_all :: "'p parse_fn \<Rightarrow> bool \<Rightarrow> token list \<Rightarrow> u8 list \<Rightarrow> 'p run \<Rightarrow> 'p run" where
  "feed_all parse suppressErr [] e s =
     feed_end parse (if lastTokenParsed s = int TK_SEMI then [0] else if lastTokenParsed s = 0 then [] else [TK_SEMI, 0])
       (s\<lparr>zSql := e\<rparr>)"
| "feed_all parse suppressErr ((t, z, n) # ts) e s =
     (if t = TK_ILLEGAL then sqlite3ErrorMsg suppressErr (unrecognized z n) (s\<lparr>zSql := z\<rparr>)
      else case run_feed parse (window_token t (lastTokenParsed s) (map fst ts)) n (s\<lparr>zSql := z\<rparr>) of
        Break s \<Rightarrow> s
      | Continue s \<Rightarrow> feed_all parse suppressErr ts e s)"

lemma lex_cases:
  obtains (end_of_text) "at z 0 = 0" "lex z = ([], z)" "sqlite3GetToken z = Some (TK_ILLEGAL, 0)"
  | (space) n where "at z 0 \<noteq> 0" "sqlite3GetToken z = Some (TK_SPACE, n)" "0 < n" "n \<le> length z" "lex z = lex (drop n z)"
  | (illegal) n where "at z 0 \<noteq> 0" "sqlite3GetToken z = Some (TK_ILLEGAL, n)" "n \<le> length z" "lex z = ([(TK_ILLEGAL, z, n)], z)"
  | (token) t n where "at z 0 \<noteq> 0" "sqlite3GetToken z = Some (t, n)" "0 < n" "n \<le> length z" "t \<noteq> TK_SPACE" "t \<noteq> TK_ILLEGAL"
      "lex z = ((t, z, n) # fst (lex (drop n z)), snd (lex (drop n z)))"
proof (cases "at z 0 = 0")
  case True
  show thesis by (rule end_of_text) (use True in \<open>simp_all add: GetToken_end lex.simps [of z]\<close>)
next
  case False
  then obtain t n where g: "sqlite3GetToken z = Some (t, n)" "0 < n" "n \<le> length z" by (rule GetToken_progress)
  have si: "TK_SPACE \<noteq> TK_ILLEGAL" by (simp add: TK_defs)
  consider "t = TK_SPACE" | "t = TK_ILLEGAL" | "t \<noteq> TK_SPACE" "t \<noteq> TK_ILLEGAL" by blast
  then show thesis
  proof cases
    case 1
    show thesis by (rule space [of n]) (use False g 1 in \<open>simp_all add: lex.simps [of z]\<close>)
  next
    case 2
    show thesis by (rule illegal [of n]) (use False g 2 si in \<open>simp_all add: lex.simps [of z]\<close>)
  next
    case 3
    show thesis by (rule token [of t n]) (use False g 3 in \<open>simp_all add: lex.simps [of z] split: prod.split\<close>)
  qed
qed

lemma lex_Cons:
  assumes "lex z = ((t, w, n) # ts, e)"
  shows "sqlite3GetToken w = Some (t, n)" "t \<noteq> TK_ILLEGAL \<Longrightarrow> lex (drop n w) = (ts, e)"
    "t = TK_ILLEGAL \<Longrightarrow> ts = []"
proof -
  have "sqlite3GetToken w = Some (t, n) \<and> (t \<noteq> TK_ILLEGAL \<longrightarrow> lex (drop n w) = (ts, e)) \<and> (t = TK_ILLEGAL \<longrightarrow> ts = [])"
    using assms
  proof (induction z rule: measure_induct_rule [of length])
    case (less z)
    show ?case
    proof (cases z rule: lex_cases)
      case (space m)
      then show ?thesis using less.IH [of "drop m z"] less.prems by simp
    qed (use less.prems in \<open>auto simp: prod_eq_iff\<close>)
  qed
  then show "sqlite3GetToken w = Some (t, n)" "t \<noteq> TK_ILLEGAL \<Longrightarrow> lex (drop n w) = (ts, e)"
    "t = TK_ILLEGAL \<Longrightarrow> ts = []" by blast+
qed

lemma as_id_illegal: "as_id TK_ILLEGAL = TK_ILLEGAL"
  by (simp add: as_id_def TK_defs sqlite3ParserFallback_def yyFallback_def)

lemma getToken_lex:
  "getToken z = Some (case lex z of ([], e) \<Rightarrow> (TK_ILLEGAL, e) | ((t, w, n) # ts, e) \<Rightarrow> (as_id t, drop n w))"
proof (induction z rule: measure_induct_rule [of length])
  case (less z)
  have si: "TK_ILLEGAL \<noteq> TK_SPACE" by (simp add: TK_defs)
  show ?case
  proof (cases z rule: lex_cases)
    case (space m)
    then show ?thesis using less.IH [of "drop m z"] by (simp add: getToken.simps [of z])
  qed (use si in \<open>simp_all add: getToken.simps [of z] as_id_illegal\<close>)
qed

lemma analyze_lex:
  "analyzeWindowKeyword z = Some (window_token TK_WINDOW prev (map fst (fst (lex z))))"
  "analyzeOverKeyword z prev = Some (window_token TK_OVER prev (map fst (fst (lex z))))"
  "analyzeFilterKeyword z prev = Some (window_token TK_FILTER prev (map fst (fst (lex z))))"
proof -
  have d: "TK_ILLEGAL \<noteq> TK_ID" "TK_ILLEGAL \<noteq> TK_AS" "TK_ILLEGAL \<noteq> TK_LP" "TK_OVER \<noteq> TK_WINDOW" "TK_FILTER \<noteq> TK_WINDOW"
    "TK_FILTER \<noteq> TK_OVER" by (simp_all add: TK_defs)
  obtain ts e where z: "lex z = (ts, e)" by (cases "lex z")
  show "analyzeOverKeyword z prev = Some (window_token TK_OVER prev (map fst (fst (lex z))))"
    "analyzeFilterKeyword z prev = Some (window_token TK_FILTER prev (map fst (fst (lex z))))"
    using d by (cases ts; simp add: z analyzeOverKeyword_def analyzeFilterKeyword_def window_token_def getToken_lex split: prod.split)+
  show "analyzeWindowKeyword z = Some (window_token TK_WINDOW prev (map fst (fst (lex z))))"
  proof (cases ts)
    case Nil
    then show ?thesis using d by (simp add: z analyzeWindowKeyword_def window_token_def getToken_lex)
  next
    case (Cons a ts')
    obtain t w n where a: "a = (t, w, n)" by (cases a)
    note c = lex_Cons [OF z [unfolded Cons a]]
    show ?thesis
    proof (cases "t = TK_ILLEGAL")
      case True
      then show ?thesis using c(3) d as_id_illegal
        by (simp add: z Cons a analyzeWindowKeyword_def window_token_def getToken_lex)
    next
      case False
      then show ?thesis using c(2) d
        by (cases ts') (auto simp: z Cons a analyzeWindowKeyword_def window_token_def getToken_lex split: prod.splits)
    qed
  qed
qed

subsection \<open>The loop feeds the tokens\<close>

text \<open>The three keywords are found at their full length only.\<close>

definition window_ok :: "(nat \<times> nat) option \<Rightarrow> bool" where
  "window_ok r \<longleftrightarrow> (\<forall>t n. r = Some (t, n) \<longrightarrow>
     (t = TK_WINDOW \<longrightarrow> n = 6) \<and> (t = TK_OVER \<longrightarrow> n = 4) \<and> (t = TK_FILTER \<longrightarrow> n = 6) \<and>
     (t \<ge> TK_WINDOW \<longrightarrow> t \<in> {TK_WINDOW, TK_OVER, TK_FILTER, TK_SPACE, TK_ILLEGAL}))"

lemma window_ok_if: "(c \<Longrightarrow> window_ok a) \<Longrightarrow> (\<not> c \<Longrightarrow> window_ok b) \<Longrightarrow> window_ok (if c then a else b)"
  by simp

lemma window_ok_other: "t < TK_WINDOW \<or> t = TK_SPACE \<or> t = TK_ILLEGAL \<Longrightarrow> window_ok (Some (t, n))"
  by (auto simp: window_ok_def TK_defs)

lemma keyword_window:
  "list_all (\<lambda>(k, t). (t = TK_WINDOW \<longrightarrow> length k = 6) \<and> (t = TK_OVER \<longrightarrow> length k = 4) \<and> (t = TK_FILTER \<longrightarrow> length k = 6) \<and>
     (t \<ge> TK_WINDOW \<longrightarrow> t \<in> {TK_WINDOW, TK_OVER, TK_FILTER})) (zip keyword_list aKWCode)"
  by code_simp

lemma keywordCode_window:
  assumes "n \<le> length z" shows "window_ok (map_option (\<lambda>t. (t, n)) (keywordCode z n TK_ID))"
proof (cases "find (\<lambda>i. is_keyword (take n z) (keyword_list ! i)) [0..<147]")
  case None
  then show ?thesis
    using KeywordCode_table [OF assms] by (simp add: sqlite3KeywordCode_def window_ok_def TK_defs)
next
  case (Some i)
  then have i: "i < 147" "is_keyword (take n z) (keyword_list ! i)" by (auto simp: find_Some_iff)
  have "length keyword_list = 147" "length aKWCode = 147" by (simp_all add: keyword_list_def aKWCode_def)
  then have "(keyword_list ! i, aKWCode ! i) \<in> set (zip keyword_list aKWCode)"
    using i(1) by (force simp: set_zip)
  from bspec [OF keyword_window [unfolded list_all_iff] this]
  have "window_ok (Some (aKWCode ! i, length (keyword_list ! i)))" by (simp add: window_ok_def) blast
  moreover have "length (keyword_list ! i) = n"
    using i(2) assms by (auto simp: is_keyword_def dest: list_all2_lengthD)
  ultimately show ?thesis
    using KeywordCode_table [OF assms] Some by (simp add: sqlite3KeywordCode_def)
qed

lemma tok_types:
  "window_ok (Some (tok_slash z))" "window_ok (Some (tok_quote z))" "window_ok (Some (tok_dollar z))"
  "window_ok (Some (tok_blob z))" "window_ok (Some (tok_digit z))" "window_ok (Some (quote2_loop z i))"
  "window_ok (Some (tok_id z i))"
proof -
  have d: "fst (dollar_loop z i n) = TK_VARIABLE \<or> fst (dollar_loop z i n) = TK_ILLEGAL" for z i n
    by (induction z i n rule: dollar_loop.induct) (simp_all add: Let_def)
  have f: "fst (num_exponent z (num_fraction z i)) \<in> {TK_FLOAT, TK_INTEGER}" for i
    by (simp add: num_exponent_def num_fraction_def)
  show "window_ok (Some (tok_dollar z))"
    using d [of "drop 1 z" 1 0] by (auto simp: tok_dollar_def window_ok_def TK_defs split: prod.splits)
  show "window_ok (Some (tok_digit z))"
    using f [of "scan sqlite3Isdigit z"] by (auto simp: tok_digit_def window_ok_def TK_defs Let_def split: prod.splits if_splits)
  show "window_ok (Some (quote2_loop z i))"
  proof -
    have "fst (quote2_loop z i) = TK_ID \<or> fst (quote2_loop z i) = TK_ILLEGAL"
      by (induction z i rule: quote2_loop.induct) simp_all
    then show ?thesis by (auto simp: window_ok_def TK_defs)
  qed
qed (auto simp: tok_slash_def tok_quote_def tok_blob_def blob_end_def tok_id_def window_ok_def TK_defs split: prod.splits if_splits)

lemma tok_keyword_window: "z \<noteq> [] \<Longrightarrow> window_ok (tok_keyword z)"
proof -
  assume "z \<noteq> []"
  then have "1 \<le> length z" by (cases z) auto
  then have i: "1 + scan (\<lambda>c. charclass c \<le> CC_KYWD) (drop 1 z) \<le> length z" by (rule scan_drop_le)
  show ?thesis
    unfolding tok_keyword_def Let_def
    by (intro window_ok_if) (rule tok_types keywordCode_window [OF i])+
qed

lemma GetToken_window: "z \<noteq> [] \<Longrightarrow> window_ok (sqlite3GetToken z)"
proof -
  assume z: "z \<noteq> []"
  have s: "window_ok (Some (t, n))" if "t < TK_WINDOW \<or> t = TK_SPACE \<or> t = TK_ILLEGAL" for t n
    using that by (rule window_ok_other)
  show ?thesis
    unfolding sqlite3GetToken_def Let_def
    by (intro window_ok_if; (rule tok_types tok_keyword_window [OF z] | rule s, simp add: TK_defs))
qed

lemma window_lengths:
  assumes "sqlite3GetToken z = Some (t, n)" "at z 0 \<noteq> 0"
  shows "t = TK_WINDOW \<Longrightarrow> n = 6" "t = TK_OVER \<Longrightarrow> n = 4" "t = TK_FILTER \<Longrightarrow> n = 6"
    "t \<ge> TK_WINDOW \<Longrightarrow> t \<in> {TK_WINDOW, TK_OVER, TK_FILTER, TK_SPACE, TK_ILLEGAL}"
proof -
  have "z \<noteq> []" using assms(2) by (auto simp: at_def)
  from GetToken_window [OF this, unfolded window_ok_def assms(1)]
  show "t = TK_WINDOW \<Longrightarrow> n = 6" "t = TK_OVER \<Longrightarrow> n = 4" "t = TK_FILTER \<Longrightarrow> n = 6"
    "t \<ge> TK_WINDOW \<Longrightarrow> t \<in> {TK_WINDOW, TK_OVER, TK_FILTER, TK_SPACE, TK_ILLEGAL}" by blast+
qed

fun map_flow :: "('a \<Rightarrow> 'a) \<Rightarrow> 'a flow \<Rightarrow> 'a flow" where
  "map_flow f (Break s) = Break (f s)"
| "map_flow f (Continue s) = Continue (f s)"

lemma run_feed_max: "run_feed parse t n (s\<lparr>mxSqlLen := m\<rparr>) = map_flow (\<lambda>s. s\<lparr>mxSqlLen := m\<rparr>) (run_feed parse t n s)"
  by (simp add: run_feed_def Let_def split: prod.split)

lemma feed_end_max: "feed_end parse ts (s\<lparr>mxSqlLen := m\<rparr>) = (feed_end parse ts s)\<lparr>mxSqlLen := m\<rparr>"
  by (induction parse ts s rule: feed_end.induct) (auto simp: run_feed_max split: flow.splits)

lemma feed_all_max: "feed_all parse su ts e (s\<lparr>mxSqlLen := m\<rparr>) = (feed_all parse su ts e s)\<lparr>mxSqlLen := m\<rparr>"
proof (induction parse su ts e s rule: feed_all.induct)
  case (1 parse su e s)
  have c: "s\<lparr>mxSqlLen := m, zSql := z\<rparr> = s\<lparr>zSql := z, mxSqlLen := m\<rparr>" for z by simp
  show ?case by (simp only: feed_all.simps c feed_end_max) simp
next
  case (2 parse su t z n ts e s)
  have c: "s\<lparr>mxSqlLen := m, zSql := z\<rparr> = s\<lparr>zSql := z, mxSqlLen := m\<rparr>" for z by simp
  show ?case
    using 2 by (simp only: feed_all.simps c run_feed_max) (auto simp: sqlite3ErrorMsg_def split: flow.splits)
qed

lemma feed_all_place: "feed_all parse su ts e (s\<lparr>zSql := z\<rparr>) = feed_all parse su ts e s"
  by (cases ts) auto

lemma run_feed_max_of: "run_feed parse t n s = Continue s' \<Longrightarrow> mxSqlLen s' = mxSqlLen s"
  by (auto simp: run_feed_def Let_def split: prod.splits if_splits)

text \<open>A round that feeds a token within the length limit.\<close>

lemma run_step_token:
  assumes "at (zSql s) 0 \<noteq> 0" "sqlite3GetToken (zSql s) = Some (t, n)" "t \<noteq> TK_SPACE" "t \<noteq> TK_ILLEGAL"
    "int n \<le> mxSqlLen s"
  shows "run_step parse su False s =
    Some (run_feed parse (window_token t (lastTokenParsed s) (map fst (fst (lex (drop n (zSql s)))))) n
      (s\<lparr>mxSqlLen := mxSqlLen s - int n\<rparr>))"
proof -
  note w = window_lengths [OF assms(2,1)]
  have m: "\<not> mxSqlLen s - int n < 0" using assms(5) by simp
  show ?thesis
  proof (cases "t \<ge> TK_WINDOW")
    case False
    then have "t \<noteq> TK_WINDOW" "t \<noteq> TK_OVER" "t \<noteq> TK_FILTER" by (auto simp: TK_defs)
    then show ?thesis using False m assms(2) by (simp add: run_step_def Let_def window_token_def)
  next
    case True
    then consider "t = TK_WINDOW" | "t = TK_OVER" | "t = TK_FILTER" using w(4) assms(3,4) by blast
    then show ?thesis
    proof cases
      case 1
      then show ?thesis using w(1) True m assms
        by (simp add: run_step_def Let_def analyze_lex(1) [where prev = "lastTokenParsed s"])
    next
      case 2
      then show ?thesis using w(2) True m assms
        by (simp add: run_step_def Let_def analyze_lex(2)) (simp add: TK_defs)
    next
      case 3
      then show ?thesis using w(3) True m assms
        by (simp add: run_step_def Let_def analyze_lex(3)) (simp add: TK_defs)
    qed
  qed
qed

lemma run_step_end:
  assumes "at (zSql s) 0 = 0" "0 \<le> mxSqlLen s"
  shows "run_step parse su False s =
    Some (if lastTokenParsed s = int TK_SEMI then run_feed parse 0 0 s
          else if lastTokenParsed s = 0 then Break s else run_feed parse TK_SEMI 0 s)"
proof -
  have "TK_WINDOW \<le> TK_ILLEGAL" "TK_ILLEGAL \<noteq> TK_SPACE" by (simp_all add: TK_defs)
  then show ?thesis using assms by (simp add: run_step_def GetToken_end)
qed

lemma run_loop_feeds:
  assumes "int (length (zSql s)) \<le> mxSqlLen s"
  shows "\<exists>m. run_loop parse su (\<lambda>_. False) s =
    Some ((feed_all parse su (fst (lex (zSql s))) (snd (lex (zSql s))) s)\<lparr>mxSqlLen := m\<rparr>)"
  using assms
proof (induction s rule: measure_induct_rule [of "\<lambda>s. 3 * length (zSql s) + run_phase s"])
  case (less s)
  have si: "TK_SPACE \<ge> TK_WINDOW" "TK_ILLEGAL \<ge> TK_WINDOW" "TK_ILLEGAL \<noteq> TK_SPACE" "TK_ILLEGAL \<noteq> TK_WINDOW"
    "TK_ILLEGAL \<noteq> TK_OVER" "TK_ILLEGAL \<noteq> TK_FILTER" by (simp_all add: TK_defs)
  note IH = less.IH [OF run_step_smaller]
  show ?case
  proof (cases "zSql s" rule: lex_cases)
    case end_of_text
    have m: "0 \<le> mxSqlLen s" using less.prems by simp
    have s: "s\<lparr>zSql := zSql s\<rparr> = s" "s\<lparr>mxSqlLen := mxSqlLen s\<rparr> = s" for s :: "'a run" by simp_all
    have f: "\<exists>m. run_loop parse su (\<lambda>_. False) s = Some ((feed_end parse (t # ts) s)\<lparr>mxSqlLen := m\<rparr>)"
      if t: "run_step parse su False s = Some (run_feed parse t 0 s)"
        "\<And>s'. lastTokenParsed s' = int t \<Longrightarrow> feed_all parse su [] (zSql s) s' = feed_end parse ts (s'\<lparr>zSql := zSql s\<rparr>)" for t ts
    proof (cases "run_feed parse t 0 s")
      case (Break s')
      show ?thesis
        by (rule exI [of _ "mxSqlLen s'"]) (simp add: run_loop.simps [of _ _ _ s] t(1) Break)
    next
      case (Continue s')
      then have s': "zSql s' = zSql s" "lastTokenParsed s' = int t" "mxSqlLen s' = mxSqlLen s"
        using run_feed_Continue [OF Continue] run_feed_max_of [OF Continue] by simp_all
      have "feed_all parse su [] (zSql s) s' = feed_end parse ts s'"
        by (simp only: t(2) [OF s'(2)]) (simp only: s'(1) [symmetric] s(1))
      then show ?thesis
        using IH [of parse su False s'] t(1) Continue less.prems s' end_of_text(2)
        by (simp add: run_loop.simps [of _ _ _ s])
    qed
    consider "lastTokenParsed s = int TK_SEMI" | "lastTokenParsed s = 0" | "lastTokenParsed s \<noteq> int TK_SEMI" "lastTokenParsed s \<noteq> 0" by blast
    then show ?thesis
    proof cases
      case 1
      have "\<exists>m. run_loop parse su (\<lambda>_. False) s = Some ((feed_end parse [0] s)\<lparr>mxSqlLen := m\<rparr>)"
        by (rule f) (use run_step_end [OF end_of_text(1) m, of parse su] 1 in \<open>simp_all add: TK_defs\<close>)
      then show ?thesis using 1 end_of_text(2) by simp
    next
      case 2
      have "TK_SEMI \<noteq> 0" by (simp add: TK_defs)
      show ?thesis
        by (rule exI [of _ "mxSqlLen s"])
          (simp add: run_loop.simps [of _ _ _ s] run_step_end [OF end_of_text(1) m] 2 end_of_text(2) \<open>TK_SEMI \<noteq> 0\<close>)
    next
      case 3
      have "\<exists>m. run_loop parse su (\<lambda>_. False) s = Some ((feed_end parse [TK_SEMI, 0] s)\<lparr>mxSqlLen := m\<rparr>)"
        by (rule f) (use run_step_end [OF end_of_text(1) m, of parse su] 3 in simp_all)
      then show ?thesis using 3 end_of_text(2) by simp
    qed
  next
    case (space n)
    then have st: "run_step parse su False s = Some (Continue (s\<lparr>mxSqlLen := mxSqlLen s - int n, zSql := drop n (zSql s)\<rparr>))"
      using less.prems si(1) by (simp add: run_step_def)
    have "s\<lparr>mxSqlLen := k, zSql := z\<rparr> = s\<lparr>zSql := z, mxSqlLen := k\<rparr>" for k z by simp
    with IH [OF st] less.prems space(3,4,5) st show ?thesis
      by (auto simp: run_loop.simps [of _ _ _ s] feed_all_max feed_all_place)
  next
    case (illegal n)
    then have "run_step parse su False s =
        Some (Break (sqlite3ErrorMsg su (unrecognized (zSql s) n) (s\<lparr>mxSqlLen := mxSqlLen s - int n\<rparr>)))"
      using less.prems si by (simp add: run_step_def)
    moreover have "sqlite3ErrorMsg su x (s\<lparr>mxSqlLen := k\<rparr>) = (sqlite3ErrorMsg su x s)\<lparr>mxSqlLen := k\<rparr>" for x k
      by (simp add: sqlite3ErrorMsg_def)
    ultimately show ?thesis using illegal(4)
      by (auto simp: run_loop.simps [of _ _ _ s])
  next
    case (token t n)
    let ?t = "window_token t (lastTokenParsed s) (map fst (fst (lex (drop n (zSql s)))))"
    let ?m = "mxSqlLen s - int n"
    have st: "run_step parse su False s = Some (map_flow (\<lambda>s. s\<lparr>mxSqlLen := ?m\<rparr>) (run_feed parse ?t n s))"
      using run_step_token [OF token(1,2,5,6), of parse su] less.prems token(4) by (simp add: run_feed_max)
    show ?thesis
    proof (cases "run_feed parse ?t n s")
      case (Break s')
      then show ?thesis using st token(6,7) by (auto simp: run_loop.simps [of _ _ _ s])
    next
      case (Continue s')
      then have z: "zSql s' = drop n (zSql s)" using run_feed_Continue [OF Continue] by simp
      from IH [of parse su False "s'\<lparr>mxSqlLen := ?m\<rparr>"] st Continue z less.prems token(4)
      have "\<exists>m. run_loop parse su (\<lambda>_. False) (s'\<lparr>mxSqlLen := ?m\<rparr>) =
          Some ((feed_all parse su (fst (lex (drop n (zSql s)))) (snd (lex (drop n (zSql s)))) s')\<lparr>mxSqlLen := m\<rparr>)"
        by (simp add: feed_all_max)
      then show ?thesis using st Continue token(6,7) by (simp add: run_loop.simps [of _ _ _ s])
    qed
  qed
qed

lemma run_step_total: "run_step parse su i s \<noteq> None"
proof -
  have "sqlite3GetToken (zSql s) \<noteq> None"
    by (cases "at (zSql s) 0 = 0") (auto simp: GetToken_end elim: GetToken_progress)
  then show ?thesis
    by (auto simp: run_step_def Let_def analyze_lex(1) [where prev = 0] analyze_lex(2,3))
qed

text \<open>The place moves forward within the text.\<close>

lemma run_step_place:
  assumes "run_step parse su i s = Some r"
  obtains k s' where "k \<le> length (zSql s)" "r = Break s' \<or> r = Continue s'" "zSql s' = drop k (zSql s)"
proof -
  have feed: "\<exists>k s'. k \<le> length (zSql s) \<and> (run_feed parse t n q = Break s' \<or> run_feed parse t n q = Continue s') \<and> zSql s' = drop k (zSql s)"
    if "n \<le> length (zSql s)" "zSql q = zSql s" for t n q
    using that by (auto simp: run_feed_def Let_def split: prod.split)
  have here: "\<exists>k s'. k \<le> length (zSql s) \<and> (Break q = Break s' \<or> Break q = Continue s') \<and> zSql s' = drop k (zSql s)"
    if "zSql q = zSql s" for q
    using that by (intro exI [of _ 0] exI [of _ q]) simp
  obtain t n where g: "sqlite3GetToken (zSql s) = Some (t, n)" "n \<le> length (zSql s)"
    by (cases "at (zSql s) 0 = 0") (auto simp: GetToken_end elim: GetToken_progress)
  have "\<exists>k s'. k \<le> length (zSql s) \<and> (r = Break s' \<or> r = Continue s') \<and> zSql s' = drop k (zSql s)"
  proof (cases "t = TK_SPACE")
    case True
    then show ?thesis using assms g here [of "s\<lparr>mxSqlLen := mxSqlLen s - int n, rc := _\<rparr>"]
      by (auto simp: run_step_def Let_def TK_defs split: if_splits)
  next
    case False
    then show ?thesis using assms g(1) feed [OF g(2)] feed [of 0] here
      by (auto simp: run_step_def Let_def sqlite3ErrorMsg_def split: if_splits)
  qed
  then show thesis using that by blast
qed

lemma run_loop_total:
  "\<exists>s' k. run_loop parse su intr s = Some s' \<and> zSql s' = drop k (zSql s) \<and> k \<le> length (zSql s)"
proof (induction parse su intr s rule: run_loop.induct)
  case (1 parse su intr s)
  obtain r where r: "run_step parse su (intr 0) s = Some r" using run_step_total [of parse su "intr 0" s] by blast
  then obtain k s' where k: "k \<le> length (zSql s)" "r = Break s' \<or> r = Continue s'" "zSql s' = drop k (zSql s)"
    by (rule run_step_place)
  show ?case
  proof (cases "r = Break s'")
    case True
    then show ?thesis using r k by (auto simp: run_loop.simps [of _ _ _ s])
  next
    case False
    then have c: "r = Continue s'" using k(2) by blast
    from 1 [OF r c] obtain s'' j where "run_loop parse su (\<lambda>k. intr (Suc k)) s' = Some s''"
      "zSql s'' = drop j (zSql s')" "j \<le> length (zSql s')" by blast
    then show ?thesis using r c k
      by (intro exI [of _ s''] exI [of _ "j + k"]) (simp add: run_loop.simps [of _ _ _ s])
  qed
qed



text \<open>
  C31. Without an interrupt and within the length limit, the parser is given exactly the tokens of the
  text, without the spaces, each with its place and length: up to the first illegal token, which is the error
  \<open>unrecognized token\<close>, or to the end, where it gets a semicolon unless it just had one and then token 0;
  and none after it set a result code. \<open>WINDOW\<close>, \<open>OVER\<close> and \<open>FILTER\<close> are keywords by the tokens around them.
\<close>

theorem RunParser_feeds:
  assumes "int (length z) \<le> limit"
  shows "sqlite3RunParser parse oom oomFault True suppressErr (\<lambda>_. False) limit p z =
    Some (run_finish oom (feed_all parse suppressErr (fst (lex z)) (snd (lex z))
      \<lparr>zSql = z, mxSqlLen = limit, lastTokenParsed = - 1, rc = SQLITE_OK, zErrMsg = None, parser = p\<rparr>))"
proof -
  have f: "run_finish oom (s\<lparr>mxSqlLen := m\<rparr>) = run_finish oom s" for s :: "'a run" and m
    by (simp add: run_finish_def Let_def)
  let ?s = "\<lparr>zSql = z, mxSqlLen = limit, lastTokenParsed = - 1, rc = SQLITE_OK, zErrMsg = None, parser = p\<rparr>"
  show ?thesis
    using run_loop_feeds [of ?s parse suppressErr] assms by (auto simp: sqlite3RunParser_def f)
qed

text \<open>A parser that only notes the token types, on a text where \<open>OVER\<close> is a keyword and then a name.\<close>

theorem RunParser_feeds_witness:
  "map_option parse_end (sqlite3RunParser (\<lambda>t w p. (p @ [t], SQLITE_OK, None)) (\<lambda>p. False) id True False (\<lambda>_. False) 100 []
       (chars ''f(a) over (x) over'')) =
     Some [TK_ID, TK_LP, TK_ID, TK_RP, TK_OVER, TK_LP, TK_ID, TK_RP, TK_ID, TK_SEMI, 0]"
proof -
  let ?z = "chars ''f(a) over (x) over''"
  have "int (length ?z) \<le> 100" by code_simp
  note r = RunParser_feeds [OF this, of "\<lambda>t w p. (p @ [t], SQLITE_OK, None)" "\<lambda>p. False" id False "[]"]
  show ?thesis unfolding r by code_simp
qed

end
