(* ===== verification/SqlLike.thy ===== *)
theory SqlLike
  imports SqlComplete SqlUtf
begin

section \<open>LIKE and GLOB (func.c)\<close>

text \<open>
  \<open>patternCompare\<close> matches a text against a pattern with wildcards, escapes and sets, reading UTF-8; \<open>likeFunc\<close>
  is the SQL function over it. It is proved against the meaning of a pattern as a list of items.
\<close>

subsection \<open>The matcher (patternCompare)\<close>

text \<open>
  Pattern and text are zero-terminated; \<open>READ_UTF8\<close> at the end yields zero and stays there. The three
  results keep their numbers.
\<close>

record compareInfo =
  matchAll :: u8
  matchOne :: u8
  matchSet :: u8
  noCase :: bool

definition globInfo :: compareInfo where
  "globInfo = \<lparr>matchAll = ch CHR ''*'', matchOne = ch CHR ''?'', matchSet = ch CHR ''['', noCase = False\<rparr>"

definition likeInfoNorm :: compareInfo where
  "likeInfoNorm = \<lparr>matchAll = ch CHR ''%'', matchOne = ch CHR ''_'', matchSet = 0, noCase = True\<rparr>"

definition likeInfoAlt :: compareInfo where
  "likeInfoAlt = \<lparr>matchAll = ch CHR ''%'', matchOne = ch CHR ''_'', matchSet = 0, noCase = False\<rparr>"

definition SQLITE_MATCH :: nat where "SQLITE_MATCH = 0"
definition SQLITE_NOMATCH :: nat where "SQLITE_NOMATCH = 1"
definition SQLITE_NOWILDCARDMATCH :: nat where "SQLITE_NOWILDCARDMATCH = 2"

lemma READ_shorter:
  assumes "(c, y) = READ_UTF8 z"
  shows "z \<noteq> [] \<Longrightarrow> length y < length z" "c \<noteq> 0 \<Longrightarrow> length y < length z"
proof -
  show s: "length y < length z" if "z \<noteq> []" using READ_UTF8_length [OF that] assms [symmetric] by simp
  show "length y < length z" if "c \<noteq> 0"
    by (rule s) (use that assms in auto)
qed

text \<open>
  The loop that skips wildcards: the first other character, the pattern behind it and the text, or
  \<open>None\<close> for its return. At the end of the pattern the character is zero, which no \<open>matchAll\<close> that was
  just read is.
\<close>

function skip_wild :: "compareInfo \<Rightarrow> u8 list \<Rightarrow> u8 list \<Rightarrow> (u32 \<times> u8 list \<times> u8 list) option" where
  "skip_wild info zPattern zString =
     (case READ_UTF8 zPattern of
        (c, z) \<Rightarrow>
          if zPattern \<noteq> [] \<and> (c = ucast (matchAll info) \<or> c = ucast (matchOne info) \<and> matchOne info \<noteq> 0) then
            if c = ucast (matchOne info) then
              (case READ_UTF8 zString of (d, s) \<Rightarrow> if d = 0 then None else skip_wild info z s)
            else skip_wild info z zString
          else Some (c, z, zString))"
  by auto
termination
  by (relation "measure (\<lambda>(i, p, s). length p)") (auto dest: READ_shorter)

text \<open>The searches behind a wildcard, over what \<open>f\<close> says of the rest: for a set, for one of the bytes
  \<open>zStop\<close> (\<open>strcspn\<close>), for a character.\<close>

function search_set :: "(u8 list \<Rightarrow> nat) \<Rightarrow> u8 list \<Rightarrow> nat" where
  "search_set f zString =
     (if cstr_hd zString = 0 then SQLITE_NOWILDCARDMATCH
      else let bMatch = f zString in
        if bMatch \<noteq> SQLITE_NOMATCH then bMatch else search_set f (skip_utf8 zString))"
  by auto
termination
  by (relation "measure (\<lambda>(f, s). length s)") (auto simp: cstr_hd_def intro!: skip_utf8_length)

definition strcspn :: "u8 list \<Rightarrow> u8 list \<Rightarrow> u8 list" where
  "strcspn zStop z = dropWhile (\<lambda>b. b \<noteq> 0 \<and> b \<notin> set zStop) z"

function search_stop :: "(u8 list \<Rightarrow> nat) \<Rightarrow> u8 list \<Rightarrow> u8 list \<Rightarrow> nat" where
  "search_stop f zStop zString =
     (let z = strcspn zStop zString in
      if cstr_hd z = 0 then SQLITE_NOWILDCARDMATCH
      else let bMatch = f (tl z) in
        if bMatch \<noteq> SQLITE_NOMATCH then bMatch else search_stop f zStop (tl z))"
  by auto
termination
proof (relation "measure (\<lambda>(f, b, s). length s)", goal_cases)
  case (2 f zStop zString z bMatch)
  then have "z \<noteq> []" by (auto simp: cstr_hd_def)
  moreover have "length z \<le> length zString" using 2(1) by (simp add: strcspn_def length_dropWhile_le)
  ultimately show ?case by (cases z) auto
qed simp

function search_char :: "(u8 list \<Rightarrow> nat) \<Rightarrow> u32 \<Rightarrow> u8 list \<Rightarrow> nat" where
  "search_char f c zString =
     (case READ_UTF8 zString of
        (c2, z) \<Rightarrow>
          if c2 = 0 then SQLITE_NOWILDCARDMATCH
          else if c2 \<noteq> c then search_char f c z
          else let bMatch = f z in
            if bMatch \<noteq> SQLITE_NOMATCH then bMatch else search_char f c z)"
  by auto
termination
proof (relation "measure (\<lambda>(f, c, s). length s)", goal_cases)
  case (2 f c zString c2 z)
  then show ?case using READ_shorter(2) [OF 2(1)] by (simp add: 2(1) [symmetric])
next
  case (3 f c zString c2 z bMatch)
  then show ?case using READ_shorter(2) [OF 3(1)] by (simp add: 3(1) [symmetric])
qed simp

declare skip_wild.simps [simp del] search_set.simps [simp del] search_stop.simps [simp del] search_char.simps [simp del]

lemma search_cong [fundef_cong]:
  assumes "\<And>x. f x = g x" "p = q" "s = t"
  shows "search_set f s = search_set g t" "search_char f c s = search_char g c t" "search_stop f p s = search_stop g q t"
proof -
  have "f = g" using assms(1) by blast
  then show "search_set f s = search_set g t" "search_char f c s = search_char g c t" "search_stop f p s = search_stop g q t"
    using assms(2,3) by simp_all
qed

text \<open>The set \<open>[...]\<close>, from the first character behind its sign on: what was seen, and the pattern behind it.\<close>

function class_loop :: "u32 \<Rightarrow> u32 \<Rightarrow> u32 \<Rightarrow> bool \<Rightarrow> u8 list \<Rightarrow> u32 \<times> bool \<times> u8 list" where
  "class_loop c c2 prior_c seen zPattern =
     (if c2 = 0 \<or> c2 = 0x5D then (c2, seen, zPattern)
      else if c2 = 0x2D \<and> cstr_hd zPattern \<noteq> 0x5D \<and> cstr_hd zPattern \<noteq> 0 \<and> 0 < prior_c then
        (case READ_UTF8 zPattern of (c2, z) \<Rightarrow>
         case READ_UTF8 z of (c2', z') \<Rightarrow> class_loop c c2' 0 (seen \<or> prior_c \<le> c \<and> c \<le> c2) z')
      else (case READ_UTF8 zPattern of (c2', z) \<Rightarrow> class_loop c c2' c2 (seen \<or> c = c2) z))"
  by auto
termination
proof (relation "measure (\<lambda>(c, c2, p, s, z). length z + (if c2 = 0 then 0 else 1))", goal_cases)
  case (2 c c2 prior_c seen zPattern a z b z')
  have "zPattern \<noteq> []" using 2 by (auto simp: cstr_hd_def)
  then have "length z < length zPattern" using READ_shorter(1) [of a z zPattern] 2 by simp
  moreover have "length z' + (if b = 0 then 0 else 1) \<le> length z"
    using READ_shorter [of b z' z] 2 by (cases z) auto
  ultimately show ?case using 2 by simp
next
  case (3 c c2 prior_c seen zPattern b z)
  then show ?case using READ_shorter [of b z zPattern] by (cases zPattern) auto
qed simp

declare class_loop.simps [simp del]

definition match_set :: "u32 \<Rightarrow> u8 list \<Rightarrow> bool \<times> u8 list" where
  "match_set c zPattern =
     (let (c2, z) = READ_UTF8 zPattern;
          invert = (c2 = 0x5E);
          (c2, z) = (if invert then READ_UTF8 z else (c2, z));
          seen = (c2 = 0x5D \<and> c = 0x5D);
          (c2, z) = (if c2 = 0x5D then READ_UTF8 z else (c2, z));
          (c2, seen, z) = class_loop c c2 0 seen z
      in (\<not> (c2 = 0 \<or> seen = invert), z))"

text \<open>The bytes a character is searched by.\<close>

definition stop_bytes :: "bool \<Rightarrow> u32 \<Rightarrow> u8 list" where
  "stop_bytes nc c = (if nc then [sqlite3Toupper (ucast c), sqlite3Tolower (ucast c)] else [ucast c])"

definition same_char :: "bool \<Rightarrow> u32 \<Rightarrow> u32 \<Rightarrow> bool" where
  "same_char nc c c2 \<longleftrightarrow> c = c2 \<or> nc \<and> sqlite3Tolower (ucast c) = sqlite3Tolower (ucast c2) \<and> c < 0x80 \<and> c2 < 0x80"

text \<open>
  One round of the loop over the pattern is the body; \<open>zEscaped\<close> is the pattern behind the character
  that was escaped last. A search behind a wildcard asks \<open>patternCompare\<close> about the rest of the pattern.
\<close>

function pattern_loop :: "compareInfo \<Rightarrow> u32 \<Rightarrow> u8 list option \<Rightarrow> u8 list \<Rightarrow> u8 list \<Rightarrow> nat" where
  "pattern_loop info matchOther zEscaped zPattern0 zString =
     (case READ_UTF8 zPattern0 of
        (c, zPattern) \<Rightarrow>
          if c = 0 then (if cstr_hd zString = 0 then SQLITE_MATCH else SQLITE_NOMATCH)
          else if c = ucast (matchAll info) then
            (case skip_wild info zPattern zString of
               None \<Rightarrow> SQLITE_NOWILDCARDMATCH
             | Some (c, z, s) \<Rightarrow>
                 if c = 0 then SQLITE_MATCH
                 else if c = matchOther \<and> matchSet info \<noteq> 0 then
                   search_set (\<lambda>s. pattern_loop info matchOther None (ucast c # z) s) s
                 else
                   (case (if c = matchOther then READ_UTF8 z else (c, z)) of
                      (c, z) \<Rightarrow>
                        if c = 0 then SQLITE_NOWILDCARDMATCH
                        else if c \<le> 0x80 then
                          search_stop (\<lambda>s. pattern_loop info matchOther None z s) (stop_bytes (noCase info) c) s
                        else search_char (\<lambda>s. pattern_loop info matchOther None z s) c s))
          else if c = matchOther \<and> matchSet info \<noteq> 0 then
            (case READ_UTF8 zString of
               (c, s) \<Rightarrow>
                 if c = 0 then SQLITE_NOMATCH
                 else (case match_set c zPattern of
                         (hit, z) \<Rightarrow> if hit then pattern_loop info matchOther zEscaped z s else SQLITE_NOMATCH))
          else
            (case (if c = matchOther then READ_UTF8 zPattern else (c, zPattern)) of
               (c', zPattern) \<Rightarrow>
                 if c' = 0 then SQLITE_NOMATCH
                 else
                   let zEscaped = (if c = matchOther then Some zPattern else zEscaped)
                   in case READ_UTF8 zString of
                        (c2, s) \<Rightarrow>
                          if same_char (noCase info) c' c2 \<or> c' = ucast (matchOne info) \<and> zEscaped \<noteq> Some zPattern \<and> c2 \<noteq> 0
                          then pattern_loop info matchOther zEscaped zPattern s
                          else SQLITE_NOMATCH))"
  by pat_completeness auto

lemma READ_le: "length (snd (READ_UTF8 z)) \<le> length z"
  using READ_UTF8_length [of z] by (cases "z = []") auto

lemma class_loop_length: "class_loop c c2 p s z = (c2', s', z') \<Longrightarrow> length z' \<le> length z"
proof (induction c c2 p s z rule: class_loop.induct)
  case (1 c c2 p s z)
  have r: "length y \<le> length x" if "(a, y) = READ_UTF8 x" for a and x y :: "u8 list"
    using READ_le [of x] that [symmetric] by simp
  show ?case
  proof (cases "c2 = 0 \<or> c2 = 0x5D")
    case True
    then show ?thesis using 1(3) by (auto simp: class_loop.simps [of c c2 p s z])
  next
    case False
    note E = 1(3) [unfolded class_loop.simps [of c c2 p s z] if_not_P [OF False]]
    show ?thesis
    proof (cases "c2 = 0x2D \<and> cstr_hd z \<noteq> 0x5D \<and> cstr_hd z \<noteq> 0 \<and> 0 < p")
      case True
      obtain a y b x where rd: "(a, y) = READ_UTF8 z" "(b, x) = READ_UTF8 y" by (metis surj_pair)
      then have "length z' \<le> length x"
        using E [unfolded if_P [OF True]] rd [symmetric] by (intro 1(1) [OF False True rd(1) rd(2)]) simp
      then show ?thesis using r [OF rd(1)] r [OF rd(2)] by simp
    next
      case no: False
      obtain a y where rd: "(a, y) = READ_UTF8 z" by (metis surj_pair)
      then have "length z' \<le> length y"
        using E [unfolded if_not_P [OF no]] rd [symmetric] by (intro 1(2) [OF False no rd]) simp
      then show ?thesis using r [OF rd] by simp
    qed
  qed
qed

lemma match_set_length: "match_set c z = (h, z') \<Longrightarrow> length z' \<le> length z"
proof -
  have r: "length z'' \<le> length z" if "READ_UTF8 z = (a, z'')" for a z'' and z :: "u8 list"
    using READ_le [of z] that by simp
  show "match_set c z = (h, z') \<Longrightarrow> length z' \<le> length z"
    by (auto simp: match_set_def Let_def split: if_splits prod.splits dest!: r class_loop_length)
qed

lemma READ_ascii: "READ_UTF8 z = (c, z') \<Longrightarrow> c \<noteq> 0 \<Longrightarrow> length z' < length z"
  using READ_UTF8_length [of z] by (cases z) auto

lemma skip_wild_length: "skip_wild i z s = Some (c, z', s') \<Longrightarrow> c \<noteq> 0 \<Longrightarrow> length z' < length z"
proof (induction i z s rule: skip_wild.induct)
  case (1 i z s)
  obtain a y where rd: "(a, y) = READ_UTF8 z" by (metis surj_pair)
  note rd' = rd [symmetric]
  obtain d t where rs: "(d, t) = READ_UTF8 s" by (metis surj_pair)
  have l: "length y \<le> length z" using READ_le [of z] rd' by simp
  note E = 1(3) [unfolded skip_wild.simps [of i z s] rd' prod.case]
  show ?case
  proof (cases "z \<noteq> [] \<and> (a = ucast (matchAll i) \<or> a = ucast (matchOne i) \<and> matchOne i \<noteq> 0)")
    case True
    note E = E [unfolded if_P [OF True]]
    show ?thesis
    proof (cases "a = ucast (matchOne i)")
      case one: True
      then show ?thesis using E 1(1) [OF rd True one rs] 1(4) l rs [symmetric]
        by (auto split: if_splits)
    next
      case False
      then show ?thesis using E 1(2) [OF rd True False] 1(4) l by simp
    qed
  next
    case False
    then show ?thesis using E 1(4) READ_shorter(2) [OF rd] by (auto split: if_splits)
  qed
qed

lemma escaped_length: "(b, z') = (if p then READ_UTF8 z else (a, z)) \<Longrightarrow> length z' \<le> length z"
proof -
  have "snd (if p then READ_UTF8 z else (a, z)) = z' \<Longrightarrow> length z' \<le> length z" using READ_le [of z] by auto
  then show "(b, z') = (if p then READ_UTF8 z else (a, z)) \<Longrightarrow> length z' \<le> length z" by (metis snd_conv)
qed

termination pattern_loop
proof (relation "measure (\<lambda>(i, m, e, p, s). length p)", goal_cases)
  case (2 info matchOther zEscaped zPattern0 zString c y x2 c' r z s q)
  then have "length z < length y" using skip_wild_length [of info y zString c' z s] by simp
  then show ?case using READ_shorter(2) [OF 2(1,2)] by simp
next
  case (3 info matchOther zEscaped zPattern0 zString c y x2 c' r z s b z' q)
  then have "length z < length y" using skip_wild_length [of info y zString c' z s] by simp
  then show ?case using READ_shorter(2) [OF 3(1,2)] escaped_length [OF 3(9)] by simp
next
  case (4 info matchOther zEscaped zPattern0 zString c y x2 c' r z s b z' q)
  then have "length z < length y" using skip_wild_length [of info y zString c' z s] by simp
  then show ?case using READ_shorter(2) [OF 4(1,2)] escaped_length [OF 4(9)] by simp
next
  case (5 info matchOther zEscaped zPattern0 zString c y d s h z)
  then show ?case using READ_shorter(2) [OF 5(1,2)] match_set_length [of d y h z] by simp
next
  case (6 info matchOther zEscaped zPattern0 zString c y d z e a s)
  then show ?case using READ_shorter(2) [OF 6(1,2)] escaped_length [OF 6(5)] by simp
qed simp

declare pattern_loop.simps [simp del]

definition patternCompare :: "u8 list \<Rightarrow> u8 list \<Rightarrow> compareInfo \<Rightarrow> u32 \<Rightarrow> nat" where
  "patternCompare zPattern zString pInfo matchOther = pattern_loop pInfo matchOther None zPattern zString"

definition sqlite3_strglob :: "u8 list \<Rightarrow> u8 list \<Rightarrow> nat" where
  "sqlite3_strglob zGlobPattern zString = patternCompare zGlobPattern zString globInfo 0x5B"

definition sqlite3_strlike :: "u8 list \<Rightarrow> u8 list \<Rightarrow> u32 \<Rightarrow> nat" where
  "sqlite3_strlike zPattern zStr esc = patternCompare zPattern zStr likeInfoNorm esc"

text \<open>
  \<open>likeFunc\<close>: \<open>zB\<close> and \<open>zA\<close> are the texts of the first two arguments, \<open>None\<close> for NULL or no memory,
  \<open>nPat\<close> the bytes of the first, and the third argument is there when \<open>argc==3\<close>. The result that was
  set, or \<open>None\<close> where the function leaves the NULL it started with.
\<close>

datatype like_result = LikeError string | LikeInt bool

definition likeFunc ::
  "compareInfo \<Rightarrow> int \<Rightarrow> u8 list option \<Rightarrow> int \<Rightarrow> u8 list option \<Rightarrow> u8 list option option \<Rightarrow> like_result option" where
  "likeFunc pInfo limit zB nPat zA arg3 =
     (if limit < nPat then Some (LikeError ''LIKE or GLOB pattern too complex'')
      else
        let match = (\<lambda>pInfo escape.
              case (zA, zB) of
                (Some a, Some b) \<Rightarrow> Some (LikeInt (patternCompare b a pInfo escape = SQLITE_MATCH))
              | _ \<Rightarrow> None)
        in case arg3 of
             None \<Rightarrow> match pInfo (ucast (matchSet pInfo))
           | Some None \<Rightarrow> None
           | Some (Some zEsc) \<Rightarrow>
               if sqlite3Utf8CharLen zEsc None \<noteq> 1 then Some (LikeError ''ESCAPE expression must be a single character'')
               else
                 let escape = fst (READ_UTF8 zEsc);
                     pInfo = (if escape = ucast (matchAll pInfo) then pInfo\<lparr>matchAll := 0\<rparr> else pInfo);
                     pInfo = (if escape = ucast (matchOne pInfo) then pInfo\<lparr>matchOne := 0\<rparr> else pInfo)
                 in match pInfo escape)"

subsection \<open>What a pattern means\<close>

text \<open>
  A pattern is a list of items over characters. A set is a list of ranges, possibly inverted; a malformed
  end of a pattern matches nothing.
\<close>

datatype item = Many | One | Lit u32 | InSet bool "(u32 \<times> u32) list" | Never

definition in_ranges :: "u32 \<Rightarrow> (u32 \<times> u32) list \<Rightarrow> bool" where
  "in_ranges c rs \<longleftrightarrow> (\<exists>(a, b) \<in> set rs. a \<le> c \<and> c \<le> b)"

fun item_matches :: "bool \<Rightarrow> item \<Rightarrow> u32 \<Rightarrow> bool" where
  "item_matches nc One d \<longleftrightarrow> True"
| "item_matches nc (Lit c) d \<longleftrightarrow> same_char nc c d"
| "item_matches nc (InSet neg rs) d \<longleftrightarrow> in_ranges d rs \<noteq> neg"
| "item_matches nc _ d \<longleftrightarrow> False"

fun matches :: "bool \<Rightarrow> item list \<Rightarrow> u32 list \<Rightarrow> bool" where
  "matches nc [] s \<longleftrightarrow> s = []"
| "matches nc (Many # p) [] \<longleftrightarrow> matches nc p []"
| "matches nc (Many # p) (d # s) \<longleftrightarrow> matches nc p (d # s) \<or> matches nc (Many # p) s"
| "matches nc (i # p) [] \<longleftrightarrow> False"
| "matches nc (i # p) (d # s) \<longleftrightarrow> item_matches nc i d \<and> matches nc p s"

text \<open>The ranges of a set up to its closing bracket. A minus sign makes a range if a character stands before it that
  is not itself the end of a range, and one other than the bracket behind it.\<close>

fun ranges :: "u32 option \<Rightarrow> u32 list \<Rightarrow> ((u32 \<times> u32) list \<times> u32 list) option" where
  "ranges lo [] = None"
| "ranges lo (c # p) =
     (if c = 0x5D then Some ([], p)
      else case (c = 0x2D, lo, p) of
        (True, Some a, b # p') \<Rightarrow>
          if b \<noteq> 0x5D then map_option (\<lambda>(rs, q). ((a, b) # rs, q)) (ranges None p')
          else map_option (\<lambda>(rs, q). ((c, c) # rs, q)) (ranges (Some c) p)
      | _ \<Rightarrow> map_option (\<lambda>(rs, q). ((c, c) # rs, q)) (ranges (Some c) p))"

text \<open>A caret in front inverts the set; a closing bracket right at the front stands for itself.\<close>

definition set_item :: "u32 list \<Rightarrow> (item \<times> u32 list) option" where
  "set_item p =
     (let neg = (p \<noteq> [] \<and> hd p = 0x5E);
          p = (if neg then tl p else p)
      in if p \<noteq> [] \<and> hd p = 0x5D
         then map_option (\<lambda>(rs, q). (InSet neg ((0x5D, 0x5D) # rs), q)) (ranges None (tl p))
         else map_option (\<lambda>(rs, q). (InSet neg rs, q)) (ranges None p))"

lemma ranges_length: "ranges lo p = Some (rs, q) \<Longrightarrow> length q < length p"
  by (induction lo p arbitrary: rs rule: ranges.induct)
     (auto split: if_splits option.splits list.splits bool.splits simp: less_SucI)

lemma set_item_length: "set_item p = Some (i, q) \<Longrightarrow> length q < length p"
  using ranges_length [of None p _ q] ranges_length [of None "tl p" _ q] ranges_length [of None "tl (tl p)" _ q]
  by (auto simp: set_item_def Let_def split: if_splits)

function parse_pattern :: "compareInfo \<Rightarrow> u32 \<Rightarrow> u32 list \<Rightarrow> item list" where
  "parse_pattern info esc [] = []"
| "parse_pattern info esc (c # p) =
     (if c = ucast (matchAll info) then Many # parse_pattern info esc p
      else if c = esc then
        if matchSet info = 0 then (case p of [] \<Rightarrow> [Never] | d # p' \<Rightarrow> Lit d # parse_pattern info esc p')
        else (case set_item p of None \<Rightarrow> [Never] | Some (i, q) \<Rightarrow> i # parse_pattern info esc q)
      else if c = ucast (matchOne info) then One # parse_pattern info esc p
      else Lit c # parse_pattern info esc p)"
  by pat_completeness auto
termination
  by (relation "measure (\<lambda>(i, e, p). length p)") (auto dest: set_item_length)

declare parse_pattern.simps(2) [simp del]

subsection \<open>Texts\<close>

definition utf8 :: "u32 list \<Rightarrow> u8 list" where
  "utf8 cs = concat (map WRITE_UTF8 cs)"

definition chars_ok :: "u32 list \<Rightarrow> bool" where
  "chars_ok cs \<longleftrightarrow> (\<forall>c \<in> set cs. text_char c \<and> c \<noteq> 0)"

lemma chars_ok_simps [simp]:
  "chars_ok []" "chars_ok (c # cs) \<longleftrightarrow> text_char c \<and> c \<noteq> 0 \<and> chars_ok cs"
  by (auto simp: chars_ok_def)

lemma utf8_simps [simp]: "utf8 [] = []" "utf8 (c # cs) = WRITE_UTF8 c @ utf8 cs"
  by (simp_all add: utf8_def)

lemma start_utf8 [simp]: "at_char_start (utf8 cs)" "at_char_start (WRITE_UTF8 c @ z)"
proof -
  show "at_char_start (utf8 cs)" unfolding utf8_def by (rule at_char_start_text)
  show "at_char_start (WRITE_UTF8 c @ z)" using WRITE_UTF8_shape [of c] by (auto simp: at_char_start_def)
qed

lemma WRITE_ascii: "c < 0x80 \<Longrightarrow> WRITE_UTF8 c = [ucast c]"
proof -
  assume "c < 0x80"
  then have "unat c < 128" by (simp add: word_less_nat_alt)
  then have "(ucast (c AND 0xFF) :: u8) = ucast c" by (simp add: word_unat_eq_iff unat_ucast8 unat_low)
  then show ?thesis using \<open>c < 0x80\<close> by (simp add: WRITE_UTF8_def)
qed

lemma WRITE_wide: "\<not> c < 0x80 \<Longrightarrow> b \<in> set (WRITE_UTF8 c) \<Longrightarrow> 0x80 \<le> b"
  using cont_byte [of 0 c]
  by (auto simp: WRITE_UTF8_def word_le_nat_alt write_bytes cont_byte split: if_splits)

lemma ucast_ascii: "c < 0x80 \<Longrightarrow> (ucast c :: u8) = b \<longleftrightarrow> c = ucast b" for c :: u32
proof -
  assume "c < 0x80"
  then have "unat c < 128" by (simp add: word_less_nat_alt)
  then have "unat (ucast c :: u8) = unat c" by (simp add: unat_ucast8)
  then show ?thesis by (simp add: word_unat_eq_iff unat_ucast8)
qed

lemma cstr_hd_utf8:
  assumes "c \<noteq> 0"
  shows "cstr_hd (WRITE_UTF8 c @ z) \<noteq> 0" "b < 0x80 \<Longrightarrow> cstr_hd (WRITE_UTF8 c @ z) = b \<longleftrightarrow> c = ucast b"
proof -
  obtain d bs where w: "WRITE_UTF8 c = d # bs" "d = 0 \<longleftrightarrow> c = 0" using WRITE_UTF8_conts [of c] by auto
  then show "cstr_hd (WRITE_UTF8 c @ z) \<noteq> 0" using assms by (simp add: cstr_hd_def)
  show "cstr_hd (WRITE_UTF8 c @ z) = b \<longleftrightarrow> c = ucast b" if b: "b < 0x80"
  proof (cases "c < 0x80")
    case True
    then show ?thesis by (simp add: WRITE_ascii cstr_hd_def ucast_ascii)
  next
    case False
    then have "0x80 \<le> d" using WRITE_wide [of c d] w by simp
    moreover have "c \<noteq> ucast b"
      using False b by (auto simp: word_less_nat_alt unat_ucast8)
    ultimately show ?thesis using w b by (auto simp: cstr_hd_def)
  qed
qed

lemma skip_utf8_char: "skip_utf8 (WRITE_UTF8 c @ utf8 cs) = utf8 cs"
proof -
  obtain b bs where w: "WRITE_UTF8 c = b # bs" "list_all is_cont bs" "0xC0 \<le> b \<longleftrightarrow> bs \<noteq> []"
    using WRITE_UTF8_conts [of c] by auto
  then show ?thesis using dropWhile_conts [OF w(2) start_utf8(1)] by auto
qed

subsection \<open>Sets\<close>

lemma in_ranges_simps [simp]:
  "in_ranges c [] \<longleftrightarrow> False" "in_ranges c ((a, b) # rs) \<longleftrightarrow> a \<le> c \<and> c \<le> b \<or> in_ranges c rs"
  by (auto simp: in_ranges_def)

definition prior_of :: "u32 option \<Rightarrow> u32" where
  "prior_of lo = (case lo of None \<Rightarrow> 0 | Some a \<Rightarrow> a)"

definition set_result :: "((u32 \<times> u32) list \<times> u32 list) option \<Rightarrow> u32 \<Rightarrow> bool \<Rightarrow> u32 \<times> bool \<times> u8 list \<Rightarrow> bool" where
  "set_result R c seen r \<longleftrightarrow>
     (case r of (c2, seen', z) \<Rightarrow>
      case R of None \<Rightarrow> c2 = 0
      | Some (rs, q) \<Rightarrow> c2 = 0x5D \<and> (seen' \<longleftrightarrow> seen \<or> in_ranges c rs) \<and> z = utf8 q \<and> chars_ok q)"

lemma set_result_range:
  "set_result R c (seen \<or> a \<le> c \<and> c \<le> b) r \<Longrightarrow> set_result (map_option (\<lambda>(rs, q). ((a, b) # rs, q)) R) c seen r"
  by (auto simp: set_result_def split: option.splits prod.splits)

definition set_from :: "u32 \<Rightarrow> u32 \<Rightarrow> bool \<Rightarrow> u32 list \<Rightarrow> u32 \<times> bool \<times> u8 list" where
  "set_from c prior seen p = (case READ_UTF8 (utf8 p) of (c2, z) \<Rightarrow> class_loop c c2 prior seen z)"

lemma set_from_Nil: "set_from c prior seen [] = (0, seen, [])"
  by (simp add: set_from_def class_loop.simps)

lemma set_from_Cons:
  assumes "text_char d" "d \<noteq> 0" "chars_ok p"
  shows "set_from c prior seen (d # p) =
    (if d = 0x5D then (d, seen, utf8 p)
     else if d = 0x2D \<and> 0 < prior \<and> p \<noteq> [] \<and> hd p \<noteq> 0x5D
     then set_from c 0 (seen \<or> prior \<le> c \<and> c \<le> hd p) (tl p)
     else set_from c d (seen \<or> c = d) p)"
proof -
  have rd: "READ_UTF8 (utf8 (d # p)) = (d, utf8 p)"
    using assms(1) by (simp add: READ_text del: READ_UTF8.simps)
  have hd: "cstr_hd (utf8 p) = 0 \<longleftrightarrow> p = []" "cstr_hd (utf8 p) = 0x5D \<longleftrightarrow> p \<noteq> [] \<and> hd p = 0x5D"
    using assms(3) cstr_hd_utf8(1) cstr_hd_utf8(2) [of _ "0x5D"] by (cases p; auto simp: cstr_hd_def)+
  have nxt: "READ_UTF8 (utf8 p) = (hd p, utf8 (tl p))" if "p \<noteq> []"
    using assms(3) that by (cases p) (auto simp: READ_text simp del: READ_UTF8.simps)
  show ?thesis
  proof (cases "d = 0x5D")
    case True
    then show ?thesis unfolding set_from_def rd prod.case by (simp add: class_loop.simps)
  next
    case False
    have l: "class_loop c d prior seen (utf8 p) =
        (if d = 0x2D \<and> 0 < prior \<and> p \<noteq> [] \<and> hd p \<noteq> 0x5D
         then (case READ_UTF8 (utf8 p) of (c2, z) \<Rightarrow>
           case READ_UTF8 z of (c2', z') \<Rightarrow> class_loop c c2' 0 (seen \<or> prior \<le> c \<and> c \<le> c2) z')
         else (case READ_UTF8 (utf8 p) of (c2', z) \<Rightarrow> class_loop c c2' d (seen \<or> c = d) z))"
      using False assms(2) by (subst class_loop.simps) (auto simp: hd)
    show ?thesis
      using False nxt unfolding set_from_def rd prod.case l by auto
  qed
qed

lemma set_from_ranges:
  assumes "chars_ok p" and "lo \<noteq> Some 0"
  shows "set_result (ranges lo p) c seen (set_from c (prior_of lo) seen p)"
  using assms
proof (induction p arbitrary: lo seen rule: measure_induct_rule [of length])
  case (less x)
  show ?case
  proof (cases x)
    case Nil
    then show ?thesis by (simp add: set_from_Nil set_result_def)
  next
    case (Cons d p)
    then have d: "text_char d" "d \<noteq> 0" "chars_ok p" using less.prems(1) by simp_all
    have prior: "0 < prior_of lo \<longleftrightarrow> lo \<noteq> None"
      using less.prems(2) by (auto simp: prior_of_def word_gt_0 split: option.splits)
    consider (close) "d = 0x5D" | (range) a b q where "d = 0x2D" "lo = Some a" "p = b # q" "b \<noteq> 0x5D"
      | (lit) "d \<noteq> 0x5D" "\<not> (d = 0x2D \<and> lo \<noteq> None \<and> p \<noteq> [] \<and> hd p \<noteq> 0x5D)"
      by (cases lo; cases p) auto
    then show ?thesis
    proof cases
      case close
      then show ?thesis using d by (simp add: Cons set_from_Cons set_result_def)
    next
      case range
      then have "set_result (ranges None q) c (seen \<or> a \<le> c \<and> c \<le> b) (set_from c (prior_of None) (seen \<or> a \<le> c \<and> c \<le> b) q)"
        using d(3) Cons by (intro less.IH) simp_all
      moreover have "set_from c (prior_of lo) seen (d # p) = set_from c (prior_of None) (seen \<or> a \<le> c \<and> c \<le> b) q"
        by (subst set_from_Cons [OF d]) (use range prior in \<open>simp add: prior_of_def\<close>)
      moreover have "ranges lo (d # p) = map_option (\<lambda>(rs, q). ((a, b) # rs, q)) (ranges None q)"
        using range by simp
      ultimately show ?thesis unfolding Cons by (metis set_result_range)
    next
      case lit
      have "(c = d) = (d \<le> c \<and> c \<le> d)" by auto
      moreover have "set_result (ranges (Some d) p) c (seen \<or> c = d) (set_from c (prior_of (Some d)) (seen \<or> c = d) p)"
        using d Cons by (intro less.IH) simp_all
      ultimately have A: "set_result (map_option (\<lambda>(rs, q). ((d, d) # rs, q)) (ranges (Some d) p)) c seen (set_from c d (seen \<or> c = d) p)"
        by (intro set_result_range) (simp add: prior_of_def)
      have B: "ranges lo (d # p) = map_option (\<lambda>(rs, q). ((d, d) # rs, q)) (ranges (Some d) p)"
        using lit by (cases "d = 0x2D"; cases lo; cases p) simp_all
      have no: "\<not> (d = 0x2D \<and> 0 < prior_of lo \<and> p \<noteq> [] \<and> hd p \<noteq> 0x5D)" using lit(2) prior by blast
      have C: "set_from c (prior_of lo) seen (d # p) = set_from c d (seen \<or> c = d) p"
        unfolding set_from_Cons [OF d] if_not_P [OF lit(1)] if_not_P [OF no] ..
      show ?thesis unfolding Cons B C by (rule A)
    qed
  qed
qed

lemma match_set_item:
  assumes "chars_ok p"
  shows "case set_item p of
      None \<Rightarrow> \<not> fst (match_set c (utf8 p))
    | Some (i, q) \<Rightarrow> \<exists>neg rs. i = InSet neg rs \<and> match_set c (utf8 p) = (in_ranges c rs \<noteq> neg, utf8 q) \<and> chars_ok q"
proof -
  define neg where "neg = (p \<noteq> [] \<and> hd p = 0x5E)"
  define p1 where "p1 = (if neg then tl p else p)"
  define lit where "lit = (p1 \<noteq> [] \<and> hd p1 = 0x5D)"
  define p2 where "p2 = (if lit then tl p1 else p1)"
  have rd: "READ_UTF8 (utf8 p) = (if p = [] then (0, []) else (hd p, utf8 (tl p)))" if "chars_ok p" for p
    using that by (cases p) (auto simp: READ_text simp del: READ_UTF8.simps intro: READ_UTF8.simps(1))
  have tl: "chars_ok p \<Longrightarrow> chars_ok (tl p)" for p by (cases p) auto
  have ok: "chars_ok p1" "chars_ok p2"
    using assms tl by (auto simp: p1_def p2_def)
  have inv: "(fst (READ_UTF8 (utf8 p)) = 0x5E) = neg"
    unfolding rd [OF assms] neg_def by simp
  have first: "(if neg then READ_UTF8 (snd (READ_UTF8 (utf8 p))) else READ_UTF8 (utf8 p)) = READ_UTF8 (utf8 p1)"
    by (auto simp: rd [OF assms] p1_def neg_def)
  have lit: "(fst (READ_UTF8 (utf8 p1)) = 0x5D) = lit"
    unfolding rd [OF ok(1)] lit_def by simp
  have second: "(if lit then READ_UTF8 (snd (READ_UTF8 (utf8 p1))) else READ_UTF8 (utf8 p1)) = READ_UTF8 (utf8 p2)"
    by (auto simp: rd [OF ok(1)] p2_def lit_def)
  have "match_set c (utf8 p) =
      (let r0 = READ_UTF8 (utf8 p); r1 = (if fst r0 = 0x5E then READ_UTF8 (snd r0) else r0);
           r2 = (if fst r1 = 0x5D then READ_UTF8 (snd r1) else r1);
           r = class_loop c (fst r2) 0 (fst r1 = 0x5D \<and> c = 0x5D) (snd r2)
       in (\<not> (fst r = 0 \<or> fst (snd r) = (fst r0 = 0x5E)), snd (snd r)))"
    by (simp add: match_set_def split_def Let_def)
  then have m: "match_set c (utf8 p) =
      (let r = set_from c 0 (lit \<and> c = 0x5D) p2 in (\<not> (fst r = 0 \<or> fst (snd r) = neg), snd (snd r)))"
    unfolding Let_def inv first lit second set_from_def by (simp add: split_def)
  have s: "set_item p = (if lit then map_option (\<lambda>(rs, q). (InSet neg ((0x5D, 0x5D) # rs), q)) (ranges None p2)
      else map_option (\<lambda>(rs, q). (InSet neg rs, q)) (ranges None p2))"
    by (simp add: set_item_def Let_def neg_def p1_def lit_def p2_def)
  have e: "c = 0x5D \<longleftrightarrow> 0x5D \<le> c \<and> c \<le> 0x5D" by auto
  obtain c2 seen z where r: "set_from c 0 (lit \<and> c = 0x5D) p2 = (c2, seen, z)" by (metis surj_pair)
  have "set_result (ranges None p2) c (lit \<and> c = 0x5D) (c2, seen, z)"
    using set_from_ranges [OF ok(2), of None c "lit \<and> c = 0x5D"] by (simp add: prior_of_def r)
  then have R: "case ranges None p2 of None \<Rightarrow> c2 = 0
      | Some (rs, q) \<Rightarrow> c2 = 0x5D \<and> seen = ((lit \<and> c = 0x5D) \<or> in_ranges c rs) \<and> z = utf8 q \<and> chars_ok q"
    by (simp add: set_result_def)
  show ?thesis
  proof (cases "ranges None p2")
    case None
    then show ?thesis using R unfolding m s r by simp
  next
    case (Some a)
    then obtain rs q where a: "ranges None p2 = Some (rs, q)" by (cases a) auto
    show ?thesis using R unfolding m s r a by (cases lit) (auto simp: e [symmetric])
  qed
qed

subsection \<open>Wildcards\<close>

lemma matches_Many_tail: "matches nc p s \<Longrightarrow> matches nc (Many # p) s"
  by (cases s) auto

lemma matches_Many_drop: "matches nc (Many # p) (drop k s) \<Longrightarrow> matches nc (Many # p) s"
proof (induction k arbitrary: s)
  case (Suc k)
  then show ?case by (cases s) auto
qed simp

lemma matches_Many_Many: "matches nc (Many # Many # p) s \<longleftrightarrow> matches nc (Many # p) s"
  by (induction s) auto

lemma matches_Many_One: "matches nc (Many # One # p) s \<longleftrightarrow> s \<noteq> [] \<and> matches nc (Many # p) (tl s)"
proof (induction s)
  case (Cons d s)
  then show ?case using matches_Many_drop [of nc p 1 s] by (cases s) (auto simp: matches_Many_tail)
qed simp

lemma matches_Many_end: "matches nc [Many] s"
  by (induction s) auto

text \<open>The info and the escape of a call: what is read as a wildcard is not the escape as well.\<close>

definition call_ok :: "compareInfo \<Rightarrow> u32 \<Rightarrow> bool" where
  "call_ok info esc \<longleftrightarrow>
     (esc \<noteq> 0 \<longrightarrow> esc \<noteq> ucast (matchAll info) \<and> esc \<noteq> ucast (matchOne info)) \<and>
     (matchAll info \<noteq> 0 \<longrightarrow> matchAll info \<noteq> matchOne info) \<and>
     (matchSet info \<noteq> 0 \<longrightarrow> esc < 0x80 \<and> \<not> noCase info)"

lemma call_ok_infos: "call_ok globInfo 0x5B" "esc \<noteq> 0x25 \<Longrightarrow> esc \<noteq> 0x5F \<Longrightarrow> call_ok likeInfoNorm esc"
  by (simp_all add: call_ok_def globInfo_def likeInfoNorm_def ch_def)

lemma READ_end: "READ_UTF8 (utf8 []) = (0, [])"
  by simp

lemma READ_next: "text_char c \<Longrightarrow> READ_UTF8 (WRITE_UTF8 c @ utf8 cs) = (c, utf8 cs)"
  by (rule READ_text) simp_all

lemma skip_wild_matches:
  assumes "call_ok info esc" "chars_ok p" "chars_ok s"
  shows "case skip_wild info (utf8 p) (utf8 s) of
      None \<Rightarrow> \<not> matches nc (Many # parse_pattern info esc p) s
    | Some (c, z, s') \<Rightarrow> \<exists>q t. s' = utf8 t \<and> chars_ok t \<and> chars_ok q \<and> set q \<subseteq> set p \<and> length q \<le> length p \<and>
        (matches nc (Many # parse_pattern info esc p) s \<longleftrightarrow> matches nc (Many # parse_pattern info esc q) t) \<and>
        (q = [] \<and> c = 0 \<or> (\<exists>q'. q = c # q' \<and> z = utf8 q' \<and> c \<noteq> ucast (matchAll info) \<and> c \<noteq> ucast (matchOne info)))"
  using assms(2,3)
proof (induction p arbitrary: s)
  case Nil
  then show ?case
    by (subst skip_wild.simps) (auto intro!: exI [of _ s])
next
  case (Cons d p)
  then have d: "text_char d" "d \<noteq> 0" "chars_ok p" by simp_all
  have rd: "READ_UTF8 (utf8 (d # p)) = (d, utf8 p)" by (simp add: READ_next d del: READ_UTF8.simps)
  have ne: "utf8 (d # p) \<noteq> []" by simp
  let ?all = "ucast (matchAll info)" and ?one = "ucast (matchOne info)"
  have one0: "d = ?one \<Longrightarrow> matchOne info \<noteq> 0" using d(2) by auto
  consider (one) "d = ?one" | (all) "d = ?all" "d \<noteq> ?one" | (other) "d \<noteq> ?all" "d \<noteq> ?one" by blast
  then show ?case
  proof cases
    case other
    then have sk: "skip_wild info (utf8 (d # p)) (utf8 s) = Some (d, utf8 p, utf8 s)"
      unfolding skip_wild.simps [of info "utf8 (d # p)"] rd by simp
    show ?thesis
      unfolding sk option.case prod.case
      by (rule exI [of _ "d # p"], rule exI [of _ s]) (use other Cons.prems in auto)
  next
    case all
    then have sk: "skip_wild info (utf8 (d # p)) (utf8 s) = skip_wild info (utf8 p) (utf8 s)"
      unfolding skip_wild.simps [of info "utf8 (d # p)"] rd using ne by simp
    have "matches nc (Many # parse_pattern info esc (d # p)) s = matches nc (Many # parse_pattern info esc p) s"
      using all by (simp add: parse_pattern.simps(2) matches_Many_Many)
    then show ?thesis using Cons.IH [OF d(3) Cons.prems(2)] unfolding sk by (fastforce split: option.splits)
  next
    case one
    then have na: "d \<noteq> ?all" using assms(1) d(2) by (auto simp: call_ok_def word_unat_eq_iff unat_ucast8 simp del: unsigned_ucast_eq)
    have parse: "parse_pattern info esc (d # p) = One # parse_pattern info esc p"
      using na one assms(1) d(2) by (auto simp: call_ok_def parse_pattern.simps(2))
    show ?thesis
    proof (cases s)
      case Nil
      then have "skip_wild info (utf8 (d # p)) (utf8 s) = None"
        unfolding skip_wild.simps [of info "utf8 (d # p)"] rd using ne one one0 by simp
      then show ?thesis using Nil by (simp add: parse)
    next
      case s: (Cons e t)
      then have e: "text_char e" "e \<noteq> 0" "chars_ok t" using Cons.prems(2) by simp_all
      have rs: "READ_UTF8 (utf8 s) = (e, utf8 t)" by (simp add: s READ_next e del: READ_UTF8.simps)
      have sk: "skip_wild info (utf8 (d # p)) (utf8 s) = skip_wild info (utf8 p) (utf8 t)"
        unfolding skip_wild.simps [of info "utf8 (d # p)"] rd using ne one one0 e(2) by (simp add: rs)
      have "matches nc (Many # parse_pattern info esc (d # p)) s = matches nc (Many # parse_pattern info esc p) t"
        unfolding parse matches_Many_One s by simp
      then show ?thesis using Cons.IH [OF d(3) e(3)] unfolding sk by (fastforce split: option.splits)
    qed
  qed
qed

subsection \<open>Searches\<close>

text \<open>What a result says about a text: a match, none, or none at any later place either.\<close>

definition verdict :: "bool \<Rightarrow> item list \<Rightarrow> u32 list \<Rightarrow> nat \<Rightarrow> bool" where
  "verdict nc p s r \<longleftrightarrow>
     r = SQLITE_MATCH \<and> matches nc p s \<or>
     r = SQLITE_NOMATCH \<and> \<not> matches nc p s \<or>
     r = SQLITE_NOWILDCARDMATCH \<and> (\<forall>k. \<not> matches nc p (drop k s))"

lemmas code_defs = SQLITE_MATCH_def SQLITE_NOMATCH_def SQLITE_NOWILDCARDMATCH_def

lemma verdict_Many:
  "r = SQLITE_MATCH \<and> matches nc (Many # p) s \<or> r = SQLITE_NOWILDCARDMATCH \<and> \<not> matches nc (Many # p) s \<Longrightarrow>
   verdict nc (Many # p) s r"
  using matches_Many_drop by (auto simp: verdict_def)

lemma verdict_step:
  assumes "verdict nc p s r" "i \<noteq> Many" "item_matches nc i d"
  shows "verdict nc (i # p) (d # s) r"
proof -
  have m: "matches nc (i # p) (x # t) \<longleftrightarrow> item_matches nc i x \<and> matches nc p t" for x t
    using assms(2) by (cases i) auto
  have "\<not> matches nc (i # p) []" using assms(2) by (cases i) auto
  then have "matches nc (i # p) (drop k (d # s)) \<Longrightarrow> \<exists>k'. matches nc p (drop k' s)" for k
    using tl_drop [of k "d # s"] by (cases "drop k (d # s)") (auto simp: m)
  then show ?thesis using assms(1,3) by (auto simp: verdict_def m)
qed

definition answers :: "bool \<Rightarrow> item list \<Rightarrow> (u8 list \<Rightarrow> nat) \<Rightarrow> bool" where
  "answers nc p f \<longleftrightarrow> (\<forall>t. chars_ok t \<longrightarrow> verdict nc p t (f (utf8 t)))"

lemma search_set_verdict:
  assumes "answers nc p f" "\<not> matches nc p []" "chars_ok s"
  shows "search_set f (utf8 s) = SQLITE_MATCH \<and> matches nc (Many # p) s \<or>
    search_set f (utf8 s) = SQLITE_NOWILDCARDMATCH \<and> \<not> matches nc (Many # p) s"
  using assms(3)
proof (induction s)
  case Nil
  then show ?case using assms(2) by (subst (1 2) search_set.simps) (simp add: cstr_hd_def code_defs)
next
  case (Cons d s)
  then have d: "text_char d" "d \<noteq> 0" "chars_ok s" by simp_all
  let ?r = "f (utf8 (d # s))"
  have E: "search_set f (utf8 (d # s)) = (if ?r \<noteq> SQLITE_NOMATCH then ?r else search_set f (utf8 s))"
    using d(2) by (subst search_set.simps) (simp add: Let_def cstr_hd_utf8(1) skip_utf8_char)
  have v: "verdict nc p (d # s) ?r" using assms(1) Cons.prems by (simp add: answers_def del: utf8_simps)
  have m: "matches nc (Many # p) (d # s) \<longleftrightarrow> matches nc p (d # s) \<or> matches nc (Many # p) s" by simp
  have none: "\<not> matches nc (Many # p) t" if "\<forall>k. \<not> matches nc p (drop k t)" for t
    using that
  proof (induction t)
    case Nil
    then show ?case using assms(2) by simp
  next
    case (Cons x t)
    have "\<not> matches nc p (drop k t)" for k using Cons.prems [rule_format, of "Suc k"] by simp
    then show ?case using Cons.IH Cons.prems [rule_format, of 0] by simp
  qed
  show ?case
    using v Cons.IH [OF d(3)] none [of "d # s"] unfolding E m verdict_def
    by (auto simp: code_defs)
qed

text \<open>Both searches for a character go from one occurrence to the next.\<close>

lemma seek_verdict:
  assumes "answers nc p f" and "chars_ok s"
    and nil: "g [] = SQLITE_NOWILDCARDMATCH"
    and hit: "\<And>d t. chars_ok (d # t) \<Longrightarrow> same_char nc c d \<Longrightarrow>
      g (utf8 (d # t)) = (if f (utf8 t) \<noteq> SQLITE_NOMATCH then f (utf8 t) else g (utf8 t))"
    and miss: "\<And>d t. chars_ok (d # t) \<Longrightarrow> \<not> same_char nc c d \<Longrightarrow> g (utf8 (d # t)) = g (utf8 t)"
  shows "g (utf8 s) = SQLITE_MATCH \<and> matches nc (Many # Lit c # p) s \<or>
    g (utf8 s) = SQLITE_NOWILDCARDMATCH \<and> \<not> matches nc (Many # Lit c # p) s"
  using assms(2)
proof (induction s)
  case Nil
  then show ?case by (simp add: nil)
next
  case (Cons d s)
  then have d: "chars_ok s" by simp
  have m: "matches nc (Many # Lit c # p) (d # s) \<longleftrightarrow>
      same_char nc c d \<and> matches nc p s \<or> matches nc (Many # Lit c # p) s" by simp
  show ?case
  proof (cases "same_char nc c d")
    case False
    then show ?thesis using Cons.IH [OF d] unfolding m miss [OF Cons.prems False] by simp
  next
    case True
    have v: "verdict nc p s (f (utf8 s))" using assms(1) d by (simp add: answers_def)
    have none: "\<not> matches nc (Many # Lit c # p) t" if "\<forall>k. \<not> matches nc p (drop k t)" for t
      using that
    proof (induction t)
      case (Cons x t)
      have "\<not> matches nc p (drop k t)" for k using Cons.prems [rule_format, of "Suc k"] by simp
      then show ?case using Cons.IH Cons.prems [rule_format, of 1] by simp
    qed simp
    have "(\<forall>k. \<not> matches nc p (drop k s)) \<Longrightarrow> \<not> matches nc p s" by (metis drop0)
    then show ?thesis
      using v Cons.IH [OF d] none [of s] True unfolding m hit [OF Cons.prems True] verdict_def
      by (auto simp: code_defs)
  qed
qed

lemma search_char_verdict:
  assumes "answers nc p f" "chars_ok s" "\<not> c < 0x80"
  shows "search_char f c (utf8 s) = SQLITE_MATCH \<and> matches nc (Many # Lit c # p) s \<or>
    search_char f c (utf8 s) = SQLITE_NOWILDCARDMATCH \<and> \<not> matches nc (Many # Lit c # p) s"
proof (rule seek_verdict [OF assms(1,2), of "search_char f c"])
  show "search_char f c [] = SQLITE_NOWILDCARDMATCH" by (subst search_char.simps) simp
next
  fix d t
  assume d: "chars_ok (d # t)"
  then have rd: "READ_UTF8 (utf8 (d # t)) = (d, utf8 t)" by (simp add: READ_next del: READ_UTF8.simps)
  show "search_char f c (utf8 (d # t)) = (if f (utf8 t) \<noteq> SQLITE_NOMATCH then f (utf8 t) else search_char f c (utf8 t))"
    if "same_char nc c d"
    using that assms(3) d by (subst search_char.simps) (auto simp: same_char_def rd Let_def simp del: utf8_simps)
  show "search_char f c (utf8 (d # t)) = search_char f c (utf8 t)" if "\<not> same_char nc c d"
    using that d by (subst search_char.simps) (auto simp: same_char_def rd Let_def simp del: utf8_simps)
qed

text \<open>The bytes of \<open>zStop\<close> are the two cases of the character.\<close>

definition upper_nat :: "nat \<Rightarrow> nat" where
  "upper_nat n = (if 97 \<le> n \<and> n \<le> 122 then n - 32 else n)"

lemma upper_table: "list_all (\<lambda>n. unat (sqlite3Toupper (word_of_nat n)) = upper_nat n) [0..<128]"
  by code_simp

lemma same_case: "lower_nat n = lower_nat m \<longleftrightarrow> m = upper_nat n \<or> m = lower_nat n"
  by (auto simp: lower_nat_def upper_nat_def)

lemma Toupper_ascii:
  assumes "c < (0x80 :: u32)" shows "unat (sqlite3Toupper (ucast c)) = upper_nat (unat c)"
proof -
  have n: "unat c < 128" using assms by (simp add: word_less_nat_alt)
  then have u: "unat (ucast c :: u8) = unat c" by (simp add: unat_ucast8)
  have "(word_of_nat (unat c) :: u8) = ucast c" by (rule word_unat_eq_iff [THEN iffD2]) (use n u in \<open>simp add: unat_of_nat\<close>)
  then show ?thesis using n upper_table by (force simp: list_all_iff)
qed

lemma stop_bytes_same:
  assumes "c < 0x80" "d < 0x80"
  shows "ucast d \<in> set (stop_bytes nc c) \<longleftrightarrow> same_char nc c d"
proof -
  have n: "unat c < 128" "unat d < 128" using assms by (simp_all add: word_less_nat_alt)
  have u: "unat (ucast c :: u8) = unat c" "unat (ucast d :: u8) = unat d"
    using n by (simp_all add: unat_ucast8)
  have up: "unat (sqlite3Toupper (ucast c)) = upper_nat (unat c)" by (rule Toupper_ascii [OF assms(1)])
  have lo: "unat (sqlite3Tolower (ucast c)) = lower_nat (unat c)" "unat (sqlite3Tolower (ucast d)) = lower_nat (unat d)"
    by (simp_all only: Tolower_nat u)
  have e: "ucast d = (ucast c :: u8) \<longleftrightarrow> unat c = unat d" "c = d \<longleftrightarrow> unat c = unat d"
    "ucast d = sqlite3Toupper (ucast c) \<longleftrightarrow> unat d = upper_nat (unat c)"
    "ucast d = sqlite3Tolower (ucast c) \<longleftrightarrow> unat d = lower_nat (unat c)"
    "sqlite3Tolower (ucast c) = sqlite3Tolower (ucast d) \<longleftrightarrow> lower_nat (unat c) = lower_nat (unat d)"
    by (simp_all only: word_unat_eq_iff up u lo) auto
  have refl: "unat c = unat d \<Longrightarrow> lower_nat (unat c) = lower_nat (unat d)" by simp
  have "ucast d \<in> set (stop_bytes nc c) \<longleftrightarrow>
      (if nc then ucast d = sqlite3Toupper (ucast c) \<or> ucast d = sqlite3Tolower (ucast c) else ucast d = (ucast c :: u8))"
    by (cases nc) (simp_all add: stop_bytes_def)
  then show ?thesis
    unfolding same_char_def e using assms same_case [of "unat c" "unat d"] refl by metis
qed

lemma stop_bytes_small:
  assumes "c < 0x80" "b \<in> set (stop_bytes nc c)" shows "b < 0x80"
proof -
  have n: "unat c < 128" using assms(1) by (simp add: word_less_nat_alt)
  then have u: "unat (ucast c :: u8) = unat c" by (simp add: unat_ucast8)
  have "unat (sqlite3Toupper (ucast c)) = upper_nat (unat c)" by (rule Toupper_ascii [OF assms(1)])
  moreover have "unat (sqlite3Tolower (ucast c)) = lower_nat (unat c)" by (simp only: Tolower_nat u)
  moreover have "upper_nat (unat c) < 128" "lower_nat (unat c) < 128" using n by (auto simp: upper_nat_def lower_nat_def)
  ultimately show ?thesis
    using assms(2) n u by (auto simp: stop_bytes_def word_less_nat_alt split: if_splits)
qed

lemma search_stop_verdict:
  assumes "answers nc p f" "chars_ok s" "c < 0x80"
  shows "search_stop f (stop_bytes nc c) (utf8 s) = SQLITE_MATCH \<and> matches nc (Many # Lit c # p) s \<or>
    search_stop f (stop_bytes nc c) (utf8 s) = SQLITE_NOWILDCARDMATCH \<and> \<not> matches nc (Many # Lit c # p) s"
proof (rule seek_verdict [OF assms(1,2), of "search_stop f (stop_bytes nc c)"])
  show "search_stop f (stop_bytes nc c) [] = SQLITE_NOWILDCARDMATCH"
    by (subst search_stop.simps) (simp add: strcspn_def cstr_hd_def)
next
  fix d t
  assume d: "chars_ok (d # t)"
  let ?P = "\<lambda>b. b \<noteq> 0 \<and> b \<notin> set (stop_bytes nc c)"
  show "search_stop f (stop_bytes nc c) (utf8 (d # t)) = (if f (utf8 t) \<noteq> SQLITE_NOMATCH then f (utf8 t) else search_stop f (stop_bytes nc c) (utf8 t))"
    if same: "same_char nc c d"
  proof -
    have a: "d < 0x80" using same assms(3) by (auto simp: same_char_def)
    have "ucast d \<noteq> (0 :: u8)" using d a by (simp add: ucast_ascii)
    moreover have "ucast d \<in> set (stop_bytes nc c)" using stop_bytes_same [OF assms(3) a] same by simp
    ultimately show ?thesis
      by (subst search_stop.simps) (simp add: strcspn_def WRITE_ascii [OF a] cstr_hd_def Let_def)
  qed
  show "search_stop f (stop_bytes nc c) (utf8 (d # t)) = search_stop f (stop_bytes nc c) (utf8 t)" if other: "\<not> same_char nc c d"
  proof -
    have "?P b" if b: "b \<in> set (WRITE_UTF8 d)" for b
    proof (cases "d < 0x80")
      case True
      then have "b = ucast d" using b by (simp add: WRITE_ascii)
      then show ?thesis using True d other stop_bytes_same [OF assms(3) True] by (simp add: ucast_ascii)
    next
      case False
      then have "0x80 \<le> b" using WRITE_wide b by simp
      then show ?thesis using stop_bytes_small [OF assms(3), of b nc] by auto
    qed
    then have "strcspn (stop_bytes nc c) (utf8 (d # t)) = strcspn (stop_bytes nc c) (utf8 t)"
      by (simp add: strcspn_def dropWhile_append2)
    then show ?thesis by (subst (1 2) search_stop.simps) simp
  qed
qed

subsection \<open>The matcher is right\<close>

lemma same_char_0: "c \<noteq> 0 \<Longrightarrow> \<not> same_char nc c 0"
proof -
  assume c: "c \<noteq> 0"
  have "ucast c = (0::u8) \<Longrightarrow> c < 0x80 \<Longrightarrow> c = 0" by (simp add: ucast_ascii)
  then show ?thesis using c Tolower_0 [of "ucast c"] Tolower_0 [of 0] by (auto simp: same_char_def)
qed

lemma utf8_length: "length (utf8 q) < length (utf8 (c # q))"
  by (cases "WRITE_UTF8 c") auto

lemma no_match_Never: "\<not> matches nc [Many, Never] s"
  by (induction s) auto

lemma utf8_ascii: "c < 0x80 \<Longrightarrow> ucast c # utf8 q = utf8 (c # q)"
  by (simp add: WRITE_ascii)

lemma parse_set: "c \<noteq> 0 \<Longrightarrow> call_ok info esc \<Longrightarrow> c = esc \<Longrightarrow> matchSet info \<noteq> 0 \<Longrightarrow>
   parse_pattern info esc (c # q) = (case set_item q of None \<Rightarrow> [Never] | Some (i, q') \<Rightarrow> i # parse_pattern info esc q')"
  by (auto simp: call_ok_def parse_pattern.simps(2))

lemma parse_escape: "c \<noteq> 0 \<Longrightarrow> call_ok info esc \<Longrightarrow> c = esc \<Longrightarrow> matchSet info = 0 \<Longrightarrow>
   parse_pattern info esc (c # q) = (case q of [] \<Rightarrow> [Never] | d # q' \<Rightarrow> Lit d # parse_pattern info esc q')"
  by (auto simp: call_ok_def parse_pattern.simps(2))

lemma parse_plain: "c \<noteq> esc \<Longrightarrow> c \<noteq> ucast (matchAll info) \<Longrightarrow>
   parse_pattern info esc (c # q) = (if c = ucast (matchOne info) then One else Lit c) # parse_pattern info esc q"
  by (simp add: parse_pattern.simps(2))

lemma set_item_shape: "set_item q = Some (i, q') \<Longrightarrow> \<exists>neg rs. i = InSet neg rs"
  by (auto simp: set_item_def Let_def split: if_splits)

text \<open>The search behind a wildcard, once the wildcards are skipped.\<close>

lemma behind_wildcard:
  assumes ok: "call_ok info esc" "chars_ok (c # q)" "chars_ok t" "0x80 \<notin> set (c # q)" "c \<noteq> ucast (matchAll info)" "c \<noteq> ucast (matchOne info)"
    and IH: "\<And>p. length p \<le> length (c # q) \<Longrightarrow> chars_ok p \<Longrightarrow> 0x80 \<notin> set p \<Longrightarrow>
      answers (noCase info) (parse_pattern info esc p) (pattern_loop info esc None (utf8 p))"
  defines "r \<equiv> (if c = esc \<and> matchSet info \<noteq> 0 then search_set (\<lambda>s. pattern_loop info esc None (ucast c # utf8 q) s) (utf8 t)
     else (case (if c = esc then READ_UTF8 (utf8 q) else (c, utf8 q)) of
             (c, z) \<Rightarrow> if c = 0 then SQLITE_NOWILDCARDMATCH
               else if c \<le> 0x80 then search_stop (\<lambda>s. pattern_loop info esc None z s) (stop_bytes (noCase info) c) (utf8 t)
               else search_char (\<lambda>s. pattern_loop info esc None z s) c (utf8 t)))"
  shows "r = SQLITE_MATCH \<and> matches (noCase info) (Many # parse_pattern info esc (c # q)) t \<or>
    r = SQLITE_NOWILDCARDMATCH \<and> \<not> matches (noCase info) (Many # parse_pattern info esc (c # q)) t"
proof -
  have c: "text_char c" "c \<noteq> 0" "chars_ok q" "c \<noteq> 0x80" "0x80 \<notin> set q" using ok by auto
  have lit: "r' = SQLITE_MATCH \<and> matches (noCase info) (Many # Lit d # parse_pattern info esc u) t \<or>
      r' = SQLITE_NOWILDCARDMATCH \<and> \<not> matches (noCase info) (Many # Lit d # parse_pattern info esc u) t"
    if "r' = (if d \<le> 0x80 then search_stop (\<lambda>s. pattern_loop info esc None (utf8 u) s) (stop_bytes (noCase info) d) (utf8 t)
              else search_char (\<lambda>s. pattern_loop info esc None (utf8 u) s) d (utf8 t))"
      "d \<noteq> 0x80" "length u \<le> length (c # q)" "chars_ok u" "0x80 \<notin> set u" for d u r'
  proof (cases "d < 0x80")
    case True
    then have "d \<le> 0x80" by simp
    then show ?thesis using True search_stop_verdict [OF IH [OF that(3-5)] ok(3) True] that(1) by simp
  next
    case False
    then show ?thesis using search_char_verdict [OF IH [OF that(3-5)] ok(3) False] that(1,2) by auto
  qed
  show ?thesis
  proof (cases "c = esc \<and> matchSet info \<noteq> 0")
    case True
    then have "c < 0x80" using ok(1) by (auto simp: call_ok_def)
    moreover have "\<not> matches (noCase info) (parse_pattern info esc (c # q)) []"
      using parse_set [of c info esc q] True c(2) ok(1) by (auto split: option.splits dest!: set_item_shape)
    moreover have "answers (noCase info) (parse_pattern info esc (c # q)) (pattern_loop info esc None (utf8 (c # q)))"
      by (rule IH) (use ok in auto)
    ultimately show ?thesis
      using search_set_verdict [OF _ _ ok(3)] True by (simp add: r_def utf8_ascii del: utf8_simps)
  next
    case not_set: False
    show ?thesis
    proof (cases "c = esc")
      case False
      show ?thesis
        using lit [of r c q] False ok(5,6) c by (simp add: r_def parse_plain)
    next
      case True
      then have m0: "matchSet info = 0" using not_set by simp
      show ?thesis
      proof (cases q)
        case Nil
        then show ?thesis using parse_escape [OF c(2) ok(1) True m0] True not_set no_match_Never
          by (simp add: r_def)
      next
        case (Cons d u)
        then have d: "text_char d" "d \<noteq> 0" "chars_ok u" "d \<noteq> 0x80" "0x80 \<notin> set u" using c by auto
        have "READ_UTF8 (utf8 q) = (d, utf8 u)" using d(1) by (simp add: Cons READ_next del: READ_UTF8.simps)
        then show ?thesis
          using lit [of r d u] parse_escape [OF c(2) ok(1) True m0, of q] True not_set d by (simp add: r_def Cons)
      qed
    qed
  qed
qed

lemma ranges_subset: "ranges lo p = Some (rs, q) \<Longrightarrow> set q \<subseteq> set p"
proof (induction p arbitrary: lo rs rule: measure_induct_rule [of length])
  case (less p)
  have IH: "ranges lo y = Some (rs, q) \<Longrightarrow> x \<in> set q \<Longrightarrow> x \<in> set y" if "length y < length p" for lo rs y x
    using less.IH [OF that] by blast
  show ?case
    using less.prems by (cases p) (auto split: if_splits option.splits list.splits bool.splits dest: IH [rotated])
qed

lemma set_item_subset: "set_item p = Some (i, q) \<Longrightarrow> set q \<subseteq> set p"
  using ranges_subset [of None p _ q] ranges_subset [of None "tl p" _ q] ranges_subset [of None "tl (tl p)" _ q]
  by (cases p; cases "tl p") (auto simp: set_item_def Let_def split: if_splits)

text \<open>A round that compares one character of the text.\<close>

lemma literal_round:
  assumes "chars_ok s" and "i \<noteq> Many"
    and i: "\<And>d. d \<noteq> 0 \<Longrightarrow> item_matches nc i d \<longleftrightarrow> same_char nc c d \<or> any" "\<not> same_char nc c 0"
    and run: "r = (case READ_UTF8 (utf8 s) of (c2, s) \<Rightarrow> if same_char nc c c2 \<or> any \<and> c2 \<noteq> 0 then f s else SQLITE_NOMATCH)"
    and f: "\<And>t. chars_ok t \<Longrightarrow> verdict nc p t (f (utf8 t))"
  shows "verdict nc (i # p) s r"
proof (cases s)
  case Nil
  have "\<not> matches nc (i # p) []" using assms(2) by (cases i) auto
  then show ?thesis using i(2) by (simp add: run Nil verdict_def)
next
  case (Cons d t)
  then have d: "text_char d" "d \<noteq> 0" "chars_ok t" using assms(1) by simp_all
  have rs: "READ_UTF8 (utf8 s) = (d, utf8 t)" using d(1) by (simp add: Cons READ_next del: READ_UTF8.simps)
  have m: "matches nc (i # p) (d # t) \<longleftrightarrow> item_matches nc i d \<and> matches nc p t" using assms(2) by (cases i) auto
  show ?thesis
  proof (cases "item_matches nc i d")
    case True
    then have "r = f (utf8 t)" using i(1) [OF d(2)] d(2) by (simp add: run rs)
    then show ?thesis using verdict_step [OF f [OF d(3)] assms(2) True] by (simp add: Cons)
  next
    case False
    then have "r = SQLITE_NOMATCH" using i(1) [OF d(2)] by (simp add: run rs)
    then show ?thesis using False m by (simp add: Cons verdict_def)
  qed
qed

lemma pattern_loop_verdict:
  assumes "call_ok info esc"
  shows "chars_ok p \<Longrightarrow> chars_ok s \<Longrightarrow> 0x80 \<notin> set p \<Longrightarrow> (\<forall>q. e = Some q \<longrightarrow> length (utf8 p) \<le> length q) \<Longrightarrow>
    verdict (noCase info) (parse_pattern info esc p) s (pattern_loop info esc e (utf8 p) (utf8 s))"
proof (induction p arbitrary: s e rule: measure_induct_rule [of length])
  case (less x)
  show ?case
  proof (cases x)
    case Nil
    have "cstr_hd (utf8 s) = 0 \<longleftrightarrow> s = []" using less.prems(2) cstr_hd_utf8(1) by (cases s) (auto simp: cstr_hd_def)
    then show ?thesis by (simp add: Nil pattern_loop.simps [of info esc e "[]"] verdict_def)
  next
    case (Cons c p)
    have c: "text_char c" "c \<noteq> 0" "chars_ok p" "0x80 \<notin> set p" using less.prems Cons by auto
    have rd: "READ_UTF8 (utf8 x) = (c, utf8 p)" using c(1) by (simp add: Cons READ_next del: READ_UTF8.simps)
    have IH: "answers (noCase info) (parse_pattern info esc q) (pattern_loop info esc None (utf8 q))"
      if "length q < length x" "chars_ok q" "0x80 \<notin> set q" for q
      using that by (auto simp: answers_def intro!: less.IH)
    note loop = pattern_loop.simps [of info esc e "utf8 x" "utf8 s", unfolded rd prod.case if_not_P [OF c(2)]]
    show ?thesis
    proof (cases "c = ucast (matchAll info)")
      case all: True
      then have parse: "parse_pattern info esc x = Many # parse_pattern info esc p" by (simp add: Cons parse_pattern.simps(2))
      note sk = skip_wild_matches [OF assms(1) c(3) less.prems(2), of "noCase info"]
      show ?thesis
      proof (cases "skip_wild info (utf8 p) (utf8 s)")
        case None
        then have "pattern_loop info esc e (utf8 x) (utf8 s) = SQLITE_NOWILDCARDMATCH" unfolding loop by (simp add: all)
        then show ?thesis unfolding parse using sk None by (intro verdict_Many) simp
      next
        case (Some a)
        obtain d z s' where a: "a = (d, z, s')" by (cases a) auto
        obtain q t where q: "s' = utf8 t" "chars_ok t" "chars_ok q" "set q \<subseteq> set p" "length q \<le> length p"
          "matches (noCase info) (Many # parse_pattern info esc p) s \<longleftrightarrow> matches (noCase info) (Many # parse_pattern info esc q) t"
          "q = [] \<and> d = 0 \<or> (\<exists>q'. q = d # q' \<and> z = utf8 q' \<and> d \<noteq> ucast (matchAll info) \<and> d \<noteq> ucast (matchOne info))"
          using sk unfolding Some a by auto
        let ?r = "pattern_loop info esc e (utf8 x) (utf8 s)"
        have "?r = SQLITE_MATCH \<and> matches (noCase info) (Many # parse_pattern info esc q) t \<or>
            ?r = SQLITE_NOWILDCARDMATCH \<and> \<not> matches (noCase info) (Many # parse_pattern info esc q) t"
          using q(7)
        proof
          assume "q = [] \<and> d = 0"
          then show ?thesis unfolding loop Some a by (simp add: all matches_Many_end)
        next
          assume "\<exists>q'. q = d # q' \<and> z = utf8 q' \<and> d \<noteq> ucast (matchAll info) \<and> d \<noteq> ucast (matchOne info)"
          then obtain q' where q': "q = d # q'" "z = utf8 q'" "d \<noteq> ucast (matchAll info)" "d \<noteq> ucast (matchOne info)" by blast
          have d0: "d \<noteq> 0" using q(3) q'(1) by simp
          show ?thesis
            unfolding loop Some a option.case prod.case if_P [OF all] if_not_P [OF d0] q(1) q'(1,2)
            by (rule behind_wildcard [OF assms(1)])
              (use q(2-5) q' c(4) Cons in \<open>auto intro!: IH\<close>)
        qed
        then show ?thesis unfolding parse using q(6) by (intro verdict_Many) simp
      qed
    next
      case not_all: False
      note loop = loop [unfolded if_not_P [OF not_all]]
      show ?thesis
      proof (cases "c = esc \<and> matchSet info \<noteq> 0")
        case set: True
        note loop = loop [unfolded if_P [OF set]]
        have parse: "parse_pattern info esc x = (case set_item p of None \<Rightarrow> [Never] | Some (i, q) \<Rightarrow> i # parse_pattern info esc q)"
          unfolding Cons using parse_set [of c info esc p] set c(2) assms(1) by simp
        show ?thesis
        proof (cases s)
          case Nil
          have "\<not> matches (noCase info) (parse_pattern info esc x) []"
            unfolding parse by (auto split: option.splits dest!: set_item_shape)
          then show ?thesis unfolding loop by (simp add: Nil verdict_def)
        next
          case s: (Cons d t)
          have d: "text_char d" "d \<noteq> 0" "chars_ok t" using less.prems(2) s by simp_all
          have rs: "READ_UTF8 (utf8 s) = (d, utf8 t)" using d(1) by (simp add: s READ_next del: READ_UTF8.simps)
          note loop = loop [unfolded rs prod.case if_not_P [OF d(2)]]
          note item = match_set_item [OF c(3), of d]
          show ?thesis
          proof (cases "set_item p")
            case None
            then have "\<not> fst (match_set d (utf8 p))" using item by simp
            then have "pattern_loop info esc e (utf8 x) (utf8 s) = SQLITE_NOMATCH"
              unfolding loop by (simp add: split_def)
            then show ?thesis unfolding parse None by (simp add: verdict_def s)
          next
            case (Some a)
            then obtain i q where a: "set_item p = Some (i, q)" by (cases a) auto
            then obtain neg rs where i: "i = InSet neg rs" "match_set d (utf8 p) = (in_ranges d rs \<noteq> neg, utf8 q)" "chars_ok q"
              using item by auto
            have l: "length q < length p" "length (utf8 q) \<le> length (utf8 p)" "0x80 \<notin> set q"
              using set_item_length [OF a] match_set_length [OF i(2)] set_item_subset [OF a] c(4) by auto
            show ?thesis
            proof (cases "in_ranges d rs \<noteq> neg")
              case True
              have "length (utf8 q) \<le> length y" if "e = Some y" for y
                using less_le_trans [OF utf8_length [of p c]] less.prems(4) that l(2) unfolding Cons by fastforce
              then have "verdict (noCase info) (parse_pattern info esc q) t (pattern_loop info esc e (utf8 q) (utf8 t))"
                using l i(3) d(3) Cons by (intro less.IH) auto
              moreover have "pattern_loop info esc e (utf8 x) (utf8 s) = pattern_loop info esc e (utf8 q) (utf8 t)"
                unfolding loop i(2) prod.case if_P [OF True] ..
              moreover have "parse_pattern info esc x = i # parse_pattern info esc q" by (simp add: parse a)
              ultimately show ?thesis
                using verdict_step [of _ _ t _ i d] True i(1) by (simp add: s)
            next
              case False
              then have "pattern_loop info esc e (utf8 x) (utf8 s) = SQLITE_NOMATCH"
                unfolding loop i(2) prod.case by simp
              then show ?thesis using False by (simp add: parse a s i(1) verdict_def)
            qed
          qed
        qed
      next
        case not_set: False
        note loop = loop [unfolded if_not_P [OF not_set]]
        show ?thesis
        proof (cases "c = esc")
          case False
          let ?i = "if c = ucast (matchOne info) then One else Lit c"
          have parse: "parse_pattern info esc x = ?i # parse_pattern info esc p"
            unfolding Cons using parse_plain [OF False not_all] by simp
          have short: "length (utf8 p) < length y" if "e = Some y" for y
            using less_le_trans [OF utf8_length [of p c]] less.prems(4) that unfolding Cons by blast
          then have e: "e \<noteq> Some (utf8 p)" by blast
          have run: "pattern_loop info esc e (utf8 x) (utf8 s) =
              (case READ_UTF8 (utf8 s) of (c2, s) \<Rightarrow>
                 if same_char (noCase info) c c2 \<or> c = ucast (matchOne info) \<and> c2 \<noteq> 0
                 then pattern_loop info esc e (utf8 p) s else SQLITE_NOMATCH)"
            unfolding loop using False c(2) e by simp
          show ?thesis
            unfolding parse
          proof (rule literal_round [OF less.prems(2) _ _ _ run])
            show "verdict (noCase info) (parse_pattern info esc p) t (pattern_loop info esc e (utf8 p) (utf8 t))"
              if "chars_ok t" for t
              by (rule less.IH) (use c that Cons short in \<open>auto simp: less_imp_le\<close>)
          qed (use c(2) in \<open>auto simp: same_char_0\<close>)
        next
          case True
          then have m0: "matchSet info = 0" using not_set by simp
          show ?thesis
          proof (cases p)
            case Nil
            have "parse_pattern info esc x = [Never]"
              unfolding Cons using parse_escape [OF c(2) assms True m0] Nil by simp
            moreover have "pattern_loop info esc e (utf8 x) (utf8 s) = SQLITE_NOMATCH" unfolding loop by (simp add: True Nil)
            ultimately show ?thesis by (cases s) (simp_all add: verdict_def)
          next
            case p: (Cons d u)
            then have d: "text_char d" "d \<noteq> 0" "chars_ok u" "0x80 \<notin> set u" using c by auto
            have rp: "READ_UTF8 (utf8 p) = (d, utf8 u)" using d(1) by (simp add: p READ_next del: READ_UTF8.simps)
            have parse: "parse_pattern info esc x = Lit d # parse_pattern info esc u"
              unfolding Cons using parse_escape [OF c(2) assms True m0, of p] p by simp
            have run: "pattern_loop info esc e (utf8 x) (utf8 s) =
                (case READ_UTF8 (utf8 s) of (c2, s) \<Rightarrow>
                   if same_char (noCase info) d c2 \<or> False \<and> c2 \<noteq> 0
                   then pattern_loop info esc (Some (utf8 u)) (utf8 u) s else SQLITE_NOMATCH)"
              unfolding loop if_P [OF True] rp prod.case if_not_P [OF d(2)] by (simp add: Let_def)
            show ?thesis
              unfolding parse
            proof (rule literal_round [OF less.prems(2) _ _ _ run])
              show "verdict (noCase info) (parse_pattern info esc u) t (pattern_loop info esc (Some (utf8 u)) (utf8 u) (utf8 t))"
                if "chars_ok t" for t
                by (rule less.IH) (use d that Cons p in auto)
            qed (use d(2) in \<open>auto simp: same_char_0\<close>)
          qed
        qed
      qed
    qed
  qed
qed

lemma patternCompare_verdict:
  assumes "call_ok info esc" "chars_ok p" "chars_ok s" "0x80 \<notin> set p"
  shows "verdict (noCase info) (parse_pattern info esc p) s (patternCompare (utf8 p) (utf8 s) info esc)"
  unfolding patternCompare_def by (rule pattern_loop_verdict [OF assms]) simp

lemma verdict_match: "verdict nc p s r \<Longrightarrow> (r = SQLITE_MATCH) = matches nc p s"
proof -
  assume v: "verdict nc p s r"
  have "(\<forall>k. \<not> matches nc p (drop k s)) \<Longrightarrow> \<not> matches nc p s" by (metis drop0)
  then show ?thesis using v by (auto simp: verdict_def code_defs)
qed

lemma CharLen_utf8: "chars_ok cs \<Longrightarrow> sqlite3Utf8CharLen (utf8 cs) None = length cs"
proof (induction cs)
  case Nil
  then show ?case by (subst sqlite3Utf8CharLen.simps) simp
next
  case (Cons c cs)
  then show ?case by (simp add: CharLen_step)
qed

text \<open>The info of LIKE when its escape character is one of its wildcards.\<close>

definition escaped_info :: "compareInfo \<Rightarrow> u32 \<Rightarrow> compareInfo" where
  "escaped_info info e =
     info\<lparr>matchAll := (if e = ucast (matchAll info) then 0 else matchAll info),
          matchOne := (if e = ucast (matchOne info) then 0 else matchOne info)\<rparr>"

lemma escaped_call:
  assumes "info \<in> {likeInfoNorm, likeInfoAlt}" shows "call_ok (escaped_info info e) e" "noCase (escaped_info info e) = noCase info"
  using assms by (auto simp: call_ok_def escaped_info_def likeInfoNorm_def likeInfoAlt_def ch_def)


text \<open>
  The refusals of \<open>like\<close>: a pattern beyond the limit and an escape that is not a single character are
  errors, in this order; with a NULL among the arguments the result stays NULL.
\<close>

lemma like_refuses:
  "(limit < nPat \<longrightarrow> likeFunc info limit zB nPat zA a = Some (LikeError ''LIKE or GLOB pattern too complex'')) \<and>
   (nPat \<le> limit \<and> chars_ok cs \<and> length cs \<noteq> 1 \<longrightarrow>
      likeFunc info limit zB nPat zA (Some (Some (utf8 cs))) = Some (LikeError ''ESCAPE expression must be a single character'')) \<and>
   (nPat \<le> limit \<longrightarrow> likeFunc info limit zB nPat zA (Some None) = None) \<and>
   (nPat \<le> limit \<and> (zA = None \<or> zB = None) \<longrightarrow> likeFunc info limit zB nPat zA None = None)"
  by (auto simp: likeFunc_def CharLen_utf8 Let_def split: option.splits)

lemma like_refuses_example:
  "likeFunc likeInfoNorm 50000 (Some []) 50001 (Some []) None = Some (LikeError ''LIKE or GLOB pattern too complex'') \<and>
   likeFunc likeInfoNorm 50000 (Some []) 0 (Some []) (Some (Some (utf8 [0x5C, 0x5C]))) =
     Some (LikeError ''ESCAPE expression must be a single character'')"
proof -
  have "chars_ok [0x5C, 0x5C]" by (simp add: text_char_def is_surrogate_def)
  then show ?thesis
    using like_refuses [of 50000 50001 likeInfoNorm "Some []" "Some []" None "[]"]
      like_refuses [of 50000 0 likeInfoNorm "Some []" "Some []" None "[0x5C, 0x5C]"] by simp
qed

text \<open>Where U+0080 follows a wildcard its last byte alone is searched for: \<open>*\<close>U+0080 matches \<open>A\<close> with grave accent, U+00C0.\<close>

lemma pattern_0x80_wrong:
  "sqlite3_strglob (utf8 [0x2A, 0x80]) (utf8 [0xC0]) = SQLITE_MATCH \<and>
   \<not> matches False (parse_pattern globInfo 0x5B [0x2A, 0x80]) [0xC0]"
proof
  show "sqlite3_strglob (utf8 [0x2A, 0x80]) (utf8 [0xC0]) = SQLITE_MATCH" by code_simp
  show "\<not> matches False (parse_pattern globInfo 0x5B [0x2A, 0x80]) [0xC0]" by code_simp
qed


end
