(* ===== verification/SqlCell.thy ===== *)
theory SqlCell
  imports SqlVarint
begin

section \<open>The cells of a b-tree page (btree.c)\<close>

text \<open>
  The bytes of a page, the \<open>MemPage\<close> that describes it, the flags of its first byte, and the parsers of its
  cells. Addresses are offsets into the page; a pointer to a cell is the list of the bytes from there on. The
  parser and the size function of a page are what \<open>decodeFlags\<close> chose (in C two function pointers).
\<close>

subsection \<open>Bytes\<close>

text \<open>A read outside of the buffer gives zero and a write there changes nothing.\<close>

definition peek :: "u8 list \<Rightarrow> int \<Rightarrow> u8" where
  "peek d i = (if 0 \<le> i \<and> i < int (length d) then d ! nat i else 0)"

definition poke :: "u8 list \<Rightarrow> int \<Rightarrow> u8 \<Rightarrow> u8 list" where
  "poke d i v = (if 0 \<le> i then d[nat i := v] else d)"

definition get2byte :: "u8 list \<Rightarrow> int \<Rightarrow> int" where
  "get2byte d i = uint (peek d i) * 256 + uint (peek d (i + 1))"

definition put2byte :: "u8 list \<Rightarrow> int \<Rightarrow> int \<Rightarrow> u8 list" where
  "put2byte d i v = poke (poke d i (word_of_int (v div 256))) (i + 1) (word_of_int v)"

definition get2byteNotZero :: "u8 list \<Rightarrow> int \<Rightarrow> int" where
  "get2byteNotZero d i = (get2byte d i - 1) mod 65536 + 1"

text \<open>\<open>memcpy\<close>, \<open>memmove\<close> and \<open>memset\<close>: what is read, and writing it at \<open>a\<close>.\<close>

definition slice :: "u8 list \<Rightarrow> int \<Rightarrow> int \<Rightarrow> u8 list" where
  "slice d a n = map (\<lambda>k. peek d (a + int k)) [0..<nat n]"

definition blit :: "u8 list \<Rightarrow> int \<Rightarrow> u8 list \<Rightarrow> u8 list" where
  "blit d a xs = map (\<lambda>i. if a \<le> int i \<and> int i < a + int (length xs) then xs ! nat (int i - a) else d ! i) [0..<length d]"

definition memset :: "u8 list \<Rightarrow> int \<Rightarrow> u8 \<Rightarrow> int \<Rightarrow> u8 list" where
  "memset d a v n = blit d a (replicate (nat n) v)"

definition memmove :: "u8 list \<Rightarrow> int \<Rightarrow> int \<Rightarrow> int \<Rightarrow> u8 list" where
  "memmove d to frm n = blit d to (slice d frm n)"

subsection \<open>The page and its flags\<close>

datatype cell_size = CellSizePtr | CellSizePtrNoPayload
datatype parse_cell = ParseCellPtr | ParseCellPtrNoPayload | ParseCellPtrIndex

text \<open>Of the database (\<open>BtShared\<close>): \<open>fast_secure\<close> is \<open>btsFlags & BTS_FAST_SECURE\<close>, \<open>cell_size_check\<close> is
  \<open>db->flags & SQLITE_CellSizeCk\<close>.\<close>

record BtShared =
  pageSize :: int
  usableSize :: int
  maxLocal_bt :: int
  minLocal_bt :: int
  maxLeaf :: int
  minLeaf :: int
  max1bytePayload_bt :: int
  autoVacuum :: bool
  fast_secure :: bool
  cell_size_check :: bool

text \<open>The pointers into the page are \<open>aDataEnd = aData + usableSize\<close>, \<open>aCellIdx = aData + cellOffset\<close> and
  \<open>aDataOfst = aData + childPtrSize\<close> wherever they are used.\<close>

record MemPage =
  isInit :: bool
  intKey :: bool
  intKeyLeaf :: bool
  leaf :: int
  hdrOffset :: int
  childPtrSize :: int
  max1bytePayload :: int
  nOverflow :: int
  maxLocal :: int
  minLocal :: int
  cellOffset :: int
  nFree :: int
  nCell :: int
  maskPage :: int
  aiOvfl :: "int list"
  apOvfl :: "u8 list list"
  aData :: "u8 list"
  xCellSize :: cell_size
  xParseCell :: parse_cell

record CellInfo =
  nKey :: int
  pPayload :: int
  nPayload :: int
  nLocal :: int
  nSize :: int

definition SQLITE_OK :: int where "SQLITE_OK = 0"
definition SQLITE_CORRUPT :: int where "SQLITE_CORRUPT = 11"

definition PTF_INTKEY :: int where "PTF_INTKEY = 0x01"
definition PTF_ZERODATA :: int where "PTF_ZERODATA = 0x02"
definition PTF_LEAFDATA :: int where "PTF_LEAFDATA = 0x04"
definition PTF_LEAF :: int where "PTF_LEAF = 0x08"

text \<open>The part of \<open>lockBtree\<close> that computes the limits of the local payload from the usable size.\<close>

definition payload_limits :: "BtShared \<Rightarrow> BtShared" where
  "payload_limits pBt =
     (let m = ((usableSize pBt - 12) * 64 div 255 - 23) mod 65536 in
      pBt\<lparr>maxLocal_bt := m,
          minLocal_bt := ((usableSize pBt - 12) * 32 div 255 - 23) mod 65536,
          maxLeaf := (usableSize pBt - 35) mod 65536,
          minLeaf := ((usableSize pBt - 12) * 32 div 255 - 23) mod 65536,
          max1bytePayload_bt := (if 127 < m then 127 else m mod 256)\<rparr>)"

definition decodeFlags :: "BtShared \<Rightarrow> MemPage \<Rightarrow> int \<Rightarrow> int \<times> MemPage" where
  "decodeFlags pBt pPage flagByte =
     (let l = (flagByte div 8) mod 256;
          flagByte = flagByte AND NOT PTF_LEAF;
          p = pPage\<lparr>leaf := l, childPtrSize := (4 - 4 * l) mod 256, xCellSize := CellSizePtr\<rparr>
      in if flagByte = PTF_LEAFDATA OR PTF_INTKEY then
           let p = p\<lparr>intKey := True\<rparr>;
               p = (if l \<noteq> 0 then p\<lparr>intKeyLeaf := True, xParseCell := ParseCellPtr\<rparr>
                    else p\<lparr>intKeyLeaf := False, xCellSize := CellSizePtrNoPayload, xParseCell := ParseCellPtrNoPayload\<rparr>);
               p = p\<lparr>maxLocal := maxLeaf pBt, minLocal := minLeaf pBt\<rparr>
           in (SQLITE_OK, p\<lparr>max1bytePayload := max1bytePayload_bt pBt\<rparr>)
         else if flagByte = PTF_ZERODATA then
           let p = p\<lparr>intKey := False, intKeyLeaf := False, xParseCell := ParseCellPtrIndex\<rparr>;
               p = p\<lparr>maxLocal := maxLocal_bt pBt, minLocal := minLocal_bt pBt\<rparr>
           in (SQLITE_OK, p\<lparr>max1bytePayload := max1bytePayload_bt pBt\<rparr>)
         else (SQLITE_CORRUPT, p))"

subsection \<open>Parsing a cell\<close>

text \<open>
  The inlined varints. Each loop gets the position of the byte it looked at last, and returns the value
  with the position of the last byte it has used; \<open>pEnd\<close> bounds the position.
\<close>

function payload_loop :: "u8 list \<Rightarrow> int \<Rightarrow> u32 \<Rightarrow> int \<Rightarrow> u32 \<times> int" where
  "payload_loop pCell pEnd sz pIter =
     (let b = peek pCell (pIter + 1);
          sz = push_bit 7 sz OR ucast (b AND 0x7F)
      in if 0x80 \<le> b \<and> pIter + 1 < pEnd then payload_loop pCell pEnd sz (pIter + 1) else (sz, pIter + 1))"
  by auto
termination
  by (relation "measure (\<lambda>(p, e, n, i). nat (e - i))") auto

definition payload_varint :: "u8 list \<Rightarrow> int \<Rightarrow> u32 \<times> int" where
  "payload_varint pCell pIter =
     (let b = peek pCell pIter;
          (sz, pIter) = (if 0x80 \<le> b then payload_loop pCell (pIter + 8) (ucast b AND 0x7F) pIter else (ucast b, pIter))
      in (sz, pIter + 1))"

function key_loop :: "u8 list \<Rightarrow> int \<Rightarrow> u64 \<Rightarrow> int \<Rightarrow> u64 \<times> int" where
  "key_loop pCell pEnd iKey pIter =
     (let b = peek pCell (pIter + 1);
          iKey = push_bit 7 iKey OR ucast (b AND 0x7F)
      in if b < 0x80 then (iKey, pIter + 1)
         else if pEnd \<le> pIter + 1 then (push_bit 8 iKey OR ucast (peek pCell (pIter + 2)), pIter + 2)
         else key_loop pCell pEnd iKey (pIter + 1))"
  by auto
termination
  by (relation "measure (\<lambda>(p, e, n, i). nat (e - i))") auto

definition key_varint :: "u8 list \<Rightarrow> int \<Rightarrow> u64 \<times> int" where
  "key_varint pCell pIter =
     (let b = peek pCell pIter;
          (iKey, pIter) = (if 0x80 \<le> b then key_loop pCell (pIter + 7) (ucast b AND 0x7F) pIter else (ucast b, pIter))
      in (iKey, pIter + 1))"

function skip_varint :: "u8 list \<Rightarrow> int \<Rightarrow> int \<Rightarrow> int" where
  "skip_varint pCell pEnd pIter =
     (if peek pCell pIter AND 0x80 \<noteq> 0 \<and> pIter + 1 < pEnd then skip_varint pCell pEnd (pIter + 1) else pIter + 1)"
  by auto
termination
  by (relation "measure (\<lambda>(p, e, i). nat (e - i))") auto

declare payload_loop.simps [simp del] key_loop.simps [simp del] skip_varint.simps [simp del]

text \<open>The payload that stays on the page when not all of it does. The difference is one of unsigned numbers.\<close>

definition spill_surplus :: "BtShared \<Rightarrow> MemPage \<Rightarrow> int \<Rightarrow> int" where
  "spill_surplus pBt pPage n = minLocal pPage + (n - minLocal pPage) mod 2 ^ 32 mod (usableSize pBt - 4)"

definition btreeParseCellAdjustSizeForOverflow :: "BtShared \<Rightarrow> MemPage \<Rightarrow> CellInfo \<Rightarrow> CellInfo" where
  "btreeParseCellAdjustSizeForOverflow pBt pPage pInfo =
     (let surplus = spill_surplus pBt pPage (nPayload pInfo);
          n = (if surplus \<le> maxLocal pPage then surplus else minLocal pPage) mod 65536
      in pInfo\<lparr>nLocal := n, nSize := ((pPayload pInfo + n) mod 65536 + 4) mod 65536\<rparr>)"

definition btreePayloadToLocal :: "BtShared \<Rightarrow> MemPage \<Rightarrow> int \<Rightarrow> int" where
  "btreePayloadToLocal pBt pPage n =
     (if n \<le> maxLocal pPage then n
      else let surplus = minLocal pPage + (n - minLocal pPage) mod (usableSize pBt - 4)
           in if surplus \<le> maxLocal pPage then surplus else minLocal pPage)"

text \<open>The end that two of the parsers share, with the key and the payload read.\<close>

definition parse_tail :: "BtShared \<Rightarrow> MemPage \<Rightarrow> int \<Rightarrow> u32 \<Rightarrow> int \<Rightarrow> CellInfo" where
  "parse_tail pBt pPage key n pIter =
     (let info = \<lparr>nKey = key, pPayload = pIter, nPayload = uint n, nLocal = 0, nSize = 0\<rparr>
      in if uint n \<le> maxLocal pPage
         then let s = (uint n + pIter mod 65536) mod 65536
              in info\<lparr>nSize := (if s < 4 then 4 else s), nLocal := uint n mod 65536\<rparr>
         else btreeParseCellAdjustSizeForOverflow pBt pPage info)"

definition btreeParseCellPtr :: "BtShared \<Rightarrow> MemPage \<Rightarrow> u8 list \<Rightarrow> CellInfo" where
  "btreeParseCellPtr pBt pPage pCell =
     (let (sz, pIter) = payload_varint pCell 0;
          (iKey, pIter) = key_varint pCell pIter
      in parse_tail pBt pPage (sint iKey) sz pIter)"

definition btreeParseCellPtrIndex :: "BtShared \<Rightarrow> MemPage \<Rightarrow> u8 list \<Rightarrow> CellInfo" where
  "btreeParseCellPtrIndex pBt pPage pCell =
     (let (sz, pIter) = payload_varint pCell (childPtrSize pPage)
      in parse_tail pBt pPage (uint sz) sz pIter)"

definition btreeParseCellPtrNoPayload :: "u8 list \<Rightarrow> CellInfo" where
  "btreeParseCellPtrNoPayload pCell =
     (let (key, n) = the (sqlite3GetVarint (slice pCell 4 9))
      in \<lparr>nKey = sint key, pPayload = 0, nPayload = 0, nLocal = 0, nSize = 4 + int n\<rparr>)"

definition parseCell :: "BtShared \<Rightarrow> MemPage \<Rightarrow> u8 list \<Rightarrow> CellInfo" where
  "parseCell pBt pPage pCell =
     (case xParseCell pPage of
        ParseCellPtr \<Rightarrow> btreeParseCellPtr pBt pPage pCell
      | ParseCellPtrNoPayload \<Rightarrow> btreeParseCellPtrNoPayload pCell
      | ParseCellPtrIndex \<Rightarrow> btreeParseCellPtrIndex pBt pPage pCell)"

text \<open>\<open>findCell\<close>, and the cell of an index.\<close>

definition findCell :: "MemPage \<Rightarrow> int \<Rightarrow> u8 list" where
  "findCell pPage i = drop (nat (maskPage pPage AND get2byte (aData pPage) (cellOffset pPage + 2 * i))) (aData pPage)"

definition btreeParseCell :: "BtShared \<Rightarrow> MemPage \<Rightarrow> int \<Rightarrow> CellInfo" where
  "btreeParseCell pBt pPage iCell = parseCell pBt pPage (findCell pPage iCell)"

subsection \<open>The size of a cell\<close>

definition cellSizePtr :: "BtShared \<Rightarrow> MemPage \<Rightarrow> u8 list \<Rightarrow> int" where
  "cellSizePtr pBt pPage pCell =
     (let (n, pIter) = payload_varint pCell (childPtrSize pPage);
          pIter = (if intKey pPage then skip_varint pCell (pIter + 9) pIter else pIter)
      in if uint n \<le> maxLocal pPage then
           let s = uint n + pIter in (if s < 4 then 4 else s) mod 65536
         else
           let s = spill_surplus pBt pPage (uint n);
               s = (if maxLocal pPage < s then minLocal pPage else s)
           in (s + (4 + pIter mod 65536)) mod 65536)"

definition cellSizePtrNoPayload :: "u8 list \<Rightarrow> int" where
  "cellSizePtrNoPayload pCell = skip_varint pCell (4 + 9) 4 mod 65536"

definition cellSizeOf :: "BtShared \<Rightarrow> MemPage \<Rightarrow> u8 list \<Rightarrow> int" where
  "cellSizeOf pBt pPage pCell =
     (case xCellSize pPage of CellSizePtr \<Rightarrow> cellSizePtr pBt pPage pCell | CellSizePtrNoPayload \<Rightarrow> cellSizePtrNoPayload pCell)"

subsection \<open>Facts on bytes\<close>

lemma slice_Nil [simp]: "n \<le> 0 \<Longrightarrow> slice d a n = []"
  by (simp add: slice_def)

lemma slice_Cons: "0 < n \<Longrightarrow> slice d a n = peek d a # slice d (a + 1) (n - 1)"
proof -
  assume "0 < n"
  then have "nat n = Suc (nat (n - 1))" by simp
  then have "slice d a n = map (\<lambda>k. peek d (a + int k)) (0 # map Suc [0..<nat (n - 1)])"
    by (simp only: slice_def upt_conv_Cons map_Suc_upt zero_less_Suc)
  then show ?thesis by (simp add: slice_def ac_simps)
qed

lemma length_slice [simp]: "length (slice d a n) = nat n"
  by (simp add: slice_def)

lemma high_bit: "0x80 \<le> b \<longleftrightarrow> bit b 7" "b AND 0x80 \<noteq> 0 \<longleftrightarrow> bit b 7" for b :: u8
proof -
  show "0x80 \<le> b \<longleftrightarrow> bit b 7" using byte_lt_80 [of b] by (simp add: not_less [symmetric])
  have "(0x80 :: u8) = push_bit 7 1" by simp
  then show "b AND 0x80 \<noteq> 0 \<longleftrightarrow> bit b 7"
    by (metis and_exp_eq_0_iff_not_bit push_bit_of_1)
qed

subsection \<open>The inlined varints\<close>

lemma low_byte: "\<not> bit b 7 \<Longrightarrow> b AND 0x7F = b" for b :: u8
  unfolding word_eq_bits by (simp add: upt_start) (simp add: bit_simps)

lemma shift_in:
  "push_bit 7 (ucast acc) OR ucast (b AND 0x7F) = (ucast (push_bit 7 acc OR ucast (b AND 0x7F)) :: u32)" for acc :: u64 and b :: u8
  by (rule bit_word_eqI) (auto simp: bit_simps)

text \<open>The loops against the plain reading of a varint; \<open>k\<close> bytes have been read, the last one at \<open>j\<close>.\<close>

lemma key_loop_ref:
  "k \<le> 7 \<Longrightarrow> pEnd = j + 8 - int k \<Longrightarrow> 0 < k \<Longrightarrow>
   varint_ref k acc (slice p (j + 1) (9 - int k)) = Some (v, n) \<Longrightarrow>
   key_loop p pEnd acc j = (v, j + int n - int k)"
proof (induction "8 - k" arbitrary: k acc j)
  case (Suc m)
  let ?b = "peek p (j + 1)"
  have s: "slice p (j + 1) (9 - int k) = ?b # slice p (j + 2) (8 - int k)"
    using Suc.prems(1) by (subst slice_Cons) (simp_all add: algebra_simps)
  show ?case
  proof (cases "bit ?b 7")
    case False
    then show ?thesis
      using Suc.prems s by (subst key_loop.simps) (simp add: Let_def byte_lt_80 low_byte split: if_splits)
  next
    case True
    note r = Suc.prems(4) [unfolded s]
    show ?thesis
    proof (cases "k = 7")
      case True
      have s2: "slice p (j + 2) 1 = [peek p (j + 2)]" by (simp add: slice_Cons)
      show ?thesis
        using r Suc.prems(2) True \<open>bit ?b 7\<close> by (subst key_loop.simps) (auto simp: Let_def byte_lt_80 s2)
    next
      case False
      then have k: "Suc k \<le> 7" "m = 8 - Suc k" using Suc by auto
      have "varint_ref (Suc k) (push_bit 7 acc OR ucast (?b AND 0x7F)) (slice p (j + 1 + 1) (9 - int (Suc k))) = Some (v, n)"
        using r \<open>bit ?b 7\<close> k by (simp add: algebra_simps)
      from Suc.hyps(1) [OF k(2,1) _ _ this] show ?thesis
        using \<open>bit ?b 7\<close> Suc.prems(2) k by (subst key_loop.simps) (simp add: Let_def byte_lt_80)
    qed
  qed
qed simp

lemma key_varint_ref:
  assumes "sqlite3GetVarint (slice p i 9) = Some (v, n)"
  shows "key_varint p i = (v, i + int n)"
proof -
  have s: "slice p i 9 = peek p i # slice p (i + 1) 8" by (subst slice_Cons) simp_all
  show ?thesis
  proof (cases "bit (peek p i) 7")
    case True
    have m: "ucast (peek p i) AND 0x7F = (ucast (peek p i AND 0x7F) :: u64)"
      by (rule bit_word_eqI) (auto simp: bit_simps dest: bit_imp_le_length)
    have "varint_ref 1 (ucast (peek p i AND 0x7F)) (slice p (i + 1) (9 - int 1)) = Some (v, n)"
      using assms True by (simp add: GetVarint_is_ref s)
    from key_loop_ref [OF _ _ _ this, of "i + 7"] True show ?thesis
      by (simp add: key_varint_def Let_def high_bit m)
  qed (use assms in \<open>auto simp: GetVarint_is_ref s key_varint_def Let_def high_bit\<close>)
qed

lemma payload_loop_ref:
  "k \<le> 8 \<Longrightarrow> pEnd = j + 9 - int k \<Longrightarrow> 0 < k \<Longrightarrow>
   varint_ref k acc (slice p (j + 1) (9 - int k)) = Some (v, n) \<Longrightarrow>
   snd (payload_loop p pEnd (ucast acc) j) = j + int n - int k \<and> (n < 9 \<longrightarrow> fst (payload_loop p pEnd (ucast acc) j) = ucast v)"
proof (induction "8 - k" arbitrary: k acc j)
  case 0
  then have k: "k = 8" by simp
  have "n = 9" using 0 by (simp add: k slice_Cons)
  then show ?case
    using 0 by (subst payload_loop.simps) (simp add: k Let_def payload_loop.simps [of p pEnd])
next
  case (Suc m)
  let ?b = "peek p (j + 1)"
  have s: "slice p (j + 1) (9 - int k) = ?b # slice p (j + 2) (8 - int k)"
    using Suc.prems(1) by (subst slice_Cons) (simp_all add: algebra_simps)
  have k: "Suc k \<le> 8" "m = 8 - Suc k" "k \<noteq> 8" using Suc by auto
  note u = payload_loop.simps [of p pEnd "ucast acc" j, unfolded shift_in Let_def]
  show ?case
  proof (cases "bit ?b 7")
    case False
    then show ?thesis
      using Suc.prems s k(1) unfolding u by (auto simp: high_bit low_byte)
  next
    case True
    have "varint_ref (Suc k) (push_bit 7 acc OR ucast (?b AND 0x7F)) (slice p (j + 1 + 1) (9 - int (Suc k))) = Some (v, n)"
      using Suc.prems(4) [unfolded s] True k by (simp add: algebra_simps)
    from Suc.hyps(1) [OF k(2,1) _ _ this] show ?thesis
      using True Suc.prems(2) k unfolding u by (simp add: high_bit)
  qed
qed

lemma payload_varint_ref:
  assumes "sqlite3GetVarint (slice p i 9) = Some (v, n)"
  shows "snd (payload_varint p i) = i + int n" and "n < 9 \<Longrightarrow> fst (payload_varint p i) = ucast v"
proof -
  have s: "slice p i 9 = peek p i # slice p (i + 1) 8" by (subst slice_Cons) simp_all
  have "snd (payload_varint p i) = i + int n \<and> (n < 9 \<longrightarrow> fst (payload_varint p i) = ucast v)"
  proof (cases "bit (peek p i) 7")
    case True
    have m: "ucast (peek p i) AND 0x7F = (ucast (ucast (peek p i AND 0x7F) :: u64) :: u32)"
      by (rule bit_word_eqI) (auto simp: bit_simps dest: bit_imp_le_length)
    have "varint_ref 1 (ucast (peek p i AND 0x7F)) (slice p (i + 1) (9 - int 1)) = Some (v, n)"
      using assms True by (simp add: GetVarint_is_ref s)
    from payload_loop_ref [OF _ _ _ this, of "i + 8"] True show ?thesis
      by (auto simp: payload_varint_def Let_def high_bit m split: prod.split)
  next
    case False
    have "ucast (peek p i) = (ucast (ucast (peek p i) :: u64) :: u32)"
      by (rule bit_word_eqI) (auto simp: bit_simps dest: bit_imp_le_length)
    then show ?thesis
      using assms False by (auto simp: GetVarint_is_ref s payload_varint_def Let_def high_bit)
  qed
  then show "snd (payload_varint p i) = i + int n" and "n < 9 \<Longrightarrow> fst (payload_varint p i) = ucast v" by auto
qed

lemma skip_varint_ref:
  "k \<le> 8 \<Longrightarrow> pEnd = j + 9 - int k \<Longrightarrow> varint_ref k acc (slice p j (9 - int k)) = Some (v, n) \<Longrightarrow>
   skip_varint p pEnd j = j + int n - int k"
proof (induction "8 - k" arbitrary: k acc j)
  case 0
  then have k: "k = 8" by simp
  have "n = 9" using 0 by (simp add: k slice_Cons)
  then show ?case using 0 by (subst skip_varint.simps) (simp add: k)
next
  case (Suc m)
  have s: "slice p j (9 - int k) = peek p j # slice p (j + 1) (8 - int k)"
    using Suc.prems(1) by (subst slice_Cons) (simp_all add: algebra_simps)
  have k: "Suc k \<le> 8" "m = 8 - Suc k" "k \<noteq> 8" using Suc by auto
  show ?case
  proof (cases "bit (peek p j) 7")
    case False
    then show ?thesis
      using Suc.prems s k by (subst skip_varint.simps) (auto simp: high_bit)
  next
    case True
    have "varint_ref (Suc k) (push_bit 7 acc OR ucast (peek p j AND 0x7F)) (slice p (j + 1) (9 - int (Suc k))) = Some (v, n)"
      using Suc.prems(3) [unfolded s] True k by (simp add: algebra_simps)
    from Suc.hyps(1) [OF k(2,1) _ this] show ?thesis
      using True Suc.prems(2) k by (subst skip_varint.simps) (simp add: high_bit)
  qed
qed

text \<open>Nine bytes always hold a varint.\<close>

lemma varint_ref_complete: "k + length p = 9 \<Longrightarrow> k \<le> 8 \<Longrightarrow> \<exists>v n. varint_ref k acc p = Some (v, n) \<and> k < n \<and> n \<le> 9"
proof (induction p arbitrary: k acc)
  case (Cons b p)
  then show ?case
    using Cons.IH [of "Suc k"] by (fastforce simp: Suc_le_eq dest: less_imp_le)
qed simp

lemma nine_bytes: obtains v n where "sqlite3GetVarint (slice p i 9) = Some (v, n)" "0 < n" "n \<le> 9"
  using varint_ref_complete [of 0 "slice p i 9" 0] by (auto simp: GetVarint_is_ref)

subsection \<open>Sizes without parsing\<close>

definition bt_ok :: "BtShared \<Rightarrow> bool" where
  "bt_ok pBt \<longleftrightarrow> 480 \<le> usableSize pBt \<and> usableSize pBt \<le> pageSize pBt \<and> pageSize pBt \<le> 65536"

lemma payload_limits:
  assumes "bt_ok b" defines "b' \<equiv> payload_limits b"
  shows "0 < minLocal_bt b'" "minLocal_bt b' \<le> maxLocal_bt b'" "maxLocal_bt b' \<le> usableSize b' - 35"
    "0 < minLeaf b'" "minLeaf b' \<le> maxLeaf b'" "maxLeaf b' = usableSize b' - 35" "usableSize b' = usableSize b" "pageSize b' = pageSize b"
proof -
  define u where "u = usableSize b"
  have u: "480 \<le> u" "u \<le> 65536" using assms(1) by (auto simp: bt_ok_def u_def)
  define x y where "x = (u - 12) * 64 div 255 - 23" and "y = (u - 12) * 32 div 255 - 23"
  have y: "0 < y" unfolding y_def using u zdiv_mono1 [of "468 * 32" "(u - 12) * 32" 255] by simp
  have yx: "y \<le> x" unfolding x_def y_def using u zdiv_mono1 [of "(u - 12) * 32" "(u - 12) * 64" 255] by simp
  have x: "x \<le> u - 35" unfolding x_def using u zdiv_mono1 [of "(u - 12) * 64" "(u - 12) * 255" 255] by simp
  have m: "x mod 65536 = x" "y mod 65536 = y" "(u - 35) mod 65536 = u - 35" using u y yx x by simp_all
  have "minLocal_bt b' = y" "maxLocal_bt b' = x" "minLeaf b' = y" "maxLeaf b' = u - 35" "usableSize b' = u" "pageSize b' = pageSize b"
    using m [unfolded x_def y_def] by (simp_all only: b'_def payload_limits_def Let_def u_def x_def y_def) simp_all
  then show "0 < minLocal_bt b'" "minLocal_bt b' \<le> maxLocal_bt b'" "maxLocal_bt b' \<le> usableSize b' - 35"
    "0 < minLeaf b'" "minLeaf b' \<le> maxLeaf b'" "maxLeaf b' = usableSize b' - 35" "usableSize b' = usableSize b" "pageSize b' = pageSize b"
    using y yx x by (simp_all add: u_def)
qed

text \<open>What \<open>decodeFlags\<close> sets up: three kinds of pages.\<close>

definition page_kind :: "BtShared \<Rightarrow> MemPage \<Rightarrow> bool" where
  "page_kind b p \<longleftrightarrow> 0 < minLocal p \<and> minLocal p \<le> maxLocal p \<and> maxLocal p \<le> usableSize b - 35 \<and>
     (xParseCell p = ParseCellPtr \<and> xCellSize p = CellSizePtr \<and> intKey p \<and> intKeyLeaf p \<and> leaf p = 1 \<and> childPtrSize p = 0 \<or>
      xParseCell p = ParseCellPtrNoPayload \<and> xCellSize p = CellSizePtrNoPayload \<and> intKey p \<and> \<not> intKeyLeaf p \<and> leaf p = 0 \<and> childPtrSize p = 4 \<or>
      xParseCell p = ParseCellPtrIndex \<and> xCellSize p = CellSizePtr \<and> \<not> intKey p \<and> \<not> intKeyLeaf p \<and> leaf p \<in> {0, 1} \<and>
        childPtrSize p = 4 - 4 * leaf p)"

lemma leaf_bits: "f AND NOT PTF_LEAF \<in> {5, 2} \<Longrightarrow> f \<in> {5, 13, 2, 10}"
proof -
  assume a: "f AND NOT PTF_LEAF \<in> {5, 2}"
  define k :: nat where "k = 3"
  have e: "PTF_LEAF = 2 ^ k" by (simp add: PTF_LEAF_def k_def)
  have "f = (f AND NOT PTF_LEAF) OR (f AND PTF_LEAF)"
    by (rule bit_eqI) (auto simp: bit_simps)
  moreover have "f AND PTF_LEAF = (if bit f k then PTF_LEAF else 0)"
    unfolding e by (rule bit_eqI) (auto simp: bit_simps)
  then have "f AND PTF_LEAF \<in> {0, 8}" by (simp add: PTF_LEAF_def)
  ultimately have "f \<in> {5 OR 0, 5 OR 8, 2 OR 0, 2 OR 8}" using a by auto
  then show ?thesis by simp
qed

lemma decodeFlags_kind:
  assumes "decodeFlags b p f = (SQLITE_OK, p')" "bt_ok b0" "b = payload_limits b0" "0 \<le> f" "f < 256"
  shows "page_kind b p'" "f \<in> {5, 13, 2, 10}" "aData p' = aData p" "hdrOffset p' = hdrOffset p"
    "(leaf p' = 1) = (f \<in> {13, 10})" "nCell p' = nCell p" "cellOffset p' = cellOffset p" "nFree p' = nFree p"
proof -
  have "f AND NOT PTF_LEAF \<in> {5, 2}"
    using assms(1) by (auto simp: decodeFlags_def Let_def SQLITE_OK_def SQLITE_CORRUPT_def PTF_LEAFDATA_def PTF_INTKEY_def
        PTF_ZERODATA_def split: if_splits)
  then show f: "f \<in> {5, 13, 2, 10}" by (rule leaf_bits)
  note l = payload_limits [OF assms(2), folded assms(3)]
  have n: "5 AND NOT PTF_LEAF = 5" "13 AND NOT PTF_LEAF = 5" "2 AND NOT PTF_LEAF = 2" "10 AND NOT PTF_LEAF = 2" by code_simp+
  have o: "PTF_LEAFDATA OR PTF_INTKEY = 5" "PTF_ZERODATA = 2" by code_simp+
  have g: "page_kind b p' \<and> aData p' = aData p \<and> hdrOffset p' = hdrOffset p \<and> (leaf p' = 1) = (f \<in> {13, 10}) \<and>
    nCell p' = nCell p \<and> cellOffset p' = cellOffset p \<and> nFree p' = nFree p"
    using f
  proof (elim insertE emptyE)
    assume "f = 5" then show ?thesis using assms(1) l by (simp add: decodeFlags_def Let_def n o) (auto simp: page_kind_def)
  next
    assume "f = 13" then show ?thesis using assms(1) l by (simp add: decodeFlags_def Let_def n o) (auto simp: page_kind_def)
  next
    assume "f = 2" then show ?thesis using assms(1) l by (simp add: decodeFlags_def Let_def n o) (auto simp: page_kind_def)
  next
    assume "f = 10" then show ?thesis using assms(1) l by (simp add: decodeFlags_def Let_def n o) (auto simp: page_kind_def)
  qed
  then show "page_kind b p'" "aData p' = aData p" "hdrOffset p' = hdrOffset p" "(leaf p' = 1) = (f \<in> {13, 10})"
    "nCell p' = nCell p" "cellOffset p' = cellOffset p" "nFree p' = nFree p" by blast+
qed

lemma payload_varint_len: "i < snd (payload_varint p i) \<and> snd (payload_varint p i) \<le> i + 9"
proof -
  obtain v n where "sqlite3GetVarint (slice p i 9) = Some (v, n)" "0 < n" "n \<le> 9" by (rule nine_bytes)
  then show ?thesis using payload_varint_ref(1) by force
qed

lemma skip_key: "skip_varint p (i + 9) i = snd (key_varint p i)" "i < snd (key_varint p i) \<and> snd (key_varint p i) \<le> i + 9"
proof -
  obtain v n where v: "sqlite3GetVarint (slice p i 9) = Some (v, n)" "0 < n" "n \<le> 9" by (rule nine_bytes)
  show "skip_varint p (i + 9) i = snd (key_varint p i)"
    using skip_varint_ref [of 0 "i + 9" i 0 p v n] v key_varint_ref [OF v(1)] by (simp add: GetVarint_is_ref)
  show "i < snd (key_varint p i) \<and> snd (key_varint p i) \<le> i + 9"
    using key_varint_ref [OF v(1)] v by simp
qed

text \<open>The local part of a payload, whichever of the three routines computes it.\<close>

lemma local_payload:
  assumes "page_kind b p" "480 \<le> usableSize b" "usableSize b \<le> 65536" "maxLocal p < n" "n < 2 ^ 32"
  shows "spill_surplus b p n = minLocal p + (n - minLocal p) mod (usableSize b - 4)"
    "btreePayloadToLocal b p n = (if spill_surplus b p n \<le> maxLocal p then spill_surplus b p n else minLocal p)"
    "0 < btreePayloadToLocal b p n" "btreePayloadToLocal b p n \<le> maxLocal p"
proof -
  have "(n - minLocal p) mod 2 ^ 32 = n - minLocal p"
    using assms by (simp add: page_kind_def)
  then show s: "spill_surplus b p n = minLocal p + (n - minLocal p) mod (usableSize b - 4)"
    by (simp add: spill_surplus_def)
  then show t: "btreePayloadToLocal b p n = (if spill_surplus b p n \<le> maxLocal p then spill_surplus b p n else minLocal p)"
    using assms(4) by (simp add: btreePayloadToLocal_def Let_def)
  have "0 \<le> (n - minLocal p) mod (usableSize b - 4)" "0 < minLocal p" "minLocal p \<le> maxLocal p"
    using assms(1,2) by (simp_all add: page_kind_def)
  then show "0 < btreePayloadToLocal b p n" "btreePayloadToLocal b p n \<le> maxLocal p"
    unfolding t s by (cases "minLocal p + (n - minLocal p) mod (usableSize b - 4) \<le> maxLocal p"; simp)+
qed

lemma parse_tail_size:
  fixes key n
  assumes "page_kind b p" "480 \<le> usableSize b" "usableSize b \<le> 65536" "0 \<le> i" "i \<le> 18"
  defines "r \<equiv> parse_tail b p key n i" and "l \<equiv> btreePayloadToLocal b p (uint n)"
  shows "nLocal r = l" "nSize r = (if uint n \<le> maxLocal p then max 4 (i + l) else i + l + 4)"
proof -
  have m: "maxLocal p + 22 < 65536" using assms(1,3) by (auto simp: page_kind_def)
  have u: "0 \<le> uint n" "uint n < 2 ^ 32" using uint_lt2p [of n] by simp_all
  have "nLocal r = l \<and> nSize r = (if uint n \<le> maxLocal p then max 4 (i + l) else i + l + 4)"
  proof (cases "uint n \<le> maxLocal p")
    case True
    moreover from this have "l = uint n" by (simp add: l_def btreePayloadToLocal_def)
    moreover have "(uint n + i mod 65536) mod 65536 = uint n + i" "uint n mod 65536 = uint n"
      using True m assms(4,5) u by simp_all
    ultimately show ?thesis by (simp add: r_def parse_tail_def Let_def max_def)
  next
    case False
    note q = local_payload [OF assms(1-3) _ u(2)]
    have "nLocal r = l mod 65536" "nSize r = ((i + l mod 65536) mod 65536 + 4) mod 65536"
      using False q(2) by (simp_all add: r_def l_def parse_tail_def btreeParseCellAdjustSizeForOverflow_def Let_def)
    then show ?thesis
      using False q(3,4) m assms(4,5) by (simp add: l_def)
  qed
  then show "nLocal r = l" "nSize r = (if uint n \<le> maxLocal p then max 4 (i + l) else i + l + 4)" by simp_all
qed

lemma size_is_parsed:
  fixes c
  assumes "page_kind b p" "480 \<le> usableSize b" "usableSize b \<le> 65536"
  defines "info \<equiv> parseCell b p c"
  shows "cellSizeOf b p c = nSize info" "4 \<le> nSize info" "nSize info \<le> maxLocal p + 22 \<or> nSize info \<le> 13"
    "nLocal info = btreePayloadToLocal b p (nPayload info)"
proof -
  have m: "0 < minLocal p" "minLocal p \<le> maxLocal p" "maxLocal p + 22 < 65536" using assms(1,3) by (auto simp: page_kind_def)
  have goals: "cellSizeOf b p c = nSize info \<and> 4 \<le> nSize info \<and> (nSize info \<le> maxLocal p + 22 \<or> nSize info \<le> 13) \<and>
      nLocal info = btreePayloadToLocal b p (nPayload info)"
  proof (cases "xParseCell p = ParseCellPtrNoPayload")
    case True
    obtain v n where v: "sqlite3GetVarint (slice c 4 9) = Some (v, n)" "0 < n" "n \<le> 9" by (rule nine_bytes)
    have "skip_varint c 13 4 = 4 + int n"
      using skip_varint_ref [of 0 13 4 0 c v n] v by (simp add: GetVarint_is_ref)
    moreover have "xCellSize p = CellSizePtrNoPayload" using assms(1) True by (auto simp: page_kind_def)
    moreover have "btreePayloadToLocal b p 0 = 0" using m by (simp add: btreePayloadToLocal_def)
    ultimately show ?thesis
      using v True by (simp add: info_def parseCell_def cellSizeOf_def btreeParseCellPtrNoPayload_def cellSizePtrNoPayload_def)
  next
    case False
    obtain n i where pv: "payload_varint c (childPtrSize p) = (n, i)" by fastforce
    have i: "childPtrSize p < i" "i \<le> childPtrSize p + 9" using payload_varint_len [of "childPtrSize p" c] pv by simp_all
    define j where "j = (if intKey p then snd (key_varint c i) else i)"
    have child: "childPtrSize p = 0 \<or> childPtrSize p = 4 \<and> \<not> intKey p" using assms(1) False by (auto simp: page_kind_def)
    have j: "0 \<le> j" "j \<le> 18" using i child skip_key(2) [of i c] by (auto simp: j_def)
    define key where "key = (if intKey p then sint (fst (key_varint c i)) else uint n)"
    have info: "info = parse_tail b p key n j"
      using assms(1) False pv
      by (auto simp: page_kind_def info_def parseCell_def btreeParseCellPtr_def btreeParseCellPtrIndex_def j_def key_def split: prod.split)
    have np: "nPayload info = uint n" by (simp add: info parse_tail_def btreeParseCellAdjustSizeForOverflow_def Let_def)
    have cs: "cellSizeOf b p c =
        (if uint n \<le> maxLocal p then let s = uint n + j in (if s < 4 then 4 else s) mod 65536
         else let s = spill_surplus b p (uint n); s = (if maxLocal p < s then minLocal p else s)
              in (s + (4 + j mod 65536)) mod 65536)"
      using assms(1) False pv by (auto simp: page_kind_def cellSizeOf_def cellSizePtr_def j_def skip_key(1))
    note t = parse_tail_size [OF assms(1-3) j, of key n, folded info]
    have u: "0 \<le> uint n" "uint n < 2 ^ 32" using uint_lt2p [of n] by simp_all
    show ?thesis
    proof (cases "uint n \<le> maxLocal p")
      case True
      then have "btreePayloadToLocal b p (uint n) = uint n" by (simp add: btreePayloadToLocal_def)
      then show ?thesis using True t j m u unfolding cs np by (auto simp: Let_def max_def)
    next
      case False
      note q = local_payload [OF assms(1-3) _ u(2)]
      then show ?thesis using False t j m unfolding cs np by (auto simp: Let_def not_le)
    qed
  qed
  then show "cellSizeOf b p c = nSize info" "4 \<le> nSize info" "nSize info \<le> maxLocal p + 22 \<or> nSize info \<le> 13"
    "nLocal info = btreePayloadToLocal b p (nPayload info)" by blast+
qed

text \<open>
  C40. The size functions agree with the parsers, as their debugging assertions demand: on every kind of page
  \<open>decodeFlags\<close> accepts and for all bytes, well-formed or not, \<open>xCellSize\<close> is the size \<open>xParseCell\<close> fills in, at
  least four, and the local part of the payload is the one of \<open>btreePayloadToLocal\<close>.
\<close>

theorem cell_size_is_parsed:
  assumes "bt_ok b" "0 \<le> flagByte" "flagByte < 256"
    and "decodeFlags (payload_limits b) pPage flagByte = (SQLITE_OK, p)"
  shows "cellSizeOf (payload_limits b) p c = nSize (parseCell (payload_limits b) p c) \<and> 4 \<le> cellSizeOf (payload_limits b) p c \<and>
    nLocal (parseCell (payload_limits b) p c) = btreePayloadToLocal (payload_limits b) p (nPayload (parseCell (payload_limits b) p c))"
proof -
  have u: "480 \<le> usableSize (payload_limits b)" "usableSize (payload_limits b) \<le> 65536"
    using payload_limits(7) [OF assms(1)] assms(1) by (simp_all add: bt_ok_def)
  show ?thesis
    using size_is_parsed [OF decodeFlags_kind(1) [OF assms(4,1) refl assms(2,3)] u] by metis
qed

text \<open>
  The varints inlined in the cell parsers read what \<open>sqlite3GetVarint\<close> reads: the key has its value and
  length, the payload size its length and, but for a varint of nine bytes, its value modulo \<open>2 ^ 32\<close>; skipping
  the key ends where reading it does.
\<close>

theorem inlined_varints:
  assumes "sqlite3GetVarint (slice p i 9) = Some (v, n)"
  shows "key_varint p i = (v, i + int n) \<and> skip_varint p (i + 9) i = i + int n \<and>
    snd (payload_varint p i) = i + int n \<and> (n < 9 \<longrightarrow> fst (payload_varint p i) = ucast v)"
  using key_varint_ref [OF assms] payload_varint_ref [OF assms] skip_key(1) [of p i] by simp

theorem inlined_varints_witness: "key_varint [0x81, 0x00] 0 = (128, 2) \<and> payload_varint [0x81, 0x00] 0 = (128, 2)"
proof -
  have "sqlite3GetVarint (slice [0x81, 0x00] 0 9) = Some (128, 2)" by code_simp
  from inlined_varints [OF this] show ?thesis by (cases "payload_varint [0x81, 0x00] 0") simp
qed

text \<open>The comment calls the inlined code equivalent to \<open>getVarint32\<close>, which gives the largest number where the value
  does not fit: \<open>2 ^ 35\<close>; and it takes seven bits of a ninth byte, which has eight.\<close>

lemma payload_not_getVarint32:
  "getVarint32 [0x81, 0x80, 0x80, 0x80, 0x80, 0x00] = Some (0xFFFFFFFF, 6) \<and>
   payload_varint [0x81, 0x80, 0x80, 0x80, 0x80, 0x00] 0 = (0, 6) \<and>
   getVarint32 [0x80, 0x80, 0x80, 0x80, 0x80, 0x80, 0x80, 0x80, 0x85] = Some (0x85, 9) \<and>
   payload_varint [0x80, 0x80, 0x80, 0x80, 0x80, 0x80, 0x80, 0x80, 0x85] 0 = (5, 9)"
  by code_simp

text \<open>A page for examples, with the bytes of the pager and everything else unset.\<close>

definition raw_page :: "int \<Rightarrow> u8 list \<Rightarrow> MemPage" where
  "raw_page h d = \<lparr>isInit = False, intKey = False, intKeyLeaf = False, leaf = 0, hdrOffset = h, childPtrSize = 0, max1bytePayload = 0,
     nOverflow = 0, maxLocal = 0, minLocal = 0, cellOffset = 0, nFree = 0, nCell = 0, maskPage = 0, aiOvfl = [], apOvfl = [], aData = d,
     xCellSize = CellSizePtr, xParseCell = ParseCellPtr\<rparr>"

definition raw_bt :: "int \<Rightarrow> BtShared" where
  "raw_bt n = \<lparr>pageSize = n, usableSize = n, maxLocal_bt = 0, minLocal_bt = 0, maxLeaf = 0, minLeaf = 0, max1bytePayload_bt = 0,
     autoVacuum = False, fast_secure = False, cell_size_check = False\<rparr>"

text \<open>A cell of a leaf of a table in a database with pages of 512 bytes: a payload of 1000 bytes under key 5 leaves 39 of
  them on the page.\<close>

theorem cell_size_is_parsed_witness:
  "cellSizeOf (payload_limits (raw_bt 512)) (snd (decodeFlags (payload_limits (raw_bt 512)) (raw_page 0 []) 13)) [0x87, 0x68, 0x05] =
   nSize (parseCell (payload_limits (raw_bt 512)) (snd (decodeFlags (payload_limits (raw_bt 512)) (raw_page 0 []) 13)) [0x87, 0x68, 0x05])"
proof -
  have b: "bt_ok (raw_bt 512)" by (simp add: bt_ok_def raw_bt_def)
  have "decodeFlags (payload_limits (raw_bt 512)) (raw_page 0 []) 13 =
      (SQLITE_OK, snd (decodeFlags (payload_limits (raw_bt 512)) (raw_page 0 []) 13))" by code_simp
  from cell_size_is_parsed [OF b _ _ this] show ?thesis by simp
qed

end
