(* ===== verification/SqlPage.thy ===== *)
theory SqlPage
  imports SqlCell
begin

section \<open>The space of a b-tree page (btree.c)\<close>

text \<open>
  A page is a header, an array of cell pointers growing up, and the cell contents growing down from the end of
  the usable space. The holes between the cells are a list of free blocks in ascending order, linked by their
  first two bytes with the size in the next two; holes of up to three bytes are counted as fragments. Modelled
  are the allocation, the release and the defragmentation of this space, the check of a page read from the
  file, and the insertion and removal of a cell. A return code comes with the page as it is left, errors
  included.
\<close>

subsection \<open>Defragmentation\<close>

definition iCellFirst :: "MemPage \<Rightarrow> int" where
  "iCellFirst pPage = cellOffset pPage + 2 * nCell pPage"

fun move_pointers :: "u8 list \<Rightarrow> int \<Rightarrow> nat \<Rightarrow> int \<Rightarrow> int \<Rightarrow> int \<Rightarrow> int \<Rightarrow> u8 list" where
  "move_pointers data pAddr 0 iFree iFree2 sz sz2 = data"
| "move_pointers data pAddr (Suc n) iFree iFree2 sz sz2 =
     (let pc = get2byte data pAddr;
          data = (if pc < iFree then put2byte data pAddr (pc + sz)
                  else if pc < iFree2 then put2byte data pAddr (pc + sz2) else data)
      in move_pointers data (pAddr + 2) n iFree iFree2 sz sz2)"

text \<open>With one or two free blocks the contents before them are shifted: the data and the new start of the contents.
  \<open>Inl\<close> is an error, and the outer \<open>None\<close> says that the case does not apply.\<close>

definition defragment_fast :: "BtShared \<Rightarrow> MemPage \<Rightarrow> (int + u8 list \<times> int) option" where
  "defragment_fast pBt pPage =
     (let data = aData pPage; hdr = hdrOffset pPage; usable = usableSize pBt; iFree = get2byte data (hdr + 1) in
      if usable - 4 < iFree then Some (Inl SQLITE_CORRUPT)
      else if iFree = 0 then None
      else let iFree2 = get2byte data iFree in
      if usable - 4 < iFree2 then Some (Inl SQLITE_CORRUPT)
      else if \<not> (iFree2 = 0 \<or> peek data iFree2 = 0 \<and> peek data (iFree2 + 1) = 0) then None
      else let sz = get2byte data (iFree + 2); top = get2byte data (hdr + 5) in
      if iFree \<le> top then Some (Inl SQLITE_CORRUPT)
      else if iFree2 \<noteq> 0 \<and> iFree2 < iFree + sz then Some (Inl SQLITE_CORRUPT)
      else let sz2 = (if iFree2 \<noteq> 0 then get2byte data (iFree2 + 2) else 0) in
      if iFree2 \<noteq> 0 \<and> usable < iFree2 + sz2 then Some (Inl SQLITE_CORRUPT)
      else if iFree2 = 0 \<and> usable < iFree + sz then Some (Inl SQLITE_CORRUPT)
      else let data = (if iFree2 \<noteq> 0 then memmove data (iFree + sz + sz2) (iFree + sz) (iFree2 - (iFree + sz)) else data);
               sz = sz + sz2;
               cbrk = top + sz;
               data = memmove data cbrk top (iFree - top);
               data = move_pointers data (cellOffset pPage) (nat (nCell pPage)) iFree iFree2 sz sz2
           in Some (Inr (data, cbrk)))"

text \<open>Otherwise all cells are copied to the end of the page, out of a copy of the contents as soon as one of them
  has moved. \<open>tempSpace\<close> is what the pager's temporary buffer holds before.\<close>

primrec pack_cells ::
  "BtShared \<Rightarrow> MemPage \<Rightarrow> u8 list \<Rightarrow> int \<Rightarrow> int list \<Rightarrow> u8 list \<Rightarrow> u8 list option \<Rightarrow> int \<Rightarrow> int \<times> u8 list \<times> int" where
  "pack_cells pBt pPage tempSpace iCellStart [] data temp cbrk = (SQLITE_OK, data, cbrk)"
| "pack_cells pBt pPage tempSpace iCellStart (i # is) data temp cbrk =
     (let pAddr = cellOffset pPage + i * 2; pc = get2byte data pAddr in
      if pc < iCellStart \<or> usableSize pBt - 4 < pc then (SQLITE_CORRUPT, data, cbrk)
      else let src = (case temp of None \<Rightarrow> data | Some t \<Rightarrow> t);
               sz = cellSizeOf pBt pPage (drop (nat pc) src);
               cbrk = cbrk - sz in
      if cbrk < iCellStart \<or> usableSize pBt < pc + sz then (SQLITE_CORRUPT, data, cbrk)
      else let data = put2byte data pAddr cbrk in
      if temp = None \<and> cbrk = pc then pack_cells pBt pPage tempSpace iCellStart is data None cbrk
      else let t = (case temp of
                      None \<Rightarrow> blit tempSpace iCellStart (slice data iCellStart (usableSize pBt - iCellStart))
                    | Some t \<Rightarrow> t)
           in pack_cells pBt pPage tempSpace iCellStart is (blit data cbrk (slice t pc sz)) (Some t) cbrk)"

definition defragment_out :: "MemPage \<Rightarrow> u8 list \<Rightarrow> int \<Rightarrow> int \<times> MemPage" where
  "defragment_out pPage data cbrk =
     (let hdr = hdrOffset pPage; first = iCellFirst pPage in
      if uint (peek data (hdr + 7)) + cbrk - first \<noteq> nFree pPage then (SQLITE_CORRUPT, pPage\<lparr>aData := data\<rparr>)
      else let data = put2byte data (hdr + 5) cbrk;
               data = poke (poke data (hdr + 1) 0) (hdr + 2) 0;
               data = memset data first 0 (cbrk - first)
           in (SQLITE_OK, pPage\<lparr>aData := data\<rparr>))"

definition defragmentPage :: "BtShared \<Rightarrow> u8 list \<Rightarrow> MemPage \<Rightarrow> int \<Rightarrow> int \<times> MemPage" where
  "defragmentPage pBt tempSpace pPage nMaxFrag =
     (let data = aData pPage; hdr = hdrOffset pPage in
      case (if uint (peek data (hdr + 7)) \<le> nMaxFrag then defragment_fast pBt pPage else None) of
        Some (Inl rc) \<Rightarrow> (rc, pPage)
      | Some (Inr (data, cbrk)) \<Rightarrow> defragment_out pPage data cbrk
      | None \<Rightarrow>
          (case pack_cells pBt pPage tempSpace (get2byte data (hdr + 5)) (map int [0..<nat (nCell pPage)]) data None (usableSize pBt) of
             (rc, data, cbrk) \<Rightarrow>
               if rc \<noteq> SQLITE_OK then (rc, pPage\<lparr>aData := data\<rparr>)
               else defragment_out pPage (poke data (hdr + 7) 0) cbrk))"

subsection \<open>Allocation\<close>

text \<open>The search through the free blocks: the return code, the address found, and the bytes of the page.\<close>

function find_slot :: "BtShared \<Rightarrow> int \<Rightarrow> u8 list \<Rightarrow> int \<Rightarrow> int \<Rightarrow> int \<Rightarrow> int \<times> int option \<times> u8 list" where
  "find_slot pBt hdr data nByte iAddr pc =
     (let maxPC = usableSize pBt - nByte in
      if pc \<le> maxPC then
        let sz = get2byte data (pc + 2); x = sz - nByte in
        if 0 \<le> x then
          if x < 4 then
            if 57 < peek data (hdr + 7) then (SQLITE_OK, None, data)
            else let data = blit data iAddr (slice data pc 2)
                 in (SQLITE_OK, Some (pc + x), poke data (hdr + 7) (peek data (hdr + 7) + word_of_int x))
          else if maxPC < x + pc then (SQLITE_CORRUPT, None, data)
          else (SQLITE_OK, Some (pc + x), put2byte data (pc + 2) x)
        else
          let iAddr = pc; pc' = get2byte data pc in
          if pc' \<le> iAddr + sz then (if pc' \<noteq> 0 then SQLITE_CORRUPT else SQLITE_OK, None, data)
          else find_slot pBt hdr data nByte iAddr pc'
      else (if maxPC + nByte - 4 < pc then SQLITE_CORRUPT else SQLITE_OK, None, data))"
  by auto
termination
proof (relation "measure (\<lambda>(b, h, d, n, a, pc). nat (usableSize b - n + 1 - pc))", goal_cases)
  case (2 pBt hdr data nByte iAddr pc maxPC sz x iAddr' pc')
  moreover have "0 \<le> get2byte data (pc + 2)" by (simp add: get2byte_def)
  ultimately show ?case by simp
qed simp

definition pageFindSlot :: "BtShared \<Rightarrow> MemPage \<Rightarrow> int \<Rightarrow> int \<times> int option \<times> u8 list" where
  "pageFindSlot pBt pPg nByte =
     (let hdr = hdrOffset pPg in find_slot pBt hdr (aData pPg) nByte (hdr + 1) (get2byte (aData pPg) (hdr + 1)))"

definition allocateSpace :: "BtShared \<Rightarrow> u8 list \<Rightarrow> MemPage \<Rightarrow> int \<Rightarrow> int \<times> int \<times> MemPage" where
  "allocateSpace pBt tempSpace pPage nByte =
     (let hdr = hdrOffset pPage; data = aData pPage; gap = cellOffset pPage + 2 * nCell pPage; top = get2byte data (hdr + 5) in
      if top < gap \<and> \<not> (top = 0 \<and> usableSize pBt = 65536) then (SQLITE_CORRUPT, 0, pPage)
      else let top = (if top < gap then 65536 else top) in
      case (if (peek data (hdr + 2) \<noteq> 0 \<or> peek data (hdr + 1) \<noteq> 0) \<and> gap + 2 \<le> top
            then pageFindSlot pBt pPage nByte else (SQLITE_OK, None, data)) of
        (rc, Some g2, data) \<Rightarrow> (if g2 \<le> gap then SQLITE_CORRUPT else SQLITE_OK, g2, pPage\<lparr>aData := data\<rparr>)
      | (rc, None, data) \<Rightarrow>
          if rc \<noteq> SQLITE_OK then (rc, 0, pPage\<lparr>aData := data\<rparr>)
          else
            (case (if top < gap + 2 + nByte
                   then (case defragmentPage pBt tempSpace pPage (min 4 (nFree pPage - (2 + nByte))) of
                           (rc, p) \<Rightarrow> (rc, p, get2byteNotZero (aData p) (hdr + 5)))
                   else (SQLITE_OK, pPage, top)) of
               (rc, p, top) \<Rightarrow>
                 if rc \<noteq> SQLITE_OK then (rc, 0, p)
                 else (SQLITE_OK, top - nByte, p\<lparr>aData := put2byte (aData p) (hdr + 5) (top - nByte)\<rparr>)))"

subsection \<open>Release\<close>

text \<open>The place in the list of free blocks: the address of the pointer and the block it leads to.\<close>

function free_seek :: "u8 list \<Rightarrow> int \<Rightarrow> int \<Rightarrow> (int \<times> int) option" where
  "free_seek data iStart iPtr =
     (let iFreeBlk = get2byte data iPtr in
      if iFreeBlk < iStart then
        if iFreeBlk < iPtr + 4 then (if iFreeBlk = 0 then Some (iPtr, iFreeBlk) else None)
        else free_seek data iStart iFreeBlk
      else Some (iPtr, iFreeBlk))"
  by auto
termination
  by (relation "measure (\<lambda>(d, s, p). nat (s - p))") auto

declare find_slot.simps [simp del] free_seek.simps [simp del]

text \<open>Merging with the free blocks behind and before: the block, its end, the next one and the fragments it took in.\<close>

definition merge_next :: "BtShared \<Rightarrow> u8 list \<Rightarrow> int \<Rightarrow> int \<Rightarrow> int \<Rightarrow> (int \<times> int \<times> int \<times> int) option" where
  "merge_next pBt data iStart iSize iFreeBlk =
     (let iEnd = iStart + iSize in
      if iFreeBlk \<noteq> 0 \<and> iFreeBlk \<le> iEnd + 3 then
        if iFreeBlk < iEnd then None
        else let e = iFreeBlk + get2byte data (iFreeBlk + 2) in
          if usableSize pBt < e then None
          else Some ((iFreeBlk - iEnd) mod 256, e, (e - iStart) mod 65536, get2byte data iFreeBlk)
      else Some (0, iEnd, iSize, iFreeBlk))"

definition merge_prev :: "u8 list \<Rightarrow> int \<Rightarrow> int \<Rightarrow> int \<Rightarrow> int \<Rightarrow> int \<Rightarrow> int \<Rightarrow> (int \<times> int \<times> int) option" where
  "merge_prev data hdr iPtr iStart iEnd iSize nFrag =
     (if hdr + 1 < iPtr then
        let iPtrEnd = iPtr + get2byte data (iPtr + 2) in
        if iStart \<le> iPtrEnd + 3 then
          if iStart < iPtrEnd then None
          else Some ((nFrag + (iStart - iPtrEnd)) mod 256, (iEnd - iPtr) mod 65536, iPtr)
        else Some (nFrag, iSize, iStart)
      else Some (nFrag, iSize, iStart))"

definition free_merge :: "BtShared \<Rightarrow> u8 list \<Rightarrow> int \<Rightarrow> int \<Rightarrow> int \<Rightarrow> (int \<times> int \<times> int \<times> int \<times> int \<times> u8 list) option" where
  "free_merge pBt data hdr iStart iSize =
     (if peek data (hdr + 1 + 1) = 0 \<and> peek data (hdr + 1) = 0
      then Some (hdr + 1, 0, iStart, iSize, iStart + iSize, data)
      else do {
        (iPtr, iFreeBlk) \<leftarrow> free_seek data iStart (hdr + 1);
        (if usableSize pBt - 4 < iFreeBlk then None else Some ());
        (nFrag, iEnd, iSize, iFreeBlk) \<leftarrow> merge_next pBt data iStart iSize iFreeBlk;
        (nFrag, iSize, iStart) \<leftarrow> merge_prev data hdr iPtr iStart iEnd iSize nFrag;
        (if uint (peek data (hdr + 7)) < nFrag then None else Some ());
        Some (iPtr, iFreeBlk, iStart, iSize, iEnd, poke data (hdr + 7) (peek data (hdr + 7) - word_of_int nFrag))
      })"

definition freeSpace :: "BtShared \<Rightarrow> MemPage \<Rightarrow> int \<Rightarrow> int \<Rightarrow> int \<times> MemPage" where
  "freeSpace pBt pPage iStart0 iSize0 =
     (let hdr = hdrOffset pPage in
      case free_merge pBt (aData pPage) hdr iStart0 iSize0 of
        None \<Rightarrow> (SQLITE_CORRUPT, pPage)
      | Some (iPtr, iFreeBlk, iStart, iSize, iEnd, data) \<Rightarrow>
          let x = get2byte data (hdr + 5) in
          if iStart \<le> x \<and> (iStart < x \<or> iPtr \<noteq> hdr + 1) then (SQLITE_CORRUPT, pPage\<lparr>aData := data\<rparr>)
          else
            let data = (if iStart \<le> x then put2byte (put2byte data (hdr + 1) iFreeBlk) (hdr + 5) iEnd
                        else put2byte data iPtr iStart);
                data = (if fast_secure pBt then memset data iStart 0 iSize else data);
                data = put2byte (put2byte data iStart iFreeBlk) (iStart + 2) iSize
            in (SQLITE_OK, pPage\<lparr>aData := data, nFree := nFree pPage + iSize0\<rparr>))"

subsection \<open>Reading and making a page\<close>

function free_walk :: "u8 list \<Rightarrow> int \<Rightarrow> int \<Rightarrow> int \<Rightarrow> (int \<times> int \<times> int \<times> int) option" where
  "free_walk data iCellLast pc n =
     (if iCellLast < pc then None
      else let nxt = get2byte data pc; sz = get2byte data (pc + 2); n = n + sz in
        if nxt \<le> pc + sz + 3 then Some (nxt, pc, sz, n) else free_walk data iCellLast nxt n)"
  by auto
termination
proof (relation "measure (\<lambda>(d, l, pc, n). nat (l + 1 - pc))", goal_cases)
  case (2 data iCellLast pc n nxt sz n')
  moreover have "0 \<le> get2byte data (pc + 2)" by (simp add: get2byte_def)
  ultimately show ?case by simp
qed simp

declare free_walk.simps [simp del]

definition btreeComputeFreeSpace :: "BtShared \<Rightarrow> MemPage \<Rightarrow> int \<times> MemPage" where
  "btreeComputeFreeSpace pBt pPage =
     (let hdr = hdrOffset pPage; data = aData pPage; usable = usableSize pBt;
          top = get2byteNotZero data (hdr + 5);
          first = hdr + 8 + childPtrSize pPage + 2 * nCell pPage;
          pc = get2byte data (hdr + 1);
          n = uint (peek data (hdr + 7)) + top;
          walked = (if 0 < pc then
                      if pc < top then None
                      else (case free_walk data (usable - 4) pc n of
                              None \<Rightarrow> None
                            | Some (nxt, pc, sz, n) \<Rightarrow> if 0 < nxt then None else if usable < pc + sz then None else Some n)
                    else Some n)
      in case walked of
           None \<Rightarrow> (SQLITE_CORRUPT, pPage)
         | Some n \<Rightarrow> if usable < n \<or> n < first then (SQLITE_CORRUPT, pPage)
                     else (SQLITE_OK, pPage\<lparr>nFree := (n - first) mod 65536\<rparr>))"

fun cell_size_loop :: "BtShared \<Rightarrow> MemPage \<Rightarrow> int \<Rightarrow> int \<Rightarrow> int list \<Rightarrow> int" where
  "cell_size_loop pBt pPage first iCellLast [] = SQLITE_OK"
| "cell_size_loop pBt pPage first iCellLast (i # is) =
     (let pc = get2byte (aData pPage) (cellOffset pPage + i * 2) in
      if pc < first \<or> iCellLast < pc then SQLITE_CORRUPT
      else let sz = cellSizeOf pBt pPage (drop (nat pc) (aData pPage)) in
        if usableSize pBt < pc + sz then SQLITE_CORRUPT else cell_size_loop pBt pPage first iCellLast is)"

definition btreeCellSizeCheck :: "BtShared \<Rightarrow> MemPage \<Rightarrow> int" where
  "btreeCellSizeCheck pBt pPage =
     cell_size_loop pBt pPage (iCellFirst pPage) (if leaf pPage = 0 then usableSize pBt - 4 - 1 else usableSize pBt - 4)
       (map int [0..<nat (nCell pPage)])"

definition MX_CELL :: "BtShared \<Rightarrow> int" where
  "MX_CELL pBt = (pageSize pBt - 8) div 6"

definition btreeInitPage :: "BtShared \<Rightarrow> MemPage \<Rightarrow> int \<times> MemPage" where
  "btreeInitPage pBt pPage =
     (let hdr = hdrOffset pPage; (rc, p) = decodeFlags pBt pPage (uint (peek (aData pPage) hdr)) in
      if rc \<noteq> SQLITE_OK then (SQLITE_CORRUPT, p)
      else let p = p\<lparr>maskPage := (pageSize pBt - 1) mod 65536, nOverflow := 0, cellOffset := hdr + 8 + childPtrSize p,
                     nCell := get2byte (aData p) (hdr + 3)\<rparr> in
        if MX_CELL pBt < nCell p then (SQLITE_CORRUPT, p)
        else let p = p\<lparr>nFree := -1, isInit := True\<rparr> in
          (if cell_size_check pBt then btreeCellSizeCheck pBt p else SQLITE_OK, p))"

definition zeroPage :: "BtShared \<Rightarrow> MemPage \<Rightarrow> int \<Rightarrow> MemPage" where
  "zeroPage pBt pPage flags =
     (let hdr = hdrOffset pPage;
          data = (if fast_secure pBt then memset (aData pPage) hdr 0 (usableSize pBt - hdr) else aData pPage);
          data = poke data hdr (word_of_int flags);
          first = hdr + (if flags AND PTF_LEAF = 0 then 12 else 8);
          data = memset data (hdr + 1) 0 4;
          data = poke data (hdr + 7) 0;
          data = put2byte data (hdr + 5) (usableSize pBt);
          (rc, p) = decodeFlags pBt (pPage\<lparr>aData := data, nFree := (usableSize pBt - first) mod 65536\<rparr>) flags
      in p\<lparr>cellOffset := first, nOverflow := 0, maskPage := (pageSize pBt - 1) mod 65536, nCell := 0, isInit := True\<rparr>)"

subsection \<open>Cells\<close>

definition dropCell :: "BtShared \<Rightarrow> MemPage \<Rightarrow> int \<Rightarrow> int \<Rightarrow> int \<Rightarrow> int \<times> MemPage" where
  "dropCell pBt pPage idx sz pRC =
     (if pRC \<noteq> SQLITE_OK then (pRC, pPage)
      else let hdr = hdrOffset pPage; ptr = cellOffset pPage + 2 * idx; pc = get2byte (aData pPage) ptr in
      if usableSize pBt < pc + sz then (SQLITE_CORRUPT, pPage)
      else case freeSpace pBt pPage pc sz of
        (rc, p) \<Rightarrow>
          if rc \<noteq> SQLITE_OK then (rc, p)
          else let p = p\<lparr>nCell := nCell p - 1\<rparr>; data = aData p in
          if nCell p = 0 then
            let data = memset data (hdr + 1) 0 4;
                data = poke data (hdr + 7) 0;
                data = put2byte data (hdr + 5) (usableSize pBt)
            in (SQLITE_OK, p\<lparr>aData := data, nFree := usableSize pBt - hdr - childPtrSize p - 8\<rparr>)
          else
            let data = memmove data ptr (ptr + 2) (2 * (nCell p - idx));
                data = put2byte data (hdr + 3) (nCell p)
            in (SQLITE_OK, p\<lparr>aData := data, nFree := nFree p + 2\<rparr>))"

text \<open>
  \<open>pCell\<close> is what the pointer leads to; an overflow cell is kept as its \<open>sz\<close> bytes, be it in \<open>pTemp\<close> or in
  place. The answers of \<open>sqlite3PagerWrite\<close> and, in an auto-vacuum database, of \<open>ptrmapPutOvflPtr\<close>, which enters an
  overflow page into the pointer map, are \<open>pager_rc\<close> and \<open>ptrmap_rc\<close>; the pointer map is on pages of its own.
\<close>

definition insertCell ::
  "BtShared \<Rightarrow> u8 list \<Rightarrow> int \<Rightarrow> int \<Rightarrow> MemPage \<Rightarrow> int \<Rightarrow> u8 list \<Rightarrow> int \<Rightarrow> u32 \<Rightarrow> int \<times> MemPage" where
  "insertCell pBt tempSpace pager_rc ptrmap_rc pPage i pCell sz iChild =
     (if nOverflow pPage \<noteq> 0 \<or> nFree pPage < sz + 2 then
        let cell = slice pCell 0 sz;
            cell = (if iChild \<noteq> 0 then blit cell 0 (sqlite3Put4byte iChild) else cell);
            j = nat (nOverflow pPage)
        in (SQLITE_OK, pPage\<lparr>nOverflow := nOverflow pPage + 1, apOvfl := take j (apOvfl pPage) @ [cell],
              aiOvfl := take j (aiOvfl pPage) @ [i mod 65536]\<rparr>)
      else if pager_rc \<noteq> SQLITE_OK then (pager_rc, pPage)
      else case allocateSpace pBt tempSpace pPage sz of
        (rc, idx, p) \<Rightarrow>
          if rc \<noteq> SQLITE_OK then (rc, p)
          else
            let hdr = hdrOffset p;
                p = p\<lparr>nFree := nFree p - (2 + sz) mod 65536\<rparr>;
                data = aData p;
                data = (if iChild \<noteq> 0 then blit (blit data (idx + 4) (slice pCell 4 (sz - 4))) idx (sqlite3Put4byte iChild)
                        else blit data idx (slice pCell 0 sz));
                pIns = cellOffset p + i * 2;
                data = memmove data (pIns + 2) pIns (2 * (nCell p - i));
                data = put2byte data pIns idx;
                data = poke data (hdr + 4) (peek data (hdr + 4) + 1);
                data = (if peek data (hdr + 4) = 0 then poke data (hdr + 3) (peek data (hdr + 3) + 1) else data)
            in (if autoVacuum pBt then ptrmap_rc else SQLITE_OK, p\<lparr>nCell := nCell p + 1, aData := data\<rparr>))"

subsection \<open>Reads after writes\<close>

lemma length_writes [simp]: "length (poke d i v) = length d" "length (put2byte d i w) = length d"
  "length (blit d i xs) = length d" "length (memset d i v n) = length d" "length (memmove d i j n) = length d"
  by (simp_all add: poke_def put2byte_def blit_def memset_def memmove_def)

lemma peek_poke: "peek (poke d i v) j = (if i = j \<and> 0 \<le> i \<and> i < int (length d) then v else peek d j)"
  by (auto simp: peek_def poke_def nth_list_update nat_eq_iff)

lemma peek_poke_other [simp]: "i \<noteq> j \<Longrightarrow> peek (poke d i v) j = peek d j"
  by (simp add: peek_poke)

lemma poke_same: "peek d i = v \<Longrightarrow> poke d i v = d"
  by (cases "nat i < length d") (auto simp: poke_def peek_def list_update_beyond)

lemma peek_blit: "peek (blit d a xs) j =
    (if a \<le> j \<and> j < a + int (length xs) \<and> 0 \<le> j \<and> j < int (length d) then xs ! nat (j - a) else peek d j)"
  by (auto simp: peek_def blit_def)

lemma nth_slice: "k < nat n \<Longrightarrow> slice d a n ! k = peek d (a + int k)"
  by (simp add: slice_def)

lemma peek_memmove: "peek (memmove d a b n) j =
    (if a \<le> j \<and> j < a + n \<and> 0 \<le> j \<and> j < int (length d) then peek d (b + (j - a)) else peek d j)"
  by (auto simp: memmove_def peek_blit nth_slice)

lemma peek_memset: "peek (memset d a v n) j = (if a \<le> j \<and> j < a + n \<and> 0 \<le> j \<and> j < int (length d) then v else peek d j)"
  by (auto simp: memset_def peek_blit)

lemma peek_put2byte_other: "j < i \<or> i + 1 < j \<Longrightarrow> peek (put2byte d i v) j = peek d j"
  by (auto simp: put2byte_def peek_poke)

lemma peek_put2byte_neq: "j \<noteq> i \<Longrightarrow> j \<noteq> i + 1 \<Longrightarrow> peek (put2byte d i v) j = peek d j"
  by (rule peek_put2byte_other) linarith

lemma get2byte_range [simp]: "0 \<le> get2byte d i" "get2byte d i < 65536" "\<not> get2byte d i < 0" "get2byte d i \<le> 65535"
proof -
  have "uint (peek d i) < 256" "uint (peek d (i + 1)) < 256" using uint_lt2p [of "peek d i"] uint_lt2p [of "peek d (i + 1)"] by simp_all
  then show "0 \<le> get2byte d i" "get2byte d i < 65536" by (simp_all add: get2byte_def)
  then show "\<not> get2byte d i < 0" "get2byte d i \<le> 65535" by linarith+
qed

lemma get2byte_0: "get2byte d i = 0 \<longleftrightarrow> peek d i = 0 \<and> peek d (i + 1) = 0"
proof -
  have "0 \<le> uint (peek d i)" "0 \<le> uint (peek d (i + 1))" by simp_all
  then show ?thesis unfolding get2byte_def by (auto simp del: uint_nonnegative simp: add_nonneg_eq_0_iff uint_0_iff)
qed

lemma get2byte_put2byte:
  "0 \<le> i \<Longrightarrow> i + 1 < int (length d) \<Longrightarrow> 0 \<le> v \<Longrightarrow> get2byte (put2byte d i v) i = v mod 65536"
proof -
  assume i: "0 \<le> i" "i + 1 < int (length d)" and v: "0 \<le> v"
  have "v div 256 mod 256 * 256 + v mod 256 = v mod 65536"
    using zmod_zmult2_eq [of 256 v 256] by simp
  then show ?thesis
    using i by (simp add: get2byte_def put2byte_def peek_poke uint_word_of_int)
qed

lemma get2byte_put2byte_other: "j + 1 < i \<or> i + 1 < j \<Longrightarrow> get2byte (put2byte d i v) j = get2byte d j"
  unfolding get2byte_def by (subst (1 2) peek_put2byte_other) auto

lemma get2byte_cong: "peek d j = peek d' j \<Longrightarrow> peek d (j + 1) = peek d' (j + 1) \<Longrightarrow> get2byte d j = get2byte d' j"
  by (simp add: get2byte_def)

lemma slice_cong: "(\<And>j. a \<le> j \<Longrightarrow> j < a + n \<Longrightarrow> peek d j = peek d' j) \<Longrightarrow> slice d a n = slice d' a n"
  by (simp add: slice_def)

lemma slice_shift: "(\<And>j. 0 \<le> j \<Longrightarrow> j < n \<Longrightarrow> peek d (a + j) = peek d' (b + j)) \<Longrightarrow> slice d a n = slice d' b n"
  by (simp add: slice_def)

lemma slice_eqD: "slice d a n = slice d' b n \<Longrightarrow> 0 \<le> j \<Longrightarrow> j < n \<Longrightarrow> peek d (a + j) = peek d' (b + j)"
proof -
  assume e: "slice d a n = slice d' b n" and j: "0 \<le> j" "j < n"
  then have "slice d a n ! nat j = slice d' b n ! nat j" by simp
  then show ?thesis using j by (simp add: nth_slice)
qed

lemma slice_slice: "0 \<le> a \<Longrightarrow> a + m \<le> n \<Longrightarrow> slice (slice d b n) a m = slice d (b + a) m"
  unfolding slice_def by (auto simp: peek_def nat_add_distrib ac_simps)

lemma slice_id: "slice c 0 (int (length c)) = c"
  by (rule nth_equalityI) (simp_all add: nth_slice peek_def)

lemma slice_drop: "0 \<le> a \<Longrightarrow> 0 \<le> n \<Longrightarrow> a + n \<le> int (length d) \<Longrightarrow> drop (nat a) d = slice d a n @ drop (nat (a + n)) d"
proof -
  assume a: "0 \<le> a" "0 \<le> n" "a + n \<le> int (length d)"
  have "slice d a n = take (nat n) (drop (nat a) d)"
    using a by (intro nth_equalityI) (auto simp: nth_slice peek_def nat_add_distrib)
  moreover have "nat (a + n) = nat n + nat a" using a by simp
  ultimately show ?thesis using a by (metis append_take_drop_id drop_drop)
qed

lemma NotZero: "0 < v \<Longrightarrow> v \<le> 65536 \<Longrightarrow> 0 \<le> i \<Longrightarrow> i + 1 < int (length d) \<Longrightarrow> get2byteNotZero (put2byte d i v) i = v"
proof -
  assume v: "0 < v" "v \<le> 65536" and i: "0 \<le> i" "i + 1 < int (length d)"
  show ?thesis
  proof (cases "v = 65536")
    case False
    then show ?thesis using get2byte_put2byte [of i d v] v i by (simp add: get2byteNotZero_def)
  qed (use get2byte_put2byte [of i d v] i in \<open>simp add: get2byteNotZero_def\<close>)
qed

lemma NotZero_get: "get2byte d i = (if get2byteNotZero d i = 65536 then 0 else get2byteNotZero d i)"
  "0 < get2byteNotZero d i" "get2byteNotZero d i \<le> 65536"
proof -
  have r: "0 \<le> get2byte d i" "get2byte d i < 65536" by simp_all
  show "get2byte d i = (if get2byteNotZero d i = 65536 then 0 else get2byteNotZero d i)"
  proof (cases "get2byte d i = 0")
    case False
    then have "(get2byte d i - 1) mod 65536 = get2byte d i - 1" using r by (intro mod_pos_pos_trivial) linarith+
    then show ?thesis using r(2) by (simp add: get2byteNotZero_def del: get2byte_range)
  qed (simp add: get2byteNotZero_def)
  show "0 < get2byteNotZero d i" "get2byteNotZero d i \<le> 65536"
    using pos_mod_bound [of 65536 "get2byte d i - 1"] pos_mod_sign [of 65536 "get2byte d i - 1"]
    by (simp_all add: get2byteNotZero_def)
qed

subsection \<open>Intervals\<close>

text \<open>An interval is a start with a length. Two of them are apart if they do not meet.\<close>

type_synonym interval = "int \<times> int"

definition apart :: "interval \<Rightarrow> interval \<Rightarrow> bool" where
  "apart x y \<longleftrightarrow> fst x + snd x \<le> fst y \<or> fst y + snd y \<le> fst x"

lemma apart_simps [simp]: "apart (a, m) (b, n) \<longleftrightarrow> a + m \<le> b \<or> b + n \<le> a"
  by (simp add: apart_def)

lemma apart_sym: "apart x y \<longleftrightarrow> apart y x"
  by (auto simp: apart_def)

definition covered :: "interval list \<Rightarrow> int" where
  "covered xs = sum_list (map snd xs)"

lemma covered_simps [simp]: "covered [] = 0" "covered (x # xs) = snd x + covered xs" "covered (xs @ ys) = covered xs + covered ys"
  by (simp_all add: covered_def)

text \<open>Intervals that are apart and lie in \<open>[lo, hi)\<close> cover no more than its length.\<close>

lemma covered_card:
  "sorted_wrt apart xs \<Longrightarrow> \<forall>x\<in>set xs. 0 < snd x \<Longrightarrow> covered xs = int (card (\<Union>x\<in>set xs. {fst x..<fst x + snd x}))"
proof (induction xs)
  case (Cons x xs)
  have "{fst x..<fst x + snd x} \<inter> (\<Union>y\<in>set xs. {fst y..<fst y + snd y}) = {}"
    using Cons.prems by (force simp: apart_def)
  then have "card ({fst x..<fst x + snd x} \<union> (\<Union>y\<in>set xs. {fst y..<fst y + snd y})) =
      card {fst x..<fst x + snd x} + card (\<Union>y\<in>set xs. {fst y..<fst y + snd y})"
    by (intro card_Un_disjoint) auto
  then show ?case using Cons by simp
qed simp

lemma covered_fits:
  assumes "sorted_wrt apart xs" "\<forall>x\<in>set xs. 0 < snd x \<and> lo \<le> fst x \<and> fst x + snd x \<le> hi"
  shows "xs \<noteq> [] \<Longrightarrow> covered xs \<le> hi - lo"
proof -
  assume "xs \<noteq> []"
  then obtain x where "x \<in> set xs" by (cases xs) auto
  then have l: "lo \<le> hi" using assms(2) by force
  have "(\<Union>x\<in>set xs. {fst x..<fst x + snd x}) \<subseteq> {lo..<hi}"
    using assms(2) by fastforce
  then have "card (\<Union>x\<in>set xs. {fst x..<fst x + snd x}) \<le> card {lo..<hi}"
    by (intro card_mono) auto
  moreover have "covered xs = int (card (\<Union>x\<in>set xs. {fst x..<fst x + snd x}))"
    using assms by (intro covered_card) auto
  ultimately show ?thesis using l by simp
qed

subsection \<open>The list of free blocks\<close>

text \<open>
  Each block of \<open>fs\<close> points to the next and the last to \<open>e\<close>. The blocks are in order, of four bytes at least, and
  at least four bytes apart from each other.
\<close>

definition head_ptr :: "interval list \<Rightarrow> int \<Rightarrow> int" where
  "head_ptr fs e = (if fs = [] then e else fst (hd fs))"

definition tail_ptr :: "int \<Rightarrow> interval list \<Rightarrow> int" where
  "tail_ptr a fs = (if fs = [] then a else fst (last fs))"

lemma ptr_simps [simp]: "head_ptr [] e = e" "head_ptr ((s, n) # fs) e = s"
  "tail_ptr a [] = a" "tail_ptr a ((s, n) # fs) = tail_ptr s fs" "tail_ptr a (fs @ [x]) = fst x"
  by (simp_all add: tail_ptr_def head_ptr_def)

fun chained :: "u8 list \<Rightarrow> interval list \<Rightarrow> int \<Rightarrow> bool" where
  "chained d [] e \<longleftrightarrow> True"
| "chained d ((s, n) # fs) e \<longleftrightarrow> get2byte d s = head_ptr fs e \<and> get2byte d (s + 2) = n \<and> chained d fs e"

fun blocks_ok :: "int \<Rightarrow> int \<Rightarrow> interval list \<Rightarrow> bool" where
  "blocks_ok lo hi [] \<longleftrightarrow> True"
| "blocks_ok lo hi ((s, n) # fs) \<longleftrightarrow> lo \<le> s \<and> 4 \<le> n \<and> s + n \<le> hi \<and> blocks_ok (s + n + 4) hi fs"

lemma head_ptr_append: "head_ptr (xs @ ys) e = head_ptr xs (head_ptr ys e)"
  by (simp add: head_ptr_def)

lemma chained_append: "chained d (xs @ ys) e \<longleftrightarrow> chained d xs (head_ptr ys e) \<and> chained d ys e"
  by (induction xs) (auto simp: head_ptr_append)

lemma chained_cong:
  assumes "\<And>s n. (s, n) \<in> set fs \<Longrightarrow> get2byte d' s = get2byte d s \<and> get2byte d' (s + 2) = get2byte d (s + 2)"
  shows "chained d' fs e = chained d fs e"
  using assms
proof (induction fs)
  case (Cons x fs)
  obtain s n where x: "x = (s, n)" by fastforce
  show ?case using Cons.prems [of s n] Cons.IH [OF Cons.prems [OF list.set_intros(2)]] by (simp add: x)
qed simp

lemma blocks_ok_weaken: "blocks_ok lo hi fs \<Longrightarrow> lo' \<le> lo \<Longrightarrow> hi \<le> hi' \<Longrightarrow> blocks_ok lo' hi' fs"
  by (induction lo hi fs arbitrary: lo' rule: blocks_ok.induct) auto

lemma blocks_ok_bounds: "blocks_ok lo hi fs \<Longrightarrow> (s, n) \<in> set fs \<Longrightarrow> lo \<le> s \<and> 4 \<le> n \<and> s + n \<le> hi"
  by (induction lo hi fs rule: blocks_ok.induct) force+

lemma blocks_ok_append:
  "blocks_ok lo hi (xs @ ys) \<longleftrightarrow> blocks_ok lo hi xs \<and> blocks_ok (if xs = [] then lo else fst (last xs) + snd (last xs) + 4) hi ys"
  by (induction lo hi xs rule: blocks_ok.induct) auto

lemma blocks_apart: "blocks_ok lo hi fs \<Longrightarrow> sorted_wrt apart fs"
  by (induction lo hi fs rule: blocks_ok.induct) (auto dest: blocks_ok_bounds)

lemma blocks_before: "blocks_ok lo hi (xs @ (s, n) # ys) \<Longrightarrow> (s', n') \<in> set xs \<Longrightarrow> s' + n' + 4 \<le> s"
proof (induction lo hi xs rule: blocks_ok.induct)
  case (2 lo hi t m xs)
  then show ?case using blocks_ok_bounds [of "t + m + 4" hi "xs @ (s, n) # ys" s n] by auto
qed simp

lemma blocks_distinct: "blocks_ok lo hi (xs @ (s, n) # ys) \<Longrightarrow> (s', n') \<in> set (xs @ ys) \<Longrightarrow> s' + 4 \<le> s \<or> s + n + 4 \<le> s'"
  by (induction lo hi xs rule: blocks_ok.induct) (auto dest: blocks_ok_bounds)

subsection \<open>The layout of a page\<close>

text \<open>Cells \<open>xs\<close> and free blocks \<open>fs\<close> in the content area from \<open>tp\<close> to \<open>u\<close>. No free block is at its start.\<close>

definition layout :: "int \<Rightarrow> int \<Rightarrow> interval list \<Rightarrow> interval list \<Rightarrow> bool" where
  "layout tp u xs fs \<longleftrightarrow> tp \<le> u \<and> blocks_ok (tp + 1) u fs \<and> sorted_wrt apart (xs @ fs) \<and>
     (\<forall>x\<in>set xs. tp \<le> fst x \<and> 4 \<le> snd x \<and> fst x + snd x \<le> u)"

lemma layout_covered: "layout tp u xs fs \<Longrightarrow> covered xs + covered fs \<le> u - tp"
proof (cases "xs @ fs = []")
  case False
  assume l: "layout tp u xs fs"
  then have "\<forall>x\<in>set (xs @ fs). 0 < snd x \<and> tp \<le> fst x \<and> fst x + snd x \<le> u"
    by (force simp: layout_def dest: blocks_ok_bounds)
  then show ?thesis using covered_fits [of "xs @ fs" tp u] l False by (simp add: layout_def)
qed (simp add: layout_def)

text \<open>A block that is freed takes in its neighbours with the fragments between them.\<close>

definition absorb_next :: "int \<Rightarrow> interval list \<Rightarrow> int \<times> interval list" where
  "absorb_next e fs = (case fs of [] \<Rightarrow> (e, []) | (s, n) # fs' \<Rightarrow> if s \<le> e + 3 then (s + n, fs') else (e, fs))"

definition absorb_prev :: "int \<Rightarrow> interval list \<Rightarrow> int \<times> interval list" where
  "absorb_prev a fs = (if fs \<noteq> [] \<and> a \<le> fst (last fs) + snd (last fs) + 3 then (fst (last fs), butlast fs) else (a, fs))"

lemma layout_release:
  assumes l: "layout tp u (xs1 @ (a, m) # xs2) (fs1 @ fs2)"
    and fs1: "\<forall>x\<in>set fs1. fst x < a" and fs2: "\<forall>x\<in>set fs2. a \<le> fst x"
    and nxt: "absorb_next (a + m) fs2 = (e, rest)" and prv: "absorb_prev a fs1 = (start, init)"
  shows "start \<le> a" "a + m \<le> e" "e \<le> u" "4 \<le> m" "tp \<le> start"
    "start \<noteq> tp \<Longrightarrow> layout tp u (xs1 @ xs2) (init @ (start, e - start) # rest)"
    "start = tp \<Longrightarrow> fs1 = [] \<and> a = tp \<and> layout e u (xs1 @ xs2) rest"
proof -
  have m: "4 \<le> m" "tp \<le> a" "a + m \<le> u" using l by (auto simp: layout_def)
  have b: "blocks_ok (tp + 1) u (fs1 @ fs2)" using l by (simp add: layout_def)
  have ap: "\<And>x. x \<in> set (fs1 @ fs2) \<Longrightarrow> apart (a, m) x" using l by (auto simp: layout_def sorted_wrt_append)
  have above: "\<forall>x\<in>set fs2. a + m \<le> fst x"
    using fs2 ap b m by (force simp: apart_def dest: blocks_ok_bounds)
  have below: "\<forall>x\<in>set fs1. fst x + snd x \<le> a"
    using fs1 ap b m by (force simp: apart_def dest: blocks_ok_bounds)
  have e: "a + m \<le> e" "e \<le> u" "blocks_ok (e + 4) u rest"
    and e_rest: "set rest \<subseteq> set fs2"
    and e_cell: "\<And>x. 4 \<le> snd x \<Longrightarrow> apart x (a, m) \<Longrightarrow> (\<And>y. y \<in> set fs2 \<Longrightarrow> apart x y) \<Longrightarrow> apart x (a, e - a)"
  proof -
    have "a + m \<le> e \<and> e \<le> u \<and> blocks_ok (e + 4) u rest \<and> set rest \<subseteq> set fs2 \<and>
      (\<forall>x. 4 \<le> snd x \<longrightarrow> apart x (a, m) \<longrightarrow> (\<forall>y \<in> set fs2. apart x y) \<longrightarrow> apart x (a, e - a))"
      using nxt b above m
      by (auto simp: absorb_next_def blocks_ok_append apart_def split: list.splits if_splits intro: blocks_ok_weaken)
    then show "a + m \<le> e" "e \<le> u" "blocks_ok (e + 4) u rest" "set rest \<subseteq> set fs2"
      "\<And>x. 4 \<le> snd x \<Longrightarrow> apart x (a, m) \<Longrightarrow> (\<And>y. y \<in> set fs2 \<Longrightarrow> apart x y) \<Longrightarrow> apart x (a, e - a)" by blast+
  qed
  have p: "start \<le> a" "tp \<le> start" "start = tp \<Longrightarrow> fs1 = [] \<and> a = tp"
      "tp < start \<Longrightarrow> blocks_ok (tp + 1) u (init @ (start, e - start) # rest)"
    and p_init: "set init \<subseteq> set fs1"
    and p_cell: "\<And>x. 4 \<le> snd x \<Longrightarrow> apart x (a, e - a) \<Longrightarrow> (\<And>y. y \<in> set fs1 \<Longrightarrow> apart x y) \<Longrightarrow> apart x (start, e - start)"
  proof -
    have "start \<le> a \<and> tp \<le> start \<and> (start = tp \<longrightarrow> fs1 = [] \<and> a = tp) \<and>
      (tp < start \<longrightarrow> blocks_ok (tp + 1) u (init @ (start, e - start) # rest)) \<and> set init \<subseteq> set fs1 \<and>
      (\<forall>x. 4 \<le> snd x \<longrightarrow> apart x (a, e - a) \<longrightarrow> (\<forall>y\<in>set fs1. apart x y) \<longrightarrow> apart x (start, e - start))"
    proof (cases fs1 rule: rev_cases)
      case Nil
      then show ?thesis using prv m e by (auto simp: absorb_prev_def)
    next
      case (snoc ys y)
      obtain s n where y: "y = (s, n)" by fastforce
      have c: "blocks_ok (tp + 1) u (ys @ [(s, n)])" using b by (simp add: blocks_ok_append snoc y)
      then have sn: "tp + 1 \<le> s" "4 \<le> n" "s + n \<le> a"
        using below blocks_ok_bounds [OF c, of s n] by (auto simp: snoc y)
      show ?thesis
        using prv c sn m e by (auto simp: absorb_prev_def snoc y blocks_ok_append apart_def split: if_splits)
    qed
    then show "start \<le> a" "tp \<le> start" "start = tp \<Longrightarrow> fs1 = [] \<and> a = tp"
      "tp < start \<Longrightarrow> blocks_ok (tp + 1) u (init @ (start, e - start) # rest)" "set init \<subseteq> set fs1"
      "\<And>x. 4 \<le> snd x \<Longrightarrow> apart x (a, e - a) \<Longrightarrow> (\<And>y. y \<in> set fs1 \<Longrightarrow> apart x y) \<Longrightarrow> apart x (start, e - start)"
      by blast+
  qed
  show "start \<le> a" "a + m \<le> e" "e \<le> u" "4 \<le> m" "tp \<le> start" by (fact p e m)+
  have cells: "sorted_wrt apart (xs1 @ xs2)" "\<And>x. x \<in> set (xs1 @ xs2) \<Longrightarrow> tp \<le> fst x \<and> 4 \<le> snd x \<and> fst x + snd x \<le> u"
      "\<And>x. x \<in> set (xs1 @ xs2) \<Longrightarrow> apart x (a, m)" "\<And>x y. x \<in> set (xs1 @ xs2) \<Longrightarrow> y \<in> set (fs1 @ fs2) \<Longrightarrow> apart x y"
    using l by (auto simp: layout_def sorted_wrt_append apart_sym [of "(a, m)"])
  have block: "apart x (a, e - a)" "apart x (start, e - start)" if "x \<in> set (xs1 @ xs2)" for x
    using e_cell [OF _ cells(3) [OF that]] p_cell [of x] cells(2,4) [OF that] by auto
  show "start \<noteq> tp \<Longrightarrow> layout tp u (xs1 @ xs2) (init @ (start, e - start) # rest)"
  proof -
    assume "start \<noteq> tp"
    then have bl: "blocks_ok (tp + 1) u (init @ (start, e - start) # rest)" using p by simp
    moreover have "apart x y" if "x \<in> set (xs1 @ xs2)" "y \<in> set (init @ (start, e - start) # rest)" for x y
    proof -
      have "y = (start, e - start) \<or> y \<in> set (fs1 @ fs2)" using that(2) e_rest p_init by auto
      then show ?thesis using block(2) cells(4) that(1) by blast
    qed
    ultimately show ?thesis
      using cells(1,2) m blocks_apart [OF bl] unfolding layout_def sorted_wrt_append [of _ "xs1 @ xs2"] by auto
  qed
  show "start = tp \<Longrightarrow> fs1 = [] \<and> a = tp \<and> layout e u (xs1 @ xs2) rest"
  proof -
    assume "start = tp"
    then have at: "fs1 = []" "a = tp" using p by auto
    have bl: "blocks_ok (e + 1) u rest" using e(3) by (rule blocks_ok_weaken) auto
    moreover have "apart x y" if "x \<in> set (xs1 @ xs2)" "y \<in> set rest" for x y
      using that(2) e_rest by (intro cells(4) [OF that(1)]) auto
    moreover have "e \<le> fst x" if "x \<in> set (xs1 @ xs2)" for x
      using block(1) [OF that] cells(2) [OF that] at by (auto simp: apart_def)
    ultimately show ?thesis
      using cells(1,2) e at blocks_apart [OF bl] unfolding layout_def sorted_wrt_append [of _ "xs1 @ xs2"] by auto
  qed
qed

subsection \<open>Release\<close>

text \<open>
  The bytes \<open>d\<close> of a page have the layout of the cells \<open>cb\<close>, addresses with contents, and the free blocks \<open>fs\<close>: the
  header leads to the blocks, knows the start of the contents and counts the fragments.
\<close>

definition exts :: "(int \<times> u8 list) list \<Rightarrow> interval list" where
  "exts cb = map (\<lambda>(a, c). (a, int (length c))) cb"

lemma exts_simps [simp]: "exts [] = []" "exts ((a, c) # cb) = (a, int (length c)) # exts cb" "exts (xs @ ys) = exts xs @ exts ys"
  by (simp_all add: exts_def)

definition space_ok :: "BtShared \<Rightarrow> int \<Rightarrow> u8 list \<Rightarrow> int \<Rightarrow> (int \<times> u8 list) list \<Rightarrow> interval list \<Rightarrow> bool" where
  "space_ok b hdr d tp cb fs \<longleftrightarrow>
     get2byte d (hdr + 1) = head_ptr fs 0 \<and> chained d fs 0 \<and> layout tp (usableSize b) (exts cb) fs \<and>
     get2byteNotZero d (hdr + 5) = tp \<and> uint (peek d (hdr + 7)) = usableSize b - tp - covered (exts cb) - covered fs \<and>
     (\<forall>(a, c)\<in>set cb. slice d a (int (length c)) = c)"

definition room :: "BtShared \<Rightarrow> int \<Rightarrow> u8 list \<Rightarrow> int \<Rightarrow> bool" where
  "room b hdr d tp \<longleftrightarrow> 0 \<le> hdr \<and> hdr + 8 \<le> tp \<and> usableSize b \<le> int (length d) \<and> usableSize b \<le> 65536"

lemma free_seek_at:
  "blocks_ok lo u (fs1 @ fs2) \<Longrightarrow> z + 4 \<le> lo \<Longrightarrow> 0 \<le> z \<Longrightarrow> 0 < a \<Longrightarrow> get2byte d z = head_ptr (fs1 @ fs2) 0 \<Longrightarrow> chained d (fs1 @ fs2) 0 \<Longrightarrow>
   \<forall>x\<in>set fs1. fst x < a \<Longrightarrow> \<forall>x\<in>set fs2. a \<le> fst x \<Longrightarrow>
   free_seek d a z = Some (tail_ptr z fs1, head_ptr fs2 0)"
proof (induction fs1 arbitrary: z lo)
  case Nil
  then show ?case by (subst free_seek.simps) (cases fs2; auto simp: Let_def)
next
  case (Cons x fs1)
  obtain s n where x: "x = (s, n)" by fastforce
  have "free_seek d a s = Some (tail_ptr s fs1, head_ptr fs2 0)"
    by (rule Cons.IH [of "s + n + 4"]) (use Cons.prems in \<open>auto simp: x\<close>)
  then show ?case using Cons.prems by (subst free_seek.simps) (auto simp: x Let_def)
qed

lemma merge_next_at:
  assumes "chained d fs 0" "\<forall>x\<in>set fs. a + m \<le> fst x" "blocks_ok lo (usableSize b) fs" "0 < lo"
    and "absorb_next (a + m) fs = (e, rest)" "e - a < 65536" "a \<le> e"
  shows "merge_next b d a m (head_ptr fs 0) = Some (e - a - m - (covered fs - covered rest), e, e - a, head_ptr rest 0)"
    "0 \<le> e - a - m - (covered fs - covered rest)" "e - a - m - (covered fs - covered rest) \<le> 3"
  using assms by (cases fs; auto simp: absorb_next_def merge_next_def Let_def split: if_splits)+

lemma merge_prev_at:
  assumes "chained d fs x" "\<forall>x\<in>set fs. fst x + snd x \<le> a" "blocks_ok lo u fs" "hdr + 1 < lo"
    and "absorb_prev a fs = (start, init)" "e - start < 65536" "start \<le> e" "0 \<le> k" "k \<le> 3"
  shows "merge_prev d hdr (tail_ptr (hdr + 1) fs) a e (e - a) k = Some (k + (a - start - (covered fs - covered init)), e - start, start)"
proof (cases fs rule: rev_cases)
  case Nil
  then show ?thesis using assms by (auto simp: absorb_prev_def merge_prev_def)
next
  case (snoc ys y)
  obtain s n where y: "y = (s, n)" by fastforce
  have "lo \<le> s" "get2byte d (s + 2) = n" "s + n \<le> a"
    using assms(1-3) blocks_ok_bounds [of lo u fs s n] by (auto simp: snoc y chained_append)
  then show ?thesis using assms by (auto simp: snoc y absorb_prev_def merge_prev_def Let_def split: if_splits)
qed

lemma byte_sub: "0 \<le> k \<Longrightarrow> k \<le> uint w \<Longrightarrow> uint (w - word_of_int k) = uint w - k" for w :: u8
proof -
  assume k: "0 \<le> k" "k \<le> uint w"
  have "w - word_of_int k = word_of_int (uint w - k)" by (simp add: wi_hom_sub [symmetric])
  then have "uint (w - word_of_int k) = (uint w - k) mod 256" by (simp only: uint_word_of_int) simp
  moreover have "uint w < 256" using uint_lt2p [of w] by simp
  ultimately show ?thesis using k by simp
qed

lemma byte_add: "0 \<le> k \<Longrightarrow> uint w + k < 256 \<Longrightarrow> uint (w + word_of_int k) = uint w + k" for w :: u8
proof -
  assume k: "0 \<le> k" "uint w + k < 256"
  have "w + word_of_int k = word_of_int (uint w + k)" by (simp add: wi_hom_add [symmetric])
  then have "uint (w + word_of_int k) = (uint w + k) mod 256" by (simp only: uint_word_of_int) simp
  then show ?thesis using k by simp
qed

lemma free_merge_at:
  assumes s: "space_ok b hdr d tp (cb1 @ (a, c) # cb2) (fs1 @ fs2)" and r: "room b hdr d tp"
    and fs1: "\<forall>x\<in>set fs1. fst x < a" and fs2: "\<forall>x\<in>set fs2. a \<le> fst x"
    and nxt: "absorb_next (a + int (length c)) fs2 = (e, rest)" and prv: "absorb_prev a fs1 = (start, init)"
  defines "frag \<equiv> usableSize b - tp - covered (exts (cb1 @ cb2)) - covered init - (e - start) - covered rest"
  shows "free_merge b d hdr a (int (length c)) =
      Some (tail_ptr (hdr + 1) fs1, head_ptr rest 0, start, e - start, e, poke d (hdr + 7) (word_of_int frag))" (is ?merge)
    and "0 \<le> frag" "frag < 256"
proof -
  let ?m = "int (length c)"
  have l: "layout tp (usableSize b) (exts cb1 @ (a, ?m) # exts cb2) (fs1 @ fs2)" using s by (simp add: space_ok_def)
  note q = layout_release [OF l fs1 fs2 nxt prv]
  have bl: "blocks_ok (tp + 1) (usableSize b) (fs1 @ fs2)" using l by (simp add: layout_def)
  have ch: "chained d (fs1 @ fs2) 0" "chained d fs2 0" "chained d fs1 (head_ptr fs2 0)"
    and hd: "get2byte d (hdr + 1) = head_ptr (fs1 @ fs2) 0"
    using s by (simp_all add: space_ok_def chained_append)
  have cell: "4 \<le> ?m" "tp \<le> a" "a + ?m \<le> usableSize b" using l by (auto simp: layout_def)
  have u: "0 \<le> hdr" "hdr + 8 \<le> tp" "usableSize b \<le> 65536" "usableSize b \<le> int (length d)" using r by (auto simp: room_def)
  have ap: "\<And>x. x \<in> set (fs1 @ fs2) \<Longrightarrow> apart (a, ?m) x" using l by (auto simp: layout_def sorted_wrt_append)
  have above: "\<forall>x\<in>set fs2. a + ?m \<le> fst x"
    using fs2 ap bl cell by (force simp: apart_def dest: blocks_ok_bounds)
  have below: "\<forall>x\<in>set fs1. fst x + snd x \<le> a"
    using fs1 ap bl cell by (force simp: apart_def dest: blocks_ok_bounds)
  have bl2: "blocks_ok (tp + 1) (usableSize b) fs2" "blocks_ok (tp + 1) (usableSize b) fs1"
    using bl blocks_ok_bounds [of "tp + 1" "usableSize b" fs1 "fst (last fs1)" "snd (last fs1)"]
    by (auto simp: blocks_ok_append elim!: blocks_ok_weaken split: if_splits)
  define k where "k = e - a - ?m - (covered fs2 - covered rest)"
  have n: "merge_next b d a ?m (head_ptr fs2 0) = Some (k, e, e - a, head_ptr rest 0)" "0 \<le> k" "k \<le> 3"
    using merge_next_at [OF ch(2) above bl2(1) _ nxt] q u cell by (simp_all add: k_def)
  note p = merge_prev_at [OF ch(3) below bl2(2) _ prv, of hdr e k]
  define k2 where "k2 = k + (a - start - (covered fs1 - covered init))"
  have f: "uint (peek d (hdr + 7)) = frag + k2"
    using s by (simp add: space_ok_def frag_def k2_def k_def)
  show f0: "0 \<le> frag"
    using layout_covered [OF q(6)] layout_covered [OF conjunct2 [OF conjunct2 [OF q(7)]]] q(7) prv
    by (cases "start = tp") (auto simp: frag_def absorb_prev_def)
  have k: "0 \<le> k2"
    unfolding k2_def using n(2) prv q(1) below by (auto simp: absorb_prev_def split: if_splits) (cases fs1 rule: rev_cases; auto)+
  then have lt: "frag < 256" "k2 \<le> uint (peek d (hdr + 7))" using f f0 uint_lt2p [of "peek d (hdr + 7)"] by simp_all
  then show "frag < 256" by simp
  have w: "peek d (hdr + 7) - word_of_int k2 = word_of_int frag"
    using f by (metis diff_add_cancel add_diff_cancel_right' word_uint_eqI wi_hom_sub word_of_int_uint)
  show ?merge
  proof (cases "fs1 @ fs2 = []")
    case True
    then have "get2byte d (hdr + 1) = 0" using hd by simp
    then have "peek d (hdr + 1) = 0" "peek d (hdr + 1 + 1) = 0" by (simp_all add: get2byte_0)
    moreover have "d = poke d (hdr + 7) (word_of_int frag)"
    proof -
      have "uint (peek d (hdr + 7)) = frag" using f True nxt prv by (auto simp: absorb_next_def absorb_prev_def k2_def k_def)
      then have "peek d (hdr + 7) = word_of_int frag" by (metis word_of_int_uint)
      then show ?thesis by (simp add: poke_same)
    qed
    ultimately show ?thesis using True nxt prv by (simp add: free_merge_def absorb_next_def absorb_prev_def)
  next
    case False
    then have hp: "head_ptr (fs1 @ fs2) 0 \<noteq> 0"
      using bl u by (cases "fs1 @ fs2") auto
    have "(peek d (hdr + 1 + 1) = 0 \<and> peek d (hdr + 1) = 0) = False"
      using hp hd get2byte_0 [of d "hdr + 1"] by auto
    moreover have "free_seek d a (hdr + 1) = Some (tail_ptr (hdr + 1) fs1, head_ptr fs2 0)"
      using free_seek_at [OF bl _ _ _ hd ch(1) fs1 fs2] u cell by simp
    moreover have "\<not> usableSize b - 4 < head_ptr fs2 0"
      using bl2(1) u cell by (cases fs2) auto
    moreover note n(1)
    moreover have "merge_prev d hdr (tail_ptr (hdr + 1) fs1) a e (e - a) k = Some (k2, e - start, start)"
      using p n q u by (simp add: k2_def)
    ultimately show ?thesis using lt(2) unfolding free_merge_def w [symmetric] by (simp only: if_False) simp
  qed
qed

lemma uint_byte: "0 \<le> k \<Longrightarrow> k < 256 \<Longrightarrow> uint (word_of_int k :: u8) = k"
  by (simp add: uint_word_of_int)

lemma chained_frame:
  assumes "chained d fs e" "\<And>j. j \<notin> W \<Longrightarrow> peek d' j = peek d j"
    and "\<And>s n. (s, n) \<in> set fs \<Longrightarrow> s \<notin> W \<and> s + 1 \<notin> W \<and> s + 2 \<notin> W \<and> s + 3 \<notin> W"
  shows "chained d' fs e"
proof -
  have "get2byte d' s = get2byte d s \<and> get2byte d' (s + 2) = get2byte d (s + 2)" if "(s, n) \<in> set fs" for s n
    using assms(3) [OF that] by (auto simp: add.assoc intro!: get2byte_cong assms(2))
  then show ?thesis using chained_cong [of fs d' d e] assms(1) by blast
qed

lemma contents_frame:
  assumes "\<forall>(a, c)\<in>set cb. slice d a (int (length c)) = c" "\<And>j. j \<notin> W \<Longrightarrow> peek d' j = peek d j"
    and "\<And>a m j. (a, m) \<in> set (exts cb) \<Longrightarrow> a \<le> j \<Longrightarrow> j < a + m \<Longrightarrow> j \<notin> W"
  shows "\<forall>(a, c)\<in>set cb. slice d' a (int (length c)) = c"
proof (intro ballI, clarify)
  fix a c assume c: "(a, c) \<in> set cb"
  then have x: "(a, int (length c)) \<in> set (exts cb)" by (auto simp: exts_def)
  have "slice d' a (int (length c)) = slice d a (int (length c))"
    using assms(2) assms(3) [OF x] by (intro slice_cong) blast
  then show "slice d' a (int (length c)) = c" using assms(1) c by auto
qed

text \<open>The writes at the end of a release.\<close>

definition link_block :: "bool \<Rightarrow> u8 list \<Rightarrow> int \<Rightarrow> int \<Rightarrow> int \<Rightarrow> u8 list" where
  "link_block secure d s n e =
     put2byte (put2byte (if secure then memset d s 0 n else d) s e) (s + 2) n"

lemma link_block:
  assumes "0 \<le> s" "4 \<le> n" "s + n \<le> int (length d)" "0 \<le> e" "e < 65536" "n < 65536"
  shows "get2byte (link_block secure d s n e) s = e" "get2byte (link_block secure d s n e) (s + 2) = n"
    "\<And>j. j < s \<or> s + n \<le> j \<Longrightarrow> peek (link_block secure d s n e) j = peek d j" "length (link_block secure d s n e) = length d"
proof -
  let ?d = "if secure then memset d s 0 n else d"
  have l: "length ?d = length d" by simp
  show "get2byte (link_block secure d s n e) (s + 2) = n"
    using assms l by (simp add: link_block_def get2byte_put2byte)
  have "get2byte (put2byte (put2byte ?d s e) (s + 2) n) s = get2byte (put2byte ?d s e) s"
    by (rule get2byte_put2byte_other) simp
  then show "get2byte (link_block secure d s n e) s = e"
    using assms l by (simp add: link_block_def get2byte_put2byte)
  show "peek (link_block secure d s n e) j = peek d j" if "j < s \<or> s + n \<le> j" for j
  proof -
    have "peek (link_block secure d s n e) j = peek ?d j"
      unfolding link_block_def using that assms(2) by (subst peek_put2byte_other, linarith, subst peek_put2byte_other, linarith) simp
    then show ?thesis using that by (auto simp: peek_memset)
  qed
qed (simp add: link_block_def)

text \<open>Releasing the first cell moves the start of the contents.\<close>

lemma release_top:
  fixes secure :: bool
  assumes s: "get2byteNotZero d (hdr + 5) = tp" and l: "layout e (usableSize b) (exts cb) rest" and ch: "chained d rest 0"
    and room: "room b hdr d tp" and e: "tp + 4 \<le> e"
    and frag: "frag = usableSize b - e - covered (exts cb) - covered rest" "0 \<le> frag" "frag < 256"
    and ct: "\<forall>(a, c)\<in>set cb. slice d a (int (length c)) = c"
  defines "d1 \<equiv> poke d (hdr + 7) (word_of_int frag)"
  defines "d' \<equiv> link_block secure (put2byte (put2byte d1 (hdr + 1) (head_ptr rest 0)) (hdr + 5) e) tp (e - tp) (head_ptr rest 0)"
  shows "space_ok b hdr d' e cb rest"
    "\<And>j. j < tp \<Longrightarrow> j \<notin> {hdr + 1, hdr + 2, hdr + 5, hdr + 6, hdr + 7} \<Longrightarrow> peek d' j = peek d j"
proof -
  have u: "0 \<le> hdr" "hdr + 8 \<le> tp" "usableSize b \<le> 65536" "usableSize b \<le> int (length d)" using room by (auto simp: room_def)
  have e2: "e \<le> usableSize b" using l by (simp add: layout_def)
  have hp: "0 \<le> head_ptr rest 0" "head_ptr rest 0 < 65536"
    using l u e by (cases rest; auto simp: layout_def)+
  let ?d2 = "put2byte (put2byte d1 (hdr + 1) (head_ptr rest 0)) (hdr + 5) e"
  have len: "length ?d2 = length d" "length d1 = length d" by (simp_all add: d1_def)
  note k = link_block [where s = tp and n = "e - tp" and d = ?d2 and e = "head_ptr rest 0" and secure = secure, folded d'_def]
  have kk: "\<And>j. j < tp \<or> e \<le> j \<Longrightarrow> peek d' j = peek ?d2 j" using k(3) u e e2 hp len by simp
  let ?W = "{hdr + 1, hdr + 2, hdr + 5, hdr + 6, hdr + 7} \<union> {tp..<e}"
  have fr: "peek d' j = peek d j" if "j \<notin> ?W" for j
  proof -
    have "peek d' j = peek ?d2 j" using kk that by force
    also have "\<dots> = peek d1 j" using that by (simp add: peek_put2byte_neq)
    finally show ?thesis using that by (simp add: d1_def)
  qed
  then show "\<And>j. j < tp \<Longrightarrow> j \<notin> {hdr + 1, hdr + 2, hdr + 5, hdr + 6, hdr + 7} \<Longrightarrow> peek d' j = peek d j" by auto
  have "get2byte d' (hdr + 1) = get2byte ?d2 (hdr + 1)" using u by (intro get2byte_cong kk) auto
  also have "\<dots> = get2byte (put2byte d1 (hdr + 1) (head_ptr rest 0)) (hdr + 1)" by (rule get2byte_put2byte_other) simp
  also have "\<dots> = head_ptr rest 0" using u e e2 hp len by (simp add: get2byte_put2byte)
  finally have h1: "get2byte d' (hdr + 1) = head_ptr rest 0" .
  have "get2byteNotZero d' (hdr + 5) = get2byteNotZero ?d2 (hdr + 5)"
    unfolding get2byteNotZero_def using u by (subst get2byte_cong [OF kk kk]) auto
  also have "\<dots> = e" using u e e2 len by (intro NotZero) auto
  finally have h5: "get2byteNotZero d' (hdr + 5) = e" .
  have "peek d' (hdr + 7) = peek ?d2 (hdr + 7)" using u by (intro kk) auto
  also have "\<dots> = peek d1 (hdr + 7)" by (simp add: peek_put2byte_neq)
  also have "\<dots> = word_of_int frag" using u e e2 by (simp add: d1_def peek_poke)
  finally have h7: "uint (peek d' (hdr + 7)) = frag" using frag(2,3) by (simp only: uint_byte)
  have bl: "blocks_ok (e + 1) (usableSize b) rest" using l by (simp add: layout_def)
  have "chained d' rest 0"
  proof (rule chained_frame [where W = ?W, OF ch fr])
    fix s n assume "(s, n) \<in> set rest"
    then have "e + 1 \<le> s" using blocks_ok_bounds [OF bl] by blast
    then show "s \<notin> ?W \<and> s + 1 \<notin> ?W \<and> s + 2 \<notin> ?W \<and> s + 3 \<notin> ?W" using u e by auto
  qed
  moreover have "\<forall>(a, c)\<in>set cb. slice d' a (int (length c)) = c"
  proof (rule contents_frame [where W = ?W, OF ct fr])
    fix a m j assume "(a, m) \<in> set (exts cb)" "a \<le> j" "j < a + m"
    then have "e \<le> j" using l by (force simp: layout_def)
    then show "j \<notin> ?W" using u e by auto
  qed
  ultimately show "space_ok b hdr d' e cb rest"
    using h1 h5 h7 l frag by (simp add: space_ok_def)
qed

text \<open>Any other cell becomes a free block, with the free blocks next to it.\<close>

lemma release_block:
  fixes secure :: bool
  assumes s: "get2byteNotZero d (hdr + 5) = tp" "get2byte d (hdr + 1) = head_ptr (fs1 @ fs2) 0" and ch: "chained d (fs1 @ fs2) 0"
    and l: "layout tp (usableSize b) (exts cb) (init @ (start, e - start) # rest)" and old: "blocks_ok (tp + 1) (usableSize b) (fs1 @ fs2)"
    and room: "room b hdr d tp" and e: "tp < start" "start + 4 \<le> e"
    and part: "rest = fs2 \<or> (\<exists>x. fs2 = x # rest)" "fs1 = init \<and> start \<notin> fst ` set fs1 \<or> (\<exists>n. fs1 = init @ [(start, n)])"
    and frag: "frag = usableSize b - tp - covered (exts cb) - covered init - (e - start) - covered rest" "0 \<le> frag" "frag < 256"
    and ct: "\<forall>(a, c)\<in>set cb. slice d a (int (length c)) = c"
    and cells: "\<And>a m s n. (a, m) \<in> set (exts cb) \<Longrightarrow> (s, n) \<in> set fs1 \<Longrightarrow> apart (a, m) (s, n)"
  defines "d1 \<equiv> poke d (hdr + 7) (word_of_int frag)"
  defines "d' \<equiv> link_block secure (put2byte d1 (tail_ptr (hdr + 1) fs1) start) start (e - start) (head_ptr rest 0)"
  shows "space_ok b hdr d' tp cb (init @ (start, e - start) # rest)"
    "\<And>j. j < tp \<Longrightarrow> j \<notin> {hdr + 1, hdr + 2, hdr + 5, hdr + 6, hdr + 7} \<Longrightarrow> peek d' j = peek d j"
proof -
  let ?z = "tail_ptr (hdr + 1) fs1"
  have u: "0 \<le> hdr" "hdr + 8 \<le> tp" "usableSize b \<le> 65536" "usableSize b \<le> int (length d)" using room by (auto simp: room_def)
  have bl: "blocks_ok (tp + 1) (usableSize b) (init @ (start, e - start) # rest)" using l by (simp add: layout_def)
  have e2: "e \<le> usableSize b" using blocks_ok_bounds [OF bl, of start "e - start"] by simp
  have rs: "e + 4 \<le> s \<and> 4 \<le> n \<and> s + n \<le> usableSize b" if "(s, n) \<in> set rest" for s n
    using bl that blocks_ok_bounds [of "e + 4" "usableSize b" rest s n] by (simp add: blocks_ok_append)
  have ini: "tp + 1 \<le> s \<and> 4 \<le> n \<and> s + 4 \<le> start" if "(s, n) \<in> set init" for s n
    using blocks_ok_bounds [OF bl, of s n] blocks_before [OF bl that] that by auto
  have hp: "0 \<le> head_ptr rest 0" "head_ptr rest 0 < 65536"
    using u e rs by (cases rest; force)+
  have z: "?z = hdr + 1 \<and> fs1 = [] \<or> ?z = start \<or> tp < ?z \<and> ?z + 4 \<le> start"
  proof (cases "fs1 = []")
    case False
    then have z: "?z = fst (last fs1)" "(fst (last fs1), snd (last fs1)) \<in> set fs1" by (simp_all add: tail_ptr_def)
    then show ?thesis using part(2) ini [of "fst (last fs1)" "snd (last fs1)"] by auto
  qed simp
  let ?d2 = "put2byte d1 ?z start"
  have len: "length ?d2 = length d" "length d1 = length d" by (simp_all add: d1_def)
  note k = link_block [where s = start and n = "e - start" and d = ?d2 and e = "head_ptr rest 0" and secure = secure, folded d'_def]
  have kk: "\<And>j. j < start \<or> e \<le> j \<Longrightarrow> peek d' j = peek ?d2 j" using k(3) u e e2 hp len by simp
  let ?W = "{hdr + 7, ?z, ?z + 1} \<union> {start..<e}"
  have fr: "peek d' j = peek d j" if "j \<notin> ?W" for j
  proof -
    have "peek d' j = peek ?d2 j" using kk that by force
    also have "\<dots> = peek d1 j" using that by (simp add: peek_put2byte_neq)
    finally show ?thesis using that by (simp add: d1_def)
  qed
  then show "\<And>j. j < tp \<Longrightarrow> j \<notin> {hdr + 1, hdr + 2, hdr + 5, hdr + 6, hdr + 7} \<Longrightarrow> peek d' j = peek d j" using z e by auto
  have z_start: "get2byte d' ?z = start" if "?z \<noteq> start"
  proof -
    have "get2byte d' ?z = get2byte ?d2 ?z" using that z u e by (intro get2byte_cong kk) auto
    also have "\<dots> = start" using that z u e e2 len by (auto simp: get2byte_put2byte)
    finally show ?thesis .
  qed
  have h1: "get2byte d' (hdr + 1) = head_ptr (init @ (start, e - start) # rest) 0"
  proof (cases "fs1 = []")
    case True
    then show ?thesis using z_start part(2) u e by auto
  next
    case False
    then have "get2byte d' (hdr + 1) = get2byte d (hdr + 1)" using z u e by (intro get2byte_cong fr) auto
    also have "\<dots> = head_ptr fs1 0" using s(2) False by (simp add: head_ptr_def)
    also have "\<dots> = head_ptr (init @ (start, e - start) # rest) 0" using part(2) False by (auto simp: head_ptr_def hd_append)
    finally show ?thesis .
  qed
  have h5: "get2byteNotZero d' (hdr + 5) = tp"
    unfolding get2byteNotZero_def s(1) [symmetric] using u z e by (subst get2byte_cong [OF fr fr]) auto
  have "peek d' (hdr + 7) = peek ?d2 (hdr + 7)" using u e by (intro kk) auto
  also have "\<dots> = peek d1 (hdr + 7)" using z u e by (intro peek_put2byte_neq) auto
  also have "\<dots> = word_of_int frag" using u e e2 by (simp add: d1_def peek_poke)
  finally have h7: "uint (peek d' (hdr + 7)) = frag" using frag(2,3) by (simp only: uint_byte)
  have ch2: "chained d fs2 0" "chained d fs1 (head_ptr fs2 0)" using ch by (simp_all add: chained_append)
  have "chained d rest 0" using ch2(1) part(1) by auto
  then have c_rest: "chained d' rest 0"
  proof (rule chained_frame [where W = ?W, OF _ fr])
    fix s n assume "(s, n) \<in> set rest"
    then show "s \<notin> ?W \<and> s + 1 \<notin> ?W \<and> s + 2 \<notin> ?W \<and> s + 3 \<notin> ?W" using rs [of s n] z u e by auto
  qed
  have inner: "chained d' xs y" if "chained d xs y" "set xs \<subseteq> set init" "\<And>s n. (s, n) \<in> set xs \<Longrightarrow> s + 4 \<le> ?z" for xs y
    using that(1)
  proof (rule chained_frame [where W = ?W, OF _ fr])
    fix s n assume "(s, n) \<in> set xs"
    then show "s \<notin> ?W \<and> s + 1 \<notin> ?W \<and> s + 2 \<notin> ?W \<and> s + 3 \<notin> ?W" using ini [of s n] that(2) that(3) [of s n] z u e by auto
  qed
  have c_init: "chained d' init start"
  proof (cases "\<exists>n. fs1 = init @ [(start, n)]")
    case True
    then obtain n where f: "fs1 = init @ [(start, n)]" by blast
    then have "chained d init start" using ch2(2) by (simp add: chained_append)
    then show ?thesis by (rule inner) (auto simp: f dest: ini)
  next
    case False
    then have f: "fs1 = init" using part(2) by blast
    show ?thesis
    proof (cases init rule: rev_cases)
      case (snoc ys y)
      obtain t n where y: "y = (t, n)" by fastforce
      have zt: "?z = t" by (simp add: f snoc y)
      have c: "chained d ys t" "get2byte d (t + 2) = n" using ch2(2) by (simp_all add: f snoc y chained_append)
      have tt: "tp < t" "t + 4 \<le> start" using ini [of t n] by (auto simp: snoc y)
      have "chained d' ys t"
        using c(1)
      proof (rule inner)
        fix s m assume sm: "(s, m) \<in> set ys"
        have o: "blocks_ok (tp + 1) (usableSize b) (ys @ (t, n) # fs2)" using old by (simp add: f snoc y)
        show "s + 4 \<le> ?z" using blocks_before [OF o sm] blocks_ok_bounds [OF o, of s m] sm by (simp add: zt)
      qed (simp add: f snoc subset_iff)
      moreover have "get2byte d' (t + 2) = n"
        unfolding c(2) [symmetric] using tt zt u by (intro get2byte_cong fr) auto
      moreover have "get2byte d' t = start" using z_start tt zt by simp
      ultimately show ?thesis by (simp add: snoc y chained_append)
    qed simp
  qed
  have "get2byte d' start = head_ptr rest 0" "get2byte d' (start + 2) = e - start"
    using k(1,2) u e e2 hp len by simp_all
  then have "chained d' (init @ (start, e - start) # rest) 0"
    using c_init c_rest by (simp add: chained_append)
  moreover have "\<forall>(a, c)\<in>set cb. slice d' a (int (length c)) = c"
  proof (rule contents_frame [where W = ?W, OF ct fr])
    fix a m j assume j: "(a, m) \<in> set (exts cb)" "a \<le> j" "j < a + m"
    then have "tp \<le> a" "apart (a, m) (start, e - start)" using l by (force simp: layout_def sorted_wrt_append)+
    moreover have "fs1 \<noteq> [] \<Longrightarrow> j < ?z \<or> ?z + 4 \<le> j"
    proof -
      assume "fs1 \<noteq> []"
      then have "(?z, snd (last fs1)) \<in> set fs1" by (simp add: tail_ptr_def)
      then show ?thesis using cells [OF j(1), of ?z "snd (last fs1)"] j blocks_ok_bounds [OF old, of ?z "snd (last fs1)"] by auto
    qed
    ultimately show "j \<notin> ?W" using u e z j by (cases "fs1 = []") auto
  qed
  ultimately show "space_ok b hdr d' tp cb (init @ (start, e - start) # rest)"
    using h1 h5 h7 l frag(1) by (simp add: space_ok_def)
qed

lemma dropWhile_above: "blocks_ok lo hi fs \<Longrightarrow> x \<in> set (dropWhile (\<lambda>x. fst x < a) fs) \<Longrightarrow> a \<le> fst x"
proof (induction lo hi fs rule: blocks_ok.induct)
  case (2 lo hi s n fs)
  then show ?case using blocks_ok_bounds [of "s + n + 4" hi fs "fst x" "snd x"] by (auto split: if_splits)
qed simp

lemma freeSpace_ok:
  assumes s: "space_ok b hdr (aData p) tp (cb1 @ (a, c) # cb2) fs" and room: "room b hdr (aData p) tp" and hdr: "hdrOffset p = hdr"
  obtains d' tp' fs' where "freeSpace b p a (int (length c)) = (SQLITE_OK, p\<lparr>aData := d', nFree := nFree p + int (length c)\<rparr>)"
    "length d' = length (aData p)" "tp \<le> tp'" "space_ok b hdr d' tp' (cb1 @ cb2) fs'"
    "\<And>j. j < tp \<Longrightarrow> j \<notin> {hdr + 1, hdr + 2, hdr + 5, hdr + 6, hdr + 7} \<Longrightarrow> peek d' j = peek (aData p) j"
proof -
  let ?d = "aData p" and ?m = "int (length c)"
  define fs1 fs2 where "fs1 = takeWhile (\<lambda>x. fst x < a) fs" and "fs2 = dropWhile (\<lambda>x. fst x < a) fs"
  have fs: "fs = fs1 @ fs2" by (simp add: fs1_def fs2_def)
  have l: "layout tp (usableSize b) (exts cb1 @ (a, ?m) # exts cb2) (fs1 @ fs2)" using s by (simp add: space_ok_def fs)
  have bl: "blocks_ok (tp + 1) (usableSize b) (fs1 @ fs2)" using l by (simp add: layout_def)
  have 1: "\<forall>x\<in>set fs1. fst x < a" by (auto simp: fs1_def dest: set_takeWhileD)
  have 2: "\<forall>x\<in>set fs2. a \<le> fst x" using dropWhile_above [OF bl [folded fs]] by (simp add: fs2_def)
  obtain e rest where nxt: "absorb_next (a + ?m) fs2 = (e, rest)" by fastforce
  obtain start init where prv: "absorb_prev a fs1 = (start, init)" by fastforce
  define frag where "frag = usableSize b - tp - covered (exts (cb1 @ cb2)) - covered init - (e - start) - covered rest"
  note m = free_merge_at [OF s [unfolded fs] room 1 2 nxt prv, folded frag_def]
  note q = layout_release [OF l 1 2 nxt prv]
  have u: "0 \<le> hdr" "hdr + 8 \<le> tp" "usableSize b \<le> 65536" "usableSize b \<le> int (length ?d)" using room by (auto simp: room_def)
  have ct: "\<forall>(a, c)\<in>set (cb1 @ cb2). slice ?d a (int (length c)) = c" using s by (simp add: space_ok_def)
  have hp: "get2byteNotZero ?d (hdr + 5) = tp" "get2byte ?d (hdr + 1) = head_ptr (fs1 @ fs2) 0" "chained ?d (fs1 @ fs2) 0"
    using s by (simp_all add: space_ok_def fs)
  let ?d1 = "poke ?d (hdr + 7) (word_of_int frag)"
  have "a + ?m \<le> usableSize b" "4 \<le> ?m" "tp \<le> a" using l by (auto simp: layout_def)
  then have tp: "get2byte ?d (hdr + 5) = tp"
    using NotZero_get(1) [of ?d "hdr + 5"] hp(1) u by (simp split: if_splits)
  have x: "get2byte ?d1 (hdr + 5) = tp"
    unfolding tp [symmetric] by (rule get2byte_cong) simp_all
  show ?thesis
  proof (cases "start = tp")
    case True
    note t = q(7) [OF True]
    let ?d' = "link_block (fast_secure b) (put2byte (put2byte ?d1 (hdr + 1) (head_ptr rest 0)) (hdr + 5) e) tp (e - tp) (head_ptr rest 0)"
    have f: "frag = usableSize b - e - covered (exts (cb1 @ cb2)) - covered rest"
      using prv t by (simp add: frag_def True absorb_prev_def)
    have c: "chained ?d rest 0"
      using hp(3) nxt by (auto simp: absorb_next_def chained_append split: list.splits if_splits)
    have "layout e (usableSize b) (exts (cb1 @ cb2)) rest" "tp + 4 \<le> e" using t q(2,4) by simp_all
    note r = release_top [OF hp(1) this(1) c room this(2) f m(2,3) ct, where secure = "fast_secure b"]
    have "freeSpace b p a ?m = (SQLITE_OK, p\<lparr>aData := ?d', nFree := nFree p + ?m\<rparr>)"
      using m(1) x t True by (simp add: freeSpace_def hdr link_block_def)
    then show ?thesis
      using r q(2,4) t by (intro that [of ?d' e rest]) (simp_all add: link_block_def)
  next
    case False
    let ?d' = "link_block (fast_secure b) (put2byte ?d1 (tail_ptr (hdr + 1) fs1) start) start (e - start) (head_ptr rest 0)"
    have part: "rest = fs2 \<or> (\<exists>x. fs2 = x # rest)"
      using nxt by (auto simp: absorb_next_def split: list.splits if_splits)
    have part': "fs1 = init \<and> start \<notin> fst ` set fs1 \<or> (\<exists>n. fs1 = init @ [(start, n)])"
    proof (cases fs1 rule: rev_cases)
      case (snoc ys y)
      obtain t n where "y = (t, n)" by fastforce
      then show ?thesis using prv 1 by (auto simp: absorb_prev_def snoc split: if_splits)
    qed (use prv in \<open>simp add: absorb_prev_def\<close>)
    have c: "\<And>x m s n. (x, m) \<in> set (exts (cb1 @ cb2)) \<Longrightarrow> (s, n) \<in> set fs1 \<Longrightarrow> apart (x, m) (s, n)"
      using l by (auto simp: layout_def sorted_wrt_append simp del: apart_simps)
    have st: "tp < start" "start + 4 \<le> e" "layout tp (usableSize b) (exts (cb1 @ cb2)) (init @ (start, e - start) # rest)"
      using q(1,2,4,5,6) False by simp_all
    note r = release_block [OF hp st(3) bl room st(1,2) part part' frag_def m(2,3) ct c, where secure = "fast_secure b"]
    have "freeSpace b p a ?m = (SQLITE_OK, p\<lparr>aData := ?d', nFree := nFree p + ?m\<rparr>)"
      using m(1) x st(1) by (simp add: freeSpace_def hdr link_block_def)
    then show ?thesis
      using r by (intro that [of ?d' tp "init @ (start, e - start) # rest"]) (simp_all add: link_block_def)
  qed
qed

subsection \<open>Allocation\<close>

lemma layout_shrink:
  assumes l: "layout tp u xs (ys @ (s, n) # zs)" and k: "0 \<le> k" "k \<le> n" "4 \<le> n - k"
  shows "layout tp u ((s + k, n - k) # xs) (ys @ zs)"
    "4 \<le> k \<Longrightarrow> layout tp u ((s + k, n - k) # xs) (ys @ (s, k) # zs)"
proof -
  have bl: "blocks_ok (tp + 1) u (ys @ (s, n) # zs)" using l by (simp add: layout_def)
  have sn: "tp + 1 \<le> s" "s + n \<le> u" using blocks_ok_bounds [OF bl, of s n] by auto
  have xs: "sorted_wrt apart xs" "\<And>x y. x \<in> set xs \<Longrightarrow> y \<in> set ys \<union> set zs \<union> {(s, n)} \<Longrightarrow> apart x y"
      "\<forall>x\<in>set xs. tp \<le> fst x \<and> 4 \<le> snd x \<and> fst x + snd x \<le> u" "tp \<le> u"
    using l by (auto simp: layout_def sorted_wrt_append simp del: apart_simps)
  have fs: "\<And>y. y \<in> set ys \<union> set zs \<Longrightarrow> apart (s, n) y" "sorted_wrt apart (ys @ zs)"
    using blocks_apart [OF bl] by (auto simp: sorted_wrt_append apart_sym [of "(s, n)"] simp del: apart_simps)
  have sub: "apart (s + k, n - k) y" "apart (s, k) y" if "apart (s, n) y" for y
    using that k by (auto simp: apart_def)
  have bl1: "blocks_ok (tp + 1) u (ys @ zs)"
    using bl by (auto simp: blocks_ok_append elim!: blocks_ok_weaken)
  have new: "apart (s + k, n - k) y" if "y \<in> set xs \<union> (set ys \<union> set zs)" for y
  proof (rule sub(1))
    show "apart (s, n) y" using that fs(1) xs(2) [of y "(s, n)"] apart_sym [of y "(s, n)"] by blast
  qed
  from new show "layout tp u ((s + k, n - k) # xs) (ys @ zs)"
    unfolding layout_def using bl1 xs fs k sn
    by (auto simp: sorted_wrt_append simp del: apart_simps)
  show "layout tp u ((s + k, n - k) # xs) (ys @ (s, k) # zs)" if "4 \<le> k"
  proof -
    have bl2: "blocks_ok (tp + 1) u (ys @ (s, k) # zs)"
      using bl that k by (auto simp: blocks_ok_append elim!: blocks_ok_weaken)
    have a: "apart x (s, k)" if "x \<in> set xs" for x
      using sub(2) [of x] xs(2) [OF that, of "(s, n)"] by (simp add: apart_sym [of x] del: apart_simps)
    have "sorted_wrt apart ((s + k, n - k) # xs @ ys @ (s, k) # zs)"
      unfolding sorted_wrt.simps sorted_wrt_append [of _ xs]
    proof (intro conjI ballI)
      fix y assume "y \<in> set (xs @ ys @ (s, k) # zs)"
      then show "apart (s + k, n - k) y"
        using new [of y] by auto
    qed (use xs a blocks_apart [OF bl2] in \<open>auto simp del: apart_simps\<close>)
    then show ?thesis
      unfolding layout_def using bl2 xs k sn by (auto simp del: apart_simps)
  qed
qed

lemma layout_gap: "layout tp u xs fs \<Longrightarrow> 4 \<le> n \<Longrightarrow> layout (tp - n) u ((tp - n, n) # xs) fs"
proof -
  assume l: "layout tp u xs fs" and n: "4 \<le> n"
  then have "blocks_ok (tp - n + 1) u fs" by (auto simp: layout_def elim: blocks_ok_weaken)
  moreover have "apart (tp - n, n) x" if "x \<in> set (xs @ fs)" for x
    using that l blocks_ok_bounds [of "tp + 1" u fs "fst x" "snd x"] by (auto simp: layout_def apart_def)
  moreover have "tp - n \<le> fst x" if "x \<in> set xs" for x
    using that l n by (force simp: layout_def)
  ultimately show ?thesis using l n by (auto simp: layout_def simp del: apart_simps)
qed

text \<open>The search finds the first block that is large enough, unless it would leave a fragment too many.\<close>

definition slot_result :: "int \<Rightarrow> u8 list \<Rightarrow> int \<Rightarrow> int \<Rightarrow> interval \<Rightarrow> int \<times> int option \<times> u8 list" where
  "slot_result hdr d nByte z x =
     (let (s, n) = x in
      (SQLITE_OK, Some (s + (n - nByte)),
       if n - nByte < 4
       then let d = blit d z (slice d s 2) in poke d (hdr + 7) (peek d (hdr + 7) + word_of_int (n - nByte))
       else put2byte d (s + 2) (n - nByte)))"

definition slot_ok :: "int \<Rightarrow> u8 list \<Rightarrow> int \<Rightarrow> int \<Rightarrow> interval list \<Rightarrow> int \<times> int option \<times> u8 list \<Rightarrow> bool" where
  "slot_ok hdr d nByte z fs r \<longleftrightarrow>
     (\<exists>ys x zs. fs = ys @ x # zs \<and> nByte \<le> snd x \<and> (snd x - nByte < 4 \<longrightarrow> uint (peek d (hdr + 7)) \<le> 57) \<and>
        r = slot_result hdr d nByte (tail_ptr z ys) x)"

lemma find_slot_at:
  assumes "blocks_ok lo (usableSize b) fs" "0 < lo" "4 \<le> nByte" "fs \<noteq> []" "chained d fs 0"
  shows "find_slot b hdr d nByte z (head_ptr fs 0) = (SQLITE_OK, None, d) \<or>
    slot_ok hdr d nByte z fs (find_slot b hdr d nByte z (head_ptr fs 0))"
  using assms
proof (induction fs arbitrary: z lo)
  case (Cons x fs)
  obtain s n where x: "x = (s, n)" by fastforce
  have sn: "lo \<le> s" "4 \<le> n" "s + n \<le> usableSize b" "get2byte d s = head_ptr fs 0" "get2byte d (s + 2) = n"
    "blocks_ok (s + n + 4) (usableSize b) fs" "chained d fs 0"
    using Cons.prems by (simp_all add: x)
  note step = find_slot.simps [of b hdr d nByte z s]
  consider "usableSize b - nByte < s" | "s \<le> usableSize b - nByte" "nByte \<le> n" | "s \<le> usableSize b - nByte" "n < nByte" by linarith
  then show ?case
  proof cases
    case 1
    then have "find_slot b hdr d nByte z s = (SQLITE_OK, None, d)"
      using sn by (subst step) (simp add: Let_def)
    then show ?thesis by (simp add: x)
  next
    case 2
    have w: "57 < peek d (hdr + 7) \<longleftrightarrow> \<not> uint (peek d (hdr + 7)) \<le> 57" by (simp add: word_less_alt not_le)
    have "find_slot b hdr d nByte z s =
        (if n - nByte < 4 \<and> \<not> uint (peek d (hdr + 7)) \<le> 57 then (SQLITE_OK, None, d) else slot_result hdr d nByte z (s, n))"
      using 2 sn by (subst step) (simp add: Let_def w slot_result_def)
    then show ?thesis
      using 2 unfolding slot_ok_def by (cases "n - nByte < 4 \<and> \<not> uint (peek d (hdr + 7)) \<le> 57") (simp_all add: x, fastforce+)
  next
    case 3
    show ?thesis
    proof (cases "fs = []")
      case True
      then have "find_slot b hdr d nByte z s = (SQLITE_OK, None, d)"
        using 3 sn Cons.prems(2) by (subst step) (simp add: Let_def)
      then show ?thesis by (simp add: x)
    next
      case more: False
      have h: "s + n < head_ptr fs 0" using more sn(6) by (cases fs) auto
      have f: "find_slot b hdr d nByte z s = find_slot b hdr d nByte s (head_ptr fs 0)"
        using 3 sn(4,5) h by (subst step) (simp add: Let_def)
      have "slot_ok hdr d nByte z ((s, n) # fs) r" if "slot_ok hdr d nByte s fs r" for r
      proof -
        from that obtain ys y zs where "fs = ys @ y # zs" "nByte \<le> snd y" "snd y - nByte < 4 \<longrightarrow> uint (peek d (hdr + 7)) \<le> 57"
          "r = slot_result hdr d nByte (tail_ptr s ys) y" by (auto simp: slot_ok_def)
        then show ?thesis unfolding slot_ok_def by (intro exI [of _ "(s, n) # ys"] exI [of _ y] exI [of _ zs]) simp
      qed
      then show ?thesis using Cons.IH [OF sn(6) _ Cons.prems(3) more sn(7), of s] sn(1,2) Cons.prems(2)
        unfolding x ptr_simps f by (metis add_pos_nonneg less_le_trans order.strict_trans2 zero_less_numeral add_strict_increasing2 le_less_trans less_imp_le)
    qed
  qed
qed simp

text \<open>The block found is unlinked or shortened; its end belongs to the new cell.\<close>

lemma unlink_block:
  assumes bl: "blocks_ok (tp + 1) u (ys @ (s, n) # zs)" and u: "0 \<le> hdr" "hdr + 8 \<le> tp"
    and ch: "get2byte d (hdr + 1) = head_ptr (ys @ (s, n) # zs) 0" "chained d (ys @ (s, n) # zs) 0"
    and fr: "\<And>j. j \<notin> {tail_ptr (hdr + 1) ys, tail_ptr (hdr + 1) ys + 1, hdr + 7} \<Longrightarrow> peek d' j = peek d j"
    and new: "get2byte d' (tail_ptr (hdr + 1) ys) = head_ptr zs 0"
  shows "get2byte d' (hdr + 1) = head_ptr (ys @ zs) 0 \<and> chained d' (ys @ zs) 0"
proof -
  let ?z = "tail_ptr (hdr + 1) ys"
  let ?W = "{?z, ?z + 1, hdr + 7}"
  have y_in: "tp + 1 \<le> t" if "(t, m) \<in> set ys" for t m using blocks_ok_bounds [OF bl, of t m] that by auto
  have z_in: "s + n + 4 \<le> t" if "(t, m) \<in> set zs" for t m
    using bl that blocks_ok_bounds [of "s + n + 4" u zs t m] by (simp add: blocks_ok_append)
  have sn: "4 \<le> n" using blocks_ok_bounds [OF bl, of s n] by simp
  have ch2: "chained d zs 0" "chained d ys s" using ch(2) by (simp_all add: chained_append)
  show ?thesis
  proof (cases ys rule: rev_cases)
    case Nil
    have "chained d' zs 0"
    proof (rule chained_frame [where W = ?W, OF ch2(1) fr])
      fix t m assume "(t, m) \<in> set zs"
      then show "t \<notin> ?W \<and> t + 1 \<notin> ?W \<and> t + 2 \<notin> ?W \<and> t + 3 \<notin> ?W"
        using z_in [of t m] sn blocks_ok_bounds [OF bl, of s n] u Nil by auto
    qed
    then show ?thesis using new by (simp add: Nil)
  next
    case (snoc xs y)
    obtain t m where y: "y = (t, m)" by fastforce
    have zt: "?z = t" by (simp add: snoc y)
    have t: "tp < t" "t + m + 4 \<le> s" "4 \<le> m"
      using blocks_ok_bounds [OF bl, of t m] blocks_before [OF bl, of t m] by (simp_all add: snoc y)
    have "chained d' zs 0"
    proof (rule chained_frame [where W = ?W, OF ch2(1) fr])
      fix r k assume "(r, k) \<in> set zs"
      then show "r \<notin> ?W \<and> r + 1 \<notin> ?W \<and> r + 2 \<notin> ?W \<and> r + 3 \<notin> ?W"
        using z_in [of r k] sn t zt u by auto
    qed
    moreover have "chained d xs t" using ch2(2) by (simp add: snoc y chained_append)
    then have "chained d' xs t"
    proof (rule chained_frame [where W = ?W, OF _ fr])
      fix r k assume r: "(r, k) \<in> set xs"
      have "blocks_ok (tp + 1) u (xs @ (t, m) # (s, n) # zs)" using bl by (simp add: snoc y)
      then have "r + k + 4 \<le> t" "4 \<le> k" "tp + 1 \<le> r"
        using blocks_before [of "tp + 1" u xs t m _ r k] blocks_ok_bounds [of "tp + 1" u _ r k] r by fastforce+
      then show "r \<notin> ?W \<and> r + 1 \<notin> ?W \<and> r + 2 \<notin> ?W \<and> r + 3 \<notin> ?W" using zt u by auto
    qed
    moreover have "get2byte d' (t + 2) = m"
    proof -
      have "get2byte d (t + 2) = m" using ch(2) by (simp add: snoc y chained_append)
      moreover have "get2byte d' (t + 2) = get2byte d (t + 2)" using t zt u by (intro get2byte_cong fr) auto
      ultimately show ?thesis by simp
    qed
    moreover have "get2byte d' (hdr + 1) = get2byte d (hdr + 1)" using t zt u by (intro get2byte_cong fr) auto
    ultimately show ?thesis using new zt ch(1) by (simp add: snoc y chained_append) (simp add: head_ptr_def hd_append)
  qed
qed

lemma slot_space:
  assumes s: "space_ok b hdr d tp cb fs" and room: "room b hdr d tp" and n: "4 \<le> nByte"
    and slot: "slot_ok hdr d nByte (hdr + 1) fs r"
  obtains g d' fs' where "r = (SQLITE_OK, Some g, d')" "tp < g" "g + nByte \<le> usableSize b" "length d' = length d"
    "space_ok b hdr d' tp ((g, slice d' g nByte) # cb) fs'"
    "\<And>j. j < tp \<Longrightarrow> j \<notin> {hdr + 1, hdr + 2, hdr + 7} \<Longrightarrow> peek d' j = peek d j"
proof -
  have u: "0 \<le> hdr" "hdr + 8 \<le> tp" "usableSize b \<le> 65536" "usableSize b \<le> int (length d)" using room by (auto simp: room_def)
  obtain ys x zs where sl: "fs = ys @ x # zs" "nByte \<le> snd x" "snd x - nByte < 4 \<longrightarrow> uint (peek d (hdr + 7)) \<le> 57"
    "r = slot_result hdr d nByte (tail_ptr (hdr + 1) ys) x" using slot by (auto simp: slot_ok_def)
  obtain st m where x: "x = (st, m)" by fastforce
  let ?k = "m - nByte"
  note k = sl(2) [unfolded x snd_conv]
  have l: "layout tp (usableSize b) (exts cb) (ys @ (st, m) # zs)" using s sl(1) by (simp add: space_ok_def x)
  then have bl: "blocks_ok (tp + 1) (usableSize b) (ys @ (st, m) # zs)" by (simp add: layout_def)
  have sn: "tp < st" "4 \<le> m" "st + m \<le> usableSize b" using blocks_ok_bounds [OF bl, of st m] by auto
  have ch: "get2byte d (hdr + 1) = head_ptr (ys @ (st, m) # zs) 0" "chained d (ys @ (st, m) # zs) 0"
    and frag: "uint (peek d (hdr + 7)) = usableSize b - tp - covered (exts cb) - covered fs"
    and top: "get2byteNotZero d (hdr + 5) = tp" and ct: "\<forall>(a, c)\<in>set cb. slice d a (int (length c)) = c"
    using s sl(1) by (simp_all add: space_ok_def x)
  have cells: "\<And>a c. (a, c) \<in> set (exts cb) \<Longrightarrow> tp \<le> a \<and> (\<forall>y\<in>set (ys @ (st, m) # zs). apart (a, c) y)"
    using l by (force simp: layout_def sorted_wrt_append simp del: apart_simps)
  let ?z = "tail_ptr (hdr + 1) ys"
  have z: "?z = hdr + 1 \<or> tp < ?z \<and> ?z + 4 \<le> st \<and> (?z, snd (last ys)) \<in> set ys"
    using blocks_ok_bounds [OF bl, of ?z "snd (last ys)"] blocks_before [OF bl, of ?z "snd (last ys)"]
    by (cases "ys = []") (auto simp: tail_ptr_def)
  show ?thesis
  proof (cases "?k < 4")
    case True
    let ?d1 = "blit d ?z (slice d st 2)"
    let ?d' = "poke ?d1 (hdr + 7) (peek ?d1 (hdr + 7) + word_of_int ?k)"
    let ?W = "{?z, ?z + 1, hdr + 7}"
    have fr: "peek ?d' j = peek d j" if "j \<notin> ?W" for j using that by (auto simp: peek_blit)
    have z2: "peek ?d' ?z = peek d st" "peek ?d' (?z + 1) = peek d (st + 1)"
      using z u sn by (auto simp: peek_blit nth_slice)
    have "get2byte ?d' ?z = get2byte d st" unfolding get2byte_def z2 ..
    also have "\<dots> = head_ptr zs 0" using ch(2) by (simp add: chained_append)
    finally have c: "get2byte ?d' (hdr + 1) = head_ptr (ys @ zs) 0 \<and> chained ?d' (ys @ zs) 0"
      using unlink_block [OF bl u(1,2) ch fr] by blast
    have "peek ?d1 (hdr + 7) = peek d (hdr + 7)" using z u by (auto simp: peek_blit)
    then have p: "peek ?d' (hdr + 7) = peek d (hdr + 7) + word_of_int ?k" using u sn by (simp add: peek_poke)
    have f: "uint (peek ?d' (hdr + 7)) = uint (peek d (hdr + 7)) + ?k"
      unfolding p using k True sl(3) by (intro byte_add) (auto simp: x)
    have t: "get2byteNotZero ?d' (hdr + 5) = tp"
      unfolding top [symmetric] get2byteNotZero_def using z u by (subst get2byte_cong [OF fr fr]) auto
    have ct': "\<forall>(a, c)\<in>set cb. slice ?d' a (int (length c)) = c"
    proof (rule contents_frame [where W = ?W, OF ct fr])
      fix a c j assume j: "(a, c) \<in> set (exts cb)" "a \<le> j" "j < a + c"
      show "j \<notin> ?W"
      proof (cases "?z = hdr + 1")
        case True
        then show ?thesis using cells [OF j(1)] j u by auto
      next
        case False
        then have zi: "(?z, snd (last ys)) \<in> set ys" using z by blast
        then have "apart (a, c) (?z, snd (last ys))" using cells [OF j(1)] by fastforce
        then show ?thesis using cells [OF j(1)] blocks_ok_bounds [OF bl, of ?z "snd (last ys)"] zi j u by auto
      qed
    qed
    have "layout tp (usableSize b) ((st + ?k, m - ?k) # exts cb) (ys @ zs)" by (rule layout_shrink(1) [OF l]) (use k n in auto)
    then have "space_ok b hdr ?d' tp ((st + ?k, slice ?d' (st + ?k) nByte) # cb) (ys @ zs)"
      using c t f frag ct' n by (simp add: space_ok_def sl(1) x)
    moreover have "r = (SQLITE_OK, Some (st + ?k), ?d')" using True by (simp add: sl(4) x slot_result_def Let_def)
    moreover have "\<And>j. j < tp \<Longrightarrow> j \<notin> {hdr + 1, hdr + 2, hdr + 7} \<Longrightarrow> peek ?d' j = peek d j" using z by (intro fr) auto
    ultimately show ?thesis using sn k by (intro that [of "st + ?k" ?d' "ys @ zs"]) auto
  next
    case False
    let ?d' = "put2byte d (st + 2) ?k"
    let ?W = "{st + 2, st + 3}"
    have fr: "peek ?d' j = peek d j" if "j \<notin> ?W" for j using that by (simp add: peek_put2byte_neq)
    have "chained ?d' zs 0"
    proof (rule chained_frame [where W = ?W, OF _ fr])
      show "chained d zs 0" using ch(2) by (simp add: chained_append)
      fix t c assume "(t, c) \<in> set zs"
      then show "t \<notin> ?W \<and> t + 1 \<notin> ?W \<and> t + 2 \<notin> ?W \<and> t + 3 \<notin> ?W"
        using blocks_distinct [OF bl, of t c] sn by auto
    qed
    moreover have "chained ?d' ys st"
    proof (rule chained_frame [where W = ?W, OF _ fr])
      show "chained d ys st" using ch(2) by (simp add: chained_append)
      fix t c assume "(t, c) \<in> set ys"
      then show "t \<notin> ?W \<and> t + 1 \<notin> ?W \<and> t + 2 \<notin> ?W \<and> t + 3 \<notin> ?W"
        using blocks_distinct [OF bl, of t c] sn by auto
    qed
    moreover have "get2byte ?d' (st + 2) = ?k" using sn u k n by (subst get2byte_put2byte) auto
    moreover have "get2byte ?d' st = head_ptr zs 0"
      using ch(2) get2byte_put2byte_other [of st "st + 2" d ?k] by (simp add: chained_append)
    ultimately have c: "chained ?d' (ys @ (st, ?k) # zs) 0" by (simp add: chained_append)
    have h: "get2byte ?d' (hdr + 1) = head_ptr (ys @ (st, ?k) # zs) 0"
      using ch(1) get2byte_put2byte_other [of "hdr + 1" "st + 2" d ?k] sn u by (simp add: head_ptr_def hd_append)
    have f: "peek ?d' (hdr + 7) = peek d (hdr + 7)" using sn u by (intro fr) auto
    have t: "get2byteNotZero ?d' (hdr + 5) = tp"
      unfolding top [symmetric] get2byteNotZero_def using sn u by (subst get2byte_cong [OF fr fr]) auto
    have ct': "\<forall>(a, c)\<in>set cb. slice ?d' a (int (length c)) = c"
    proof (rule contents_frame [where W = ?W, OF ct fr])
      fix a c j assume j: "(a, c) \<in> set (exts cb)" "a \<le> j" "j < a + c"
      show "j \<notin> ?W" using cells [OF j(1)] j sn by (auto simp: apart_def)
    qed
    have "layout tp (usableSize b) ((st + ?k, m - ?k) # exts cb) (ys @ (st, ?k) # zs)"
      by (rule layout_shrink(2) [OF l]) (use k n False in auto)
    then have "space_ok b hdr ?d' tp ((st + ?k, slice ?d' (st + ?k) nByte) # cb) (ys @ (st, ?k) # zs)"
      using c h t f frag ct' n by (simp add: space_ok_def sl(1) x)
    moreover have "r = (SQLITE_OK, Some (st + ?k), ?d')" using False by (simp add: sl(4) x slot_result_def Let_def)
    moreover have "\<And>j. j < tp \<Longrightarrow> j \<notin> {hdr + 1, hdr + 2, hdr + 7} \<Longrightarrow> peek ?d' j = peek d j" using sn by (intro fr) auto
    ultimately show ?thesis using sn k by (intro that [of "st + ?k" ?d' "ys @ (st, ?k) # zs"]) auto
  qed
qed

lemma gap_space:
  assumes s: "space_ok b hdr d tp cb fs" and room: "room b hdr d (tp - n)" and n: "4 \<le> n"
  defines "d' \<equiv> put2byte d (hdr + 5) (tp - n)"
  shows "space_ok b hdr d' (tp - n) ((tp - n, slice d' (tp - n) n) # cb) fs"
    "\<And>j. j \<notin> {hdr + 5, hdr + 6} \<Longrightarrow> peek d' j = peek d j"
proof -
  have u: "0 \<le> hdr" "hdr + 8 \<le> tp - n" "usableSize b \<le> 65536" "usableSize b \<le> int (length d)" using room by (auto simp: room_def)
  show fr: "\<And>j. j \<notin> {hdr + 5, hdr + 6} \<Longrightarrow> peek d' j = peek d j" by (simp add: d'_def peek_put2byte_neq)
  have l: "layout tp (usableSize b) (exts cb) fs" using s by (simp add: space_ok_def)
  then have bl: "blocks_ok (tp + 1) (usableSize b) fs" and tp: "tp \<le> usableSize b" by (simp_all add: layout_def)
  have "get2byteNotZero d' (hdr + 5) = tp - n" unfolding d'_def using u tp n by (intro NotZero) auto
  moreover have "chained d' fs 0"
  proof (rule chained_frame [where W = "{hdr + 5, hdr + 6}", OF _ fr])
    show "chained d fs 0" using s by (simp add: space_ok_def)
    fix t m assume "(t, m) \<in> set fs"
    then show "t \<notin> {hdr + 5, hdr + 6} \<and> t + 1 \<notin> {hdr + 5, hdr + 6} \<and> t + 2 \<notin> {hdr + 5, hdr + 6} \<and> t + 3 \<notin> {hdr + 5, hdr + 6}"
      using blocks_ok_bounds [OF bl, of t m] u n by auto
  qed
  moreover have "\<forall>(a, c)\<in>set cb. slice d' a (int (length c)) = c"
  proof (rule contents_frame [where W = "{hdr + 5, hdr + 6}", OF _ fr])
    show "\<forall>(a, c)\<in>set cb. slice d a (int (length c)) = c" using s by (simp add: space_ok_def)
    fix a m j assume j: "(a, m) \<in> set (exts cb)" "a \<le> j" "j < a + m"
    then have "tp \<le> a" using l by (force simp: layout_def)
    then show "j \<notin> {hdr + 5, hdr + 6}" using j u n by auto
  qed
  moreover have "get2byte d' (hdr + 1) = get2byte d (hdr + 1)" "peek d' (hdr + 7) = peek d (hdr + 7)"
    by (auto intro!: get2byte_cong fr)
  ultimately show "space_ok b hdr d' (tp - n) ((tp - n, slice d' (tp - n) n) # cb) fs"
    using s layout_gap [OF l n] n by (simp add: space_ok_def)
qed

subsection \<open>Defragmentation\<close>

text \<open>The array of cell pointers.\<close>

definition ptrs_ok :: "u8 list \<Rightarrow> int \<Rightarrow> (int \<times> u8 list) list \<Rightarrow> bool" where
  "ptrs_ok d co cb \<longleftrightarrow> (\<forall>i<length cb. get2byte d (co + 2 * int i) = fst (cb ! i))"

lemma ptrs_frame: "ptrs_ok d co cb \<Longrightarrow> (\<And>j. co \<le> j \<Longrightarrow> j < co + 2 * int (length cb) \<Longrightarrow> peek d' j = peek d j) \<Longrightarrow> ptrs_ok d' co cb"
  unfolding ptrs_ok_def by (auto intro!: get2byte_cong [symmetric] elim!: trans [rotated])

definition cell_ok :: "BtShared \<Rightarrow> MemPage \<Rightarrow> u8 list \<Rightarrow> bool" where
  "cell_ok b p c \<longleftrightarrow> (\<forall>rest. cellSizeOf b p (c @ rest) = int (length c))"

lemma defragment_out_ok:
  assumes l: "layout cbrk (usableSize b) (exts cb) []" and ct: "\<forall>(a, c)\<in>set cb. slice d a (int (length c)) = c"
    and ptrs: "ptrs_ok d co cb" and frag: "uint (peek d (hdr + 7)) = usableSize b - cbrk - covered (exts cb)"
    and p: "hdrOffset p = hdr" "cellOffset p = co" "nCell p = int (length cb)" "nFree p = usableSize b - iCellFirst p - covered (exts cb)"
    and u: "0 \<le> hdr" "hdr + 8 \<le> co" "iCellFirst p \<le> cbrk" "usableSize b \<le> int (length d)" "usableSize b \<le> 65536"
  obtains d' where "defragment_out p d cbrk = (SQLITE_OK, p\<lparr>aData := d'\<rparr>)" "length d' = length d" "space_ok b hdr d' cbrk cb []"
    "ptrs_ok d' co cb" "peek d' (hdr + 7) = peek d (hdr + 7)"
    "\<And>j. j < co \<Longrightarrow> j \<notin> {hdr + 1, hdr + 2, hdr + 5, hdr + 6} \<Longrightarrow> peek d' j = peek d j"
proof -
  let ?f = "iCellFirst p"
  define d1 where "d1 = put2byte d (hdr + 5) cbrk"
  define d2 where "d2 = poke (poke d1 (hdr + 1) 0) (hdr + 2) 0"
  define d' where "d' = memset d2 ?f 0 (cbrk - ?f)"
  have f: "?f = co + 2 * int (length cb)" using p by (simp add: iCellFirst_def)
  have c: "cbrk \<le> usableSize b" using l by (simp add: layout_def)
  have len: "length d' = length d" "length d2 = length d" "length d1 = length d" by (simp_all add: d'_def d2_def d1_def)
  have above: "peek d' j = peek d2 j" if "j < ?f \<or> cbrk \<le> j" for j using that by (auto simp: d'_def peek_memset)
  have fr: "peek d' j = peek d j" if "j < ?f \<or> cbrk \<le> j" "j \<notin> {hdr + 1, hdr + 2, hdr + 5, hdr + 6}" for j
    using that(2) above [OF that(1)] by (simp add: d2_def d1_def peek_put2byte_neq)
  have "get2byte d' (hdr + 1) = 0"
  proof -
    have "peek d2 (hdr + 1) = 0" "peek d2 (hdr + 2) = 0"
      using u f c by (simp_all add: d2_def peek_poke len)
    moreover have "hdr + 1 + 1 = hdr + 2" by simp
    ultimately show ?thesis using above [of "hdr + 1"] above [of "hdr + 2"] u f by (simp only: get2byte_def) simp
  qed
  moreover have "get2byteNotZero d' (hdr + 5) = cbrk"
  proof -
    have "get2byteNotZero d' (hdr + 5) = get2byteNotZero d1 (hdr + 5)"
      unfolding get2byteNotZero_def using above [of "hdr + 5"] above [of "6 + hdr"] u f
      by (subst get2byte_cong [of d' _ d1]) (simp_all add: d2_def)
    also have "\<dots> = cbrk" unfolding d1_def using u f c by (intro NotZero) auto
    finally show ?thesis .
  qed
  moreover have h7: "peek d' (hdr + 7) = peek d (hdr + 7)" using u f by (intro fr) auto
  moreover have "\<forall>(a, c)\<in>set cb. slice d' a (int (length c)) = c"
  proof (rule contents_frame [where W = "{..<cbrk} \<union> {hdr + 1, hdr + 2, hdr + 5, hdr + 6}", OF ct])
    show "\<And>j. j \<notin> {..<cbrk} \<union> {hdr + 1, hdr + 2, hdr + 5, hdr + 6} \<Longrightarrow> peek d' j = peek d j" using fr by auto
    fix a m j assume j: "(a, m) \<in> set (exts cb)" "a \<le> j" "j < a + m"
    then have "cbrk \<le> a" using l by (force simp: layout_def)
    then show "j \<notin> {..<cbrk} \<union> {hdr + 1, hdr + 2, hdr + 5, hdr + 6}" using j u f by auto
  qed
  ultimately have "space_ok b hdr d' cbrk cb []" using l frag by (simp add: space_ok_def)
  moreover have "ptrs_ok d' co cb" using u f by (intro ptrs_frame [OF ptrs] fr) auto
  moreover have "defragment_out p d cbrk = (SQLITE_OK, p\<lparr>aData := d'\<rparr>)"
    using frag p(4) by (simp add: defragment_out_def p(1) Let_def d1_def d2_def d'_def)
  moreover have "\<And>j. j < co \<Longrightarrow> j \<notin> {hdr + 1, hdr + 2, hdr + 5, hdr + 6} \<Longrightarrow> peek d' j = peek d j"
    using u f by (intro fr) auto
  ultimately show ?thesis using h7 len by (intro that [of d']) auto
qed

text \<open>The general case: the cells are packed against the end in the order of their pointers.\<close>

fun packed :: "int \<Rightarrow> u8 list list \<Rightarrow> (int \<times> u8 list) list" where
  "packed e [] = []"
| "packed e (c # cs) = (e - int (length c), c) # packed (e - int (length c)) cs"

lemma length_packed [simp]: "length (packed e cs) = length cs"
  by (induction e cs rule: packed.induct) auto

lemma snd_packed [simp]: "map snd (packed e cs) = cs"
  by (induction e cs rule: packed.induct) auto

lemma covered_packed: "covered (exts (packed e cs)) = sum_list (map (\<lambda>c. int (length c)) cs)"
  by (induction e cs rule: packed.induct) auto

lemma covered_exts: "covered (exts cb) = sum_list (map (\<lambda>c. int (length c)) (map snd cb))"
  by (induction cb) auto

lemma covered_nonneg: "0 \<le> covered (exts cb)"
  by (induction cb) auto

lemma packed_below: "x \<in> set (exts (packed e cs)) \<Longrightarrow> e - covered (exts (packed e cs)) \<le> fst x \<and> fst x + snd x \<le> e"
proof (induction e cs rule: packed.induct)
  case (2 e c cs)
  then show ?case using covered_nonneg [of "packed (e - int (length c)) cs"] by auto
qed simp

lemma layout_packed:
  assumes "\<forall>c\<in>set cs. 4 \<le> length c" shows "layout (e - covered (exts (packed e cs))) e (exts (packed e cs)) []"
proof -
  have s: "sorted_wrt apart (exts (packed e cs))" for e
  proof (induction e cs rule: packed.induct)
    case (2 e c cs)
    have "apart (e - int (length c), int (length c)) y" if "y \<in> set (exts (packed (e - int (length c)) cs))" for y
      using packed_below [OF that] by (simp add: apart_def)
    then show ?case using 2 by (simp del: apart_simps)
  qed simp
  moreover have "4 \<le> snd x" if "x \<in> set (exts (packed e cs))" for x
    using that assms by (induction e cs rule: packed.induct) auto
  ultimately show ?thesis using packed_below covered_nonneg [of "packed e cs"] by (auto simp: layout_def simp del: apart_simps)
qed

definition pack_src :: "u8 list option \<Rightarrow> u8 list \<Rightarrow> u8 list" where
  "pack_src temp d = (case temp of None \<Rightarrow> d | Some t \<Rightarrow> t)"

definition pack_ready :: "BtShared \<Rightarrow> int \<Rightarrow> u8 list \<Rightarrow> u8 list \<Rightarrow> bool" where
  "pack_ready b tp d0 src \<longleftrightarrow> usableSize b \<le> int (length src) \<and> (\<forall>j. tp \<le> j \<and> j < usableSize b \<longrightarrow> peek src j = peek d0 j)"

lemma pack_cell_step:
  assumes "cellOffset p = co" "get2byte d (co + 2 * int i) = a" "tp \<le> a" "a + int (length c) \<le> usableSize b" "4 \<le> length c"
    and "slice d0 a (int (length c)) = c" "cell_ok b p c" "pack_ready b tp d0 (pack_src temp d)" "0 \<le> tp" "co + 2 * int i + 2 \<le> tp" "0 \<le> co"
    and "cbrk1 = cbrk - int (length c)" "tp \<le> cbrk1" "cbrk \<le> usableSize b" "usableSize b \<le> int (length d)" "usableSize b \<le> int (length tmp)" "usableSize b \<le> 65536"
  obtains d2 temp2 where "pack_cells b p tmp tp (int i # rest) d temp cbrk = pack_cells b p tmp tp rest d2 temp2 cbrk1"
    "length d2 = length d" "pack_ready b tp d0 (pack_src temp2 d2)" "get2byte d2 (co + 2 * int i) = cbrk1"
    "slice d2 cbrk1 (int (length c)) = c"
    "\<And>j. j \<noteq> co + 2 * int i \<Longrightarrow> j \<noteq> co + 2 * int i + 1 \<Longrightarrow> j < cbrk1 \<or> cbrk \<le> j \<Longrightarrow> peek d2 j = peek d j"
proof -
  let ?p = "co + 2 * int i" and ?n = "int (length c)"
  have src: "usableSize b \<le> int (length (pack_src temp d))" "\<And>j. tp \<le> j \<Longrightarrow> j < usableSize b \<Longrightarrow> peek (pack_src temp d) j = peek d0 j"
    using assms(8) by (auto simp: pack_ready_def)
  have "slice (pack_src temp d) a ?n = slice d0 a ?n" using assms(3,4) by (intro slice_cong src) auto
  then have "drop (nat a) (pack_src temp d) = c @ drop (nat (a + ?n)) (pack_src temp d)"
    using slice_drop [of a ?n "pack_src temp d"] assms(3,4,6,9) src(1) by simp
  then have sz: "cellSizeOf b p (drop (nat a) (pack_src temp d)) = ?n" using assms(7) by (simp add: cell_ok_def)
  define d1 where "d1 = put2byte d ?p cbrk1"
  have p1: "get2byte d1 ?p = cbrk1"
    using assms(5,9,11-15,17,10) by (simp add: d1_def get2byte_put2byte)
  have fr1: "peek d1 j = peek d j" if "j \<noteq> ?p" "j \<noteq> ?p + 1" for j using that by (simp add: d1_def peek_put2byte_neq)
  have unfold: "pack_cells b p tmp tp (int i # rest) d temp cbrk =
      (if temp = None \<and> cbrk1 = a then pack_cells b p tmp tp rest d1 None cbrk1
       else let t = (case temp of None \<Rightarrow> blit tmp tp (slice d1 tp (usableSize b - tp)) | Some t \<Rightarrow> t)
            in pack_cells b p tmp tp rest (blit d1 cbrk1 (slice t a ?n)) (Some t) cbrk1)"
  proof -
    have c0: "cellOffset p + int i * 2 = ?p" using assms(1) by simp
    have c1: "\<not> (a < tp \<or> usableSize b - 4 < a)" "\<not> (cbrk1 < tp \<or> usableSize b < a + ?n)" using assms(3-5,13) by auto
    show ?thesis
      by (simp only: pack_cells.simps Let_def c0 assms(2) c1 if_False sz [unfolded pack_src_def] assms(12) [symmetric] d1_def)
  qed
  show ?thesis
  proof (cases "temp = None \<and> cbrk1 = a")
    case True
    have "slice d1 cbrk1 ?n = slice d a ?n" using True assms(3,10) by (intro slice_shift fr1 [THEN trans]) auto
    also have "\<dots> = c" using \<open>slice (pack_src temp d) a ?n = slice d0 a ?n\<close> assms(6) True by (simp add: pack_src_def)
    finally have s: "slice d1 cbrk1 ?n = c" .
    have r: "pack_ready b tp d0 (pack_src None d1)"
      using assms(8,10) True fr1 by (auto simp: pack_ready_def pack_src_def d1_def peek_put2byte_neq)
    from unfold True have e: "pack_cells b p tmp tp (int i # rest) d temp cbrk = pack_cells b p tmp tp rest d1 None cbrk1" by simp
    show ?thesis by (rule that [OF e _ r p1 s fr1]) (simp_all add: d1_def)
  next
    case False
    define t where "t = (case temp of None \<Rightarrow> blit tmp tp (slice d1 tp (usableSize b - tp)) | Some t \<Rightarrow> t)"
    have t: "usableSize b \<le> int (length t)" "\<And>j. tp \<le> j \<Longrightarrow> j < usableSize b \<Longrightarrow> peek t j = peek d0 j"
    proof -
      show "usableSize b \<le> int (length t)" using src(1) assms(16) by (cases temp) (simp_all add: t_def pack_src_def)
      show "peek t j = peek d0 j" if j: "tp \<le> j" "j < usableSize b" for j
      proof (cases temp)
        case None
        have "peek t j = peek d1 j" using j assms(9,16) by (simp add: t_def None peek_blit nth_slice)
        also have "\<dots> = peek d j" using j assms(10) by (intro fr1) auto
        finally show ?thesis using src(2) [OF j] by (simp add: None pack_src_def)
      qed (use src(2) [OF j] in \<open>simp add: t_def pack_src_def\<close>)
    qed
    let ?d2 = "blit d1 cbrk1 (slice t a ?n)"
    have e: "pack_cells b p tmp tp (int i # rest) d temp cbrk = pack_cells b p tmp tp rest ?d2 (Some t) cbrk1"
      using unfold False by (auto simp: t_def Let_def)
    have fr2: "peek ?d2 j = peek d1 j" if "j < cbrk1 \<or> cbrk \<le> j" for j using that assms(12) by (auto simp: peek_blit)
    have "slice ?d2 cbrk1 ?n = slice t a ?n"
      using assms(9,12-15) by (intro slice_shift) (simp add: peek_blit nth_slice d1_def)
    also have "\<dots> = slice d0 a ?n" using assms(3,4) by (intro slice_cong t) auto
    finally have s: "slice ?d2 cbrk1 ?n = c" using assms(6) by simp
    have r: "pack_ready b tp d0 (pack_src (Some t) ?d2)" using t by (simp add: pack_ready_def pack_src_def)
    have "get2byte ?d2 ?p = get2byte d1 ?p" using assms(10,13) by (intro get2byte_cong fr2) auto
    then have p2: "get2byte ?d2 ?p = cbrk1" using p1 by simp
    show ?thesis
      by (rule that [OF e _ r p2 s]) (auto simp: d1_def peek_put2byte_neq fr2 [unfolded d1_def])
  qed
qed

lemma pack_cells_ok:
  fixes xs :: "(int \<times> u8 list) list"
  assumes "co + 2 * int (length xs + length ys) \<le> tp" "0 \<le> co" "0 \<le> tp" "tp + covered (exts ys) \<le> cbrk" "cbrk \<le> usableSize b"
    and "usableSize b \<le> int (length d)" "usableSize b \<le> int (length tmp)" "usableSize b \<le> 65536"
    and "pack_ready b tp d0 (pack_src temp d)"
    and "\<And>i. i < length ys \<Longrightarrow> get2byte d (co + 2 * int (length xs + i)) = fst (ys ! i)"
    and "\<forall>(a, c)\<in>set ys. tp \<le> a \<and> a + int (length c) \<le> usableSize b \<and> 4 \<le> length c \<and> slice d0 a (int (length c)) = c \<and> cell_ok b p c"
    and "cellOffset p = co"
  shows "\<exists>d'. pack_cells b p tmp tp (map int [length xs..<length xs + length ys]) d temp cbrk = (SQLITE_OK, d', cbrk - covered (exts ys)) \<and>
    length d' = length d \<and>
    (\<forall>i<length ys. get2byte d' (co + 2 * int (length xs + i)) = fst (packed cbrk (map snd ys) ! i)) \<and>
    (\<forall>(a, c)\<in>set (packed cbrk (map snd ys)). slice d' a (int (length c)) = c) \<and>
    (\<forall>j. (j < co + 2 * int (length xs) \<or> co + 2 * int (length xs + length ys) \<le> j) \<and> (j < cbrk - covered (exts ys) \<or> cbrk \<le> j) \<longrightarrow>
       peek d' j = peek d j)"
  using assms
proof (induction ys arbitrary: xs d temp cbrk)
  case (Cons y ys)
  obtain a c where y: "y = (a, c)" by fastforce
  let ?n = "int (length c)" and ?i = "length xs"
  have cn: "0 \<le> covered (exts ys)" by (rule covered_nonneg)
  have ac: "tp \<le> a" "a + ?n \<le> usableSize b" "4 \<le> length c" "slice d0 a ?n = c" "cell_ok b p c" using Cons.prems(11) by (auto simp: y)
  have g: "get2byte d (co + 2 * int ?i) = a" using Cons.prems(10) [of 0] by (simp add: y)
  have h: "co + 2 * int ?i + 2 \<le> tp" "tp \<le> cbrk - ?n" using Cons.prems(1,4) cn by (simp_all add: y)
  obtain d2 temp2 where st: "pack_cells b p tmp tp (int ?i # map int [Suc ?i..<Suc ?i + length ys]) d temp cbrk =
        pack_cells b p tmp tp (map int [Suc ?i..<Suc ?i + length ys]) d2 temp2 (cbrk - ?n)"
      "length d2 = length d" "pack_ready b tp d0 (pack_src temp2 d2)" "get2byte d2 (co + 2 * int ?i) = cbrk - ?n"
      "slice d2 (cbrk - ?n) ?n = c"
      "\<And>j. j \<noteq> co + 2 * int ?i \<Longrightarrow> j \<noteq> co + 2 * int ?i + 1 \<Longrightarrow> j < cbrk - ?n \<or> cbrk \<le> j \<Longrightarrow> peek d2 j = peek d j"
    by (rule pack_cell_step [OF Cons.prems(12) g ac Cons.prems(9,3) h(1) Cons.prems(2) refl h(2) Cons.prems(5-8), where rest = "map int [Suc ?i..<Suc ?i + length ys]"], rule that, assumption+)
  have ptr: "get2byte d2 (co + 2 * int (length (xs @ [y]) + i)) = fst (ys ! i)" if "i < length ys" for i
  proof -
    have "get2byte d2 (co + 2 * int (length (xs @ [y]) + i)) = get2byte d (co + 2 * int (length (xs @ [y]) + i))"
      using that Cons.prems(1,4) cn ac(1) by (intro get2byte_cong st(6)) (auto simp: y)
    then show ?thesis using Cons.prems(10) [of "Suc i"] that by simp
  qed
  have "\<exists>d'. pack_cells b p tmp tp (map int [length (xs @ [y])..<length (xs @ [y]) + length ys]) d2 temp2 (cbrk - ?n) =
        (SQLITE_OK, d', cbrk - ?n - covered (exts ys)) \<and> length d' = length d2 \<and>
      (\<forall>i<length ys. get2byte d' (co + 2 * int (length (xs @ [y]) + i)) = fst (packed (cbrk - ?n) (map snd ys) ! i)) \<and>
      (\<forall>(a, c)\<in>set (packed (cbrk - ?n) (map snd ys)). slice d' a (int (length c)) = c) \<and>
      (\<forall>j. (j < co + 2 * int (length (xs @ [y])) \<or> co + 2 * int (length (xs @ [y]) + length ys) \<le> j) \<and>
         (j < cbrk - ?n - covered (exts ys) \<or> cbrk - ?n \<le> j) \<longrightarrow> peek d' j = peek d2 j)"
    by (rule Cons.IH [OF _ _ _ _ _ _ _ _ st(3) ptr]) (use Cons.prems st(2) ac in \<open>auto simp: y\<close>)
  then obtain d' where d': "pack_cells b p tmp tp (map int [Suc ?i..<Suc ?i + length ys]) d2 temp2 (cbrk - ?n) =
        (SQLITE_OK, d', cbrk - ?n - covered (exts ys))" "length d' = length d2"
      "\<And>i. i < length ys \<Longrightarrow> get2byte d' (co + 2 * int (Suc ?i + i)) = fst (packed (cbrk - ?n) (map snd ys) ! i)"
      "\<forall>(a, c)\<in>set (packed (cbrk - ?n) (map snd ys)). slice d' a (int (length c)) = c"
      "\<And>j. j < co + 2 * int (Suc ?i) \<or> co + 2 * int (Suc ?i + length ys) \<le> j \<Longrightarrow>
         j < cbrk - ?n - covered (exts ys) \<or> cbrk - ?n \<le> j \<Longrightarrow> peek d' j = peek d2 j"
    by (auto simp del: of_nat_Suc of_nat_add)
  have u: "[?i..<?i + length (y # ys)] = ?i # [Suc ?i..<Suc ?i + length ys]"
    using upt_conv_Cons [of ?i "?i + length (y # ys)"] by (simp del: upt_Suc)
  have run: "pack_cells b p tmp tp (map int [?i..<?i + length (y # ys)]) d temp cbrk = (SQLITE_OK, d', cbrk - covered (exts (y # ys)))"
    unfolding u list.map st(1) d'(1) by (simp add: y)
  have here: "get2byte d' (co + 2 * int ?i) = cbrk - ?n"
    unfolding st(4) [symmetric] using Cons.prems(1,4) by (intro get2byte_cong d'(5)) (auto simp: y)
  have ptrs: "get2byte d' (co + 2 * int (?i + i)) = fst (packed cbrk (map snd (y # ys)) ! i)" if "i < length (y # ys)" for i
    using that here d'(3) [of "i - 1"] by (cases i) (auto simp: y)
  have "slice d' (cbrk - ?n) ?n = slice d2 (cbrk - ?n) ?n"
    using Cons.prems(1,4) cn by (intro slice_cong d'(5)) (auto simp: y)
  then have "slice d' (cbrk - ?n) ?n = c" using st(5) by simp
  then have cts: "\<forall>(a, c)\<in>set (packed cbrk (map snd (y # ys))). slice d' a (int (length c)) = c"
    using d'(4) by (simp add: y)
  have "peek d' j = peek d j" if "j < co + 2 * int ?i \<or> co + 2 * int (?i + length (y # ys)) \<le> j"
    "j < cbrk - covered (exts (y # ys)) \<or> cbrk \<le> j" for j
  proof -
    have "peek d' j = peek d2 j" using that cn by (intro d'(5)) (auto simp: y)
    also have "\<dots> = peek d j" using that cn by (intro st(6)) (auto simp: y)
    finally show ?thesis .
  qed
  then have frame: "\<forall>j. (j < co + 2 * int ?i \<or> co + 2 * int (?i + length (y # ys)) \<le> j) \<and>
      (j < cbrk - covered (exts (y # ys)) \<or> cbrk \<le> j) \<longrightarrow> peek d' j = peek d j" by blast
  have "length d' = length d" using d'(2) st(2) by simp
  then show ?case by (intro exI [of _ d'] conjI run cts frame allI impI ptrs)
qed simp

text \<open>With one or two free blocks the cells before them are shifted.\<close>

definition shifted :: "int \<Rightarrow> int \<Rightarrow> int \<Rightarrow> int \<Rightarrow> int \<Rightarrow> int" where
  "shifted s s2 k k2 a = (if a < s then a + k else if a < s2 then a + k2 else a)"

lemma move_pointers_ok:
  assumes "0 \<le> pa" "pa + 2 * int m \<le> int (length d)"
    and "\<And>i. i < m \<Longrightarrow> get2byte d (pa + 2 * int i) = v i \<and> 0 \<le> shifted s s2 k k2 (v i) \<and> shifted s s2 k k2 (v i) < 65536"
  shows "length (move_pointers d pa m s s2 k k2) = length d \<and>
    (\<forall>i<m. get2byte (move_pointers d pa m s s2 k k2) (pa + 2 * int i) = shifted s s2 k k2 (v i)) \<and>
    (\<forall>j. j < pa \<or> pa + 2 * int m \<le> j \<longrightarrow> peek (move_pointers d pa m s s2 k k2) j = peek d j)"
  using assms
proof (induction m arbitrary: d pa v)
  case (Suc m)
  define d1 where "d1 = (if v 0 < s then put2byte d pa (v 0 + k) else if v 0 < s2 then put2byte d pa (v 0 + k2) else d)"
  have v0: "get2byte d pa = v 0" "0 \<le> shifted s s2 k k2 (v 0)" "shifted s s2 k k2 (v 0) < 65536"
    using Suc.prems(3) [of 0] by simp_all
  have d1: "length d1 = length d" "get2byte d1 pa = shifted s s2 k k2 (v 0)"
    using v0 Suc.prems(1,2) by (auto simp: d1_def shifted_def get2byte_put2byte)
  have fr: "peek d1 j = peek d j" if "j < pa \<or> pa + 2 \<le> j" for j using that by (auto simp: d1_def peek_put2byte_other)
  have step: "move_pointers d pa (Suc m) s s2 k k2 = move_pointers d1 (pa + 2) m s s2 k k2"
    by (simp add: Let_def v0(1) d1_def)
  have "get2byte d1 (pa + 2 + 2 * int i) = v (Suc i) \<and> 0 \<le> shifted s s2 k k2 (v (Suc i)) \<and> shifted s s2 k k2 (v (Suc i)) < 65536"
    if "i < m" for i
  proof -
    have "get2byte d1 (pa + 2 + 2 * int i) = get2byte d (pa + 2 + 2 * int i)" by (intro get2byte_cong fr) auto
    then show ?thesis using Suc.prems(3) [of "Suc i"] that by (simp add: algebra_simps)
  qed
  note IH = Suc.IH [of "pa + 2" d1 "\<lambda>i. v (Suc i)", OF _ _ this]
  have IH: "length (move_pointers d1 (pa + 2) m s s2 k k2) = length d1"
    "\<And>i. i < m \<Longrightarrow> get2byte (move_pointers d1 (pa + 2) m s s2 k k2) (pa + 2 + 2 * int i) = shifted s s2 k k2 (v (Suc i))"
    "\<And>j. j < pa + 2 \<or> pa + 2 + 2 * int m \<le> j \<Longrightarrow> peek (move_pointers d1 (pa + 2) m s s2 k k2) j = peek d1 j"
    using IH Suc.prems(1,2) d1(1) by auto
  have "get2byte (move_pointers d1 (pa + 2) m s s2 k k2) pa = shifted s s2 k k2 (v 0)"
    unfolding d1(2) [symmetric] by (intro get2byte_cong IH(3)) auto
  then have "get2byte (move_pointers d pa (Suc m) s s2 k k2) (pa + 2 * int i) = shifted s s2 k k2 (v i)" if "i < Suc m" for i
    unfolding step using that IH(2) [of "i - 1"] by (cases i) (auto simp: algebra_simps)
  moreover have "peek (move_pointers d pa (Suc m) s s2 k k2) j = peek d j" if "j < pa \<or> pa + 2 * int (Suc m) \<le> j" for j
    unfolding step using that IH(3) [of j] fr [of j] by auto
  ultimately show ?case using IH(1) d1(1) step by auto
qed simp

text \<open>The three zones of the contents: before the first free block, between the two, and the rest.\<close>

lemma zones:
  assumes l: "layout tp u xs fs" and fs: "fs = [(s, n)] \<and> s2 = 0 \<and> n2 = 0 \<or> fs = [(s, n), (s2, n2)]" and tp: "0 < tp"
    and x: "(a, m) \<in> set xs"
  shows "tp \<le> a" "4 \<le> m" "a + m \<le> u"
    "a + m \<le> s \<and> shifted s s2 k n2 a = a + k \<or>
     s2 \<noteq> 0 \<and> s + n \<le> a \<and> a + m \<le> s2 \<and> shifted s s2 k n2 a = a + n2 \<or>
     s + n \<le> a \<and> s2 + n2 \<le> a \<and> shifted s s2 k n2 a = a"
proof -
  have bl: "tp + 1 \<le> s" "4 \<le> n" "s + n \<le> u" "0 \<le> n2" "s2 = 0 \<and> n2 = 0 \<or> s + n + 4 \<le> s2 \<and> s2 + n2 \<le> u \<and> 4 \<le> n2"
    using l fs by (auto simp: layout_def)
  show c: "tp \<le> a" "4 \<le> m" "a + m \<le> u" using l x by (force simp: layout_def)+
  have "apart (a, m) (s, n)" "s2 = 0 \<or> apart (a, m) (s2, n2)"
    using l x fs by (auto simp: layout_def sorted_wrt_append simp del: apart_simps)
  then show "a + m \<le> s \<and> shifted s s2 k n2 a = a + k \<or>
     s2 \<noteq> 0 \<and> s + n \<le> a \<and> a + m \<le> s2 \<and> shifted s s2 k n2 a = a + n2 \<or>
     s + n \<le> a \<and> s2 + n2 \<le> a \<and> shifted s s2 k n2 a = a"
    using c bl tp by (auto simp: shifted_def)
qed

lemma zones_before:
  fixes a m a' m' x x' s n s2 n2 :: int
  assumes "a + m \<le> a'" "4 \<le> m" "4 \<le> m'" "0 \<le> n" "0 \<le> n2" "s2 = 0 \<and> n2 = 0 \<or> s + n \<le> s2"
    and "a + m \<le> s \<and> x = a + (n + n2) \<or> s2 \<noteq> 0 \<and> s + n \<le> a \<and> a + m \<le> s2 \<and> x = a + n2 \<or> s + n \<le> a \<and> s2 + n2 \<le> a \<and> x = a"
    and "a' + m' \<le> s \<and> x' = a' + (n + n2) \<or> s2 \<noteq> 0 \<and> s + n \<le> a' \<and> a' + m' \<le> s2 \<and> x' = a' + n2 \<or>
      s + n \<le> a' \<and> s2 + n2 \<le> a' \<and> x' = a'"
  shows "x + m \<le> x'"
  using assms by (elim disjE conjE; linarith)

lemma layout_shifted:
  assumes l: "layout tp u xs fs" and fs: "fs = [(s, n)] \<and> s2 = 0 \<and> n2 = 0 \<or> fs = [(s, n), (s2, n2)]" and tp: "0 < tp"
  shows "layout (tp + (n + n2)) u (map (\<lambda>(a, m). (shifted s s2 (n + n2) n2 a, m)) xs) []"
proof -
  have bl: "tp + 1 \<le> s" "4 \<le> n" "s + n \<le> u" "0 \<le> n2" "s2 = 0 \<and> n2 = 0 \<or> s + n + 4 \<le> s2 \<and> s2 + n2 \<le> u \<and> 4 \<le> n2"
    using l fs by (auto simp: layout_def)
  note z = zones(1-3) [OF l fs tp] zones(4) [OF l fs tp, where k = "n + n2"]
  have s: "sorted_wrt apart xs" using l by (simp add: layout_def sorted_wrt_append)
  have ap: "apart (shifted s s2 (n + n2) n2 a, m) (shifted s s2 (n + n2) n2 a', m')"
    if "apart (a, m) (a', m')" "(a, m) \<in> set xs" "(a', m') \<in> set xs" for a m a' m'
    using that(1) bl zones_before [OF _ z(2) [OF that(2)] z(2) [OF that(3)] _ bl(4) _ z(4) [OF that(2)] z(4) [OF that(3)]]
      zones_before [OF _ z(2) [OF that(3)] z(2) [OF that(2)] _ bl(4) _ z(4) [OF that(3)] z(4) [OF that(2)]] by auto
  have "sorted_wrt apart (map (\<lambda>(a, m). (shifted s s2 (n + n2) n2 a, m)) xs)"
    unfolding sorted_wrt_map by (rule sorted_wrt_mono_rel [OF _ s]) (use ap in \<open>auto simp del: apart_simps\<close>)
  moreover have "tp + (n + n2) \<le> shifted s s2 (n + n2) n2 a \<and> shifted s s2 (n + n2) n2 a + m \<le> u" if "(a, m) \<in> set xs" for a m
    using z(1,3) [OF that] z(4) [OF that] bl by (elim disjE conjE) auto
  moreover have "tp + (n + n2) \<le> u" using bl by auto
  moreover have "4 \<le> m" if "(a, m) \<in> set xs" for a m by (rule z(2) [OF that])
  ultimately show ?thesis by (auto simp: layout_def)
qed

lemma exts_nth: "i < length cb \<Longrightarrow> (fst (cb ! i), int (length (snd (cb ! i)))) \<in> set (exts cb)"
  by (auto simp: exts_def case_prod_beta intro!: image_eqI [OF _ nth_mem])

lemma defragment_fast_ok:
  assumes s: "space_ok b hdr (aData p) tp cb fs" and room: "room b hdr (aData p) tp"
    and p: "hdrOffset p = hdr" "cellOffset p = co" "nCell p = int (length cb)"
    and co: "hdr + 8 \<le> co" "co + 2 * int (length cb) \<le> tp" and ptrs: "ptrs_ok (aData p) co cb"
    and some: "defragment_fast b p \<noteq> None"
  obtains d' cb' where "defragment_fast b p = Some (Inr (d', tp + covered fs))" "length d' = length (aData p)" "map snd cb' = map snd cb"
    "layout (tp + covered fs) (usableSize b) (exts cb') []" "\<forall>(a, c)\<in>set cb'. slice d' a (int (length c)) = c" "ptrs_ok d' co cb'"
    "\<forall>j<co. peek d' j = peek (aData p) j"
proof -
  let ?d = "aData p"
  have u: "0 \<le> hdr" "hdr + 8 \<le> tp" "usableSize b \<le> 65536" "usableSize b \<le> int (length ?d)" using room by (auto simp: room_def)
  have hd: "get2byte ?d (hdr + 1) = head_ptr fs 0" and ch: "chained ?d fs 0" and l: "layout tp (usableSize b) (exts cb) fs"
    and top: "get2byteNotZero ?d (hdr + 5) = tp" and ct: "\<forall>(a, c)\<in>set cb. slice ?d a (int (length c)) = c"
    using s by (simp_all add: space_ok_def)
  have bl: "blocks_ok (tp + 1) (usableSize b) fs" using l by (simp add: layout_def)
  show ?thesis
  proof (cases "fs = [] \<or> (\<exists>x y z zs. fs = x # y # z # zs)")
    case True
    then show ?thesis
    proof
      assume "fs = []"
      moreover have "tp \<le> usableSize b" using l by (simp add: layout_def)
      ultimately have "defragment_fast b p = None" using hd u by (simp add: defragment_fast_def Let_def p(1))
      with some show ?thesis ..
    next
      assume "\<exists>x y z zs. fs = x # y # z # zs"
      then obtain s n s2 n2 s3 n3 zs where fs: "fs = (s, n) # (s2, n2) # (s3, n3) # zs" by auto
      have g: "get2byte ?d s = s2" "get2byte ?d s2 = s3" using ch by (simp_all add: fs)
      have "s \<le> usableSize b - 4" "s2 \<le> usableSize b - 4" "s \<noteq> 0" "s2 \<noteq> 0" "s3 \<noteq> 0" using bl u by (auto simp: fs)
      then have "defragment_fast b p = None"
        using hd g get2byte_0 [of ?d s2] by (simp add: fs defragment_fast_def p(1) Let_def)
      with some show ?thesis ..
    qed
  next
    case False
    obtain s n s2 n2 where fs: "fs = [(s, n)] \<and> s2 = 0 \<and> n2 = 0 \<or> fs = [(s, n), (s2, n2)]"
    proof (cases fs)
      case (Cons x ys)
      then show ?thesis using False that by (cases x; cases ys) (auto, (metis list.exhaust surj_pair)+)
    qed (use False in simp)
    define N where "N = n + n2"
    have b4: "tp < s" "4 \<le> n" "s + n \<le> usableSize b" "s2 = 0 \<and> n2 = 0 \<or> s + n + 4 \<le> s2 \<and> s2 + n2 \<le> usableSize b \<and> 4 \<le> n2"
      using bl fs by auto
    have N: "0 < N" "n \<le> N" "s2 \<noteq> 0 \<Longrightarrow> s + N \<le> s2 + n2" "s + N = s + n + n2" "s + N \<le> usableSize b" using b4 by (auto simp: N_def)
    have cov: "covered fs = N" using fs by (auto simp: N_def)
    have g: "get2byte ?d (hdr + 1) = s" "get2byte ?d s = s2" "get2byte ?d (s + 2) = n" "s2 \<noteq> 0 \<Longrightarrow> get2byte ?d (s2 + 2) = n2"
      "s2 \<noteq> 0 \<Longrightarrow> peek ?d s2 = 0 \<and> peek ?d (s2 + 1) = 0"
      using hd ch fs get2byte_0 [of ?d s2] by auto
    have tp: "get2byte ?d (hdr + 5) = tp"
      using NotZero_get(1) [of ?d "hdr + 5"] top b4 u by (simp split: if_splits)
    define d1 where "d1 = (if s2 \<noteq> 0 then memmove ?d (s + n + n2) (s + n) (s2 - (s + n)) else ?d)"
    define d2 where "d2 = memmove d1 (tp + N) tp (s - tp)"
    define d' where "d' = move_pointers d2 co (length cb) s s2 N n2"
    have len: "length d1 = length ?d" "length d2 = length ?d" by (simp_all add: d1_def d2_def)
    have run: "defragment_fast b p = Some (Inr (d', tp + N))"
      using g b4 tp u unfolding defragment_fast_def by (auto simp: p Let_def d1_def d2_def d'_def N_def)
    have low: "peek d2 j = peek ?d j" if "j < tp" for j
      using that b4 N by (auto simp: d2_def d1_def peek_memmove)
    have pd1: "peek d1 j = (if s2 \<noteq> 0 \<and> s + N \<le> j \<and> j < s2 + n2 then peek ?d (j - n2) else peek ?d j)" for j
      using b4 u N by (auto simp: d1_def peek_memmove)
    have pd2: "peek d2 j = (if tp + N \<le> j \<and> j < s + N then peek d1 (j - N) else peek d1 j)" for j
      using u N(1,2,5) by (auto simp: d2_def peek_memmove len)
    let ?sh = "shifted s s2 N n2"
    have tp0: "0 < tp" using u by simp
    note z = zones(1-3) [OF l fs tp0] zones(4) [OF l fs tp0, where k = N]
    have moved: "peek d2 (?sh a + j) = peek ?d (a + j)" if x: "(a, m) \<in> set (exts cb)" and j: "0 \<le> j" "j < m" for a m j
      using z(4) [OF x]
    proof (elim disjE conjE)
      assume "a + m \<le> s" "?sh a = a + N"
      then show ?thesis using z(1) [OF x] j b4 N(1-3,5) by (simp add: pd2 pd1)
    next
      assume 2: "s2 \<noteq> 0" "s + n \<le> a" "a + m \<le> s2" "?sh a = a + n2"
      moreover have "s + N \<le> a + n2 + j" "a + n2 + j < s2 + n2" "a + n2 + j - n2 = a + j" using 2(2,3) j N(4) by linarith+
      ultimately show ?thesis by (simp add: pd2 pd1 del: add_diff_cancel_right')
    next
      assume 3: "s + n \<le> a" "s2 + n2 \<le> a" "?sh a = a"
      moreover have "s + N \<le> a + j" using 3(1,2) j N(3,4) b4(4) by linarith
      ultimately show ?thesis using j b4(4) by (auto simp: pd2 pd1)
    qed
    have shr: "tp + N \<le> ?sh a \<and> ?sh a + m \<le> usableSize b" if x: "(a, m) \<in> set (exts cb)" for a m
      using z(4) [OF x] z(1,3) [OF x] b4 N by (elim disjE conjE) auto
    have pt: "get2byte d2 (co + 2 * int i) = fst (cb ! i) \<and> 0 \<le> ?sh (fst (cb ! i)) \<and> ?sh (fst (cb ! i)) < 65536" if i: "i < length cb" for i
    proof -
      have x: "(fst (cb ! i), int (length (snd (cb ! i)))) \<in> set (exts cb)"
        using i by (rule exts_nth)
      have "get2byte d2 (co + 2 * int i) = get2byte ?d (co + 2 * int i)" using i co by (intro get2byte_cong low) auto
      then show ?thesis using ptrs i shr [OF x] z(2) [OF x] u b4 N by (auto simp: ptrs_ok_def)
    qed
    have pa: "0 \<le> co" "co + 2 * int (length cb) \<le> int (length d2)" using co u b4 len by auto
    note mp = move_pointers_ok [OF pa pt, folded d'_def]
    let ?cb = "map (\<lambda>(a, c). (?sh a, c)) cb"
    have e: "exts ?cb = map (\<lambda>(a, m). (?sh a, m)) (exts cb)" by (simp add: exts_def case_prod_beta)
    have "layout (tp + N) (usableSize b) (exts ?cb) []" unfolding e unfolding N_def by (rule layout_shifted [OF l fs tp0])
    moreover have "\<forall>(a, c)\<in>set ?cb. slice d' a (int (length c)) = c"
    proof (intro ballI, clarify)
      fix a' c assume "(a', c) \<in> set ?cb"
      then obtain a where a: "a' = ?sh a" "(a, c) \<in> set cb" by auto
      then have x: "(a, int (length c)) \<in> set (exts cb)" by (auto simp: exts_def)
      have "slice d' a' (int (length c)) = slice d2 a' (int (length c))"
        using mp shr [OF x] co b4 N a(1) by (intro slice_cong) auto
      also have "\<dots> = slice ?d a (int (length c))" using moved [OF x] a(1) by (intro slice_shift) simp
      finally show "slice d' a' (int (length c)) = c" using ct a(2) by auto
    qed
    moreover have "ptrs_ok d' co ?cb" using mp by (auto simp: ptrs_ok_def case_prod_beta)
    moreover have "\<forall>j<co. peek d' j = peek ?d j" using mp low co by auto
    moreover have "map snd ?cb = map snd cb" by auto
    moreover have "length d' = length ?d" using mp len by simp
    ultimately show ?thesis using run cov by (intro that [of d' ?cb]) simp_all
  qed
qed

lemma blocks_covered: "blocks_ok lo hi fs \<Longrightarrow> 0 \<le> covered fs"
  by (induction lo hi fs rule: blocks_ok.induct) auto

lemma defragmentPage_ok:
  assumes s: "space_ok b hdr (aData p) tp cb fs" and room: "room b hdr (aData p) tp"
    and p: "hdrOffset p = hdr" "cellOffset p = co" "nCell p = int (length cb)" "nFree p = usableSize b - iCellFirst p - covered (exts cb)"
    and co: "hdr + 8 \<le> co" "co + 2 * int (length cb) \<le> tp" and ptrs: "ptrs_ok (aData p) co cb"
    and cells: "\<forall>(a, c)\<in>set cb. cell_ok b p c" and tmp: "usableSize b \<le> int (length tmp)" and frag: "0 \<le> maxFrag"
  obtains d' tp' cb' where "defragmentPage b tmp p maxFrag = (SQLITE_OK, p\<lparr>aData := d'\<rparr>)" "length d' = length (aData p)"
    "map snd cb' = map snd cb" "space_ok b hdr d' tp' cb' []" "ptrs_ok d' co cb'" "uint (peek d' (hdr + 7)) \<le> maxFrag"
    "\<And>j. j < co \<Longrightarrow> j \<notin> {hdr + 1, hdr + 2, hdr + 5, hdr + 6, hdr + 7} \<Longrightarrow> peek d' j = peek (aData p) j" "co + 2 * int (length cb) \<le> tp'"
proof -
  let ?d = "aData p"
  have u: "0 \<le> hdr" "hdr + 8 \<le> tp" "usableSize b \<le> 65536" "usableSize b \<le> int (length ?d)" using room by (auto simp: room_def)
  have l: "layout tp (usableSize b) (exts cb) fs" and top: "get2byteNotZero ?d (hdr + 5) = tp"
    and ct: "\<forall>(a, c)\<in>set cb. slice ?d a (int (length c)) = c"
    and fr: "uint (peek ?d (hdr + 7)) = usableSize b - tp - covered (exts cb) - covered fs"
    using s by (simp_all add: space_ok_def)
  have first: "iCellFirst p = co + 2 * int (length cb)" using p by (simp add: iCellFirst_def)
  show ?thesis
  proof (cases "(if uint (peek ?d (hdr + 7)) \<le> maxFrag then defragment_fast b p else None) = None")
    case False
    then have small: "uint (peek ?d (hdr + 7)) \<le> maxFrag" and some: "defragment_fast b p \<noteq> None" by (auto split: if_splits)
    obtain d1 cb' where f: "defragment_fast b p = Some (Inr (d1, tp + covered fs))" "length d1 = length ?d" "map snd cb' = map snd cb"
      "layout (tp + covered fs) (usableSize b) (exts cb') []" "\<forall>(a, c)\<in>set cb'. slice d1 a (int (length c)) = c" "ptrs_ok d1 co cb'"
      "\<forall>j<co. peek d1 j = peek ?d j"
      by (rule defragment_fast_ok [OF s room p(1-3) co ptrs some])
    have cov: "covered (exts cb') = covered (exts cb)" "length cb' = length cb"
      unfolding covered_exts f(3) using map_eq_imp_length_eq [OF f(3)] by simp_all
    have h7: "peek d1 (hdr + 7) = peek ?d (hdr + 7)" using f(7) co by simp
    have nn: "0 \<le> covered fs" using l by (auto simp: layout_def intro: blocks_covered)
    have g: "uint (peek d1 (hdr + 7)) = usableSize b - (tp + covered fs) - covered (exts cb')" "nCell p = int (length cb')"
      "nFree p = usableSize b - iCellFirst p - covered (exts cb')" "iCellFirst p \<le> tp + covered fs" "usableSize b \<le> int (length d1)"
      using fr h7 cov p(3,4) co f(2) u first nn by simp_all
    obtain d' where d': "defragment_out p d1 (tp + covered fs) = (SQLITE_OK, p\<lparr>aData := d'\<rparr>)" "length d' = length d1"
      "space_ok b hdr d' (tp + covered fs) cb' []" "ptrs_ok d' co cb'" "peek d' (hdr + 7) = peek d1 (hdr + 7)"
      "\<And>j. j < co \<Longrightarrow> j \<notin> {hdr + 1, hdr + 2, hdr + 5, hdr + 6} \<Longrightarrow> peek d' j = peek d1 j"
      by (rule defragment_out_ok [OF f(4-6) g(1) p(1,2) g(2,3) u(1) co(1) g(4,5) u(3)], rule that, assumption+)
    have "defragmentPage b tmp p maxFrag = (SQLITE_OK, p\<lparr>aData := d'\<rparr>)"
      using small f(1) d'(1) by (simp add: defragmentPage_def p(1) Let_def)
    then show ?thesis
      by (rule that [OF _ _ f(3) d'(3,4)]) (use d' f(2,7) h7 small co nn in auto)
  next
    case True
    define cs where "cs = map snd cb"
    have cov: "covered (exts (packed (usableSize b) cs)) = covered (exts cb)" by (simp add: covered_packed covered_exts cs_def)
    have fit: "tp + covered (exts cb) \<le> usableSize b"
    proof -
      have "0 \<le> covered fs" using l by (auto simp: layout_def intro: blocks_covered)
      then show ?thesis using layout_covered [OF l] by linarith
    qed
    have len4: "\<forall>c\<in>set cs. 4 \<le> length c" using l by (force simp: layout_def cs_def exts_def)
    have start: "get2byte ?d (hdr + 5) = tp \<or> cb = []"
      using NotZero_get(1) [of ?d "hdr + 5"] top u fit covered_nonneg [of cb] l
      by (cases cb) (auto simp: layout_def split: if_splits)
    obtain d1 where d1: "pack_cells b p tmp (get2byte ?d (hdr + 5)) (map int [0..<nat (nCell p)]) ?d None (usableSize b) =
        (SQLITE_OK, d1, usableSize b - covered (exts cb))" "length d1 = length ?d" "ptrs_ok d1 co (packed (usableSize b) cs)"
      "\<forall>(a, c)\<in>set (packed (usableSize b) cs). slice d1 a (int (length c)) = c" "\<forall>j<co. peek d1 j = peek ?d j"
    proof (cases "cb = []")
      case True
      then show ?thesis by (intro that [of ?d]) (simp_all add: p(3) cs_def ptrs_ok_def)
    next
      case False
      have pre: "\<forall>(a, c)\<in>set cb. tp \<le> a \<and> a + int (length c) \<le> usableSize b \<and> 4 \<le> length c \<and> slice ?d a (int (length c)) = c \<and> cell_ok b p c"
        using l ct cells by (force simp: layout_def exts_def)
      have "pack_ready b tp ?d (pack_src None ?d)" using u by (simp add: pack_ready_def pack_src_def)
      from pack_cells_ok [where xs = "[]" and ys = cb and cbrk = "usableSize b", OF _ _ _ _ _ _ tmp u(3) this _ pre p(2)]
      obtain d1 where "pack_cells b p tmp tp (map int [0..<length cb]) ?d None (usableSize b) = (SQLITE_OK, d1, usableSize b - covered (exts cb))"
        "length d1 = length ?d" "\<forall>i<length cb. get2byte d1 (co + 2 * int i) = fst (packed (usableSize b) (map snd cb) ! i)"
        "\<forall>(a, c)\<in>set (packed (usableSize b) (map snd cb)). slice d1 a (int (length c)) = c"
        "\<forall>j. (j < co \<or> co + 2 * int (length cb) \<le> j) \<and> (j < usableSize b - covered (exts cb) \<or> usableSize b \<le> j) \<longrightarrow> peek d1 j = peek ?d j"
        using ptrs co u fit by (auto simp: ptrs_ok_def)
      then show ?thesis using start False co fit by (intro that [of d1]) (simp_all add: p(3) cs_def ptrs_ok_def)
    qed
    define d2 where "d2 = poke d1 (hdr + 7) 0"
    have cbrk: "tp \<le> usableSize b - covered (exts cb)" using fit by simp
    have c2: "\<forall>(a, c)\<in>set (packed (usableSize b) cs). slice d2 a (int (length c)) = c"
    proof (rule contents_frame [where W = "{hdr + 7}", OF d1(4)])
      show "\<And>j. j \<notin> {hdr + 7} \<Longrightarrow> peek d2 j = peek d1 j" by (simp add: d2_def)
      fix a m j assume "(a, m) \<in> set (exts (packed (usableSize b) cs))" "a \<le> j" "j < a + m"
      then show "j \<notin> {hdr + 7}" using packed_below [of "(a, m)" "usableSize b" cs] cbrk u cov by auto
    qed
    have p2: "ptrs_ok d2 co (packed (usableSize b) cs)" using co by (intro ptrs_frame [OF d1(3)]) (simp add: d2_def)
    have z: "peek d2 (hdr + 7) = 0" using u d1(2) cbrk co first covered_nonneg [of cb] by (simp add: d2_def peek_poke)
    have lp: "layout (usableSize b - covered (exts cb)) (usableSize b) (exts (packed (usableSize b) cs)) []"
      using layout_packed [OF len4, of "usableSize b"] cov by simp
    have lc: "length (packed (usableSize b) cs) = length cb" by (simp add: cs_def)
    have g: "uint (peek d2 (hdr + 7)) = usableSize b - (usableSize b - covered (exts cb)) - covered (exts (packed (usableSize b) cs))"
      "nCell p = int (length (packed (usableSize b) cs))" "nFree p = usableSize b - iCellFirst p - covered (exts (packed (usableSize b) cs))"
      "iCellFirst p \<le> usableSize b - covered (exts cb)" "usableSize b \<le> int (length d2)"
      using z cov lc p(3,4) cbrk co d1(2) u first by (simp_all add: d2_def)
    obtain d' where d': "defragment_out p d2 (usableSize b - covered (exts cb)) = (SQLITE_OK, p\<lparr>aData := d'\<rparr>)" "length d' = length d2"
      "space_ok b hdr d' (usableSize b - covered (exts cb)) (packed (usableSize b) cs) []" "ptrs_ok d' co (packed (usableSize b) cs)"
      "peek d' (hdr + 7) = peek d2 (hdr + 7)" "\<And>j. j < co \<Longrightarrow> j \<notin> {hdr + 1, hdr + 2, hdr + 5, hdr + 6} \<Longrightarrow> peek d' j = peek d2 j"
      by (rule defragment_out_ok [OF lp c2 p2 g(1) p(1,2) g(2,3) u(1) co(1) g(4,5) u(3)], rule that, assumption+)
    have "defragmentPage b tmp p maxFrag = (SQLITE_OK, p\<lparr>aData := d'\<rparr>)"
      using True d1(1) d'(1) by (simp add: defragmentPage_def p(1) Let_def d2_def split: if_splits)
    then show ?thesis
      by (rule that [OF _ _ _ d'(3,4)]) (use d' d1(2,5) z frag co cbrk in \<open>auto simp: cs_def d2_def\<close>)
  qed
qed

subsection \<open>A page as a list of cells\<close>

text \<open>
  The page holds the cells \<open>cs\<close>, in the order of the pointer array: the fields of \<open>MemPage\<close> describe the bytes, each
  pointer leads to the bytes of its cell, and \<open>nFree\<close> is what the cells and their pointers leave.
\<close>

definition page_static :: "BtShared \<Rightarrow> MemPage \<Rightarrow> bool" where
  "page_static b p \<longleftrightarrow>
     bt_ok b \<and> page_kind b p \<and> isInit p \<and> nOverflow p = 0 \<and> hdrOffset p \<in> {0, 100} \<and> cellOffset p = hdrOffset p + 8 + childPtrSize p \<and>
     maskPage p = (pageSize b - 1) mod 65536 \<and> int (length (aData p)) = pageSize b \<and>
     decodeFlags b p (uint (peek (aData p) (hdrOffset p))) = (SQLITE_OK, p)"

definition page_holds :: "BtShared \<Rightarrow> MemPage \<Rightarrow> u8 list list \<Rightarrow> bool" where
  "page_holds b p cs \<longleftrightarrow>
     page_static b p \<and> nCell p = int (length cs) \<and> get2byte (aData p) (hdrOffset p + 3) = nCell p \<and> (\<forall>c\<in>set cs. cell_ok b p c) \<and>
     nFree p = usableSize b - iCellFirst p - (\<Sum>c\<leftarrow>cs. int (length c)) \<and>
     (\<exists>tp cb fs. map snd cb = cs \<and> space_ok b (hdrOffset p) (aData p) tp cb fs \<and> ptrs_ok (aData p) (cellOffset p) cb \<and> iCellFirst p \<le> tp)"

lemma allocateSpace_ok:
  assumes s: "space_ok b hdr (aData p) tp cb fs" and u: "0 \<le> hdr" "hdr + 8 \<le> co" "usableSize b \<le> int (length (aData p))" "usableSize b \<le> 65536"
    and p: "hdrOffset p = hdr" "cellOffset p = co" "nCell p = int (length cb)" "nFree p = usableSize b - iCellFirst p - covered (exts cb)"
    and ptrs: "ptrs_ok (aData p) co cb" and tp: "iCellFirst p \<le> tp" and cells: "\<forall>(a, c)\<in>set cb. cell_ok b p c"
    and tmp: "usableSize b \<le> int (length tmp)" and n: "4 \<le> n" "n + 2 \<le> nFree p"
  obtains idx d' tp' cb' fs' where "allocateSpace b tmp p n = (SQLITE_OK, idx, p\<lparr>aData := d'\<rparr>)" "length d' = length (aData p)"
    "map snd cb' = map snd cb" "space_ok b hdr d' tp' ((idx, slice d' idx n) # cb') fs'" "ptrs_ok d' co cb'" "iCellFirst p + 2 \<le> tp'"
    "\<And>j. j < co \<Longrightarrow> j \<notin> {hdr + 1, hdr + 2, hdr + 5, hdr + 6, hdr + 7} \<Longrightarrow> peek d' j = peek (aData p) j"
proof -
  let ?d = "aData p"
  have first: "iCellFirst p = co + 2 * int (length cb)" using p by (simp add: iCellFirst_def)
  have room: "room b hdr ?d tp" using u first tp by (simp add: room_def)
  have l: "layout tp (usableSize b) (exts cb) fs" and hd: "get2byte ?d (hdr + 1) = head_ptr fs 0" and ch: "chained ?d fs 0"
    and top: "get2byteNotZero ?d (hdr + 5) = tp"
    using s by (simp_all add: space_ok_def)
  have tpu: "tp \<le> usableSize b" and bl: "blocks_ok (tp + 1) (usableSize b) fs" using l by (simp_all add: layout_def)
  let ?g = "get2byte ?d (hdr + 5)"
  have g: "?g = (if tp = 65536 then 0 else tp)" using NotZero_get(1) [of ?d "hdr + 5"] top by simp
  have top_ok: "\<not> (?g < iCellFirst p \<and> \<not> (?g = 0 \<and> usableSize b = 65536))" "(if ?g < iCellFirst p then 65536 else ?g) = tp"
    using g tp tpu u first by auto
  let ?found = "(if (peek ?d (hdr + 2) \<noteq> 0 \<or> peek ?d (hdr + 1) \<noteq> 0) \<and> iCellFirst p + 2 \<le> tp
            then pageFindSlot b p n else (SQLITE_OK, None, ?d))"
  have nz: "(peek ?d (hdr + 2) \<noteq> 0 \<or> peek ?d (hdr + 1) \<noteq> 0) = (fs \<noteq> [])"
  proof -
    have "get2byte ?d (hdr + 1) = 0 \<longleftrightarrow> peek ?d (hdr + 1) = 0 \<and> peek ?d (hdr + 2) = 0"
      using get2byte_0 [of ?d "hdr + 1"] by (simp add: add.commute [of 2])
    then show ?thesis using hd bl room by (cases fs) (auto simp: room_def)
  qed
  have unf: "allocateSpace b tmp p n = (case ?found of
        (rc, Some g2, data) \<Rightarrow> (if g2 \<le> iCellFirst p then SQLITE_CORRUPT else SQLITE_OK, g2, p\<lparr>aData := data\<rparr>)
      | (rc, None, data) \<Rightarrow>
          if rc \<noteq> SQLITE_OK then (rc, 0, p\<lparr>aData := data\<rparr>)
          else
            (case (if tp < iCellFirst p + 2 + n
                   then (case defragmentPage b tmp p (min 4 (nFree p - (2 + n))) of
                           (rc, p) \<Rightarrow> (rc, p, get2byteNotZero (aData p) (hdr + 5)))
                   else (SQLITE_OK, p, tp)) of
               (rc, p, t) \<Rightarrow>
                 if rc \<noteq> SQLITE_OK then (rc, 0, p)
                 else (SQLITE_OK, t - n, p\<lparr>aData := put2byte (aData p) (hdr + 5) (t - n)\<rparr>)))"
    using top_ok unfolding allocateSpace_def p(1) iCellFirst_def Let_def by (simp only: if_False)
  note alloc = that
  have gap: thesis if "?found = (SQLITE_OK, None, ?d)"
  proof (cases "tp < iCellFirst p + 2 + n")
    case False
    have r: "room b hdr ?d (tp - n)" using u first False by (simp add: room_def)
    have "allocateSpace b tmp p n = (SQLITE_OK, tp - n, p\<lparr>aData := put2byte ?d (hdr + 5) (tp - n)\<rparr>)"
      using False unfolding unf \<open>?found = _\<close> by simp
    then show ?thesis
      by (rule alloc [OF _ _ refl gap_space(1) [OF s r n(1)]])
        (use False u first gap_space(2) [OF s r n(1)] in \<open>auto intro!: ptrs_frame [OF ptrs]\<close>)
  next
    case True
    define k where "k = min 4 (nFree p - (2 + n))"
    have k: "0 \<le> k" "k \<le> nFree p - (2 + n)" using n by (auto simp: k_def)
    obtain d1 tp1 cb1 where d1: "defragmentPage b tmp p k = (SQLITE_OK, p\<lparr>aData := d1\<rparr>)" "length d1 = length ?d"
      "map snd cb1 = map snd cb" "space_ok b hdr d1 tp1 cb1 []" "ptrs_ok d1 co cb1" "uint (peek d1 (hdr + 7)) \<le> k"
      "\<And>j. j < co \<Longrightarrow> j \<notin> {hdr + 1, hdr + 2, hdr + 5, hdr + 6, hdr + 7} \<Longrightarrow> peek d1 j = peek ?d j" "co + 2 * int (length cb) \<le> tp1"
      by (rule defragmentPage_ok [OF s room p u(2) tp [unfolded first] ptrs cells tmp k(1)], rule that, assumption+)
    have cov: "covered (exts cb1) = covered (exts cb)" "length cb1 = length cb"
      unfolding covered_exts d1(3) using map_eq_imp_length_eq [OF d1(3)] by simp_all
    have "uint (peek d1 (hdr + 7)) = usableSize b - tp1 - covered (exts cb1)" "get2byteNotZero d1 (hdr + 5) = tp1"
      using d1(4) by (simp_all add: space_ok_def)
    then have t: "iCellFirst p + 2 + n \<le> tp1" "get2byteNotZero d1 (hdr + 5) = tp1" using d1(6) cov(1) p(4) k(2) by simp_all
    have r: "room b hdr d1 (tp1 - n)" using u first t d1(2) by (simp add: room_def)
    have "allocateSpace b tmp p n = (SQLITE_OK, tp1 - n, p\<lparr>aData := put2byte d1 (hdr + 5) (tp1 - n)\<rparr>)"
      using True d1(1) t unfolding unf \<open>?found = _\<close> k_def by simp
    then show ?thesis
      by (rule alloc [OF _ _ d1(3) gap_space(1) [OF d1(4) r n(1)]])
        (use t u first cov d1(2,7) gap_space(2) [OF d1(4) r n(1)] in \<open>auto intro!: ptrs_frame [OF d1(5)]\<close>)
  qed
  show ?thesis
  proof (cases "fs \<noteq> [] \<and> iCellFirst p + 2 \<le> tp")
    case False
    then have "?found = (SQLITE_OK, None, ?d)" unfolding nz by (simp only: if_False)
    then show ?thesis by (rule gap)
  next
    case True
    let ?r = "find_slot b hdr ?d n (hdr + 1) (head_ptr fs 0)"
    have f: "?found = ?r" unfolding nz using True by (simp add: pageFindSlot_def p(1) hd)
    have "?r = (SQLITE_OK, None, ?d) \<or> slot_ok hdr ?d n (hdr + 1) fs ?r"
      using True u first tp by (intro find_slot_at [OF bl _ n(1) _ ch]) auto
    then show ?thesis
    proof
      assume "?r = (SQLITE_OK, None, ?d)" then show ?thesis by (intro gap) (simp only: f)
    next
      assume sl: "slot_ok hdr ?d n (hdr + 1) fs ?r"
      obtain g d' fs' where sp: "?r = (SQLITE_OK, Some g, d')" "tp < g" "g + n \<le> usableSize b" "length d' = length ?d"
        "space_ok b hdr d' tp ((g, slice d' g n) # cb) fs'"
        "\<And>j. j < tp \<Longrightarrow> j \<notin> {hdr + 1, hdr + 2, hdr + 7} \<Longrightarrow> peek d' j = peek ?d j"
        by (rule slot_space [OF s room n(1) sl], rule that, assumption+)
      have "allocateSpace b tmp p n = (SQLITE_OK, g, p\<lparr>aData := d'\<rparr>)"
        unfolding unf f sp(1) using sp(2) tp by simp
      then show ?thesis
        by (rule alloc [OF _ sp(4) refl sp(5)]) (use True u first tp sp(6) in \<open>auto intro!: ptrs_frame [OF ptrs]\<close>)
    qed
  qed
qed

lemma decodeFlags_update:
  "decodeFlags b (p\<lparr>aData := d, nFree := x, nCell := y\<rparr>) f =
   map_prod id (\<lambda>q. q\<lparr>aData := d, nFree := x, nCell := y\<rparr>) (decodeFlags b p f)"
  by (cases p; cases "f AND NOT PTF_LEAF = PTF_LEAFDATA OR PTF_INTKEY"; cases "f AND NOT PTF_LEAF = PTF_ZERODATA"; cases "(f div 8) mod 256 = 0";
      simp add: decodeFlags_def Let_def)

lemma cellSizePtr_update:
  "cellSizePtr b (p\<lparr>aData := d\<rparr>) c = cellSizePtr b p c" "cellSizePtr b (p\<lparr>nFree := x\<rparr>) c = cellSizePtr b p c"
  "cellSizePtr b (p\<lparr>nCell := y\<rparr>) c = cellSizePtr b p c"
  by (simp_all add: cellSizePtr_def spill_surplus_def Let_def split: prod.split)

lemma cellSizeOf_update [simp]:
  "cellSizeOf b (p\<lparr>aData := d\<rparr>) c = cellSizeOf b p c" "cellSizeOf b (p\<lparr>nFree := x\<rparr>) c = cellSizeOf b p c"
  "cellSizeOf b (p\<lparr>nCell := y\<rparr>) c = cellSizeOf b p c"
  by (simp_all add: cellSizeOf_def cellSizePtr_update split: cell_size.split)

lemma cell_ok_update [simp]: "cell_ok b (p\<lparr>aData := d\<rparr>) c = cell_ok b p c" "cell_ok b (p\<lparr>nFree := x\<rparr>) c = cell_ok b p c"
  "cell_ok b (p\<lparr>nCell := y\<rparr>) c = cell_ok b p c"
  by (simp_all add: cell_ok_def)

lemma static_update:
  assumes "page_static b p" "length d = length (aData p)" "peek d (hdrOffset p) = peek (aData p) (hdrOffset p)"
  shows "page_static b (p\<lparr>aData := d, nFree := x, nCell := y\<rparr>)"
proof -
  have "decodeFlags b (p\<lparr>aData := d, nFree := x, nCell := y\<rparr>) (uint (peek d (hdrOffset p))) = (SQLITE_OK, p\<lparr>aData := d, nFree := x, nCell := y\<rparr>)"
    using assms by (simp add: page_static_def decodeFlags_update)
  moreover have "page_kind b (p\<lparr>aData := d, nFree := x, nCell := y\<rparr>) = page_kind b p" by (simp add: page_kind_def)
  ultimately show ?thesis using assms by (simp add: page_static_def)
qed

lemma cell_ok_length: "page_static b p \<Longrightarrow> cell_ok b p c \<Longrightarrow> 4 \<le> length c"
proof -
  assume "page_static b p" "cell_ok b p c"
  then have "page_kind b p" "480 \<le> usableSize b" "usableSize b \<le> 65536" "cellSizeOf b p c = int (length c)"
    by (auto simp: page_static_def bt_ok_def cell_ok_def dest: spec [of _ "[]"])
  then show ?thesis using size_is_parsed(1,2) [of b p c] by simp
qed

lemma static_bounds:
  assumes "page_static b p"
  shows "0 \<le> hdrOffset p" "hdrOffset p + 8 \<le> cellOffset p" "usableSize b \<le> int (length (aData p))" "usableSize b \<le> 65536"
    "cellOffset p \<le> 112" "480 \<le> usableSize b"
  using assms by (auto simp: page_static_def bt_ok_def page_kind_def)

lemma layout_permute: "layout tp u (x # ys @ zs) fs \<Longrightarrow> layout tp u (ys @ x # zs) fs"
  by (auto simp: layout_def sorted_wrt_append apart_sym [of _ x] simp del: apart_simps)

text \<open>The counter of the cells, incremented byte by byte.\<close>

lemma increment_count:
  assumes "0 \<le> h" "h1 = h + 1" "h1 < int (length d)" "get2byte d h < 65535"
  defines "d1 \<equiv> poke d h1 (peek d h1 + 1)"
  defines "d2 \<equiv> (if peek d1 h1 = 0 then poke d1 h (peek d1 h + 1) else d1)"
  shows "get2byte d2 h = get2byte d h + 1" "\<And>j. j \<noteq> h \<Longrightarrow> j \<noteq> h1 \<Longrightarrow> peek d2 j = peek d j" "length d2 = length d"
proof -
  have p1: "peek d1 (h + 1) = peek d (h + 1) + 1" "peek d1 h = peek d h" using assms(1-3) by (simp_all add: d1_def peek_poke)
  let ?l = "uint (peek d (h + 1))" and ?u = "uint (peek d h)"
  have l: "0 \<le> ?l" "?l < 256" "0 \<le> ?u" "?u < 256" using uint_lt2p [of "peek d (h + 1)"] uint_lt2p [of "peek d h"] by simp_all
  have z: "peek d (h + 1) + 1 = 0 \<longleftrightarrow> ?l = 255"
  proof -
    have "uint (peek d (h + 1) + 1) = (?l + 1) mod 256" by (simp add: uint_word_ariths)
    moreover have "(?l + 1) mod 256 = 0 \<longleftrightarrow> ?l = 255" using l(1,2) by presburger
    ultimately show ?thesis by (metis uint_0_iff)
  qed
  show "get2byte d2 h = get2byte d h + 1"
  proof (cases "?l = 255")
    case True
    have "?u < 255" using assms(4) True by (simp add: get2byte_def)
    then have "uint (peek d h + 1) = ?u + 1" using byte_add [of 1 "peek d h"] l by simp
    then show ?thesis using True p1 z assms(1-3) by (simp add: d2_def get2byte_def peek_poke d1_def)
  next
    case False
    then have "uint (peek d (h + 1) + 1) = ?l + 1" using byte_add [of 1 "peek d (h + 1)"] l by simp
    then show ?thesis using False p1 z assms(2) by (simp add: d2_def get2byte_def)
  qed
  show "\<And>j. j \<noteq> h \<Longrightarrow> j \<noteq> h1 \<Longrightarrow> peek d2 j = peek d j" by (simp add: d2_def d1_def)
  show "length d2 = length d" by (simp add: d2_def d1_def)
qed

text \<open>Opening and closing a gap in the pointer array.\<close>

lemma ptrs_insert:
  assumes "ptrs_ok d co cb" "k \<le> length cb" "0 \<le> co" "co + 2 * int (length cb) + 2 \<le> int (length d)" "0 \<le> idx" "idx < 65536"
  defines "d' \<equiv> put2byte (memmove d (co + 2 * int k + 2) (co + 2 * int k) (2 * (int (length cb) - int k))) (co + 2 * int k) idx"
  shows "ptrs_ok d' co (take k cb @ (idx, c) # drop k cb)"
    "\<And>j. j < co \<or> co + 2 * int (length cb) + 2 \<le> j \<Longrightarrow> peek d' j = peek d j" "length d' = length d"
proof -
  let ?p = "co + 2 * int k" and ?n = "int (length cb)"
  define d1 where "d1 = memmove d (?p + 2) ?p (2 * (?n - int k))"
  have d': "d' = put2byte d1 ?p idx" by (simp add: d'_def d1_def)
  have at: "peek d' j = (if ?p + 2 \<le> j \<and> j < co + 2 * ?n + 2 then peek d (j - 2) else peek d j)" if "j \<noteq> ?p" "j \<noteq> ?p + 1" for j
    unfolding d' peek_put2byte_neq [OF that] d1_def peek_memmove using assms(2-4) by (auto simp: algebra_simps)
  show "ptrs_ok d' co (take k cb @ (idx, c) # drop k cb)"
    unfolding ptrs_ok_def
  proof (intro allI impI)
    fix i assume i: "i < length (take k cb @ (idx, c) # drop k cb)"
    have old: "get2byte d (co + 2 * int m) = fst (cb ! m)" if "m < length cb" for m using assms(1) that by (simp add: ptrs_ok_def)
    consider "i < k" | "i = k" | "k < i" by linarith
    then show "get2byte d' (co + 2 * int i) = fst ((take k cb @ (idx, c) # drop k cb) ! i)"
    proof cases
      case 1
      have "get2byte d' (co + 2 * int i) = get2byte d (co + 2 * int i)" using 1 by (intro get2byte_cong) (subst at; simp)+
      then show ?thesis using old [of i] 1 assms(2) by (simp add: nth_append)
    next
      case 2
      have "get2byte d' ?p = idx" unfolding d' using assms(2-6) by (simp add: get2byte_put2byte d1_def)
      then show ?thesis using 2 assms(2) by (simp add: nth_append)
    next
      case 3
      then have m: "i - 1 < length cb" "int (i - 1) = int i - 1" "k \<le> i - 1" using i assms(2) by auto
      have "get2byte d' (co + 2 * int i) = get2byte d (co + 2 * int (i - 1))"
        unfolding get2byte_def using 3 m i assms(2) by (subst (1 2) at) (auto simp: algebra_simps)
      moreover have "(take k cb @ (idx, c) # drop k cb) ! i = cb ! (i - 1)"
        using 3 m assms(2) by (simp add: nth_append nth_Cons')
      ultimately show ?thesis using old [OF m(1)] by simp
    qed
  qed
  show "peek d' j = peek d j" if "j < co \<or> co + 2 * int (length cb) + 2 \<le> j" for j
    using that assms(2,3) by (subst at) auto
  show "length d' = length d" by (simp add: d'_def)
qed

lemma ptrs_remove:
  assumes "ptrs_ok d co cb" "k < length cb" "0 \<le> co" "co + 2 * int (length cb) \<le> int (length d)"
  defines "d' \<equiv> memmove d (co + 2 * int k) (co + 2 * int k + 2) (2 * (int (length cb) - 1 - int k))"
  shows "ptrs_ok d' co (take k cb @ drop (Suc k) cb)"
    "\<And>j. j < co \<or> co + 2 * int (length cb) \<le> j \<Longrightarrow> peek d' j = peek d j" "length d' = length d"
proof -
  let ?p = "co + 2 * int k" and ?n = "int (length cb)"
  have at: "peek d' j = (if ?p \<le> j \<and> j < co + 2 * ?n - 2 then peek d (j + 2) else peek d j)" for j
    unfolding d'_def peek_memmove using assms(2-4) by (auto simp: algebra_simps)
  show "ptrs_ok d' co (take k cb @ drop (Suc k) cb)"
    unfolding ptrs_ok_def
  proof (intro allI impI)
    fix i assume i: "i < length (take k cb @ drop (Suc k) cb)"
    have old: "get2byte d (co + 2 * int m) = fst (cb ! m)" if "m < length cb" for m using assms(1) that by (simp add: ptrs_ok_def)
    show "get2byte d' (co + 2 * int i) = fst ((take k cb @ drop (Suc k) cb) ! i)"
    proof (cases "i < k")
      case True
      then have "get2byte d' (co + 2 * int i) = get2byte d (co + 2 * int i)" by (intro get2byte_cong) (simp_all add: at)
      then show ?thesis using old [of i] True assms(2) by (simp add: nth_append)
    next
      case False
      then have m: "Suc i < length cb" using i by auto
      have "get2byte d' (co + 2 * int i) = get2byte d (co + 2 * int (Suc i))"
        unfolding get2byte_def using False m by (simp add: at algebra_simps)
      then show ?thesis using old [OF m] False m assms(2) by (simp add: nth_append)
    qed
  qed
  show "peek d' j = peek d j" if "j < co \<or> co + 2 * int (length cb) \<le> j" for j
    using that assms(2,3) by (auto simp: at)
  show "length d' = length d" by (simp add: d'_def)
qed

text \<open>The bytes \<open>insertCell\<close> puts on the page.\<close>

definition new_cell :: "u8 list \<Rightarrow> int \<Rightarrow> u32 \<Rightarrow> u8 list" where
  "new_cell pCell sz iChild = (if iChild \<noteq> 0 then sqlite3Put4byte iChild @ slice pCell 4 (sz - 4) else slice pCell 0 sz)"

lemma length_new_cell: "4 \<le> sz \<Longrightarrow> int (length (new_cell pCell sz iChild)) = sz"
  by (simp add: new_cell_def sqlite3Put4byte_def)

lemma write_new_cell:
  fixes pCell iChild
  assumes "4 \<le> sz" "0 \<le> idx" "idx + sz \<le> int (length d)"
  defines "d' \<equiv> (if iChild \<noteq> 0 then blit (blit d (idx + 4) (slice pCell 4 (sz - 4))) idx (sqlite3Put4byte iChild)
                 else blit d idx (slice pCell 0 sz))"
  shows "slice d' idx sz = new_cell pCell sz iChild" "\<And>j. j < idx \<or> idx + sz \<le> j \<Longrightarrow> peek d' j = peek d j" "length d' = length d"
proof -
  have l4: "length (sqlite3Put4byte iChild) = 4" by (simp add: sqlite3Put4byte_def)
  show "slice d' idx sz = new_cell pCell sz iChild"
  proof (rule nth_equalityI)
    show "length (slice d' idx sz) = length (new_cell pCell sz iChild)" using length_new_cell [OF assms(1), of pCell iChild] by simp
    fix k assume "k < length (slice d' idx sz)"
    then have k: "int k < sz" by simp
    then have "slice d' idx sz ! k = peek d' (idx + int k)" by (intro nth_slice) simp
    also have "\<dots> = new_cell pCell sz iChild ! k"
      using k assms(1-3) l4 by (auto simp: d'_def new_cell_def peek_blit nth_append nth_slice nat_diff_distrib')
    finally show "slice d' idx sz ! k = new_cell pCell sz iChild ! k" .
  qed
  show "\<And>j. j < idx \<or> idx + sz \<le> j \<Longrightarrow> peek d' j = peek d j"
    using assms(1) l4 by (auto simp: d'_def peek_blit)
  show "length d' = length d" by (simp add: d'_def)
qed

lemma sum_insert: "k \<le> length cs \<Longrightarrow> (\<Sum>c\<leftarrow>take k cs @ c # drop k cs. f c) = f c + (\<Sum>c\<leftarrow>cs. f c)" for f :: "'a \<Rightarrow> int"
proof -
  have "(\<Sum>c\<leftarrow>cs. f c) = (\<Sum>c\<leftarrow>take k cs. f c) + (\<Sum>c\<leftarrow>drop k cs. f c)"
    by (metis append_take_drop_id map_append sum_list_append)
  then show ?thesis by simp
qed

text \<open>There are never so many cells that the counter overflows.\<close>

lemma cell_count:
  assumes h: "page_holds b p cs" shows "4 * int (length cs) + iCellFirst p + nFree p \<le> usableSize b" "iCellFirst p = cellOffset p + 2 * int (length cs)"
proof -
  have "\<forall>c\<in>set cs. 4 \<le> int (length c)" using h cell_ok_length by (force simp: page_holds_def)
  then have "4 * int (length cs) \<le> (\<Sum>c\<leftarrow>cs. int (length c))" by (induction cs) auto
  then show "4 * int (length cs) + iCellFirst p + nFree p \<le> usableSize b" using h by (simp add: page_holds_def)
  show "iCellFirst p = cellOffset p + 2 * int (length cs)" using h by (simp add: iCellFirst_def page_holds_def)
qed

lemma page_holdsI:
  assumes "space_ok b (hdrOffset p) (aData p) tp cb fs" "ptrs_ok (aData p) (cellOffset p) cb" "page_static b p" "iCellFirst p \<le> tp"
    "map snd cb = cs" "nCell p = int (length cs)" "get2byte (aData p) (hdrOffset p + 3) = nCell p" "\<forall>c\<in>set cs. cell_ok b p c"
    "nFree p = usableSize b - iCellFirst p - (\<Sum>c\<leftarrow>cs. int (length c))"
  shows "page_holds b p cs"
  using assms unfolding page_holds_def by blast

lemma insert_fits:
  assumes h: "page_holds b p cs" and tmp: "usableSize b \<le> int (length tmp)" and k: "k \<le> length cs" and sz: "4 \<le> sz" "sz + 2 \<le> nFree p"
    and ok: "cell_ok b p (new_cell pCell sz iChild)"
  obtains p' where "insertCell b tmp SQLITE_OK ptrmap_rc p (int k) pCell sz iChild = (if autoVacuum b then ptrmap_rc else SQLITE_OK, p')"
    "page_holds b p' (take k cs @ new_cell pCell sz iChild # drop k cs)"
proof -
  let ?hdr = "hdrOffset p" and ?co = "cellOffset p" and ?c = "new_cell pCell sz iChild" and ?n = "int (length cs)"
  have st: "page_static b p" and nc: "nCell p = ?n" "get2byte (aData p) (?hdr + 3) = ?n" and cells: "\<forall>c\<in>set cs. cell_ok b p c"
    and nf: "nFree p = usableSize b - iCellFirst p - (\<Sum>c\<leftarrow>cs. int (length c))"
    using h by (simp_all add: page_holds_def)
  obtain tp cb fs where cb: "map snd cb = cs" "space_ok b ?hdr (aData p) tp cb fs" "ptrs_ok (aData p) ?co cb" "iCellFirst p \<le> tp"
    using h by (auto simp: page_holds_def)
  note u = static_bounds [OF st]
  have lc: "length cb = length cs" using cb(1) by auto
  have cov: "covered (exts cb) = (\<Sum>c\<leftarrow>cs. int (length c))" by (simp add: covered_exts cb(1))
  have cok: "\<forall>(a, c)\<in>set cb. cell_ok b p c" using cells cb(1) by force
  have p4: "nCell p = int (length cb)" "nFree p = usableSize b - iCellFirst p - covered (exts cb)" using nc nf lc cov by simp_all
  have sz2: "sz + 2 \<le> nFree p" "4 \<le> sz" using sz by simp_all
  obtain idx d1 tp1 cb1 fs1 where a: "allocateSpace b tmp p sz = (SQLITE_OK, idx, p\<lparr>aData := d1\<rparr>)" "length d1 = length (aData p)"
    "map snd cb1 = map snd cb" "space_ok b ?hdr d1 tp1 ((idx, slice d1 idx sz) # cb1) fs1" "ptrs_ok d1 ?co cb1" "iCellFirst p + 2 \<le> tp1"
    "\<And>j. j < ?co \<Longrightarrow> j \<notin> {?hdr + 1, ?hdr + 2, ?hdr + 5, ?hdr + 6, ?hdr + 7} \<Longrightarrow> peek d1 j = peek (aData p) j"
    by (rule allocateSpace_ok [OF cb(2) u(1-4) refl refl p4 cb(3,4) cok tmp sz2(2,1)], rule that, assumption+)
  have lc1: "length cb1 = length cs" using a(3) lc by (auto dest: map_eq_imp_length_eq)
  have first: "iCellFirst p = ?co + 2 * ?n" using cell_count(2) [OF h] by simp
  have l1: "layout tp1 (usableSize b) ((idx, sz) # exts cb1) fs1" using a(4) sz(1) by (simp add: space_ok_def)
  have ix: "tp1 \<le> idx" "idx + sz \<le> usableSize b" using l1 by (auto simp: layout_def)
  define d2 where "d2 = (if iChild \<noteq> 0 then blit (blit d1 (idx + 4) (slice pCell 4 (sz - 4))) idx (sqlite3Put4byte iChild)
                 else blit d1 idx (slice pCell 0 sz))"
  have ix2: "0 \<le> idx" "idx + sz \<le> int (length d1)" "idx < 65536" using ix u a(2,6) first sz(1) by auto
  note w = write_new_cell [OF sz(1) ix2(1,2), where iChild = iChild and pCell = pCell, folded d2_def]
  define d3 where "d3 = put2byte (memmove d2 (?co + 2 * int k + 2) (?co + 2 * int k) (2 * (?n - int k))) (?co + 2 * int k) idx"
  have p2: "ptrs_ok d2 ?co cb1"
    using ix a(6) first lc1 by (intro ptrs_frame [OF a(5)] w(2)) auto
  have pb: "k \<le> length cb1" "0 \<le> ?co" "?co + 2 * int (length cb1) + 2 \<le> int (length d2)"
    using k lc1 u a(2,6) ix first w(3) sz(1) by simp_all
  note pi = ptrs_insert(1) [OF p2 pb ix2(1,3), where c = ?c, unfolded lc1, folded d3_def]
    ptrs_insert(2,3) [OF p2 pb ix2(1,3), unfolded lc1, folded d3_def]
  define d5 where "d5 = (let d4 = poke d3 (?hdr + 4) (peek d3 (?hdr + 4) + 1) in
      if peek d4 (?hdr + 4) = 0 then poke d4 (?hdr + 3) (peek d4 (?hdr + 3) + 1) else d4)"
  have fr3: "peek d3 j = peek d1 j" if "j < ?co \<or> ?co + 2 * ?n + 2 \<le> j" "j < idx \<or> idx + sz \<le> j" for j
    using pi(2) [OF that(1)] w(2) [OF that(2)] by simp
  have g3: "get2byte d3 (?hdr + 3) = ?n"
    unfolding nc(2) [symmetric] using u a(6,7) first ix by (intro get2byte_cong) (subst fr3; simp add: a(7))+
  have lim: "?n < 65535" using cell_count [OF h] sz u by simp
  have l3: "length d3 = length (aData p)" using pi(3) w(3) a(2) by simp
  have inc: "get2byte d5 (?hdr + 3) = ?n + 1" "\<And>j. j \<noteq> ?hdr + 3 \<Longrightarrow> j \<noteq> ?hdr + 4 \<Longrightarrow> peek d5 j = peek d3 j" "length d5 = length d3"
    using increment_count [of "?hdr + 3" "?hdr + 4" d3] g3 lim u l3 first ix a(6) sz(1) unfolding d5_def Let_def by simp_all
  let ?p' = "p\<lparr>aData := d5, nFree := nFree p - (2 + sz), nCell := ?n + 1\<rparr>"
  have ov: "nOverflow p = 0" using st by (simp add: page_static_def)
  have small: "(2 + sz) mod 65536 = 2 + sz"
    using sz cell_count [OF h] u first by (intro mod_pos_pos_trivial) linarith+
  have run: "insertCell b tmp SQLITE_OK ptrmap_rc p (int k) pCell sz iChild = (if autoVacuum b then ptrmap_rc else SQLITE_OK, ?p')"
    using sz by (simp add: insertCell_def ov a(1) Let_def nc(1) small d5_def d3_def d2_def add.assoc mult.commute)
  let ?cb = "take k cb1 @ (idx, ?c) # drop k cb1" and ?W = "{idx..<idx + sz} \<union> {?co..<?co + 2 * ?n + 2} \<union> {?hdr + 3, ?hdr + 4}"
  have fr: "peek d5 j = peek d1 j" if "j \<notin> ?W" for j
  proof -
    have "peek d5 j = peek d3 j" using that by (intro inc(2)) auto
    also have "\<dots> = peek d1 j" using that by (intro fr3) auto
    finally show ?thesis .
  qed
  have hd: "j \<notin> ?W" if "j < ?co" "j \<noteq> ?hdr + 3" "j \<noteq> ?hdr + 4" for j
    using that ix a(6) first by auto
  have tpw: "j \<notin> ?W" if "tp1 \<le> j" "j < idx \<or> idx + sz \<le> j" for j
    using that u a(6) first by auto
  have snds: "map snd ?cb = take k cs @ ?c # drop k cs"
    using a(3) cb(1) by (simp add: take_map [symmetric] drop_map [symmetric])
  have lc2: "length ?cb = length cs + 1" using lc1 k by simp
  have "space_ok b ?hdr d5 tp1 ?cb fs1"
    unfolding space_ok_def
  proof (intro conjI)
    have s1: "get2byte d1 (?hdr + 1) = head_ptr fs1 0" "chained d1 fs1 0" "get2byteNotZero d1 (?hdr + 5) = tp1"
      "uint (peek d1 (?hdr + 7)) = usableSize b - tp1 - covered (exts ((idx, slice d1 idx sz) # cb1)) - covered fs1"
      "\<forall>(a, c)\<in>set cb1. slice d1 a (int (length c)) = c"
      using a(4) by (simp_all add: space_ok_def)
    have cov1: "covered (exts ?cb) = covered (exts ((idx, slice d1 idx sz) # cb1))"
    proof -
      have "covered (exts cb1) = covered (exts (take k cb1)) + covered (exts (drop k cb1))"
        by (metis append_take_drop_id exts_simps(3) covered_simps(3))
      then show ?thesis using length_new_cell [OF sz(1)] sz(1) by simp
    qed
    show "get2byte d5 (?hdr + 1) = head_ptr fs1 0"
      unfolding s1(1) [symmetric] using u by (intro get2byte_cong fr hd) auto
    show "get2byteNotZero d5 (?hdr + 5) = tp1"
      unfolding s1(3) [symmetric] get2byteNotZero_def using u ix a(6) first by (subst get2byte_cong [OF fr fr]) auto
    show "uint (peek d5 (?hdr + 7)) = usableSize b - tp1 - covered (exts ?cb) - covered fs1"
      unfolding cov1 s1(4) [symmetric] using u ix a(6) first by (subst fr) auto
    have bl: "blocks_ok (tp1 + 1) (usableSize b) fs1" using l1 by (simp add: layout_def)
    show "chained d5 fs1 0"
    proof (rule chained_frame [where W = ?W, OF s1(2) fr])
      fix t m assume t: "(t, m) \<in> set fs1"
      then have "apart (idx, sz) (t, m)" using l1 by (auto simp: layout_def simp del: apart_simps)
      then show "t \<notin> ?W \<and> t + 1 \<notin> ?W \<and> t + 2 \<notin> ?W \<and> t + 3 \<notin> ?W"
        using blocks_ok_bounds [OF bl t] by (intro conjI tpw) auto
    qed
    have "layout tp1 (usableSize b) ((idx, sz) # exts (take k cb1) @ exts (drop k cb1)) fs1"
      using l1 by (simp flip: exts_simps(3))
    from layout_permute [OF this] show "layout tp1 (usableSize b) (exts ?cb) fs1"
      using length_new_cell [OF sz(1)] by simp
    have new: "slice d5 idx (int (length ?c)) = ?c"
    proof -
      have "slice d5 idx sz = slice d2 idx sz"
      proof (rule slice_cong)
        fix j assume j: "idx \<le> j" "j < idx + sz"
        have "peek d5 j = peek d3 j" using j ix a(6) first u by (intro inc(2)) auto
        also have "\<dots> = peek d2 j" using j ix a(6) first by (intro pi(2)) auto
        finally show "peek d5 j = peek d2 j" .
      qed
      then show ?thesis using w(1) length_new_cell [OF sz(1)] by simp
    qed
    have "\<forall>(a, c)\<in>set cb1. slice d5 a (int (length c)) = c"
    proof (rule contents_frame [where W = ?W, OF s1(5) fr])
      fix x m j assume j: "(x, m) \<in> set (exts cb1)" "x \<le> j" "j < x + m"
      then have "apart (idx, sz) (x, m)" "tp1 \<le> x" using l1 by (force simp: layout_def simp del: apart_simps)+
      then show "j \<notin> ?W" using j by (intro tpw) auto
    qed
    then show "\<forall>(a, c)\<in>set ?cb. slice d5 a (int (length c)) = c" using new by (auto dest: in_set_takeD in_set_dropD)
  qed
  then have sp: "space_ok b (hdrOffset ?p') (aData ?p') tp1 ?cb fs1" by simp
  have pt: "ptrs_ok (aData ?p') (cellOffset ?p') ?cb"
    using u lc2 by (simp, intro ptrs_frame [OF pi(1)] inc(2)) auto
  have st2: "page_static b ?p'"
  proof (rule static_update [OF st])
    show "length d5 = length (aData p)" using inc(3) l3 by simp
    show "peek d5 ?hdr = peek (aData p) ?hdr" using u ix a(6) first a(7) [of ?hdr] by (subst fr) auto
  qed
  have fst: "iCellFirst ?p' \<le> tp1" "iCellFirst ?p' = iCellFirst p + 2" using a(6) first by (simp_all add: iCellFirst_def nc(1))
  have "page_holds b ?p' (take k cs @ ?c # drop k cs)"
  proof (rule page_holdsI [OF sp pt st2 fst(1) snds])
    show "nCell ?p' = int (length (take k cs @ ?c # drop k cs))" using k by simp
    show "get2byte (aData ?p') (hdrOffset ?p' + 3) = nCell ?p'" using inc(1) by simp
    show "\<forall>c\<in>set (take k cs @ ?c # drop k cs). cell_ok b ?p' c" using cells ok by (auto dest: in_set_takeD in_set_dropD)
    show "nFree ?p' = usableSize b - iCellFirst ?p' - (\<Sum>c\<leftarrow>take k cs @ ?c # drop k cs. int (length c))"
      unfolding sum_insert [OF k] length_new_cell [OF sz(1)] fst(2) using nf by simp
  qed
  then show ?thesis by (rule that [OF run])
qed

lemma space_frame:
  assumes s: "space_ok b hdr d tp cb fs"
    and fr: "\<And>j. tp \<le> j \<or> j \<in> {hdr + 1, hdr + 2, hdr + 5, hdr + 6, hdr + 7} \<Longrightarrow> peek d' j = peek d j"
  shows "space_ok b hdr d' tp cb fs"
proof -
  have l: "layout tp (usableSize b) (exts cb) fs" using s by (simp add: space_ok_def)
  have "chained d' fs 0 = chained d fs 0"
  proof (rule chained_cong, intro conjI)
    fix t m assume "(t, m) \<in> set fs"
    then have "tp \<le> t" using l blocks_ok_bounds [of "tp + 1" "usableSize b" fs t m] by (simp add: layout_def)
    then show "get2byte d' t = get2byte d t" "get2byte d' (t + 2) = get2byte d (t + 2)" by (auto intro!: get2byte_cong fr)
  qed
  moreover have "slice d' a (int (length c)) = slice d a (int (length c))" if "(a, c) \<in> set cb" for a c
  proof -
    have "tp \<le> a" using that l by (force simp: layout_def exts_def)
    then show ?thesis by (auto intro!: slice_cong fr)
  qed
  moreover have "get2byte d' (hdr + 1) = get2byte d (hdr + 1)" "get2byte d' (hdr + 5) = get2byte d (hdr + 5)" "peek d' (hdr + 7) = peek d (hdr + 7)"
    by (auto intro!: get2byte_cong fr)
  ultimately show ?thesis using s by (auto simp: space_ok_def get2byteNotZero_def)
qed

text \<open>An empty page, as \<open>zeroPage\<close> makes it and as the removal of the last cell leaves it.\<close>

lemma empty_page:
  assumes "page_static b p" "nCell p = 0" "nFree p = usableSize b - cellOffset p"
    and "get2byte (aData p) (hdrOffset p + 1) = 0" "get2byte (aData p) (hdrOffset p + 3) = 0"
    and "get2byteNotZero (aData p) (hdrOffset p + 5) = usableSize b" "peek (aData p) (hdrOffset p + 7) = 0"
  shows "page_holds b p []"
proof (rule page_holdsI)
  show "space_ok b (hdrOffset p) (aData p) (usableSize b) [] []" using assms by (simp add: space_ok_def layout_def)
  show "iCellFirst p \<le> usableSize b" using assms static_bounds [OF assms(1)] by (simp add: iCellFirst_def)
qed (use assms in \<open>simp_all add: iCellFirst_def ptrs_ok_def\<close>)

lemma sum_remove: "k < length cs \<Longrightarrow> (\<Sum>c\<leftarrow>take k cs @ drop (Suc k) cs. f c) = (\<Sum>c\<leftarrow>cs. f c) - f (cs ! k)" for f :: "'a \<Rightarrow> int"
proof -
  assume k: "k < length cs"
  have "(\<Sum>c\<leftarrow>cs. f c) = (\<Sum>c\<leftarrow>take k cs @ cs ! k # drop (Suc k) cs. f c)" using id_take_nth_drop [OF k] by simp
  then show ?thesis by simp
qed

lemma drop_fits:
  assumes h: "page_holds b p cs" and k: "k < length cs"
  obtains p' where "dropCell b p (int k) (int (length (cs ! k))) SQLITE_OK = (SQLITE_OK, p')"
    "page_holds b p' (take k cs @ drop (Suc k) cs)"
proof -
  let ?hdr = "hdrOffset p" and ?co = "cellOffset p" and ?n = "int (length cs)" and ?c = "cs ! k"
  have st: "page_static b p" and nc: "nCell p = ?n" "get2byte (aData p) (?hdr + 3) = ?n" and cells: "\<forall>c\<in>set cs. cell_ok b p c"
    and nf: "nFree p = usableSize b - iCellFirst p - (\<Sum>c\<leftarrow>cs. int (length c))"
    using h by (simp_all add: page_holds_def)
  obtain tp cb fs where cb: "map snd cb = cs" "space_ok b ?hdr (aData p) tp cb fs" "ptrs_ok (aData p) ?co cb" "iCellFirst p \<le> tp"
    using h by (auto simp: page_holds_def)
  note u = static_bounds [OF st]
  have lc: "length cb = length cs" using cb(1) by auto
  have first: "iCellFirst p = ?co + 2 * ?n" using cell_count(2) [OF h] by simp
  obtain a where a: "cb ! k = (a, ?c)" using cb(1) k lc by (metis nth_map prod.collapse)
  have split: "cb = take k cb @ (a, ?c) # drop (Suc k) cb" using k lc by (simp add: a [symmetric] id_take_nth_drop)
  have pc: "get2byte (aData p) (?co + 2 * int k) = a" using cb(3) k lc a by (simp add: ptrs_ok_def)
  have l: "layout tp (usableSize b) (exts cb) fs" using cb(2) by (simp add: space_ok_def)
  have "(a, int (length ?c)) \<in> set (exts cb)" by (subst split) simp
  then have fits: "a + int (length ?c) \<le> usableSize b" and tpu: "tp \<le> usableSize b" using l by (auto simp: layout_def)
  have room: "room b ?hdr (aData p) tp" using u first cb(4) by (simp add: room_def)
  have sp0: "space_ok b ?hdr (aData p) tp (take k cb @ (a, ?c) # drop (Suc k) cb) fs" using cb(2) split by simp
  have sum: "0 \<le> nFree p" 
  proof -
    have "0 \<le> covered fs" using l by (auto simp: layout_def intro: blocks_covered)
    then show ?thesis using layout_covered [OF l] cb(1,4) nf covered_exts [of cb] by simp
  qed
  obtain d1 tp1 fs1 where f: "freeSpace b p a (int (length ?c)) = (SQLITE_OK, p\<lparr>aData := d1, nFree := nFree p + int (length ?c)\<rparr>)"
    "length d1 = length (aData p)" "tp \<le> tp1" "space_ok b ?hdr d1 tp1 (take k cb @ drop (Suc k) cb) fs1"
    "\<And>j. j < tp \<Longrightarrow> j \<notin> {?hdr + 1, ?hdr + 2, ?hdr + 5, ?hdr + 6, ?hdr + 7} \<Longrightarrow> peek d1 j = peek (aData p) j"
    by (rule freeSpace_ok [OF sp0 room refl], rule that, assumption+)
  have st1: "page_static b (p\<lparr>aData := d', nFree := x, nCell := y\<rparr>)"
    if "length d' = length d1" "peek d' ?hdr = peek d1 ?hdr" for d' x y
    using that f(2) f(5) [of ?hdr] u first cb(4) by (intro static_update [OF st]) auto
  have run: "dropCell b p (int k) (int (length ?c)) SQLITE_OK =
     (if ?n = 1 then (SQLITE_OK, p\<lparr>aData := put2byte (poke (memset d1 (?hdr + 1) 0 4) (?hdr + 7) 0) (?hdr + 5) (usableSize b),
                                nFree := usableSize b - ?hdr - childPtrSize p - 8, nCell := 0\<rparr>)
      else (SQLITE_OK, p\<lparr>aData := put2byte (memmove d1 (?co + 2 * int k) (?co + 2 * int k + 2) (2 * (?n - 1 - int k))) (?hdr + 3) (?n - 1),
                     nFree := nFree p + int (length ?c) + 2, nCell := ?n - 1\<rparr>))"
    using fits by (simp add: dropCell_def Let_def pc f(1) nc(1))
  show ?thesis
  proof (cases "?n = 1")
    case True
    define d2 where "d2 = put2byte (poke (memset d1 (?hdr + 1) 0 4) (?hdr + 7) 0) (?hdr + 5) (usableSize b)"
    let ?p' = "p\<lparr>aData := d2, nFree := usableSize b - ?hdr - childPtrSize p - 8, nCell := 0\<rparr>"
    have z: "peek d2 j = (if ?hdr + 1 \<le> j \<and> j < ?hdr + 5 \<or> j = ?hdr + 7 then 0 else peek d1 j)" if "j \<noteq> ?hdr + 5" "j \<noteq> ?hdr + 6" for j
      unfolding d2_def by (subst peek_put2byte_neq) (use that u f(2) in \<open>auto simp: peek_poke peek_memset\<close>)
    have "take k cs @ drop (Suc k) cs = []" using True k by simp
    moreover have "page_holds b ?p' []"
    proof (rule empty_page)
      show "page_static b ?p'" by (rule st1) (simp_all add: d2_def [symmetric] z, simp add: d2_def)
      show "nFree ?p' = usableSize b - cellOffset ?p'" using st by (simp add: page_static_def)
      show "get2byteNotZero (aData ?p') (hdrOffset ?p' + 5) = usableSize b"
        using u f(2) by (simp add: d2_def NotZero)
    qed (simp_all add: get2byte_0 z)
    ultimately have "page_holds b ?p' (take k cs @ drop (Suc k) cs)" by (simp only:)
    then show ?thesis unfolding d2_def by (rule that [OF run [unfolded if_P [OF True]]])
  next
    case False
    define d2 where "d2 = memmove d1 (?co + 2 * int k) (?co + 2 * int k + 2) (2 * (?n - 1 - int k))"
    define d3 where "d3 = put2byte d2 (?hdr + 3) (?n - 1)"
    let ?p' = "p\<lparr>aData := d3, nFree := nFree p + int (length ?c) + 2, nCell := ?n - 1\<rparr>" and ?cb = "take k cb @ drop (Suc k) cb"
    have p1: "ptrs_ok d1 ?co cb" using u first cb(4) lc by (intro ptrs_frame [OF cb(3)] f(5)) auto
    have k': "k < length cb" "0 \<le> ?co" "?co + 2 * int (length cb) \<le> int (length d1)" using k lc u f(2) first cb(4) tpu by simp_all
    note pr = ptrs_remove [OF p1 k', unfolded lc, folded d2_def]
    have fr: "peek d3 j = peek d1 j" if "j < ?co \<or> ?co + 2 * ?n \<le> j" "j \<noteq> ?hdr + 3" "j \<noteq> ?hdr + 4" for j
      using that(2,3) pr(2) [OF that(1)] unfolding d3_def by (subst peek_put2byte_neq) auto
    have "space_ok b ?hdr d3 tp1 ?cb fs1"
      using u first cb(4) f(3) by (intro space_frame [OF f(4)] fr) auto
    then have sp: "space_ok b (hdrOffset ?p') (aData ?p') tp1 ?cb fs1" by simp
    have pt: "ptrs_ok (aData ?p') (cellOffset ?p') ?cb"
      using u by (simp, intro ptrs_frame [OF pr(1)]) (simp add: d3_def peek_put2byte_neq)
    have st2: "page_static b ?p'"
      using u by (intro st1 fr) (auto simp: d3_def pr(3))
    have fst: "iCellFirst ?p' = iCellFirst p - 2" using first by (simp add: iCellFirst_def)
    have snds: "map snd ?cb = take k cs @ drop (Suc k) cs" using cb(1) by (simp add: take_map [symmetric] drop_map [symmetric])
    have "page_holds b ?p' (take k cs @ drop (Suc k) cs)"
    proof (rule page_holdsI [OF sp pt st2 _ snds])
      show "iCellFirst ?p' \<le> tp1" using fst cb(4) f(3) by simp
      show "nCell ?p' = int (length (take k cs @ drop (Suc k) cs))" using k by (simp add: of_nat_diff)
      have "get2byte d3 (?hdr + 3) = (?n - 1) mod 65536"
        unfolding d3_def using u k f(2) pr(3) by (intro get2byte_put2byte) auto
      also have "(?n - 1) mod 65536 = ?n - 1"
        using k cell_count(1) [OF h] u first sum by (intro mod_pos_pos_trivial) linarith+
      finally show "get2byte (aData ?p') (hdrOffset ?p' + 3) = nCell ?p'" by simp
      show "\<forall>c\<in>set (take k cs @ drop (Suc k) cs). cell_ok b ?p' c" using cells by (auto dest: in_set_takeD in_set_dropD)
      show "nFree ?p' = usableSize b - iCellFirst ?p' - (\<Sum>c\<leftarrow>take k cs @ drop (Suc k) cs. int (length c))"
        unfolding fst using nf sum_remove [OF k, of "\<lambda>c. int (length c)"] by simp
    qed
    then show ?thesis unfolding d3_def d2_def by (rule that [OF run [unfolded if_not_P [OF False]]])
  qed
qed

lemma decodeFlags_again:
  fixes p b assumes "flags \<in> {2, 5, 10, 13}" defines "q \<equiv> snd (decodeFlags b p flags)"
  shows "decodeFlags b (q\<lparr>cellOffset := x, nOverflow := y, maskPage := z, nCell := w, isInit := v\<rparr>) flags =
    (SQLITE_OK, q\<lparr>cellOffset := x, nOverflow := y, maskPage := z, nCell := w, isInit := v\<rparr>)"
proof -
  have n: "5 AND NOT PTF_LEAF = 5" "13 AND NOT PTF_LEAF = 5" "2 AND NOT PTF_LEAF = 2" "10 AND NOT PTF_LEAF = 2" by code_simp+
  have o: "PTF_LEAFDATA OR PTF_INTKEY = 5" "PTF_ZERODATA = 2" by code_simp+
  show ?thesis using assms(1) unfolding q_def
    by (cases p; elim insertE emptyE) (simp_all add: decodeFlags_def Let_def n o)
qed

lemma decodeFlags_rc: "flags \<in> {2, 5, 10, 13} \<Longrightarrow> fst (decodeFlags b p flags) = SQLITE_OK"
proof -
  have n: "5 AND NOT PTF_LEAF = 5" "13 AND NOT PTF_LEAF = 5" "2 AND NOT PTF_LEAF = 2" "10 AND NOT PTF_LEAF = 2" by code_simp+
  have o: "PTF_LEAFDATA OR PTF_INTKEY = 5" "PTF_ZERODATA = 2" by code_simp+
  assume "flags \<in> {2, 5, 10, 13}"
  then show ?thesis by (elim insertE emptyE) (simp_all add: decodeFlags_def Let_def n o)
qed

lemma leaf_flag: "flags \<in> {2, 5, 10, 13} \<Longrightarrow> flags AND PTF_LEAF = 0 \<longleftrightarrow> flags \<in> {2, 5}"
proof -
  have "2 AND PTF_LEAF = 0" "5 AND PTF_LEAF = 0" "10 AND PTF_LEAF = 8" "13 AND PTF_LEAF = 8" by code_simp+
  moreover assume "flags \<in> {2, 5, 10, 13}"
  ultimately show ?thesis by auto
qed

lemma zero_fits:
  assumes b: "bt_ok b0" "b = payload_limits b0" and f: "flags \<in> {2, 5, 10, 13}" and d: "int (length (aData p)) = pageSize b" "hdrOffset p \<in> {0, 100}"
  shows "page_holds b (zeroPage b p flags) []"
proof -
  let ?hdr = "hdrOffset p" and ?first = "hdrOffset p + (if flags AND PTF_LEAF = 0 then 12 else 8)"
  define d0 where "d0 = (if fast_secure b then memset (aData p) ?hdr 0 (usableSize b - ?hdr) else aData p)"
  define d1 where "d1 = put2byte (poke (memset (poke d0 ?hdr (word_of_int flags)) (?hdr + 1) 0 4) (?hdr + 7) 0) (?hdr + 5) (usableSize b)"
  define p1 where "p1 = p\<lparr>aData := d1, nFree := (usableSize b - ?first) mod 65536\<rparr>"
  define q where "q = snd (decodeFlags b p1 flags)"
  define p2 where "p2 = q\<lparr>cellOffset := ?first, nOverflow := 0, maskPage := (pageSize b - 1) mod 65536, nCell := 0, isInit := True\<rparr>"
  have z: "zeroPage b p flags = p2"
    by (simp add: zeroPage_def Let_def d0_def [symmetric] d1_def [symmetric] p1_def [symmetric] p2_def q_def split: prod.split)
  note again = decodeFlags_again [OF f, where b = b and p = p1, folded q_def]
  have ok: "bt_ok b" and ps: "480 \<le> usableSize b" "usableSize b \<le> pageSize b" "pageSize b \<le> 65536"
    using payload_limits(7,8) [OF b(1)] b by (simp_all add: bt_ok_def)
  have p1: "fst (decodeFlags b p1 flags) = SQLITE_OK" using again by (metis (no_types) decodeFlags_rc [OF f])
  have k: "decodeFlags b p1 flags = (SQLITE_OK, q)" using p1 by (simp add: q_def prod_eq_iff)
  have kind: "page_kind b q" "aData q = d1" "hdrOffset q = ?hdr" "(leaf q = 1) = (flags \<in> {13, 10})" "nFree q = (usableSize b - ?first) mod 65536"
    using decodeFlags_kind [OF k b] f by (auto simp: p1_def)
  have "childPtrSize q = (if leaf q = 1 then 0 else 4)"
    using kind(1) unfolding page_kind_def by (elim conjE disjE) auto
  then have first: "?first = ?hdr + 8 + childPtrSize q"
    using kind(4) f leaf_flag [OF f] by (elim insertE emptyE) simp_all
  have len: "int (length d1) = pageSize b" using d(1) by (simp add: d1_def d0_def)
  have at: "peek d1 j = (if j = ?hdr then word_of_int flags else if j \<in> {?hdr + 1, ?hdr + 2, ?hdr + 3, ?hdr + 4, ?hdr + 7} then 0 else peek d0 j)"
    if "j \<noteq> ?hdr + 5" "j \<noteq> ?hdr + 6" for j
  proof -
    have l0: "?hdr + 7 < int (length d0)" and h: "0 \<le> ?hdr" using d ps by (auto simp: d0_def)
    have o: "j \<noteq> ?hdr + 5 + 1" using that(2) by simp
    show ?thesis unfolding d1_def peek_put2byte_neq [OF that(1) o] peek_poke peek_memset length_writes using l0 h that by simp
  qed
  have nf: "(usableSize b - ?first) mod 65536 = usableSize b - ?first" using ps d(2) by (intro mod_pos_pos_trivial) auto
  show ?thesis unfolding z
  proof (rule empty_page)
    have "uint (peek (aData p2) (hdrOffset p2)) = flags" using f by (auto simp: p2_def kind at)
    then show "page_static b p2"
      using again ok kind(1) first d(2) len by (simp add: page_static_def p2_def kind(2,3)) (simp add: page_kind_def)
    show "get2byteNotZero (aData p2) (hdrOffset p2 + 5) = usableSize b"
      unfolding p2_def using ps d len by (auto simp: kind(2,3) d1_def d0_def intro!: NotZero)
    show "nFree p2 = usableSize b - cellOffset p2" using kind(5) nf by (simp add: p2_def)
  qed (simp_all add: p2_def kind(2,3) get2byte_0 at)
qed

subsection \<open>Reading a page back\<close>

lemma free_walk_at:
  "blocks_ok lo u fs \<Longrightarrow> fs \<noteq> [] \<Longrightarrow> 0 < lo \<Longrightarrow> chained d fs 0 \<Longrightarrow>
   \<exists>s m. free_walk d (u - 4) (head_ptr fs 0) n = Some (0, s, m, n + covered fs) \<and> s + m \<le> u"
proof (induction fs arbitrary: lo n)
  case (Cons x fs)
  obtain s m where x: "x = (s, m)" by fastforce
  show ?case
  proof (cases fs)
    case Nil
    then show ?thesis using Cons.prems by (subst free_walk.simps) (simp add: x Let_def)
  next
    case (Cons y ys)
    obtain t k where y: "y = (t, k)" by fastforce
    have c: "chained d fs 0" "blocks_ok (s + m + 4) u fs" "fs \<noteq> []" "0 < s + m + 4" "get2byte d s = t" "get2byte d (s + 2) = m"
      "s \<le> u - 4" "s + m + 4 \<le> t" "head_ptr fs 0 = t"
      using Cons.prems(1,3,4) by (auto simp: x y Cons)
    show ?thesis using Cons.IH [OF c(2,3,4,1), of "n + m"] c(5-9)
      by (subst free_walk.simps) (simp add: x Let_def add.assoc)
  qed
qed simp

lemma compute_free:
  assumes h: "page_holds b p cs" and q: "aData q = aData p" "hdrOffset q = hdrOffset p" "childPtrSize q = childPtrSize p" "nCell q = nCell p"
  shows "btreeComputeFreeSpace b q = (SQLITE_OK, q\<lparr>nFree := nFree p\<rparr>)"
proof -
  let ?hdr = "hdrOffset p" and ?d = "aData p"
  have st: "page_static b p" and nf: "nFree p = usableSize b - iCellFirst p - (\<Sum>c\<leftarrow>cs. int (length c))"
    using h by (simp_all add: page_holds_def)
  obtain tp cb fs where cb: "map snd cb = cs" "space_ok b ?hdr ?d tp cb fs" "iCellFirst p \<le> tp"
    using h by (auto simp: page_holds_def)
  note u = static_bounds [OF st]
  have l: "layout tp (usableSize b) (exts cb) fs" and top: "get2byteNotZero ?d (?hdr + 5) = tp" and hd: "get2byte ?d (?hdr + 1) = head_ptr fs 0"
    and ch: "chained ?d fs 0" and fr: "uint (peek ?d (?hdr + 7)) = usableSize b - tp - covered (exts cb) - covered fs"
    using cb(2) by (simp_all add: space_ok_def)
  have bl: "blocks_ok (tp + 1) (usableSize b) fs" using l by (simp add: layout_def)
  define n where "n = uint (peek ?d (?hdr + 7)) + tp"
  have n: "n + covered fs = usableSize b - (\<Sum>c\<leftarrow>cs. int (length c))" using fr cb(1) by (simp add: n_def covered_exts)
  have tp0: "0 < tp" using top NotZero_get(2) [of ?d "?hdr + 5"] by simp
  have walked: "(if 0 < head_ptr fs 0 then
                      if head_ptr fs 0 < tp then None
                      else (case free_walk ?d (usableSize b - 4) (head_ptr fs 0) n of
                              None \<Rightarrow> None
                            | Some (nxt, pc, sz, n) \<Rightarrow> if 0 < nxt then None else if usableSize b < pc + sz then None else Some n)
                    else Some n) = Some (n + covered fs)"
  proof (cases "fs = []")
    case False
    have "tp < head_ptr fs 0" using bl False by (cases fs) auto
    moreover obtain s m where "free_walk ?d (usableSize b - 4) (head_ptr fs 0) n = Some (0, s, m, n + covered fs)" "s + m \<le> usableSize b"
      using free_walk_at [OF bl False _ ch, of n] tp0 by auto
    ultimately show ?thesis using tp0 by simp
  qed simp
  have first: "?hdr + 8 + childPtrSize p + 2 * nCell p = iCellFirst p" using st by (simp add: page_static_def iCellFirst_def)
  have cov: "0 \<le> (\<Sum>c\<leftarrow>cs. int (length c))" by (intro sum_list_nonneg) auto
  have small: "0 \<le> nFree p" "nFree p < 65536" "n + covered fs \<le> usableSize b" "\<not> n + covered fs < iCellFirst p"
    "n + covered fs - iCellFirst p = nFree p"
  proof -
    have "0 \<le> covered fs" using bl by (rule blocks_covered)
    then show nn: "0 \<le> nFree p" using layout_covered [OF l] cb(1,3) nf covered_exts [of cb] by simp
    show "nFree p < 65536" using nf cov u cell_count [OF h] by simp
    show "n + covered fs \<le> usableSize b" "n + covered fs - iCellFirst p = nFree p" using n cov nf by simp_all
    then show "\<not> n + covered fs < iCellFirst p" using nn by linarith
  qed
  show ?thesis
    unfolding btreeComputeFreeSpace_def Let_def q hd top first n_def [symmetric] walked
    using small by simp
qed

lemma decodeFlags_fields:
  fixes b p q f defines "r \<equiv> decodeFlags b q f" and "s \<equiv> decodeFlags b p f"
  shows "fst r = fst s" "fst s = SQLITE_OK \<Longrightarrow> xCellSize (snd r) = xCellSize (snd s) \<and> childPtrSize (snd r) = childPtrSize (snd s) \<and>
      leaf (snd r) = leaf (snd s) \<and> maxLocal (snd r) = maxLocal (snd s) \<and> minLocal (snd r) = minLocal (snd s) \<and>
      xParseCell (snd r) = xParseCell (snd s) \<and> intKey (snd r) = intKey (snd s) \<and> intKeyLeaf (snd r) = intKeyLeaf (snd s)"
    "aData (snd r) = aData q" "hdrOffset (snd r) = hdrOffset q"
  by (cases p; cases q; cases "f AND NOT PTF_LEAF = PTF_LEAFDATA OR PTF_INTKEY"; cases "f AND NOT PTF_LEAF = PTF_ZERODATA"; cases "(f div 8) mod 256 = 0";
      simp add: r_def s_def decodeFlags_def Let_def SQLITE_OK_def SQLITE_CORRUPT_def)+

lemma cellSizeOf_fields:
  assumes "xCellSize q = xCellSize p" "childPtrSize q = childPtrSize p" "maxLocal q = maxLocal p" "minLocal q = minLocal p" "intKey q = intKey p"
  shows "cellSizeOf b q c = cellSizeOf b p c"
  using assms by (simp add: cellSizeOf_def cellSizePtr_def spill_surplus_def Let_def split: cell_size.split prod.split)

lemma interior_cell:
  assumes k: "page_kind b p" and u: "480 \<le> usableSize b" "usableSize b \<le> 65536" and "leaf p = 0"
  shows "5 \<le> cellSizeOf b p c"
proof (cases "xCellSize p")
  case CellSizePtrNoPayload
  have "4 < skip_varint c 13 4" "skip_varint c 13 4 \<le> 13" using skip_key [where p = c and i = 4] by simp_all
  then show ?thesis by (simp add: cellSizeOf_def cellSizePtrNoPayload_def CellSizePtrNoPayload)
next
  case CellSizePtr
  then have f: "\<not> intKey p" "childPtrSize p = 4" using k \<open>leaf p = 0\<close> by (auto simp: page_kind_def)
  have m: "maxLocal p + 22 < 65536" "0 < minLocal p" "minLocal p \<le> maxLocal p" using k u by (auto simp: page_kind_def)
  obtain n i where pv: "payload_varint c 4 = (n, i)" by fastforce
  then have i: "4 < i" "i \<le> 13" using payload_varint_len [of 4 c] by simp_all
  have n: "0 \<le> uint n" "uint n < 2 ^ 32" using uint_lt2p [of n] by simp_all
  show ?thesis
  proof (cases "uint n \<le> maxLocal p")
    case True
    then have "(uint n + i) mod 65536 = uint n + i" "5 \<le> uint n + i" using m i n by ((intro mod_pos_pos_trivial)?; linarith)+
    moreover have "cellSizeOf b p c = (if uint n + i < 4 then 4 else uint n + i) mod 65536"
      using True by (simp add: cellSizeOf_def CellSizePtr cellSizePtr_def f pv Let_def)
    moreover have "\<not> uint n + i < 4" using i n by linarith
    ultimately show ?thesis by presburger
  next
    case False
    note l = local_payload [OF k u _ n(2)]
    define s where "s = btreePayloadToLocal b p (uint n)"
    have s: "0 < s" "s \<le> maxLocal p" using l(3,4) False by (simp_all add: s_def)
    then have "(s + (4 + i mod 65536)) mod 65536 = s + (4 + i)" using m i by simp
    moreover have "cellSizeOf b p c = (s + (4 + i mod 65536)) mod 65536"
      using l(2) False by (simp add: cellSizeOf_def CellSizePtr cellSizePtr_def f pv Let_def s_def not_le)
    ultimately show ?thesis using s i by linarith
  qed
qed

lemma cell_size_loop_ok:
  "(\<And>i. i \<in> set is \<Longrightarrow> let pc = get2byte (aData p) (cellOffset p + i * 2) in
      first \<le> pc \<and> pc \<le> l \<and> pc + cellSizeOf b p (drop (nat pc) (aData p)) \<le> usableSize b) \<Longrightarrow> cell_size_loop b p first l is = SQLITE_OK"
proof (induction "is")
  case (Cons j js)
  then show ?case using Cons.prems [of j] by (simp add: Let_def not_less [symmetric])
qed simp

lemma size_check:
  assumes h: "page_holds b p cs" and q: "aData q = aData p" "nCell q = nCell p" "cellOffset q = cellOffset p" "leaf q = leaf p" "\<And>c. cellSizeOf b q c = cellSizeOf b p c"
  shows "btreeCellSizeCheck b q = SQLITE_OK" "nCell p \<le> MX_CELL b"
proof -
  have st: "page_static b p" and nc: "nCell p = int (length cs)" and cells: "\<forall>c\<in>set cs. cell_ok b p c"
    using h by (simp_all add: page_holds_def)
  obtain tp cb fs where cb: "map snd cb = cs" "space_ok b (hdrOffset p) (aData p) tp cb fs" "ptrs_ok (aData p) (cellOffset p) cb" "iCellFirst p \<le> tp"
    using h by (auto simp: page_holds_def)
  note u = static_bounds [OF st]
  have k: "page_kind b p" using st by (simp add: page_static_def)
  let ?l = "if leaf p = 0 then usableSize b - 4 - 1 else usableSize b - 4"
  have "cell_size_loop b q (iCellFirst p) ?l (map int [0..<nat (nCell p)]) = SQLITE_OK"
  proof (rule cell_size_loop_ok)
    fix i assume "i \<in> set (map int [0..<nat (nCell p)])"
    then obtain m where m: "i = int m" "m < length cs" using nc by auto
    have lc: "length cb = length cs" using cb(1) by auto
    obtain a c where ac: "cb ! m = (a, c)" by fastforce
    then have mem: "(a, c) \<in> set cb" using m lc by (metis nth_mem)
    then have c: "c \<in> set cs" using cb(1) by force
    have pc: "get2byte (aData p) (cellOffset p + i * 2) = a" using cb(3) m lc ac by (simp add: ptrs_ok_def mult.commute)
    have "(a, int (length c)) \<in> set (exts cb)" using mem by (force simp: exts_def)
    then have a: "tp \<le> a" "a + int (length c) \<le> usableSize b" "4 \<le> int (length c)" using cb(2) by (auto simp: space_ok_def layout_def)
    have a0: "0 \<le> a" "int (length c) \<ge> 0" "a + int (length c) \<le> int (length (aData p))" using a u cb(4) cell_count [OF h] by linarith+
    have "slice (aData p) a (int (length c)) = c" using cb(2) mem by (auto simp: space_ok_def)
    then have "drop (nat a) (aData p) = c @ drop (nat (a + int (length c))) (aData p)" using slice_drop [OF a0] by simp
    then have sz: "cellSizeOf b p (drop (nat a) (aData p)) = int (length c)" using cells c by (simp add: cell_ok_def)
    have "leaf p = 0 \<Longrightarrow> 5 \<le> int (length c)" using interior_cell [OF k u(6,4), of "drop (nat a) (aData p)"] sz by simp
    then show "let pc = get2byte (aData q) (cellOffset q + i * 2) in
      iCellFirst p \<le> pc \<and> pc \<le> ?l \<and> pc + cellSizeOf b q (drop (nat pc) (aData q)) \<le> usableSize b"
      using a cb(4) unfolding q pc Let_def sz by auto
  qed
  moreover have "iCellFirst q = iCellFirst p" by (simp add: iCellFirst_def q)
  ultimately show "btreeCellSizeCheck b q = SQLITE_OK" by (simp add: btreeCellSizeCheck_def q)
  have "0 \<le> nFree p"
  proof -
    have "layout tp (usableSize b) (exts cb) fs" using cb(2) by (simp add: space_ok_def)
    moreover from this have "0 \<le> covered fs" by (auto simp: layout_def intro: blocks_covered)
    ultimately show ?thesis using layout_covered [of tp "usableSize b" "exts cb" fs] cb(1,4) h covered_exts [of cb] by (simp add: page_holds_def)
  qed
  then have "6 * nCell p \<le> pageSize b - 8" using cell_count [OF h] nc u st by (simp add: page_static_def bt_ok_def)
  then show "nCell p \<le> MX_CELL b" unfolding MX_CELL_def by linarith
qed

lemma decodeFlags_flag:
  assumes "decodeFlags b p f = (SQLITE_OK, p')" shows "f \<in> {2, 5, 10, 13}"
proof -
  have "f AND NOT PTF_LEAF \<in> {5, 2}"
    using assms by (auto simp: decodeFlags_def Let_def SQLITE_OK_def SQLITE_CORRUPT_def PTF_LEAFDATA_def PTF_INTKEY_def
        PTF_ZERODATA_def split: if_splits)
  then show ?thesis using leaf_bits by blast
qed

lemma reload_page:
  assumes h: "page_holds b p cs" and q: "aData q = aData p" "hdrOffset q = hdrOffset p"
  obtains p1 p2 where "btreeInitPage b q = (SQLITE_OK, p1)" "btreeComputeFreeSpace b p1 = (SQLITE_OK, p2)" "page_holds b p2 cs" "nFree p2 = nFree p"
proof -
  have st: "page_static b p" and nc: "nCell p = int (length cs)" "get2byte (aData p) (hdrOffset p + 3) = nCell p"
    using h by (simp_all add: page_holds_def)
  obtain tp cb fs where cb: "map snd cb = cs" "space_ok b (hdrOffset p) (aData p) tp cb fs" "ptrs_ok (aData p) (cellOffset p) cb" "iCellFirst p \<le> tp"
    using h by (auto simp: page_holds_def)
  let ?f = "uint (peek (aData p) (hdrOffset p))"
  define r where "r = snd (decodeFlags b q ?f)"
  note f = decodeFlags_fields(1,2) [where b = b and p = p and q = q and f = ?f] decodeFlags_fields(3,4) [where b = b and q = q and f = ?f]
  have dp: "decodeFlags b p ?f = (SQLITE_OK, p)" using st by (simp add: page_static_def)
  have dq: "decodeFlags b q ?f = (SQLITE_OK, r)" using f(1) dp by (simp add: r_def prod_eq_iff)
  have r: "xCellSize r = xCellSize p" "childPtrSize r = childPtrSize p" "leaf r = leaf p" "maxLocal r = maxLocal p" "minLocal r = minLocal p"
    "xParseCell r = xParseCell p" "intKey r = intKey p" "intKeyLeaf r = intKeyLeaf p" "aData r = aData p" "hdrOffset r = hdrOffset p"
    using f(2,3,4) dp dq q by simp_all
  have co: "hdrOffset p + 8 + childPtrSize p = cellOffset p" using st by (simp add: page_static_def)
  define p1 where "p1 = r\<lparr>maskPage := (pageSize b - 1) mod 65536, nOverflow := 0, cellOffset := cellOffset p, nCell := nCell p, nFree := - 1, isInit := True\<rparr>"
  have p1: "aData p1 = aData p" "hdrOffset p1 = hdrOffset p" "childPtrSize p1 = childPtrSize p" "nCell p1 = nCell p" "cellOffset p1 = cellOffset p"
    "leaf p1 = leaf p" "xCellSize p1 = xCellSize p" "maxLocal p1 = maxLocal p" "minLocal p1 = minLocal p" "intKey p1 = intKey p"
    using r by (simp_all add: p1_def)
  have size: "cellSizeOf b p1 c = cellSizeOf b p c" for c by (rule cellSizeOf_fields [OF p1(7,3,8,9,10)])
  note chk = size_check [OF h p1(1,4,5,6) size]
  have "btreeInitPage b q = (SQLITE_OK, p1)"
    using chk(2) by (simp add: btreeInitPage_def q dq Let_def r co nc(2)) (simp add: p1_def [symmetric] chk(1))
  moreover have "btreeComputeFreeSpace b p1 = (SQLITE_OK, p1\<lparr>nFree := nFree p\<rparr>)" by (rule compute_free [OF h p1(1-4)])
  moreover have "page_holds b (p1\<lparr>nFree := nFree p\<rparr>) cs"
  proof (rule page_holdsI)
    let ?p2 = "p1\<lparr>nFree := nFree p\<rparr>"
    define x where "x = r\<lparr>cellOffset := cellOffset p, nOverflow := 0, maskPage := (pageSize b - 1) mod 65536, nCell := nCell p, isInit := True\<rparr>"
    have x: "decodeFlags b x ?f = (SQLITE_OK, x)"
      unfolding x_def r_def by (rule decodeFlags_again [OF decodeFlags_flag [OF dp]])
    have "?p2 = x\<lparr>aData := aData x, nFree := nFree p, nCell := nCell x\<rparr>" by (simp add: x_def p1_def)
    then have "decodeFlags b ?p2 ?f = (SQLITE_OK, ?p2)" using x by (simp only: decodeFlags_update map_prod_simp id_apply)
    moreover have "page_kind b ?p2" using st r by (simp add: page_static_def page_kind_def p1_def)
    ultimately show "page_static b ?p2" using st p1 by (simp add: page_static_def) (simp add: p1_def)
  qed (use h cb p1 nc size in \<open>simp_all add: iCellFirst_def page_holds_def cell_ok_def\<close>)
  ultimately show ?thesis using that by simp
qed

subsection \<open>The page refines a list of cells\<close>

lemma nth_eq_peek: "i < length d \<Longrightarrow> d ! i = peek d (int i)"
  by (simp add: peek_def)

lemma overflow_cell: "4 \<le> sz \<Longrightarrow>
    (if iChild \<noteq> 0 then blit (slice pCell 0 sz) 0 (sqlite3Put4byte iChild) else slice pCell 0 sz) = new_cell pCell sz iChild"
proof -
  assume sz: "4 \<le> sz"
  have l4: "length (sqlite3Put4byte iChild) = 4" by (simp add: sqlite3Put4byte_def)
  have "blit (slice pCell 0 sz) 0 (sqlite3Put4byte iChild) = sqlite3Put4byte iChild @ slice pCell 4 (sz - 4)"
  proof (rule nth_equalityI)
    fix i assume "i < length (blit (slice pCell 0 sz) 0 (sqlite3Put4byte iChild))"
    then have i: "i < nat sz" by simp
    then have "blit (slice pCell 0 sz) 0 (sqlite3Put4byte iChild) ! i = peek (blit (slice pCell 0 sz) 0 (sqlite3Put4byte iChild)) (int i)"
      using nth_eq_peek [of i "blit (slice pCell 0 sz) 0 (sqlite3Put4byte iChild)"] sz by simp
    also have "\<dots> = (sqlite3Put4byte iChild @ slice pCell 4 (sz - 4)) ! i"
      unfolding peek_blit using i sz l4 by (auto simp: nth_append peek_def nth_slice)
    finally show "blit (slice pCell 0 sz) 0 (sqlite3Put4byte iChild) ! i = (sqlite3Put4byte iChild @ slice pCell 4 (sz - 4)) ! i" .
  qed (use sz l4 in simp)
  then show ?thesis by (simp add: new_cell_def)
qed

lemma cells_fit: "page_holds b p cs \<Longrightarrow> 0 \<le> nFree p \<and> int (length cs) < 65536"
proof -
  assume h: "page_holds b p cs"
  obtain tp cb fs where cb: "map snd cb = cs" "space_ok b (hdrOffset p) (aData p) tp cb fs" "iCellFirst p \<le> tp"
    using h by (auto simp: page_holds_def)
  have l: "layout tp (usableSize b) (exts cb) fs" using cb(2) by (simp add: space_ok_def)
  then have "0 \<le> covered fs" by (auto simp: layout_def intro: blocks_covered)
  then have n: "0 \<le> nFree p" using layout_covered [OF l] cb(1,3) h covered_exts [of cb] by (simp add: page_holds_def)
  have "page_static b p" using h by (simp add: page_holds_def)
  from n cell_count [OF h] static_bounds [OF this] show ?thesis by simp
qed

lemma defragment_holds:
  assumes h: "page_holds b p cs" and tmp: "usableSize b \<le> int (length tmp)" and frag: "0 \<le> maxFrag"
  obtains p' where "defragmentPage b tmp p maxFrag = (SQLITE_OK, p')" "page_holds b p' cs"
    "get2byte (aData p') (hdrOffset p' + 1) = 0" "uint (peek (aData p') (hdrOffset p' + 7)) \<le> maxFrag"
proof -
  let ?hdr = "hdrOffset p" and ?co = "cellOffset p"
  have st: "page_static b p" and nc: "nCell p = int (length cs)" "get2byte (aData p) (?hdr + 3) = nCell p" and cells: "\<forall>c\<in>set cs. cell_ok b p c"
    and nf: "nFree p = usableSize b - iCellFirst p - (\<Sum>c\<leftarrow>cs. int (length c))"
    using h by (simp_all add: page_holds_def)
  obtain tp cb fs where cb: "map snd cb = cs" "space_ok b ?hdr (aData p) tp cb fs" "ptrs_ok (aData p) ?co cb" "iCellFirst p \<le> tp"
    using h by (auto simp: page_holds_def)
  note u = static_bounds [OF st]
  have lc: "length cb = length cs" using cb(1) by auto
  have p4: "nCell p = int (length cb)" "nFree p = usableSize b - iCellFirst p - covered (exts cb)" using nc nf lc cb(1) by (simp_all add: covered_exts)
  have first: "iCellFirst p = ?co + 2 * int (length cb)" using p4 by (simp add: iCellFirst_def)
  have room: "room b ?hdr (aData p) tp" using u cb(4) first by (simp add: room_def)
  have cok: "\<forall>(a, c)\<in>set cb. cell_ok b p c" using cells cb(1) by force
  obtain d1 tp1 cb1 where d1: "defragmentPage b tmp p maxFrag = (SQLITE_OK, p\<lparr>aData := d1\<rparr>)" "length d1 = length (aData p)"
    "map snd cb1 = map snd cb" "space_ok b ?hdr d1 tp1 cb1 []" "ptrs_ok d1 ?co cb1" "uint (peek d1 (?hdr + 7)) \<le> maxFrag"
    "\<And>j. j < ?co \<Longrightarrow> j \<notin> {?hdr + 1, ?hdr + 2, ?hdr + 5, ?hdr + 6, ?hdr + 7} \<Longrightarrow> peek d1 j = peek (aData p) j" "?co + 2 * int (length cb) \<le> tp1"
    by (rule defragmentPage_ok [OF cb(2) room refl refl p4 u(2) cb(4) [unfolded first] cb(3) cok tmp frag], rule that, assumption+)
  let ?p' = "p\<lparr>aData := d1\<rparr>"
  have "page_static b (p\<lparr>aData := d1, nFree := nFree p, nCell := nCell p\<rparr>)"
    using u d1(2,7) by (intro static_update [OF st]) auto
  then have st2: "page_static b ?p'" by simp
  have "get2byte d1 (?hdr + 3) = get2byte (aData p) (?hdr + 3)"
    using u by (intro get2byte_cong d1(7)) auto
  moreover have f2: "iCellFirst ?p' = iCellFirst p" by (simp add: iCellFirst_def)
  ultimately have "page_holds b ?p' cs"
    using d1(3,4,5,8) cb(1) first nc nf cells st2 by (intro page_holdsI [of b ?p' tp1 cb1 "[]"]) simp_all
  then show ?thesis using d1(1,4,6) by (intro that [of ?p']) (simp_all add: space_ok_def)
qed

text \<open>
  C36. The insertion of a cell into a page refines the insertion into a list: when the cell and its pointer fit, the page
  afterwards holds the list with the new cell at its place, whatever the layout, defragmented on the way if need be;
  otherwise the cell becomes the overflow cell and the bytes stay as they are; and when the pager does not make the page
  writable, its error is returned and the page is left alone. An error of the pointer map is passed on.
\<close>

theorem insertCell_refines:
  assumes "page_holds b p cs" "usableSize b \<le> int (length tmp)" "k \<le> length cs" "4 \<le> sz" "cell_ok b p (new_cell pCell sz iChild)"
  shows "case insertCell b tmp pager_rc ptrmap_rc p (int k) pCell sz iChild of (rc, p') \<Rightarrow>
    if nFree p < sz + 2 then rc = SQLITE_OK \<and> p' = p\<lparr>nOverflow := 1, apOvfl := [new_cell pCell sz iChild], aiOvfl := [int k]\<rparr>
    else if pager_rc \<noteq> SQLITE_OK then rc = pager_rc \<and> p' = p
    else rc = (if autoVacuum b then ptrmap_rc else SQLITE_OK) \<and> page_holds b p' (take k cs @ new_cell pCell sz iChild # drop k cs)"
proof -
  have st: "page_static b p" using assms(1) by (simp add: page_holds_def)
  then have ov: "nOverflow p = 0" by (simp add: page_static_def)
  have "int k < 65536" "0 \<le> nFree p \<or> nFree p < sz + 2" using assms(1-4) cells_fit [OF assms(1)] by linarith+
  then have k: "int k mod 65536 = int k" by simp
  consider "nFree p < sz + 2" | "sz + 2 \<le> nFree p" "pager_rc \<noteq> SQLITE_OK" | "sz + 2 \<le> nFree p" "pager_rc = SQLITE_OK" by linarith
  then show ?thesis
  proof cases
    case 1
    then show ?thesis by (simp add: insertCell_def ov k overflow_cell [OF assms(4)] Let_def)
  next
    case 2
    then show ?thesis by (simp add: insertCell_def ov)
  next
    case 3
    obtain p' where "insertCell b tmp SQLITE_OK ptrmap_rc p (int k) pCell sz iChild = (if autoVacuum b then ptrmap_rc else SQLITE_OK, p')"
      "page_holds b p' (take k cs @ new_cell pCell sz iChild # drop k cs)"
      by (rule insert_fits [OF assms(1-4) 3(1) assms(5)], rule that, assumption+)
    then show ?thesis using 3 by simp
  qed
qed

text \<open>
  C37. The removal of a cell refines the removal from the list, down to the empty page; an earlier error passes through.
\<close>

theorem dropCell_refines:
  assumes "page_holds b p cs" "k < length cs"
  shows "case dropCell b p (int k) (int (length (cs ! k))) pRC of (rc, p') \<Rightarrow>
    rc = pRC \<and> (if pRC = SQLITE_OK then page_holds b p' (take k cs @ drop (Suc k) cs) else p' = p)"
proof (cases "pRC = SQLITE_OK")
  case True
  obtain p' where "dropCell b p (int k) (int (length (cs ! k))) SQLITE_OK = (SQLITE_OK, p')" "page_holds b p' (take k cs @ drop (Suc k) cs)"
    by (rule drop_fits [OF assms], rule that, assumption+)
  then show ?thesis using True by simp
qed (simp add: dropCell_def)

text \<open>
  C39. Defragmentation, by shifting the contents or by packing all cells anew, keeps the cells and their order, leaves no
  free block and no more fragments than it was asked for.
\<close>

theorem defragmentPage_keeps_cells:
  assumes "page_holds b p cs" "usableSize b \<le> int (length tmp)" "0 \<le> nMaxFrag"
  shows "case defragmentPage b tmp p nMaxFrag of (rc, p') \<Rightarrow>
    rc = SQLITE_OK \<and> page_holds b p' cs \<and> get2byte (aData p') (hdrOffset p' + 1) = 0 \<and> uint (peek (aData p') (hdrOffset p' + 7)) \<le> nMaxFrag"
proof -
  obtain p' where "defragmentPage b tmp p nMaxFrag = (SQLITE_OK, p')" "page_holds b p' cs" "get2byte (aData p') (hdrOffset p' + 1) = 0"
    "uint (peek (aData p') (hdrOffset p' + 7)) \<le> nMaxFrag"
    by (rule defragment_holds [OF assms], rule that, assumption+)
  then show ?thesis by simp
qed

text \<open>
  C38. What a page holds is all in its bytes: the same bytes, taken into a page in any state, pass the checks of
  \<open>btreeInitPage\<close> and \<open>btreeComputeFreeSpace\<close>, also with \<open>cell_size_check\<close>, which find the same cells and
  the same number of free bytes again.
\<close>

theorem page_read_back:
  assumes "page_holds b p cs" "aData q = aData p" "hdrOffset q = hdrOffset p"
  shows "\<exists>p1 p2. btreeInitPage b q = (SQLITE_OK, p1) \<and> btreeComputeFreeSpace b p1 = (SQLITE_OK, p2) \<and> page_holds b p2 cs \<and> nFree p2 = nFree p"
  by (rule reload_page [OF assms]) blast

text \<open>A page of 512 bytes, a leaf of a table, with three cells: the payload size, the key and the payload.\<close>

definition ex_bt :: BtShared where
  "ex_bt = payload_limits (raw_bt 512)"

definition ex_page :: MemPage where
  "ex_page = zeroPage ex_bt (raw_page 0 (replicate 512 0)) 13"

definition ex_cell :: "u8 \<Rightarrow> u8 list" where
  "ex_cell k = [3, k, 65, 66, 67]"

lemma ex_page: "page_holds ex_bt ex_page []"
  unfolding ex_page_def ex_bt_def by (rule zero_fits [OF _ refl]) (simp_all add: bt_ok_def raw_bt_def raw_page_def payload_limits_def Let_def)

lemma zeroPage_form: "\<exists>q c m. zeroPage b p f =
    (snd (decodeFlags b q f))\<lparr>cellOffset := c, nOverflow := 0, maskPage := m, nCell := 0, isInit := True\<rparr> \<and> hdrOffset q = hdrOffset p"
  unfolding zeroPage_def Let_def case_prod_beta by (intro exI, rule conjI, rule refl, simp)

lemma ex_fields: "xCellSize ex_page = CellSizePtr" "childPtrSize ex_page = 0" "intKey ex_page" "maxLocal ex_page = 477" "nFree ex_page = 504"
  "usableSize ex_bt = 512"
proof -
  obtain q c m where z: "ex_page = (snd (decodeFlags ex_bt q 13))\<lparr>cellOffset := c, nOverflow := 0, maskPage := m, nCell := 0, isInit := True\<rparr>"
    "hdrOffset q = 0"
    unfolding ex_page_def using zeroPage_form [of ex_bt "raw_page 0 (replicate 512 0)" 13] by (auto simp: raw_page_def)
  let ?s = "decodeFlags ex_bt (raw_page 0 []) 13"
  have s: "fst ?s = SQLITE_OK" "xCellSize (snd ?s) = CellSizePtr" "childPtrSize (snd ?s) = 0" "intKey (snd ?s)" "maxLocal (snd ?s) = 477"
    by code_simp+
  show f: "xCellSize ex_page = CellSizePtr" "childPtrSize ex_page = 0" "intKey ex_page" "maxLocal ex_page = 477"
    using decodeFlags_fields(2) [OF s(1), of q] s by (simp_all add: z(1))
  show u: "usableSize ex_bt = 512" by (simp add: ex_bt_def payload_limits_def raw_bt_def Let_def)
  have "hdrOffset ex_page = 0" using z(2) decodeFlags_fields(4) [of ex_bt q 13] by (simp add: z(1))
  then show "nFree ex_page = 504" using ex_page f(2) u by (simp add: page_holds_def page_static_def iCellFirst_def)
qed

lemma ex_cell: "k < 0x80 \<Longrightarrow> cell_ok ex_bt ex_page (new_cell (ex_cell k) 5 0)" "new_cell (ex_cell k) 5 0 = ex_cell k"
proof -
  show e: "new_cell (ex_cell k) 5 0 = ex_cell k" by (simp add: new_cell_def ex_cell_def slice_def peek_def upt_rec)
  assume "k < 0x80"
  then have k: "k AND 0x80 = 0" using high_bit [of k] by (metis linorder_not_le)
  have "cellSizeOf ex_bt ex_page (ex_cell k @ rest) = 5" for rest
  proof -
    have "payload_varint (ex_cell k @ rest) 0 = (3, 1)" by (simp add: payload_varint_def peek_def ex_cell_def)
    moreover have "skip_varint (ex_cell k @ rest) 10 1 = 2" using k by (subst skip_varint.simps) (simp add: peek_def ex_cell_def)
    ultimately show ?thesis by (simp add: cellSizeOf_def cellSizePtr_def ex_fields Let_def)
  qed
  then show "cell_ok ex_bt ex_page (new_cell (ex_cell k) 5 0)" unfolding e by (simp add: cell_ok_def) (simp add: ex_cell_def)
qed

theorem insertCell_refines_witness:
  "page_holds ex_bt (snd (insertCell ex_bt (replicate 512 0) SQLITE_OK SQLITE_OK ex_page 0 (ex_cell 1) 5 0)) [ex_cell 1]"
  using insertCell_refines [where tmp = "replicate 512 0" and k = 0 and pager_rc = SQLITE_OK and ptrmap_rc = SQLITE_OK, OF ex_page _ _ _ ex_cell(1), of 1] ex_cell(2) [of 1]
  by (simp add: ex_fields split: prod.split_asm)

text \<open>The page of the other examples holds this cell.\<close>

definition ex_one :: MemPage where
  "ex_one = snd (insertCell ex_bt (replicate 512 0) SQLITE_OK SQLITE_OK ex_page 0 (ex_cell 1) 5 0)"

lemma ex_one: "page_holds ex_bt ex_one [ex_cell 1]"
proof -
  have c: "cell_ok ex_bt ex_page (new_cell (ex_cell 1) 5 0)" by (rule ex_cell(1)) simp
  obtain p' where "insertCell ex_bt (replicate 512 0) SQLITE_OK SQLITE_OK ex_page (int 0) (ex_cell 1) 5 0 = (if autoVacuum ex_bt then SQLITE_OK else SQLITE_OK, p')"
    "page_holds ex_bt p' (take 0 [] @ new_cell (ex_cell 1) 5 0 # drop 0 [])"
    by (rule insert_fits [OF ex_page _ _ _ _ c, where tmp = "replicate 512 0" and k = 0 and ptrmap_rc = SQLITE_OK]) (simp_all add: ex_fields)
  then show ?thesis by (simp add: ex_one_def ex_cell(2))
qed

theorem dropCell_refines_witness: "page_holds ex_bt (snd (dropCell ex_bt ex_one 0 5 SQLITE_OK)) []"
  using dropCell_refines [OF ex_one, of 0 SQLITE_OK] by (simp add: ex_cell_def split: prod.split_asm)

theorem defragmentPage_keeps_cells_witness: "page_holds ex_bt (snd (defragmentPage ex_bt (replicate 512 0) ex_one 0)) [ex_cell 1]"
  using defragmentPage_keeps_cells [OF ex_one, of "replicate 512 0" 0] by (simp add: ex_fields split: prod.split_asm)

theorem page_read_back_witness:
  "\<exists>p1 p2. btreeInitPage ex_bt ((raw_page (hdrOffset ex_one) (aData ex_one))) = (SQLITE_OK, p1) \<and> btreeComputeFreeSpace ex_bt p1 = (SQLITE_OK, p2) \<and>
     page_holds ex_bt p2 [ex_cell 1] \<and> nFree p2 = nFree ex_one"
  by (rule page_read_back [OF ex_one]) (simp_all add: raw_page_def)

end
