(* ===== verification/Spec2Isabelle.thy ===== *)
theory Spec2Isabelle
  imports Prelude HostMemory PyGlue TestMain CoreProtocol VcmlBus Platform
    SqlUtf SqlVarint SqlChar SqlInt SqlHash SetContract SqlBitvec SqlRowSet
    SqlComplete SqlMemJournal SqlValue SqlRecord SqlKeyCompare
    SqlKeyword SqlToken SqlRunParser SqlLike SqlCell SqlPage
begin

text \<open>
  A model of the virtual platform of this repository and of the pure core of the database library
  it carries.

  \<^bold>\<open>The program.\<close> The platform runs the pydrofoil RISC-V simulator, a Python program, as the CPU of
  a SystemC platform built with the VCML library. \<open>src/gluecode.py\<close> exports the simulator through a
  C interface (\<open>src/pydrofoilcapi.h\<close>). Two programs use it: the test driver \<open>src/testmain.c\<close>, which
  gives the CPU a sparse memory of its own, and the platform \<open>src/sysc_vp\<close>, where \<open>PydrofoilCore\<close>
  (\<open>core.cpp\<close>) runs the simulator on a second thread (\<open>python_tasks.cpp\<close>) and serves its memory
  accesses (\<open>memory_callbacks.cpp\<close>) on the SystemC thread over the VCML bus that \<open>system.cpp\<close> binds.
  Most of the C code of the repository is the SQLite amalgamation
  (\<open>src/sysc_vp/deps/systemc/src/inscight/sqlite/sqlite3.c\<close>), which the SystemC tracing library uses
  to store its records.

  \<^bold>\<open>The platform's own code.\<close>
  \<^item> \<open>HostMemory\<close>: \<open>write_mem\<close> and \<open>read_mem\<close> of \<open>testmain.c\<close>, the linked list of 16 MiB blocks as
    a list of records, the \<open>calloc\<close> that may fail as a parameter. The locale \<open>ram_callbacks\<close> states
    what a CPU may expect of a memory (a write is read back at its cell and nowhere else, and keeps
    the invariant); its interpretation \<open>host\<close> on the block list gives the refinement of a flat
    memory. One block per frame is the invariant.
  \<^item> \<open>PyGlue\<close>: the class \<open>C\<close> of \<open>gluecode.py\<close> with its handles and every exported function. The
    simulator itself is not in the repository: it is the parameter \<open>engine\<close>, a reset, a set-up and a
    step that names its memory accesses. A Python exception is a value; the exported functions turn
    it into cffi's default result 0.
  \<^item> \<open>TestMain\<close>: \<open>main\<close> over both, with the lines it prints; it behaves over the block list as over a
    flat memory.
  \<^item> \<open>CoreProtocol\<close>: what the two threads do between \<open>simulate\<close> and its end, as the inductive step
    relation \<open>sys_step\<close> whose steps are single operations on mutexes, condition variables, promises
    and queues. The invariant \<open>sys_inv\<close> is proved by rule induction; from it follow the order of the
    accesses, the list of the stuck states (the proper end and a lost wake-up), and with
    \<open>sys_measure\<close> a bound on the length of all runs.
  \<^item> \<open>VcmlBus\<close>: \<open>vcml::range\<close>, the ordered set of mappings and the decoding of \<open>generic::bus\<close>, and
    the bounds of \<open>tlm_memory\<close>. \<open>Platform\<close>: the address map of \<open>system.cpp\<close>, the callbacks, the
    registers, tasks and counters of \<open>core.cpp\<close> and \<open>core.h\<close>, seen by one thread.

  \<^bold>\<open>The routines of SQLite.\<close> The modelled files are those whose state is their own; pointers that
  only link a structure become lists and trees, and what the files get from elsewhere (the allocator,
  the operating system's file) is a parameter.
  \<^item> \<open>SqlUtf\<close> (\<open>utf.c\<close>): reading and writing UTF-8 and UTF-16, the conversion of a \<open>Mem\<close> between
    the encodings and its buffer sizes, byte order marks, lengths.
  \<^item> \<open>SqlVarint\<close> (\<open>util.c\<close>): the variable-length integers; the unrolled readers are equal to a
    seven-bits-a-byte reference on every byte sequence.
  \<^item> \<open>SqlChar\<close> (\<open>global.c\<close>, \<open>util.c\<close>): the character tables and the string routines over them.
  \<^item> \<open>SqlInt\<close> (\<open>util.c\<close>): 64-bit arithmetic with overflow detection and the integer conversions. A
    signed operation that overflows is undefined in C, so an \<open>i64\<close> is an integer with a range and the
    theorems show that no operation leaves it.
  \<^item> \<open>SqlHash\<close> (\<open>hash.c\<close>): the symbol table, one doubly-linked list and an array of buckets that
    point into it; it refines a map on case-folded names.
  \<^item> \<open>SetContract\<close>, \<open>SqlBitvec\<close> (\<open>bitvec.c\<close>), \<open>SqlRowSet\<close> (\<open>rowset.c\<close>): two sets of numbers that
    change their representation as they grow. The locale \<open>number_set\<close> holds the laws of an insertion,
    a deletion and a test and proves once what a sequence of operations leaves in the set; its
    interpretations \<open>bv\<close> and \<open>row\<close> are on the code's models.
  \<^item> \<open>SqlComplete\<close> (\<open>complete.c\<close>): the state machine of \<open>sqlite3_complete\<close> against a declarative
    account of when a text is a sequence of finished statements.
  \<^item> \<open>SqlMemJournal\<close> (\<open>memjournal.c\<close>): the rollback journal in memory as a file of bytes, and its
    spill to a real file.
  \<^item> \<open>SqlValue\<close> (\<open>vdbemem.c\<close>, \<open>vdbeaux.c\<close>, the collating functions of \<open>main.c\<close>): a value cell (\<open>Mem\<close>), its
    serialized forms, and the comparison of two cells. A double is its 64 bits with an exact integer
    value in units of \<open>2 ^ - 1074\<close>, so the comparison of integers and reals is proved exact for both
    ways it is compiled. The locale \<open>collation\<close> holds the laws of a collating sequence; its
    interpretations are the three built-in ones, and the order of the values is proved in it.
  \<^item> \<open>SqlRecord\<close> (\<open>OP_MakeRecord\<close> of \<open>vdbe.c\<close>, \<open>sqlite3VdbeRecordUnpack\<close>): the record format, written into
    a buffer and taken apart; the predicate \<open>column\<close> says which bytes store which value and is what
    the other proofs use. \<open>SqlKeyCompare\<close>: \<open>sqlite3VdbeRecordCompare\<close>, the fast comparisons, their choice,
    the checking comparison and the rowid of an index entry, against the order \<open>key_cmp\<close> of the values.

  \<^item> \<open>SqlKeyword\<close> (\<open>keywordhash.h\<close>): the generated hash table of the keywords against the list of them.
    \<open>SqlToken\<close> (\<open>tokenize.c\<close>): \<open>sqlite3GetToken\<close>, every case of its switch; a token is never empty and never
    longer than the text, and quoting is undone by the tokenizer and \<open>sqlite3Dequote\<close>. \<open>SqlRunParser\<close>: the loop of
    \<open>sqlite3RunParser\<close> with its look-ahead; the parser is a parameter. It is equal to feeding a list of tokens.
  \<^item> \<open>SqlLike\<close> (\<open>func.c\<close>): \<open>patternCompare\<close> with its searches behind a wildcard and \<open>likeFunc\<close>, against the
    meaning of a pattern as a list of items over characters.
  \<^item> \<open>SqlCell\<close>, \<open>SqlPage\<close> (\<open>btree.c\<close>): the cells of a b-tree page and its space. \<open>layout\<close> says where the cells
    and the free blocks lie, \<open>space_ok\<close> that the bytes of a page describe this layout, and \<open>page_holds\<close> that
    the page holds a list of cells. Allocation, release and defragmentation keep \<open>space_ok\<close>; the insertion and
    the removal of a cell refine those of the list, and the checks of a page read from the file accept it.

  \<open>Prelude\<close> has the type synonyms of the fixed-width integers, the collections \<open>mem_laws\<close> and
  \<open>step_inv\<close>, and facts on words, lists and bytes that several theories use.

  \<^bold>\<open>Effects and errors.\<close> State is passed explicitly in records with the fields of the source. An
  allocator is a list of answers, one for each call in order, or a function of the request; every
  failure branch of the source is a branch of the model. Error codes keep their numbers.

  \<^bold>\<open>Bounds and fuel.\<close> Loops are structural, or recursive functions with a termination measure. Three
  loops get fuel, and theorems show it is enough: a collision chain of the keyword table is shorter than the
  table; the descent into the nested bitmaps has \<open>BV_FUEL\<close>
  levels although 32-bit numbers need at most four, and the probes of a hashed bitmap stop after its
  \<open>BITVEC_NINT\<close> slots because one slot is always free. The sort of the row set has the 40 buckets of
  the source, which suffice for \<open>2 ^ 40\<close> entries; the theorems on it state this bound. A read of
  a \<open>char*\<close> beyond the bytes the model holds gives the terminating zero.

  \<^bold>\<open>Not modelled.\<close> The pydrofoil simulator and the Python interpreter (not in the repository); the
  SystemC kernel, VCML beyond the bus and memory, MWR and googletest, which the platform only calls;
  in SQLite everything that depends on the operating system, on threads or on floating-point
  arithmetic beyond comparison (\<open>sqlite3AtoF\<close>, \<open>printf.c\<close>, \<open>date.c\<close>), and the parser, the opcodes of the
  virtual machine but \<open>OP_MakeRecord\<close> (without its affinities), the b-tree beyond
  the space of a single page (balancing, cursors, the pointer map, transactions), the pager, the write-ahead
  log and the extensions, whose state is shared over many files.
  Functions that only free memory have no counterpart, because the models have no addresses to free.

  \<^bold>\<open>What the theorems show to be wrong in the code.\<close> A wake-up of the SystemC thread can be lost, and
  the first access of a run can be dropped (\<open>CoreProtocol\<close>); every value the CPU reads is overwritten,
  a cycle count from \<open>2 ^ 31\<close> on is wrong, and addresses without memory pass the filter
  (\<open>Platform\<close>); a mapping of one range for two sources is lost and \<open>tlm_memory\<close> can be read past
  its size (\<open>VcmlBus\<close>); \<open>sqlite3GetUInt32\<close> accepts 4294967296 (\<open>SqlInt\<close>), \<open>sqlite3VarintLen\<close>
  is off by one from \<open>2 ^ 63\<close> on (\<open>SqlVarint\<close>), and the in-memory journal returns stale bytes after
  a truncation to a multiple of its chunk size (\<open>SqlMemJournal\<close>), and the DEL byte passes for an underscore in
  a keyword (\<open>SqlKeyword\<close>); \<open>*\<close> with U+0080 behind it matches other characters (\<open>SqlLike\<close>). The
  payload size of a cell is not read the way its comment says, which only corrupt pages show (\<open>SqlCell\<close>).
\<close>

end
